(* ===== verification/Prelude.thy ===== *)
theory Prelude
  imports Main "HOL-Library.Word"
begin

text \<open>
  Shared vocabulary of the development.

  \<^item> Machine types of the platform the code is compiled for (x86-64, LP64, little endian):
    \<open>c_int\<close> is \<^verbatim>\<open>int\<close> (read with \<^const>\<open>sint\<close>), \<open>size_t\<close> is \<^verbatim>\<open>size_t\<close> and
    \<^verbatim>\<open>unsigned long\<close>, \<open>byte\<close> is \<^verbatim>\<open>char\<close>.
  \<^item> \<open>'a result\<close>: a computation that may end in a failed \<^verbatim>\<open>assert\<close>, in undefined behaviour
    (signed overflow, division by zero, access outside a buffer, null pointer), in an
    allocation of a negative size, in an error of MPI or in a self-deadlock on a mutex. Every such branch of the C++ code is an \<open>Inl\<close>.
  \<^item> Byte buffers: \<open>peek\<close> and \<open>poke\<close>, and their bounds-checked forms \<open>mem_read\<close> and
    \<open>mem_write\<close>, which model pointer reads, \<^verbatim>\<open>memcpy\<close> and struct member accesses.
  \<^item> Little-endian object representations of \<open>c_int\<close> and \<open>size_t\<close>.
\<close>

section \<open>Machine types\<close>

type_synonym byte = "8 word"
type_synonym c_int = "32 word"
type_synonym size_t = "64 word"

named_theorems byte_simps "layout facts on byte buffers"
named_theorems result_simps "the result type and its sequencing"

section \<open>Failures as values\<close>

datatype failure =
    Assert_failed
  | Out_of_bounds
  | Null_deref
  | Int_overflow
  | Div_by_zero
  | Bad_alloc
  | Mpi_error
  | Deadlock

type_synonym 'a result = "failure + 'a"

definition bindE :: "'a result \<Rightarrow> ('a \<Rightarrow> 'b result) \<Rightarrow> 'b result" where
  "bindE m f = (case m of Inl e \<Rightarrow> Inl e | Inr x \<Rightarrow> f x)"

definition assertE :: "bool \<Rightarrow> unit result" where
  "assertE b = (if b then Inr () else Inl Assert_failed)"

lemma bindE_Inl [simp]: "bindE (Inl e) f = Inl e"
  by (simp add: bindE_def)

lemma bindE_Inr [simp]: "bindE (Inr x) f = f x"
  by (simp add: bindE_def)

lemma bindE_eq_Inr [result_simps]:
  "bindE m f = Inr y \<longleftrightarrow> (\<exists>x. m = Inr x \<and> f x = Inr y)"
  by (cases m) auto

lemma bindE_eq_InrE [elim]:
  assumes "bindE m f = Inr y"
  obtains x where "m = Inr x" and "f x = Inr y"
  using assms by (cases m) auto

lemma bindE_assoc [simp]: "bindE (bindE m f) g = bindE m (\<lambda>x. bindE (f x) g)"
  by (cases m) auto

lemma bindE_if [simp]:
  "bindE (if b then m else n) f = (if b then bindE m f else bindE n f)"
  by simp

lemma assertE_True [simp]: "assertE True = Inr ()"
  by (simp add: assertE_def)

lemma assertE_False [simp]: "assertE False = Inl Assert_failed"
  by (simp add: assertE_def)

lemma assertE_eq_Inr [result_simps]: "assertE b = Inr u \<longleftrightarrow> b"
  by (simp add: assertE_def)

text \<open>A loop over a list whose body may fail: it stops at the first failure.\<close>

fun foldE :: "('a \<Rightarrow> 's \<Rightarrow> 's result) \<Rightarrow> 'a list \<Rightarrow> 's \<Rightarrow> 's result" where
  "foldE f [] s = Inr s"
| "foldE f (x # xs) s = bindE (f x s) (foldE f xs)"

lemma foldE_append: "foldE f (xs @ ys) s = bindE (foldE f xs s) (foldE f ys)"
  by (induction xs arbitrary: s) (simp_all add: bindE_def split: sum.split)

text \<open>A property kept by every successful body is kept by the loop.\<close>

lemma foldE_invariant:
  assumes "foldE f xs s = Inr t" and "I s"
    and "\<And>x s t. x \<in> set xs \<Longrightarrow> I s \<Longrightarrow> f x s = Inr t \<Longrightarrow> I t"
  shows "I t"
  using assms
proof (induction xs arbitrary: s)
  case Nil
  then show ?case by simp
next
  case (Cons x xs)
  from Cons.prems(1) obtain u where u: "f x s = Inr u" and rest: "foldE f xs u = Inr t"
    by auto
  have "I u" using Cons.prems(2) u by (intro Cons.prems(3) [of x s u]) simp_all
  then show ?case
    using rest by (intro Cons.IH [of u]) (auto intro: Cons.prems(3))
qed

text \<open>Every successful outcome satisfies \<open>Q\<close>; one rule per construct that sequences computations.\<close>

definition okE :: "'a result \<Rightarrow> ('a \<Rightarrow> bool) \<Rightarrow> bool" where
  "okE m Q \<longleftrightarrow> (\<forall>r. m = Inr r \<longrightarrow> Q r)"

named_theorems okE_rules "rules for okE"

lemma okED: "okE m Q \<Longrightarrow> m = Inr r \<Longrightarrow> Q r"
  by (simp add: okE_def)

lemma okEI: "(\<And>r. m = Inr r \<Longrightarrow> Q r) \<Longrightarrow> okE m Q"
  by (simp add: okE_def)

lemma okE_Inr [okE_rules]: "Q x \<Longrightarrow> okE (Inr x) Q"
  by (simp add: okE_def)

lemma okE_Inl [okE_rules]: "okE (Inl e) Q"
  by (simp add: okE_def)

lemma okE_bindI: "okE m P \<Longrightarrow> (\<And>x. P x \<Longrightarrow> okE (f x) Q) \<Longrightarrow> okE (bindE m f) Q"
  by (auto simp: okE_def result_simps)

lemma okE_bind [okE_rules]: "(\<And>x. m = Inr x \<Longrightarrow> okE (f x) Q) \<Longrightarrow> okE (bindE m f) Q"
  by (auto simp: okE_def result_simps)

lemma okE_if [okE_rules]: "(b \<Longrightarrow> okE m Q) \<Longrightarrow> (\<not> b \<Longrightarrow> okE n Q) \<Longrightarrow> okE (if b then m else n) Q"
  by simp

lemma okE_option [okE_rules]:
  "(x = None \<Longrightarrow> okE m Q) \<Longrightarrow> (\<And>y. x = Some y \<Longrightarrow> okE (f y) Q) \<Longrightarrow>
    okE (case x of None \<Rightarrow> m | Some y \<Rightarrow> f y) Q"
  by (cases x) simp_all

lemma okE_prod [okE_rules]:
  "(\<And>a b. x = (a, b) \<Longrightarrow> okE (f a b) Q) \<Longrightarrow> okE (case x of (a, b) \<Rightarrow> f a b) Q"
  by (cases x) simp

lemma okE_Let [okE_rules]: "(\<And>x. x = v \<Longrightarrow> okE (f x) Q) \<Longrightarrow> okE (let x = v in f x) Q"
  by simp

lemma okE_foldE: "I s \<Longrightarrow> (\<And>x s. I s \<Longrightarrow> okE (f x s) I) \<Longrightarrow> okE (foldE f xs s) I"
  by (induction xs arbitrary: s) (auto intro!: okE_Inr okE_bindI)

lemma okE_mono: "okE m P \<Longrightarrow> (\<And>x. P x \<Longrightarrow> Q x) \<Longrightarrow> okE m Q"
  by (simp add: okE_def)

fun mapE :: "('a \<Rightarrow> 'b result) \<Rightarrow> 'a list \<Rightarrow> 'b list result" where
  "mapE f [] = Inr []"
| "mapE f (x # xs) = bindE (f x) (\<lambda>y. bindE (mapE f xs) (\<lambda>ys. Inr (y # ys)))"

lemma mapE_eq_map: "(\<And>x. x \<in> set xs \<Longrightarrow> f x = Inr (g x)) \<Longrightarrow> mapE f xs = Inr (map g xs)"
  by (induction xs) simp_all

lemma mapE_length: "mapE f xs = Inr ys \<Longrightarrow> length ys = length xs"
  by (induction xs arbitrary: ys) (auto simp: result_simps)

lemma mapE_nth: "mapE f xs = Inr ys \<Longrightarrow> i < length xs \<Longrightarrow> f (xs ! i) = Inr (ys ! i)"
  by (induction xs arbitrary: ys i) (auto simp: result_simps nth_Cons split: nat.split)

section \<open>Signed arithmetic with overflow as a failure\<close>

definition int_fits :: "int \<Rightarrow> bool" where
  "int_fits z \<longleftrightarrow> - (2 ^ 31) \<le> z \<and> z < 2 ^ 31"

definition add_int :: "c_int \<Rightarrow> c_int \<Rightarrow> c_int result" where
  "add_int a b = (if int_fits (sint a + sint b) then Inr (a + b) else Inl Int_overflow)"

definition sub_int :: "c_int \<Rightarrow> c_int \<Rightarrow> c_int result" where
  "sub_int a b = (if int_fits (sint a - sint b) then Inr (a - b) else Inl Int_overflow)"

definition mul_int :: "c_int \<Rightarrow> c_int \<Rightarrow> c_int result" where
  "mul_int a b = (if int_fits (sint a * sint b) then Inr (a * b) else Inl Int_overflow)"

text \<open>Division truncates towards zero.\<close>

definition div_int :: "c_int \<Rightarrow> c_int \<Rightarrow> c_int result" where
  "div_int a b =
     (if b = 0 then Inl Div_by_zero
      else let q = sgn (sint a) * sgn (sint b) * (\<bar>sint a\<bar> div \<bar>sint b\<bar>)
           in if int_fits q then Inr (of_int q) else Inl Int_overflow)"

lemma sint_of_fits: "int_fits z \<Longrightarrow> sint (of_int z :: c_int) = z"
  by (simp add: int_fits_def signed_of_int signed_take_bit_int_eq_self)

lemma add_int_fits: "int_fits (sint a + sint b) \<Longrightarrow> add_int a b = Inr (a + b)"
  by (simp add: add_int_def)

lemma sub_int_fits: "int_fits (sint a - sint b) \<Longrightarrow> sub_int a b = Inr (a - b)"
  by (simp add: sub_int_def)

lemma mul_int_fits: "int_fits (sint a * sint b) \<Longrightarrow> mul_int a b = Inr (a * b)"
  by (simp add: mul_int_def)

text \<open>Small naturals as machine integers, and the conversions between the two widths.\<close>

lemma sint_of_nat_small [simp]: "k < 2 ^ 31 \<Longrightarrow> sint (of_nat k :: c_int) = int k"
  using sint_of_fits [of "int k"] by (simp add: int_fits_def)

lemma unat_int_of_nat [simp]: "k < 2 ^ 32 \<Longrightarrow> unat (of_nat k :: c_int) = k"
  by (simp add: unat_of_nat)

lemma unat_size_of_nat [simp]: "k < 2 ^ 64 \<Longrightarrow> unat (of_nat k :: size_t) = k"
  by (simp add: unat_of_nat)

lemma scast_int_size [simp]:
  "k < 2 ^ 31 \<Longrightarrow> (scast (of_nat k :: c_int) :: size_t) = of_nat k"
  by (simp add: scast_eq)

lemma ucast_size_int [simp]:
  "k < 2 ^ 32 \<Longrightarrow> (ucast (of_nat k :: size_t) :: c_int) = of_nat k"
  by (simp add: unsigned_of_nat take_bit_nat_eq_self)

lemma size_div_of_nat:
  "a < 2 ^ 64 \<Longrightarrow> b < 2 ^ 64 \<Longrightarrow> (of_nat a :: size_t) div of_nat b = of_nat (a div b)"
  by (subst word_arith_nat_div) simp

lemma size_mod_of_nat:
  "a < 2 ^ 64 \<Longrightarrow> b < 2 ^ 64 \<Longrightarrow> (of_nat a :: size_t) mod of_nat b = of_nat (a mod b)"
  by (subst word_arith_nat_mod) simp

lemma unat_size_less [simp]: "unat (w :: size_t) < 18446744073709551616"
  using unsigned_less [of w, where ?'a = nat] by simp

lemma unat_int_less [simp]: "unat (w :: c_int) < 4294967296"
  using unsigned_less [of w, where ?'a = nat] by simp

lemma unat_size_add:
  "unat (a :: size_t) + unat b < 2 ^ 64 \<Longrightarrow> unat (a + b) = unat a + unat b"
  by (simp add: unat_word_ariths)

lemma int_fits_of_nat: "k < 2 ^ 31 \<Longrightarrow> int_fits (int k)"
  by (simp add: int_fits_def)

lemma add_int_of_nat:
  assumes "a + b < 2 ^ 31"
  shows "add_int (of_nat a) (of_nat b) = Inr (of_nat (a + b))"
proof -
  have "sint (of_nat a :: c_int) + sint (of_nat b :: c_int) = int (a + b)"
    using assms by simp
  moreover have "int_fits (int (a + b))" using assms by (rule int_fits_of_nat)
  ultimately show ?thesis by (simp add: add_int_def)
qed

lemma sub_int_of_nat:
  assumes "b \<le> a" and "a < 2 ^ 31"
  shows "sub_int (of_nat a) (of_nat b) = Inr (of_nat (a - b))"
proof -
  have "sint (of_nat a :: c_int) - sint (of_nat b :: c_int) = int (a - b)"
    using assms by simp
  moreover have "int_fits (int (a - b))" using assms by (intro int_fits_of_nat) simp
  ultimately show ?thesis using assms by (simp add: sub_int_def)
qed

lemma mul_int_of_nat:
  assumes "a < 2 ^ 31" and "b < 2 ^ 31" and "a * b < 2 ^ 31"
  shows "mul_int (of_nat a) (of_nat b) = Inr (of_nat (a * b))"
proof -
  have "sint (of_nat a :: c_int) * sint (of_nat b :: c_int) = int (a * b)"
    using assms by simp
  moreover have "int_fits (int (a * b))" using assms(3) by (rule int_fits_of_nat)
  ultimately show ?thesis by (simp add: mul_int_def)
qed

lemma div_int_of_nat:
  assumes "a < 2 ^ 31" and "0 < b" and "b < 2 ^ 31"
  shows "div_int (of_nat a) (of_nat b) = Inr (of_nat (a div b))"
proof -
  have "(of_nat b :: c_int) \<noteq> 0"
  proof
    assume "(of_nat b :: c_int) = 0"
    then have "unat (of_nat b :: c_int) = 0" by simp
    with assms show False by simp
  qed
  moreover have "sgn (int a) * sgn (int b) * (\<bar>int a\<bar> div \<bar>int b\<bar>) = int (a div b)"
    using assms(2) by (cases "a = 0") (simp_all add: sgn_if zdiv_int)
  moreover have "int_fits (int (a div b))"
    using assms(1) by (intro int_fits_of_nat) (rule le_less_trans [OF div_le_dividend])
  ultimately show ?thesis using assms by (simp add: div_int_def)
qed

section \<open>Byte buffers\<close>

definition peek :: "nat \<Rightarrow> nat \<Rightarrow> byte list \<Rightarrow> byte list" where
  "peek off n buf = take n (drop off buf)"

definition poke :: "nat \<Rightarrow> byte list \<Rightarrow> byte list \<Rightarrow> byte list" where
  "poke off bs buf = take off buf @ bs @ drop (off + length bs) buf"

definition mem_read :: "byte list \<Rightarrow> nat \<Rightarrow> nat \<Rightarrow> byte list result" where
  "mem_read buf off n =
     (if off + n \<le> length buf then Inr (peek off n buf) else Inl Out_of_bounds)"

definition mem_write :: "nat \<Rightarrow> byte list \<Rightarrow> byte list \<Rightarrow> byte list result" where
  "mem_write off bs buf =
     (if off + length bs \<le> length buf then Inr (poke off bs buf) else Inl Out_of_bounds)"

text \<open>\<^verbatim>\<open>new char[n]\<close>: the contents are whatever the heap holds; \<open>mem\<close> is that content.\<close>

definition new_char :: "(nat \<Rightarrow> byte) \<Rightarrow> nat \<Rightarrow> byte list" where
  "new_char mem n = map mem [0..<n]"

lemma length_new_char [simp]: "length (new_char mem n) = n"
  by (simp add: new_char_def)

lemma length_peek [byte_simps]: "length (peek off n buf) = min n (length buf - off)"
  by (simp add: peek_def)

lemma length_poke [byte_simps]:
  "off + length bs \<le> length buf \<Longrightarrow> length (poke off bs buf) = length buf"
  by (simp add: poke_def)

lemma peek_poke_same [byte_simps]:
  "n = length bs \<Longrightarrow> off + n \<le> length buf \<Longrightarrow> peek off n (poke off bs buf) = bs"
  by (simp add: peek_def poke_def)

lemma peek_poke_before [byte_simps]:
  assumes "off + n \<le> off'" and "off' + length bs \<le> length buf"
  shows "peek off n (poke off' bs buf) = peek off n buf"
  using assms by (simp add: peek_def poke_def take_drop min_def)

lemma peek_poke_after [byte_simps]:
  assumes "off' + length bs \<le> off" and "off' + length bs \<le> length buf"
  shows "peek off n (poke off' bs buf) = peek off n buf"
proof -
  have "drop off (poke off' bs buf) = drop off buf"
    using assms by (simp add: poke_def)
  then show ?thesis by (simp add: peek_def)
qed

lemma peek_all: "n = length buf \<Longrightarrow> peek 0 n buf = buf"
  by (simp add: peek_def)

lemma poke_Nil [simp]: "off \<le> length buf \<Longrightarrow> poke off [] buf = buf"
  by (simp add: poke_def)

lemma nth_poke:
  assumes "off + length bs \<le> length buf" and "i < length buf"
  shows "poke off bs buf ! i = (if off \<le> i \<and> i < off + length bs then bs ! (i - off) else buf ! i)"
  using assms by (auto simp: poke_def nth_append min_def)

lemma nth_peek: "i < n \<Longrightarrow> off + i < length buf \<Longrightarrow> peek off n buf ! i = buf ! (off + i)"
  by (simp add: peek_def)

lemma mem_read_Inr [byte_simps]:
  "off + n \<le> length buf \<Longrightarrow> mem_read buf off n = Inr (peek off n buf)"
  by (simp add: mem_read_def)

lemma mem_write_Inr [byte_simps]:
  "off + length bs \<le> length buf \<Longrightarrow> mem_write off bs buf = Inr (poke off bs buf)"
  by (simp add: mem_write_def)

section \<open>Little-endian object representation\<close>

fun le_enc :: "nat \<Rightarrow> nat \<Rightarrow> byte list" where
  "le_enc 0 x = []"
| "le_enc (Suc n) x = of_nat (x mod 256) # le_enc n (x div 256)"

fun le_dec :: "byte list \<Rightarrow> nat" where
  "le_dec [] = 0"
| "le_dec (b # bs) = unat b + 256 * le_dec bs"

lemma length_le_enc [simp]: "length (le_enc n x) = n"
  by (induction n arbitrary: x) simp_all

lemma unat_byte_mod: "unat (of_nat (x mod 256) :: byte) = x mod 256"
  by (simp add: unat_of_nat)

lemma le_dec_enc: "le_dec (le_enc n x) = x mod 256 ^ n"
proof (induction n arbitrary: x)
  case 0
  then show ?case by simp
next
  case (Suc n)
  have "x mod 256 ^ Suc n = x mod 256 + 256 * (x div 256 mod 256 ^ n)"
    by (simp add: mod_mult2_eq)
  then show ?case by (simp add: Suc unat_byte_mod)
qed

lemma le_enc_dec: "le_enc (length bs) (le_dec bs) = bs"
proof (induction bs)
  case Nil
  then show ?case by simp
next
  case (Cons b bs)
  have "unat b < 256" using unsigned_less [of b, where ?'a = nat] by simp
  then have "(unat b + 256 * le_dec bs) mod 256 = unat b"
    and "(unat b + 256 * le_dec bs) div 256 = le_dec bs"
    by simp_all
  with Cons show ?case by simp
qed

lemma le_enc_add: "le_enc (m + n) x = le_enc m x @ le_enc n (x div 256 ^ m)"
  by (induction m arbitrary: x) (simp_all add: div_mult2_eq)

lemma le_enc_mod: "le_enc n (x mod 256 ^ n) = le_enc n x"
  using le_enc_dec [of "le_enc n x"] by (simp add: le_dec_enc)

lemma le_enc_zero: "le_enc n 0 = replicate n 0"
  by (induction n) simp_all

definition int_bytes :: "c_int \<Rightarrow> byte list" where
  "int_bytes w = le_enc 4 (unat w)"

definition bytes_int :: "byte list \<Rightarrow> c_int" where
  "bytes_int bs = of_nat (le_dec bs)"

definition size_bytes :: "size_t \<Rightarrow> byte list" where
  "size_bytes w = le_enc 8 (unat w)"

definition bytes_size :: "byte list \<Rightarrow> size_t" where
  "bytes_size bs = of_nat (le_dec bs)"

lemma length_int_bytes [simp]: "length (int_bytes w) = 4"
  by (simp add: int_bytes_def)

lemma length_size_bytes [simp]: "length (size_bytes w) = 8"
  by (simp add: size_bytes_def)

lemma bytes_int_bytes [simp]: "bytes_int (int_bytes w) = w"
proof -
  have "unat w < 256 ^ 4" using unsigned_less [of w, where ?'a = nat] by simp
  then show ?thesis by (simp add: bytes_int_def int_bytes_def le_dec_enc)
qed

lemma bytes_size_bytes [simp]: "bytes_size (size_bytes w) = w"
proof -
  have "unat w < 256 ^ 8" using unsigned_less [of w, where ?'a = nat] by simp
  then show ?thesis by (simp add: bytes_size_def size_bytes_def le_dec_enc)
qed

text \<open>Reads and writes of an \<^verbatim>\<open>int\<close> or \<^verbatim>\<open>size_t\<close> member at a byte offset of a buffer.\<close>

definition get_int :: "byte list \<Rightarrow> nat \<Rightarrow> c_int result" where
  "get_int buf off = bindE (mem_read buf off 4) (\<lambda>bs. Inr (bytes_int bs))"

definition put_int :: "nat \<Rightarrow> c_int \<Rightarrow> byte list \<Rightarrow> byte list result" where
  "put_int off w buf = mem_write off (int_bytes w) buf"

definition get_size :: "byte list \<Rightarrow> nat \<Rightarrow> size_t result" where
  "get_size buf off = bindE (mem_read buf off 8) (\<lambda>bs. Inr (bytes_size bs))"

definition put_size :: "nat \<Rightarrow> size_t \<Rightarrow> byte list \<Rightarrow> byte list result" where
  "put_size off w buf = mem_write off (size_bytes w) buf"

lemma get_int_Inr [byte_simps]:
  "off + 4 \<le> length buf \<Longrightarrow> get_int buf off = Inr (bytes_int (peek off 4 buf))"
  by (simp add: get_int_def mem_read_Inr)

lemma put_int_Inr [byte_simps]:
  "off + 4 \<le> length buf \<Longrightarrow> put_int off w buf = Inr (poke off (int_bytes w) buf)"
  by (simp add: put_int_def mem_write_Inr)

lemma get_size_Inr [byte_simps]:
  "off + 8 \<le> length buf \<Longrightarrow> get_size buf off = Inr (bytes_size (peek off 8 buf))"
  by (simp add: get_size_def mem_read_Inr)

lemma put_size_Inr [byte_simps]:
  "off + 8 \<le> length buf \<Longrightarrow> put_size off w buf = Inr (poke off (size_bytes w) buf)"
  by (simp add: put_size_def mem_write_Inr)

section \<open>Arrays of fixed-width elements\<close>

lemma length_concat_fixed:
  "(\<And>x. length (f x) = m) \<Longrightarrow> length (concat (map f xs)) = m * length xs"
  by (induction xs) simp_all

lemma drop_concat_fixed:
  assumes "\<And>x. length (f x) = m"
  shows "drop (m * i) (concat (map f xs)) = concat (map f (drop i xs))"
proof (induction xs arbitrary: i)
  case Nil
  then show ?case by simp
next
  case (Cons x xs)
  then show ?case using assms by (cases i) simp_all
qed

lemma take_concat_fixed:
  assumes "\<And>x. length (f x) = m"
  shows "take (m * i) (concat (map f xs)) = concat (map f (take i xs))"
proof (induction xs arbitrary: i)
  case Nil
  then show ?case by simp
next
  case (Cons x xs)
  then show ?case using assms by (cases i) simp_all
qed

lemma peek_concat_fixed:
  assumes "\<And>x. length (f x) = m" and "i < length xs"
  shows "peek (m * i) m (concat (map f xs)) = f (xs ! i)"
proof -
  have "drop i xs = xs ! i # drop (Suc i) xs" using assms(2) by (simp add: Cons_nth_drop_Suc)
  then show ?thesis
    using assms(1) by (simp add: peek_def drop_concat_fixed [OF assms(1)])
qed

lemma poke_concat_fixed:
  assumes "\<And>x. length (f x) = m" and "i < length xs"
  shows "poke (m * i) (f y) (concat (map f xs)) = concat (map f (xs[i := y]))"
proof -
  have "m * i + m = m * Suc i" by simp
  then have "poke (m * i) (f y) (concat (map f xs))
      = concat (map f (take i xs)) @ f y @ concat (map f (drop (Suc i) xs))"
    using assms(1) by (simp add: poke_def take_concat_fixed drop_concat_fixed del: mult_Suc_right)
  also have "\<dots> = concat (map f (xs[i := y]))"
    using assms(2) by (simp add: upd_conv_take_nth_drop)
  finally show ?thesis .
qed

lemma peek_append_right: "peek (length xs + off) n (xs @ ys) = peek off n ys"
  by (simp add: peek_def)

lemma poke_append_right:
  "poke (length xs + off) bs (xs @ ys) = xs @ poke off bs ys"
  by (simp add: poke_def)

text \<open>Writing equally long chunks one after the other.\<close>

lemma foldE_write_chunks:
  assumes "\<And>s. s < p \<Longrightarrow> length (c s) = m" and "base + p * m \<le> length buf"
  shows "foldE (\<lambda>s. mem_write (base + s * m) (c s)) [0..<p] buf =
    Inr (take base buf @ concat (map c [0..<p]) @ drop (base + p * m) buf)"
  using assms
proof (induction p)
  case 0
  then show ?case by simp
next
  case (Suc p)
  let ?b = "take base buf @ concat (map c [0..<p]) @ drop (base + p * m) buf"
  have IH: "foldE (\<lambda>s. mem_write (base + s * m) (c s)) [0..<p] buf = Inr ?b"
    using Suc by simp
  have len: "length (concat (map c [0..<p])) = p * m"
  proof -
    have "map (\<lambda>s. length (c s)) [0..<p] = map (\<lambda>s. m) [0..<p]"
      using Suc.prems(1) by simp
    then show ?thesis by (simp add: length_concat comp_def sum_list_triv del: map_eq_conv)
  qed
  have cp: "length (c p) = m" using Suc.prems(1) by simp
  have base: "length (take base buf) = base" using Suc.prems(2) by simp
  have fits: "base + p * m + length (c p) \<le> length ?b"
    using len cp Suc.prems(2) by simp
  have "poke (base + p * m) (c p) ?b =
      take base buf @ concat (map c [0..<Suc p]) @ drop (base + Suc p * m) buf"
    using len cp base Suc.prems(2) by (simp add: poke_def add.commute add.left_commute)
  then show ?case
    using mem_write_Inr [OF fits] by (simp add: foldE_append IH)
qed

section \<open>Filling a struct field by field\<close>

text \<open>
  A constructor that fills a buffer stores a sequence of fields. When the fields lie inside the
  buffer and do not overlap, every field can be read back, whatever the order of the stores
  and whatever the buffer held.
\<close>

fun writes :: "(nat \<times> byte list) list \<Rightarrow> byte list \<Rightarrow> byte list result" where
  "writes [] buf = Inr buf"
| "writes ((off, bs) # ws) buf = bindE (mem_write off bs buf) (writes ws)"

definition apart :: "nat \<times> byte list \<Rightarrow> nat \<times> byte list \<Rightarrow> bool" where
  "apart w v \<longleftrightarrow> fst w + length (snd w) \<le> fst v \<or> fst v + length (snd v) \<le> fst w"

fun layout :: "nat \<Rightarrow> (nat \<times> byte list) list \<Rightarrow> bool" where
  "layout n [] \<longleftrightarrow> True"
| "layout n (w # ws) \<longleftrightarrow> fst w + length (snd w) \<le> n \<and> (\<forall>v\<in>set ws. apart w v) \<and> layout n ws"

lemma writes_keep:
  assumes "writes ws buf = Inr buf'" and "layout (length buf) ws"
    and "\<forall>v\<in>set ws. apart (off, bs) v" and "off + length bs \<le> length buf"
  shows "peek off (length bs) buf' = peek off (length bs) buf"
  using assms
proof (induction ws arbitrary: buf)
  case Nil
  then show ?case by simp
next
  case (Cons w ws)
  obtain o' bs' where w: "w = (o', bs')" by (cases w)
  let ?b = "poke o' bs' buf"
  have in_buf: "o' + length bs' \<le> length buf" using Cons.prems w by simp
  then have len: "length ?b = length buf" by (rule length_poke)
  have "writes ws ?b = Inr buf'" using Cons.prems w in_buf by (simp add: mem_write_Inr)
  then have "peek off (length bs) buf' = peek off (length bs) ?b"
    using Cons.prems len by (intro Cons.IH) simp_all
  also have "\<dots> = peek off (length bs) buf"
    using Cons.prems(3) in_buf w by (auto simp: apart_def peek_poke_before peek_poke_after)
  finally show ?case .
qed

lemma writes_layout:
  assumes "layout (length buf) ws"
  shows "\<exists>buf'. writes ws buf = Inr buf' \<and> length buf' = length buf \<and>
    (\<forall>w\<in>set ws. peek (fst w) (length (snd w)) buf' = snd w)"
  using assms
proof (induction ws arbitrary: buf)
  case Nil
  then show ?case by simp
next
  case (Cons w ws)
  obtain off bs where w: "w = (off, bs)" by (cases w)
  let ?b = "poke off bs buf"
  have in_buf: "off + length bs \<le> length buf" using Cons.prems w by simp
  then have len: "length ?b = length buf" by (rule length_poke)
  then obtain buf' where b: "writes ws ?b = Inr buf'" "length buf' = length ?b"
    "\<forall>w\<in>set ws. peek (fst w) (length (snd w)) buf' = snd w"
    using Cons.IH [of ?b] Cons.prems by auto
  have "peek off (length bs) buf' = peek off (length bs) ?b"
    using b(1) Cons.prems len in_buf w by (intro writes_keep) auto
  also have "\<dots> = bs" using in_buf by (simp add: peek_poke_same)
  finally show ?case using b len in_buf w by (auto simp: mem_write_Inr)
qed

text \<open>Reads inside a prefix do not see what follows it.\<close>

lemma peek_prefix: "off + n \<le> length xs \<Longrightarrow> peek off n (xs @ ys) = peek off n xs"
  by (simp add: peek_def)

lemma mem_read_prefix: "mem_read xs off n = Inr r \<Longrightarrow> mem_read (xs @ ys) off n = Inr r"
  by (simp add: mem_read_def peek_prefix split: if_splits)

lemma get_int_prefix: "get_int xs off = Inr r \<Longrightarrow> get_int (xs @ ys) off = Inr r"
  by (auto simp: get_int_def result_simps dest: mem_read_prefix)

lemma get_size_prefix: "get_size xs off = Inr r \<Longrightarrow> get_size (xs @ ys) off = Inr r"
  by (auto simp: get_size_def result_simps dest: mem_read_prefix)

section \<open>Zero-terminated strings and arrays of int\<close>

text \<open>\<^verbatim>\<open>std::string(const char *)\<close>: the bytes up to the first zero.\<close>

fun c_string :: "byte list \<Rightarrow> byte list result" where
  "c_string [] = Inl Out_of_bounds"
| "c_string (b # bs) = (if b = 0 then Inr [] else bindE (c_string bs) (\<lambda>s. Inr (b # s)))"

lemma c_string_append: "0 \<notin> set s \<Longrightarrow> c_string (s @ 0 # rest) = Inr s"
  by (induction s) auto

lemma c_string_prefix: "c_string xs = Inr r \<Longrightarrow> c_string (xs @ ys) = Inr r"
  by (induction xs arbitrary: r) (auto split: if_splits simp: result_simps)

definition ints_bytes :: "c_int list \<Rightarrow> byte list" where
  "ints_bytes xs = concat (map int_bytes xs)"

definition bytes_ints :: "nat \<Rightarrow> byte list \<Rightarrow> c_int list" where
  "bytes_ints n bs = map (\<lambda>i. bytes_int (peek (4 * i) 4 bs)) [0..<n]"

lemma length_ints_bytes [simp]: "length (ints_bytes xs) = 4 * length xs"
  unfolding ints_bytes_def by (rule length_concat_fixed) simp

lemma bytes_ints_bytes [simp]: "bytes_ints (length xs) (ints_bytes xs) = xs"
proof (rule nth_equalityI)
  fix i assume "i < length (bytes_ints (length xs) (ints_bytes xs))"
  then have i: "i < length xs" by (simp add: bytes_ints_def)
  then show "bytes_ints (length xs) (ints_bytes xs) ! i = xs ! i"
    using peek_concat_fixed [where f = int_bytes and m = 4, OF _ i]
    by (simp add: bytes_ints_def ints_bytes_def)
qed (simp add: bytes_ints_def)

end
