(* ===== verification/Block_Distribution.thy ===== *)
theory Block_Distribution
  imports Prelude
begin

text \<open>
  The block distribution of a vector over the processes of an actor:
  \<^verbatim>\<open>div_range\<close> (src/src/ActiveBSP/src/distributions/block_distribution.cpp) and
  \<^verbatim>\<open>BlockDistributor\<close> (src/src/ActiveBSP/include/Distributor.h).

  \<^verbatim>\<open>div_range\<close> computes with \<^verbatim>\<open>int\<close> on an \<^verbatim>\<open>unsigned long\<close> size: the model keeps both
  widths, the narrowing of the quotient and remainder, and the signed products, whose
  overflow is a failure. Against the mathematical block partition it is exact for every
  vector of less than \<open>2 ^ 31\<close> elements; above, the product it computes can overflow and
  blocks of \<open>2 ^ 31\<close> elements are narrowed.
\<close>

section \<open>The code\<close>

definition div_range :: "size_t \<Rightarrow> c_int \<Rightarrow> c_int \<Rightarrow> (size_t \<times> size_t) result" where
  "div_range n s p =
     (if p = 0 then Inl Div_by_zero
      else
        let block = ucast (n div scast p) :: c_int;
            rem = ucast (n mod scast p) :: c_int
        in if sint s < sint rem then
             bindE (add_int block 1) (\<lambda>block1.
             bindE (mul_int block1 s) (\<lambda>m.
               let beg = scast m in Inr (beg, scast block1 + beg)))
           else
             bindE (sub_int p s) (\<lambda>d.
             bindE (mul_int d block) (\<lambda>m.
               let beg = n - scast m in Inr (beg, scast block + beg))))"

record distribution_item =
  di_offset :: size_t
  di_size :: size_t

record block_distributor =
  bd_s :: c_int
  bd_p :: c_int

definition distribution_part :: "block_distributor \<Rightarrow> size_t \<Rightarrow> distribution_item list result" where
  "distribution_part d sz =
     bindE (div_range sz (bd_s d) (bd_p d)) (\<lambda>(offset, part_end).
       Inr [\<lparr>di_offset = offset, di_size = part_end - offset\<rparr>])"

section \<open>The mathematical block partition\<close>

definition block_begin :: "nat \<Rightarrow> nat \<Rightarrow> nat \<Rightarrow> nat" where
  "block_begin n p s = s * (n div p) + min s (n mod p)"

definition block_size :: "nat \<Rightarrow> nat \<Rightarrow> nat \<Rightarrow> nat" where
  "block_size n p s = n div p + (if s < n mod p then 1 else 0)"

lemma block_begin_0 [simp]: "block_begin n p 0 = 0"
  by (simp add: block_begin_def)

lemma block_begin_Suc: "block_begin n p (Suc s) = block_begin n p s + block_size n p s"
  by (simp add: block_begin_def block_size_def)

lemma block_begin_all: "0 < p \<Longrightarrow> block_begin n p p = n"
proof -
  assume "0 < p"
  then have "n mod p < p" by simp
  then have "min p (n mod p) = n mod p" by (simp add: min_def)
  then show ?thesis by (simp add: block_begin_def)
qed

lemma block_begin_mono: "s \<le> t \<Longrightarrow> block_begin n p s \<le> block_begin n p t"
  by (simp add: block_begin_def add_mono)

lemma block_begin_le: "s \<le> p \<Longrightarrow> 0 < p \<Longrightarrow> block_begin n p s \<le> n"
  using block_begin_mono [of s p n p] by (simp add: block_begin_all)

lemma block_size_le: "s < p \<Longrightarrow> block_begin n p s + block_size n p s \<le> n"
  using block_begin_le [of "Suc s" p n] by (simp add: block_begin_Suc)

text \<open>The second form of the code: counting back from the end.\<close>

lemma block_begin_from_end:
  assumes "s < p" and "n mod p \<le> s"
  shows "block_begin n p s = n - (p - s) * (n div p)"
proof -
  have "n = p * (n div p) + n mod p" by simp
  also have "p * (n div p) = (p - s) * (n div p) + s * (n div p)"
    using assms by (simp flip: add_mult_distrib)
  finally have "n - (p - s) * (n div p) = s * (n div p) + n mod p" by simp
  with assms show ?thesis by (simp add: block_begin_def)
qed

section \<open>div_range computes the block partition\<close>

text \<open>
  The product the code computes for process \<open>s\<close>: from the front for the processes with one element
  more, from the back for the others. It is the only thing that can overflow, as long as the block
  of the process is an \<^verbatim>\<open>int\<close>.
\<close>

definition block_product :: "nat \<Rightarrow> nat \<Rightarrow> nat \<Rightarrow> nat" where
  "block_product n p s = (if s < n mod p then (n div p + 1) * s else (p - s) * (n div p))"

lemma block_product_le: "s < p \<Longrightarrow> block_product n p s \<le> n"
proof (cases "s < n mod p")
  case True
  assume "s < p"
  have "(n div p + 1) * s = s * (n div p) + s" by simp
  also have "\<dots> \<le> p * (n div p) + n mod p"
    using True \<open>s < p\<close> by (intro add_mono mult_le_mono1) simp_all
  finally show ?thesis using True by (simp add: block_product_def)
next
  case False
  have "(p - s) * (n div p) \<le> p * (n div p)" by simp
  also have "\<dots> \<le> n" by simp
  finally show ?thesis using False by (simp add: block_product_def)
qed

lemma mul_int_nat:
  assumes "a < 2 ^ 31" and "b < 2 ^ 31"
  shows "mul_int (of_nat a) (of_nat b) = (if a * b < 2 ^ 31 then Inr (of_nat (a * b)) else Inl Int_overflow)"
proof -
  have prod: "sint (of_nat a :: c_int) * sint (of_nat b :: c_int) = int (a * b)" using assms by simp
  have fits: "int_fits (int k) \<longleftrightarrow> k < 2 ^ 31" for k by (simp add: int_fits_def)
  show ?thesis by (simp only: mul_int_def prod fits flip: of_nat_mult)
qed

lemma div_range_cases:
  assumes n: "n < 2 ^ 64" and sp: "s < p" and p: "p < 2 ^ 31" and blk: "block_size n p s < 2 ^ 31"
  shows "div_range (of_nat n) (of_nat s) (of_nat p) =
    (if block_product n p s < 2 ^ 31
     then Inr (of_nat (block_begin n p s), of_nat (block_begin n p s + block_size n p s)) else Inl Int_overflow)"
proof -
  let ?q = "n div p" and ?r = "n mod p"
  have q: "?q < 2 ^ 31" using blk by (simp add: block_size_def)
  have rp: "?r < p" using sp by simp
  then have r: "?r < 2 ^ 31" using p by (rule less_trans)
  have pnz: "(of_nat p :: c_int) \<noteq> 0"
  proof
    assume "(of_nat p :: c_int) = 0"
    then have "unat (of_nat p :: c_int) = 0" by simp
    with sp p show False by simp
  qed
  have block: "ucast ((of_nat n :: size_t) div of_nat p) = (of_nat ?q :: c_int)"
    using n p q by (simp add: size_div_of_nat)
  have rem: "ucast ((of_nat n :: size_t) mod of_nat p) = (of_nat ?r :: c_int)"
    using n p r by (simp add: size_mod_of_nat)
  show ?thesis
  proof (cases "s < ?r")
    case True
    define b where "b = ?q + 1"
    have b: "b < 2 ^ 31" using blk True by (simp add: block_size_def b_def)
    have add: "add_int (of_nat ?q) 1 = Inr (of_nat b)"
      using b add_int_of_nat [of ?q 1] by (simp add: b_def)
    have s: "s < 2 ^ 31" using sp p by simp
    note mul = mul_int_nat [OF b s]
    have spec: "block_begin n p s = b * s" "block_size n p s = b" "block_product n p s = b * s"
      using True by (simp_all add: block_begin_def block_size_def block_product_def b_def)
    have cond: "sint (of_nat s :: c_int) < sint (of_nat ?r :: c_int)"
      using True r sp p by simp
    show ?thesis
    proof (cases "b * s < 2 ^ 31")
      case m: True
      show ?thesis
        by (simp only: div_range_def Let_def pnz scast_int_size [OF p] scast_int_size [OF m]
            scast_int_size [OF b] block rem cond add mul m spec bindE_Inr if_True if_False
            of_nat_add add.commute)
    next
      case False
      then show ?thesis
        by (simp only: div_range_def Let_def pnz scast_int_size [OF p] block rem cond add mul spec bindE_Inr bindE_Inl
            if_True if_False)
    qed
  next
    case False
    define m where "m = (p - s) * ?q"
    have spec: "block_product n p s = m" "block_size n p s = ?q"
      using False by (simp_all add: block_size_def block_product_def m_def)
    have mn: "m \<le> n" using block_product_le [OF sp, of n] spec by simp
    have beg: "block_begin n p s = n - m"
      using False sp block_begin_from_end [of s p n] by (simp add: m_def)
    have sub: "sub_int (of_nat p) (of_nat s) = Inr (of_nat (p - s))"
      using sp p by (intro sub_int_of_nat) simp_all
    have ps: "p - s < 2 ^ 31" using p by simp
    note mul = mul_int_nat [OF ps q, folded m_def]
    have cond: "\<not> sint (of_nat s :: c_int) < sint (of_nat ?r :: c_int)"
      using False r sp p by simp
    show ?thesis
    proof (cases "m < 2 ^ 31")
      case m: True
      show ?thesis
        by (simp only: div_range_def Let_def pnz scast_int_size [OF p] scast_int_size [OF m]
            scast_int_size [OF q] block rem cond sub mul m spec beg bindE_Inr if_True if_False
            of_nat_add of_nat_diff [OF mn] add.commute)
    next
      case False
      then show ?thesis
        by (simp only: div_range_def Let_def pnz scast_int_size [OF p] block rem cond sub mul spec bindE_Inr bindE_Inl
            if_True if_False)
    qed
  qed
qed

lemma div_range_eq:
  assumes n: "n < 2 ^ 31" and sp: "s < p" and p: "p < 2 ^ 31"
  shows "div_range (of_nat n) (of_nat s) (of_nat p) =
    Inr (of_nat (block_begin n p s), of_nat (block_begin n p s + block_size n p s))"
proof -
  have "block_size n p s \<le> n" using block_size_le [OF sp, of n] by simp
  then show ?thesis using assms block_product_le [OF sp, of n] by (subst div_range_cases) simp_all
qed

section \<open>What a tiling of a vector promises\<close>

text \<open>
  The contract users of a distribution rely on: consecutive intervals that start at 0 and
  end at the size of the vector. It gives every index exactly one owner, and lets the parts
  be glued back together.
\<close>

locale tiling =
  fixes ok :: "nat \<Rightarrow> nat \<Rightarrow> bool"
    and lo hi :: "nat \<Rightarrow> nat \<Rightarrow> nat \<Rightarrow> nat"
  assumes procs_pos: "ok n p \<Longrightarrow> 0 < p"
    and lo_first: "ok n p \<Longrightarrow> lo n p 0 = 0"
    and hi_step: "ok n p \<Longrightarrow> Suc s < p \<Longrightarrow> lo n p (Suc s) = hi n p s"
    and hi_last: "ok n p \<Longrightarrow> hi n p (p - 1) = n"
    and lo_le_hi: "ok n p \<Longrightarrow> s < p \<Longrightarrow> lo n p s \<le> hi n p s"
begin

lemma hi_before_lo:
  assumes "ok n p" and "s < t" and "t < p"
  shows "hi n p s \<le> lo n p t"
  using assms(2,3)
proof (induction t)
  case 0
  then show ?case by simp
next
  case (Suc t)
  show ?case
  proof (cases "s = t")
    case True
    with assms(1) Suc.prems show ?thesis by (simp add: hi_step)
  next
    case False
    with Suc have "hi n p s \<le> lo n p t" by simp
    also have "\<dots> \<le> hi n p t" using assms(1) Suc.prems by (simp add: lo_le_hi)
    finally show ?thesis using assms(1) Suc.prems by (simp add: hi_step)
  qed
qed

lemma owner_exists:
  assumes "ok n p" and "i < n"
  shows "\<exists>s<p. lo n p s \<le> i \<and> i < hi n p s"
proof -
  let ?P = "\<lambda>s. s < p \<and> i < hi n p s"
  have "?P (p - 1)" using assms procs_pos hi_last by simp
  then have least: "?P (LEAST s. ?P s)" by (rule LeastI)
  define s where "s = (LEAST s. ?P s)"
  have "lo n p s \<le> i"
  proof (cases s)
    case 0
    then show ?thesis using assms(1) by (simp add: lo_first)
  next
    case (Suc t)
    then have "\<not> ?P t" unfolding s_def by (metis lessI not_less_Least)
    with Suc least show ?thesis using assms(1) by (simp add: s_def hi_step)
  qed
  with least show ?thesis unfolding s_def by blast
qed

lemma owner_unique:
  assumes "ok n p" and "s < p" and "t < p"
    and "lo n p s \<le> i" "i < hi n p s" and "lo n p t \<le> i" "i < hi n p t"
  shows "s = t"
proof (rule ccontr)
  assume "s \<noteq> t"
  then consider "s < t" | "t < s" by linarith
  then show False
    using assms hi_before_lo [of n p s t] hi_before_lo [of n p t s] by cases simp_all
qed

lemma glue_upto:
  assumes "ok n p" and "length v = n" and "k < p"
  shows "concat (map (\<lambda>s. take (hi n p s - lo n p s) (drop (lo n p s) v)) [0..<Suc k])
    = take (hi n p k) v"
  using assms(3)
proof (induction k)
  case 0
  then show ?case using assms(1) by (simp add: lo_first)
next
  case (Suc k)
  have lo: "lo n p (Suc k) = hi n p k" using assms(1) Suc.prems by (rule hi_step)
  have le: "lo n p (Suc k) \<le> hi n p (Suc k)" using assms(1) Suc.prems by (rule lo_le_hi)
  have "take (hi n p k) v @ take (hi n p (Suc k) - hi n p k) (drop (hi n p k) v)
      = take (hi n p (Suc k)) v"
    using le lo by (simp flip: take_add)
  moreover have "concat (map (\<lambda>s. take (hi n p s - lo n p s) (drop (lo n p s) v)) [0..<Suc k])
      = take (hi n p k) v"
    using Suc by simp
  ultimately show ?case using lo by (simp only: upt_Suc_append map_append concat_append) simp
qed

lemma glue:
  assumes "ok n p" and "length v = n"
  shows "concat (map (\<lambda>s. take (hi n p s - lo n p s) (drop (lo n p s) v)) [0..<p]) = v"
proof -
  have p: "p = Suc (p - 1)" using procs_pos [OF assms(1)] by simp
  show ?thesis
    using glue_upto [OF assms, of "p - 1"] p assms hi_last [OF assms(1)] by simp
qed

end

interpretation blk: tiling "\<lambda>n p. 0 < p"
  "\<lambda>n p s. block_begin n p s" "\<lambda>n p s. block_begin n p s + block_size n p s"
proof unfold_locales
  fix n p :: nat
  assume "0 < p"
  then show "block_begin n p (p - 1) + block_size n p (p - 1) = n"
    using block_begin_all [of p n] block_begin_Suc [of n p "p - 1"] by simp
qed (simp_all add: block_begin_Suc)

text \<open>The interval \<^const>\<open>div_range\<close> hands to process \<open>s\<close>, as naturals.\<close>

definition range_of :: "nat \<Rightarrow> nat \<Rightarrow> nat \<Rightarrow> nat \<times> nat" where
  "range_of n p s =
     (case div_range (of_nat n) (of_nat s) (of_nat p) of
        Inl e \<Rightarrow> (0, 0)
      | Inr (b, e) \<Rightarrow> (unat b, unat e))"

lemma range_of_eq:
  assumes "n < 2 ^ 31" and "s < p" and "p < 2 ^ 31"
  shows "range_of n p s = (block_begin n p s, block_begin n p s + block_size n p s)"
proof -
  have "block_begin n p s + block_size n p s \<le> n" using assms(2) by (rule block_size_le)
  then have "block_begin n p s + block_size n p s < 2 ^ 64" using assms(1) by simp
  then show ?thesis
    using assms unfolding range_of_def by (simp add: div_range_eq del: of_nat_add)
qed

interpretation dr: tiling "\<lambda>n p. 0 < p \<and> n < 2 ^ 31 \<and> p < 2 ^ 31"
  "\<lambda>n p s. fst (range_of n p s)" "\<lambda>n p s. snd (range_of n p s)"
proof unfold_locales
  fix n p :: nat
  assume "0 < p \<and> n < 2 ^ 31 \<and> p < 2 ^ 31"
  then show "snd (range_of n p (p - 1)) = n"
    using block_begin_all [of p n] block_begin_Suc [of n p "p - 1"] by (simp add: range_of_eq)
qed (simp_all add: range_of_eq block_begin_Suc)

section \<open>Properties\<close>

text \<open>
  For every vector of less than \<open>2 ^ 31\<close> bytes and every process \<open>s\<close> of \<open>p\<close>,
  \<^const>\<open>div_range\<close> does not overflow and returns exactly the block of the mathematical
  partition: the first \<open>n mod p\<close> processes get one element more than the others.
\<close>

theorem div_range_exact:
  assumes "n < 2 ^ 31" and "s < p" and "p < 2 ^ 31"
  shows "div_range (of_nat n) (of_nat s) (of_nat p) =
    Inr (of_nat (s * (n div p) + min s (n mod p)),
         of_nat (s * (n div p) + min s (n mod p) + (n div p + (if s < n mod p then 1 else 0))))"
  using div_range_eq [OF assms] by (simp add: block_begin_def block_size_def)

theorem div_range_exact_witness:
  "div_range 10 1 3 = Inr (4, 7)"
  using div_range_exact [of 10 1 3] by simp

text \<open>
  Property C19: the ranges \<^const>\<open>div_range\<close> computes for \<open>p\<close> processes tile the vector: every
  byte index belongs to the range of exactly one process, and gluing the ranges together in
  process order gives the vector back.
\<close>

theorem div_range_tiles:
  assumes "0 < p" and "n < 2 ^ 31" and "p < 2 ^ 31" and "length v = n"
  shows "(\<forall>i<n. \<exists>!s. s < p \<and> fst (range_of n p s) \<le> i \<and> i < snd (range_of n p s)) \<and>
    concat (map (\<lambda>s. take (snd (range_of n p s) - fst (range_of n p s))
      (drop (fst (range_of n p s)) v)) [0..<p]) = v"
proof
  have ok: "0 < p \<and> n < 2 ^ 31 \<and> p < 2 ^ 31" using assms by simp
  show "\<forall>i<n. \<exists>!s. s < p \<and> fst (range_of n p s) \<le> i \<and> i < snd (range_of n p s)"
    using dr.owner_exists [OF ok] dr.owner_unique [OF ok] by blast
  show "concat (map (\<lambda>s. take (snd (range_of n p s) - fst (range_of n p s))
      (drop (fst (range_of n p s)) v)) [0..<p]) = v"
    by (rule dr.glue [OF ok assms(4)])
qed

theorem div_range_tiles_witness:
  "concat (map (\<lambda>s. take (snd (range_of 5 2 s) - fst (range_of 5 2 s))
      (drop (fst (range_of 5 2 s)) ''abcde'')) [0..<2]) = ''abcde''"
  using div_range_tiles [of 2 5 "''abcde''"] by simp

text \<open>
  No block is more than one element longer than another, so the distribution is
  balanced.
\<close>

theorem div_range_balanced:
  assumes "n < 2 ^ 31" and "s < p" and "t < p" and "p < 2 ^ 31"
  shows "snd (range_of n p s) - fst (range_of n p s) \<le>
    Suc (snd (range_of n p t) - fst (range_of n p t))"
  using assms by (simp add: range_of_eq block_size_def)

theorem div_range_balanced_witness:
  "snd (range_of 7 3 0) - fst (range_of 7 3 0) \<le> Suc (snd (range_of 7 3 2) - fst (range_of 7 3 2))"
  using div_range_balanced [of 7 0 3 2] by simp



text \<open>
  When the block itself does not fit, the elements are lost without a trace: for blocks of a multiple
  of \<open>2 ^ 32\<close> elements the narrowed block is 0 and every process gets the empty range at the end.
\<close>

lemma div_range_loses:
  assumes "n = k * 2 ^ 32 * p" and "n < 2 ^ 64" and "s < p" and "p < 2 ^ 31"
  shows "div_range (of_nat n) (of_nat s) (of_nat p) = Inr (of_nat n, of_nat n)"
proof -
  have q: "n div p = k * 2 ^ 32" "n mod p = 0" using assms by simp_all
  have "(of_nat p :: c_int) \<noteq> 0"
  proof
    assume "(of_nat p :: c_int) = 0"
    then have "unat (of_nat p :: c_int) = 0" by simp
    with assms(3,4) show False by simp
  qed
  moreover have "(of_nat n :: size_t) div of_nat p = of_nat (k * 2 ^ 32)" "(of_nat n :: size_t) mod of_nat p = 0"
    using assms(2,4) q by (simp_all add: size_div_of_nat size_mod_of_nat)
  moreover have "(ucast (of_nat (k * 2 ^ 32) :: size_t) :: c_int) = 0"
    by transfer (simp add: take_bit_take_bit take_bit_eq_mod mod_mod_cancel)
  moreover have "sub_int (of_nat p) (of_nat s) = Inr (of_nat (p - s))"
    using assms(3,4) by (intro sub_int_of_nat) simp_all
  moreover have "\<not> sint (of_nat s :: c_int) < sint (0 :: c_int)" using assms(3,4) by simp
  ultimately show ?thesis
    using assms(4) by (simp add: div_range_def Let_def mul_int_def int_fits_def)
qed

end
