(* ===== verification/Vector_Distribution.thy ===== *)
theory Vector_Distribution
  imports Block_Distribution
begin

text \<open>
  \<^verbatim>\<open>vector_distribution_base\<close> and \<^verbatim>\<open>vector_distribution<T>\<close>
  (src/src/ActiveBSP/include/vector_distribution.h, .hpp and src/vector_distribution.cpp): the
  description of where the parts of a distributed vector live, kept in one byte buffer so
  that it can be sent as it is; the operations that ship it
  (\<^verbatim>\<open>sendDistrVector\<close>, \<^verbatim>\<open>receiveDistrVector\<close>, \<^verbatim>\<open>broadcastVd\<close>) and \<^verbatim>\<open>ActorBase::gather_distr_parts\<close>,
  which assembles the description of a result from the pieces of all processes.

  The buffer is modelled byte by byte: \<^verbatim>\<open>int nelem\<close> at offset 0, four bytes of padding, and
  the 24-byte parts from offset 8. \<open>vd_bytes ps\<close> is the buffer that describes the list of
  parts \<open>ps\<close>; every operation is shown to act on it as the list operation it stands for.
\<close>

section \<open>Parts and their layout\<close>

record vector_distribution_part =
  vp_pid :: c_int
  vp_resid :: c_int
  vp_size :: size_t
  vp_offset :: size_t

type_synonym vector_distribution = "byte list"

definition part_bytes :: "vector_distribution_part \<Rightarrow> byte list" where
  "part_bytes p = int_bytes (vp_pid p) @ int_bytes (vp_resid p)
     @ size_bytes (vp_size p) @ size_bytes (vp_offset p)"

definition part_decode :: "byte list \<Rightarrow> vector_distribution_part" where
  "part_decode bs = \<lparr>vp_pid = bytes_int (peek 0 4 bs), vp_resid = bytes_int (peek 4 4 bs),
     vp_size = bytes_size (peek 8 8 bs), vp_offset = bytes_size (peek 16 8 bs)\<rparr>"

definition zero_part :: vector_distribution_part where
  "zero_part = \<lparr>vp_pid = 0, vp_resid = 0, vp_size = 0, vp_offset = 0\<rparr>"

lemma length_part_bytes [simp]: "length (part_bytes p) = 24"
  by (simp add: part_bytes_def)

lemma part_decode_bytes [simp]: "part_decode (part_bytes p) = p"
  by (simp add: part_decode_def part_bytes_def peek_def)

lemma part_bytes_zero: "part_bytes zero_part = replicate 24 0"
  by (simp add: part_bytes_def zero_part_def int_bytes_def size_bytes_def le_enc_zero
      numeral_eq_Suc)

section \<open>The operations of the class\<close>

definition parts_offset :: c_int where
  "parts_offset = 4"

definition parts_size :: c_int where
  "parts_size = 24"

definition size_for_elems :: "c_int \<Rightarrow> c_int" where
  "size_for_elems nelem = ucast (2 * 4 + scast nelem * 24 :: size_t)"

definition vector_distribution_base :: "c_int \<Rightarrow> vector_distribution result" where
  "vector_distribution_base nelems =
     put_int 0 nelems (replicate (unat (scast (size_for_elems nelems) :: size_t)) 0)"

definition part_address :: "c_int \<Rightarrow> nat result" where
  "part_address i = (if sint i < 0 then Inl Out_of_bounds else Inr (8 + 24 * nat (sint i)))"

definition register_part ::
  "c_int \<Rightarrow> c_int \<Rightarrow> c_int \<Rightarrow> size_t \<Rightarrow> size_t \<Rightarrow> vector_distribution \<Rightarrow> vector_distribution result"
where
  "register_part i pid resid sz offset buf =
     bindE (part_address i) (\<lambda>a.
       mem_write a (part_bytes \<lparr>vp_pid = pid, vp_resid = resid, vp_size = sz, vp_offset = offset\<rparr>) buf)"

definition getPart :: "c_int \<Rightarrow> vector_distribution \<Rightarrow> vector_distribution_part result" where
  "getPart i buf =
     bindE (part_address i) (\<lambda>a. bindE (mem_read buf a 24) (\<lambda>bs. Inr (part_decode bs)))"

definition getBufSize :: "vector_distribution \<Rightarrow> size_t" where
  "getBufSize buf = of_nat (length buf)"

definition nparts :: "vector_distribution \<Rightarrow> c_int result" where
  "nparts buf = get_int buf 0"

definition vd_resize :: "size_t \<Rightarrow> vector_distribution \<Rightarrow> vector_distribution" where
  "vd_resize elems buf =
     (let n = unat (scast (size_for_elems (ucast elems)) :: size_t)
      in take n buf @ replicate (n - length buf) 0)"

definition getVecSize :: "vector_distribution \<Rightarrow> size_t result" where
  "getVecSize buf =
     bindE (nparts buf) (\<lambda>n.
       foldE (\<lambda>i max_size. bindE (getPart (of_nat i) buf) (\<lambda>part.
           Inr (max max_size (vp_offset part + vp_size part))))
         [0..<nat (sint n)] 0)"

definition typed_getVecSize :: "size_t \<Rightarrow> vector_distribution \<Rightarrow> size_t result" where
  "typed_getVecSize sizeof_T buf = bindE (getVecSize buf) (\<lambda>sz. Inr (sz div sizeof_T))"

definition range_overlap :: "c_int \<Rightarrow> c_int \<Rightarrow> c_int \<Rightarrow> c_int \<Rightarrow> bool" where
  "range_overlap x1 x2 y1 y2 \<longleftrightarrow> sint x1 \<le> sint y2 \<and> sint y1 \<le> sint x2"

section \<open>Shipping a description\<close>

text \<open>
  \<^verbatim>\<open>sendDistrVector\<close> sends the buffer; \<^verbatim>\<open>receiveDistrVector\<close> probes the size of the message
  (\<open>length msg\<close>), sizes a buffer from it and receives into that buffer.
\<close>

definition receiveDistrVector :: "byte list \<Rightarrow> vector_distribution result" where
  "receiveDistrVector msg =
     bindE (sub_int (of_nat (length msg)) parts_offset) (\<lambda>d.
     bindE (div_int d parts_size) (\<lambda>nparts.
     bindE (vector_distribution_base nparts) (\<lambda>dv.
       mem_write 0 msg dv)))"

text \<open>
  Copying, swapping and assigning descriptions, and what an archive of Boost is given of one and
  takes from it: the size of the buffer and its bytes. Loading fails when the archive is too short.
\<close>

definition vd_copy :: "vector_distribution \<Rightarrow> vector_distribution" where
  "vd_copy other = other"

definition vd_swap :: "vector_distribution \<Rightarrow> vector_distribution \<Rightarrow> vector_distribution \<times> vector_distribution" where
  "vd_swap this other = (other, this)"

definition vd_assign :: "vector_distribution \<Rightarrow> vector_distribution \<Rightarrow> vector_distribution" where
  "vd_assign this other = fst (vd_swap this (vd_copy other))"

definition vd_save :: "vector_distribution \<Rightarrow> size_t \<times> byte list" where
  "vd_save buf = (getBufSize buf, take (unat (getBufSize buf)) buf)"

definition vd_load :: "size_t \<times> byte list \<Rightarrow> (vector_distribution \<times> byte list) result" where
  "vd_load ar = (let n = unat (fst ar) in
     if length (snd ar) < n then Inl Out_of_bounds else Inr (take n (snd ar), drop n (snd ar)))"

lemma vd_load_save:
  assumes "length buf < 2 ^ 64"
  shows "vd_load (fst (vd_save buf), snd (vd_save buf) @ rest) = Inr (buf, rest)"
  using assms by (simp add: vd_load_def vd_save_def getBufSize_def Let_def)

text \<open>
  \<^verbatim>\<open>broadcastVd\<close> on a process other than the root: \<open>nparts_in\<close> and \<open>buf_in\<close> are what the two
  \<^verbatim>\<open>MPI_Bcast\<close> calls deliver. The root keeps its own description.
\<close>

definition broadcastVd ::
  "c_int \<Rightarrow> c_int \<Rightarrow> byte list \<Rightarrow> vector_distribution \<Rightarrow> vector_distribution result"
where
  "broadcastVd s nparts_in buf_in vd =
     (if s = 0 then bindE (nparts vd) (\<lambda>_. Inr vd)
      else mem_write 0 buf_in (vd_resize (scast nparts_in) vd))"

text \<open>
  \<^verbatim>\<open>gather_distr_parts\<close>: one \<^verbatim>\<open>bsp_get\<close> per process. \<open>remote s off n\<close> are the bytes the BSP
  library delivers for a get of \<open>n\<close> bytes at offset \<open>off\<close> of the registered buffer of
  process \<open>s\<close>.
\<close>

definition gather_distr_parts ::
  "(nat \<Rightarrow> nat \<Rightarrow> nat \<Rightarrow> byte list) \<Rightarrow> c_int \<Rightarrow> vector_distribution \<Rightarrow> vector_distribution result"
where
  "gather_distr_parts remote nprocs cur =
     bindE (nparts cur) (\<lambda>k.
     bindE (mul_int k nprocs) (\<lambda>n.
     bindE (vector_distribution_base n) (\<lambda>dv.
     bindE (mul_int k parts_size) (\<lambda>ps.
       let base = unat (scast parts_offset :: size_t); part_size = unat (scast ps :: size_t)
       in foldE (\<lambda>s. mem_write (base + s * part_size) (remote s base part_size))
            [0..<nat (sint nprocs)] dv))))"

section \<open>The buffer that describes a list of parts\<close>

definition vd_bytes :: "vector_distribution_part list \<Rightarrow> vector_distribution" where
  "vd_bytes ps = int_bytes (of_nat (length ps)) @ replicate 4 0 @ concat (map part_bytes ps)"

text \<open>The buffer size is an \<^verbatim>\<open>int\<close>: descriptions of up to 89478484 parts.\<close>

definition vd_small :: "nat \<Rightarrow> bool" where
  "vd_small n \<longleftrightarrow> 8 + 24 * n < 2 ^ 31"

lemma length_parts [simp]: "length (concat (map part_bytes ps)) = 24 * length ps"
  by (rule length_concat_fixed) simp

lemma length_vd_bytes [simp]: "length (vd_bytes ps) = 8 + 24 * length ps"
  by (simp add: vd_bytes_def)

lemma vd_bytes_split: "vd_bytes ps = (int_bytes (of_nat (length ps)) @ replicate 4 0)
    @ concat (map part_bytes ps)"
  by (simp add: vd_bytes_def)

lemma vd_small_int: "vd_small n \<Longrightarrow> n < 2 ^ 31"
  by (simp add: vd_small_def)

lemma size_for_elems_of_nat:
  assumes "vd_small n"
  shows "size_for_elems (of_nat n) = of_nat (8 + 24 * n)"
proof -
  have n: "n < 2 ^ 31" using assms by (rule vd_small_int)
  have "(2 * 4 + scast (of_nat n :: c_int) * 24 :: size_t) = of_nat (8 + 24 * n)"
    by (simp add: scast_int_size [OF n])
  moreover have "(ucast (of_nat (8 + 24 * n) :: size_t) :: c_int) = of_nat (8 + 24 * n)"
    using assms by (intro ucast_size_int) (simp add: vd_small_def)
  ultimately show ?thesis by (simp only: size_for_elems_def)
qed

lemma size_for_elems_length:
  assumes "vd_small n"
  shows "unat (scast (size_for_elems (of_nat n)) :: size_t) = 8 + 24 * n"
proof -
  have s: "8 + 24 * n < 2 ^ 31" using assms by (simp add: vd_small_def)
  then have "unat (of_nat (8 + 24 * n) :: size_t) = 8 + 24 * n"
    by (intro unat_size_of_nat) simp
  then show ?thesis
    by (simp only: size_for_elems_of_nat [OF assms] scast_int_size [OF s])
qed

lemma concat_replicate_replicate: "concat (replicate n (replicate m x)) = replicate (m * n) x"
  by (induction n) (simp_all flip: replicate_add)

lemma vector_distribution_base_eq:
  assumes "vd_small n"
  shows "vector_distribution_base (of_nat n) = Inr (vd_bytes (replicate n zero_part))"
proof -
  have "(replicate (8 + 24 * n) 0 :: byte list) = replicate 4 0 @ replicate 4 0 @ replicate (24 * n) 0"
    by (simp add: numeral_eq_Suc flip: replicate_add)
  then show ?thesis
    by (simp add: vector_distribution_base_def size_for_elems_length [OF assms] put_int_def
        mem_write_def poke_def vd_bytes_def part_bytes_zero map_replicate
        concat_replicate_replicate)
qed

lemma part_address_of_nat: "i < 2 ^ 31 \<Longrightarrow> part_address (of_nat i) = Inr (8 + 24 * i)"
  by (simp add: part_address_def)

lemma vd_header_length: "length (int_bytes (of_nat n) @ replicate 4 (0 :: byte)) = 8"
  by simp

lemma peek_vd_part:
  assumes "i < length ps"
  shows "peek (8 + 24 * i) 24 (vd_bytes ps) = part_bytes (ps ! i)"
  using peek_append_right [of "int_bytes (of_nat (length ps)) @ replicate 4 0"]
    peek_concat_fixed [where f = part_bytes, OF length_part_bytes assms]
  by (simp only: vd_bytes_split vd_header_length)

lemma poke_vd_part:
  assumes "i < length ps"
  shows "poke (8 + 24 * i) (part_bytes p) (vd_bytes ps) = vd_bytes (ps[i := p])"
  using poke_append_right [of "int_bytes (of_nat (length ps)) @ replicate 4 0"]
    poke_concat_fixed [where f = part_bytes, OF length_part_bytes assms]
  by (simp only: vd_bytes_split vd_header_length length_list_update)

lemma index_in_buffer: "i < n \<Longrightarrow> 8 + 24 * i + 24 \<le> 8 + 24 * (n :: nat)"
  by simp

lemma getPart_eq:
  assumes "vd_small (length ps)" and "i < length ps"
  shows "getPart (of_nat i) (vd_bytes ps) = Inr (ps ! i)"
proof -
  have "i < 2 ^ 31" using assms(2) vd_small_int [OF assms(1)] by (rule less_trans)
  then show ?thesis
    using index_in_buffer [OF assms(2)]
    by (simp add: getPart_def part_address_of_nat mem_read_def peek_vd_part [OF assms(2)])
qed

lemma register_part_eq:
  assumes "vd_small (length ps)" and "i < length ps"
  shows "register_part (of_nat i) pid resid sz off (vd_bytes ps) =
    Inr (vd_bytes (ps[i := \<lparr>vp_pid = pid, vp_resid = resid, vp_size = sz, vp_offset = off\<rparr>]))"
proof -
  have "i < 2 ^ 31" using assms(2) vd_small_int [OF assms(1)] by (rule less_trans)
  then show ?thesis
    using index_in_buffer [OF assms(2)]
    by (simp add: register_part_def part_address_of_nat mem_write_def poke_vd_part [OF assms(2)])
qed

lemma nparts_eq [simp]: "nparts (vd_bytes ps) = Inr (of_nat (length ps))"
  by (simp add: nparts_def get_int_Inr vd_bytes_def peek_def)

lemma getBufSize_eq: "getBufSize (vd_bytes ps) = of_nat (8 + 24 * length ps)"
  by (simp only: getBufSize_def length_vd_bytes)

section \<open>The size of the described vector\<close>

definition part_end :: "vector_distribution_part \<Rightarrow> size_t" where
  "part_end p = vp_offset p + vp_size p"

definition vec_end :: "vector_distribution_part list \<Rightarrow> size_t" where
  "vec_end ps = Max (insert 0 (part_end ` set ps))"

lemma vec_end_snoc: "vec_end (ps @ [p]) = max (vec_end ps) (part_end p)"
proof -
  have "vec_end (ps @ [p]) = Max (insert (part_end p) (insert 0 (part_end ` set ps)))"
    by (simp add: vec_end_def insert_commute del: Max_insert)
  also have "\<dots> = max (part_end p) (vec_end ps)"
    unfolding vec_end_def by (rule Max_insert) simp_all
  finally show ?thesis by (simp add: max.commute)
qed

lemma getVecSize_eq:
  assumes "vd_small (length ps)"
  shows "getVecSize (vd_bytes ps) = Inr (vec_end ps)"
proof -
  let ?f = "\<lambda>i m. bindE (getPart (of_nat i) (vd_bytes ps)) (\<lambda>part.
      Inr (max m (vp_offset part + vp_size part)))"
  have "k \<le> length ps \<Longrightarrow> foldE ?f [0..<k] 0 = Inr (vec_end (take k ps))" for k
  proof (induction k)
    case 0
    then show ?case by (simp add: vec_end_def)
  next
    case (Suc k)
    then have "take (Suc k) ps = take k ps @ [ps ! k]" by (simp add: take_Suc_conv_app_nth)
    with Suc assms show ?case
      by (simp add: foldE_append getPart_eq vec_end_snoc part_end_def)
  qed
  from this [of "length ps"] show ?thesis
    using vd_small_int [OF assms] by (simp add: getVecSize_def)
qed

section \<open>Shipping keeps the description\<close>

lemma receiveDistrVector_eq:
  assumes "vd_small (length ps)"
  shows "receiveDistrVector (vd_bytes ps) = Inr (vd_bytes ps)"
proof -
  let ?n = "length ps"
  have s: "8 + 24 * ?n < 2 ^ 31" using assms by (simp add: vd_small_def)
  have "sub_int (of_nat (8 + 24 * ?n)) (of_nat 4) = Inr (of_nat (8 + 24 * ?n - 4))"
    using s by (intro sub_int_of_nat) simp_all
  then have sub: "sub_int (of_nat (8 + 24 * ?n)) parts_offset = Inr (of_nat (24 * ?n + 4))"
    by (simp only: parts_offset_def of_nat_numeral) simp
  have "div_int (of_nat (24 * ?n + 4)) (of_nat 24) = Inr (of_nat ((24 * ?n + 4) div 24))"
    using s by (intro div_int_of_nat) simp_all
  then have dv: "div_int (of_nat (24 * ?n + 4)) parts_size = Inr (of_nat ?n)"
    by (simp only: parts_size_def of_nat_numeral) simp
  have "poke 0 (vd_bytes ps) (vd_bytes (replicate ?n zero_part)) = vd_bytes ps"
    by (simp add: poke_def)
  then show ?thesis
    by (simp only: receiveDistrVector_def length_vd_bytes sub dv bindE_Inr
        vector_distribution_base_eq [OF assms] mem_write_def) simp
qed

lemma broadcastVd_eq:
  assumes "vd_small (length ps)" and "s \<noteq> 0"
  shows "broadcastVd s (of_nat (length ps)) (vd_bytes ps) vd = Inr (vd_bytes ps)"
proof -
  let ?n = "length ps"
  have "(ucast (scast (of_nat ?n :: c_int) :: size_t) :: c_int) = of_nat ?n"
    using vd_small_int [OF assms(1)] by simp
  then have "length (vd_resize (scast (of_nat ?n :: c_int)) vd) = 8 + 24 * ?n"
    by (simp add: vd_resize_def Let_def size_for_elems_length [OF assms(1)] del: scast_int_size)
  then show ?thesis
    using assms(2) by (simp add: broadcastVd_def mem_write_def poke_def)
qed

section \<open>Gathering the description of a distributed result\<close>

text \<open>
  \<^verbatim>\<open>parts_offset\<close> is \<^verbatim>\<open>sizeof(int)\<close>, but the parts start after the padding, at offset 8. Each get
  therefore copies the padding and all but the last four bytes of the parts: the upper half of
  the last offset of every process is replaced by padding.
\<close>

definition trunc_last :: "vector_distribution_part list \<Rightarrow> vector_distribution_part list" where
  "trunc_last ps =
     (if ps = [] then []
      else butlast ps @ [(last ps)\<lparr>vp_offset := take_bit 32 (vp_offset (last ps))\<rparr>])"

lemma length_trunc_last [simp]: "length (trunc_last ps) = length ps"
  by (simp add: trunc_last_def)

lemma size_bytes_low:
  "take 4 (size_bytes w) @ replicate 4 0 = size_bytes (take_bit 32 w)"
proof -
  have low: "unat (take_bit 32 w) = unat w mod 256 ^ 4"
    by (simp add: unsigned_take_bit_eq take_bit_nat_def)
  have "size_bytes v = le_enc 4 (unat v) @ le_enc 4 (unat v div 256 ^ 4)" for v
    using le_enc_add [of 4 4 "unat v"] by (simp add: size_bytes_def)
  then show ?thesis
    using le_enc_mod [of 4 "unat w"] by (simp add: low le_enc_zero)
qed

lemma part_bytes_low:
  "take 20 (part_bytes p) @ replicate 4 0 = part_bytes (p\<lparr>vp_offset := take_bit 32 (vp_offset p)\<rparr>)"
  using size_bytes_low [of "vp_offset p"] by (simp add: part_bytes_def)

lemma trunc_last_bytes:
  assumes "ps \<noteq> []"
  shows "take (24 * length ps - 4) (concat (map part_bytes ps)) @ replicate 4 0
    = concat (map part_bytes (trunc_last ps))"
proof -
  let ?b = "concat (map part_bytes (butlast ps))"
  have split: "concat (map part_bytes ps) = ?b @ part_bytes (last ps)"
  proof -
    have "concat (map part_bytes (butlast ps @ [last ps])) = ?b @ part_bytes (last ps)" by simp
    then show ?thesis using append_butlast_last_id [OF assms] by simp
  qed
  have len: "length ?b = 24 * length ps - 24" by (simp add: algebra_simps)
  have "1 \<le> length ps" using assms by (simp add: Suc_le_eq)
  then have "take (24 * length ps - 4) (?b @ part_bytes (last ps)) = ?b @ take 20 (part_bytes (last ps))"
    using len by simp
  then show ?thesis
    using assms part_bytes_low [of "last ps"] by (simp add: split trunc_last_def)
qed

lemma shift_separator:
  "concat (map (\<lambda>s. z @ a s) xs) @ z = z @ concat (map (\<lambda>s. a s @ z) xs)"
  by (induction xs) simp_all

lemma peek_chunk:
  assumes "length ps = k" and "0 < k"
  shows "peek 4 (24 * k) (vd_bytes ps) = replicate 4 0 @ take (24 * k - 4) (concat (map part_bytes ps))"
  using assms by (simp add: peek_def vd_bytes_def)

lemma gather_bytes:
  assumes k: "\<And>s. s < p \<Longrightarrow> length (ps s) = k" and "0 < k"
  shows "int_bytes (of_nat (k * p)) @ concat (map (\<lambda>s. peek 4 (24 * k) (vd_bytes (ps s))) [0..<p])
      @ replicate 4 0
    = vd_bytes (concat (map (\<lambda>s. trunc_last (ps s)) [0..<p]))"
proof -
  let ?z = "replicate 4 0 :: byte list"
  let ?a = "\<lambda>s. take (24 * k - 4) (concat (map part_bytes (ps s)))"
  have ne: "ps s \<noteq> []" if "s < p" for s using k [OF that] assms(2) by auto
  let ?all = "concat (map (\<lambda>s. trunc_last (ps s)) [0..<p])"
  have chunks: "map (\<lambda>s. peek 4 (24 * k) (vd_bytes (ps s))) [0..<p] = map (\<lambda>s. ?z @ ?a s) [0..<p]"
    using k assms(2) by (simp add: peek_chunk)
  have tails: "map (\<lambda>s. ?a s @ ?z) [0..<p] = map (\<lambda>s. concat (map part_bytes (trunc_last (ps s)))) [0..<p]"
    using trunc_last_bytes [OF ne] k by simp
  have "map (\<lambda>s. length (trunc_last (ps s))) [0..<p] = map (\<lambda>s. k) [0..<p]" using k by simp
  then have len: "length ?all = k * p"
    by (simp add: length_concat comp_def sum_list_triv del: map_eq_conv)
  have cat: "concat (map (\<lambda>s. concat (map part_bytes (trunc_last (ps s)))) [0..<p])
      = concat (map part_bytes ?all)"
    by (induction p) simp_all
  have "concat (map (\<lambda>s. peek 4 (24 * k) (vd_bytes (ps s))) [0..<p]) @ ?z
      = ?z @ concat (map part_bytes ?all)"
    by (simp only: chunks shift_separator tails cat)
  then show ?thesis by (simp only: vd_bytes_def [of ?all] len)
qed

lemma gather_distr_parts_eq:
  assumes k: "\<And>s. s < p \<Longrightarrow> length (ps s) = k" and "0 < k" and "0 < p" and "p < 2 ^ 31"
    and small: "vd_small (k * p)" and me: "me < p"
    and get: "\<And>s off n. s < p \<Longrightarrow> remote s off n = peek off n (vd_bytes (ps s))"
  shows "gather_distr_parts remote (of_nat p) (vd_bytes (ps me)) =
    Inr (vd_bytes (concat (map (\<lambda>s. trunc_last (ps s)) [0..<p])))"
proof -
  have le: "k \<le> k * p" using assms(3) by (cases p) simp_all
  have small_k: "24 * k < 2 ^ 31" and kp: "k * p < 2 ^ 31" and k31: "k < 2 ^ 31"
    using small le unfolding vd_small_def by linarith+
  have mul1: "mul_int (of_nat k) (of_nat p) = Inr (of_nat (k * p))"
    using k31 assms(4) kp by (rule mul_int_of_nat)
  have "mul_int (of_nat k) (of_nat 24) = Inr (of_nat (k * 24))"
    using k31 small_k by (intro mul_int_of_nat) simp_all
  then have mul2: "mul_int (of_nat k) parts_size = Inr (of_nat (24 * k))"
    by (simp add: parts_size_def mult.commute)
  have base: "unat (scast parts_offset :: size_t) = 4"
    by (simp add: parts_offset_def)
  have width: "unat (scast (of_nat (24 * k) :: c_int) :: size_t) = 24 * k"
    using small_k by (simp only: scast_int_size [OF small_k]) (rule unat_size_of_nat, simp)
  let ?dv = "vd_bytes (replicate (k * p) zero_part)"
  have len: "length ?dv = 4 + p * (24 * k) + 4" by simp
  have "foldE (\<lambda>s. mem_write (4 + s * (24 * k)) (remote s 4 (24 * k))) [0..<p] ?dv =
      Inr (take 4 ?dv @ concat (map (\<lambda>s. remote s 4 (24 * k)) [0..<p]) @ drop (4 + p * (24 * k)) ?dv)"
    using len by (intro foldE_write_chunks) (simp_all add: get k length_peek)
  moreover have "take 4 ?dv = int_bytes (of_nat (k * p))"
    by (simp add: vd_bytes_def)
  moreover have "drop (4 + p * (24 * k)) ?dv = replicate 4 0"
  proof -
    have "?dv = int_bytes (of_nat (k * p)) @ replicate (24 * (k * p)) 0 @ replicate 4 0"
      by (simp add: vd_bytes_def map_replicate part_bytes_zero concat_replicate_replicate
          flip: replicate_add)
    then show ?thesis by (simp add: algebra_simps)
  qed
  moreover have "map (\<lambda>s. remote s 4 (24 * k)) [0..<p] = map (\<lambda>s. peek 4 (24 * k) (vd_bytes (ps s))) [0..<p]"
    by (simp add: get)
  ultimately have "foldE (\<lambda>s. mem_write (4 + s * (24 * k)) (remote s 4 (24 * k))) [0..<p] ?dv =
      Inr (vd_bytes (concat (map (\<lambda>s. trunc_last (ps s)) [0..<p])))"
    by (simp only: gather_bytes [where ps = ps, OF k assms(2)])
  then show ?thesis
    using assms(4) k [OF me]
    by (simp only: gather_distr_parts_def nparts_eq bindE_Inr mul1 mul2 base width Let_def
        vector_distribution_base_eq [OF small] sint_of_nat_small nat_int)
qed

section \<open>The description as an array of parts\<close>

text \<open>
  What the code that builds and reads descriptions relies on: a fresh array, a write and a
  read at an index, over the list of parts the buffer stands for.
\<close>

locale part_array =
  fixes ok :: "nat \<Rightarrow> bool" and rep :: "'a list \<Rightarrow> 'b" and blank :: 'a
    and fresh :: "nat \<Rightarrow> 'b result" and put :: "nat \<Rightarrow> 'a \<Rightarrow> 'b \<Rightarrow> 'b result"
    and get :: "nat \<Rightarrow> 'b \<Rightarrow> 'a result"
  assumes fresh_rep: "ok n \<Longrightarrow> fresh n = Inr (rep (replicate n blank))"
    and put_rep: "ok (length xs) \<Longrightarrow> i < length xs \<Longrightarrow> put i x (rep xs) = Inr (rep (xs[i := x]))"
    and get_rep: "ok (length xs) \<Longrightarrow> i < length xs \<Longrightarrow> get i (rep xs) = Inr (xs ! i)"
begin

lemma fill_upto:
  assumes "ok (length xs)" and "k \<le> length xs"
  shows "foldE (\<lambda>i. put i (f i)) [0..<k] (rep xs) = Inr (rep (map f [0..<k] @ drop k xs))"
  using assms(2)
proof (induction k)
  case 0
  then show ?case by simp
next
  case (Suc k)
  have "(map f [0..<k] @ drop k xs)[k := f k] = map f [0..<Suc k] @ drop (Suc k) xs"
    using Suc.prems by (simp add: list_update_append Cons_nth_drop_Suc [symmetric])
  then show ?case
    using Suc assms(1) by (simp add: foldE_append put_rep)
qed

lemma fill:
  assumes "ok n"
  shows "bindE (fresh n) (foldE (\<lambda>i. put i (f i)) [0..<n]) = Inr (rep (map f [0..<n]))"
  using fill_upto [of "replicate n blank" n f] assms by (simp add: fresh_rep)

lemma get_put:
  assumes "ok (length xs)" and "i < length xs" and "j < length xs" and "put i x (rep xs) = Inr b"
  shows "get j b = (if i = j then Inr x else get j (rep xs))"
  using assms by (auto simp: put_rep get_rep)

end

interpretation vd: part_array vd_small vd_bytes zero_part
  "\<lambda>n. vector_distribution_base (of_nat n)"
  "\<lambda>i p. register_part (of_nat i) (vp_pid p) (vp_resid p) (vp_size p) (vp_offset p)"
  "\<lambda>i. getPart (of_nat i)"
proof unfold_locales
  fix i and xs :: "vector_distribution_part list" and x :: vector_distribution_part
  assume "vd_small (length xs)" and "i < length xs"
  then show "register_part (of_nat i) (vp_pid x) (vp_resid x) (vp_size x) (vp_offset x) (vd_bytes xs)
      = Inr (vd_bytes (xs[i := x]))"
    by (cases x) (simp add: register_part_eq)
qed (simp_all add: vector_distribution_base_eq getPart_eq)

definition register_all :: "(nat \<Rightarrow> vector_distribution_part) \<Rightarrow> nat \<Rightarrow> vector_distribution result" where
  "register_all f n = bindE (vector_distribution_base (of_nat n)) (foldE (\<lambda>i.
     register_part (of_nat i) (vp_pid (f i)) (vp_resid (f i)) (vp_size (f i)) (vp_offset (f i))) [0..<n])"

lemma register_all_eq: "vd_small n \<Longrightarrow> register_all f n = Inr (vd_bytes (map f [0..<n]))"
  unfolding register_all_def by (rule vd.fill)

section \<open>Properties\<close>

text \<open>
  Creating a description for \<open>n\<close> parts and registering every part never leaves the
  buffer; afterwards \<^const>\<open>nparts\<close> is \<open>n\<close>, \<^const>\<open>getPart\<close> returns exactly the part registered
  at every index, and \<^const>\<open>getVecSize\<close> is the largest end of a part.
\<close>

theorem register_getPart:
  assumes "vd_small n"
  shows "\<exists>buf. register_all f n = Inr buf \<and> nparts buf = Inr (of_nat n) \<and>
    (\<forall>i<n. getPart (of_nat i) buf = Inr (f i)) \<and>
    getVecSize buf = Inr (Max (insert 0 ((\<lambda>i. vp_offset (f i) + vp_size (f i)) ` {0..<n})))"
proof (intro exI conjI allI impI)
  let ?buf = "vd_bytes (map f [0..<n])"
  show "register_all f n = Inr ?buf" using assms by (rule register_all_eq)
  show "nparts ?buf = Inr (of_nat n)" by simp
  show "getPart (of_nat i) ?buf = Inr (f i)" if "i < n" for i
    using that assms by (simp add: getPart_eq)
  have "part_end ` f ` {0..<n} = (\<lambda>i. vp_offset (f i) + vp_size (f i)) ` {0..<n}"
    by (auto simp: part_end_def)
  then show "getVecSize ?buf = Inr (Max (insert 0 ((\<lambda>i. vp_offset (f i) + vp_size (f i)) ` {0..<n})))"
    using assms by (simp add: getVecSize_eq vec_end_def)
qed

theorem register_getPart_witness:
  "\<exists>buf. register_all (\<lambda>i. \<lparr>vp_pid = of_nat i, vp_resid = 7, vp_size = 4, vp_offset = 4 * of_nat i\<rparr>) 2
      = Inr buf \<and> getPart 1 buf = Inr \<lparr>vp_pid = 1, vp_resid = 7, vp_size = 4, vp_offset = 4\<rparr>"
proof -
  have "vd_small 2" by (simp add: vd_small_def)
  from register_getPart [OF this, of "\<lambda>i. \<lparr>vp_pid = of_nat i, vp_resid = 7, vp_size = 4, vp_offset = 4 * of_nat i\<rparr>"]
  obtain buf where "register_all (\<lambda>i. \<lparr>vp_pid = of_nat i, vp_resid = 7, vp_size = 4, vp_offset = 4 * of_nat i\<rparr>) 2 = Inr buf"
    and "\<forall>i<2. getPart (of_nat i) buf = Inr \<lparr>vp_pid = of_nat i, vp_resid = 7, vp_size = 4, vp_offset = 4 * of_nat i\<rparr>"
    by blast
  then show ?thesis by (intro exI [of _ buf]) (auto dest: spec [of _ 1])
qed

text \<open>
  A description survives being sent to another process and being broadcast inside
  an actor. \<^const>\<open>receiveDistrVector\<close> sizes its buffer from the size of the message with the
  wrong start offset of the parts, and still gets the right number of parts; every process but
  the root of \<^const>\<open>broadcastVd\<close> ends with the buffer of the root, whatever it held before.
\<close>

theorem shipping_round_trip:
  assumes "vd_small n" and "register_all f n = Inr buf"
  shows "receiveDistrVector buf = Inr buf \<and>
    (\<forall>s vd. s \<noteq> 0 \<longrightarrow> bindE (nparts buf) (\<lambda>k. broadcastVd s k buf vd) = Inr buf)"
proof -
  have "buf = vd_bytes (map f [0..<n])" using assms by (simp add: register_all_eq)
  then show ?thesis
    using assms(1) receiveDistrVector_eq [of "map f [0..<n]"] broadcastVd_eq [of "map f [0..<n]"]
    by simp
qed

theorem shipping_round_trip_witness:
  "receiveDistrVector (vd_bytes [zero_part, zero_part]) = Inr (vd_bytes [zero_part, zero_part])"
proof -
  have s: "vd_small 2" by (simp add: vd_small_def)
  have "register_all (\<lambda>i. zero_part) 2 = Inr (vd_bytes [zero_part, zero_part])"
    using register_all_eq [OF s, of "\<lambda>i. zero_part"] by (simp add: numeral_2_eq_2)
  from shipping_round_trip [OF s this] show ?thesis by simp
qed

text \<open>
  \<^const>\<open>gather_distr_parts\<close> over processes that each registered \<open>k\<close> parts gives a
  description of all parts in process order, in which the offset of the last part of every
  process has lost its upper 32 bits (the copy starts at \<^const>\<open>parts_offset\<close>, four bytes before
  the first part). When those offsets are below \<open>2 ^ 32\<close> the gathered description is exact.
\<close>

theorem gather_description:
  assumes "\<And>s. s < p \<Longrightarrow> length (ps s) = k" and "0 < k" and "0 < p" and "p < 2 ^ 31"
    and "vd_small (k * p)" and "me < p"
    and "\<And>s off n. s < p \<Longrightarrow> remote s off n = peek off n (vd_bytes (ps s))"
  shows "gather_distr_parts remote (of_nat p) (vd_bytes (ps me)) =
      Inr (vd_bytes (concat (map (\<lambda>s. butlast (ps s) @
        [(last (ps s))\<lparr>vp_offset := take_bit 32 (vp_offset (last (ps s)))\<rparr>]) [0..<p]))) \<and>
    ((\<forall>s<p. vp_offset (last (ps s)) < 2 ^ 32) \<longrightarrow>
      gather_distr_parts remote (of_nat p) (vd_bytes (ps me)) = Inr (vd_bytes (concat (map ps [0..<p]))))"
proof -
  have ne: "ps s \<noteq> []" if "s < p" for s using assms(1) [OF that] assms(2) by auto
  have trunc: "map (\<lambda>s. butlast (ps s) @ [(last (ps s))\<lparr>vp_offset := take_bit 32 (vp_offset (last (ps s)))\<rparr>]) [0..<p]
      = map (\<lambda>s. trunc_last (ps s)) [0..<p]"
    using ne by (simp add: trunc_last_def)
  have exact: "map (\<lambda>s. trunc_last (ps s)) [0..<p] = map ps [0..<p]"
    if small: "\<forall>s<p. vp_offset (last (ps s)) < 2 ^ 32"
  proof (rule map_cong [OF refl])
    fix s assume "s \<in> set [0..<p]"
    then have "s < p" by simp
    with small have "take_bit 32 (vp_offset (last (ps s))) = vp_offset (last (ps s))"
      by (simp add: take_bit_eq_mod mod_word_less)
    then show "trunc_last (ps s) = ps s" using ne [OF \<open>s < p\<close>] by (simp add: trunc_last_def)
  qed
  have eq: "gather_distr_parts remote (of_nat p) (vd_bytes (ps me)) =
      Inr (vd_bytes (concat (map (\<lambda>s. trunc_last (ps s)) [0..<p])))"
    using assms by (rule gather_distr_parts_eq)
  show ?thesis unfolding trunc eq by (intro conjI impI refl) (simp only: exact)
qed

theorem gather_description_witness:
  "gather_distr_parts (\<lambda>s off n. peek off n (vd_bytes [zero_part\<lparr>vp_pid := of_nat s\<rparr>])) 2
      (vd_bytes [zero_part\<lparr>vp_pid := 1\<rparr>])
    = Inr (vd_bytes [zero_part, zero_part\<lparr>vp_pid := 1\<rparr>])"
proof -
  let ?ps = "\<lambda>s :: nat. [zero_part\<lparr>vp_pid := of_nat s\<rparr>]"
  have "vd_small (1 * 2)" by (simp add: vd_small_def)
  then have "gather_distr_parts (\<lambda>s off n. peek off n (vd_bytes (?ps s))) (of_nat 2) (vd_bytes (?ps 1))
      = Inr (vd_bytes (concat (map ?ps [0..<2])))"
    using gather_description [of 2 ?ps 1 1 "\<lambda>s off n. peek off n (vd_bytes (?ps s))"]
    by (simp add: zero_part_def)
  then show ?thesis by (simp add: numeral_2_eq_2 zero_part_def)
qed

end
