(* ===== verification/Actor_Messages.thy ===== *)
theory Actor_Messages
  imports Vector_Distribution
begin

text \<open>
  The actor messages at byte level: \<^verbatim>\<open>ActorMessage\<close> and its subclasses
  (src/src/ActiveBSP/src/actormsg, src/src/ActiveBSP/include/actormsg).

  A message is a buffer that starts with an \<^verbatim>\<open>instruction_envelope_t\<close> (the instruction, 4 bytes)
  followed by the envelope of the class at offset 4. Constructors fill a freshly allocated
  buffer with the offsets the compiler gives the envelope structs (including padding and the
  flexible array members, so \<^verbatim>\<open>data\<close> of \<^verbatim>\<open>store_result_envelope_t\<close> is at 17 of a 24 byte struct);
  getters read the buffer back and fail when they leave it. A pointer into a buffer is the list
  of the bytes from there to the end of the buffer.

  A message carries the address of its buffer and whether it owns it, and \<open>block\<close> is what
  \<^verbatim>\<open>new char[n]\<close> returns: an address and arbitrary contents.
\<close>

section \<open>Messages and their buffers\<close>

record block =
  bl_addr :: nat
  bl_mem :: "nat \<Rightarrow> byte"

record actor_message =
  am_addr :: nat
  am_buf :: "byte list"
  am_buf_size :: c_int
  am_src :: c_int
  am_qowned :: bool

definition ActorMessage0 :: actor_message where
  "ActorMessage0 = \<lparr>am_addr = 0, am_buf = [], am_buf_size = 0, am_src = - 1, am_qowned = False\<rparr>"

definition ActorMessage_on :: "c_int \<Rightarrow> nat \<Rightarrow> byte list \<Rightarrow> c_int \<Rightarrow> actor_message" where
  "ActorMessage_on src addr buf buf_size =
     \<lparr>am_addr = addr, am_buf = buf, am_buf_size = buf_size, am_src = src, am_qowned = False\<rparr>"

definition allocateBuffer :: "block \<Rightarrow> size_t \<Rightarrow> actor_message \<Rightarrow> actor_message" where
  "allocateBuffer b sz m =
     m\<lparr>am_addr := bl_addr b, am_buf := new_char (bl_mem b) (unat sz), am_buf_size := ucast sz\<rparr>"

definition allocateOwnBuffer :: "block \<Rightarrow> size_t \<Rightarrow> actor_message \<Rightarrow> actor_message" where
  "allocateOwnBuffer b sz m = (allocateBuffer b sz m)\<lparr>am_qowned := True\<rparr>"

definition freeBuffer :: "actor_message \<Rightarrow> actor_message" where
  "freeBuffer m =
     (if am_addr m \<noteq> 0 then m\<lparr>am_addr := 0, am_buf := [], am_buf_size := 0\<rparr> else m)"

definition freeOwnedBuffer :: "actor_message \<Rightarrow> actor_message" where
  "freeOwnedBuffer m = (if am_qowned m then freeBuffer m else m)"

definition enforceBufferSize :: "block \<Rightarrow> size_t \<Rightarrow> actor_message \<Rightarrow> actor_message" where
  "enforceBufferSize b sz m =
     (if scast (am_buf_size m) < sz then allocateBuffer b sz (freeBuffer m) else m)"

definition ActorMessage_copy :: "block \<Rightarrow> actor_message \<Rightarrow> actor_message result" where
  "ActorMessage_copy b other =
     (let n = scast (am_buf_size other);
          m = allocateOwnBuffer b n (ActorMessage0\<lparr>am_src := am_src other\<rparr>)
      in bindE (mem_read (am_buf other) 0 (unat n)) (\<lambda>bs.
         bindE (mem_write 0 bs (am_buf m)) (\<lambda>buf. Inr (m\<lparr>am_buf := buf\<rparr>))))"

definition giveBufferOwnership :: "nat \<Rightarrow> actor_message \<Rightarrow> actor_message result" where
  "giveBufferOwnership addr m =
     bindE (assertE (addr = am_addr m)) (\<lambda>_. Inr (m\<lparr>am_qowned := True\<rparr>))"

definition getInstruction :: "actor_message \<Rightarrow> c_int result" where
  "getInstruction m = get_int (am_buf m) 0"

definition getMsgBufSize :: "actor_message \<Rightarrow> size_t" where
  "getMsgBufSize m = scast (am_buf_size m)"

text \<open>The stores of a constructor, in the order of the code.\<close>

definition fill :: "(nat \<times> byte list) list \<Rightarrow> actor_message \<Rightarrow> actor_message result" where
  "fill ws m = bindE (writes ws (am_buf m)) (\<lambda>buf. Inr (m\<lparr>am_buf := buf\<rparr>))"

text \<open>\<^verbatim>\<open>&env->data[off]\<close>, with \<^verbatim>\<open>data\<close> at \<open>base\<close>; also the address of element \<open>i\<close> of an array.\<close>

definition envelope_offset :: "nat \<Rightarrow> c_int \<Rightarrow> nat result" where
  "envelope_offset base off =
     (if int base + sint off < 0 then Inl Out_of_bounds else Inr (nat (int base + sint off)))"

definition elem_offset :: "nat \<Rightarrow> nat \<Rightarrow> int \<Rightarrow> nat result" where
  "elem_offset base width i =
     (if int base + int width * i < 0 then Inl Out_of_bounds else Inr (nat (int base + int width * i)))"

section \<open>Instructions\<close>

definition INSTRUCTION_STOP :: c_int where "INSTRUCTION_STOP = 1"
definition INSTRUCTION_CREATE_ACTOR :: c_int where "INSTRUCTION_CREATE_ACTOR = 2"
definition INSTRUCTION_DESTROY_ACTOR :: c_int where "INSTRUCTION_DESTROY_ACTOR = 3"
definition INSTRUCTION_CALL_ACTOR :: c_int where "INSTRUCTION_CALL_ACTOR = 4"
definition INSTRUCTION_REGISTER_FUTURE_DATA :: c_int where "INSTRUCTION_REGISTER_FUTURE_DATA = 5"
definition INSTRUCTION_GET_FUTURE_DATA :: c_int where "INSTRUCTION_GET_FUTURE_DATA = 6"
definition INSTRUCTION_RELEASE_FUTURE :: c_int where "INSTRUCTION_RELEASE_FUTURE = 7"
definition INSTRUCTION_STORE_RESULT :: c_int where "INSTRUCTION_STORE_RESULT = 8"
definition INSTRUCTION_STORE_RESULT_PART :: c_int where "INSTRUCTION_STORE_RESULT_PART = 9"
definition INSTRUCTION_RELEASE_RESULT :: c_int where "INSTRUCTION_RELEASE_RESULT = 10"
definition INSTRUCTION_GET_RESULT_PARTS :: c_int where "INSTRUCTION_GET_RESULT_PARTS = 11"
definition INSTRUCTION_DISTRIBUTE_VECTOR :: c_int where "INSTRUCTION_DISTRIBUTE_VECTOR = 12"
definition INSTRUCTION_PREFETCH :: c_int where "INSTRUCTION_PREFETCH = 13"
definition INSTRUCTION_FETCH :: c_int where "INSTRUCTION_FETCH = 14"

lemmas instruction_defs =
  INSTRUCTION_STOP_def INSTRUCTION_CREATE_ACTOR_def INSTRUCTION_DESTROY_ACTOR_def
  INSTRUCTION_CALL_ACTOR_def INSTRUCTION_REGISTER_FUTURE_DATA_def INSTRUCTION_GET_FUTURE_DATA_def
  INSTRUCTION_RELEASE_FUTURE_def INSTRUCTION_STORE_RESULT_def INSTRUCTION_STORE_RESULT_PART_def
  INSTRUCTION_RELEASE_RESULT_def INSTRUCTION_GET_RESULT_PARTS_def INSTRUCTION_DISTRIBUTE_VECTOR_def
  INSTRUCTION_PREFETCH_def INSTRUCTION_FETCH_def

datatype message_class =
    CreateActor_class
  | CallActor_class
  | StopActor_class
  | StopActorProcess_class
  | RegisterFuture_class
  | GetFutureData_class
  | ReleaseFuture_class
  | GetResultParts_class
  | StoreResult_class
  | ReleaseResultPart_class
  | DistributeVector_class
  | Prefetch_class
  | Fetch_class
  | StoreResultPart_class

text \<open>
  The factory: the class is chosen by the instruction; a call is copied out of the receive
  buffer into a block \<open>b\<close> of its own; an unknown instruction gives \<^verbatim>\<open>nullptr\<close>.
\<close>

definition createMessage ::
  "block \<Rightarrow> c_int \<Rightarrow> nat \<Rightarrow> byte list \<Rightarrow> c_int \<Rightarrow> (message_class \<times> actor_message) option result"
where
  "createMessage b src addr buf bufsize =
     bindE (get_int buf 0) (\<lambda>ins.
       let m = ActorMessage_on src addr buf bufsize
       in if ins = INSTRUCTION_CREATE_ACTOR then Inr (Some (CreateActor_class, m))
          else if ins = INSTRUCTION_CALL_ACTOR then
            (if sint bufsize < 0 then Inl Bad_alloc
             else bindE (mem_read buf 0 (nat (sint bufsize))) (\<lambda>cpy.
               Inr (Some (CallActor_class, ActorMessage_on src (bl_addr b) cpy bufsize))))
          else if ins = INSTRUCTION_DESTROY_ACTOR then Inr (Some (StopActor_class, m))
          else if ins = INSTRUCTION_STOP then Inr (Some (StopActorProcess_class, m))
          else if ins = INSTRUCTION_REGISTER_FUTURE_DATA then Inr (Some (RegisterFuture_class, m))
          else if ins = INSTRUCTION_GET_FUTURE_DATA then Inr (Some (GetFutureData_class, m))
          else if ins = INSTRUCTION_RELEASE_FUTURE then Inr (Some (ReleaseFuture_class, m))
          else if ins = INSTRUCTION_GET_RESULT_PARTS then Inr (Some (GetResultParts_class, m))
          else if ins = INSTRUCTION_STORE_RESULT then Inr (Some (StoreResult_class, m))
          else if ins = INSTRUCTION_RELEASE_RESULT then Inr (Some (ReleaseResultPart_class, m))
          else if ins = INSTRUCTION_DISTRIBUTE_VECTOR then Inr (Some (DistributeVector_class, m))
          else if ins = INSTRUCTION_PREFETCH then Inr (Some (Prefetch_class, m))
          else if ins = INSTRUCTION_FETCH then Inr (Some (Fetch_class, m))
          else if ins = INSTRUCTION_STORE_RESULT_PART then Inr (Some (StoreResultPart_class, m))
          else Inr None)"

section \<open>CreateActorMessage\<close>

definition CreateActorMessage :: "block \<Rightarrow> byte list \<Rightarrow> c_int list \<Rightarrow> actor_message result" where
  "CreateActorMessage b actorName pids =
     (let name_size = of_nat (length actorName + 1) :: c_int;
          pids_size = of_nat (length pids * 4) :: c_int;
          buf_size = ucast (4 + 12 + scast name_size + scast pids_size :: size_t) :: c_int;
          m = ActorMessage0\<lparr>am_addr := bl_addr b, am_buf := new_char (bl_mem b) (nat (sint buf_size)),
                am_buf_size := buf_size, am_qowned := True\<rparr>
      in if sint buf_size < 0 then Inl Bad_alloc
         else bindE (mem_read (actorName @ [0]) 0 (unat (scast name_size :: size_t))) (\<lambda>name.
              bindE (envelope_offset 16 name_size) (\<lambda>pids_at.
              bindE (mem_read (ints_bytes pids) 0 (unat (scast pids_size :: size_t))) (\<lambda>ps.
                fill [(0, int_bytes INSTRUCTION_CREATE_ACTOR), (4, int_bytes 0), (8, int_bytes name_size),
                      (12, int_bytes (of_nat (length pids))), (16, name), (pids_at, ps)] m))))"

definition create_getActorName :: "actor_message \<Rightarrow> byte list result" where
  "create_getActorName m =
     bindE (get_int (am_buf m) 4) (\<lambda>off.
     bindE (envelope_offset 16 off) (\<lambda>a. c_string (drop a (am_buf m))))"

definition create_getPids :: "actor_message \<Rightarrow> c_int list result" where
  "create_getPids m =
     bindE (get_int (am_buf m) 12) (\<lambda>pids_length.
     bindE (get_int (am_buf m) 8) (\<lambda>off.
     bindE (envelope_offset 16 off) (\<lambda>a.
       if sint pids_length < 0 then Inl Bad_alloc
       else bindE (mem_read (am_buf m) a (unat (scast pids_length * 4 :: size_t))) (\<lambda>bs.
         Inr (bytes_ints (nat (sint pids_length)) bs)))))"

section \<open>CallActorMessage\<close>

definition CallActorMessage :: "block \<Rightarrow> byte list \<Rightarrow> byte list \<Rightarrow> c_int \<Rightarrow> actor_message result" where
  "CallActorMessage b function_name args future_key =
     (let name_size = of_nat (length function_name + 1) :: c_int;
          args_size = of_nat (length args) :: c_int;
          m = allocateOwnBuffer b (4 + 16 + scast name_size + scast args_size) ActorMessage0
      in bindE (mem_read (function_name @ [0]) 0 (unat (scast name_size :: size_t))) (\<lambda>name.
         bindE (envelope_offset 20 name_size) (\<lambda>args_at.
         bindE (mem_read args 0 (unat (scast args_size :: size_t))) (\<lambda>as.
           fill [(0, int_bytes INSTRUCTION_CALL_ACTOR), (8, int_bytes future_key),
                 (16, int_bytes args_size), (4, int_bytes 0), (12, int_bytes name_size),
                 (20, name), (args_at, as)] m))))"

definition call_getFunctionName :: "actor_message \<Rightarrow> byte list result" where
  "call_getFunctionName m =
     bindE (get_int (am_buf m) 4) (\<lambda>off.
     bindE (envelope_offset 20 off) (\<lambda>a. c_string (drop a (am_buf m))))"

definition call_getArgsPtr :: "actor_message \<Rightarrow> byte list result" where
  "call_getArgsPtr m =
     bindE (get_int (am_buf m) 12) (\<lambda>off.
     bindE (envelope_offset 20 off) (\<lambda>a. Inr (drop a (am_buf m))))"

definition call_getArgsSize :: "actor_message \<Rightarrow> c_int result" where
  "call_getArgsSize m = get_int (am_buf m) 16"

definition call_getArgs :: "actor_message \<Rightarrow> byte list result" where
  "call_getArgs m =
     bindE (call_getArgsSize m) (\<lambda>n.
       if sint n < 0 then Inl Bad_alloc
       else bindE (get_int (am_buf m) 12) (\<lambda>off.
            bindE (envelope_offset 20 off) (\<lambda>a. mem_read (am_buf m) a (nat (sint n)))))"

definition call_getFutureKey :: "actor_message \<Rightarrow> c_int result" where
  "call_getFutureKey m = get_int (am_buf m) 8"

section \<open>StopActorMessage and StopActorProcessMessage\<close>

definition StopActorMessage :: "block \<Rightarrow> bool \<Rightarrow> actor_message result" where
  "StopActorMessage b askAnswer =
     fill [(0, int_bytes INSTRUCTION_DESTROY_ACTOR), (4, [if askAnswer then 1 else 0])]
       (allocateOwnBuffer b (4 + 1) ActorMessage0)"

definition stop_isAskingAnswer :: "actor_message \<Rightarrow> bool result" where
  "stop_isAskingAnswer m = bindE (mem_read (am_buf m) 4 1) (\<lambda>bs. Inr (bs \<noteq> [0]))"

definition StopActorProcessMessage :: "block \<Rightarrow> actor_message result" where
  "StopActorProcessMessage b =
     fill [(0, int_bytes INSTRUCTION_STOP)] (allocateOwnBuffer b 4 ActorMessage0)"

section \<open>RegisterFutureMessage, GetFutureDataMessage and ReleaseFutureMessage\<close>

definition RegisterFutureMessage :: "block \<Rightarrow> c_int \<Rightarrow> byte list \<Rightarrow> actor_message result" where
  "RegisterFutureMessage b future_key future_data =
     (let future_data_size = of_nat (length future_data) :: c_int;
          m = allocateOwnBuffer b (4 + 12 + scast future_data_size) ActorMessage0
      in bindE (mem_read future_data 0 (unat (scast future_data_size :: size_t))) (\<lambda>d.
           fill [(0, int_bytes INSTRUCTION_REGISTER_FUTURE_DATA), (4, int_bytes future_key),
                 (12, int_bytes future_data_size), (8, int_bytes 0), (16, d)] m))"

definition register_getFutureKey :: "actor_message \<Rightarrow> c_int result" where
  "register_getFutureKey m = get_int (am_buf m) 4"

definition register_getFutureData :: "actor_message \<Rightarrow> byte list result" where
  "register_getFutureData m =
     bindE (get_int (am_buf m) 12) (\<lambda>n.
       if sint n < 0 then Inl Bad_alloc
       else bindE (get_int (am_buf m) 8) (\<lambda>off.
            bindE (envelope_offset 16 off) (\<lambda>a. mem_read (am_buf m) a (nat (sint n)))))"

definition GetFutureDataMessage :: "block \<Rightarrow> c_int \<Rightarrow> actor_message result" where
  "GetFutureDataMessage b future_key =
     fill [(0, int_bytes INSTRUCTION_GET_FUTURE_DATA), (4, int_bytes future_key)]
       (allocateOwnBuffer b (4 + 4) ActorMessage0)"

definition getdata_getFutureKey :: "actor_message \<Rightarrow> c_int result" where
  "getdata_getFutureKey m = get_int (am_buf m) 4"

definition ReleaseFutureMessage :: "block \<Rightarrow> c_int \<Rightarrow> actor_message result" where
  "ReleaseFutureMessage b future_key =
     fill [(0, int_bytes INSTRUCTION_RELEASE_FUTURE), (4, int_bytes future_key)]
       (allocateOwnBuffer b (4 + 4) ActorMessage0)"

definition release_getFutureKey :: "actor_message \<Rightarrow> c_int result" where
  "release_getFutureKey m = get_int (am_buf m) 4"

section \<open>StoreResultMessage and StoreResultPartMessage\<close>

text \<open>\<open>addr\<close> is the value of the pointer \<^verbatim>\<open>data\<close> and \<open>data\<close> the bytes it points to.\<close>

definition store_build ::
  "c_int \<Rightarrow> size_t \<Rightarrow> byte list \<Rightarrow> size_t \<Rightarrow> bool \<Rightarrow> actor_message \<Rightarrow> actor_message result"
where
  "store_build resid addr data sz only_address m =
     bindE (if only_address then Inr (size_bytes addr) else mem_read data 0 (unat sz)) (\<lambda>d.
       fill [(0, int_bytes INSTRUCTION_STORE_RESULT), (4, int_bytes resid), (12, size_bytes sz),
             (20, [if only_address then 1 else 0]), (21, d)] m)"

definition StoreResultMessage ::
  "block \<Rightarrow> c_int \<Rightarrow> size_t \<Rightarrow> byte list \<Rightarrow> size_t \<Rightarrow> bool \<Rightarrow> actor_message result"
where
  "StoreResultMessage b resid addr data sz only_address =
     (let data_size = (if only_address then 8 else sz); msg_size = 4 + 24 + data_size
      in store_build resid addr data sz only_address (allocateOwnBuffer b msg_size ActorMessage0))"

text \<open>
  The constructor that reuses a send buffer: \<open>buf_addr\<close>, \<open>buf\<close> and \<open>buf_size\<close> are \<^verbatim>\<open>*buf\<close> and
  \<^verbatim>\<open>*buf_size\<close> before the call. After it they are the address, contents and size of the message.
\<close>

definition StoreResultMessage_in ::
  "block \<Rightarrow> nat \<Rightarrow> byte list \<Rightarrow> size_t \<Rightarrow> c_int \<Rightarrow> size_t \<Rightarrow> byte list \<Rightarrow> size_t \<Rightarrow> bool \<Rightarrow> actor_message result"
where
  "StoreResultMessage_in b buf_addr buf buf_size resid addr data sz only_address =
     (let data_size = (if only_address then 8 else sz); msg_size = 4 + 24 + data_size;
          m = enforceBufferSize b msg_size (ActorMessage_on (- 1) buf_addr buf (ucast buf_size))
      in store_build resid addr data sz only_address (m\<lparr>am_qowned := False\<rparr>))"

definition store_getResId :: "actor_message \<Rightarrow> c_int result" where
  "store_getResId m = get_int (am_buf m) 4"

definition store_getData :: "actor_message \<Rightarrow> byte list" where
  "store_getData m = drop 21 (am_buf m)"

definition store_getDataSize :: "actor_message \<Rightarrow> size_t result" where
  "store_getDataSize m = get_size (am_buf m) 12"

definition store_isOnlyAddr :: "actor_message \<Rightarrow> bool result" where
  "store_isOnlyAddr m = bindE (mem_read (am_buf m) 20 1) (\<lambda>bs. Inr (bs \<noteq> [0]))"

definition store_getAddrData :: "actor_message \<Rightarrow> size_t result" where
  "store_getAddrData m = get_size (am_buf m) 21"

definition part_build ::
  "c_int \<Rightarrow> byte list \<Rightarrow> size_t \<Rightarrow> size_t \<Rightarrow> size_t \<Rightarrow> actor_message \<Rightarrow> actor_message result"
where
  "part_build resid data offset sz full_size m =
     bindE (mem_read data 0 (unat sz)) (\<lambda>d.
       fill [(0, int_bytes INSTRUCTION_STORE_RESULT_PART), (4, int_bytes resid), (12, size_bytes sz),
             (28, size_bytes full_size), (20, size_bytes offset), (36, d)] m)"

definition StoreResultPartMessage ::
  "block \<Rightarrow> c_int \<Rightarrow> byte list \<Rightarrow> size_t \<Rightarrow> size_t \<Rightarrow> size_t \<Rightarrow> actor_message result"
where
  "StoreResultPartMessage b resid data offset sz full_size =
     (let msg_size = 4 + 32 + sz
      in part_build resid data offset sz full_size (allocateOwnBuffer b msg_size ActorMessage0))"

definition StoreResultPartMessage_in ::
  "block \<Rightarrow> c_int \<Rightarrow> byte list \<Rightarrow> size_t \<Rightarrow> size_t \<Rightarrow> size_t \<Rightarrow> actor_message result"
where
  "StoreResultPartMessage_in b resid data offset sz full_size =
     (let msg_size = 4 + 32 + sz; m = enforceBufferSize b msg_size ActorMessage0
      in part_build resid data offset sz full_size (m\<lparr>am_qowned := False\<rparr>))"

definition part_getResId :: "actor_message \<Rightarrow> c_int result" where
  "part_getResId m = get_int (am_buf m) 4"

definition part_getData :: "actor_message \<Rightarrow> byte list" where
  "part_getData m = drop 36 (am_buf m)"

definition part_getDataSize :: "actor_message \<Rightarrow> size_t result" where
  "part_getDataSize m = get_size (am_buf m) 12"

definition part_getOffset :: "actor_message \<Rightarrow> size_t result" where
  "part_getOffset m = get_size (am_buf m) 20"

section \<open>GetResultPartsMessage and ReleaseResultPartMessage\<close>

record result_req_part =
  rq_resid :: c_int
  rq_offset :: size_t
  rq_size :: size_t
  rq_dst :: size_t

text \<open>The object representation of a request; the padding after \<^verbatim>\<open>resid\<close> is never read.\<close>

definition req_bytes :: "result_req_part \<Rightarrow> byte list" where
  "req_bytes r = int_bytes (rq_resid r) @ replicate 4 0 @ size_bytes (rq_offset r)
     @ size_bytes (rq_size r) @ size_bytes (rq_dst r)"

definition req_decode :: "byte list \<Rightarrow> result_req_part" where
  "req_decode bs = \<lparr>rq_resid = bytes_int (peek 0 4 bs), rq_offset = bytes_size (peek 8 8 bs),
     rq_size = bytes_size (peek 16 8 bs), rq_dst = bytes_size (peek 24 8 bs)\<rparr>"

definition GetResultPartsMessage :: "block \<Rightarrow> c_int \<Rightarrow> result_req_part list \<Rightarrow> actor_message result" where
  "GetResultPartsMessage b forward_to parts =
     fill [(4, int_bytes (of_nat (length parts))), (8, int_bytes forward_to),
           (0, int_bytes INSTRUCTION_GET_RESULT_PARTS), (12, concat (map req_bytes parts))]
       (allocateOwnBuffer b (4 + 8 + of_nat (length parts) * 32) ActorMessage0)"

definition parts_getNparts :: "actor_message \<Rightarrow> c_int result" where
  "parts_getNparts m = get_int (am_buf m) 4"

definition parts_getForwardTo :: "actor_message \<Rightarrow> c_int result" where
  "parts_getForwardTo m = get_int (am_buf m) 8"

definition parts_getPart :: "c_int \<Rightarrow> actor_message \<Rightarrow> result_req_part result" where
  "parts_getPart i m =
     bindE (elem_offset 12 32 (sint i)) (\<lambda>a.
     bindE (mem_read (am_buf m) a 32) (\<lambda>bs. Inr (req_decode bs)))"

definition ReleaseResultPartMessage :: "block \<Rightarrow> c_int \<Rightarrow> actor_message result" where
  "ReleaseResultPartMessage b resid =
     fill [(0, int_bytes INSTRUCTION_RELEASE_RESULT), (4, int_bytes resid)]
       (allocateOwnBuffer b (4 + 4) ActorMessage0)"

definition relpart_getResId :: "actor_message \<Rightarrow> c_int result" where
  "relpart_getResId m = get_int (am_buf m) 4"

section \<open>DistributeVectorMessage, PrefetchMessage and FetchMessage\<close>

definition DISTR_BLOCK :: c_int where
  "DISTR_BLOCK = 1"

definition DistributeVectorMessage :: "block \<Rightarrow> c_int \<Rightarrow> size_t \<Rightarrow> size_t \<Rightarrow> actor_message result" where
  "DistributeVectorMessage b type n elem_size =
     fill [(0, int_bytes INSTRUCTION_DISTRIBUTE_VECTOR), (4, int_bytes type), (8, size_bytes n),
           (16, size_bytes elem_size)]
       (allocateOwnBuffer b (4 + 4 + 16) ActorMessage0)"

definition distr_getDistrType :: "actor_message \<Rightarrow> c_int result" where
  "distr_getDistrType m = get_int (am_buf m) 4"

text \<open>\<^verbatim>\<open>getDistrArgs\<close> as the \<^verbatim>\<open>block_distr_args_t\<close> its only caller casts it to.\<close>

definition distr_getDistrArgs :: "actor_message \<Rightarrow> (size_t \<times> size_t) result" where
  "distr_getDistrArgs m =
     bindE (get_size (am_buf m) 8) (\<lambda>n. bindE (get_size (am_buf m) 16) (\<lambda>e. Inr (n, e)))"

definition PrefetchMessage :: "block \<Rightarrow> c_int \<Rightarrow> c_int \<Rightarrow> size_t \<Rightarrow> actor_message result" where
  "PrefetchMessage b future_pid future_key dv_size =
     fill [(0, int_bytes INSTRUCTION_PREFETCH), (4, int_bytes future_pid), (8, int_bytes future_key),
           (12, size_bytes dv_size)]
       (allocateOwnBuffer b (4 + 16) ActorMessage0)"

definition prefetch_getFuturePid :: "actor_message \<Rightarrow> c_int result" where
  "prefetch_getFuturePid m = get_int (am_buf m) 4"

definition prefetch_getFutureKey :: "actor_message \<Rightarrow> c_int result" where
  "prefetch_getFutureKey m = get_int (am_buf m) 8"

definition prefetch_getDvSize :: "actor_message \<Rightarrow> size_t result" where
  "prefetch_getDvSize m = get_size (am_buf m) 12"

text \<open>\<open>pids\<close> are the \<^verbatim>\<open>int\<close>s the pointer argument points to; \<open>npids\<close> of them are copied.\<close>

definition FetchMessage ::
  "block \<Rightarrow> c_int list \<Rightarrow> c_int \<Rightarrow> c_int \<Rightarrow> c_int \<Rightarrow> size_t \<Rightarrow> actor_message result"
where
  "FetchMessage b pids npids req_future_key res_future_key dv_size =
     bindE (mul_int npids 2) (\<lambda>twice.
     bindE (mem_read (ints_bytes pids) 0 (unat (scast npids * 4 :: size_t))) (\<lambda>ps.
       fill [(0, int_bytes INSTRUCTION_FETCH), (20, int_bytes npids), (12, int_bytes req_future_key),
             (16, int_bytes res_future_key), (4, size_bytes dv_size), (24, ps)]
         (allocateOwnBuffer b (4 + 24 + scast twice * 4) ActorMessage0)))"

definition fetch_getReqFutureKey :: "actor_message \<Rightarrow> c_int result" where
  "fetch_getReqFutureKey m = get_int (am_buf m) 12"

definition fetch_getResFutureKey :: "actor_message \<Rightarrow> c_int result" where
  "fetch_getResFutureKey m = get_int (am_buf m) 16"

definition fetch_getDvSize :: "actor_message \<Rightarrow> size_t result" where
  "fetch_getDvSize m = get_size (am_buf m) 4"

definition fetch_getNpids :: "actor_message \<Rightarrow> c_int result" where
  "fetch_getNpids m = get_int (am_buf m) 20"

text \<open>\<^verbatim>\<open>getPids()[i]\<close> and \<^verbatim>\<open>getKeys()[i]\<close>, and the store of \<open>keys\<close> through \<^verbatim>\<open>getKeys()\<close>.\<close>

definition fetch_getPids :: "c_int \<Rightarrow> actor_message \<Rightarrow> c_int result" where
  "fetch_getPids i m = bindE (elem_offset 24 4 (sint i)) (get_int (am_buf m))"

definition fetch_getKeys :: "c_int \<Rightarrow> actor_message \<Rightarrow> c_int result" where
  "fetch_getKeys i m =
     bindE (fetch_getNpids m) (\<lambda>npids.
     bindE (elem_offset 24 4 (sint npids + sint i)) (get_int (am_buf m)))"

definition fetch_setKeys :: "c_int list \<Rightarrow> actor_message \<Rightarrow> actor_message result" where
  "fetch_setKeys keys m =
     bindE (fetch_getNpids m) (\<lambda>npids.
     bindE (elem_offset 24 4 (sint npids)) (\<lambda>a. fill [(a, ints_bytes keys)] m))"

end
