(* ===== verification/Message_Codec.thy ===== *)
theory Message_Codec
  imports Actor_Messages
begin

text \<open>
  What the wire format promises: a message built by a constructor, sent as bytes and received
  into a reused receive buffer (which may be longer than the message) is given back by the
  factory as a message of the same class, and its getters return the constructor's arguments.

  The promise is the locale \<open>wire_codec\<close>, with one interpretation per message class; \<open>view\<close> of a
  class calls all of its getters.
\<close>

section \<open>Reading fields back\<close>

lemma mem_read_all [simp]: "mem_read bs 0 (length bs) = Inr bs"
  by (simp add: mem_read_def peek_def)

lemma peek_drop: "peek 0 n (drop off buf) = peek off n buf"
  by (simp add: peek_def)

lemma mem_read_field: "peek off n buf = bs \<Longrightarrow> off + n \<le> length buf \<Longrightarrow> mem_read buf off n = Inr bs"
  by (simp add: mem_read_def)

lemma get_int_field: "peek off 4 buf = int_bytes w \<Longrightarrow> get_int buf off = Inr w"
proof -
  assume p: "peek off 4 buf = int_bytes w"
  then have "length (peek off 4 buf) = 4" by simp
  then have "off + 4 \<le> length buf" by (simp add: length_peek)
  then show ?thesis using p by (simp add: get_int_Inr)
qed

lemma get_size_field: "peek off 8 buf = size_bytes w \<Longrightarrow> get_size buf off = Inr w"
proof -
  assume p: "peek off 8 buf = size_bytes w"
  then have "length (peek off 8 buf) = 8" by simp
  then have "off + 8 \<le> length buf" by (simp add: length_peek)
  then show ?thesis using p by (simp add: get_size_Inr)
qed

lemma envelope_offset_of_nat: "k < 2 ^ 31 \<Longrightarrow> envelope_offset base (of_nat k) = Inr (base + k)"
  by (simp add: envelope_offset_def nat_add_distrib)

lemma envelope_offset_0: "envelope_offset base 0 = Inr base"
  by (simp add: envelope_offset_def)

lemma elem_offset_of_nat: "elem_offset base w (int i) = Inr (base + w * i)"
proof -
  have "int base + int w * int i = int (base + w * i)" by simp
  then show ?thesis unfolding elem_offset_def by (simp only: nat_int of_nat_less_0_iff if_False)
qed

lemma unat_scast_of_nat: "k < 2 ^ 31 \<Longrightarrow> unat (scast (of_nat k :: c_int) :: size_t) = k"
  by simp

lemma unat_size_numeral_add:
  "a + numeral k < 2 ^ 64 \<Longrightarrow> unat (of_nat a + numeral k :: size_t) = a + numeral k"
  by (metis of_nat_add of_nat_numeral unat_size_of_nat)

lemma c_string_field:
  assumes "peek off (length nm) buf = nm" and "nm = s @ [0]" and "0 \<notin> set s"
  shows "c_string (drop off buf) = Inr s"
proof -
  have "drop off buf = nm @ drop (length nm) (drop off buf)"
    using append_take_drop_id [of "length nm" "drop off buf"] assms(1) by (simp only: peek_def)
  then show ?thesis using c_string_append [OF assms(3)] assms(2) by (metis append.assoc append_Cons append_Nil)
qed

text \<open>A freshly allocated message of \<open>k\<close> bytes, filled.\<close>

definition fresh_message :: "block \<Rightarrow> byte list \<Rightarrow> actor_message" where
  "fresh_message b buf = \<lparr>am_addr = bl_addr b, am_buf = buf, am_buf_size = of_nat (length buf),
     am_src = - 1, am_qowned = True\<rparr>"

lemma allocateOwn_fresh:
  "k < 2 ^ 31 \<Longrightarrow> allocateOwnBuffer b (of_nat k) ActorMessage0 = fresh_message b (new_char (bl_mem b) k)"
  by (simp add: allocateOwnBuffer_def allocateBuffer_def ActorMessage0_def fresh_message_def)

lemma am_buf_fresh [simp]: "am_buf (fresh_message b buf) = buf"
  by (simp add: fresh_message_def)

lemma am_buf_size_fresh [simp]: "am_buf_size (fresh_message b buf) = of_nat (length buf)"
  by (simp add: fresh_message_def)

lemma fill_fresh:
  assumes "layout k ws" and "length buf = k"
  shows "\<exists>buf'. fill ws (fresh_message b buf) = Inr (fresh_message b buf') \<and> length buf' = k \<and>
    (\<forall>w\<in>set ws. peek (fst w) (length (snd w)) buf' = snd w)"
  using writes_layout [of buf ws] assms by (auto simp: fill_def fresh_message_def)

lemma fill_allocated:
  assumes "layout k ws" and "k < 2 ^ 31" and "sz = of_nat k"
  shows "\<exists>buf. fill ws (allocateOwnBuffer b sz ActorMessage0) = Inr (fresh_message b buf) \<and>
    length buf = k \<and> (\<forall>w\<in>set ws. peek (fst w) (length (snd w)) buf = snd w)"
  using fill_fresh [OF assms(1), of "new_char (bl_mem b) k" b] assms(2,3)
  by (simp add: allocateOwn_fresh)

lemmas field_simps_wire = get_int_field get_size_field mem_read_field envelope_offset_of_nat
  envelope_offset_0 unat_scast_of_nat

section \<open>Computations that read a prefix\<close>

text \<open>
  A computation on a buffer is \<open>prefix_stable\<close> when bytes appended to the buffer do not change a
  successful outcome: the receive buffer may be longer than the message.
\<close>

definition prefix_stable :: "(byte list \<Rightarrow> 'a result) \<Rightarrow> bool" where
  "prefix_stable f \<longleftrightarrow> (\<forall>xs ys r. f xs = Inr r \<longrightarrow> f (xs @ ys) = Inr r)"

named_theorems stable_intros "computations that read a prefix"

lemma stableD: "prefix_stable f \<Longrightarrow> f xs = Inr r \<Longrightarrow> f (xs @ ys) = Inr r"
  by (simp add: prefix_stable_def)

lemma stable_const [stable_intros]: "prefix_stable (\<lambda>bs. r)"
  by (simp add: prefix_stable_def)

lemma stable_bindE [stable_intros]:
  assumes "prefix_stable m" and "\<And>x. prefix_stable (f x)"
  shows "prefix_stable (\<lambda>bs. bindE (m bs) (\<lambda>x. f x bs))"
proof (unfold prefix_stable_def, intro allI impI)
  fix xs ys r assume "bindE (m xs) (\<lambda>x. f x xs) = Inr r"
  then obtain x where "m xs = Inr x" and "f x xs = Inr r" by blast
  with assms show "bindE (m (xs @ ys)) (\<lambda>x. f x (xs @ ys)) = Inr r" by (simp add: stableD)
qed

lemma stable_if [stable_intros]:
  "prefix_stable f \<Longrightarrow> prefix_stable g \<Longrightarrow> prefix_stable (\<lambda>bs. if c then f bs else g bs)"
  by (cases c) simp_all

lemma stable_mem_read [stable_intros]: "prefix_stable (\<lambda>bs. mem_read bs off n)"
  by (simp add: prefix_stable_def mem_read_prefix)

lemma stable_mem_read_drop [stable_intros]: "prefix_stable (\<lambda>bs. mem_read (drop a bs) 0 n)"
  by (auto simp: prefix_stable_def mem_read_def peek_def)

lemma stable_get_int [stable_intros]: "prefix_stable (\<lambda>bs. get_int bs off)"
  by (simp add: prefix_stable_def get_int_prefix)

lemma stable_get_size [stable_intros]: "prefix_stable (\<lambda>bs. get_size bs off)"
  by (simp add: prefix_stable_def get_size_prefix)

lemma stable_c_string [stable_intros]: "prefix_stable (\<lambda>bs. c_string (drop a bs))"
proof (unfold prefix_stable_def, intro allI impI)
  fix xs ys r assume c: "c_string (drop a xs) = Inr r"
  then have "a < length xs" by (rule_tac ccontr) simp
  then show "c_string (drop a (xs @ ys)) = Inr r" using c_string_prefix [OF c] by simp
qed

lemma stable_mapE [stable_intros]:
  assumes "\<And>x. prefix_stable (f x)"
  shows "prefix_stable (\<lambda>bs. mapE (\<lambda>x. f x bs) xs)"
proof (induction xs)
  case Nil
  then show ?case by (simp add: stable_const)
next
  case (Cons x xs)
  then show ?case by simp (intro stable_intros assms)
qed

text \<open>A getter that only looks at the buffer, as a computation on buffers.\<close>

definition at_bytes :: "byte list \<Rightarrow> actor_message" where
  "at_bytes bs = ActorMessage0\<lparr>am_buf := bs\<rparr>"

lemma am_buf_at_bytes [simp]: "am_buf (at_bytes bs) = bs"
  by (simp add: at_bytes_def)

lemma stable_view:
  assumes "prefix_stable (\<lambda>bs. view (at_bytes bs))" and "\<And>m. view (at_bytes (am_buf m)) = view m"
    and "view m = Inr v" and "am_buf m' = am_buf m @ junk"
  shows "view m' = Inr v"
proof -
  have "view (at_bytes (am_buf m)) = Inr v" using assms(2,3) by simp
  then have "view (at_bytes (am_buf m @ junk)) = Inr v" by (rule stableD [OF assms(1)])
  then show ?thesis using assms(2) [of m'] assms(4) by simp
qed

section \<open>The factory\<close>

definition instruction_class :: "c_int \<Rightarrow> message_class option" where
  "instruction_class = map_of
     [(INSTRUCTION_CREATE_ACTOR, CreateActor_class), (INSTRUCTION_CALL_ACTOR, CallActor_class),
      (INSTRUCTION_DESTROY_ACTOR, StopActor_class), (INSTRUCTION_STOP, StopActorProcess_class),
      (INSTRUCTION_REGISTER_FUTURE_DATA, RegisterFuture_class),
      (INSTRUCTION_GET_FUTURE_DATA, GetFutureData_class),
      (INSTRUCTION_RELEASE_FUTURE, ReleaseFuture_class),
      (INSTRUCTION_GET_RESULT_PARTS, GetResultParts_class),
      (INSTRUCTION_STORE_RESULT, StoreResult_class),
      (INSTRUCTION_RELEASE_RESULT, ReleaseResultPart_class),
      (INSTRUCTION_DISTRIBUTE_VECTOR, DistributeVector_class),
      (INSTRUCTION_PREFETCH, Prefetch_class), (INSTRUCTION_FETCH, Fetch_class),
      (INSTRUCTION_STORE_RESULT_PART, StoreResultPart_class)]"

lemma createMessage_class:
  assumes "get_int buf 0 = Inr ins" and "instruction_class ins = Some c"
    and "n < 2 ^ 31" and "n \<le> length buf"
  shows "\<exists>m. createMessage b src addr buf (of_nat n) = Inr (Some (c, m)) \<and> am_src m = src \<and>
    am_buf_size m = of_nat n \<and> am_buf m = (if c = CallActor_class then take n buf else buf)"
proof -
  have cpy: "mem_read buf 0 n = Inr (take n buf)"
    using assms(4) by (simp add: mem_read_def peek_def)
  have s: "sint (of_nat n :: c_int) = int n" using assms(3) by simp
  show ?thesis
    using assms(2)
    by (auto simp: createMessage_def assms(1) instruction_class_def instruction_defs s cpy
        ActorMessage_on_def Let_def split: if_splits)
qed

lemma createMessage_unknown:
  assumes "get_int buf 0 = Inr ins" and "instruction_class ins = None"
  shows "createMessage b src addr buf n = Inr None"
  using assms(2)
  by (auto simp: createMessage_def assms(1) instruction_class_def instruction_defs Let_def split: if_splits)

section \<open>The contract of a message class\<close>

locale wire_codec =
  fixes ins :: c_int and cls :: message_class and ok :: "'v \<Rightarrow> bool"
    and mk :: "block \<Rightarrow> 'v \<Rightarrow> actor_message result"
    and view :: "actor_message \<Rightarrow> 'v result"
  assumes ins_cls: "instruction_class ins = Some cls"
    and encode: "ok v \<Longrightarrow> \<exists>buf. mk b v = Inr (fresh_message b buf) \<and> length buf < 2 ^ 31 \<and>
      get_int buf 0 = Inr ins \<and> view (fresh_message b buf) = Inr v"
    and view_prefix: "view m = Inr v \<Longrightarrow> am_buf m' = am_buf m @ junk \<Longrightarrow> view m' = Inr v"
begin

lemma delivered:
  assumes "ok v"
  shows "\<exists>m m'. mk b v = Inr m \<and>
    createMessage b' src addr (am_buf m @ junk) (am_buf_size m) = Inr (Some (cls, m')) \<and>
    am_src m' = src \<and> view m' = Inr v"
proof -
  obtain buf where mk: "mk b v = Inr (fresh_message b buf)" and len: "length buf < 2 ^ 31"
    and ins: "get_int buf 0 = Inr ins" and view: "view (fresh_message b buf) = Inr v"
    using encode [OF assms] by blast
  obtain m' where c: "createMessage b' src addr (buf @ junk) (of_nat (length buf)) = Inr (Some (cls, m'))"
    and src: "am_src m' = src"
    and buf': "am_buf m' = (if cls = CallActor_class then take (length buf) (buf @ junk) else buf @ junk)"
    using createMessage_class [OF get_int_prefix [OF ins] ins_cls len, of junk] by force
  have "\<exists>rest. am_buf m' = buf @ rest" by (simp add: buf')
  then have "view m' = Inr v" using view_prefix [OF view] by auto
  then show ?thesis
    using mk c src by (intro exI [of _ "fresh_message b buf"] exI [of _ m']) simp
qed

lemma same_view:
  assumes "ok v" and "ok w" and "mk b v = Inr m" and "mk b' w = Inr m'" and "am_buf m = am_buf m'"
  shows "v = w"
proof -
  have "view m = Inr v" "view m' = Inr w" using encode [OF assms(1), of b] encode [OF assms(2), of b'] assms by auto
  then show ?thesis using view_prefix [of m v m' "[]"] assms(5) by simp
qed

end

text \<open>How a class meets the contract: its getters only look at the buffer, and read a prefix of it.\<close>

lemma wire_codecI:
  assumes "instruction_class ins = Some cls"
    and "\<And>v b. ok v \<Longrightarrow> \<exists>buf. mk b v = Inr (fresh_message b buf) \<and> length buf < 2 ^ 31 \<and>
      get_int buf 0 = Inr ins \<and> view (fresh_message b buf) = Inr v"
    and "prefix_stable (\<lambda>bs. view (at_bytes bs))" and "\<And>m. view (at_bytes (am_buf m)) = view m"
  shows "wire_codec ins cls ok mk view"
  using assms(1,2) stable_view [OF assms(3,4)] by unfold_locales

lemma instruction_classes:
  "instruction_class INSTRUCTION_CREATE_ACTOR = Some CreateActor_class"
  "instruction_class INSTRUCTION_CALL_ACTOR = Some CallActor_class"
  "instruction_class INSTRUCTION_DESTROY_ACTOR = Some StopActor_class"
  "instruction_class INSTRUCTION_STOP = Some StopActorProcess_class"
  "instruction_class INSTRUCTION_REGISTER_FUTURE_DATA = Some RegisterFuture_class"
  "instruction_class INSTRUCTION_GET_FUTURE_DATA = Some GetFutureData_class"
  "instruction_class INSTRUCTION_RELEASE_FUTURE = Some ReleaseFuture_class"
  "instruction_class INSTRUCTION_GET_RESULT_PARTS = Some GetResultParts_class"
  "instruction_class INSTRUCTION_STORE_RESULT = Some StoreResult_class"
  "instruction_class INSTRUCTION_RELEASE_RESULT = Some ReleaseResultPart_class"
  "instruction_class INSTRUCTION_DISTRIBUTE_VECTOR = Some DistributeVector_class"
  "instruction_class INSTRUCTION_PREFETCH = Some Prefetch_class"
  "instruction_class INSTRUCTION_FETCH = Some Fetch_class"
  "instruction_class INSTRUCTION_STORE_RESULT_PART = Some StoreResultPart_class"
  by (simp_all add: instruction_class_def instruction_defs)

section \<open>The classes\<close>

definition create_view :: "actor_message \<Rightarrow> (byte list \<times> c_int list) result" where
  "create_view m = bindE (create_getActorName m) (\<lambda>n. bindE (create_getPids m) (\<lambda>p. Inr (n, p)))"

definition create_ok :: "byte list \<times> c_int list \<Rightarrow> bool" where
  "create_ok = (\<lambda>(name, pids). 0 \<notin> set name \<and> 17 + length name + 4 * length pids < 2 ^ 31)"

lemma create_encode:
  assumes ok: "create_ok (name, pids)"
  shows "\<exists>buf. CreateActorMessage b name pids = Inr (fresh_message b buf) \<and> length buf < 2 ^ 31 \<and>
    get_int buf 0 = Inr INSTRUCTION_CREATE_ACTOR \<and> create_view (fresh_message b buf) = Inr (name, pids)"
proof -
  have name: "0 \<notin> set name" and small: "17 + length name + 4 * length pids < 2 ^ 31"
    using ok by (simp_all add: create_ok_def)
  define nm where "nm = name @ [0 :: byte]"
  define ps where "ps = ints_bytes pids"
  let ?a = "length nm" and ?c = "length ps" and ?n = "length pids"
  have len: "?a = length name + 1" "?c = ?n * 4" by (simp_all add: nm_def ps_def)
  have a: "?a < 2 ^ 31" and c: "?c < 2 ^ 31" and n: "?n < 2 ^ 31" and k: "16 + ?a + ?c < 2 ^ 31"
    using small len by simp_all
  have "(4 + 12 + scast (of_nat ?a :: c_int) + scast (of_nat ?c :: c_int) :: size_t) = of_nat (16 + ?a + ?c)"
    by (simp only: scast_int_size [OF a] scast_int_size [OF c]) simp
  then have sz: "(ucast (4 + 12 + scast (of_nat ?a :: c_int) + scast (of_nat ?c :: c_int) :: size_t) :: c_int)
      = of_nat (16 + ?a + ?c)"
    using k by (simp only:) (rule ucast_size_int, simp)
  let ?ws = "[(0, int_bytes INSTRUCTION_CREATE_ACTOR), (4, int_bytes 0), (8, int_bytes (of_nat ?a)),
      (12, int_bytes (of_nat ?n)), (16, nm), (16 + ?a, ps)]"
  have "layout (16 + ?a + ?c) ?ws" by (simp add: apart_def)
  then obtain buf where f: "fill ?ws (fresh_message b (new_char (bl_mem b) (16 + ?a + ?c))) = Inr (fresh_message b buf)"
    and l: "length buf = 16 + ?a + ?c" and r: "\<forall>w\<in>set ?ws. peek (fst w) (length (snd w)) buf = snd w"
    using fill_fresh [of "16 + ?a + ?c" ?ws "new_char (bl_mem b) (16 + ?a + ?c)" b] by auto
  have fresh: "ActorMessage0\<lparr>am_addr := bl_addr b, am_buf := new_char (bl_mem b) (16 + ?a + ?c),
      am_buf_size := of_nat (16 + ?a + ?c), am_qowned := True\<rparr> = fresh_message b (new_char (bl_mem b) (16 + ?a + ?c))"
    by (simp add: ActorMessage0_def fresh_message_def)
  have mk: "CreateActorMessage b name pids = Inr (fresh_message b buf)"
    unfolding CreateActorMessage_def Let_def len [symmetric] sz nm_def [symmetric] ps_def [symmetric]
    using f by (simp only: sint_of_nat_small [OF k] nat_int fresh unat_scast_of_nat [OF a]
        unat_scast_of_nat [OF c] mem_read_all bindE_Inr envelope_offset_of_nat [OF a]) simp
  show ?thesis
  proof (intro exI conjI)
    show "CreateActorMessage b name pids = Inr (fresh_message b buf)" by (rule mk)
    show "length buf < 2 ^ 31" using l k by simp
    show "get_int buf 0 = Inr INSTRUCTION_CREATE_ACTOR" using r by (auto intro: get_int_field)
    have nme: "create_getActorName (fresh_message b buf) = Inr name"
      using r c_string_field [OF _ nm_def name, of 16 buf]
      by (simp add: create_getActorName_def get_int_field envelope_offset_0)
    have "unat (scast (of_nat ?n :: c_int) * 4 :: size_t) = ?c"
      using n c len by (simp add: unat_word_ariths unat_of_nat)
    moreover have "get_int buf 8 = Inr (of_nat ?a)" and "get_int buf 12 = Inr (of_nat ?n)"
      and "mem_read buf (16 + ?a) ?c = Inr ps"
      using r l by (simp_all add: get_int_field mem_read_field)
    ultimately have "create_getPids (fresh_message b buf) = Inr (bytes_ints ?n ps)"
      by (simp only: create_getPids_def am_buf_fresh bindE_Inr envelope_offset_of_nat [OF a]
          sint_of_nat_small [OF n] nat_int) simp
    then have "create_getPids (fresh_message b buf) = Inr pids" by (simp add: ps_def)
    then show "create_view (fresh_message b buf) = Inr (name, pids)"
      using nme by (simp add: create_view_def)
  qed
qed

lemmas create_view_defs = create_view_def create_getActorName_def create_getPids_def

lemma create_view_stable: "prefix_stable (\<lambda>bs. create_view (at_bytes bs))"
  unfolding create_view_defs am_buf_at_bytes by (intro stable_intros)

lemma create_view_buf: "create_view (at_bytes (am_buf m)) = create_view m"
  by (simp only: create_view_defs am_buf_at_bytes)

interpretation create: wire_codec INSTRUCTION_CREATE_ACTOR CreateActor_class create_ok
  "\<lambda>b (name, pids). CreateActorMessage b name pids" create_view
  by (rule wire_codecI [OF instruction_classes(1) _ create_view_stable create_view_buf])
    (auto intro: create_encode simp only: case_prod_conv)

definition stop_view :: "actor_message \<Rightarrow> bool result" where
  "stop_view m = stop_isAskingAnswer m"

lemmas stop_view_defs = stop_view_def stop_isAskingAnswer_def

lemma stop_encode:
  "\<exists>buf. StopActorMessage b ask = Inr (fresh_message b buf) \<and> length buf < 2 ^ 31 \<and>
    get_int buf 0 = Inr INSTRUCTION_DESTROY_ACTOR \<and> stop_view (fresh_message b buf) = Inr ask"
proof -
  let ?ws = "[(0, int_bytes INSTRUCTION_DESTROY_ACTOR), (4, [if ask then 1 else 0 :: byte])]"
  obtain buf where f: "StopActorMessage b ask = Inr (fresh_message b buf)"
    and l: "length buf = 5" and r: "\<forall>w\<in>set ?ws. peek (fst w) (length (snd w)) buf = snd w"
    using fill_allocated [of 5 ?ws 5 b] by (auto simp: StopActorMessage_def apart_def)
  then show ?thesis
    by (intro exI [of _ buf]) (simp add: stop_view_defs get_int_field get_size_field mem_read_field)
qed

lemma stop_view_stable: "prefix_stable (\<lambda>bs. stop_view (at_bytes bs))"
  unfolding stop_view_defs am_buf_at_bytes by (intro stable_intros)

lemma stop_view_buf: "stop_view (at_bytes (am_buf m)) = stop_view m"
  by (simp only: stop_view_defs am_buf_at_bytes)

interpretation stop: wire_codec INSTRUCTION_DESTROY_ACTOR StopActor_class "\<lambda>v. True"
  "\<lambda>b ask. StopActorMessage b ask" stop_view
  by (rule wire_codecI [OF instruction_classes(3) _ stop_view_stable stop_view_buf])
    (auto intro: stop_encode simp only: case_prod_conv)

definition halt_view :: "actor_message \<Rightarrow> unit result" where
  "halt_view m = Inr ()"

lemmas halt_view_defs = halt_view_def 

lemma halt_encode:
  "\<exists>buf. StopActorProcessMessage b = Inr (fresh_message b buf) \<and> length buf < 2 ^ 31 \<and>
    get_int buf 0 = Inr INSTRUCTION_STOP \<and> halt_view (fresh_message b buf) = Inr u"
proof -
  let ?ws = "[(0, int_bytes INSTRUCTION_STOP)]"
  obtain buf where f: "StopActorProcessMessage b = Inr (fresh_message b buf)"
    and l: "length buf = 4" and r: "\<forall>w\<in>set ?ws. peek (fst w) (length (snd w)) buf = snd w"
    using fill_allocated [of 4 ?ws 4 b] by (auto simp: StopActorProcessMessage_def apart_def)
  then show ?thesis
    by (intro exI [of _ buf]) (simp add: halt_view_defs get_int_field get_size_field mem_read_field)
qed

lemma halt_view_stable: "prefix_stable (\<lambda>bs. halt_view (at_bytes bs))"
  unfolding halt_view_defs am_buf_at_bytes by (intro stable_intros)

lemma halt_view_buf: "halt_view (at_bytes (am_buf m)) = halt_view m"
  by (simp only: halt_view_defs am_buf_at_bytes)

interpretation halt: wire_codec INSTRUCTION_STOP StopActorProcess_class "\<lambda>v. True"
  "\<lambda>b u. StopActorProcessMessage b" halt_view
  by (rule wire_codecI [OF instruction_classes(4) _ halt_view_stable halt_view_buf])
    (auto intro: halt_encode simp only: case_prod_conv)

definition getdata_view :: "actor_message \<Rightarrow> c_int result" where
  "getdata_view m = getdata_getFutureKey m"

lemmas getdata_view_defs = getdata_view_def getdata_getFutureKey_def

lemma getdata_encode:
  "\<exists>buf. GetFutureDataMessage b key = Inr (fresh_message b buf) \<and> length buf < 2 ^ 31 \<and>
    get_int buf 0 = Inr INSTRUCTION_GET_FUTURE_DATA \<and> getdata_view (fresh_message b buf) = Inr key"
proof -
  let ?ws = "[(0, int_bytes INSTRUCTION_GET_FUTURE_DATA), (4, int_bytes key)]"
  obtain buf where f: "GetFutureDataMessage b key = Inr (fresh_message b buf)"
    and l: "length buf = 8" and r: "\<forall>w\<in>set ?ws. peek (fst w) (length (snd w)) buf = snd w"
    using fill_allocated [of 8 ?ws 8 b] by (auto simp: GetFutureDataMessage_def apart_def)
  then show ?thesis
    by (intro exI [of _ buf]) (simp add: getdata_view_defs get_int_field get_size_field mem_read_field)
qed

lemma getdata_view_stable: "prefix_stable (\<lambda>bs. getdata_view (at_bytes bs))"
  unfolding getdata_view_defs am_buf_at_bytes by (intro stable_intros)

lemma getdata_view_buf: "getdata_view (at_bytes (am_buf m)) = getdata_view m"
  by (simp only: getdata_view_defs am_buf_at_bytes)

interpretation getdata: wire_codec INSTRUCTION_GET_FUTURE_DATA GetFutureData_class "\<lambda>v. True"
  "\<lambda>b key. GetFutureDataMessage b key" getdata_view
  by (rule wire_codecI [OF instruction_classes(6) _ getdata_view_stable getdata_view_buf])
    (auto intro: getdata_encode simp only: case_prod_conv)

definition release_view :: "actor_message \<Rightarrow> c_int result" where
  "release_view m = release_getFutureKey m"

lemmas release_view_defs = release_view_def release_getFutureKey_def

lemma release_encode:
  "\<exists>buf. ReleaseFutureMessage b key = Inr (fresh_message b buf) \<and> length buf < 2 ^ 31 \<and>
    get_int buf 0 = Inr INSTRUCTION_RELEASE_FUTURE \<and> release_view (fresh_message b buf) = Inr key"
proof -
  let ?ws = "[(0, int_bytes INSTRUCTION_RELEASE_FUTURE), (4, int_bytes key)]"
  obtain buf where f: "ReleaseFutureMessage b key = Inr (fresh_message b buf)"
    and l: "length buf = 8" and r: "\<forall>w\<in>set ?ws. peek (fst w) (length (snd w)) buf = snd w"
    using fill_allocated [of 8 ?ws 8 b] by (auto simp: ReleaseFutureMessage_def apart_def)
  then show ?thesis
    by (intro exI [of _ buf]) (simp add: release_view_defs get_int_field get_size_field mem_read_field)
qed

lemma release_view_stable: "prefix_stable (\<lambda>bs. release_view (at_bytes bs))"
  unfolding release_view_defs am_buf_at_bytes by (intro stable_intros)

lemma release_view_buf: "release_view (at_bytes (am_buf m)) = release_view m"
  by (simp only: release_view_defs am_buf_at_bytes)

interpretation release: wire_codec INSTRUCTION_RELEASE_FUTURE ReleaseFuture_class "\<lambda>v. True"
  "\<lambda>b key. ReleaseFutureMessage b key" release_view
  by (rule wire_codecI [OF instruction_classes(7) _ release_view_stable release_view_buf])
    (auto intro: release_encode simp only: case_prod_conv)

definition relpart_view :: "actor_message \<Rightarrow> c_int result" where
  "relpart_view m = relpart_getResId m"

lemmas relpart_view_defs = relpart_view_def relpart_getResId_def

lemma relpart_encode:
  "\<exists>buf. ReleaseResultPartMessage b key = Inr (fresh_message b buf) \<and> length buf < 2 ^ 31 \<and>
    get_int buf 0 = Inr INSTRUCTION_RELEASE_RESULT \<and> relpart_view (fresh_message b buf) = Inr key"
proof -
  let ?ws = "[(0, int_bytes INSTRUCTION_RELEASE_RESULT), (4, int_bytes key)]"
  obtain buf where f: "ReleaseResultPartMessage b key = Inr (fresh_message b buf)"
    and l: "length buf = 8" and r: "\<forall>w\<in>set ?ws. peek (fst w) (length (snd w)) buf = snd w"
    using fill_allocated [of 8 ?ws 8 b] by (auto simp: ReleaseResultPartMessage_def apart_def)
  then show ?thesis
    by (intro exI [of _ buf]) (simp add: relpart_view_defs get_int_field get_size_field mem_read_field)
qed

lemma relpart_view_stable: "prefix_stable (\<lambda>bs. relpart_view (at_bytes bs))"
  unfolding relpart_view_defs am_buf_at_bytes by (intro stable_intros)

lemma relpart_view_buf: "relpart_view (at_bytes (am_buf m)) = relpart_view m"
  by (simp only: relpart_view_defs am_buf_at_bytes)

interpretation relpart: wire_codec INSTRUCTION_RELEASE_RESULT ReleaseResultPart_class "\<lambda>v. True"
  "\<lambda>b key. ReleaseResultPartMessage b key" relpart_view
  by (rule wire_codecI [OF instruction_classes(10) _ relpart_view_stable relpart_view_buf])
    (auto intro: relpart_encode simp only: case_prod_conv)

definition distr_view :: "actor_message \<Rightarrow> (c_int \<times> size_t \<times> size_t) result" where
  "distr_view m = bindE (distr_getDistrType m) (\<lambda>t. bindE (distr_getDistrArgs m) (\<lambda>a. Inr (t, a)))"

lemmas distr_view_defs = distr_view_def distr_getDistrType_def distr_getDistrArgs_def

lemma distr_encode:
  "\<exists>buf. DistributeVectorMessage b type n e = Inr (fresh_message b buf) \<and> length buf < 2 ^ 31 \<and>
    get_int buf 0 = Inr INSTRUCTION_DISTRIBUTE_VECTOR \<and> distr_view (fresh_message b buf) = Inr (type, n, e)"
proof -
  let ?ws = "[(0, int_bytes INSTRUCTION_DISTRIBUTE_VECTOR), (4, int_bytes type), (8, size_bytes n), (16, size_bytes e)]"
  obtain buf where f: "DistributeVectorMessage b type n e = Inr (fresh_message b buf)"
    and l: "length buf = 24" and r: "\<forall>w\<in>set ?ws. peek (fst w) (length (snd w)) buf = snd w"
    using fill_allocated [of 24 ?ws 24 b] by (auto simp: DistributeVectorMessage_def apart_def)
  then show ?thesis
    by (intro exI [of _ buf]) (simp add: distr_view_defs get_int_field get_size_field mem_read_field)
qed

lemma distr_view_stable: "prefix_stable (\<lambda>bs. distr_view (at_bytes bs))"
  unfolding distr_view_defs am_buf_at_bytes by (intro stable_intros)

lemma distr_view_buf: "distr_view (at_bytes (am_buf m)) = distr_view m"
  by (simp only: distr_view_defs am_buf_at_bytes)

interpretation distr: wire_codec INSTRUCTION_DISTRIBUTE_VECTOR DistributeVector_class "\<lambda>v. True"
  "\<lambda>b (type, n, e). DistributeVectorMessage b type n e" distr_view
  by (rule wire_codecI [OF instruction_classes(11) _ distr_view_stable distr_view_buf])
    (auto intro: distr_encode simp only: case_prod_conv)

definition prefetch_view :: "actor_message \<Rightarrow> (c_int \<times> c_int \<times> size_t) result" where
  "prefetch_view m = bindE (prefetch_getFuturePid m) (\<lambda>p. bindE (prefetch_getFutureKey m) (\<lambda>k.
     bindE (prefetch_getDvSize m) (\<lambda>n. Inr (p, k, n))))"

lemmas prefetch_view_defs = prefetch_view_def prefetch_getFuturePid_def prefetch_getFutureKey_def prefetch_getDvSize_def

lemma prefetch_encode:
  "\<exists>buf. PrefetchMessage b pid key sz = Inr (fresh_message b buf) \<and> length buf < 2 ^ 31 \<and>
    get_int buf 0 = Inr INSTRUCTION_PREFETCH \<and> prefetch_view (fresh_message b buf) = Inr (pid, key, sz)"
proof -
  let ?ws = "[(0, int_bytes INSTRUCTION_PREFETCH), (4, int_bytes pid), (8, int_bytes key), (12, size_bytes sz)]"
  obtain buf where f: "PrefetchMessage b pid key sz = Inr (fresh_message b buf)"
    and l: "length buf = 20" and r: "\<forall>w\<in>set ?ws. peek (fst w) (length (snd w)) buf = snd w"
    using fill_allocated [of 20 ?ws 20 b] by (auto simp: PrefetchMessage_def apart_def)
  then show ?thesis
    by (intro exI [of _ buf]) (simp add: prefetch_view_defs get_int_field get_size_field mem_read_field)
qed

lemma prefetch_view_stable: "prefix_stable (\<lambda>bs. prefetch_view (at_bytes bs))"
  unfolding prefetch_view_defs am_buf_at_bytes by (intro stable_intros)

lemma prefetch_view_buf: "prefetch_view (at_bytes (am_buf m)) = prefetch_view m"
  by (simp only: prefetch_view_defs am_buf_at_bytes)

interpretation prefetch: wire_codec INSTRUCTION_PREFETCH Prefetch_class "\<lambda>v. True"
  "\<lambda>b (pid, key, sz). PrefetchMessage b pid key sz" prefetch_view
  by (rule wire_codecI [OF instruction_classes(12) _ prefetch_view_stable prefetch_view_buf])
    (auto intro: prefetch_encode simp only: case_prod_conv)

definition call_view :: "actor_message \<Rightarrow> (byte list \<times> byte list \<times> c_int) result" where
  "call_view m = bindE (call_getFunctionName m) (\<lambda>n. bindE (call_getArgs m) (\<lambda>as.
     bindE (call_getFutureKey m) (\<lambda>k. Inr (n, as, k))))"

definition call_ok :: "byte list \<times> byte list \<times> c_int \<Rightarrow> bool" where
  "call_ok = (\<lambda>(name, args, key). 0 \<notin> set name \<and> 21 + length name + length args < 2 ^ 31)"

lemmas call_view_defs = call_view_def call_getFunctionName_def call_getArgs_def call_getArgsSize_def
  call_getFutureKey_def

lemma call_encode:
  assumes ok: "call_ok (name, args, key)"
  shows "\<exists>buf. CallActorMessage b name args key = Inr (fresh_message b buf) \<and> length buf < 2 ^ 31 \<and>
    get_int buf 0 = Inr INSTRUCTION_CALL_ACTOR \<and> call_view (fresh_message b buf) = Inr (name, args, key)"
proof -
  have name: "0 \<notin> set name" and small: "21 + length name + length args < 2 ^ 31"
    using ok by (simp_all add: call_ok_def)
  define nm where "nm = name @ [0 :: byte]"
  let ?a = "length nm" and ?c = "length args" and ?k = "20 + length nm + length args"
  have len: "?a = length name + 1" by (simp add: nm_def)
  have a: "?a < 2 ^ 31" and c: "?c < 2 ^ 31" and k: "?k < 2 ^ 31" using small len by simp_all
  have sz: "(4 + 16 + scast (of_nat ?a :: c_int) + scast (of_nat ?c :: c_int) :: size_t) = of_nat ?k"
    by (simp only: scast_int_size [OF a] scast_int_size [OF c]) simp
  let ?ws = "[(0, int_bytes INSTRUCTION_CALL_ACTOR), (8, int_bytes key), (16, int_bytes (of_nat ?c)),
      (4, int_bytes 0), (12, int_bytes (of_nat ?a)), (20, nm), (20 + ?a, args)]"
  have "layout ?k ?ws" by (simp add: apart_def)
  then obtain buf where f: "fill ?ws (allocateOwnBuffer b (of_nat ?k) ActorMessage0) = Inr (fresh_message b buf)"
    and l: "length buf = ?k" and r: "\<forall>w\<in>set ?ws. peek (fst w) (length (snd w)) buf = snd w"
    using fill_allocated [OF _ k refl, of ?ws b] by auto
  have mk: "CallActorMessage b name args key = Inr (fresh_message b buf)"
    unfolding CallActorMessage_def Let_def len [symmetric] sz nm_def [symmetric]
    using f by (simp only: unat_scast_of_nat [OF a] unat_scast_of_nat [OF c] mem_read_all bindE_Inr
        envelope_offset_of_nat [OF a])
  have "c_string (drop 20 buf) = Inr name"
    using r by (intro c_string_field [OF _ nm_def name]) simp
  moreover have "get_int buf 4 = Inr 0" "get_int buf 8 = Inr key" "get_int buf 12 = Inr (of_nat ?a)"
      "get_int buf 16 = Inr (of_nat ?c)" "mem_read buf (20 + ?a) ?c = Inr args"
    using r l by (simp_all add: get_int_field mem_read_field)
  ultimately have "call_view (fresh_message b buf) = Inr (name, args, key)"
    by (simp only: call_view_defs am_buf_fresh bindE_Inr envelope_offset_of_nat [OF a]
        envelope_offset_0 sint_of_nat_small [OF c] nat_int) simp
  then show ?thesis using mk l k r by (intro exI [of _ buf]) (simp add: get_int_field)
qed

lemma call_view_stable: "prefix_stable (\<lambda>bs. call_view (at_bytes bs))"
  unfolding call_view_defs am_buf_at_bytes by (intro stable_intros)

lemma call_view_buf: "call_view (at_bytes (am_buf m)) = call_view m"
  by (simp only: call_view_defs am_buf_at_bytes)

interpretation call: wire_codec INSTRUCTION_CALL_ACTOR CallActor_class call_ok
  "\<lambda>b (name, args, key). CallActorMessage b name args key" call_view
  by (rule wire_codecI [OF instruction_classes(2) _ call_view_stable call_view_buf])
    (auto intro: call_encode simp only: case_prod_conv)

definition register_view :: "actor_message \<Rightarrow> (c_int \<times> byte list) result" where
  "register_view m = bindE (register_getFutureKey m) (\<lambda>k. bindE (register_getFutureData m) (\<lambda>d. Inr (k, d)))"

definition register_ok :: "c_int \<times> byte list \<Rightarrow> bool" where
  "register_ok = (\<lambda>(key, data). 16 + length data < 2 ^ 31)"

lemmas register_view_defs = register_view_def register_getFutureKey_def register_getFutureData_def

lemma register_encode:
  assumes ok: "register_ok (key, data)"
  shows "\<exists>buf. RegisterFutureMessage b key data = Inr (fresh_message b buf) \<and> length buf < 2 ^ 31 \<and>
    get_int buf 0 = Inr INSTRUCTION_REGISTER_FUTURE_DATA \<and> register_view (fresh_message b buf) = Inr (key, data)"
proof -
  let ?c = "length data" and ?k = "16 + length data"
  have c: "?c < 2 ^ 31" and k: "?k < 2 ^ 31" using ok by (simp_all add: register_ok_def)
  have sz: "(4 + 12 + scast (of_nat ?c :: c_int) :: size_t) = of_nat ?k"
    by (simp only: scast_int_size [OF c]) simp
  let ?ws = "[(0, int_bytes INSTRUCTION_REGISTER_FUTURE_DATA), (4, int_bytes key),
      (12, int_bytes (of_nat ?c)), (8, int_bytes 0), (16, data)]"
  have "layout ?k ?ws" by (simp add: apart_def)
  then obtain buf where f: "fill ?ws (allocateOwnBuffer b (of_nat ?k) ActorMessage0) = Inr (fresh_message b buf)"
    and l: "length buf = ?k" and r: "\<forall>w\<in>set ?ws. peek (fst w) (length (snd w)) buf = snd w"
    using fill_allocated [OF _ k refl, of ?ws b] by auto
  have mk: "RegisterFutureMessage b key data = Inr (fresh_message b buf)"
    unfolding RegisterFutureMessage_def Let_def sz
    using f by (simp only: unat_scast_of_nat [OF c] mem_read_all bindE_Inr)
  have "get_int buf 4 = Inr key" "get_int buf 8 = Inr 0" "get_int buf 12 = Inr (of_nat ?c)"
      "mem_read buf 16 ?c = Inr data"
    using r l by (simp_all add: get_int_field mem_read_field)
  then have "register_view (fresh_message b buf) = Inr (key, data)"
    by (simp only: register_view_defs am_buf_fresh bindE_Inr envelope_offset_0
        sint_of_nat_small [OF c] nat_int) simp
  then show ?thesis using mk l k r by (intro exI [of _ buf]) (simp add: get_int_field)
qed

lemma register_view_stable: "prefix_stable (\<lambda>bs. register_view (at_bytes bs))"
  unfolding register_view_defs am_buf_at_bytes by (intro stable_intros)

lemma register_view_buf: "register_view (at_bytes (am_buf m)) = register_view m"
  by (simp only: register_view_defs am_buf_at_bytes)

interpretation register: wire_codec INSTRUCTION_REGISTER_FUTURE_DATA RegisterFuture_class register_ok
  "\<lambda>b (key, data). RegisterFutureMessage b key data" register_view
  by (rule wire_codecI [OF instruction_classes(5) _ register_view_stable register_view_buf])
    (auto intro: register_encode simp only: case_prod_conv)

text \<open>A result sent by value; \<open>addr\<close> does not matter.\<close>

definition store_view :: "actor_message \<Rightarrow> (c_int \<times> byte list) result" where
  "store_view m = bindE (store_getResId m) (\<lambda>k. bindE (store_getDataSize m) (\<lambda>n.
     bindE (store_isOnlyAddr m) (\<lambda>only_addr.
       if only_addr then Inl Assert_failed
       else bindE (mem_read (store_getData m) 0 (unat n)) (\<lambda>d. Inr (k, d)))))"

definition store_ok :: "c_int \<times> byte list \<Rightarrow> bool" where
  "store_ok = (\<lambda>(resid, data). 28 + length data < 2 ^ 31)"

lemmas store_view_defs = store_view_def store_getResId_def store_getDataSize_def store_isOnlyAddr_def
  store_getData_def

lemma store_viewD: "store_view m = Inr (k, d) \<Longrightarrow> store_getResId m = Inr k"
  by (auto simp: store_view_def result_simps split: if_splits)

lemma store_encode:
  assumes ok: "store_ok (resid, data)"
  shows "\<exists>buf. StoreResultMessage b resid addr data (of_nat (length data)) False = Inr (fresh_message b buf) \<and>
    length buf < 2 ^ 31 \<and> get_int buf 0 = Inr INSTRUCTION_STORE_RESULT \<and>
    store_view (fresh_message b buf) = Inr (resid, data)"
proof -
  let ?c = "length data" and ?k = "28 + length data"
  have c: "?c < 2 ^ 64" and k: "?k < 2 ^ 31" using ok by (simp_all add: store_ok_def)
  have sz: "(4 + 24 + of_nat ?c :: size_t) = of_nat ?k" by simp
  let ?ws = "[(0, int_bytes INSTRUCTION_STORE_RESULT), (4, int_bytes resid), (12, size_bytes (of_nat ?c)),
      (20, [0 :: byte]), (21, data)]"
  have "layout ?k ?ws" by (simp add: apart_def)
  then obtain buf where f: "fill ?ws (allocateOwnBuffer b (of_nat ?k) ActorMessage0) = Inr (fresh_message b buf)"
    and l: "length buf = ?k" and r: "\<forall>w\<in>set ?ws. peek (fst w) (length (snd w)) buf = snd w"
    using fill_allocated [OF _ k refl, of ?ws b] by auto
  have mk: "StoreResultMessage b resid addr data (of_nat ?c) False = Inr (fresh_message b buf)"
    unfolding StoreResultMessage_def store_build_def Let_def if_False sz
    using f by (simp only: unat_size_of_nat [OF c] mem_read_all bindE_Inr)
  have "get_int buf 4 = Inr resid" "get_size buf 12 = Inr (of_nat ?c)" "mem_read buf 20 1 = Inr [0]"
      "mem_read (drop 21 buf) 0 ?c = Inr data"
    using r l by (simp_all add: get_int_field get_size_field mem_read_field peek_drop)
  then have "store_view (fresh_message b buf) = Inr (resid, data)"
    by (simp only: store_view_defs am_buf_fresh bindE_Inr unat_size_of_nat [OF c]) simp
  then show ?thesis using mk l k r by (intro exI [of _ buf]) (simp add: get_int_field)
qed

lemma store_view_stable: "prefix_stable (\<lambda>bs. store_view (at_bytes bs))"
  unfolding store_view_defs am_buf_at_bytes by (intro stable_intros)

lemma store_view_buf: "store_view (at_bytes (am_buf m)) = store_view m"
  by (simp only: store_view_defs am_buf_at_bytes)

interpretation store: wire_codec INSTRUCTION_STORE_RESULT StoreResult_class store_ok
  "\<lambda>b (resid, data). StoreResultMessage b resid 0 data (of_nat (length data)) False" store_view
  by (rule wire_codecI [OF instruction_classes(9) _ store_view_stable store_view_buf])
    (auto intro: store_encode simp only: case_prod_conv)

definition spart_view :: "actor_message \<Rightarrow> (c_int \<times> size_t \<times> byte list) result" where
  "spart_view m = bindE (part_getResId m) (\<lambda>k. bindE (part_getOffset m) (\<lambda>off.
     bindE (part_getDataSize m) (\<lambda>n. bindE (mem_read (part_getData m) 0 (unat n)) (\<lambda>d. Inr (k, off, d)))))"

definition spart_ok :: "c_int \<times> size_t \<times> byte list \<Rightarrow> bool" where
  "spart_ok = (\<lambda>(resid, off, data). 36 + length data < 2 ^ 31)"

lemmas spart_view_defs = spart_view_def part_getResId_def part_getOffset_def part_getDataSize_def
  part_getData_def

lemma spart_encode:
  assumes ok: "spart_ok (resid, off, data)"
  shows "\<exists>buf. StoreResultPartMessage b resid data off (of_nat (length data)) full = Inr (fresh_message b buf) \<and>
    length buf < 2 ^ 31 \<and> get_int buf 0 = Inr INSTRUCTION_STORE_RESULT_PART \<and>
    spart_view (fresh_message b buf) = Inr (resid, off, data)"
proof -
  let ?c = "length data" and ?k = "36 + length data"
  have c: "?c < 2 ^ 64" and k: "?k < 2 ^ 31" using ok by (simp_all add: spart_ok_def)
  have sz: "(4 + 32 + of_nat ?c :: size_t) = of_nat ?k" by simp
  let ?ws = "[(0, int_bytes INSTRUCTION_STORE_RESULT_PART), (4, int_bytes resid), (12, size_bytes (of_nat ?c)),
      (28, size_bytes full), (20, size_bytes off), (36, data)]"
  have "layout ?k ?ws" by (simp add: apart_def)
  then obtain buf where f: "fill ?ws (allocateOwnBuffer b (of_nat ?k) ActorMessage0) = Inr (fresh_message b buf)"
    and l: "length buf = ?k" and r: "\<forall>w\<in>set ?ws. peek (fst w) (length (snd w)) buf = snd w"
    using fill_allocated [OF _ k refl, of ?ws b] by auto
  have mk: "StoreResultPartMessage b resid data off (of_nat ?c) full = Inr (fresh_message b buf)"
    unfolding StoreResultPartMessage_def part_build_def Let_def sz
    using f by (simp only: unat_size_of_nat [OF c] mem_read_all bindE_Inr)
  have "get_int buf 4 = Inr resid" "get_size buf 12 = Inr (of_nat ?c)" "get_size buf 20 = Inr off"
      "mem_read (drop 36 buf) 0 ?c = Inr data"
    using r l by (simp_all add: get_int_field get_size_field mem_read_field peek_drop)
  then have "spart_view (fresh_message b buf) = Inr (resid, off, data)"
    by (simp only: spart_view_defs am_buf_fresh bindE_Inr unat_size_of_nat [OF c])
  then show ?thesis using mk l k r by (intro exI [of _ buf]) (simp add: get_int_field)
qed

lemma spart_view_stable: "prefix_stable (\<lambda>bs. spart_view (at_bytes bs))"
  unfolding spart_view_defs am_buf_at_bytes by (intro stable_intros)

lemma spart_view_buf: "spart_view (at_bytes (am_buf m)) = spart_view m"
  by (simp only: spart_view_defs am_buf_at_bytes)

interpretation spart: wire_codec INSTRUCTION_STORE_RESULT_PART StoreResultPart_class spart_ok
  "\<lambda>b (resid, off, data). StoreResultPartMessage b resid data off (of_nat (length data)) 0" spart_view
  by (rule wire_codecI [OF instruction_classes(14) _ spart_view_stable spart_view_buf])
    (auto intro: spart_encode simp only: case_prod_conv)

lemma length_req_bytes [simp]: "length (req_bytes r) = 32"
  by (simp add: req_bytes_def)

lemma req_decode_bytes [simp]: "req_decode (req_bytes r) = r"
  by (simp add: req_decode_def req_bytes_def peek_def)

definition parts_view :: "actor_message \<Rightarrow> (c_int \<times> result_req_part list) result" where
  "parts_view m = bindE (parts_getNparts m) (\<lambda>n. bindE (parts_getForwardTo m) (\<lambda>f.
     bindE (mapE (\<lambda>i. parts_getPart (of_nat i) m) [0..<nat (sint n)]) (\<lambda>ps. Inr (f, ps))))"

definition parts_ok :: "c_int \<times> result_req_part list \<Rightarrow> bool" where
  "parts_ok = (\<lambda>(f, ps). 12 + 32 * length ps < 2 ^ 31)"

lemmas parts_view_defs = parts_view_def parts_getNparts_def parts_getForwardTo_def parts_getPart_def

lemma length_reqs [simp]: "length (concat (map req_bytes ps)) = 32 * length ps"
  by (rule length_concat_fixed) simp

lemma peek_peek: "off + n \<le> m \<Longrightarrow> peek off n (peek base m buf) = peek (base + off) n buf"
  by (simp add: peek_def drop_take min_def add.commute)

lemma parts_encode:
  assumes ok: "parts_ok (fwd, ps)"
  shows "\<exists>buf. GetResultPartsMessage b fwd ps = Inr (fresh_message b buf) \<and> length buf < 2 ^ 31 \<and>
    get_int buf 0 = Inr INSTRUCTION_GET_RESULT_PARTS \<and> parts_view (fresh_message b buf) = Inr (fwd, ps)"
proof -
  let ?c = "length ps" and ?k = "12 + 32 * length ps" and ?d = "concat (map req_bytes ps)"
  have c: "?c < 2 ^ 31" and k: "?k < 2 ^ 31" using ok by (simp_all add: parts_ok_def)
  have sz: "(4 + 8 + of_nat ?c * 32 :: size_t) = of_nat ?k" by simp
  let ?ws = "[(4, int_bytes (of_nat ?c)), (8, int_bytes fwd), (0, int_bytes INSTRUCTION_GET_RESULT_PARTS), (12, ?d)]"
  have "layout ?k ?ws" by (simp add: apart_def)
  then obtain buf where f: "fill ?ws (allocateOwnBuffer b (of_nat ?k) ActorMessage0) = Inr (fresh_message b buf)"
    and l: "length buf = ?k" and r: "\<forall>w\<in>set ?ws. peek (fst w) (length (snd w)) buf = snd w"
    using fill_allocated [OF _ k refl, of ?ws b] by auto
  have mk: "GetResultPartsMessage b fwd ps = Inr (fresh_message b buf)"
    unfolding GetResultPartsMessage_def sz by (rule f)
  have part: "parts_getPart (of_nat i) (fresh_message b buf) = Inr (ps ! i)" if i: "i < ?c" for i
  proof -
    have "peek (12 + 32 * i) 32 buf = peek (32 * i) 32 (peek 12 (32 * ?c) buf)"
      using i by (intro peek_peek [symmetric]) simp
    also have "\<dots> = req_bytes (ps ! i)"
      using r peek_concat_fixed [where f = req_bytes, OF length_req_bytes i] by simp
    finally have "mem_read buf (12 + 32 * i) 32 = Inr (req_bytes (ps ! i))"
      using i l by (simp add: mem_read_def)
    then show ?thesis
      using i c by (simp add: parts_getPart_def elem_offset_of_nat)
  qed
  have "mapE (\<lambda>i. parts_getPart (of_nat i) (fresh_message b buf)) [0..<?c] = Inr (map ((!) ps) [0..<?c])"
    by (rule mapE_eq_map) (simp add: part)
  then have "parts_view (fresh_message b buf) = Inr (fwd, ps)"
    using r c by (simp add: parts_view_def parts_getNparts_def parts_getForwardTo_def get_int_field map_nth)
  then show ?thesis using mk l k r by (intro exI [of _ buf]) (simp add: get_int_field)
qed

lemma parts_view_stable: "prefix_stable (\<lambda>bs. parts_view (at_bytes bs))"
  unfolding parts_view_defs am_buf_at_bytes by (intro stable_intros)

lemma parts_view_buf: "parts_view (at_bytes (am_buf m)) = parts_view m"
  by (simp only: parts_view_defs am_buf_at_bytes)

interpretation parts: wire_codec INSTRUCTION_GET_RESULT_PARTS GetResultParts_class parts_ok
  "\<lambda>b (fwd, ps). GetResultPartsMessage b fwd ps" parts_view
  by (rule wire_codecI [OF instruction_classes(8) _ parts_view_stable parts_view_buf])
    (auto intro: parts_encode simp only: case_prod_conv)

lemma parts_viewD:
  assumes "parts_view m = Inr (fwd, ps)"
  shows "parts_getForwardTo m = Inr fwd"
    and "\<exists>n. parts_getNparts m = Inr n \<and> nat (sint n) = length ps"
    and "i < length ps \<Longrightarrow> parts_getPart (of_nat i) m = Inr (ps ! i)"
proof -
  obtain n where n: "parts_getNparts m = Inr n" "parts_getForwardTo m = Inr fwd"
    and ps: "mapE (\<lambda>i. parts_getPart (of_nat i) m) [0..<nat (sint n)] = Inr ps"
    using assms by (auto simp: parts_view_def result_simps)
  have len: "length ps = nat (sint n)" using mapE_length [OF ps] by simp
  show "parts_getForwardTo m = Inr fwd" by (rule n)
  show "\<exists>n. parts_getNparts m = Inr n \<and> nat (sint n) = length ps" using n len by auto
  show "parts_getPart (of_nat i) m = Inr (ps ! i)" if "i < length ps"
    using mapE_nth [OF ps, of i] that len by simp
qed

text \<open>
  The head builds a fetch with the pids and then gathers the keys of the processes into it.
\<close>

definition fetch_make ::
  "block \<Rightarrow> c_int list \<Rightarrow> c_int list \<Rightarrow> c_int \<Rightarrow> c_int \<Rightarrow> size_t \<Rightarrow> actor_message result"
where
  "fetch_make b pids keys req res sz =
     bindE (FetchMessage b pids (of_nat (length pids)) req res sz) (fetch_setKeys keys)"

definition fetch_view :: "actor_message \<Rightarrow> (c_int list \<times> c_int list \<times> c_int \<times> c_int \<times> size_t) result" where
  "fetch_view m = bindE (fetch_getNpids m) (\<lambda>n. bindE (fetch_getReqFutureKey m) (\<lambda>req.
     bindE (fetch_getResFutureKey m) (\<lambda>res. bindE (fetch_getDvSize m) (\<lambda>sz.
     bindE (mapE (\<lambda>i. fetch_getPids (of_nat i) m) [0..<nat (sint n)]) (\<lambda>pids.
     bindE (mapE (\<lambda>i. fetch_getKeys (of_nat i) m) [0..<nat (sint n)]) (\<lambda>keys.
       Inr (pids, keys, req, res, sz)))))))"

definition fetch_ok :: "c_int list \<times> c_int list \<times> c_int \<times> c_int \<times> size_t \<Rightarrow> bool" where
  "fetch_ok = (\<lambda>(pids, keys, req, res, sz). length keys = length pids \<and> 28 + 8 * length pids < 2 ^ 31)"

lemmas fetch_view_defs = fetch_view_def fetch_getNpids_def fetch_getReqFutureKey_def
  fetch_getResFutureKey_def fetch_getDvSize_def fetch_getPids_def fetch_getKeys_def

lemma peek_int_array:
  assumes "peek base (4 * length xs) buf = ints_bytes xs" and "i < length xs"
  shows "get_int buf (base + 4 * i) = Inr (xs ! i)"
proof -
  have "peek (base + 4 * i) 4 buf = peek (4 * i) 4 (peek base (4 * length xs) buf)"
    using assms(2) by (intro peek_peek [symmetric]) simp
  also have "\<dots> = int_bytes (xs ! i)"
    using peek_concat_fixed [where f = int_bytes, OF length_int_bytes assms(2)]
    by (simp add: assms(1) ints_bytes_def)
  finally show ?thesis by (rule get_int_field)
qed

lemma mapE_int_array:
  assumes "\<And>i. i < length xs \<Longrightarrow> f i = Inr (xs ! i)"
  shows "mapE f [0..<length xs] = Inr xs"
  using mapE_eq_map [of "[0..<length xs]" f "(!) xs"] assms by (simp add: map_nth)

text \<open>The layout of a fetch once its fields are written.\<close>

lemma fetch_view_layout:
  assumes "get_int buf 20 = Inr (of_nat (length pids))" "get_int buf 12 = Inr req"
    "get_int buf 16 = Inr res" "get_size buf 4 = Inr sz"
    and "peek 24 (4 * length pids) buf = ints_bytes pids"
    and "peek (24 + 4 * length pids) (4 * length keys) buf = ints_bytes keys"
    and "length keys = length pids" and "length pids < 2 ^ 31"
  shows "fetch_view (fresh_message b buf) = Inr (pids, keys, req, res, sz)"
proof -
  have s: "sint (of_nat (length pids) :: c_int) = int (length pids)" using assms(8) by simp
  have p: "fetch_getPids (of_nat i) (fresh_message b buf) = Inr (pids ! i)" if "i < length pids" for i
    using that assms(8) peek_int_array [OF assms(5) that] by (simp add: fetch_getPids_def elem_offset_of_nat)
  have k: "fetch_getKeys (of_nat i) (fresh_message b buf) = Inr (keys ! i)" if "i < length keys" for i
  proof -
    have "sint (of_nat i :: c_int) = int i" using that assms(7,8) by simp
    then have "fetch_getKeys (of_nat i) (fresh_message b buf) = get_int buf (24 + 4 * (length pids + i))"
      using elem_offset_of_nat [of 24 4 "length pids + i"] assms(1) s
      by (simp add: fetch_getKeys_def fetch_getNpids_def)
    also have "24 + 4 * (length pids + i) = 24 + 4 * length pids + 4 * i" by simp
    finally show ?thesis using peek_int_array [OF assms(6) that] by simp
  qed
  have "mapE (\<lambda>i. fetch_getPids (of_nat i) (fresh_message b buf)) [0..<length pids] = Inr pids"
    "mapE (\<lambda>i. fetch_getKeys (of_nat i) (fresh_message b buf)) [0..<length keys] = Inr keys"
    by (intro mapE_int_array; simp add: p k)+
  then show ?thesis
    using assms(1-4,7) s by (simp add: fetch_view_def fetch_getNpids_def fetch_getReqFutureKey_def
        fetch_getResFutureKey_def fetch_getDvSize_def)
qed

lemma fetch_encode:
  assumes ok: "fetch_ok (pids, keys, req, res, sz)"
  shows "\<exists>buf. fetch_make b pids keys req res sz = Inr (fresh_message b buf) \<and> length buf < 2 ^ 31 \<and>
    get_int buf 0 = Inr INSTRUCTION_FETCH \<and> fetch_view (fresh_message b buf) = Inr (pids, keys, req, res, sz)"
proof -
  let ?n = "length pids" and ?k = "28 + 8 * length pids"
  have kl: "length keys = ?n" and k: "?k < 2 ^ 31" and n: "?n < 2 ^ 31"
    using ok by (simp_all add: fetch_ok_def)
  have "mul_int (of_nat ?n) (of_nat 2) = Inr (of_nat (?n * 2))" using k by (intro mul_int_of_nat) simp_all
  then have tw: "mul_int (of_nat ?n) 2 = Inr (of_nat (?n * 2))" by simp
  have n2: "?n * 2 < 2 ^ 31" using k by simp
  have alloc: "(4 + 24 + scast (of_nat (?n * 2) :: c_int) * 4 :: size_t) = of_nat ?k"
    by (simp only: scast_int_size [OF n2]) simp
  have cnt: "unat (scast (of_nat ?n :: c_int) * 4 :: size_t) = length (ints_bytes pids)"
    using n k by (simp add: unat_word_ariths unat_of_nat)
  let ?ws = "[(0, int_bytes INSTRUCTION_FETCH), (20, int_bytes (of_nat ?n)), (12, int_bytes req),
      (16, int_bytes res), (4, size_bytes sz), (24, ints_bytes pids)]"
  have "layout ?k ?ws" by (simp add: apart_def)
  then obtain buf where f: "fill ?ws (allocateOwnBuffer b (of_nat ?k) ActorMessage0) = Inr (fresh_message b buf)"
    and l: "length buf = ?k" and r: "\<forall>w\<in>set ?ws. peek (fst w) (length (snd w)) buf = snd w"
    using fill_allocated [OF _ k refl, of ?ws b] by auto
  define buf' where "buf' = poke (24 + 4 * ?n) (ints_bytes keys) buf"
  have room: "24 + 4 * ?n + length (ints_bytes keys) \<le> length buf" using l kl by simp
  have mk: "FetchMessage b pids (of_nat ?n) req res sz = Inr (fresh_message b buf)"
    unfolding FetchMessage_def using f by (simp only: tw bindE_Inr cnt mem_read_all alloc)
  have "fetch_getNpids (fresh_message b buf) = Inr (of_nat ?n)"
    using r by (simp add: fetch_getNpids_def get_int_field)
  then have set: "fetch_setKeys keys (fresh_message b buf) = Inr (fresh_message b buf')"
    using n room by (simp add: fetch_setKeys_def elem_offset_of_nat fill_def mem_write_Inr
        fresh_message_def buf'_def length_poke)
  have keep: "peek off m buf' = peek off m buf" if "off + m \<le> 24 + 4 * ?n" for off m
    unfolding buf'_def using that room by (rule peek_poke_before)
  have keys: "peek (24 + 4 * ?n) (4 * length keys) buf' = ints_bytes keys"
    unfolding buf'_def using room by (intro peek_poke_same) simp_all
  have "fetch_view (fresh_message b buf') = Inr (pids, keys, req, res, sz)"
    using r keys kl n by (intro fetch_view_layout) (simp_all add: get_int_field get_size_field keep)
  then show ?thesis
    using mk set l k r room
    by (intro exI [of _ buf']) (simp add: fetch_make_def get_int_field keep buf'_def [symmetric], simp add: buf'_def length_poke)
qed

lemma fetch_view_stable: "prefix_stable (\<lambda>bs. fetch_view (at_bytes bs))"
  unfolding fetch_view_defs am_buf_at_bytes by (intro stable_intros)

lemma fetch_view_buf: "fetch_view (at_bytes (am_buf m)) = fetch_view m"
  by (simp only: fetch_view_defs am_buf_at_bytes)

interpretation fetch: wire_codec INSTRUCTION_FETCH Fetch_class fetch_ok
  "\<lambda>b (pids, keys, req, res, sz). fetch_make b pids keys req res sz" fetch_view
  by (rule wire_codecI [OF instruction_classes(13) _ fetch_view_stable fetch_view_buf])
    (auto intro: fetch_encode simp only: case_prod_conv)

section \<open>Properties\<close>

text \<open>
  Property C20: a call built by \<^const>\<open>CallActorMessage\<close>, sent and received into a receive buffer
  (with any stale bytes \<open>junk\<close> behind it) comes out of the factory as a call of the sender, and its
  getters return the function name, the arguments and the future key. The name must not contain
  a zero byte and the message must be smaller than \<open>2 ^ 31\<close> bytes.
\<close>

theorem call_round_trip:
  assumes "0 \<notin> set name" and "21 + length name + length args < 2 ^ 31"
  shows "\<exists>m m'. CallActorMessage b name args key = Inr m \<and>
    createMessage b' src addr (am_buf m @ junk) (am_buf_size m) = Inr (Some (CallActor_class, m')) \<and>
    am_src m' = src \<and> call_getFunctionName m' = Inr name \<and> call_getArgs m' = Inr args \<and>
    call_getFutureKey m' = Inr key"
  using call.delivered [of "(name, args, key)" b b' src addr junk] assms
  by (auto simp: call_ok_def call_view_def result_simps)

theorem call_round_trip_witness:
  "\<exists>m m'. CallActorMessage \<lparr>bl_addr = 1, bl_mem = \<lambda>_. 255\<rparr> [102, 111, 111] [1, 2] 7 = Inr m \<and>
    createMessage \<lparr>bl_addr = 2, bl_mem = \<lambda>_. 0\<rparr> 3 9 (am_buf m @ [42]) (am_buf_size m) = Inr (Some (CallActor_class, m')) \<and>
    call_getFunctionName m' = Inr [102, 111, 111] \<and> call_getArgs m' = Inr [1, 2]"
  using call_round_trip [of "[102, 111, 111]" "[1, 2]" "\<lparr>bl_addr = 1, bl_mem = \<lambda>_. 255\<rparr>" 7
      "\<lparr>bl_addr = 2, bl_mem = \<lambda>_. 0\<rparr>" 3 9 "[42]"]
  by auto

text \<open>
  The request to create an actor arrives with the actor's name and the list of the
  processes it runs on.
\<close>

theorem create_round_trip:
  assumes "0 \<notin> set name" and "17 + length name + 4 * length pids < 2 ^ 31"
  shows "\<exists>m m'. CreateActorMessage b name pids = Inr m \<and>
    createMessage b' src addr (am_buf m @ junk) (am_buf_size m) = Inr (Some (CreateActor_class, m')) \<and>
    am_src m' = src \<and> create_getActorName m' = Inr name \<and> create_getPids m' = Inr pids"
  using create.delivered [of "(name, pids)" b b' src addr junk] assms
  by (auto simp: create_ok_def create_view_def result_simps)

theorem create_round_trip_witness:
  "\<exists>m m'. CreateActorMessage \<lparr>bl_addr = 1, bl_mem = \<lambda>_. 255\<rparr> [65] [4, 2] = Inr m \<and>
    createMessage \<lparr>bl_addr = 2, bl_mem = \<lambda>_. 0\<rparr> 0 9 (am_buf m @ [42]) (am_buf_size m) = Inr (Some (CreateActor_class, m')) \<and>
    create_getPids m' = Inr [4, 2]"
  using create_round_trip [of "[65]" "[4, 2]" "\<lparr>bl_addr = 1, bl_mem = \<lambda>_. 255\<rparr>"
      "\<lparr>bl_addr = 2, bl_mem = \<lambda>_. 0\<rparr>" 0 9 "[42]"]
  by auto

text \<open>
  A fetch whose keys were gathered into it arrives with the pids, the keys, both
  future keys and the size of the vector, although its data area overlaps the padding of the
  envelope struct.
\<close>

theorem fetch_round_trip:
  assumes "length keys = length pids" and "28 + 8 * length pids < 2 ^ 31"
  shows "\<exists>m m'. fetch_make b pids keys req res sz = Inr m \<and>
    createMessage b' src addr (am_buf m @ junk) (am_buf_size m) = Inr (Some (Fetch_class, m')) \<and>
    (\<exists>n. fetch_getNpids m' = Inr n \<and> nat (sint n) = length pids) \<and>
    (\<forall>i<length pids. fetch_getPids (of_nat i) m' = Inr (pids ! i) \<and> fetch_getKeys (of_nat i) m' = Inr (keys ! i)) \<and>
    fetch_getReqFutureKey m' = Inr req \<and> fetch_getResFutureKey m' = Inr res \<and> fetch_getDvSize m' = Inr sz"
proof -
  obtain m m' where mk: "fetch_make b pids keys req res sz = Inr m"
    and c: "createMessage b' src addr (am_buf m @ junk) (am_buf_size m) = Inr (Some (Fetch_class, m'))"
    and v: "fetch_view m' = Inr (pids, keys, req, res, sz)"
    using fetch.delivered [of "(pids, keys, req, res, sz)" b b' src addr junk] assms
    by (auto simp: fetch_ok_def)
  obtain n where n: "fetch_getNpids m' = Inr n"
    and ps: "mapE (\<lambda>i. fetch_getPids (of_nat i) m') [0..<nat (sint n)] = Inr pids"
    and ks: "mapE (\<lambda>i. fetch_getKeys (of_nat i) m') [0..<nat (sint n)] = Inr keys"
    and rest: "fetch_getReqFutureKey m' = Inr req" "fetch_getResFutureKey m' = Inr res" "fetch_getDvSize m' = Inr sz"
    using v by (auto simp: fetch_view_def result_simps)
  have len: "length pids = nat (sint n)" using mapE_length [OF ps] by simp
  have "fetch_getPids (of_nat i) m' = Inr (pids ! i) \<and> fetch_getKeys (of_nat i) m' = Inr (keys ! i)"
    if "i < length pids" for i
    using mapE_nth [OF ps, of i] mapE_nth [OF ks, of i] that len by simp
  then show ?thesis using mk c n rest len by metis
qed

theorem fetch_round_trip_witness:
  "\<exists>m m'. fetch_make \<lparr>bl_addr = 1, bl_mem = \<lambda>_. 255\<rparr> [4, 5] [100, 200] 7 8 64 = Inr m \<and>
    createMessage \<lparr>bl_addr = 2, bl_mem = \<lambda>_. 0\<rparr> 0 9 (am_buf m @ [42]) (am_buf_size m) = Inr (Some (Fetch_class, m')) \<and>
    fetch_getKeys 1 m' = Inr 200"
proof -
  obtain m m' where "fetch_make \<lparr>bl_addr = 1, bl_mem = \<lambda>_. 255\<rparr> [4, 5] [100, 200] 7 8 64 = Inr m"
    and "createMessage \<lparr>bl_addr = 2, bl_mem = \<lambda>_. 0\<rparr> 0 9 (am_buf m @ [42]) (am_buf_size m) = Inr (Some (Fetch_class, m'))"
    and "\<forall>i<length [4, 5 :: c_int]. fetch_getPids (of_nat i) m' = Inr ([4, 5] ! i) \<and> fetch_getKeys (of_nat i) m' = Inr ([100, 200] ! i)"
    using fetch_round_trip [of "[100, 200]" "[4, 5]" "\<lparr>bl_addr = 1, bl_mem = \<lambda>_. 255\<rparr>" 7 8 64
        "\<lparr>bl_addr = 2, bl_mem = \<lambda>_. 0\<rparr>" 0 9 "[42]"] by auto
  then show ?thesis by (metis One_nat_def length_Cons lessI list.size(3) nth_Cons_0 nth_Cons_Suc of_nat_1)
qed

text \<open>
  The factory is total on every received message of at least four bytes whose size
  is not negative: the instruction alone decides, the result is the message of the class the
  instruction table gives, with the sender and size it was received with, and \<^verbatim>\<open>nullptr\<close> exactly for
  an unknown instruction. A call is cut to its own bytes, every other message stays on the
  receive buffer.
\<close>

theorem factory_dispatch:
  assumes "4 \<le> length buf" and "n \<le> length buf" and "n < 2 ^ 31"
  shows "\<exists>ins. get_int buf 0 = Inr ins \<and>
    (case instruction_class ins of
       None \<Rightarrow> createMessage b src addr buf (of_nat n) = Inr None
     | Some c \<Rightarrow> (\<exists>m. createMessage b src addr buf (of_nat n) = Inr (Some (c, m)) \<and> am_src m = src \<and>
         am_buf_size m = of_nat n \<and> am_buf m = (if c = CallActor_class then take n buf else buf)))"
proof -
  have ins: "get_int buf 0 = Inr (bytes_int (peek 0 4 buf))" using assms(1) by (simp add: get_int_Inr)
  show ?thesis
  proof (intro exI conjI)
    show "get_int buf 0 = Inr (bytes_int (peek 0 4 buf))" by (rule ins)
    show "case instruction_class (bytes_int (peek 0 4 buf)) of
        None \<Rightarrow> createMessage b src addr buf (of_nat n) = Inr None
      | Some c \<Rightarrow> (\<exists>m. createMessage b src addr buf (of_nat n) = Inr (Some (c, m)) \<and> am_src m = src \<and>
          am_buf_size m = of_nat n \<and> am_buf m = (if c = CallActor_class then take n buf else buf))"
      using createMessage_class [OF ins _ assms(3,2), of _ b src addr]
        createMessage_unknown [OF ins, of b src addr "of_nat n"]
      by (cases "instruction_class (bytes_int (peek 0 4 buf))") simp_all
  qed
qed

theorem factory_dispatch_witness:
  "createMessage \<lparr>bl_addr = 2, bl_mem = \<lambda>_. 0\<rparr> 3 9 [99, 0, 0, 0, 5] 5 = Inr None"
  using factory_dispatch [of "[99, 0, 0, 0, 5]" 5 "\<lparr>bl_addr = 2, bl_mem = \<lambda>_. 0\<rparr>" 3 9]
  by (simp add: get_int_def mem_read_def peek_def bytes_int_def instruction_class_def instruction_defs)

end
