(* ===== verification/Data_Store.thy ===== *)
theory Data_Store
  imports Message_Codec
begin

text \<open>
  The stores of a process:
  \<^item> \<^verbatim>\<open>DataStore\<close> (src/src/ActiveBSP/src/future/DataStore.cpp, include/future/DataStore.h): the parts
    of distributed vectors, kept either as the message they arrived in or as a byte vector,
    possibly assembled piece by piece;
  \<^item> \<^verbatim>\<open>LazyFutureDataStore\<close> (src/future/LazyFutureDataStore.cpp): the serialised futures;
  \<^item> \<^verbatim>\<open>FutureKeyManager\<close> (src/future/FutureKeyManager.cpp): the counter that names both.

  A \<^verbatim>\<open>std::map\<close> is a map of HOL. A \<^verbatim>\<open>char *\<close> result is the list of the bytes reachable from it,
  \<^const>\<open>None\<close> for \<^verbatim>\<open>NULL\<close> (which is also \<^verbatim>\<open>data()\<close> of an empty vector). The mutex is a flag: locking
  it twice from the thread that holds it is \<^const>\<open>Deadlock\<close>.
\<close>

section \<open>The code of DataStore\<close>

datatype part_location = vector_store | message_store

record dv_part =
  dp_key :: c_int
  dp_size :: size_t
  dp_location :: part_location
  dp_remaining_bytes :: size_t

record data_store =
  ds_result_vector_store :: "c_int \<rightharpoonup> byte list"
  ds_result_msg_store :: "c_int \<rightharpoonup> actor_message"
  ds_lock :: bool
  ds_dv_parts :: "c_int \<rightharpoonup> dv_part"

definition DataStore :: data_store where
  "DataStore = \<lparr>ds_result_vector_store = Map.empty, ds_result_msg_store = Map.empty,
     ds_lock = False, ds_dv_parts = Map.empty\<rparr>"

definition ds_acquire :: "data_store \<Rightarrow> data_store result" where
  "ds_acquire ds = (if ds_lock ds then Inl Deadlock else Inr (ds\<lparr>ds_lock := True\<rparr>))"

definition ds_release :: "data_store \<Rightarrow> data_store" where
  "ds_release ds = ds\<lparr>ds_lock := False\<rparr>"

text \<open>\<^verbatim>\<open>std::map::insert\<close> keeps an entry that is already there.\<close>

definition map_insert :: "'k \<Rightarrow> 'v \<Rightarrow> ('k \<rightharpoonup> 'v) \<Rightarrow> ('k \<rightharpoonup> 'v)" where
  "map_insert k v m = (case m k of None \<Rightarrow> m(k \<mapsto> v) | Some _ \<Rightarrow> m)"

definition storePartMessage :: "c_int \<Rightarrow> actor_message \<Rightarrow> data_store \<Rightarrow> data_store result" where
  "storePartMessage key msg ds0 =
     bindE (ds_acquire ds0) (\<lambda>ds.
     bindE (store_getResId msg) (\<lambda>resid.
     bindE (store_getDataSize msg) (\<lambda>data_size.
       let ds1 = ds\<lparr>ds_result_msg_store := map_insert key msg (ds_result_msg_store ds)\<rparr>;
           part = \<lparr>dp_key = resid, dp_size = data_size, dp_location = message_store, dp_remaining_bytes = 0\<rparr>
       in bindE (assertE (ds_dv_parts ds1 key = None)) (\<lambda>_.
            Inr (ds_release (ds1\<lparr>ds_dv_parts := map_insert key part (ds_dv_parts ds1)\<rparr>))))))"

definition storePartVector :: "c_int \<Rightarrow> byte list \<Rightarrow> data_store \<Rightarrow> data_store result" where
  "storePartVector key v ds0 =
     bindE (ds_acquire ds0) (\<lambda>ds.
     bindE (assertE (ds_result_vector_store ds key = None)) (\<lambda>_.
       let ds1 = ds\<lparr>ds_result_vector_store := map_insert key v (ds_result_vector_store ds)\<rparr>;
           part = \<lparr>dp_key = key, dp_size = of_nat (length v), dp_location = vector_store, dp_remaining_bytes = 0\<rparr>
       in bindE (assertE (ds_dv_parts ds1 key = None)) (\<lambda>_.
            Inr (ds_release (ds1\<lparr>ds_dv_parts := map_insert key part (ds_dv_parts ds1)\<rparr>)))))"

definition preparePartVector :: "c_int \<Rightarrow> size_t \<Rightarrow> data_store \<Rightarrow> data_store result" where
  "preparePartVector key sz ds0 =
     bindE (ds_acquire ds0) (\<lambda>ds.
     bindE (assertE (ds_dv_parts ds key = None)) (\<lambda>_.
     bindE (assertE (ds_result_vector_store ds key = None)) (\<lambda>_.
       let v = replicate (unat sz) 0;
           ds1 = ds\<lparr>ds_result_vector_store := map_insert key v (ds_result_vector_store ds)\<rparr>;
           part = \<lparr>dp_key = key, dp_size = of_nat (length v), dp_location = vector_store, dp_remaining_bytes = sz\<rparr>
       in Inr (ds_release (ds1\<lparr>ds_dv_parts := map_insert key part (ds_dv_parts ds1)\<rparr>)))))"

definition vector_data :: "byte list \<Rightarrow> byte list option" where
  "vector_data v = (if v = [] then None else Some v)"

definition findDataBuf :: "c_int \<Rightarrow> data_store \<Rightarrow> byte list option result" where
  "findDataBuf key ds =
     (case ds_dv_parts ds key of
        None \<Rightarrow> Inl Assert_failed
      | Some part \<Rightarrow>
          (case dp_location part of
             vector_store \<Rightarrow>
               (case ds_result_vector_store ds key of
                  None \<Rightarrow> Inl Assert_failed | Some v \<Rightarrow> Inr (vector_data v))
           | message_store \<Rightarrow>
               (case ds_result_msg_store ds key of
                  None \<Rightarrow> Inl Assert_failed | Some m \<Rightarrow> Inr (Some (store_getData m)))))"

text \<open>\<^verbatim>\<open>memcpy(buf + offset, data, size)\<close> through the pointer \<open>findDataBuf\<close> returned.\<close>

definition write_part :: "c_int \<Rightarrow> dv_part \<Rightarrow> nat \<Rightarrow> byte list \<Rightarrow> data_store \<Rightarrow> data_store result" where
  "write_part key part off bs ds =
     (case dp_location part of
        vector_store \<Rightarrow>
          (case ds_result_vector_store ds key of
             None \<Rightarrow> Inl Null_deref
           | Some v \<Rightarrow> bindE (mem_write off bs v) (\<lambda>v'.
               Inr (ds\<lparr>ds_result_vector_store := (ds_result_vector_store ds)(key \<mapsto> v')\<rparr>)))
      | message_store \<Rightarrow>
          (case ds_result_msg_store ds key of
             None \<Rightarrow> Inl Null_deref
           | Some m \<Rightarrow> bindE (mem_write (21 + off) bs (am_buf m)) (\<lambda>buf.
               Inr (ds\<lparr>ds_result_msg_store := (ds_result_msg_store ds)(key \<mapsto> m\<lparr>am_buf := buf\<rparr>)\<rparr>))))"

definition addData :: "c_int \<Rightarrow> byte list \<Rightarrow> size_t \<Rightarrow> size_t \<Rightarrow> data_store \<Rightarrow> (size_t \<times> data_store) result" where
  "addData key data offset sz ds0 =
     bindE (ds_acquire ds0) (\<lambda>ds.
       case ds_dv_parts ds key of
         None \<Rightarrow> Inl Assert_failed
       | Some part \<Rightarrow>
           bindE (findDataBuf key ds) (\<lambda>buf.
           bindE (assertE (buf \<noteq> None)) (\<lambda>_.
           bindE (assertE (offset + sz \<le> dp_size part)) (\<lambda>_.
           bindE (assertE (sz \<le> dp_remaining_bytes part)) (\<lambda>_.
           bindE (mem_read data 0 (unat sz)) (\<lambda>bs.
           bindE (write_part key part (unat offset) bs ds) (\<lambda>ds1.
             let rest = dp_remaining_bytes part - sz;
                 ds2 = ds1\<lparr>ds_dv_parts := (ds_dv_parts ds1)(key \<mapsto> part\<lparr>dp_remaining_bytes := rest\<rparr>)\<rparr>
             in Inr (rest, ds_release ds2))))))))"

definition removePart :: "c_int \<Rightarrow> data_store \<Rightarrow> data_store result" where
  "removePart key ds0 =
     bindE (ds_acquire ds0) (\<lambda>ds.
       case ds_dv_parts ds key of
         None \<Rightarrow> Inl Assert_failed
       | Some part \<Rightarrow>
           bindE (case dp_location part of
               message_store \<Rightarrow> bindE (assertE (ds_result_msg_store ds key \<noteq> None)) (\<lambda>_.
                 Inr (ds\<lparr>ds_result_msg_store := (ds_result_msg_store ds)(key := None)\<rparr>))
             | vector_store \<Rightarrow> bindE (assertE (ds_result_vector_store ds key \<noteq> None)) (\<lambda>_.
                 Inr (ds\<lparr>ds_result_vector_store := (ds_result_vector_store ds)(key := None)\<rparr>))) (\<lambda>ds1.
             Inr (ds_release (ds1\<lparr>ds_dv_parts := (ds_dv_parts ds1)(key := None)\<rparr>))))"

definition getPartData :: "c_int \<Rightarrow> data_store \<Rightarrow> (byte list option \<times> size_t) result" where
  "getPartData key ds0 =
     bindE (ds_acquire ds0) (\<lambda>ds.
       case ds_dv_parts ds key of
         None \<Rightarrow> Inr (None, 0)
       | Some part \<Rightarrow>
           if dp_remaining_bytes part > 0 then Inr (None, 0)
           else bindE (findDataBuf key ds) (\<lambda>data. Inr (data, dp_size part)))"

section \<open>Futures and keys\<close>

type_synonym future_store = "c_int \<rightharpoonup> byte list"

definition registerFutureData :: "c_int \<Rightarrow> byte list \<Rightarrow> future_store \<Rightarrow> future_store" where
  "registerFutureData key data st = st(key \<mapsto> data)"

definition registerFutureData_move :: "c_int \<Rightarrow> byte list \<Rightarrow> future_store \<Rightarrow> future_store" where
  "registerFutureData_move key data st = map_insert key data st"

definition getFutureData :: "c_int \<Rightarrow> future_store \<Rightarrow> byte list option" where
  "getFutureData key st = st key"

definition removeFutureData :: "c_int \<Rightarrow> future_store \<Rightarrow> future_store" where
  "removeFutureData key st = (case st key of Some _ \<Rightarrow> st(key := None) | None \<Rightarrow> st)"

definition takeKey :: "c_int \<Rightarrow> (c_int \<times> c_int) result" where
  "takeKey next_key = bindE (add_int next_key 1) (\<lambda>n. Inr (next_key, n))"

section \<open>What the store means\<close>

text \<open>
  Abstractly a store maps a key to the bytes of a part, how many of them are still missing and
  whether they sit in a message.
\<close>

record stored_part =
  sp_bytes :: "byte list"
  sp_missing :: nat
  sp_in_message :: bool

definition part_content :: "data_store \<Rightarrow> c_int \<Rightarrow> dv_part \<Rightarrow> byte list" where
  "part_content ds key part =
     (case dp_location part of
        vector_store \<Rightarrow> (case ds_result_vector_store ds key of None \<Rightarrow> [] | Some v \<Rightarrow> v)
      | message_store \<Rightarrow> (case ds_result_msg_store ds key of None \<Rightarrow> []
          | Some m \<Rightarrow> take (unat (dp_size part)) (store_getData m)))"

definition ds_abs :: "data_store \<Rightarrow> c_int \<rightharpoonup> stored_part" where
  "ds_abs ds key = map_option (\<lambda>part. \<lparr>sp_bytes = part_content ds key part,
     sp_missing = unat (dp_remaining_bytes part), sp_in_message = (dp_location part = message_store)\<rparr>)
     (ds_dv_parts ds key)"

text \<open>
  The invariant: the mutex is free, every part has its bytes in exactly the store its location
  names, with the size it claims, and nothing is stored without a part.
\<close>

definition part_ok :: "data_store \<Rightarrow> c_int \<Rightarrow> dv_part \<Rightarrow> bool" where
  "part_ok ds key part =
     (case dp_location part of
        vector_store \<Rightarrow>
          (case ds_result_vector_store ds key of None \<Rightarrow> False
           | Some v \<Rightarrow> unat (dp_size part) = length v \<and> dp_remaining_bytes part \<le> dp_size part)
          \<and> ds_result_msg_store ds key = None
      | message_store \<Rightarrow>
          (case ds_result_msg_store ds key of None \<Rightarrow> False
           | Some m \<Rightarrow> 21 + unat (dp_size part) \<le> length (am_buf m) \<and> dp_remaining_bytes part = 0)
          \<and> ds_result_vector_store ds key = None)"

definition ds_inv :: "data_store \<Rightarrow> bool" where
  "ds_inv ds \<longleftrightarrow> \<not> ds_lock ds \<and>
     (\<forall>key. case ds_dv_parts ds key of
        None \<Rightarrow> ds_result_vector_store ds key = None \<and> ds_result_msg_store ds key = None
      | Some part \<Rightarrow> part_ok ds key part)"

lemma ds_inv_empty [simp]: "ds_inv DataStore"
  by (simp add: ds_inv_def DataStore_def)

lemma ds_abs_empty [simp]: "ds_abs DataStore = Map.empty"
  by (simp add: ds_abs_def DataStore_def fun_eq_iff)

lemma ds_invD:
  assumes "ds_inv ds"
  shows "\<not> ds_lock ds"
    and "ds_dv_parts ds key = None \<Longrightarrow> ds_result_vector_store ds key = None \<and> ds_result_msg_store ds key = None"
    and "ds_dv_parts ds key = Some part \<Longrightarrow> part_ok ds key part"
  using assms by (auto simp: ds_inv_def split: option.splits dest: spec [of _ key])

lemma ds_acquire_inv: "ds_inv ds \<Longrightarrow> ds_acquire ds = Inr (ds\<lparr>ds_lock := True\<rparr>)"
  by (simp add: ds_acquire_def ds_invD)

lemma ds_abs_None: "ds_abs ds key = None \<longleftrightarrow> ds_dv_parts ds key = None"
  by (simp add: ds_abs_def)

lemma ds_abs_SomeE:
  assumes "ds_abs ds key = Some p"
  obtains part where "ds_dv_parts ds key = Some part" and "sp_bytes p = part_content ds key part"
    and "sp_missing p = unat (dp_remaining_bytes part)" and "sp_in_message p = (dp_location part = message_store)"
  using assms by (auto simp: ds_abs_def)

lemma length_part_content:
  "part_ok ds key part \<Longrightarrow> length (part_content ds key part) = unat (dp_size part)"
  by (auto simp: part_ok_def part_content_def store_getData_def split: part_location.splits option.splits)

text \<open>An operation that touches one key only: what has to be shown for the invariant and the abstraction.\<close>

lemma ds_update_one:
  assumes inv: "ds_inv ds" and lock: "\<not> ds_lock ds'"
    and other: "\<And>k. k \<noteq> key \<Longrightarrow> ds_dv_parts ds' k = ds_dv_parts ds k \<and>
      ds_result_vector_store ds' k = ds_result_vector_store ds k \<and>
      ds_result_msg_store ds' k = ds_result_msg_store ds k"
    and part: "case ds_dv_parts ds' key of
        None \<Rightarrow> ds_result_vector_store ds' key = None \<and> ds_result_msg_store ds' key = None
      | Some part \<Rightarrow> part_ok ds' key part"
  shows "ds_inv ds' \<and> ds_abs ds' = (ds_abs ds)(key := ds_abs ds' key)"
proof
  have part_other: "part_ok ds' k p = part_ok ds k p" "part_content ds' k p = part_content ds k p"
    if "k \<noteq> key" for k p
    using other [OF that] by (cases "dp_location p"; simp add: part_ok_def part_content_def)+
  show "ds_inv ds'"
    unfolding ds_inv_def
  proof (intro conjI allI)
    show "\<not> ds_lock ds'" by (rule lock)
    show "case ds_dv_parts ds' k of
        None \<Rightarrow> ds_result_vector_store ds' k = None \<and> ds_result_msg_store ds' k = None
      | Some part \<Rightarrow> part_ok ds' k part" for k
      using part other [of k] part_other [of k] ds_invD(2,3) [OF inv, of k]
      by (cases "k = key") (auto split: option.splits)
  qed
  show "ds_abs ds' = (ds_abs ds)(key := ds_abs ds' key)"
    using other part_other by (auto simp: fun_eq_iff ds_abs_def)
qed

section \<open>The operations refine updates of the abstract map\<close>

lemma storePartVector_fresh:
  assumes "ds_inv ds" and "ds_abs ds key = None" and "length v < 2 ^ 64"
  shows "\<exists>ds'. storePartVector key v ds = Inr ds' \<and> ds_inv ds' \<and>
    ds_abs ds' = (ds_abs ds)(key \<mapsto> \<lparr>sp_bytes = v, sp_missing = 0, sp_in_message = False\<rparr>)"
proof -
  have none: "ds_dv_parts ds key = None" "ds_result_vector_store ds key = None" "ds_result_msg_store ds key = None"
    using assms(1,2) ds_invD(2) [of ds key] by (simp_all add: ds_abs_None)
  define ds' where "ds' = ds\<lparr>ds_lock := False,
    ds_result_vector_store := (ds_result_vector_store ds)(key \<mapsto> v),
    ds_dv_parts := (ds_dv_parts ds)(key \<mapsto> \<lparr>dp_key = key, dp_size = of_nat (length v),
      dp_location = vector_store, dp_remaining_bytes = 0\<rparr>)\<rparr>"
  have "storePartVector key v ds = Inr ds'"
    using none by (simp add: storePartVector_def ds_acquire_inv [OF assms(1)] map_insert_def ds_release_def ds'_def)
  moreover have "ds_inv ds' \<and> ds_abs ds' = (ds_abs ds)(key := ds_abs ds' key)"
    using assms none by (intro ds_update_one) (simp_all add: ds'_def part_ok_def)
  moreover have "ds_abs ds' key = Some \<lparr>sp_bytes = v, sp_missing = 0, sp_in_message = False\<rparr>"
    by (simp add: ds_abs_def ds'_def part_content_def)
  ultimately show ?thesis by simp
qed

lemma storePartMessage_fresh:
  assumes "ds_inv ds" and "ds_abs ds key = None" and "store_view msg = Inr (resid, v)"
  shows "\<exists>ds'. storePartMessage key msg ds = Inr ds' \<and> ds_inv ds' \<and>
    ds_abs ds' = (ds_abs ds)(key \<mapsto> \<lparr>sp_bytes = v, sp_missing = 0, sp_in_message = True\<rparr>)"
proof -
  have none: "ds_dv_parts ds key = None" "ds_result_vector_store ds key = None" "ds_result_msg_store ds key = None"
    using assms(1,2) ds_invD(2) [of ds key] by (simp_all add: ds_abs_None)
  obtain n where msg: "store_getResId msg = Inr resid" "store_getDataSize msg = Inr n"
    "mem_read (store_getData msg) 0 (unat n) = Inr v"
    using assms(3) by (auto simp: store_view_def result_simps split: if_splits)
  have len: "21 + unat n \<le> length (am_buf msg)"
  proof -
    have "21 \<le> length (am_buf msg)"
      using assms(3) by (auto simp: store_view_def store_isOnlyAddr_def mem_read_def result_simps split: if_splits)
    then show ?thesis using msg(3) by (auto simp: mem_read_def store_getData_def split: if_splits)
  qed
  have v: "take (unat n) (store_getData msg) = v"
    using msg(3) by (auto simp: mem_read_def peek_def split: if_splits)
  define ds' where "ds' = ds\<lparr>ds_lock := False,
    ds_result_msg_store := (ds_result_msg_store ds)(key \<mapsto> msg),
    ds_dv_parts := (ds_dv_parts ds)(key \<mapsto> \<lparr>dp_key = resid, dp_size = n,
      dp_location = message_store, dp_remaining_bytes = 0\<rparr>)\<rparr>"
  have "storePartMessage key msg ds = Inr ds'"
    using none by (simp add: storePartMessage_def ds_acquire_inv [OF assms(1)] msg map_insert_def ds_release_def ds'_def)
  moreover have "ds_inv ds' \<and> ds_abs ds' = (ds_abs ds)(key := ds_abs ds' key)"
    using assms(1) none len by (intro ds_update_one) (simp_all add: ds'_def part_ok_def)
  moreover have "ds_abs ds' key = Some \<lparr>sp_bytes = v, sp_missing = 0, sp_in_message = True\<rparr>"
    using v by (simp add: ds_abs_def ds'_def part_content_def)
  ultimately show ?thesis by simp
qed

lemma preparePartVector_fresh:
  assumes "ds_inv ds" and "ds_abs ds key = None"
  shows "\<exists>ds'. preparePartVector key sz ds = Inr ds' \<and> ds_inv ds' \<and>
    ds_abs ds' = (ds_abs ds)(key \<mapsto> \<lparr>sp_bytes = replicate (unat sz) 0, sp_missing = unat sz, sp_in_message = False\<rparr>)"
proof -
  have none: "ds_dv_parts ds key = None" "ds_result_vector_store ds key = None" "ds_result_msg_store ds key = None"
    using assms(1,2) ds_invD(2) [of ds key] by (simp_all add: ds_abs_None)
  define ds' where "ds' = ds\<lparr>ds_lock := False,
    ds_result_vector_store := (ds_result_vector_store ds)(key \<mapsto> replicate (unat sz) 0),
    ds_dv_parts := (ds_dv_parts ds)(key \<mapsto> \<lparr>dp_key = key, dp_size = sz,
      dp_location = vector_store, dp_remaining_bytes = sz\<rparr>)\<rparr>"
  have "preparePartVector key sz ds = Inr ds'"
    using none by (simp add: preparePartVector_def ds_acquire_inv [OF assms(1)] map_insert_def ds_release_def ds'_def)
  moreover have "ds_inv ds' \<and> ds_abs ds' = (ds_abs ds)(key := ds_abs ds' key)"
    using assms none by (intro ds_update_one) (simp_all add: ds'_def part_ok_def)
  moreover have "ds_abs ds' key = Some \<lparr>sp_bytes = replicate (unat sz) 0, sp_missing = unat sz, sp_in_message = False\<rparr>"
    by (simp add: ds_abs_def ds'_def part_content_def)
  ultimately show ?thesis by simp
qed

text \<open>Storing under a key that is taken fails the assertion and nothing else.\<close>

lemma store_taken:
  assumes "ds_inv ds" and "ds_abs ds key \<noteq> None"
  shows "storePartVector key v ds = Inl Assert_failed"
    and "preparePartVector key sz ds = Inl Assert_failed"
    and "store_view msg = Inr rv \<Longrightarrow> storePartMessage key msg ds = Inl Assert_failed"
  using assms
  by (auto simp: storePartVector_def preparePartVector_def storePartMessage_def ds_acquire_inv
      ds_abs_None assertE_def store_view_def result_simps)

lemma removePart_present:
  assumes "ds_inv ds" and "ds_abs ds key \<noteq> None"
  shows "\<exists>ds'. removePart key ds = Inr ds' \<and> ds_inv ds' \<and> ds_abs ds' = (ds_abs ds)(key := None)"
proof -
  obtain part where part: "ds_dv_parts ds key = Some part" using assms(2) by (auto simp: ds_abs_None)
  have ok: "part_ok ds key part" using ds_invD(3) [OF assms(1) part] .
  define ds' where "ds' = ds\<lparr>ds_lock := False,
    ds_result_vector_store := (ds_result_vector_store ds)(key := None),
    ds_result_msg_store := (ds_result_msg_store ds)(key := None),
    ds_dv_parts := (ds_dv_parts ds)(key := None)\<rparr>"
  have "removePart key ds = Inr ds'"
    using ok part by (cases "dp_location part")
      (auto simp: removePart_def ds_acquire_inv [OF assms(1)] part_ok_def ds'_def ds_release_def
        fun_upd_idem split: option.splits)
  moreover have "ds_inv ds' \<and> ds_abs ds' = (ds_abs ds)(key := ds_abs ds' key)"
    using assms by (intro ds_update_one) (simp_all add: ds'_def)
  moreover have "ds_abs ds' key = None" by (simp add: ds_abs_def ds'_def)
  ultimately show ?thesis by simp
qed

lemma take_append_ex: "\<exists>rest. xs = take n xs @ rest"
  by (metis append_take_drop_id)

lemma getPartData_abs:
  assumes "ds_inv ds"
  shows "\<exists>data sz. getPartData key ds = Inr (data, sz) \<and>
    (case ds_abs ds key of
       None \<Rightarrow> data = None \<and> sz = 0
     | Some p \<Rightarrow> if sp_missing p > 0 then data = None \<and> sz = 0
         else unat sz = length (sp_bytes p) \<and>
           (if sp_bytes p = [] \<and> \<not> sp_in_message p then data = None
            else \<exists>rest. data = Some (sp_bytes p @ rest)))"
proof (cases "ds_dv_parts ds key")
  case None
  then show ?thesis by (simp add: getPartData_def ds_acquire_inv [OF assms] ds_abs_def)
next
  case (Some part)
  have ok: "part_ok ds key part" using ds_invD(3) [OF assms Some] .
  have zero: "dp_remaining_bytes part > 0 \<longleftrightarrow> unat (dp_remaining_bytes part) > 0"
    by (simp add: word_less_nat_alt)
  show ?thesis
    using Some ok
    by (cases "dp_location part"; cases "dp_remaining_bytes part > 0")
      (auto simp: getPartData_def ds_acquire_inv [OF assms] ds_abs_def findDataBuf_def part_ok_def zero
        part_content_def vector_data_def store_getData_def take_append_ex split: option.splits)
qed

lemma addData_vector:
  assumes inv: "ds_inv ds" and p: "ds_abs ds key = Some p" and vec: "\<not> sp_in_message p"
    and data: "mem_read data 0 (unat sz) = Inr bs"
    and fits: "unat off + unat sz \<le> length (sp_bytes p)" and ne: "sp_bytes p \<noteq> []"
    and miss: "unat sz \<le> sp_missing p"
  shows "\<exists>ds'. addData key data off sz ds = Inr (of_nat (sp_missing p - unat sz), ds') \<and> ds_inv ds' \<and>
    ds_abs ds' = (ds_abs ds)(key \<mapsto> p\<lparr>sp_bytes := poke (unat off) bs (sp_bytes p),
      sp_missing := sp_missing p - unat sz\<rparr>)"
proof -
  obtain part where part: "ds_dv_parts ds key = Some part" and pb: "sp_bytes p = part_content ds key part"
    and pm: "sp_missing p = unat (dp_remaining_bytes part)" and pl: "sp_in_message p = (dp_location part = message_store)"
    using p by (rule ds_abs_SomeE)
  have loc: "dp_location part = vector_store" using vec pl by (cases "dp_location part") simp_all
  obtain v where v: "ds_result_vector_store ds key = Some v" and len: "unat (dp_size part) = length v"
    and rem: "dp_remaining_bytes part \<le> dp_size part" and nomsg: "ds_result_msg_store ds key = None"
    using ds_invD(3) [OF inv part] loc by (auto simp: part_ok_def split: option.splits)
  have pv: "sp_bytes p = v" using pb loc v by (simp add: part_content_def)
  have lbs: "length bs = unat sz" using data by (auto simp: mem_read_def length_peek split: if_splits)
  have "unat (off + sz) = unat off + unat sz"
    using fits pv len unat_size_less [of "dp_size part"] by (intro unat_size_add) simp
  then have c1: "off + sz \<le> dp_size part" using fits pv len by (simp add: word_le_nat_alt)
  have c2: "sz \<le> dp_remaining_bytes part" using miss pm by (simp add: word_le_nat_alt)
  define rest where "rest = dp_remaining_bytes part - sz"
  have ur: "unat rest = sp_missing p - unat sz" using c2 pm by (simp add: rest_def unat_sub)
  have lenv: "length (poke (unat off) bs v) = length v" using fits pv lbs by (simp add: length_poke)
  define ds' where "ds' = ds\<lparr>ds_lock := False,
    ds_result_vector_store := (ds_result_vector_store ds)(key \<mapsto> poke (unat off) bs v),
    ds_dv_parts := (ds_dv_parts ds)(key \<mapsto> part\<lparr>dp_remaining_bytes := rest\<rparr>)\<rparr>"
  have "addData key data off sz ds = Inr (rest, ds')"
    using part loc v pv ne c1 c2 data fits lbs
    by (simp add: addData_def ds_acquire_inv [OF inv] findDataBuf_def vector_data_def write_part_def
        mem_write_Inr ds_release_def ds'_def rest_def Let_def)
  moreover have "rest = of_nat (sp_missing p - unat sz)" using ur [symmetric] by simp
  moreover have "rest \<le> dp_size part"
    using ur pm rem by (simp add: word_le_nat_alt)
  then have "ds_inv ds' \<and> ds_abs ds' = (ds_abs ds)(key := ds_abs ds' key)"
    using inv loc len lenv nomsg by (intro ds_update_one) (simp_all add: ds'_def part_ok_def)
  moreover have "ds_abs ds' key = Some (p\<lparr>sp_bytes := poke (unat off) bs (sp_bytes p), sp_missing := sp_missing p - unat sz\<rparr>)"
    using pl loc pv ur vec by (cases p) (simp add: ds_abs_def ds'_def part_content_def)
  ultimately show ?thesis by simp
qed

text \<open>The rejected additions: an unknown key, a range outside the part, more bytes than are missing.\<close>

lemma addData_rejected:
  assumes inv: "ds_inv ds"
    and "case ds_abs ds key of None \<Rightarrow> True
      | Some p \<Rightarrow> (sp_bytes p = [] \<and> \<not> sp_in_message p) \<or> length (sp_bytes p) < unat (off + sz) \<or> sp_missing p < unat sz"
  shows "addData key data off sz ds = Inl Assert_failed"
proof (cases "ds_dv_parts ds key")
  case None
  then show ?thesis by (simp add: addData_def ds_acquire_inv [OF inv])
next
  case (Some part)
  have ok: "part_ok ds key part" using ds_invD(3) [OF inv Some] .
  have bad: "(part_content ds key part = [] \<and> dp_location part = vector_store) \<or>
      \<not> off + sz \<le> dp_size part \<or> \<not> sz \<le> dp_remaining_bytes part"
    using assms(2) Some length_part_content [OF ok]
    by (cases "dp_location part") (auto simp: ds_abs_def word_le_nat_alt)
  show ?thesis
    using bad Some ok
    by (cases "dp_location part")
      (auto simp: addData_def ds_acquire_inv [OF inv] findDataBuf_def part_ok_def part_content_def
        vector_data_def assertE_def split: option.splits)
qed

section \<open>Assembling a part from pieces\<close>

text \<open>The additions of the pieces \<open>(offset, length)\<close> of a vector, in the order given.\<close>

definition add_pieces :: "c_int \<Rightarrow> byte list \<Rightarrow> (nat \<times> nat) list \<Rightarrow> data_store \<Rightarrow> data_store result" where
  "add_pieces key v = foldE (\<lambda>(off, n) ds.
     bindE (addData key (peek off n v) (of_nat off) (of_nat n) ds) (\<lambda>(_, ds'). Inr ds'))"

text \<open>Where a piece has been written the assembled bytes agree with the vector.\<close>

definition agrees_on :: "(nat \<times> nat) list \<Rightarrow> byte list \<Rightarrow> byte list \<Rightarrow> bool" where
  "agrees_on cs v w \<longleftrightarrow> length w = length v \<and>
     (\<forall>i<length v. (\<exists>(off, n)\<in>set cs. off \<le> i \<and> i < off + n) \<longrightarrow> w ! i = v ! i)"

lemma agrees_on_poke:
  assumes "agrees_on cs v w" and "off + n \<le> length v"
  shows "agrees_on ((off, n) # cs) v (poke off (peek off n v) w)"
  using assms by (auto simp: agrees_on_def length_poke length_peek nth_poke nth_peek)

lemma agrees_on_all:
  assumes "agrees_on cs v w" and "\<forall>i<length v. \<exists>(off, n)\<in>set cs. off \<le> i \<and> i < off + n"
  shows "w = v"
  using assms by (intro nth_equalityI) (auto simp: agrees_on_def)

lemma add_pieces_abs:
  assumes "ds_inv ds"
    and "ds_abs ds key = Some \<lparr>sp_bytes = w, sp_missing = miss, sp_in_message = False\<rparr>"
    and "agrees_on done v w" and "length v < 2 ^ 64" and "v \<noteq> []"
    and "\<forall>(off, n)\<in>set cs. off + n \<le> length v" and "sum_list (map snd cs) \<le> miss"
  shows "\<exists>ds' w'. add_pieces key v cs ds = Inr ds' \<and> ds_inv ds' \<and> agrees_on (rev cs @ done) v w' \<and>
    ds_abs ds' = (ds_abs ds)(key \<mapsto>
      \<lparr>sp_bytes = w', sp_missing = miss - sum_list (map snd cs), sp_in_message = False\<rparr>)"
  using assms
proof (induction cs arbitrary: ds w miss "done")
  case Nil
  then show ?case
    by (intro exI [of _ ds] exI [of _ w]) (simp add: add_pieces_def fun_upd_idem)
next
  case (Cons c cs)
  obtain off n where c: "c = (off, n)" by (cases c)
  let ?p = "\<lparr>sp_bytes = w, sp_missing = miss, sp_in_message = False\<rparr>"
  have len: "length w = length v" using Cons.prems(3) by (simp add: agrees_on_def)
  then have wne: "w \<noteq> []" using Cons.prems(5) by auto
  have fit: "off + n \<le> length v" using Cons.prems(6) c by simp
  then have u: "unat (of_nat off :: size_t) = off" "unat (of_nat n :: size_t) = n"
    using Cons.prems(4) by simp_all
  have r: "mem_read (peek off n v) 0 n = Inr (peek off n v)"
    using fit mem_read_all [of "peek off n v"] by (simp add: length_peek)
  obtain ds1 where a: "addData key (peek off n v) (of_nat off) (of_nat n) ds = Inr (of_nat (miss - n), ds1)"
    and inv1: "ds_inv ds1" and abs1: "ds_abs ds1 = (ds_abs ds)(key \<mapsto>
      \<lparr>sp_bytes = poke off (peek off n v) w, sp_missing = miss - n, sp_in_message = False\<rparr>)"
    using addData_vector [OF Cons.prems(1,2), of "peek off n v" "of_nat n" "peek off n v" "of_nat off"]
      Cons.prems(7) wne u r fit len c by auto
  have ag: "agrees_on ((off, n) # done) v (poke off (peek off n v) w)"
    using Cons.prems(3) fit by (rule agrees_on_poke)
  have key1: "ds_abs ds1 key = Some \<lparr>sp_bytes = poke off (peek off n v) w, sp_missing = miss - n, sp_in_message = False\<rparr>"
    using abs1 by simp
  have rest_in: "\<forall>(off, n)\<in>set cs. off + n \<le> length v" and rest_sum: "sum_list (map snd cs) \<le> miss - n"
    using Cons.prems(6,7) c by simp_all
  obtain ds' w' where "add_pieces key v cs ds1 = Inr ds'" "ds_inv ds'"
    "agrees_on (rev cs @ (off, n) # done) v w'"
    "ds_abs ds' = (ds_abs ds1)(key \<mapsto>
      \<lparr>sp_bytes = w', sp_missing = miss - n - sum_list (map snd cs), sp_in_message = False\<rparr>)"
    using Cons.IH [OF inv1 key1 ag Cons.prems(4,5) rest_in rest_sum] by blast
  then show ?case
    using a abs1 c by (intro exI [of _ ds'] exI [of _ w']) (simp add: add_pieces_def)
qed

section \<open>The contract of a keyed store\<close>

text \<open>
  What the server relies on in both stores: an entry can be put under a free key and removed
  again, and neither touches another key.
\<close>

locale keyed_store =
  fixes inv :: "'s \<Rightarrow> bool" and contents :: "'s \<Rightarrow> 'k \<rightharpoonup> 'v" and ok :: "'v \<Rightarrow> bool"
    and put :: "'k \<Rightarrow> 'v \<Rightarrow> 's \<Rightarrow> 's result" and del :: "'k \<Rightarrow> 's \<Rightarrow> 's result"
  assumes put_free: "inv s \<Longrightarrow> contents s k = None \<Longrightarrow> ok v \<Longrightarrow>
      \<exists>t. put k v s = Inr t \<and> inv t \<and> contents t = (contents s)(k \<mapsto> v)"
    and del_taken: "inv s \<Longrightarrow> contents s k \<noteq> None \<Longrightarrow>
      \<exists>t. del k s = Inr t \<and> inv t \<and> contents t = (contents s)(k := None)"
begin

lemma put_del:
  assumes "inv s" and "contents s k = None" and "ok v"
  shows "\<exists>t. bindE (put k v s) (del k) = Inr t \<and> inv t \<and> contents t = contents s"
proof -
  obtain u where u: "put k v s = Inr u" "inv u" "contents u = (contents s)(k \<mapsto> v)"
    using put_free [OF assms] by blast
  then obtain t where "del k u = Inr t" "inv t" "contents t = (contents u)(k := None)"
    using del_taken [of u k] by auto
  then show ?thesis using u assms(2) by (simp add: fun_upd_idem)
qed

lemma put_many:
  assumes "inv s" and "distinct (map fst kvs)" and "\<forall>(k, v)\<in>set kvs. contents s k = None \<and> ok v"
  shows "\<exists>t. foldE (\<lambda>(k, v). put k v) kvs s = Inr t \<and> inv t \<and> contents t = contents s ++ map_of kvs"
  using assms
proof (induction kvs arbitrary: s)
  case Nil
  then show ?case by simp
next
  case (Cons kv kvs)
  obtain k v where kv: "kv = (k, v)" by (cases kv)
  obtain u where u: "put k v s = Inr u" "inv u" "contents u = (contents s)(k \<mapsto> v)"
    using put_free [of s k v] Cons.prems kv by auto
  have "\<forall>(k', v')\<in>set kvs. contents u k' = None \<and> ok v'"
    using Cons.prems(2,3) kv u(3) by (fastforce simp: image_iff)
  then obtain t where "foldE (\<lambda>(k, v). put k v) kvs u = Inr t" "inv t" "contents t = contents u ++ map_of kvs"
    using Cons.IH [OF u(2)] Cons.prems(2) by auto
  moreover have "map_of kvs k = None"
    using Cons.prems(2) kv by (simp add: map_of_eq_None_iff)
  ultimately show ?case using u kv by (auto simp: fun_eq_iff map_add_def split: option.splits)
qed

end

interpretation parts_store: keyed_store ds_inv ds_abs
  "\<lambda>p. sp_missing p = 0 \<and> \<not> sp_in_message p \<and> length (sp_bytes p) < 2 ^ 64"
  "\<lambda>k p. storePartVector k (sp_bytes p)" removePart
proof unfold_locales
  fix ds k and p :: stored_part
  assume a: "ds_inv ds" "ds_abs ds k = None"
    and p: "sp_missing p = 0 \<and> \<not> sp_in_message p \<and> length (sp_bytes p) < 2 ^ 64"
  then show "\<exists>ds'. storePartVector k (sp_bytes p) ds = Inr ds' \<and> ds_inv ds' \<and> ds_abs ds' = (ds_abs ds)(k \<mapsto> p)"
    using storePartVector_fresh [OF a, of "sp_bytes p"] by (cases p) simp
qed (rule removePart_present)

interpretation futures: keyed_store "\<lambda>st. True" "\<lambda>st k. getFutureData k st" "\<lambda>v. True"
  "\<lambda>k v st. Inr (registerFutureData k v st)" "\<lambda>k st. Inr (removeFutureData k st)"
  by unfold_locales
    (auto simp: getFutureData_def registerFutureData_def removeFutureData_def)

text \<open>The answers of \<^const>\<open>getPartData\<close> by case.\<close>

lemma getPartData_missing:
  "ds_inv ds \<Longrightarrow> ds_abs ds key = Some p \<Longrightarrow> 0 < sp_missing p \<Longrightarrow> getPartData key ds = Inr (None, 0)"
  using getPartData_abs [of ds key] by auto

lemma getPartData_unknown: "ds_inv ds \<Longrightarrow> ds_abs ds key = None \<Longrightarrow> getPartData key ds = Inr (None, 0)"
  using getPartData_abs [of ds key] by auto

lemma getPartData_ready:
  assumes "ds_inv ds" and "ds_abs ds key = Some p" and "sp_missing p = 0"
    and "sp_bytes p \<noteq> [] \<or> sp_in_message p"
  shows "\<exists>rest. getPartData key ds = Inr (Some (sp_bytes p @ rest), of_nat (length (sp_bytes p)))"
proof -
  obtain data sz where g: "getPartData key ds = Inr (data, sz)" and sz: "unat sz = length (sp_bytes p)"
    and data: "\<exists>rest. data = Some (sp_bytes p @ rest)"
    using getPartData_abs [OF assms(1), of key] assms(2-4) by auto
  have "sz = of_nat (length (sp_bytes p))" by (simp flip: sz)
  then show ?thesis using g data by auto
qed

lemma getPartData_vector:
  assumes "ds_inv ds" and "ds_abs ds key = Some \<lparr>sp_bytes = v, sp_missing = 0, sp_in_message = False\<rparr>"
    and "v \<noteq> []"
  shows "getPartData key ds = Inr (Some v, of_nat (length v))"
proof -
  obtain part where part: "ds_dv_parts ds key = Some part" and "v = part_content ds key part"
    and "dp_location part = vector_store" and "unat (dp_remaining_bytes part) = 0"
    using assms(2) by (auto elim!: ds_abs_SomeE) (metis part_location.exhaust)
  moreover obtain rest where "getPartData key ds = Inr (Some (v @ rest), of_nat (length v))"
    using getPartData_ready [OF assms(1,2)] assms(3) by auto
  ultimately show ?thesis
    using ds_invD(3) [OF assms(1) part]
    by (auto simp: getPartData_def ds_acquire_inv [OF assms(1)] findDataBuf_def part_ok_def part_content_def
        vector_data_def split: option.splits if_splits)
qed

section \<open>Properties\<close>

text \<open>
  Property C18: a part that was prepared with \<^const>\<open>preparePartVector\<close> and then received in pieces, in
  any order and any number of pieces, is available afterwards with exactly the bytes of the
  vector the pieces were cut from, provided the pieces lie inside it, cover it and add up to its
  length. No step fails, and no other part is affected.
\<close>

theorem pieces_assemble:
  assumes "ds_inv ds" and "ds_abs ds key = None" and "v \<noteq> []" and "length v < 2 ^ 64"
    and "\<forall>(off, n)\<in>set cs. off + n \<le> length v" and "sum_list (map snd cs) = length v"
    and "\<forall>i<length v. \<exists>(off, n)\<in>set cs. off \<le> i \<and> i < off + n"
  shows "\<exists>ds1 ds2. preparePartVector key (of_nat (length v)) ds = Inr ds1 \<and>
    add_pieces key v cs ds1 = Inr ds2 \<and> ds_inv ds2 \<and>
    getPartData key ds2 = Inr (Some v, of_nat (length v)) \<and>
    (\<forall>k. k \<noteq> key \<longrightarrow> ds_abs ds2 k = ds_abs ds k)"
proof -
  have u: "unat (of_nat (length v) :: size_t) = length v" using assms(4) by simp
  obtain ds1 where prep: "preparePartVector key (of_nat (length v)) ds = Inr ds1" and inv1: "ds_inv ds1"
    and abs1: "ds_abs ds1 = (ds_abs ds)(key \<mapsto>
      \<lparr>sp_bytes = replicate (length v) 0, sp_missing = length v, sp_in_message = False\<rparr>)"
    using preparePartVector_fresh [OF assms(1,2), of "of_nat (length v)"] u by auto
  have "agrees_on [] v (replicate (length v) 0)" by (simp add: agrees_on_def)
  then obtain ds2 w where add: "add_pieces key v cs ds1 = Inr ds2" and inv2: "ds_inv ds2"
    and w: "agrees_on (rev cs) v w"
    and abs2: "ds_abs ds2 = (ds_abs ds1)(key \<mapsto> \<lparr>sp_bytes = w, sp_missing = 0, sp_in_message = False\<rparr>)"
    using add_pieces_abs [OF inv1, of key _ "length v" "[]" v cs] abs1 assms(3-6) by auto
  have wv: "w = v" using w by (rule agrees_on_all) (use assms(7) in simp)
  have "getPartData key ds2 = Inr (Some v, of_nat (length v))"
    using getPartData_vector [OF inv2, of key] abs2 wv assms(3) by simp
  then show ?thesis using prep add inv2 abs1 abs2 by auto
qed

text \<open>
  As long as bytes are missing the part is not handed out: after any pieces that
  do not add up to the length of the part \<^const>\<open>getPartData\<close> answers \<^verbatim>\<open>NULL\<close>.
\<close>

theorem incomplete_part_hidden:
  assumes "ds_inv ds" and "ds_abs ds key = None" and "v \<noteq> []" and "length v < 2 ^ 64"
    and "\<forall>(off, n)\<in>set cs. off + n \<le> length v" and "sum_list (map snd cs) < length v"
    and "preparePartVector key (of_nat (length v)) ds = Inr ds1" and "add_pieces key v cs ds1 = Inr ds2"
  shows "getPartData key ds2 = Inr (None, 0)"
proof -
  have u: "unat (of_nat (length v) :: size_t) = length v" using assms(4) by simp
  have inv1: "ds_inv ds1" and abs1: "ds_abs ds1 = (ds_abs ds)(key \<mapsto>
      \<lparr>sp_bytes = replicate (length v) 0, sp_missing = length v, sp_in_message = False\<rparr>)"
    using preparePartVector_fresh [OF assms(1,2), of "of_nat (length v)"] u assms(7) by auto
  have "agrees_on [] v (replicate (length v) 0)" by (simp add: agrees_on_def)
  then obtain w where inv2: "ds_inv ds2"
    and "ds_abs ds2 = (ds_abs ds1)(key \<mapsto>
      \<lparr>sp_bytes = w, sp_missing = length v - sum_list (map snd cs), sp_in_message = False\<rparr>)"
    using add_pieces_abs [OF inv1, of key _ "length v" "[]" v cs] abs1 assms(3-6,8) by auto
  then show ?thesis using getPartData_missing [OF inv2, of key] assms(6) by simp
qed

theorem pieces_assemble_witness:
  "\<exists>ds1 ds2. preparePartVector 3 5 DataStore = Inr ds1 \<and>
    add_pieces 3 [10, 20, 30, 40, 50] [(3, 2), (0, 3)] ds1 = Inr ds2 \<and>
    getPartData 3 ds2 = Inr (Some [10, 20, 30, 40, 50], 5)"
proof -
  have "\<forall>i<length [10, 20, 30, 40, 50 :: byte]. \<exists>(off, n)\<in>set [(3, 2), (0, 3)]. off \<le> i \<and> i < off + n"
    by auto
  with pieces_assemble [of DataStore 3 "[10, 20, 30, 40, 50]" "[(3, 2), (0, 3)]"]
  show ?thesis by auto
qed

theorem incomplete_part_hidden_witness:
  "\<exists>ds1 ds2. preparePartVector 3 5 DataStore = Inr ds1 \<and>
    add_pieces 3 [10, 20, 30, 40, 50] [(3, 2)] ds1 = Inr ds2 \<and> getPartData 3 ds2 = Inr (None, 0)"
proof -
  obtain ds1 where p: "preparePartVector 3 5 DataStore = Inr ds1" and i: "ds_inv ds1"
    and a: "ds_abs ds1 = [3 \<mapsto> \<lparr>sp_bytes = replicate 5 0, sp_missing = 5, sp_in_message = False\<rparr>]"
    using preparePartVector_fresh [of DataStore 3 5] by auto
  obtain ds2 where q: "add_pieces 3 [10, 20, 30, 40, 50] [(3, 2)] ds1 = Inr ds2"
    using add_pieces_abs [OF i, of 3 "replicate 5 0" 5 "[]" "[10, 20, 30, 40, 50]" "[(3, 2)]"] a
    by (auto simp: agrees_on_def)
  show ?thesis
    using incomplete_part_hidden [of DataStore 3 "[10, 20, 30, 40, 50]" "[(3, 2)]" ds1 ds2] p q by auto
qed

text \<open>
  \<^const>\<open>addData\<close> rejects, by a failed assertion and never by a write outside the buffer,
  every piece for an unknown part, outside the part or larger than what is still missing; a
  part of size zero that was prepared in the vector store rejects even the empty piece, because
  its buffer is \<^verbatim>\<open>NULL\<close>.
\<close>

theorem addData_guards:
  assumes "ds_inv ds"
    and "case ds_abs ds key of None \<Rightarrow> True
      | Some p \<Rightarrow> (sp_bytes p = [] \<and> \<not> sp_in_message p) \<or> length (sp_bytes p) < unat (off + sz) \<or> sp_missing p < unat sz"
  shows "addData key data off sz ds = Inl Assert_failed"
  using assms by (rule addData_rejected)

theorem addData_guards_witness:
  "addData 3 [1] 0 1 DataStore = Inl Assert_failed"
  using addData_guards [where ds = DataStore and key = 3 and off = 0 and sz = 1 and data = "[1]"] by simp

text \<open>
  Storing a finished part makes it readable, a second store under the same key fails
  the assertion, and removing it gives back the store as it was before, for parts kept as vectors
  and for parts kept in the message they arrived in.
\<close>

theorem store_remove_part:
  assumes "ds_inv ds" and "ds_abs ds key = None" and "v \<noteq> []" and "length v < 2 ^ 64"
    and "store_view msg = Inr (resid, v)"
  shows "(\<exists>t u. storePartVector key v ds = Inr t \<and> getPartData key t = Inr (Some v, of_nat (length v)) \<and>
      storePartVector key v' t = Inl Assert_failed \<and>
      removePart key t = Inr u \<and> ds_inv u \<and> ds_abs u = ds_abs ds) \<and>
    (\<exists>t u rest. storePartMessage key msg ds = Inr t \<and>
      getPartData key t = Inr (Some (v @ rest), of_nat (length v)) \<and>
      storePartVector key v' t = Inl Assert_failed \<and>
      removePart key t = Inr u \<and> ds_inv u \<and> ds_abs u = ds_abs ds)"
proof
  have restored: "\<exists>u. removePart key t = Inr u \<and> ds_inv u \<and> ds_abs u = ds_abs ds"
    if "ds_inv t" "ds_abs t = (ds_abs ds)(key \<mapsto> p)" for t p
    using removePart_present [OF that(1), of key] that(2) assms(2) by (auto simp: fun_upd_idem)
  obtain t where t: "storePartVector key v ds = Inr t" "ds_inv t"
    "ds_abs t = (ds_abs ds)(key \<mapsto> \<lparr>sp_bytes = v, sp_missing = 0, sp_in_message = False\<rparr>)"
    using storePartVector_fresh [OF assms(1,2,4)] by blast
  then show "\<exists>t u. storePartVector key v ds = Inr t \<and> getPartData key t = Inr (Some v, of_nat (length v)) \<and>
      storePartVector key v' t = Inl Assert_failed \<and>
      removePart key t = Inr u \<and> ds_inv u \<and> ds_abs u = ds_abs ds"
    using restored [OF t(2,3)] getPartData_vector [OF t(2), of key v] store_taken(1) [OF t(2), of key v'] assms(3) by auto
  obtain t where t: "storePartMessage key msg ds = Inr t" "ds_inv t"
    "ds_abs t = (ds_abs ds)(key \<mapsto> \<lparr>sp_bytes = v, sp_missing = 0, sp_in_message = True\<rparr>)"
    using storePartMessage_fresh [OF assms(1,2,5)] by blast
  then show "\<exists>t u rest. storePartMessage key msg ds = Inr t \<and>
      getPartData key t = Inr (Some (v @ rest), of_nat (length v)) \<and>
      storePartVector key v' t = Inl Assert_failed \<and>
      removePart key t = Inr u \<and> ds_inv u \<and> ds_abs u = ds_abs ds"
    using restored [OF t(2,3)] getPartData_ready [OF t(2), of key] store_taken(1) [OF t(2), of key v'] by auto
qed

theorem store_remove_part_witness:
  "\<exists>t u. storePartVector 3 [7] DataStore = Inr t \<and> getPartData 3 t = Inr (Some [7], 1) \<and>
      removePart 3 t = Inr u \<and> ds_abs u = Map.empty"
proof -
  obtain buf where "store_view (fresh_message \<lparr>bl_addr = 1, bl_mem = \<lambda>_. 0\<rparr> buf) = Inr (3, [7])"
    using store_encode [of 3 "[7]" "\<lparr>bl_addr = 1, bl_mem = \<lambda>_. 0\<rparr>" 0] by (auto simp: store_ok_def)
  from store_remove_part [OF ds_inv_empty _ _ _ this, of 3 "[8]"] show ?thesis by auto
qed

text \<open>
  The keys of futures and parts taken one after the other are pairwise different until
  the \<^verbatim>\<open>int\<close> counter overflows, which is undefined behaviour: \<open>n\<close> calls from a fresh counter return
  \<open>0 .. n - 1\<close>.
\<close>

theorem takeKey_distinct:
  assumes "n < 2 ^ 31"
  shows "foldE (\<lambda>_ (ks, nxt). bindE (takeKey nxt) (\<lambda>(k, nxt'). Inr (ks @ [k], nxt'))) [0..<n] ([], 0)
      = Inr (map of_nat [0..<n], of_nat n) \<and> distinct (map of_nat [0..<n] :: c_int list)"
proof
  have "k \<le> n \<Longrightarrow> foldE (\<lambda>_ (ks, nxt). bindE (takeKey nxt) (\<lambda>(k, nxt'). Inr (ks @ [k], nxt'))) [0..<k] ([], 0)
      = Inr (map of_nat [0..<k], of_nat k)" for k
  proof (induction k)
    case (Suc k)
    then have "add_int (of_nat k) (of_nat 1) = Inr (of_nat (k + 1))"
      using assms by (intro add_int_of_nat) simp
    with Suc show ?case by (simp add: foldE_append takeKey_def)
  qed simp
  then show "foldE (\<lambda>_ (ks, nxt). bindE (takeKey nxt) (\<lambda>(k, nxt'). Inr (ks @ [k], nxt'))) [0..<n] ([], 0)
      = Inr (map of_nat [0..<n], of_nat n)" by simp
  have "inj_on (of_nat :: nat \<Rightarrow> c_int) {0..<n}"
    by (rule inj_on_inverseI [where g = unat]) (use assms in simp)
  then show "distinct (map of_nat [0..<n] :: c_int list)" by (simp add: distinct_map)
qed

theorem takeKey_distinct_witness:
  "foldE (\<lambda>_ (ks, nxt). bindE (takeKey nxt) (\<lambda>(k, nxt'). Inr (ks @ [k], nxt'))) [0..<3] ([], 0)
      = Inr ([0, 1, 2 :: c_int], 3)"
  using takeKey_distinct [of 3] by (simp add: numeral_3_eq_3)

end
