(* ===== verification/Request_Queue.thy ===== *)
theory Request_Queue
  imports Message_Codec
begin

text \<open>
  The queue between the management thread and the worker thread of a process:
  \<^verbatim>\<open>ActiveObjectRequest\<close> (src/src/ActiveBSP/src/actormsg/ActiveObjectRequest.cpp) and
  \<^verbatim>\<open>SharedMemoryRequestQueue\<close> (src/src/ActiveBSP/src/shmem/SharedMemoryRequestQueue.cpp).

  Every operation runs under the mutex of the queue, so it is one atomic step on the list of
  messages. \<^verbatim>\<open>getNextMessage\<close> waits on the condition variable while the queue is empty: the step
  has no successor there (\<^const>\<open>None\<close>).
\<close>

section \<open>The code\<close>

record active_object_request =
  ar_sender :: c_int
  ar_localkey :: c_int
  ar_callActorMessage :: actor_message

definition ActiveObjectRequest :: "actor_message \<Rightarrow> c_int \<Rightarrow> c_int \<Rightarrow> active_object_request" where
  "ActiveObjectRequest callActorMessage sender localkey =
     \<lparr>ar_sender = sender, ar_localkey = localkey, ar_callActorMessage = callActorMessage\<rparr>"

type_synonym request_queue = "active_object_request list"

definition postMessage :: "active_object_request \<Rightarrow> request_queue \<Rightarrow> request_queue" where
  "postMessage request messages = messages @ [request]"

definition getNextMessage :: "request_queue \<Rightarrow> (active_object_request \<times> request_queue) option" where
  "getNextMessage messages = (case messages of [] \<Rightarrow> None | req # rest \<Rightarrow> Some (req, rest))"

definition queue_isEmpty :: "request_queue \<Rightarrow> bool" where
  "queue_isEmpty messages = (messages = [])"

definition queue_getNPendingRequests :: "request_queue \<Rightarrow> c_int" where
  "queue_getNPendingRequests messages = of_nat (length messages)"

section \<open>Producer and consumer\<close>

text \<open>
  The management thread posts, the worker thread takes, in any interleaving. A state carries the
  queue and the history of both threads.
\<close>

record queue_state =
  qs_queue :: request_queue
  qs_posted :: "active_object_request list"
  qs_taken :: "active_object_request list"

inductive queue_step :: "queue_state \<Rightarrow> queue_state \<Rightarrow> bool" where
  post: "queue_step s (s\<lparr>qs_queue := postMessage r (qs_queue s), qs_posted := qs_posted s @ [r]\<rparr>)"
| take: "getNextMessage (qs_queue s) = Some (r, q) \<Longrightarrow>
    queue_step s (s\<lparr>qs_queue := q, qs_taken := qs_taken s @ [r]\<rparr>)"

inductive_cases queue_stepE: "queue_step s t"

definition queue_init :: queue_state where
  "queue_init = \<lparr>qs_queue = [], qs_posted = [], qs_taken = []\<rparr>"

text \<open>The contract of a FIFO queue, and what follows for any interleaving of its two users.\<close>

locale fifo_queue =
  fixes empty :: 'q and post :: "'a \<Rightarrow> 'q \<Rightarrow> 'q" and take :: "'q \<Rightarrow> ('a \<times> 'q) option"
    and contents :: "'q \<Rightarrow> 'a list"
  assumes contents_empty: "contents empty = []"
    and contents_post: "contents (post x q) = contents q @ [x]"
    and take_iff: "take q = Some (x, q') \<Longrightarrow> contents q = x # contents q'"
    and take_blocks: "take q = None \<longleftrightarrow> contents q = []"
begin

fun run :: "'a option list \<Rightarrow> 'q \<Rightarrow> 'a list \<Rightarrow> ('q \<times> 'a list) option" where
  "run [] q taken = Some (q, taken)"
| "run (Some x # ops) q taken = run ops (post x q) taken"
| "run (None # ops) q taken = (case take q of None \<Rightarrow> None | Some (x, q') \<Rightarrow> run ops q' (taken @ [x]))"

lemma run_fifo:
  "run ops q taken = Some (q', taken') \<Longrightarrow>
    taken @ contents q @ map the (filter (\<lambda>op. op \<noteq> None) ops) = taken' @ contents q'"
proof (induction ops arbitrary: q taken)
  case Nil
  then show ?case by simp
next
  case (Cons op ops)
  show ?case
  proof (cases op)
    case (Some x)
    then show ?thesis using Cons.IH [of "post x q" taken] Cons.prems by (simp add: contents_post)
  next
    case None
    then obtain x q1 where t: "take q = Some (x, q1)" and r: "run ops q1 (taken @ [x]) = Some (q', taken')"
      using Cons.prems by (auto split: option.splits)
    then show ?thesis using Cons.IH [OF r] take_iff [OF t] None by simp
  qed
qed

end

interpretation shm_queue: fifo_queue "[]" postMessage getNextMessage "\<lambda>q. q"
  by unfold_locales (auto simp: postMessage_def getNextMessage_def split: list.splits)

lemma queue_step_inv:
  assumes "queue_step s t" and "qs_posted s = qs_taken s @ qs_queue s"
  shows "qs_posted t = qs_taken t @ qs_queue t"
  using assms by (elim queue_stepE) (auto simp: postMessage_def getNextMessage_def split: list.splits)

lemma queue_reach_inv:
  assumes "queue_step\<^sup>*\<^sup>* queue_init s"
  shows "qs_posted s = qs_taken s @ qs_queue s"
  using assms by induction (simp add: queue_init_def, rule queue_step_inv)

section \<open>Properties\<close>

text \<open>
  In every interleaving of the management thread and the worker thread, the worker has
  taken a prefix of what was posted, in the order it was posted, and what is left is exactly
  the queue: no request is lost, duplicated or reordered.
\<close>

theorem requests_fifo:
  assumes "queue_step\<^sup>*\<^sup>* queue_init s"
  shows "qs_posted s = qs_taken s @ qs_queue s \<and>
    (queue_isEmpty (qs_queue s) \<longleftrightarrow> length (qs_taken s) = length (qs_posted s))"
  using queue_reach_inv [OF assms] by (simp add: queue_isEmpty_def)

theorem requests_fifo_witness:
  "let r = ActiveObjectRequest ActorMessage0 3 7;
       s = queue_init\<lparr>qs_posted := [r], qs_taken := [r]\<rparr>
   in qs_posted s = qs_taken s @ qs_queue s"
proof -
  let ?r = "ActiveObjectRequest ActorMessage0 3 7"
  have "queue_step queue_init (queue_init\<lparr>qs_queue := [?r], qs_posted := [?r]\<rparr>)"
    using queue_step.post [of queue_init ?r] by (simp add: queue_init_def postMessage_def)
  moreover have "queue_step (queue_init\<lparr>qs_queue := [?r], qs_posted := [?r]\<rparr>)
      (queue_init\<lparr>qs_posted := [?r], qs_taken := [?r]\<rparr>)"
    using queue_step.take [of "queue_init\<lparr>qs_queue := [?r], qs_posted := [?r]\<rparr>" ?r "[]"]
    by (simp add: queue_init_def getNextMessage_def)
  ultimately have "queue_step\<^sup>*\<^sup>* queue_init (queue_init\<lparr>qs_posted := [?r], qs_taken := [?r]\<rparr>)"
    by (meson converse_rtranclp_into_rtranclp rtranclp.rtrancl_refl)
  from requests_fifo [OF this] show ?thesis by (simp add: Let_def)
qed

end
