(* ===== verification/Communicator.thy ===== *)
theory Communicator
  imports Data_Store Request_Queue
begin

text \<open>
  The transport half of \<^verbatim>\<open>MPIActorCommunicator\<close> (src/src/ActiveBSP/src/mpi/MPIActorCommunicator.cpp):
  what each send puts on the wire, and the receive buffer with its reuse and hand-over.

  MPI itself is outside the program: a send yields the message \<open>(destination, tag, bytes)\<close> it hands
  to MPI, a receive takes the bytes MPI delivers as an argument. A count is an \<^verbatim>\<open>int\<close>; a negative
  one is an error of MPI. Tag 0 is read by the management threads, tag 1 by the worker threads.
\<close>

section \<open>Sending\<close>

definition ABSP_MPI_MANAGEMENT_THREAD_TAG :: c_int where "ABSP_MPI_MANAGEMENT_THREAD_TAG = 0"
definition ABSP_MPI_WORKER_THREAD_TAG :: c_int where "ABSP_MPI_WORKER_THREAD_TAG = 1"

record mpi_message =
  mm_dst :: c_int
  mm_tag :: c_int
  mm_bytes :: "byte list"

definition mpi_send :: "byte list \<Rightarrow> c_int \<Rightarrow> c_int \<Rightarrow> c_int \<Rightarrow> mpi_message result" where
  "mpi_send buf count dst tag =
     (if sint count < 0 then Inl Mpi_error
      else bindE (mem_read buf 0 (nat (sint count))) (\<lambda>bs.
        Inr \<lparr>mm_dst = dst, mm_tag = tag, mm_bytes = bs\<rparr>))"

definition sendActorMessage :: "c_int \<Rightarrow> actor_message \<Rightarrow> mpi_message result" where
  "sendActorMessage dst msg = mpi_send (am_buf msg) (am_buf_size msg) dst ABSP_MPI_MANAGEMENT_THREAD_TAG"

definition sendAsyncActorMessage :: "c_int \<Rightarrow> actor_message \<Rightarrow> mpi_message result" where
  "sendAsyncActorMessage dst msg = mpi_send (am_buf msg) (am_buf_size msg) dst ABSP_MPI_MANAGEMENT_THREAD_TAG"

definition broadcastActorMessage :: "c_int \<Rightarrow> actor_message \<Rightarrow> mpi_message list result" where
  "broadcastActorMessage nprocs msg = mapE (\<lambda>i. sendActorMessage (of_nat i) msg) [1..<nat (sint nprocs)]"

definition sendResponseCode :: "c_int \<Rightarrow> c_int \<Rightarrow> mpi_message result" where
  "sendResponseCode dst responseCode =
     Inr \<lparr>mm_dst = dst, mm_tag = ABSP_MPI_WORKER_THREAD_TAG, mm_bytes = int_bytes responseCode\<rparr>"

definition receiveResponseCode :: "byte list \<Rightarrow> c_int result" where
  "receiveResponseCode bs = get_int bs 0"

definition sendKeyedFutureValue :: "c_int \<Rightarrow> byte list \<Rightarrow> c_int \<Rightarrow> mpi_message result" where
  "sendKeyedFutureValue dst serial key = mpi_send serial (ucast (of_nat (length serial) + 1 :: size_t)) dst key"

definition sendFutureData :: "c_int \<Rightarrow> byte list \<Rightarrow> mpi_message result" where
  "sendFutureData pid data =
     mpi_send data (ucast (of_nat (length data) :: size_t)) pid ABSP_MPI_WORKER_THREAD_TAG"

definition sendResultPart :: "c_int \<Rightarrow> byte list \<Rightarrow> c_int \<Rightarrow> mpi_message result" where
  "sendResultPart pid src sz = mpi_send src sz pid ABSP_MPI_WORKER_THREAD_TAG"

definition sendDistrVector :: "c_int \<Rightarrow> vector_distribution \<Rightarrow> mpi_message result" where
  "sendDistrVector pid dv = mpi_send dv (ucast (getBufSize dv)) pid ABSP_MPI_MANAGEMENT_THREAD_TAG"

text \<open>\<open>network\<close> gives what arrives from a process after the messages were sent.\<close>

definition askCreateActor ::
  "block \<Rightarrow> c_int list \<Rightarrow> byte list \<Rightarrow> (mpi_message list \<Rightarrow> c_int \<Rightarrow> byte list list) \<Rightarrow> (mpi_message list \<times> c_int) result"
where
  "askCreateActor b pids name network =
     (case pids of [] \<Rightarrow> Inl Out_of_bounds
      | head # _ \<Rightarrow>
          bindE (CreateActorMessage b name pids) (\<lambda>m.
          bindE (mapE (\<lambda>pid. sendActorMessage pid m) pids) (\<lambda>sent.
            case network sent head of
              [] \<Rightarrow> Inl Deadlock
            | code # _ \<Rightarrow> bindE (receiveResponseCode code) (\<lambda>res. Inr (sent, res)))))"

section \<open>The receive buffer\<close>

record communicator =
  cm_recv_addr :: nat
  cm_recv_buf :: "byte list"
  cm_recv_buf_size :: size_t

definition MPIActorCommunicator :: communicator where
  "MPIActorCommunicator = \<lparr>cm_recv_addr = 0, cm_recv_buf = [], cm_recv_buf_size = 0\<rparr>"

text \<open>
  \<open>source\<close> and \<open>bs\<close> are the probed message; \<open>nb\<close> is the block of a reallocation of the receive
  buffer and \<open>cb\<close> the block of the copy the factory makes of a call.
\<close>

definition receiveActorMessage ::
  "block \<Rightarrow> block \<Rightarrow> c_int \<Rightarrow> byte list \<Rightarrow> communicator \<Rightarrow>
    ((message_class \<times> actor_message) option \<times> communicator) result"
where
  "receiveActorMessage nb cb source bs cm =
     (let buf_size = of_nat (length bs) :: c_int;
          cm1 = (if cm_recv_buf_size cm < scast buf_size
                 then \<lparr>cm_recv_addr = bl_addr nb,
                       cm_recv_buf = new_char (bl_mem nb) (unat (scast buf_size :: size_t)),
                       cm_recv_buf_size = scast buf_size\<rparr>
                 else cm)
      in bindE (mem_write 0 bs (cm_recv_buf cm1)) (\<lambda>buf.
           let cm2 = cm1\<lparr>cm_recv_buf := buf\<rparr>
           in bindE (createMessage cb source (cm_recv_addr cm2) buf buf_size) (\<lambda>m. Inr (m, cm2))))"

definition giveBufferOwnershipTo ::
  "block \<Rightarrow> actor_message \<Rightarrow> communicator \<Rightarrow> (actor_message \<times> communicator) result"
where
  "giveBufferOwnershipTo nb msg cm =
     bindE (giveBufferOwnership (cm_recv_addr cm) msg) (\<lambda>m.
       Inr (m, cm\<lparr>cm_recv_addr := bl_addr nb, cm_recv_buf := replicate (unat (cm_recv_buf_size cm)) 0\<rparr>))"

definition cm_inv :: "communicator \<Rightarrow> bool" where
  "cm_inv cm \<longleftrightarrow> unat (cm_recv_buf_size cm) = length (cm_recv_buf cm)"

section \<open>What is sent\<close>

lemma mpi_send_all:
  "length bs < 2 ^ 31 \<Longrightarrow> mpi_send bs (of_nat (length bs)) dst tag = Inr \<lparr>mm_dst = dst, mm_tag = tag, mm_bytes = bs\<rparr>"
  by (simp add: mpi_send_def)

lemma sendActorMessage_fresh:
  "length buf < 2 ^ 31 \<Longrightarrow> sendActorMessage dst (fresh_message b buf) =
    Inr \<lparr>mm_dst = dst, mm_tag = ABSP_MPI_MANAGEMENT_THREAD_TAG, mm_bytes = buf\<rparr>"
  by (simp add: sendActorMessage_def mpi_send_all)

lemma sendFutureData_eq:
  "length data < 2 ^ 31 \<Longrightarrow> sendFutureData pid data =
    Inr \<lparr>mm_dst = pid, mm_tag = ABSP_MPI_WORKER_THREAD_TAG, mm_bytes = data\<rparr>"
  by (simp add: sendFutureData_def mpi_send_all)

lemma sendResultPart_eq:
  "n \<le> length src \<Longrightarrow> n < 2 ^ 31 \<Longrightarrow> sendResultPart pid src (of_nat n) =
    Inr \<lparr>mm_dst = pid, mm_tag = ABSP_MPI_WORKER_THREAD_TAG, mm_bytes = take n src\<rparr>"
  by (simp add: sendResultPart_def mpi_send_def mem_read_def peek_def)

lemma sendDistrVector_eq:
  "length dv < 2 ^ 31 \<Longrightarrow> sendDistrVector pid dv =
    Inr \<lparr>mm_dst = pid, mm_tag = ABSP_MPI_MANAGEMENT_THREAD_TAG, mm_bytes = dv\<rparr>"
  by (simp add: sendDistrVector_def getBufSize_def mpi_send_all)

section \<open>What is received\<close>

lemma receive_prefix:
  assumes "cm_inv cm" and "length bs < 2 ^ 31"
  shows "\<exists>cm' junk. cm_inv cm' \<and> cm_recv_buf cm' = bs @ junk \<and>
    receiveActorMessage nb cb source bs cm =
      bindE (createMessage cb source (cm_recv_addr cm') (bs @ junk) (of_nat (length bs))) (\<lambda>m. Inr (m, cm'))"
proof -
  let ?n = "length bs"
  have u: "unat (scast (of_nat ?n :: c_int) :: size_t) = ?n" using assms(2) by (rule unat_scast_of_nat)
  define cm1 where "cm1 = (if cm_recv_buf_size cm < scast (of_nat ?n :: c_int)
    then \<lparr>cm_recv_addr = bl_addr nb, cm_recv_buf = new_char (bl_mem nb) ?n, cm_recv_buf_size = scast (of_nat ?n :: c_int)\<rparr>
    else cm)"
  have inv1: "cm_inv cm1" and room: "?n \<le> length (cm_recv_buf cm1)"
    using assms(1) u by (auto simp: cm1_def cm_inv_def word_less_nat_alt)
  define junk where "junk = drop ?n (cm_recv_buf cm1)"
  define cm2 where "cm2 = cm1\<lparr>cm_recv_buf := bs @ junk\<rparr>"
  have "mem_write 0 bs (cm_recv_buf cm1) = Inr (bs @ junk)"
    using room by (simp add: mem_write_def poke_def junk_def)
  then have "receiveActorMessage nb cb source bs cm =
      bindE (createMessage cb source (cm_recv_addr cm2) (bs @ junk) (of_nat ?n)) (\<lambda>m. Inr (m, cm2))"
    unfolding receiveActorMessage_def Let_def u cm1_def [symmetric] by (simp add: cm2_def)
  moreover have "cm_inv cm2" using inv1 room by (simp add: cm2_def cm_inv_def junk_def)
  ultimately show ?thesis by (intro exI [of _ cm2] exI [of _ junk]) (simp add: cm2_def)
qed

text \<open>Any message class, from its constructor through MPI to its getters.\<close>

context wire_codec
begin

lemma sent_received:
  assumes "ok v" and "cm_inv cm"
  shows "\<exists>m mm m' cm'. mk b v = Inr m \<and> sendActorMessage dst m = Inr mm \<and>
    mm_dst mm = dst \<and> mm_tag mm = ABSP_MPI_MANAGEMENT_THREAD_TAG \<and>
    receiveActorMessage nb cb src (mm_bytes mm) cm = Inr (Some (cls, m'), cm') \<and> cm_inv cm' \<and>
    am_src m' = src \<and> view m' = Inr v"
proof -
  obtain buf where mk: "mk b v = Inr (fresh_message b buf)" and len: "length buf < 2 ^ 31"
    using encode [OF assms(1)] by blast
  obtain cm' junk where cm': "cm_inv cm'"
    and r: "receiveActorMessage nb cb src buf cm =
      bindE (createMessage cb src (cm_recv_addr cm') (buf @ junk) (of_nat (length buf))) (\<lambda>m. Inr (m, cm'))"
    using receive_prefix [OF assms(2) len] by blast
  obtain m' where "createMessage cb src (cm_recv_addr cm') (buf @ junk) (of_nat (length buf)) = Inr (Some (cls, m'))"
    "am_src m' = src" "view m' = Inr v"
    using delivered [OF assms(1), of b cb src "cm_recv_addr cm'" junk] mk by auto
  then show ?thesis using mk r cm' sendActorMessage_fresh [OF len, of dst b] by auto
qed

end

section \<open>Properties\<close>

text \<open>
  A request for parts of results, from its constructor, through the send and the
  receive into a reused receive buffer of any earlier contents and size, to the getters: the
  receiver sees the requester, where to forward the parts to and the list of requested parts, in
  order.
\<close>

theorem get_parts_sent_received:
  assumes "cm_inv cm" and "12 + 32 * length ps < 2 ^ 31"
  shows "\<exists>m mm m' cm'. GetResultPartsMessage b fwd ps = Inr m \<and> sendActorMessage dst m = Inr mm \<and>
    mm_dst mm = dst \<and> mm_tag mm = ABSP_MPI_MANAGEMENT_THREAD_TAG \<and>
    receiveActorMessage nb cb src (mm_bytes mm) cm = Inr (Some (GetResultParts_class, m'), cm') \<and> cm_inv cm' \<and>
    am_src m' = src \<and> parts_getForwardTo m' = Inr fwd \<and>
    (\<forall>i<length ps. parts_getPart (of_nat i) m' = Inr (ps ! i)) \<and>
    (\<exists>n. parts_getNparts m' = Inr n \<and> nat (sint n) = length ps)"
proof -
  obtain m mm m' cm' where s: "GetResultPartsMessage b fwd ps = Inr m" "sendActorMessage dst m = Inr mm"
      "mm_dst mm = dst" "mm_tag mm = ABSP_MPI_MANAGEMENT_THREAD_TAG"
      "receiveActorMessage nb cb src (mm_bytes mm) cm = Inr (Some (GetResultParts_class, m'), cm')" "cm_inv cm'"
      "am_src m' = src" and v: "parts_view m' = Inr (fwd, ps)"
    using parts.sent_received [of "(fwd, ps)" cm b dst nb cb src] assms by (auto simp: parts_ok_def)
  then show ?thesis using parts_viewD [OF v] by auto
qed

theorem get_parts_sent_received_witness:
  "\<exists>m mm m' cm'. GetResultPartsMessage \<lparr>bl_addr = 1, bl_mem = \<lambda>_. 9\<rparr> 4
      [\<lparr>rq_resid = 7, rq_offset = 0, rq_size = 2, rq_dst = 0\<rparr>] = Inr m \<and> sendActorMessage 5 m = Inr mm \<and>
    receiveActorMessage \<lparr>bl_addr = 2, bl_mem = \<lambda>_. 9\<rparr> \<lparr>bl_addr = 3, bl_mem = \<lambda>_. 9\<rparr> 4 (mm_bytes mm)
      MPIActorCommunicator = Inr (Some (GetResultParts_class, m'), cm') \<and> parts_getForwardTo m' = Inr 4"
  using get_parts_sent_received [of MPIActorCommunicator "[\<lparr>rq_resid = 7, rq_offset = 0, rq_size = 2, rq_dst = 0\<rparr>]"
      "\<lparr>bl_addr = 1, bl_mem = \<lambda>_. 9\<rparr>" 4 5 "\<lparr>bl_addr = 2, bl_mem = \<lambda>_. 9\<rparr>" "\<lparr>bl_addr = 3, bl_mem = \<lambda>_. 9\<rparr>" 4]
  by (auto simp: cm_inv_def MPIActorCommunicator_def)

text \<open>
  \<^const>\<open>sendKeyedFutureValue\<close> asks MPI to send one byte more than the vector has: for
  every vector of less than \<open>2 ^ 31 - 1\<close> bytes it reads past the end of the vector.
\<close>

theorem sendKeyedFutureValue_overreads:
  assumes "length serial < 2 ^ 31 - 1"
  shows "sendKeyedFutureValue dst serial key = Inl Out_of_bounds"
proof -
  let ?k = "length serial + 1"
  have k: "?k < 2 ^ 31" using assms by simp
  then have "(ucast (of_nat ?k :: size_t) :: c_int) = of_nat ?k" by (intro ucast_size_int) simp
  moreover have "(of_nat (length serial) + 1 :: size_t) = of_nat ?k" by simp
  ultimately show ?thesis
    using k sint_of_nat_small [OF k] unfolding sendKeyedFutureValue_def mpi_send_def
    by (simp only: mem_read_def) simp
qed

theorem sendKeyedFutureValue_overreads_witness:
  "sendKeyedFutureValue 1 [1, 2, 3] 9 = Inl Out_of_bounds"
  using sendKeyedFutureValue_overreads [of "[1, 2, 3]" 1 9] by simp

end
