(* ===== verification/Actor_Server.thy ===== *)
theory Actor_Server
  imports Communicator
begin

text \<open>
  The management thread of a process: \<^verbatim>\<open>ActorServer\<close>
  (src/src/ActiveBSP/src/management/ActorServer.cpp, include/management/ActorServer.h) with the
  worker proxy it drives (src/management/ThreadedActorWorkerProxy.cpp).

  A handler is a function from the state of the server to its new state or a failure. The state
  holds every member of the class that is used, the communicator's receive buffer, the key
  counter of the process and the list of all messages handed to MPI so far, in order.
  \<^verbatim>\<open>_result_store_lock\<close> is a flag: the management thread locking it while it holds it is
  \<^const>\<open>Deadlock\<close>.

  What lies outside the program is the argument \<open>env\<close>: the blocks \<^verbatim>\<open>new\<close> returns, the results of the
  collective operations of MPI, and Boost's serialisation of a vector distribution.
\<close>

section \<open>State\<close>

record worker_proxy =
  wp_queue :: request_queue
  wp_name :: "byte list"
  wp_pids :: "c_int list"

record pending_result_request =
  pr_offset :: size_t
  pr_size :: size_t
  pr_dst :: c_int

record actor_server =
  as_pid :: c_int
  as_comm :: communicator
  as_intra :: "(c_int \<times> c_int) option"
  as_worker :: "worker_proxy option"
  as_joined :: "worker_proxy list"
  as_pids :: "c_int list"
  as_futureDataStore :: future_store
  as_pendingFutureRequests :: "c_int \<rightharpoonup> c_int list"
  as_askedFutureDelete :: "c_int \<rightharpoonup> bool"
  as_askedFetch :: "c_int \<rightharpoonup> actor_message"
  as_partMissing :: "c_int \<rightharpoonup> size_t"
  as_result_store_lock :: bool
  as_cv_broadcasts :: nat
  as_dataStore :: data_store
  as_pendingResultRequests :: "c_int \<rightharpoonup> pending_result_request list"
  as_next_result_store_local_key :: c_int
  as_next_key :: c_int
  as_qrun :: bool
  as_sent :: "mpi_message list"
  as_tick :: nat

record server_env =
  se_block :: "nat \<Rightarrow> block"
  se_gather :: "nat \<Rightarrow> c_int \<Rightarrow> c_int list"
  se_bcast :: "nat \<Rightarrow> c_int \<times> byte list"
  se_serialize :: "vector_distribution \<Rightarrow> byte list"
  se_deserialize :: "byte list \<Rightarrow> vector_distribution result"

definition ActorServer :: "c_int \<Rightarrow> actor_server" where
  "ActorServer pid = \<lparr>as_pid = pid, as_comm = MPIActorCommunicator, as_intra = None, as_worker = None,
     as_joined = [], as_pids = [], as_futureDataStore = Map.empty, as_pendingFutureRequests = Map.empty,
     as_askedFutureDelete = Map.empty, as_askedFetch = Map.empty, as_partMissing = Map.empty,
     as_result_store_lock = False, as_cv_broadcasts = 0, as_dataStore = DataStore,
     as_pendingResultRequests = Map.empty, as_next_result_store_local_key = - 1, as_next_key = 0,
     as_qrun = True, as_sent = [], as_tick = 0\<rparr>"

section \<open>Helpers of the handlers\<close>

definition emit :: "mpi_message result \<Rightarrow> actor_server \<Rightarrow> actor_server result" where
  "emit r srv = bindE r (\<lambda>mm. Inr (srv\<lparr>as_sent := as_sent srv @ [mm]\<rparr>))"

definition tick :: "actor_server \<Rightarrow> actor_server" where
  "tick srv = srv\<lparr>as_tick := as_tick srv + 1\<rparr>"

definition lock_results :: "actor_server \<Rightarrow> actor_server result" where
  "lock_results srv =
     (if as_result_store_lock srv then Inl Deadlock else Inr (srv\<lparr>as_result_store_lock := True\<rparr>))"

definition unlock_results :: "actor_server \<Rightarrow> actor_server" where
  "unlock_results srv = srv\<lparr>as_result_store_lock := False\<rparr>"

definition cond_broadcast :: "actor_server \<Rightarrow> actor_server" where
  "cond_broadcast srv = srv\<lparr>as_cv_broadcasts := as_cv_broadcasts srv + 1\<rparr>"

definition server_takeKey :: "actor_server \<Rightarrow> (c_int \<times> actor_server) result" where
  "server_takeKey srv = bindE (takeKey (as_next_key srv)) (\<lambda>(key, nxt). Inr (key, srv\<lparr>as_next_key := nxt\<rparr>))"

definition setIntraActorComm :: "c_int \<times> c_int \<Rightarrow> actor_server \<Rightarrow> actor_server" where
  "setIntraActorComm comm srv = srv\<lparr>as_intra := Some comm\<rparr>"

definition isHead :: "actor_server \<Rightarrow> bool result" where
  "isHead srv = (case as_intra srv of None \<Rightarrow> Inl Null_deref | Some (pid, nprocs) \<Rightarrow> Inr (pid = 0))"

text \<open>\<^verbatim>\<open>std::map::operator[]\<close> inserts the default value.\<close>

definition subscript :: "'v \<Rightarrow> 'k \<Rightarrow> ('k \<rightharpoonup> 'v) \<Rightarrow> 'v \<times> ('k \<rightharpoonup> 'v)" where
  "subscript d k m = (case m k of None \<Rightarrow> (d, m(k \<mapsto> d)) | Some v \<Rightarrow> (v, m))"

definition push_back :: "'k \<Rightarrow> 'v \<Rightarrow> ('k \<rightharpoonup> 'v list) \<Rightarrow> ('k \<rightharpoonup> 'v list)" where
  "push_back k v m = m(k \<mapsto> (case m k of None \<Rightarrow> [] | Some vs \<Rightarrow> vs) @ [v])"

definition vector_at :: "'a list \<Rightarrow> nat \<Rightarrow> 'a result" where
  "vector_at xs i = (if i < length xs then Inr (xs ! i) else Inl Out_of_bounds)"

section \<open>The worker proxy\<close>

definition createActorProcessProxy :: worker_proxy where
  "createActorProcessProxy = \<lparr>wp_queue = [], wp_name = [], wp_pids = []\<rparr>"

definition startActor :: "byte list \<Rightarrow> c_int list \<Rightarrow> worker_proxy \<Rightarrow> c_int \<times> worker_proxy" where
  "startActor name pids wp = (0, wp\<lparr>wp_name := name, wp_pids := pids\<rparr>)"

definition callActor :: "active_object_request \<Rightarrow> worker_proxy \<Rightarrow> worker_proxy" where
  "callActor req wp = wp\<lparr>wp_queue := postMessage req (wp_queue wp)\<rparr>"

text \<open>The stop request has source \<open>- 1\<close> and a call message without a buffer; its key is the default 0.\<close>

definition stopActor :: "worker_proxy \<Rightarrow> worker_proxy" where
  "stopActor wp =
     wp\<lparr>wp_queue := postMessage (ActiveObjectRequest (ActorMessage_on (- 1) 0 [] 0) (- 1) 0) (wp_queue wp)\<rparr>"

section \<open>Creating, calling and stopping an actor\<close>

definition handleCreateActorMessage :: "actor_message \<Rightarrow> actor_server \<Rightarrow> actor_server result" where
  "handleCreateActorMessage msg srv =
     bindE (create_getPids msg) (\<lambda>pids.
     bindE (create_getActorName msg) (\<lambda>name.
       let (errorcode, wp) = startActor name pids createActorProcessProxy;
           srv1 = srv\<lparr>as_pids := pids, as_worker := Some wp\<rparr>
       in bindE (vector_at pids 0) (\<lambda>head.
            if as_pid srv1 = head then emit (sendResponseCode (am_src msg) errorcode) srv1 else Inr srv1)))"

definition handleCallActorMessage :: "actor_message \<Rightarrow> actor_server \<Rightarrow> actor_server result" where
  "handleCallActorMessage msg srv =
     bindE (server_takeKey srv) (\<lambda>(key, srv1).
       case as_worker srv1 of
         None \<Rightarrow> Inl Null_deref
       | Some wp \<Rightarrow>
           emit (sendResponseCode (am_src msg) key)
             (srv1\<lparr>as_worker := Some (callActor (ActiveObjectRequest msg (am_src msg) key) wp)\<rparr>))"

definition handleStopActorMessage :: "actor_message \<Rightarrow> actor_server \<Rightarrow> actor_server result" where
  "handleStopActorMessage msg srv =
     (case as_worker srv of
        None \<Rightarrow> Inl Null_deref
      | Some wp \<Rightarrow>
          let srv1 = srv\<lparr>as_pids := [], as_worker := None, as_joined := as_joined srv @ [stopActor wp]\<rparr>
          in bindE (stop_isAskingAnswer msg) (\<lambda>ask.
               if ask then emit (sendResponseCode (am_src msg) 0) srv1 else Inr srv1))"

definition handleStopActorProcessMessage :: "actor_server \<Rightarrow> actor_server result" where
  "handleStopActorProcessMessage srv = Inr (srv\<lparr>as_qrun := False\<rparr>)"

section \<open>Parts of results\<close>

definition answer_pending :: "c_int \<Rightarrow> pending_result_request \<Rightarrow> actor_server \<Rightarrow> actor_server result" where
  "answer_pending key req srv =
     bindE (getPartData key (as_dataStore srv)) (\<lambda>(data, data_size).
       let res = (case data of None \<Rightarrow> [] | Some ptr \<Rightarrow> ptr)
       in emit (sendResultPart (pr_dst req) (drop (unat (pr_offset req)) res) (ucast (pr_size req))) srv)"

definition checkDvPartRequired :: "c_int \<Rightarrow> actor_server \<Rightarrow> actor_server result" where
  "checkDvPartRequired key srv =
     (case as_pendingResultRequests srv key of
        None \<Rightarrow> Inr srv
      | Some reqs \<Rightarrow>
          bindE (lock_results srv) (\<lambda>srv1.
          bindE (foldE (answer_pending key) reqs srv1) (\<lambda>srv2. Inr (unlock_results srv2))))"

text \<open>
  The loop of \<^verbatim>\<open>handleGetResultPartsMessage\<close>; the flag tells that it returned early, with the
  mutex still locked.
\<close>

fun get_result_parts_loop ::
  "actor_message \<Rightarrow> nat list \<Rightarrow> actor_server \<Rightarrow> (bool \<times> actor_server) result"
where
  "get_result_parts_loop msg [] srv = Inr (False, srv)"
| "get_result_parts_loop msg (i # is) srv =
     bindE (parts_getPart (of_nat i) msg) (\<lambda>part.
     bindE (getPartData (rq_resid part) (as_dataStore srv)) (\<lambda>(data, data_size).
       case data of
         None \<Rightarrow>
           get_result_parts_loop msg is (srv\<lparr>as_pendingResultRequests :=
             push_back (rq_resid part) \<lparr>pr_offset = rq_offset part, pr_size = rq_size part, pr_dst = am_src msg\<rparr>
               (as_pendingResultRequests srv)\<rparr>)
       | Some res \<Rightarrow>
           if data_size < rq_offset part + rq_size part then Inr (True, srv)
           else bindE (parts_getForwardTo msg) (\<lambda>fwd.
                bindE (emit (sendResultPart fwd (drop (unat (rq_offset part)) res) (ucast (rq_size part))) srv) (\<lambda>srv1.
                  get_result_parts_loop msg is srv1))))"

definition handleGetResultPartsMessage :: "actor_message \<Rightarrow> actor_server \<Rightarrow> actor_server result" where
  "handleGetResultPartsMessage msg srv =
     bindE (lock_results srv) (\<lambda>srv1.
     bindE (parts_getNparts msg) (\<lambda>nparts.
     bindE (get_result_parts_loop msg [0..<nat (sint nparts)] srv1) (\<lambda>(returned, srv2).
       if returned then Inr srv2 else Inr (unlock_results srv2))))"

definition handleStoreResultMessage :: "server_env \<Rightarrow> actor_message \<Rightarrow> actor_server \<Rightarrow> actor_server result" where
  "handleStoreResultMessage env msg0 srv =
     bindE (giveBufferOwnershipTo (se_block env (as_tick srv)) msg0 (as_comm srv)) (\<lambda>(msg, cm).
     bindE (lock_results ((tick srv)\<lparr>as_comm := cm\<rparr>)) (\<lambda>srv1.
     bindE (store_getResId msg) (\<lambda>resid.
     bindE (storePartMessage resid msg (as_dataStore srv1)) (\<lambda>ds.
       checkDvPartRequired resid (unlock_results (cond_broadcast (srv1\<lparr>as_dataStore := ds\<rparr>)))))))"

definition handleReleaseResultPartMessage :: "actor_message \<Rightarrow> actor_server \<Rightarrow> actor_server result" where
  "handleReleaseResultPartMessage msg srv =
     bindE (relpart_getResId msg) (\<lambda>resid.
     bindE (lock_results srv) (\<lambda>srv1.
     bindE (removePart resid (as_dataStore srv1)) (\<lambda>ds.
       Inr (unlock_results (srv1\<lparr>as_dataStore := ds\<rparr>)))))"

definition handleStoreResultPartMessage :: "actor_message \<Rightarrow> actor_server \<Rightarrow> actor_server result" where
  "handleStoreResultPartMessage msg srv =
     bindE (lock_results srv) (\<lambda>srv1.
     bindE (part_getResId msg) (\<lambda>resid.
     bindE (part_getOffset msg) (\<lambda>offset.
     bindE (part_getDataSize msg) (\<lambda>data_size.
     bindE (addData resid (part_getData msg) offset data_size (as_dataStore srv1)) (\<lambda>(remaining, ds).
       let srv2 = unlock_results (cond_broadcast (srv1\<lparr>as_dataStore := ds\<rparr>))
       in if remaining = 0 then checkDvPartRequired resid srv2 else Inr srv2)))))"

definition distribute_step ::
  "size_t \<Rightarrow> size_t \<Rightarrow> c_int \<Rightarrow> nat \<Rightarrow> vector_distribution \<times> actor_server \<Rightarrow>
    (vector_distribution \<times> actor_server) result"
where
  "distribute_step n elem_size p i = (\<lambda>(dv, srv).
     let key = as_next_result_store_local_key srv
     in bindE (sub_int key 1) (\<lambda>nxt.
        bindE (div_range n (of_nat i) p) (\<lambda>(offset, fin).
        bindE (vector_at (as_pids srv) i) (\<lambda>pid.
        bindE (register_part (of_nat i) pid key ((fin - offset) * elem_size) (offset * elem_size) dv) (\<lambda>dv'.
          Inr (dv', srv\<lparr>as_next_result_store_local_key := nxt\<rparr>))))))"

definition handleDistributeVectorMessage :: "actor_message \<Rightarrow> actor_server \<Rightarrow> actor_server result" where
  "handleDistributeVectorMessage msg srv =
     bindE (distr_getDistrArgs msg) (\<lambda>(n, elem_size).
       let p = of_nat (length (as_pids srv)) :: c_int
       in bindE (vector_distribution_base p) (\<lambda>dv0.
          bindE (foldE (distribute_step n elem_size p) [0..<nat (sint p)] (dv0, srv)) (\<lambda>(dv, srv1).
            emit (sendDistrVector (am_src msg) dv) srv1)))"

section \<open>Futures, prefetch and fetch\<close>

text \<open>The pieces of the parts of this process that process \<open>i\<close> of the fetching actor needs.\<close>

definition fetch_piece ::
  "server_env \<Rightarrow> c_int \<Rightarrow> c_int \<Rightarrow> size_t \<Rightarrow> size_t \<Rightarrow> size_t \<Rightarrow> vector_distribution_part \<Rightarrow>
    actor_server \<Rightarrow> actor_server result"
where
  "fetch_piece env pid key sz ioffset iend part srv =
     (let part_fin = vp_offset part + vp_size part
      in if as_pid srv \<noteq> vp_pid part then Inr srv
         else if part_fin \<le> ioffset \<or> iend \<le> vp_offset part then Inr srv
         else bindE (lock_results srv) (\<lambda>srv1.
              bindE (getPartData (vp_resid part) (as_dataStore srv1)) (\<lambda>(data, data_size).
                case data of
                  None \<Rightarrow> Inl Assert_failed
                | Some ptr \<Rightarrow>
                    let req_offset = (if vp_offset part \<le> ioffset then ioffset - vp_offset part else 0);
                        req_size = min (vp_size part) (iend - vp_offset part) - req_offset
                    in bindE (StoreResultPartMessage (se_block env (as_tick srv1)) key ptr 0 req_size sz) (\<lambda>m.
                       bindE (emit (sendActorMessage pid m) (tick srv1)) (\<lambda>srv2.
                         Inr (unlock_results srv2))))))"

text \<open>
  The first half of \<^verbatim>\<open>fetchDv\<close>: the head passes the message on and reads the description of the
  vector from its future; then every process of the actor gets it by a broadcast.
\<close>

definition forward_message :: "actor_message \<Rightarrow> nat \<Rightarrow> actor_server \<Rightarrow> actor_server result" where
  "forward_message msg i srv = bindE (vector_at (as_pids srv) i) (\<lambda>pid. emit (sendActorMessage pid msg) srv)"

definition fetch_description :: "server_env \<Rightarrow> actor_message \<Rightarrow> actor_server \<Rightarrow> vector_distribution result" where
  "fetch_description env msg srv =
     bindE (fetch_getReqFutureKey msg) (\<lambda>key.
       case getFutureData key (as_futureDataStore srv) of
         None \<Rightarrow> Inl Null_deref
       | Some bytes \<Rightarrow> se_deserialize env bytes)"

definition broadcast_description ::
  "server_env \<Rightarrow> vector_distribution \<Rightarrow> actor_server \<Rightarrow> vector_distribution result"
where
  "broadcast_description env dv srv =
     (case as_intra srv of
        None \<Rightarrow> Inl Null_deref
      | Some (pid, nprocs) \<Rightarrow>
          broadcastVd pid (fst (se_bcast env (as_tick srv))) (snd (se_bcast env (as_tick srv))) dv)"

text \<open>The second half: the pieces for process \<open>i\<close> of the fetching actor.\<close>

definition fetch_part ::
  "server_env \<Rightarrow> c_int \<Rightarrow> c_int \<Rightarrow> size_t \<Rightarrow> size_t \<Rightarrow> size_t \<Rightarrow> vector_distribution \<Rightarrow> nat \<Rightarrow>
    actor_server \<Rightarrow> actor_server result"
where
  "fetch_part env pid key sz ioffset iend dv j srv =
     bindE (getPart (of_nat j) dv) (\<lambda>part. fetch_piece env pid key sz ioffset iend part srv)"

definition fetch_for ::
  "server_env \<Rightarrow> actor_message \<Rightarrow> c_int \<Rightarrow> size_t \<Rightarrow> vector_distribution \<Rightarrow> nat list \<Rightarrow> nat \<Rightarrow>
    actor_server \<Rightarrow> actor_server result"
where
  "fetch_for env msg npids sz dv js i srv =
     bindE (fetch_getPids (of_nat i) msg) (\<lambda>pid.
     bindE (fetch_getKeys (of_nat i) msg) (\<lambda>key.
     bindE (div_range sz (of_nat i) npids) (\<lambda>(ioffset, iend).
       foldE (fetch_part env pid key sz ioffset iend dv) js srv)))"

definition fetchDv :: "server_env \<Rightarrow> actor_message \<Rightarrow> actor_server \<Rightarrow> actor_server result" where
  "fetchDv env msg srv =
     bindE (isHead srv) (\<lambda>head.
     bindE (foldE (forward_message msg) (if head then [1..<length (as_pids srv)] else []) srv) (\<lambda>srv1.
     bindE (if head then fetch_description env msg srv1 else vector_distribution_base 1) (\<lambda>dv0.
     bindE (broadcast_description env dv0 srv1) (\<lambda>dv.
     bindE (fetch_getNpids msg) (\<lambda>npids.
     bindE (fetch_getDvSize msg) (\<lambda>sz.
     bindE (nparts dv) (\<lambda>np.
       foldE (fetch_for env msg npids sz dv [0..<nat (sint np)]) [0..<nat (sint npids)] (tick srv1))))))))"

definition checkFutureRequired :: "server_env \<Rightarrow> c_int \<Rightarrow> actor_server \<Rightarrow> actor_server result" where
  "checkFutureRequired env key srv =
     (case as_askedFetch srv key of
        None \<Rightarrow> Inr srv
      | Some msg \<Rightarrow> bindE (fetchDv env msg srv) (\<lambda>srv1.
          Inr (srv1\<lparr>as_askedFetch := (as_askedFetch srv1)(key := None)\<rparr>)))"

definition answer_future :: "c_int \<Rightarrow> c_int \<Rightarrow> actor_server \<Rightarrow> actor_server result" where
  "answer_future key pid srv =
     (case getFutureData key (as_futureDataStore srv) of
        None \<Rightarrow> Inl Null_deref
      | Some data \<Rightarrow> emit (sendFutureData pid data) srv)"

definition registerFuture :: "server_env \<Rightarrow> c_int \<Rightarrow> byte list \<Rightarrow> actor_server \<Rightarrow> actor_server result" where
  "registerFuture env key data srv =
     (let pending = as_pendingFutureRequests srv key;
          (asked, deletes) = (if pending = None then subscript False key (as_askedFutureDelete srv)
                              else (False, as_askedFutureDelete srv));
          srv0 = srv\<lparr>as_askedFutureDelete := deletes\<rparr>
      in if pending = None \<and> asked then
           Inr (srv0\<lparr>as_askedFutureDelete := (as_askedFutureDelete srv0)(key := None)\<rparr>)
         else
           bindE (checkFutureRequired env key
               (srv0\<lparr>as_futureDataStore := registerFutureData key data (as_futureDataStore srv0)\<rparr>)) (\<lambda>srv2.
           bindE (case pending of
                None \<Rightarrow> Inr srv2
              | Some pids \<Rightarrow>
                  bindE (foldE (answer_future key) pids srv2) (\<lambda>srv3.
                    Inr (srv3\<lparr>as_pendingFutureRequests := (as_pendingFutureRequests srv3)(key := None)\<rparr>))) (\<lambda>srv4.
             let (asked2, deletes2) = subscript False key (as_askedFutureDelete srv4);
                 srv5 = srv4\<lparr>as_askedFutureDelete := deletes2\<rparr>
             in if asked2 then
                  Inr (srv5\<lparr>as_askedFutureDelete := (as_askedFutureDelete srv5)(key := None),
                            as_futureDataStore := removeFutureData key (as_futureDataStore srv5)\<rparr>)
                else Inr srv5)))"

definition handleRegisterFuture :: "server_env \<Rightarrow> actor_message \<Rightarrow> actor_server \<Rightarrow> actor_server result" where
  "handleRegisterFuture env msg srv =
     bindE (register_getFutureKey msg) (\<lambda>key.
     bindE (register_getFutureData msg) (\<lambda>data. registerFuture env key data srv))"

definition handleGetFutureData :: "actor_message \<Rightarrow> actor_server \<Rightarrow> actor_server result" where
  "handleGetFutureData msg srv =
     bindE (getdata_getFutureKey msg) (\<lambda>key.
       case getFutureData key (as_futureDataStore srv) of
         Some data \<Rightarrow> emit (sendFutureData (am_src msg) data) srv
       | None \<Rightarrow> Inr (srv\<lparr>as_pendingFutureRequests := push_back key (am_src msg) (as_pendingFutureRequests srv)\<rparr>))"

definition handleReleaseFutureMessage :: "actor_message \<Rightarrow> actor_server \<Rightarrow> actor_server result" where
  "handleReleaseFutureMessage msg srv =
     bindE (release_getFutureKey msg) (\<lambda>key.
       case getFutureData key (as_futureDataStore srv) of
         Some _ \<Rightarrow> Inr (srv\<lparr>as_futureDataStore := removeFutureData key (as_futureDataStore srv)\<rparr>)
       | None \<Rightarrow> Inr (srv\<lparr>as_askedFutureDelete := (as_askedFutureDelete srv)(key \<mapsto> True)\<rparr>))"

definition handleFetchMessage :: "server_env \<Rightarrow> actor_message \<Rightarrow> actor_server \<Rightarrow> actor_server result" where
  "handleFetchMessage env msg srv =
     bindE (isHead srv) (\<lambda>head.
       if head then
         bindE (fetch_getReqFutureKey msg) (\<lambda>key.
           case getFutureData key (as_futureDataStore srv) of
             None \<Rightarrow>
               bindE (ActorMessage_copy (se_block env (as_tick srv)) msg) (\<lambda>cpy.
               bindE (assertE (as_askedFetch srv key = None)) (\<lambda>_.
                 Inr ((tick srv)\<lparr>as_askedFetch := (as_askedFetch srv)(key \<mapsto> cpy)\<rparr>)))
           | Some _ \<Rightarrow> fetchDv env msg srv)
       else fetchDv env msg srv)"

text \<open>The head's announcement of a prefetch: the new future key to the caller, the message to the others.\<close>

definition prefetch_announce :: "actor_message \<Rightarrow> actor_server \<Rightarrow> (c_int \<times> actor_server) result" where
  "prefetch_announce msg srv =
     bindE (server_takeKey srv) (\<lambda>(res_future_key, srv1).
     bindE (emit (sendResponseCode (am_src msg) res_future_key) srv1) (\<lambda>srv2.
       if as_pids srv2 = [] then Inl Out_of_bounds
       else bindE (foldE (\<lambda>pid. emit (sendActorMessage pid msg)) (tl (as_pids srv2)) srv2) (\<lambda>srv3.
         Inr (res_future_key, srv3))))"

text \<open>The head's fetch message and the description of the vector it registers as a future.\<close>

definition prefetch_register ::
  "server_env \<Rightarrow> actor_message \<Rightarrow> size_t \<Rightarrow> c_int \<Rightarrow> c_int \<Rightarrow> c_int \<Rightarrow> actor_server \<Rightarrow> actor_server result"
where
  "prefetch_register env msg sz p part_key res_future_key srv =
     bindE (prefetch_getFutureKey msg) (\<lambda>future_key.
     bindE (FetchMessage (se_block env (as_tick srv)) (as_pids srv) (of_nat (length (as_pids srv)))
         future_key res_future_key sz) (\<lambda>fetch0.
     bindE (fetch_setKeys (se_gather env (as_tick srv) part_key) fetch0) (\<lambda>fetch.
     bindE (prefetch_getFuturePid msg) (\<lambda>future_pid.
     bindE (emit (sendActorMessage future_pid fetch) (tick srv)) (\<lambda>srv1.
     bindE (vector_distribution_base p) (\<lambda>vd0.
     bindE (foldE (\<lambda>i vd.
         bindE (div_range sz (of_nat i) p) (\<lambda>(i_part_offset, i_part_end).
         bindE (fetch_getPids (of_nat i) fetch) (\<lambda>pid.
         bindE (fetch_getKeys (of_nat i) fetch) (\<lambda>key.
           register_part (of_nat i) pid key (i_part_end - i_part_offset) i_part_offset vd))))
       [0..<nat (sint p)] vd0) (\<lambda>vd.
       registerFuture env res_future_key (se_serialize env vd) srv1)))))))"

text \<open>The buffer for the part of this process.\<close>

definition prefetch_prepare :: "c_int \<Rightarrow> size_t \<Rightarrow> actor_server \<Rightarrow> actor_server result" where
  "prefetch_prepare part_key part_size srv =
     bindE (lock_results srv) (\<lambda>srv1.
     bindE (preparePartVector part_key part_size (as_dataStore srv1)) (\<lambda>ds.
       Inr (unlock_results (srv1\<lparr>as_partMissing := (as_partMissing srv1)(part_key \<mapsto> part_size),
         as_dataStore := ds\<rparr>))))"

definition handlePrefetchMessage :: "server_env \<Rightarrow> actor_message \<Rightarrow> actor_server \<Rightarrow> actor_server result" where
  "handlePrefetchMessage env msg srv =
     bindE (isHead srv) (\<lambda>head.
     bindE (if head then prefetch_announce msg srv else Inr (0, srv)) (\<lambda>(res_future_key, srv1).
     bindE (prefetch_getDvSize msg) (\<lambda>sz.
       case as_intra srv1 of
         None \<Rightarrow> Inl Null_deref
       | Some (s, p) \<Rightarrow>
           bindE (div_range sz s p) (\<lambda>(part_offset, part_end).
           bindE (server_takeKey srv1) (\<lambda>(part_key, srv2).
           bindE (prefetch_prepare part_key (part_end - part_offset) srv2) (\<lambda>srv3.
             if head then prefetch_register env msg sz p part_key res_future_key srv3
             else Inr (tick srv3)))))))"

section \<open>The loop of the management thread\<close>

definition routeHandleMessage ::
  "server_env \<Rightarrow> message_class \<times> actor_message \<Rightarrow> actor_server \<Rightarrow> actor_server result"
where
  "routeHandleMessage env = (\<lambda>(cls, msg) srv.
     (case cls of
        StopActorProcess_class \<Rightarrow> handleStopActorProcessMessage srv
      | CreateActor_class \<Rightarrow> handleCreateActorMessage msg srv
      | CallActor_class \<Rightarrow> handleCallActorMessage msg srv
      | StopActor_class \<Rightarrow> handleStopActorMessage msg srv
      | RegisterFuture_class \<Rightarrow> handleRegisterFuture env msg srv
      | GetFutureData_class \<Rightarrow> handleGetFutureData msg srv
      | ReleaseFuture_class \<Rightarrow> handleReleaseFutureMessage msg srv
      | GetResultParts_class \<Rightarrow> handleGetResultPartsMessage msg srv
      | StoreResult_class \<Rightarrow> handleStoreResultMessage env msg srv
      | ReleaseResultPart_class \<Rightarrow> handleReleaseResultPartMessage msg srv
      | DistributeVector_class \<Rightarrow> handleDistributeVectorMessage msg srv
      | Prefetch_class \<Rightarrow> handlePrefetchMessage env msg srv
      | Fetch_class \<Rightarrow> handleFetchMessage env msg srv
      | StoreResultPart_class \<Rightarrow> handleStoreResultPartMessage msg srv))"

text \<open>One turn of the loop: receive the message \<open>(source, bytes)\<close> and handle it.\<close>

definition server_turn :: "server_env \<Rightarrow> c_int \<times> byte list \<Rightarrow> actor_server \<Rightarrow> actor_server result" where
  "server_turn env = (\<lambda>(source, bs) srv.
     bindE (receiveActorMessage (se_block env (as_tick srv)) (se_block env (as_tick srv + 1)) source bs (as_comm srv)) (\<lambda>(msg, cm).
       let srv1 = (tick (tick srv))\<lparr>as_comm := cm\<rparr>
       in (case msg of None \<Rightarrow> Inr srv1 | Some m \<Rightarrow> routeHandleMessage env m srv1)))"

text \<open>
  The loop on the messages that arrive: it stops at \<open>_qrun = false\<close> and returns the messages it
  did not read; without further messages it waits (\<^const>\<open>True\<close> in the flag).
\<close>

fun server_loop ::
  "server_env \<Rightarrow> (c_int \<times> byte list) list \<Rightarrow> actor_server \<Rightarrow> (bool \<times> (c_int \<times> byte list) list \<times> actor_server) result"
where
  "server_loop env msgs srv =
     (if \<not> as_qrun srv then Inr (False, msgs, srv)
      else case msgs of
        [] \<Rightarrow> Inr (True, [], srv)
      | m # rest \<Rightarrow> bindE (server_turn env m srv) (server_loop env rest))"

declare server_loop.simps [simp del]

definition server_run ::
  "server_env \<Rightarrow> (c_int \<times> byte list) list \<Rightarrow> actor_server \<Rightarrow> (bool \<times> (c_int \<times> byte list) list \<times> actor_server) result"
where
  "server_run env msgs srv =
     bindE (server_loop env msgs (srv\<lparr>as_qrun := True\<rparr>)) (\<lambda>(waiting, rest, srv1).
       if waiting then Inr (True, rest, srv1)
       else (case as_worker srv1 of
               None \<Rightarrow> Inr (False, rest, srv1)
             | Some wp \<Rightarrow> Inr (False, rest, srv1\<lparr>as_worker := None, as_joined := as_joined srv1 @ [stopActor wp]\<rparr>)))"

end
