(* ===== verification/Server_Invariant.thy ===== *)
theory Server_Invariant
  imports Actor_Server
begin

text \<open>
  The invariant of the management thread and its preservation by the handlers: the result store
  mutex is free between two messages, the data store is well formed, the receive buffer has the
  size the communicator believes, and every stored message owns a buffer that is not the receive
  buffer. It is kept by every handler, with one exception, which is characterised: a request for
  a range that ends beyond a complete part makes the handler return with the mutex locked.
\<close>

section \<open>Sequencing lemmas\<close>

named_theorems server_simps "unfolding the bookkeeping of the handlers"

lemma emit_eq [server_simps]:
  "emit r srv = Inr srv' \<longleftrightarrow> (\<exists>mm. r = Inr mm \<and> srv' = srv\<lparr>as_sent := as_sent srv @ [mm]\<rparr>)"
  by (auto simp: emit_def result_simps)

lemma emit_Inr [simp]: "emit (Inr mm) srv = Inr (srv\<lparr>as_sent := as_sent srv @ [mm]\<rparr>)"
  by (simp add: emit_def)

lemma lock_results_eq [server_simps]:
  "lock_results srv = Inr srv' \<longleftrightarrow> \<not> as_result_store_lock srv \<and> srv' = srv\<lparr>as_result_store_lock := True\<rparr>"
  by (auto simp: lock_results_def)

lemma server_takeKey_eq [server_simps]:
  "server_takeKey srv = Inr (key, srv') \<longleftrightarrow> key = as_next_key srv \<and>
     (\<exists>nxt. takeKey (as_next_key srv) = Inr (key, nxt) \<and> srv' = srv\<lparr>as_next_key := nxt\<rparr>)"
  by (auto simp: server_takeKey_def takeKey_def result_simps)

section \<open>The data store under successful operations\<close>

lemma storePartVector_inv:
  assumes "ds_inv ds" and "storePartVector key v ds = Inr ds'" and "length v < 2 ^ 64"
  shows "ds_inv ds'"
  using storePartVector_fresh [OF assms(1) _ assms(3), of key] store_taken(1) [OF assms(1), of key v] assms(2)
  by (cases "ds_abs ds key") auto

lemma storePartMessage_inv:
  assumes "ds_inv ds" and "storePartMessage key msg ds = Inr ds'" and "store_view msg = Inr rv"
  shows "ds_inv ds'"
  using storePartMessage_fresh [OF assms(1), of key msg "fst rv" "snd rv"] store_taken(3) [OF assms(1), of key msg rv]
    assms(2,3)
  by (cases "ds_abs ds key") auto

lemma preparePartVector_inv:
  assumes "ds_inv ds" and "preparePartVector key sz ds = Inr ds'"
  shows "ds_inv ds'"
  using preparePartVector_fresh [OF assms(1), of key sz] store_taken(2) [OF assms(1), of key sz] assms(2)
  by (cases "ds_abs ds key") auto

lemma removePart_inv:
  assumes "ds_inv ds" and "removePart key ds = Inr ds'"
  shows "ds_inv ds'"
proof (cases "ds_abs ds key")
  case None
  then show ?thesis
    using assms by (simp add: removePart_def ds_acquire_inv [OF assms(1)] ds_abs_None)
next
  case (Some p)
  then show ?thesis using removePart_present [OF assms(1), of key] assms(2) by auto
qed

lemma addData_inv:
  assumes inv: "ds_inv ds" and add: "addData key data off sz ds = Inr (rest, ds')"
  shows "ds_inv ds'"
proof -
  obtain part where part: "ds_dv_parts ds key = Some part"
    using add by (auto simp: addData_def ds_acquire_inv [OF inv] split: option.splits)
  have ok: "part_ok ds key part" using ds_invD(3) [OF inv part] .
  obtain bs ds1 where c: "sz \<le> dp_remaining_bytes part" and bs: "mem_read data 0 (unat sz) = Inr bs"
    and w: "write_part key part (unat off) bs (ds\<lparr>ds_lock := True\<rparr>) = Inr ds1"
    and ds': "ds' = ds_release (ds1\<lparr>ds_dv_parts := (ds_dv_parts ds1)(key \<mapsto> part\<lparr>dp_remaining_bytes := dp_remaining_bytes part - sz\<rparr>)\<rparr>)"
    using add part by (auto simp: addData_def ds_acquire_inv [OF inv] result_simps Let_def)
  have less: "dp_remaining_bytes part - sz \<le> dp_remaining_bytes part" using c by (simp add: word_sub_le)
  show ?thesis
  proof (cases "dp_location part")
    case vector_store
    then obtain v where v: "ds_result_vector_store ds key = Some v"
      using ok by (auto simp: part_ok_def split: option.splits)
    then have "ds1 = ds\<lparr>ds_lock := True, ds_result_vector_store := (ds_result_vector_store ds)(key \<mapsto> poke (unat off) bs v)\<rparr>"
      and "length (poke (unat off) bs v) = length v"
      using w vector_store by (auto simp: write_part_def mem_write_def result_simps length_poke split: if_splits)
    then show ?thesis
      using ok v vector_store less ds'
      by (intro conjunct1 [OF ds_update_one [OF inv, where key = key]])
        (auto simp: ds_release_def part_ok_def intro: order_trans)
  next
    case message_store
    then obtain m where m: "ds_result_msg_store ds key = Some m"
      using ok by (auto simp: part_ok_def split: option.splits)
    then obtain buf where "ds1 = ds\<lparr>ds_lock := True, ds_result_msg_store := (ds_result_msg_store ds)(key \<mapsto> m\<lparr>am_buf := buf\<rparr>)\<rparr>"
      and "length buf = length (am_buf m)"
      using w message_store by (auto simp: write_part_def mem_write_def result_simps length_poke split: if_splits)
    moreover have "dp_remaining_bytes part = 0" using ok message_store by (auto simp: part_ok_def split: option.splits)
    then have "dp_remaining_bytes part - sz = 0" using c by simp
    ultimately show ?thesis
      using ok m message_store ds'
      by (intro conjunct1 [OF ds_update_one [OF inv, where key = key]])
        (auto simp: ds_release_def part_ok_def)
  qed
qed

section \<open>The invariant\<close>

definition srv_inv :: "actor_server \<Rightarrow> bool" where
  "srv_inv srv \<longleftrightarrow> \<not> as_result_store_lock srv \<and> ds_inv (as_dataStore srv) \<and> cm_inv (as_comm srv)"

text \<open>What the invariant is about; most handlers do not touch it.\<close>

definition core :: "actor_server \<Rightarrow> bool \<times> data_store \<times> communicator" where
  "core srv = (as_result_store_lock srv, as_dataStore srv, as_comm srv)"

lemma srv_inv_coreI: "srv_inv srv \<Longrightarrow> core s = core srv \<Longrightarrow> srv_inv s"
  by (simp add: core_def srv_inv_def)

lemma srv_inv_init [simp]: "srv_inv (ActorServer pid)"
  by (simp add: srv_inv_def ActorServer_def cm_inv_def MPIActorCommunicator_def)

text \<open>Rules for computations on servers that keep the core.\<close>

named_theorems core_rules "steps that keep the core of a server"

abbreviation keeps :: "actor_server \<Rightarrow> actor_server result \<Rightarrow> bool" where
  "keeps srv m \<equiv> okE m (\<lambda>s. core s = core srv)"

lemma core_update [simp]:
  "core (srv\<lparr>as_sent := x1\<rparr>) = core srv" "core (srv\<lparr>as_pids := x2\<rparr>) = core srv"
  "core (srv\<lparr>as_worker := x3\<rparr>) = core srv" "core (srv\<lparr>as_joined := x4\<rparr>) = core srv"
  "core (srv\<lparr>as_futureDataStore := x5\<rparr>) = core srv" "core (srv\<lparr>as_pendingFutureRequests := x6\<rparr>) = core srv"
  "core (srv\<lparr>as_askedFutureDelete := x7\<rparr>) = core srv" "core (srv\<lparr>as_askedFetch := x8\<rparr>) = core srv"
  "core (srv\<lparr>as_partMissing := x9\<rparr>) = core srv" "core (srv\<lparr>as_pendingResultRequests := x10\<rparr>) = core srv"
  "core (srv\<lparr>as_next_result_store_local_key := x11\<rparr>) = core srv" "core (srv\<lparr>as_next_key := x12\<rparr>) = core srv"
  "core (srv\<lparr>as_qrun := x13\<rparr>) = core srv" "core (srv\<lparr>as_cv_broadcasts := x14\<rparr>) = core srv"
  "core (srv\<lparr>as_tick := x15\<rparr>) = core srv" "core (tick srv) = core srv" "core (cond_broadcast srv) = core srv"
  by (simp_all add: core_def tick_def cond_broadcast_def)

lemma keeps_emit [core_rules]: "core s = core srv \<Longrightarrow> keeps srv (emit r s)"
  by (auto simp: okE_def emit_eq)

lemma keeps_bind_emit [core_rules]:
  "core s = core srv \<Longrightarrow> (\<And>t. core t = core srv \<Longrightarrow> okE (f t) Q) \<Longrightarrow> okE (bindE (emit r s) f) Q"
  by (rule okE_bindI [OF keeps_emit])

lemma keeps_bind_takeKey [core_rules]:
  "core s = core srv \<Longrightarrow> (\<And>k t. core t = core srv \<Longrightarrow> okE (f k t) Q) \<Longrightarrow>
    okE (bindE (server_takeKey s) (\<lambda>(k, t). f k t)) Q"
  by (rule okE_bindI [where P = "\<lambda>(k, t). core t = core srv"]) (auto simp: okE_def server_takeKey_eq)

lemma keeps_bind_foldE:
  assumes "core s = core srv" and "\<And>x t. core t = core srv \<Longrightarrow> keeps srv (g x t)"
    and "\<And>t. core t = core srv \<Longrightarrow> okE (f t) Q"
  shows "okE (bindE (foldE g xs s) f) Q"
  using okE_foldE [where I = "\<lambda>s. core s = core srv", OF assms(1,2)] assms(3) by (rule okE_bindI)

lemmas keeps_intros = core_rules okE_rules

section \<open>Handlers that leave the stores alone\<close>

lemma keeps_handleCreate: "keeps srv (handleCreateActorMessage msg srv)"
  unfolding handleCreateActorMessage_def startActor_def by (intro keeps_intros) auto

lemma keeps_handleCall: "keeps srv (handleCallActorMessage msg srv)"
  unfolding handleCallActorMessage_def by (intro keeps_intros) auto

lemma keeps_handleStop: "keeps srv (handleStopActorMessage msg srv)"
  unfolding handleStopActorMessage_def by (intro keeps_intros) auto

lemma keeps_handleGetFutureData: "keeps srv (handleGetFutureData msg srv)"
  unfolding handleGetFutureData_def by (intro keeps_intros) auto

lemma keeps_handleReleaseFuture: "keeps srv (handleReleaseFutureMessage msg srv)"
  unfolding handleReleaseFutureMessage_def by (intro keeps_intros) auto

lemma keeps_handleDistribute: "keeps srv (handleDistributeVectorMessage msg srv)"
proof -
  have step: "okE (distribute_step n e p i x) (\<lambda>y. core (snd y) = core srv)"
    if "core (snd x) = core srv" for n e p i x
    using that unfolding distribute_step_def by (intro okE_rules) auto
  have fold: "okE (foldE (distribute_step n e p) is (dv0, srv)) (\<lambda>y. core (snd y) = core srv)" for n e p "is" dv0
    by (rule okE_foldE) (simp_all add: step)
  show ?thesis
    unfolding handleDistributeVectorMessage_def
    by (intro okE_bindI [OF fold] keeps_intros) auto
qed

lemma keeps_fetch_piece:
  assumes "\<not> as_result_store_lock srv"
  shows "keeps srv (fetch_piece env pid key sz io ie part srv)"
proof (rule okEI)
  fix r assume "fetch_piece env pid key sz io ie part srv = Inr r"
  then show "core r = core srv"
    using assms
    by (auto simp: fetch_piece_def Let_def result_simps server_simps tick_def unlock_results_def core_def
        split: if_splits option.splits)
qed

lemma lock_core: "core s = core srv \<Longrightarrow> as_result_store_lock s = as_result_store_lock srv"
  by (simp add: core_def)

lemma keeps_trans: "keeps s m \<Longrightarrow> core s = core srv \<Longrightarrow> keeps srv m"
  by (simp add: okE_def)

lemma keeps_fetchDv:
  assumes "\<not> as_result_store_lock srv"
  shows "keeps srv (fetchDv env msg srv)"
proof -
  have fwd: "keeps srv (forward_message msg i s)" if "core s = core srv" for i s
    using that unfolding forward_message_def by (intro keeps_intros)
  have part: "keeps srv (fetch_part env pid key sz io ie dv j s)" if "core s = core srv" for pid key sz io ie dv j s
    unfolding fetch_part_def using that assms lock_core [OF that]
    by (intro okE_rules keeps_trans [OF keeps_fetch_piece]) simp_all
  have target: "keeps srv (fetch_for env msg npids sz dv js i s)" if "core s = core srv" for npids sz dv js i s
    unfolding fetch_for_def using that by (intro okE_rules okE_foldE) (simp_all add: part)
  show ?thesis
    unfolding fetchDv_def
    by (intro keeps_bind_foldE [where srv = srv] okE_foldE okE_rules) (simp_all add: fwd target)
qed

lemma keeps_checkFutureRequired:
  assumes "\<not> as_result_store_lock srv"
  shows "keeps srv (checkFutureRequired env key srv)"
  unfolding checkFutureRequired_def
  by (intro okE_option okE_bindI [OF keeps_fetchDv [OF assms]] okE_rules) simp_all

lemma keeps_registerFuture:
  assumes "\<not> as_result_store_lock srv"
  shows "keeps srv (registerFuture env key data srv)"
proof -
  have check: "keeps srv (checkFutureRequired env key s)" if "core s = core srv" for s
    using keeps_trans [OF keeps_checkFutureRequired that] assms lock_core [OF that] by simp
  have answer: "keeps srv (answer_future key pid s)" if "core s = core srv" for pid s
    unfolding answer_future_def using that by (intro keeps_intros)
  show ?thesis
    unfolding registerFuture_def Let_def
    by (intro okE_bindI [OF check] keeps_bind_foldE [where srv = srv] okE_if okE_prod okE_rules
        okE_bindI [where P = "\<lambda>s. core s = core srv"])
      (auto intro!: keeps_bind_foldE [where srv = srv] okE_rules answer split: option.splits)
qed

lemma keeps_handleRegisterFuture:
  "\<not> as_result_store_lock srv \<Longrightarrow> keeps srv (handleRegisterFuture env msg srv)"
  unfolding handleRegisterFuture_def by (intro okE_rules keeps_registerFuture)

lemma keeps_handleFetch:
  "\<not> as_result_store_lock srv \<Longrightarrow> keeps srv (handleFetchMessage env msg srv)"
  unfolding handleFetchMessage_def by (intro okE_rules keeps_fetchDv) simp_all

section \<open>Handlers that change the stores\<close>

abbreviation inv_kept :: "actor_server result \<Rightarrow> bool" where
  "inv_kept m \<equiv> okE m srv_inv"

lemma inv_kept_keeps: "srv_inv srv \<Longrightarrow> keeps srv m \<Longrightarrow> inv_kept m"
  by (erule okE_mono) (rule srv_inv_coreI)

lemma srv_inv_unlocked: "srv_inv srv \<Longrightarrow> \<not> as_result_store_lock srv"
  by (simp add: srv_inv_def)

lemma inv_unlock:
  "ds_inv (as_dataStore srv) \<Longrightarrow> cm_inv (as_comm srv) \<Longrightarrow> srv_inv (unlock_results srv)"
  by (simp add: srv_inv_def unlock_results_def)

lemma keeps_answer_pending: "core s = core srv \<Longrightarrow> keeps srv (answer_pending key req s)"
  unfolding answer_pending_def by (intro keeps_intros)

lemma checkDvPartRequired_core:
  assumes "checkDvPartRequired key srv = Inr srv'" and "\<not> as_result_store_lock srv"
  shows "core srv' = core srv"
proof (cases "as_pendingResultRequests srv key")
  case None
  then show ?thesis using assms(1) by (simp add: checkDvPartRequired_def)
next
  case (Some reqs)
  then obtain srv1 srv2 where "lock_results srv = Inr srv1" and loop: "foldE (answer_pending key) reqs srv1 = Inr srv2"
    and "srv' = unlock_results srv2"
    using assms(1) by (auto simp: checkDvPartRequired_def result_simps)
  moreover have "core srv2 = core srv1"
    using okE_foldE [where I = "\<lambda>s. core s = core srv1" and f = "answer_pending key" and xs = reqs and s = srv1]
      keeps_answer_pending [of _ srv1] okED [OF _ loop] by blast
  ultimately show ?thesis using assms(2) by (auto simp: core_def lock_results_eq unlock_results_def)
qed

lemma inv_kept_checkDvPartRequired:
  assumes "srv_inv srv"
  shows "inv_kept (checkDvPartRequired key srv)"
proof (rule okEI)
  fix s assume "checkDvPartRequired key srv = Inr s"
  then have "core s = core srv" using srv_inv_unlocked [OF assms] by (rule checkDvPartRequired_core)
  then show "srv_inv s" by (rule srv_inv_coreI [OF assms])
qed

lemma inv_kept_handleStoreResult:
  assumes "srv_inv srv" and "store_view msg = Inr rv"
  shows "inv_kept (handleStoreResultMessage env msg srv)"
  unfolding handleStoreResultMessage_def
proof (intro okE_rules inv_kept_checkDvPartRequired inv_unlock)
  fix x m cm srv1 resid ds
  assume give: "giveBufferOwnershipTo (se_block env (as_tick srv)) msg (as_comm srv) = Inr x" "x = (m, cm)"
    and lock: "lock_results (tick srv\<lparr>as_comm := cm\<rparr>) = Inr srv1"
    and store: "storePartMessage resid m (as_dataStore srv1) = Inr ds"
  have "am_buf m = am_buf msg @ []"
    using give by (auto simp: giveBufferOwnershipTo_def giveBufferOwnership_def result_simps)
  with assms(2) have "store_view m = Inr rv" by (rule store.view_prefix)
  moreover have "ds_inv (as_dataStore srv1)"
    using lock assms(1) by (auto simp: lock_results_eq srv_inv_def tick_def)
  ultimately show "ds_inv (as_dataStore (cond_broadcast (srv1\<lparr>as_dataStore := ds\<rparr>)))"
    using storePartMessage_inv [OF _ store] by (simp add: cond_broadcast_def)
  show "cm_inv (as_comm (cond_broadcast (srv1\<lparr>as_dataStore := ds\<rparr>)))"
    using lock give assms(1)
    by (auto simp: lock_results_eq cond_broadcast_def tick_def giveBufferOwnershipTo_def result_simps
        cm_inv_def)
qed

lemma inv_kept_handleReleaseResultPart:
  assumes "srv_inv srv"
  shows "inv_kept (handleReleaseResultPartMessage msg srv)"
  unfolding handleReleaseResultPartMessage_def
  by (intro okE_rules inv_unlock) (use assms in \<open>auto simp: lock_results_eq srv_inv_def intro: removePart_inv\<close>)

lemma inv_kept_handleStoreResultPart:
  assumes "srv_inv srv"
  shows "inv_kept (handleStoreResultPartMessage msg srv)"
  unfolding handleStoreResultPartMessage_def
  by (intro okE_rules inv_kept_checkDvPartRequired)
    (use assms in \<open>auto simp: lock_results_eq srv_inv_def unlock_results_def cond_broadcast_def intro: addData_inv\<close>)

lemma inv_kept_handlePrefetch:
  assumes "srv_inv srv"
  shows "inv_kept (handlePrefetchMessage env msg srv)"
proof -
  have announce: "okE (prefetch_announce msg srv) (\<lambda>(k, s). core s = core srv)"
    unfolding prefetch_announce_def
    by (intro keeps_bind_takeKey [where srv = srv] keeps_bind_emit [where srv = srv]
        keeps_bind_foldE [where srv = srv] okE_rules keeps_emit) auto
  have reg: "inv_kept (registerFuture env r d t)" if "srv_inv s" "core t = core s" for r d s t
    using inv_kept_keeps [OF srv_inv_coreI [OF that] keeps_registerFuture] srv_inv_unlocked [OF srv_inv_coreI [OF that]]
    by simp
  have register: "inv_kept (prefetch_register env msg sz p k r s)" if "srv_inv s" for sz p k r s
    unfolding prefetch_register_def
    by (intro keeps_bind_emit [where srv = s] okE_rules reg [OF that]) simp_all
  have prepare: "inv_kept (prefetch_prepare k n s)" if "srv_inv s" for k n s
    unfolding prefetch_prepare_def
    by (intro okE_rules inv_unlock)
      (use that in \<open>auto simp: lock_results_eq srv_inv_def intro: preparePartVector_inv\<close>)
  show ?thesis
    unfolding handlePrefetchMessage_def
  proof (rule okE_bind, rule okE_bindI [where P = "\<lambda>(k, s). core s = core srv"], goal_cases)
    case (1 head)
    show ?case by (intro okE_if announce okE_Inr) simp_all
  next
    case (2 head x)
    then show ?case
      by (intro okE_bindI [OF prepare] keeps_bind_takeKey [where srv = srv] okE_rules register)
        (auto intro: srv_inv_coreI [OF assms] srv_inv_coreI)
  qed
qed

section \<open>Requests for parts, and the mutex\<close>

text \<open>The loop keeps the core; the mutex is free afterwards unless it returned early.\<close>

lemma get_result_parts_loop_core:
  "okE (get_result_parts_loop msg is srv) (\<lambda>(r, s). core s = core srv)"
proof (induction "is" arbitrary: srv)
  case Nil
  show ?case by (auto intro: okE_Inr)
next
  case (Cons i "is")
  have IH: "okE (get_result_parts_loop msg is t) (\<lambda>(r, s). core s = core srv)" if "core t = core srv" for t
    using Cons.IH [of t] that by simp
  show ?case
    unfolding get_result_parts_loop.simps
    by (intro IH keeps_bind_emit [where srv = srv] okE_rules) auto
qed

text \<open>
  It returns early exactly when one of the requested ranges ends beyond a part that is complete:
  the test of the code, on the part as it is stored.
\<close>

definition beyond_part :: "data_store \<Rightarrow> result_req_part \<Rightarrow> bool" where
  "beyond_part ds r = (case ds_abs ds (rq_resid r) of None \<Rightarrow> False
     | Some p \<Rightarrow> sp_missing p = 0 \<and> (sp_bytes p \<noteq> [] \<or> sp_in_message p) \<and>
         of_nat (length (sp_bytes p)) < rq_offset r + rq_size r)"

definition asks_beyond :: "data_store \<Rightarrow> actor_message \<Rightarrow> bool" where
  "asks_beyond ds msg \<longleftrightarrow> (\<exists>n i r. parts_getNparts msg = Inr n \<and> i < nat (sint n) \<and>
     parts_getPart (of_nat i) msg = Inr r \<and> beyond_part ds r)"

lemma getPartData_beyond:
  assumes "ds_inv ds" and "getPartData (rq_resid r) ds = Inr (data, sz)"
  shows "beyond_part ds r \<longleftrightarrow> data \<noteq> None \<and> sz < rq_offset r + rq_size r"
proof (cases "ds_abs ds (rq_resid r)")
  case None
  then show ?thesis using getPartData_abs [OF assms(1), of "rq_resid r"] assms(2) by (auto simp: beyond_part_def)
next
  case (Some p)
  show ?thesis
  proof (cases "sp_missing p = 0 \<and> (sp_bytes p \<noteq> [] \<or> sp_in_message p)")
    case True
    then show ?thesis
      using getPartData_ready [OF assms(1) Some] Some assms(2) by (auto simp: beyond_part_def)
  next
    case False
    then have "data = None"
      using getPartData_abs [OF assms(1), of "rq_resid r"] Some assms(2) by (auto split: if_splits)
    then show ?thesis using False Some by (auto simp: beyond_part_def)
  qed
qed

lemma get_result_parts_loop_returned:
  assumes "get_result_parts_loop msg is srv = Inr (returned, srv')" and "ds_inv (as_dataStore srv)"
  shows "returned \<longleftrightarrow> (\<exists>i\<in>set is. \<exists>r. parts_getPart (of_nat i) msg = Inr r \<and> beyond_part (as_dataStore srv) r)"
  using assms
proof (induction "is" arbitrary: srv)
  case Nil
  then show ?case by simp
next
  case (Cons i "is")
  then obtain r data sz where r: "parts_getPart (of_nat i) msg = Inr r" "getPartData (rq_resid r) (as_dataStore srv) = Inr (data, sz)"
    by (auto simp: result_simps)
  note b = getPartData_beyond [OF Cons.prems(2) r(2)]
  show ?case
  proof (cases "beyond_part (as_dataStore srv) r")
    case True
    then show ?thesis using Cons.prems(1) r b by auto
  next
    case False
    then obtain t where "get_result_parts_loop msg is t = Inr (returned, srv')" "as_dataStore t = as_dataStore srv"
      using Cons.prems(1) r b by (auto simp: result_simps server_simps split: option.splits if_splits)
    then show ?thesis using Cons.IH [of t] Cons.prems(2) r(1) False by auto
  qed
qed

lemma handleGetResultParts_inv:
  assumes "srv_inv srv" and "handleGetResultPartsMessage msg srv = Inr srv'"
  shows "as_dataStore srv' = as_dataStore srv \<and> as_comm srv' = as_comm srv \<and>
    (as_result_store_lock srv' \<longleftrightarrow> asks_beyond (as_dataStore srv) msg)"
proof -
  let ?l = "srv\<lparr>as_result_store_lock := True\<rparr>"
  from assms obtain n returned s where n: "parts_getNparts msg = Inr n"
    "get_result_parts_loop msg [0..<nat (sint n)] ?l = Inr (returned, s)"
    and srv': "srv' = (if returned then s else unlock_results s)"
    by (auto simp: handleGetResultPartsMessage_def lock_results_eq result_simps split: if_splits)
  have "core s = core ?l" using okED [OF get_result_parts_loop_core n(2)] by simp
  moreover have "returned \<longleftrightarrow> asks_beyond (as_dataStore srv) msg"
    using get_result_parts_loop_returned [OF n(2)] assms(1) n(1) by (auto simp: srv_inv_def asks_beyond_def)
  ultimately show ?thesis using srv' by (auto simp: core_def unlock_results_def)
qed

section \<open>Any message\<close>

definition msg_ok :: "message_class \<Rightarrow> actor_message \<Rightarrow> bool" where
  "msg_ok cls msg \<longleftrightarrow> cls = StoreResult_class \<longrightarrow> (\<exists>rv. store_view msg = Inr rv)"

lemma inv_kept_route:
  assumes "srv_inv srv" and "msg_ok cls msg" and "cls \<noteq> GetResultParts_class"
  shows "inv_kept (routeHandleMessage env (cls, msg) srv)"
proof -
  note k = inv_kept_keeps [OF assms(1)] and u = srv_inv_unlocked [OF assms(1)]
  show ?thesis
    using assms(2,3)
    by (cases cls)
      (auto simp: routeHandleMessage_def msg_ok_def handleStopActorProcessMessage_def
        intro!: okE_Inr srv_inv_coreI [OF assms(1)] k [OF keeps_handleCreate] k [OF keeps_handleCall]
          k [OF keeps_handleStop] k [OF keeps_handleGetFutureData] k [OF keeps_handleReleaseFuture]
          k [OF keeps_handleDistribute] k [OF keeps_handleRegisterFuture [OF u]] k [OF keeps_handleFetch [OF u]]
        intro: inv_kept_handleStoreResult inv_kept_handleReleaseResultPart inv_kept_handleStoreResultPart
          inv_kept_handlePrefetch assms(1))
qed

section \<open>Properties\<close>

text \<open>
  Property C4: every handler that completes leaves the data store well formed, with the bytes of every
  part in the place its location names and the size it claims, and the receive buffer with the size
  the communicator believes. It also leaves the result store mutex free, in every case but one: the
  mutex is left locked exactly by a request for parts that asks for a range that ends beyond a part
  that is complete. (Of the messages only that of a result is required to be readable, \<^const>\<open>msg_ok\<close>.)
\<close>

theorem handlers_keep_invariant:
  assumes "srv_inv srv" and "msg_ok cls msg" and "routeHandleMessage env (cls, msg) srv = Inr srv'"
  shows "ds_inv (as_dataStore srv') \<and> cm_inv (as_comm srv') \<and>
    (as_result_store_lock srv' \<longleftrightarrow> cls = GetResultParts_class \<and> asks_beyond (as_dataStore srv) msg)"
proof (cases "cls = GetResultParts_class")
  case True
  then have "handleGetResultPartsMessage msg srv = Inr srv'"
    using assms(3) by (simp add: routeHandleMessage_def)
  from handleGetResultParts_inv [OF assms(1) this] show ?thesis using True assms(1) by (simp add: srv_inv_def)
next
  case False
  then show ?thesis using okED [OF inv_kept_route [OF assms(1,2) False] assms(3)] by (simp add: srv_inv_def)
qed

text \<open>An environment for concrete runs: zeroed memory, one process, the identity as serialisation.\<close>

definition plain_env :: server_env where
  "plain_env = \<lparr>se_block = (\<lambda>n. \<lparr>bl_addr = n + 1, bl_mem = \<lambda>_. 0\<rparr>), se_gather = (\<lambda>_ k. [k]),
     se_bcast = (\<lambda>_. (0, [])), se_serialize = (\<lambda>dv. dv), se_deserialize = Inr\<rparr>"

text \<open>A result is stored, which frees the mutex; then a range beyond its end is requested.\<close>

theorem handlers_keep_invariant_witness:
  "\<exists>res msg s1 s2. store_view res = Inr (3, [7, 8, 9]) \<and>
    parts_view msg = Inr (4, [\<lparr>rq_resid = 3, rq_offset = 2, rq_size = 2, rq_dst = 0\<rparr>]) \<and>
    routeHandleMessage plain_env (StoreResult_class, res)
      (ActorServer 0\<lparr>as_comm := \<lparr>cm_recv_addr = 9, cm_recv_buf = [], cm_recv_buf_size = 0\<rparr>\<rparr>) = Inr s1 \<and> srv_inv s1 \<and>
    routeHandleMessage plain_env (GetResultParts_class, msg) s1 = Inr s2 \<and> as_result_store_lock s2 \<and> \<not> srv_inv s2"
proof -
  let ?srv = "ActorServer 0\<lparr>as_comm := \<lparr>cm_recv_addr = 9, cm_recv_buf = [], cm_recv_buf_size = 0\<rparr>\<rparr>"
  let ?p = "\<lparr>sp_bytes = [7, 8, 9], sp_missing = 0, sp_in_message = True\<rparr>"
  let ?req = "\<lparr>rq_resid = 3, rq_offset = 2, rq_size = 2, rq_dst = 0\<rparr>"
  obtain buf where v: "store_view (fresh_message \<lparr>bl_addr = 9, bl_mem = \<lambda>_. 0\<rparr> buf) = Inr (3, [7, 8, 9])"
    using store_encode [of 3 "[7, 8, 9]" "\<lparr>bl_addr = 9, bl_mem = \<lambda>_. 0\<rparr>" 0] by (auto simp: store_ok_def)
  define res where "res = fresh_message \<lparr>bl_addr = 9, bl_mem = \<lambda>_. 0\<rparr> buf"
  have give: "giveBufferOwnership 9 res = Inr (res\<lparr>am_qowned := True\<rparr>)"
    by (simp add: giveBufferOwnership_def res_def fresh_message_def)
  have v': "store_view (res\<lparr>am_qowned := True\<rparr>) = Inr (3, [7, 8, 9])"
    by (rule store.view_prefix [OF v, of _ "[]"]) (simp add: res_def)
  obtain ds where ds: "storePartMessage 3 (res\<lparr>am_qowned := True\<rparr>) DataStore = Inr ds" "ds_abs ds = [3 \<mapsto> ?p]" "ds_inv ds"
    using storePartMessage_fresh [OF ds_inv_empty _ v', of 3] by auto
  obtain s1 where s1: "routeHandleMessage plain_env (StoreResult_class, res) ?srv = Inr s1" "as_dataStore s1 = ds"
    using give store_viewD [OF v'] ds(1) by (auto simp: routeHandleMessage_def handleStoreResultMessage_def giveBufferOwnershipTo_def
        lock_results_def ActorServer_def tick_def checkDvPartRequired_def cond_broadcast_def unlock_results_def)
  have "srv_inv ?srv" "msg_ok StoreResult_class res"
    using v by (simp_all add: srv_inv_def ActorServer_def cm_inv_def msg_ok_def res_def)
  from handlers_keep_invariant [OF this s1(1)] have inv: "srv_inv s1" by (simp add: srv_inv_def)
  obtain buf2 where msg: "parts_view (fresh_message \<lparr>bl_addr = 1, bl_mem = \<lambda>_. 0\<rparr> buf2) = Inr (4, [?req])"
    using parts_encode [of 4 "[?req]" "\<lparr>bl_addr = 1, bl_mem = \<lambda>_. 0\<rparr>"] by (auto simp: parts_ok_def)
  define req where "req = fresh_message \<lparr>bl_addr = 1, bl_mem = \<lambda>_. 0\<rparr> buf2"
  obtain n where n: "parts_getNparts req = Inr n" "nat (sint n) = 1" "parts_getPart 0 req = Inr ?req"
    using parts_viewD(2) [OF msg] parts_viewD(3) [OF msg, of 0] by (auto simp: req_def)
  obtain rest where "getPartData 3 ds = Inr (Some ([7, 8, 9] @ rest), 3)"
    using getPartData_ready [OF ds(3), of 3 ?p] ds(2) by auto
  then obtain s2 where s2: "routeHandleMessage plain_env (GetResultParts_class, req) s1 = Inr s2"
    using inv n s1(2) by (simp add: routeHandleMessage_def handleGetResultPartsMessage_def lock_results_def srv_inv_def)
  have "asks_beyond (as_dataStore s1) req"
    using n s1(2) ds(2) by (auto simp: asks_beyond_def beyond_part_def intro!: exI [of _ 0])
  with handlers_keep_invariant [OF inv _ s2] have "as_result_store_lock s2" by (simp add: msg_ok_def)
  then show ?thesis using v msg s1(1) inv s2 by (intro exI conjI) (auto simp: res_def req_def srv_inv_def)
qed

text \<open>
  Property C37: a request for bytes beyond the end of a complete part is refused, but the handler
  returns without unlocking the result store mutex. From then on the management thread deadlocks
  on the first message that stores, requests or releases a part.
\<close>

theorem out_of_bounds_request_leaks_lock:
  assumes "srv_inv srv" and "parts_view msg = Inr (fwd, [req])"
    and "ds_abs (as_dataStore srv) (rq_resid req) = Some p" and "sp_missing p = 0" and "sp_bytes p \<noteq> []"
    and "length (sp_bytes p) < unat (rq_offset req + rq_size req)"
  shows "\<exists>srv'. handleGetResultPartsMessage msg srv = Inr srv' \<and> as_result_store_lock srv' \<and>
    as_sent srv' = as_sent srv \<and>
    (\<forall>m. handleGetResultPartsMessage m srv' = Inl Deadlock) \<and>
    (\<forall>m r. relpart_getResId m = Inr r \<longrightarrow> handleReleaseResultPartMessage m srv' = Inl Deadlock) \<and>
    (\<forall>m. handleStoreResultPartMessage m srv' = Inl Deadlock) \<and>
    (\<forall>m env. am_addr m = cm_recv_addr (as_comm srv') \<longrightarrow> handleStoreResultMessage env m srv' = Inl Deadlock)"
proof -
  obtain n where n: "parts_getNparts msg = Inr n" "nat (sint n) = 1"
    using parts_viewD(2) [OF assms(2)] by auto
  have part: "parts_getPart 0 msg = Inr req" using parts_viewD(3) [OF assms(2), of 0] by simp
  obtain rest where data: "getPartData (rq_resid req) (as_dataStore srv) = Inr (Some (sp_bytes p @ rest), of_nat (length (sp_bytes p)))"
    using getPartData_ready [of "as_dataStore srv" "rq_resid req" p] assms(1,3-5) by (auto simp: srv_inv_def)
  have "length (sp_bytes p) < 2 ^ 64"
    by (rule less_trans [OF assms(6)]) simp
  then have big: "of_nat (length (sp_bytes p)) < rq_offset req + rq_size req"
    using assms(6) by (simp add: word_less_nat_alt)
  let ?srv' = "srv\<lparr>as_result_store_lock := True\<rparr>"
  have "handleGetResultPartsMessage msg srv = Inr ?srv'"
    using assms(1) n part data big
    by (simp add: handleGetResultPartsMessage_def lock_results_def srv_inv_def)
  then show ?thesis
    by (intro exI [of _ ?srv'])
      (auto simp: handleGetResultPartsMessage_def handleReleaseResultPartMessage_def
        handleStoreResultPartMessage_def handleStoreResultMessage_def lock_results_def
        giveBufferOwnershipTo_def giveBufferOwnership_def tick_def)
qed

text \<open>A server that holds one part, for concrete runs.\<close>

lemma one_part_server:
  assumes "v \<noteq> []" and "length v < 2 ^ 64"
  shows "\<exists>ds. storePartVector 3 v DataStore = Inr ds \<and> srv_inv (ActorServer 0\<lparr>as_dataStore := ds\<rparr>) \<and>
    ds_abs ds = [3 \<mapsto> \<lparr>sp_bytes = v, sp_missing = 0, sp_in_message = False\<rparr>]"
  using storePartVector_fresh [of DataStore 3 v] assms
  by (auto simp: srv_inv_def ActorServer_def cm_inv_def MPIActorCommunicator_def)

theorem out_of_bounds_request_leaks_lock_witness:
  "\<exists>ds msg srv'. storePartVector 3 [7, 8] DataStore = Inr ds \<and>
    parts_view msg = Inr (1, [\<lparr>rq_resid = 3, rq_offset = 1, rq_size = 2, rq_dst = 0\<rparr>]) \<and>
    handleGetResultPartsMessage msg (ActorServer 0\<lparr>as_dataStore := ds\<rparr>) = Inr srv' \<and>
    as_result_store_lock srv' \<and> handleGetResultPartsMessage msg srv' = Inl Deadlock"
proof -
  let ?req = "\<lparr>rq_resid = 3, rq_offset = 1, rq_size = 2, rq_dst = 0\<rparr>"
  obtain ds where ds: "storePartVector 3 [7, 8] DataStore = Inr ds" "srv_inv (ActorServer 0\<lparr>as_dataStore := ds\<rparr>)"
    "ds_abs ds = [3 \<mapsto> \<lparr>sp_bytes = [7, 8], sp_missing = 0, sp_in_message = False\<rparr>]"
    using one_part_server [of "[7, 8]"] by auto
  obtain buf where msg: "parts_view (fresh_message \<lparr>bl_addr = 1, bl_mem = \<lambda>_. 0\<rparr> buf) = Inr (1, [?req])"
    using parts_encode [of 1 "[?req]" "\<lparr>bl_addr = 1, bl_mem = \<lambda>_. 0\<rparr>"] by (auto simp: parts_ok_def)
  show ?thesis
    using out_of_bounds_request_leaks_lock [OF ds(2) msg, of "\<lparr>sp_bytes = [7, 8], sp_missing = 0, sp_in_message = False\<rparr>"]
      ds(1,3) msg by auto
qed

definition results_owned :: "actor_server \<Rightarrow> bool" where
  "results_owned srv \<longleftrightarrow> (\<forall>key m. ds_result_msg_store (as_dataStore srv) key = Some m \<longrightarrow>
     am_qowned m \<and> am_addr m \<noteq> cm_recv_addr (as_comm srv))"

text \<open>
  A stored result never shares its buffer with the receive buffer. Storing a result
  message that was received into the receive buffer hands that buffer to the message and gives the
  communicator a new one, so later messages cannot overwrite the result; the block \<^verbatim>\<open>new\<close> returns
  is only assumed to differ from the blocks that are in use.
\<close>

theorem stored_results_own_their_buffer:
  assumes "results_owned srv" and "srv_inv srv"
    and "handleStoreResultMessage env msg srv = Inr srv'"
    and "bl_addr (se_block env (as_tick srv)) \<noteq> cm_recv_addr (as_comm srv)"
    and "\<forall>key m. ds_result_msg_store (as_dataStore srv) key = Some m \<longrightarrow> am_addr m \<noteq> bl_addr (se_block env (as_tick srv))"
  shows "results_owned srv'"
proof -
  obtain m cm srv1 resid ds where
    give: "giveBufferOwnershipTo (se_block env (as_tick srv)) msg (as_comm srv) = Inr (m, cm)"
    and lock: "lock_results (tick srv\<lparr>as_comm := cm\<rparr>) = Inr srv1"
    and store: "storePartMessage resid m (as_dataStore srv1) = Inr ds"
    and check: "checkDvPartRequired resid (unlock_results (cond_broadcast (srv1\<lparr>as_dataStore := ds\<rparr>))) = Inr srv'"
    using assms(3) by (auto simp: handleStoreResultMessage_def result_simps)
  have "core srv' = core (unlock_results (cond_broadcast (srv1\<lparr>as_dataStore := ds\<rparr>)))"
    using checkDvPartRequired_core [OF check] by (simp add: unlock_results_def)
  then have srv': "as_dataStore srv' = ds" "as_comm srv' = cm"
    using lock by (auto simp: core_def unlock_results_def cond_broadcast_def lock_results_eq)
  have m: "am_qowned m" "am_addr m = cm_recv_addr (as_comm srv)" and cm: "cm_recv_addr cm = bl_addr (se_block env (as_tick srv))"
    using give by (auto simp: giveBufferOwnershipTo_def giveBufferOwnership_def result_simps)
  have "ds_result_msg_store ds = map_insert resid m (ds_result_msg_store (as_dataStore srv))"
    using store lock by (auto simp: storePartMessage_def ds_acquire_def ds_release_def result_simps
        lock_results_eq tick_def Let_def split: if_splits)
  then show ?thesis
    using assms(1,4,5) m cm srv' by (auto simp: results_owned_def map_insert_def split: option.splits if_splits)
qed

theorem stored_results_own_their_buffer_witness:
  "\<exists>msg srv'. handleStoreResultMessage plain_env msg
      (ActorServer 0\<lparr>as_comm := \<lparr>cm_recv_addr = 9, cm_recv_buf = [], cm_recv_buf_size = 0\<rparr>\<rparr>) = Inr srv' \<and>
    ds_abs (as_dataStore srv') 3 \<noteq> None \<and> results_owned srv'"
proof -
  let ?srv = "ActorServer 0\<lparr>as_comm := \<lparr>cm_recv_addr = 9, cm_recv_buf = [], cm_recv_buf_size = 0\<rparr>\<rparr>"
  obtain buf where v: "store_view (fresh_message \<lparr>bl_addr = 9, bl_mem = \<lambda>_. 0\<rparr> buf) = Inr (3, [7])"
    using store_encode [of 3 "[7]" "\<lparr>bl_addr = 9, bl_mem = \<lambda>_. 0\<rparr>" 0] by (auto simp: store_ok_def)
  define msg where "msg = fresh_message \<lparr>bl_addr = 9, bl_mem = \<lambda>_. 0\<rparr> buf"
  have give: "giveBufferOwnership 9 msg = Inr (msg\<lparr>am_qowned := True\<rparr>)"
    by (simp add: giveBufferOwnership_def msg_def fresh_message_def)
  have v': "store_view (msg\<lparr>am_qowned := True\<rparr>) = Inr (3, [7])"
    by (rule store.view_prefix [OF v, of _ "[]"]) (simp add: msg_def)
  then have r: "store_getResId (msg\<lparr>am_qowned := True\<rparr>) = Inr 3" by (rule store_viewD)
  obtain ds where ds: "storePartMessage 3 (msg\<lparr>am_qowned := True\<rparr>) DataStore = Inr ds"
    "ds_abs ds = [3 \<mapsto> \<lparr>sp_bytes = [7], sp_missing = 0, sp_in_message = True\<rparr>]" "ds_inv ds"
    using storePartMessage_fresh [OF ds_inv_empty _ v', of 3] by auto
  obtain srv' where h: "handleStoreResultMessage plain_env msg ?srv = Inr srv'" and "as_dataStore srv' = ds"
    using give r ds(1) by (auto simp: handleStoreResultMessage_def giveBufferOwnershipTo_def lock_results_def
        ActorServer_def tick_def checkDvPartRequired_def cond_broadcast_def unlock_results_def)
  moreover have "ds_result_msg_store DataStore = Map.empty" by (simp add: DataStore_def)
  then have "results_owned srv'"
    using stored_results_own_their_buffer [OF _ _ h]
    by (simp add: results_owned_def ActorServer_def srv_inv_def cm_inv_def plain_env_def)
  ultimately show ?thesis using ds(2) by (intro exI [of _ msg] exI [of _ srv']) simp
qed

end
