(* ===== verification/Server_Parts.thy ===== *)
theory Server_Parts
  imports Server_Invariant
begin

text \<open>
  How the management thread serves parts of results: requests for parts that are there are
  answered at once and in order; requests for parts that are not there yet are remembered and
  answered when the part is stored or complete. Two weaknesses of the code are proved as well:
  answers can overtake each other, and remembered requests are never forgotten.
\<close>

section \<open>The answer to a request\<close>

definition part_slice :: "stored_part \<Rightarrow> size_t \<Rightarrow> size_t \<Rightarrow> byte list" where
  "part_slice p off sz = peek (unat off) (unat sz) (sp_bytes p)"

definition part_message :: "c_int \<Rightarrow> byte list \<Rightarrow> mpi_message" where
  "part_message dst bs = \<lparr>mm_dst = dst, mm_tag = ABSP_MPI_WORKER_THREAD_TAG, mm_bytes = bs\<rparr>"

text \<open>A complete part that can be handed out, and a range inside it that \<^verbatim>\<open>int\<close> can express.\<close>

definition part_ready :: "stored_part \<Rightarrow> bool" where
  "part_ready p \<longleftrightarrow> sp_missing p = 0 \<and> (sp_bytes p \<noteq> [] \<or> sp_in_message p)"

definition in_part :: "stored_part \<Rightarrow> size_t \<Rightarrow> size_t \<Rightarrow> bool" where
  "in_part p off sz \<longleftrightarrow> unat off + unat sz \<le> length (sp_bytes p) \<and> length (sp_bytes p) < 2 ^ 64 \<and> unat sz < 2 ^ 31"

lemma send_slice:
  assumes "in_part p off sz"
  shows "sendResultPart dst (drop (unat off) (sp_bytes p @ rest)) (ucast sz) = Inr (part_message dst (part_slice p off sz))"
proof -
  have sz: "(ucast sz :: c_int) = of_nat (unat sz)"
    by simp
  have "take (unat sz) (drop (unat off) (sp_bytes p @ rest)) = part_slice p off sz"
    using assms by (simp add: part_slice_def in_part_def peek_def)
  moreover have "unat sz \<le> length (drop (unat off) (sp_bytes p @ rest))"
    using assms by (auto simp: in_part_def)
  ultimately show ?thesis
    using assms sendResultPart_eq [of "unat sz" "drop (unat off) (sp_bytes p @ rest)" dst]
    by (simp only: sz part_message_def in_part_def)
qed

lemma bounds_check:
  assumes "in_part p off sz"
  shows "\<not> of_nat (length (sp_bytes p)) < off + sz"
proof -
  have "unat (off + sz) = unat off + unat sz"
    using assms by (intro unat_size_add) (simp add: in_part_def)
  moreover have "unat (of_nat (length (sp_bytes p)) :: size_t) = length (sp_bytes p)"
    using assms by (simp add: in_part_def)
  ultimately show ?thesis using assms unfolding word_less_nat_alt in_part_def by linarith
qed

section \<open>Requests that can be answered\<close>

definition req_ready :: "data_store \<Rightarrow> result_req_part \<Rightarrow> bool" where
  "req_ready ds r = (case ds_abs ds (rq_resid r) of None \<Rightarrow> False
     | Some p \<Rightarrow> part_ready p \<and> in_part p (rq_offset r) (rq_size r))"

definition req_bytes_of :: "data_store \<Rightarrow> result_req_part \<Rightarrow> byte list" where
  "req_bytes_of ds r = (case ds_abs ds (rq_resid r) of None \<Rightarrow> []
     | Some p \<Rightarrow> part_slice p (rq_offset r) (rq_size r))"

lemma loop_ready:
  assumes "ds_inv (as_dataStore srv)" and "parts_getForwardTo msg = Inr fwd"
    and "\<And>i. i \<in> set is \<Longrightarrow> parts_getPart (of_nat i) msg = Inr (r i) \<and> req_ready (as_dataStore srv) (r i)"
  shows "get_result_parts_loop msg is srv =
    Inr (False, srv\<lparr>as_sent := as_sent srv @ map (\<lambda>i. part_message fwd (req_bytes_of (as_dataStore srv) (r i))) is\<rparr>)"
  using assms
proof (induction "is" arbitrary: srv)
  case Nil
  then show ?case by simp
next
  case (Cons i "is")
  obtain p where p: "ds_abs (as_dataStore srv) (rq_resid (r i)) = Some p" "part_ready p"
    "in_part p (rq_offset (r i)) (rq_size (r i))"
    using Cons.prems(3) [of i] by (auto simp: req_ready_def split: option.splits)
  obtain rest where d: "getPartData (rq_resid (r i)) (as_dataStore srv) = Inr (Some (sp_bytes p @ rest), of_nat (length (sp_bytes p)))"
    using getPartData_ready [OF Cons.prems(1) p(1)] p(2) by (auto simp: part_ready_def)
  have b: "req_bytes_of (as_dataStore srv) (r i) = part_slice p (rq_offset (r i)) (rq_size (r i))"
    using p(1) by (simp add: req_bytes_of_def)
  let ?srv1 = "srv\<lparr>as_sent := as_sent srv @ [part_message fwd (part_slice p (rq_offset (r i)) (rq_size (r i)))]\<rparr>"
  have "get_result_parts_loop msg (i # is) srv = get_result_parts_loop msg is ?srv1"
    using Cons.prems(2,3) d bounds_check [OF p(3)] send_slice [OF p(3), of fwd rest]
    by (simp del: drop_append)
  then show ?case using Cons.IH [of ?srv1] Cons.prems b by simp
qed

lemma get_result_parts_loop_append:
  "get_result_parts_loop msg is srv = Inr (False, srv') \<Longrightarrow>
    get_result_parts_loop msg (is @ js) srv = get_result_parts_loop msg js srv'"
  by (induction "is" arbitrary: srv) (auto simp: result_simps split: option.splits if_splits)

lemma serve_ready:
  assumes "srv_inv srv" and "parts_view msg = Inr (fwd, rs)" and "\<forall>r\<in>set rs. req_ready (as_dataStore srv) r"
  shows "handleGetResultPartsMessage msg srv =
    Inr (srv\<lparr>as_sent := as_sent srv @ map (\<lambda>r. part_message fwd (req_bytes_of (as_dataStore srv) r)) rs\<rparr>)"
proof -
  obtain n where n: "parts_getNparts msg = Inr n" "nat (sint n) = length rs"
    using parts_viewD(2) [OF assms(2)] by auto
  let ?srv1 = "srv\<lparr>as_result_store_lock := True\<rparr>"
  have "get_result_parts_loop msg [0..<length rs] ?srv1 = Inr (False, ?srv1\<lparr>as_sent :=
      as_sent ?srv1 @ map (\<lambda>i. part_message fwd (req_bytes_of (as_dataStore ?srv1) (rs ! i))) [0..<length rs]\<rparr>)"
    using assms parts_viewD(1,3) [OF assms(2)] by (intro loop_ready) (auto simp: srv_inv_def)
  moreover have "map (\<lambda>i. part_message fwd (req_bytes_of (as_dataStore srv) (rs ! i))) [0..<length rs]
      = map (\<lambda>r. part_message fwd (req_bytes_of (as_dataStore srv) r)) rs"
    by (rule nth_equalityI) simp_all
  ultimately show ?thesis
    using assms(1) n by (simp add: handleGetResultPartsMessage_def lock_results_def srv_inv_def unlock_results_def)
qed

section \<open>Requests for parts that are not there\<close>

definition remember :: "c_int \<Rightarrow> result_req_part \<Rightarrow> (c_int \<rightharpoonup> pending_result_request list) \<Rightarrow> (c_int \<rightharpoonup> pending_result_request list)" where
  "remember src r = push_back (rq_resid r) \<lparr>pr_offset = rq_offset r, pr_size = rq_size r, pr_dst = src\<rparr>"

lemma loop_absent:
  assumes "ds_inv (as_dataStore srv)"
    and "\<And>i. i \<in> set is \<Longrightarrow> parts_getPart (of_nat i) msg = Inr (r i) \<and>
      getPartData (rq_resid (r i)) (as_dataStore srv) = Inr (None, 0)"
  shows "get_result_parts_loop msg is srv =
    Inr (False, srv\<lparr>as_pendingResultRequests := fold (\<lambda>i. remember (am_src msg) (r i)) is (as_pendingResultRequests srv)\<rparr>)"
  using assms by (induction "is" arbitrary: srv) (simp_all add: remember_def)

lemma checkDvPartRequired_ready:
  assumes "srv_inv srv" and "as_pendingResultRequests srv key = Some reqs"
    and "ds_abs (as_dataStore srv) key = Some p" and "part_ready p"
    and "\<forall>q\<in>set reqs. in_part p (pr_offset q) (pr_size q)"
  shows "checkDvPartRequired key srv =
    Inr (srv\<lparr>as_sent := as_sent srv @ map (\<lambda>q. part_message (pr_dst q) (part_slice p (pr_offset q) (pr_size q))) reqs\<rparr>)"
proof -
  obtain rest where d: "getPartData key (as_dataStore srv) = Inr (Some (sp_bytes p @ rest), of_nat (length (sp_bytes p)))"
    using getPartData_ready [OF _ assms(3)] assms(1,4) by (auto simp: part_ready_def srv_inv_def)
  have "foldE (answer_pending key) qs s =
      Inr (s\<lparr>as_sent := as_sent s @ map (\<lambda>q. part_message (pr_dst q) (part_slice p (pr_offset q) (pr_size q))) qs\<rparr>)"
    if "as_dataStore s = as_dataStore srv" "\<forall>q\<in>set qs. in_part p (pr_offset q) (pr_size q)" for qs s
    using that by (induction qs arbitrary: s) (simp_all add: answer_pending_def d send_slice del: drop_append)
  then show ?thesis
    using assms(1,2,5) by (simp add: checkDvPartRequired_def lock_results_def srv_inv_def unlock_results_def)
qed

text \<open>Requests for one part only: they are queued under its key in order.\<close>

lemma fold_remember:
  assumes "\<forall>r\<in>set rs. rq_resid r = key"
  shows "rs \<noteq> [] \<Longrightarrow> fold (remember src) rs m = m(key \<mapsto> (case m key of None \<Rightarrow> [] | Some qs \<Rightarrow> qs) @
    map (\<lambda>r. \<lparr>pr_offset = rq_offset r, pr_size = rq_size r, pr_dst = src\<rparr>) rs)"
  using assms
proof (induction rs arbitrary: m)
  case Nil
  then show ?case by simp
next
  case (Cons r rs)
  then show ?case
    by (cases "rs = []") (auto simp: remember_def push_back_def fun_eq_iff)
qed

abbreviation pending_for :: "c_int \<Rightarrow> actor_server \<Rightarrow> pending_result_request list" where
  "pending_for key srv \<equiv> (case as_pendingResultRequests srv key of None \<Rightarrow> [] | Some qs \<Rightarrow> qs)"

lemma request_absent:
  assumes "srv_inv srv" and "ds_abs (as_dataStore srv) key = None"
    and "parts_view msg = Inr (fwd, rs)" and "rs \<noteq> []" and "\<forall>r\<in>set rs. rq_resid r = key"
  shows "handleGetResultPartsMessage msg srv = Inr (srv\<lparr>as_pendingResultRequests := (as_pendingResultRequests srv)(key \<mapsto>
    pending_for key srv @ map (\<lambda>r. \<lparr>pr_offset = rq_offset r, pr_size = rq_size r, pr_dst = am_src msg\<rparr>) rs)\<rparr>)"
proof -
  obtain n where n: "parts_getNparts msg = Inr n" "nat (sint n) = length rs"
    using parts_viewD(2) [OF assms(3)] by auto
  have inv: "ds_inv (as_dataStore srv)" using assms(1) by (simp add: srv_inv_def)
  let ?srv1 = "srv\<lparr>as_result_store_lock := True\<rparr>"
  have "get_result_parts_loop msg [0..<length rs] ?srv1 = Inr (False, ?srv1\<lparr>as_pendingResultRequests :=
      fold (\<lambda>i. remember (am_src msg) (rs ! i)) [0..<length rs] (as_pendingResultRequests ?srv1)\<rparr>)"
    using assms(2,5) inv parts_viewD(3) [OF assms(3)] by (intro loop_absent) (auto simp: getPartData_unknown)
  moreover have "fold (\<lambda>i. remember (am_src msg) (rs ! i)) [0..<length rs] =
      fold (remember (am_src msg)) (map ((!) rs) [0..<length rs])"
    by (simp add: fold_map comp_def)
  ultimately show ?thesis
    using assms(1) n fold_remember [OF assms(5,4), of "am_src msg" "as_pendingResultRequests srv"]
    by (simp add: handleGetResultPartsMessage_def lock_results_def srv_inv_def unlock_results_def map_nth)
qed

text \<open>Storing a result answers what is pending for it (nothing, for the empty list).\<close>

lemma store_answers:
  assumes "srv_inv srv" and "ds_abs (as_dataStore srv) key = None" and "store_view res = Inr (key, v)"
    and "pending_for key srv = reqs"
    and "am_addr res = cm_recv_addr (as_comm srv)"
    and "\<forall>q\<in>set reqs. in_part \<lparr>sp_bytes = v, sp_missing = 0, sp_in_message = True\<rparr> (pr_offset q) (pr_size q)"
  shows "\<exists>t. handleStoreResultMessage env res srv = Inr t \<and> srv_inv t \<and>
    as_sent t = as_sent srv @ map (\<lambda>q. part_message (pr_dst q)
      (part_slice \<lparr>sp_bytes = v, sp_missing = 0, sp_in_message = True\<rparr> (pr_offset q) (pr_size q))) reqs \<and>
    as_pendingResultRequests t = as_pendingResultRequests srv \<and>
    ds_abs (as_dataStore t) = (ds_abs (as_dataStore srv))(key \<mapsto> \<lparr>sp_bytes = v, sp_missing = 0, sp_in_message = True\<rparr>)"
proof -
  let ?p = "\<lparr>sp_bytes = v, sp_missing = 0, sp_in_message = True\<rparr>"
  let ?m = "res\<lparr>am_qowned := True\<rparr>"
  have view: "store_view ?m = Inr (key, v)" by (rule store.view_prefix [OF assms(3), of _ "[]"]) simp
  obtain ds where ds: "storePartMessage key ?m (as_dataStore srv) = Inr ds" "ds_inv ds"
    "ds_abs ds = (ds_abs (as_dataStore srv))(key \<mapsto> ?p)"
    using storePartMessage_fresh [OF _ assms(2) view] assms(1) by (auto simp: srv_inv_def)
  define cm where "cm = (as_comm srv)\<lparr>cm_recv_addr := bl_addr (se_block env (as_tick srv)),
    cm_recv_buf := replicate (unat (cm_recv_buf_size (as_comm srv))) 0\<rparr>"
  define t0 where "t0 = srv\<lparr>as_tick := as_tick srv + 1, as_comm := cm, as_dataStore := ds,
    as_cv_broadcasts := as_cv_broadcasts srv + 1, as_result_store_lock := False\<rparr>"
  have h: "handleStoreResultMessage env res srv = checkDvPartRequired key t0"
    using assms(1,5) ds(1) store_viewD [OF view]
    by (simp add: handleStoreResultMessage_def giveBufferOwnershipTo_def giveBufferOwnership_def lock_results_def
        srv_inv_def tick_def unlock_results_def cond_broadcast_def t0_def cm_def)
  have inv0: "srv_inv t0" using assms(1) ds(2) by (simp add: t0_def srv_inv_def cm_inv_def cm_def)
  show ?thesis
  proof (cases "as_pendingResultRequests srv key")
    case None
    then show ?thesis using h inv0 assms(4) ds(3) by (auto simp: checkDvPartRequired_def t0_def)
  next
    case (Some qs)
    then have "checkDvPartRequired key t0 = Inr (t0\<lparr>as_sent := as_sent t0 @ map (\<lambda>q. part_message (pr_dst q)
        (part_slice ?p (pr_offset q) (pr_size q))) reqs\<rparr>)"
      using inv0 assms(4,6) ds(3) by (intro checkDvPartRequired_ready) (auto simp: t0_def part_ready_def)
    then show ?thesis
      using h inv0 ds(3) by (auto simp: t0_def srv_inv_def)
  qed
qed

section \<open>Properties\<close>

text \<open>
  Property C5: a request for parts of results that are complete, with every range inside its part, is
  answered at once: one message per requested part, in the order of the request, to the process
  the request names, with exactly the requested bytes; nothing else of the server changes.
\<close>

theorem ready_parts_are_sent:
  assumes "srv_inv srv" and "parts_view msg = Inr (fwd, rs)"
    and "\<forall>r\<in>set rs. \<exists>p. ds_abs (as_dataStore srv) (rq_resid r) = Some p \<and> part_ready p \<and>
      in_part p (rq_offset r) (rq_size r)"
  shows "handleGetResultPartsMessage msg srv =
    Inr (srv\<lparr>as_sent := as_sent srv @ map (\<lambda>r. \<lparr>mm_dst = fwd, mm_tag = ABSP_MPI_WORKER_THREAD_TAG,
      mm_bytes = peek (unat (rq_offset r)) (unat (rq_size r)) (sp_bytes (the (ds_abs (as_dataStore srv) (rq_resid r))))\<rparr>) rs\<rparr>)"
proof -
  have "\<forall>r\<in>set rs. req_ready (as_dataStore srv) r" using assms(3) by (auto simp: req_ready_def)
  moreover have "map (\<lambda>r. part_message fwd (req_bytes_of (as_dataStore srv) r)) rs = map (\<lambda>r. \<lparr>mm_dst = fwd,
      mm_tag = ABSP_MPI_WORKER_THREAD_TAG, mm_bytes = peek (unat (rq_offset r)) (unat (rq_size r))
      (sp_bytes (the (ds_abs (as_dataStore srv) (rq_resid r))))\<rparr>) rs"
    using assms(3) by (auto simp: part_message_def req_bytes_of_def part_slice_def)
  ultimately show ?thesis using serve_ready [OF assms(1,2)] by simp
qed

theorem ready_parts_are_sent_witness:
  "\<exists>ds msg srv'. storePartVector 3 [7, 8, 9] DataStore = Inr ds \<and>
    parts_view msg = Inr (4, [\<lparr>rq_resid = 3, rq_offset = 1, rq_size = 2, rq_dst = 0\<rparr>]) \<and>
    handleGetResultPartsMessage msg (ActorServer 0\<lparr>as_dataStore := ds\<rparr>) = Inr srv' \<and>
    map mm_bytes (as_sent srv') = [[8, 9]]"
proof -
  let ?req = "\<lparr>rq_resid = 3, rq_offset = 1, rq_size = 2, rq_dst = 0\<rparr>"
  obtain ds where ds: "storePartVector 3 [7, 8, 9] DataStore = Inr ds" "srv_inv (ActorServer 0\<lparr>as_dataStore := ds\<rparr>)"
    "ds_abs ds = [3 \<mapsto> \<lparr>sp_bytes = [7, 8, 9], sp_missing = 0, sp_in_message = False\<rparr>]"
    using one_part_server [of "[7, 8, 9]"] by auto
  obtain buf where msg: "parts_view (fresh_message \<lparr>bl_addr = 1, bl_mem = \<lambda>_. 0\<rparr> buf) = Inr (4, [?req])"
    using parts_encode [of 4 "[?req]" "\<lparr>bl_addr = 1, bl_mem = \<lambda>_. 0\<rparr>"] by (auto simp: parts_ok_def)
  have "handleGetResultPartsMessage (fresh_message \<lparr>bl_addr = 1, bl_mem = \<lambda>_. 0\<rparr> buf) (ActorServer 0\<lparr>as_dataStore := ds\<rparr>) =
      Inr (ActorServer 0\<lparr>as_dataStore := ds, as_sent := [\<lparr>mm_dst = 4, mm_tag = ABSP_MPI_WORKER_THREAD_TAG, mm_bytes = [8, 9]\<rparr>]\<rparr>)"
    using ready_parts_are_sent [OF ds(2) msg] ds(3)
    by (simp add: part_ready_def in_part_def peek_def ActorServer_def)
  then show ?thesis using ds(1) msg by (intro exI conjI) auto
qed

text \<open>
  Property C6: a request for ranges of one result that arrives before the result is stored is
  remembered, behind the requests already waiting for it, and is answered when the result arrives in
  a message: with one message per range, in the order of the request, with exactly the bytes the
  same request gets when it arrives after the result. Only the addressee can differ: the early
  request is answered to the process that sent it, the late one to the process it names, so the
  messages sent are the same exactly when a process asks on its own behalf. All ranges lie inside
  the result.
\<close>

theorem early_request_same_answer:
  assumes "srv_inv srv" and "ds_abs (as_dataStore srv) key = None"
    and "parts_view msg = Inr (fwd, rs)" and "rs \<noteq> []" and "\<forall>r\<in>set rs. rq_resid r = key"
    and "store_view res = Inr (key, v)" and "am_addr res = cm_recv_addr (as_comm srv)"
    and "\<forall>r\<in>set rs. unat (rq_offset r) + unat (rq_size r) \<le> length v \<and> unat (rq_size r) < 2 ^ 31"
    and "\<forall>q\<in>set (pending_for key srv). unat (pr_offset q) + unat (pr_size q) \<le> length v \<and> unat (pr_size q) < 2 ^ 31"
    and "length v < 2 ^ 64"
  shows "\<exists>s1 s2 t1 t2 before. handleGetResultPartsMessage msg srv = Inr s1 \<and> handleStoreResultMessage env res s1 = Inr s2 \<and>
    handleStoreResultMessage env res srv = Inr t1 \<and> handleGetResultPartsMessage msg t1 = Inr t2 \<and>
    before = as_sent srv @ map (\<lambda>q. \<lparr>mm_dst = pr_dst q, mm_tag = ABSP_MPI_WORKER_THREAD_TAG,
      mm_bytes = peek (unat (pr_offset q)) (unat (pr_size q)) v\<rparr>) (pending_for key srv) \<and>
    as_sent s2 = before @ map (\<lambda>r. \<lparr>mm_dst = am_src msg, mm_tag = ABSP_MPI_WORKER_THREAD_TAG,
      mm_bytes = peek (unat (rq_offset r)) (unat (rq_size r)) v\<rparr>) rs \<and>
    as_sent t2 = before @ map (\<lambda>r. \<lparr>mm_dst = fwd, mm_tag = ABSP_MPI_WORKER_THREAD_TAG,
      mm_bytes = peek (unat (rq_offset r)) (unat (rq_size r)) v\<rparr>) rs \<and>
    (as_sent s2 = as_sent t2 \<longleftrightarrow> fwd = am_src msg)"
proof -
  let ?p = "\<lparr>sp_bytes = v, sp_missing = 0, sp_in_message = True\<rparr>"
  let ?new = "map (\<lambda>r. \<lparr>pr_offset = rq_offset r, pr_size = rq_size r, pr_dst = am_src msg\<rparr>) rs"
  let ?ans = "\<lambda>q. part_message (pr_dst q) (part_slice ?p (pr_offset q) (pr_size q))"
  let ?out = "\<lambda>d. map (\<lambda>r. \<lparr>mm_dst = d, mm_tag = ABSP_MPI_WORKER_THREAD_TAG,
      mm_bytes = peek (unat (rq_offset r)) (unat (rq_size r)) v\<rparr>) rs"
  define before where "before = as_sent srv @ map ?ans (pending_for key srv)"
  define s1 where "s1 = srv\<lparr>as_pendingResultRequests := (as_pendingResultRequests srv)(key \<mapsto> pending_for key srv @ ?new)\<rparr>"
  have in_p: "\<forall>r\<in>set rs. in_part ?p (rq_offset r) (rq_size r)" "\<forall>q\<in>set (pending_for key srv). in_part ?p (pr_offset q) (pr_size q)"
    using assms(8-10) by (simp_all add: in_part_def)
  have h1: "handleGetResultPartsMessage msg srv = Inr s1" using request_absent [OF assms(1-5)] by (simp add: s1_def)
  have "srv_inv s1" "ds_abs (as_dataStore s1) key = None" "pending_for key s1 = pending_for key srv @ ?new"
    "am_addr res = cm_recv_addr (as_comm s1)" "as_sent s1 = as_sent srv" using assms(1,2,7) by (simp_all add: s1_def srv_inv_def)
  note f = this
  have "\<forall>q\<in>set (pending_for key srv @ ?new). in_part ?p (pr_offset q) (pr_size q)" using in_p by auto
  from store_answers [OF f(1,2) assms(6) f(3,4) this, of env]
  obtain s2 where s2: "handleStoreResultMessage env res s1 = Inr s2"
    "as_sent s2 = as_sent s1 @ map ?ans (pending_for key srv @ ?new)" by blast
  then have sent2: "as_sent s2 = before @ map ?ans ?new" by (simp only: f(5) before_def map_append append_assoc)
  obtain t1 where t1: "handleStoreResultMessage env res srv = Inr t1" "srv_inv t1" "as_sent t1 = before"
      "ds_abs (as_dataStore t1) key = Some ?p"
    using store_answers [OF assms(1,2,6) refl assms(7) in_p(2), of env] unfolding before_def by (metis fun_upd_same)
  have "\<forall>r\<in>set rs. req_ready (as_dataStore t1) r"
    using in_p(1) assms(5) t1(4) by (simp add: req_ready_def part_ready_def)
  then obtain t2 where t2: "handleGetResultPartsMessage msg t1 = Inr t2" "as_sent t2 = before @ ?out fwd"
    using serve_ready [OF t1(2) assms(3)] assms(5) t1(3,4)
    by (auto simp: part_message_def req_bytes_of_def part_slice_def)
  have out: "map ?ans ?new = ?out (am_src msg)" by (simp add: part_message_def part_slice_def)
  moreover have "?out (am_src msg) = ?out fwd \<longleftrightarrow> fwd = am_src msg" using assms(4) by (cases rs) auto
  ultimately show ?thesis
    using h1 s2(1) sent2 t1(1) t2 by (intro exI [of _ s1] exI [of _ s2] exI [of _ t1] exI [of _ t2] exI [of _ before])
      (simp add: before_def part_message_def part_slice_def)
qed

text \<open>
  Process 4 asks process 0 to send bytes of a result to process 6; another request of process 5 is
  already waiting.
\<close>

theorem early_request_same_answer_witness:
  "\<exists>msg res srv s1 s2 t1 t2. parts_view msg = Inr (6, [\<lparr>rq_resid = 3, rq_offset = 1, rq_size = 2, rq_dst = 0\<rparr>]) \<and>
    store_view res = Inr (3, [7, 8, 9]) \<and>
    pending_for 3 srv = [\<lparr>pr_offset = 0, pr_size = 1, pr_dst = 5\<rparr>] \<and>
    handleGetResultPartsMessage msg srv = Inr s1 \<and> handleStoreResultMessage plain_env res s1 = Inr s2 \<and>
    handleStoreResultMessage plain_env res srv = Inr t1 \<and> handleGetResultPartsMessage msg t1 = Inr t2 \<and>
    map (\<lambda>m. (mm_dst m, mm_bytes m)) (as_sent s2) = [(5, [7]), (4, [8, 9])] \<and>
    map (\<lambda>m. (mm_dst m, mm_bytes m)) (as_sent t2) = [(5, [7]), (6, [8, 9])]"
proof -
  let ?req = "\<lparr>rq_resid = 3, rq_offset = 1, rq_size = 2, rq_dst = 0\<rparr>"
  define srv where "srv = ActorServer 0\<lparr>as_comm := \<lparr>cm_recv_addr = 9, cm_recv_buf = [], cm_recv_buf_size = 0\<rparr>,
    as_pendingResultRequests := [3 \<mapsto> [\<lparr>pr_offset = 0, pr_size = 1, pr_dst = 5\<rparr>]]\<rparr>"
  obtain buf where b: "parts_view (fresh_message \<lparr>bl_addr = 1, bl_mem = \<lambda>_. 0\<rparr> buf) = Inr (6, [?req])"
    using parts_encode [of 6 "[?req]" "\<lparr>bl_addr = 1, bl_mem = \<lambda>_. 0\<rparr>"] by (auto simp: parts_ok_def)
  define msg where "msg = fresh_message \<lparr>bl_addr = 1, bl_mem = \<lambda>_. 0\<rparr> buf\<lparr>am_src := 4\<rparr>"
  have msg: "parts_view msg = Inr (6, [?req])" "am_src msg = 4"
    using parts.view_prefix [OF b, of msg "[]"] by (simp_all add: msg_def)
  obtain rbuf where r: "store_view (fresh_message \<lparr>bl_addr = 9, bl_mem = \<lambda>_. 0\<rparr> rbuf) = Inr (3, [7, 8, 9])"
    using store_encode [of 3 "[7, 8, 9]" "\<lparr>bl_addr = 9, bl_mem = \<lambda>_. 0\<rparr>" 0] by (auto simp: store_ok_def)
  define res where "res = fresh_message \<lparr>bl_addr = 9, bl_mem = \<lambda>_. 0\<rparr> rbuf"
  have srv: "srv_inv srv" "ds_abs (as_dataStore srv) 3 = None" "am_addr res = cm_recv_addr (as_comm srv)" "as_sent srv = []"
    "pending_for 3 srv = [\<lparr>pr_offset = 0, pr_size = 1, pr_dst = 5\<rparr>]"
    by (simp_all add: srv_def res_def ActorServer_def srv_inv_def cm_inv_def fresh_message_def)
  from early_request_same_answer [OF srv(1,2) msg(1) _ _ r [folded res_def] srv(3), of plain_env] srv(4,5) msg(2)
  obtain s1 s2 t1 t2 where "handleGetResultPartsMessage msg srv = Inr s1" "handleStoreResultMessage plain_env res s1 = Inr s2"
    "handleStoreResultMessage plain_env res srv = Inr t1" "handleGetResultPartsMessage msg t1 = Inr t2"
    "map (\<lambda>m. (mm_dst m, mm_bytes m)) (as_sent s2) = [(5, [7]), (4, [8, 9])]"
    "map (\<lambda>m. (mm_dst m, mm_bytes m)) (as_sent t2) = [(5, [7]), (6, [8, 9])]"
    by (auto simp: peek_def)
  then show ?thesis using msg(1) r srv(5) unfolding res_def by (intro exI conjI)
qed

text \<open>
  Property C33: answers can overtake each other. When the first part of a request is not there yet and
  the second is, the second is sent at once and the first only when it arrives: on the wire the
  answers are in the opposite order of the request, from the same process and with the same tag,
  while the requester posts its receives in the order of the request.
\<close>

theorem answers_overtake:
  assumes "srv_inv srv" and "parts_view msg = Inr (am_src msg, [ra, rb])"
    and "rq_resid ra = ka" and "rq_resid rb = kb"
    and "ds_abs (as_dataStore srv) ka = None" and "as_pendingResultRequests srv ka = None"
    and "ds_abs (as_dataStore srv) kb = Some p" and "part_ready p" and "in_part p (rq_offset rb) (rq_size rb)"
    and "store_view res = Inr (ka, v)" and "am_addr res = cm_recv_addr (as_comm srv)"
    and "in_part \<lparr>sp_bytes = v, sp_missing = 0, sp_in_message = True\<rparr> (rq_offset ra) (rq_size ra)"
  shows "\<exists>s1 s2. handleGetResultPartsMessage msg srv = Inr s1 \<and> handleStoreResultMessage env res s1 = Inr s2 \<and>
    as_sent s2 = as_sent srv @
      [\<lparr>mm_dst = am_src msg, mm_tag = ABSP_MPI_WORKER_THREAD_TAG, mm_bytes = peek (unat (rq_offset rb)) (unat (rq_size rb)) (sp_bytes p)\<rparr>,
       \<lparr>mm_dst = am_src msg, mm_tag = ABSP_MPI_WORKER_THREAD_TAG, mm_bytes = peek (unat (rq_offset ra)) (unat (rq_size ra)) v\<rparr>]"
proof -
  have inv: "ds_inv (as_dataStore srv)" using assms(1) by (simp add: srv_inv_def)
  obtain n where n: "parts_getNparts msg = Inr n" "nat (sint n) = 2"
    using parts_viewD(2) [OF assms(2)] by auto
  let ?q = "\<lparr>pr_offset = rq_offset ra, pr_size = rq_size ra, pr_dst = am_src msg\<rparr>"
  let ?mb = "part_message (am_src msg) (part_slice p (rq_offset rb) (rq_size rb))"
  let ?l = "srv\<lparr>as_result_store_lock := True, as_pendingResultRequests := (as_pendingResultRequests srv)(ka \<mapsto> [?q])\<rparr>"
  have a: "get_result_parts_loop msg [0] (srv\<lparr>as_result_store_lock := True\<rparr>) = Inr (False, ?l)"
    using loop_absent [of "srv\<lparr>as_result_store_lock := True\<rparr>" "[0]" msg "\<lambda>_. ra"] parts_viewD(3) [OF assms(2), of 0]
      assms(3,5,6) inv by (simp add: getPartData_unknown remember_def push_back_def)
  have b: "get_result_parts_loop msg [1] ?l = Inr (False, ?l\<lparr>as_sent := as_sent srv @ [?mb]\<rparr>)"
    using loop_ready [of ?l msg "am_src msg" "[1]" "\<lambda>_. rb"] parts_viewD(1) [OF assms(2)] parts_viewD(3) [OF assms(2), of 1] assms(4,7-9) inv
    by (simp add: req_ready_def req_bytes_of_def)
  define s1 where "s1 = srv\<lparr>as_pendingResultRequests := (as_pendingResultRequests srv)(ka \<mapsto> [?q]), as_sent := as_sent srv @ [?mb]\<rparr>"
  have "get_result_parts_loop msg [0..<2] (srv\<lparr>as_result_store_lock := True\<rparr>) = Inr (False, ?l\<lparr>as_sent := as_sent srv @ [?mb]\<rparr>)"
    using get_result_parts_loop_append [OF a, where js = "[1]"] b by (simp add: upt_rec)
  then have h1: "handleGetResultPartsMessage msg srv = Inr s1"
    using assms(1) n by (simp add: handleGetResultPartsMessage_def lock_results_def srv_inv_def unlock_results_def s1_def)
  have "srv_inv s1" "ds_abs (as_dataStore s1) ka = None" "pending_for ka s1 = [?q]"
    "am_addr res = cm_recv_addr (as_comm s1)"
    using assms(1,5,11) by (simp_all add: s1_def srv_inv_def)
  from store_answers [OF this(1,2) assms(10) this(3,4), of env] assms(12)
  obtain s2 where "handleStoreResultMessage env res s1 = Inr s2"
    "as_sent s2 = as_sent s1 @ [part_message (am_src msg) (part_slice \<lparr>sp_bytes = v, sp_missing = 0, sp_in_message = True\<rparr> (rq_offset ra) (rq_size ra))]"
    by auto
  then show ?thesis using h1 by (auto simp: s1_def part_message_def part_slice_def)
qed

theorem answers_overtake_witness:
  "\<exists>ds msg res s1 s2. storePartVector 3 [7, 8, 9] DataStore = Inr ds \<and>
    parts_view msg = Inr (4, [\<lparr>rq_resid = 5, rq_offset = 0, rq_size = 1, rq_dst = 0\<rparr>, \<lparr>rq_resid = 3, rq_offset = 1, rq_size = 2, rq_dst = 1\<rparr>]) \<and>
    store_view res = Inr (5, [6]) \<and>
    handleGetResultPartsMessage msg (ActorServer 0\<lparr>as_comm := \<lparr>cm_recv_addr = 9, cm_recv_buf = [], cm_recv_buf_size = 0\<rparr>, as_dataStore := ds\<rparr>) = Inr s1 \<and>
    handleStoreResultMessage plain_env res s1 = Inr s2 \<and> map mm_bytes (as_sent s2) = [[8, 9], [6]]"
proof -
  let ?ra = "\<lparr>rq_resid = 5, rq_offset = 0, rq_size = 1, rq_dst = 0\<rparr>"
  let ?rb = "\<lparr>rq_resid = 3, rq_offset = 1, rq_size = 2, rq_dst = 1\<rparr>"
  let ?p = "\<lparr>sp_bytes = [7, 8, 9], sp_missing = 0, sp_in_message = False\<rparr>"
  obtain ds where ds: "storePartVector 3 [7, 8, 9] DataStore = Inr ds" "srv_inv (ActorServer 0\<lparr>as_dataStore := ds\<rparr>)"
    "ds_abs ds = [3 \<mapsto> ?p]"
    using one_part_server [of "[7, 8, 9]"] by auto
  define srv where "srv = ActorServer 0\<lparr>as_comm := \<lparr>cm_recv_addr = 9, cm_recv_buf = [], cm_recv_buf_size = 0\<rparr>, as_dataStore := ds\<rparr>"
  obtain buf where m0: "parts_view (fresh_message \<lparr>bl_addr = 1, bl_mem = \<lambda>_. 0\<rparr> buf) = Inr (4, [?ra, ?rb])"
    using parts_encode [of 4 "[?ra, ?rb]" "\<lparr>bl_addr = 1, bl_mem = \<lambda>_. 0\<rparr>"] by (auto simp: parts_ok_def)
  define msg where "msg = fresh_message \<lparr>bl_addr = 1, bl_mem = \<lambda>_. 0\<rparr> buf\<lparr>am_src := 4\<rparr>"
  have msg: "parts_view msg = Inr (am_src msg, [?ra, ?rb])" "am_src msg = 4"
    using parts.view_prefix [OF m0, of msg "[]"] by (simp_all add: msg_def)
  obtain rbuf where res: "store_view (fresh_message \<lparr>bl_addr = 9, bl_mem = \<lambda>_. 0\<rparr> rbuf) = Inr (5, [6])"
    using store_encode [of 5 "[6]" "\<lparr>bl_addr = 9, bl_mem = \<lambda>_. 0\<rparr>" 0] by (auto simp: store_ok_def)
  have srv: "srv_inv srv" "ds_abs (as_dataStore srv) = [3 \<mapsto> ?p]" "as_pendingResultRequests srv 5 = None" "as_sent srv = []"
    "am_addr (fresh_message \<lparr>bl_addr = 9, bl_mem = \<lambda>_. 0\<rparr> rbuf) = cm_recv_addr (as_comm srv)"
    using ds(2,3) by (simp_all add: srv_def ActorServer_def srv_inv_def cm_inv_def fresh_message_def)
  have "\<exists>s1 s2. handleGetResultPartsMessage msg srv = Inr s1 \<and>
    handleStoreResultMessage plain_env (fresh_message \<lparr>bl_addr = 9, bl_mem = \<lambda>_. 0\<rparr> rbuf) s1 = Inr s2 \<and>
    as_sent s2 = as_sent srv @
      [\<lparr>mm_dst = am_src msg, mm_tag = ABSP_MPI_WORKER_THREAD_TAG, mm_bytes = peek (unat (rq_offset ?rb)) (unat (rq_size ?rb)) (sp_bytes ?p)\<rparr>,
       \<lparr>mm_dst = am_src msg, mm_tag = ABSP_MPI_WORKER_THREAD_TAG, mm_bytes = peek (unat (rq_offset ?ra)) (unat (rq_size ?ra)) [6]\<rparr>]"
    by (rule answers_overtake [where ka = 5 and kb = 3 and p = ?p, OF srv(1) msg(1)])
      (simp_all add: srv(2,3) srv(5) res part_ready_def in_part_def)
  then obtain s1 s2 where s: "handleGetResultPartsMessage msg srv = Inr s1"
    "handleStoreResultMessage plain_env (fresh_message \<lparr>bl_addr = 9, bl_mem = \<lambda>_. 0\<rparr> rbuf) s1 = Inr s2"
    "map mm_bytes (as_sent s2) = [[8, 9], [6]]"
    using srv(4) by (auto simp: peek_def)
  show ?thesis using ds(1) msg res s(1) [unfolded srv_def] s(2,3) unfolding msg(2) by (intro exI conjI)
qed

end
