(* ===== verification/Server_Futures.thy ===== *)
theory Server_Futures
  imports Server_Parts
begin

text \<open>
  Futures and calls on the management thread. The futures of a process are specified as slots:
  the data once it is registered, the processes that wait for it, and whether it was released
  before it arrived. The handlers of \<^verbatim>\<open>ActorServer\<close> for futures refine that specification, for any
  interleaving of messages about any futures.
\<close>

section \<open>Simulations\<close>

fun spec_run :: "('e \<Rightarrow> 'a \<Rightarrow> 'a \<times> 'o list) \<Rightarrow> 'e list \<Rightarrow> 'a \<Rightarrow> 'a \<times> 'o list" where
  "spec_run spec [] a = (a, [])"
| "spec_run spec (e # es) a =
     (let (a1, out1) = spec e a; (a2, out2) = spec_run spec es a1 in (a2, out1 @ out2))"

lemma spec_run_append:
  "spec_run spec (xs @ ys) a =
    (let (a1, out1) = spec_run spec xs a; (a2, out2) = spec_run spec ys a1 in (a2, out1 @ out2))"
  by (induction xs arbitrary: a) (simp_all add: Let_def case_prod_beta)

text \<open>
  A component that takes one event at a time, never fails on the events it accepts, and whose
  state and output follow a specification.
\<close>

locale reactive =
  fixes step :: "'e \<Rightarrow> 's \<Rightarrow> 's result" and out :: "'s \<Rightarrow> 'o list" and abs :: "'s \<Rightarrow> 'a"
    and spec :: "'v \<Rightarrow> 'a \<Rightarrow> 'a \<times> 'o list" and means :: "'e \<Rightarrow> 'v \<Rightarrow> bool" and inv :: "'s \<Rightarrow> bool"
  assumes simulates: "inv s \<Longrightarrow> means e v \<Longrightarrow>
    \<exists>t. step e s = Inr t \<and> inv t \<and> abs t = fst (spec v (abs s)) \<and> out t = out s @ snd (spec v (abs s))"
begin

lemma run_simulates:
  assumes "inv s" and "list_all2 means es vs"
  shows "\<exists>t. foldE step es s = Inr t \<and> inv t \<and> abs t = fst (spec_run spec vs (abs s)) \<and>
    out t = out s @ snd (spec_run spec vs (abs s))"
  using assms(2,1)
proof (induction arbitrary: s rule: list_all2_induct)
  case Nil
  then show ?case by simp
next
  case (Cons e es v vs)
  obtain t where t: "step e s = Inr t" "inv t" "abs t = fst (spec v (abs s))" "out t = out s @ snd (spec v (abs s))"
    using simulates [OF Cons.prems Cons.hyps(1)] by blast
  obtain u where "foldE step es t = Inr u" "inv u" "abs u = fst (spec_run spec vs (abs t))"
    "out u = out t @ snd (spec_run spec vs (abs t))"
    using Cons.IH [OF t(2)] by blast
  then show ?case using t by (simp add: Let_def case_prod_beta)
qed

end

section \<open>The specification of futures\<close>

datatype future_event = Get c_int | Register "byte list" | Release

record future_slot =
  fs_data :: "byte list option"
  fs_waiting :: "c_int list"
  fs_doomed :: bool

definition empty_slot :: future_slot where
  "empty_slot = \<lparr>fs_data = None, fs_waiting = [], fs_doomed = False\<rparr>"

fun slot_step :: "future_event \<Rightarrow> future_slot \<Rightarrow> future_slot \<times> (c_int \<times> byte list) list" where
  "slot_step (Get p) fs = (case fs_data fs of
     Some d \<Rightarrow> (fs, [(p, d)])
   | None \<Rightarrow> (fs\<lparr>fs_waiting := fs_waiting fs @ [p]\<rparr>, []))"
| "slot_step (Register d) fs =
     (if fs_doomed fs then (if fs_waiting fs = [] then fs\<lparr>fs_doomed := False\<rparr> else empty_slot)
      else \<lparr>fs_data = Some d, fs_waiting = [], fs_doomed = False\<rparr>,
      map (\<lambda>p. (p, d)) (fs_waiting fs))"
| "slot_step Release fs = (case fs_data fs of
     Some _ \<Rightarrow> (fs\<lparr>fs_data := None\<rparr>, [])
   | None \<Rightarrow> (fs\<lparr>fs_doomed := True\<rparr>, []))"

definition future_message :: "c_int \<times> byte list \<Rightarrow> mpi_message" where
  "future_message = (\<lambda>(p, d). \<lparr>mm_dst = p, mm_tag = ABSP_MPI_WORKER_THREAD_TAG, mm_bytes = d\<rparr>)"

definition futures_step ::
  "c_int \<times> future_event \<Rightarrow> (c_int \<Rightarrow> future_slot) \<Rightarrow> (c_int \<Rightarrow> future_slot) \<times> mpi_message list"
where
  "futures_step = (\<lambda>(key, ev) slots.
     let (slot, answers) = slot_step ev (slots key) in (slots(key := slot), map future_message answers))"

text \<open>What a message means, and the slots a server has.\<close>

fun future_meaning :: "message_class \<times> actor_message \<Rightarrow> c_int \<times> future_event \<Rightarrow> bool" where
  "future_meaning (cls, m) (key, Get p) \<longleftrightarrow> cls = GetFutureData_class \<and> getdata_view m = Inr key \<and> am_src m = p"
| "future_meaning (cls, m) (key, Register d) \<longleftrightarrow> cls = RegisterFuture_class \<and> register_view m = Inr (key, d) \<and> length d < 2 ^ 31"
| "future_meaning (cls, m) (key, Release) \<longleftrightarrow> cls = ReleaseFuture_class \<and> release_view m = Inr key"

definition future_slots :: "actor_server \<Rightarrow> c_int \<Rightarrow> future_slot" where
  "future_slots srv key = \<lparr>fs_data = as_futureDataStore srv key,
     fs_waiting = (case as_pendingFutureRequests srv key of None \<Rightarrow> [] | Some ps \<Rightarrow> ps),
     fs_doomed = (as_askedFutureDelete srv key = Some True)\<rparr>"

text \<open>
  The invariant: no fetch waits for a future (fetches are treated with the prefetching), every
  entry of the pending requests has a requester, and the data of registered futures can be sent.
\<close>

definition futures_inv :: "actor_server \<Rightarrow> bool" where
  "futures_inv srv \<longleftrightarrow> as_askedFetch srv = Map.empty \<and> (\<forall>key. as_pendingFutureRequests srv key \<noteq> Some []) \<and>
     (\<forall>key d. as_futureDataStore srv key = Some d \<longrightarrow> length d < 2 ^ 31)"

lemma futures_invD:
  "futures_inv srv \<Longrightarrow> as_askedFetch srv key = None"
  "futures_inv srv \<Longrightarrow> as_pendingFutureRequests srv key \<noteq> Some []"
  "futures_inv srv \<Longrightarrow> as_futureDataStore srv key = Some d \<Longrightarrow> length d < 2 ^ 31"
  by (simp_all add: futures_inv_def)

lemma answer_futures:
  assumes "as_futureDataStore srv key = Some d" and "length d < 2 ^ 31"
  shows "foldE (answer_future key) ps srv = Inr (srv\<lparr>as_sent := as_sent srv @ map (\<lambda>p. future_message (p, d)) ps\<rparr>)"
  using assms
  by (induction ps arbitrary: srv)
    (simp_all add: answer_future_def getFutureData_def emit_def sendFutureData_eq future_message_def)

lemma slots_eqI:
  assumes "\<And>k. k \<noteq> key \<Longrightarrow> future_slots t k = future_slots s k" and "future_slots t key = slot"
  shows "future_slots t = (future_slots s)(key := slot)"
  using assms by (auto simp: fun_eq_iff)

section \<open>The handlers refine the specification\<close>

lemma get_simulates:
  assumes inv: "futures_inv s" and view: "getdata_view m = Inr key"
  shows "\<exists>t. handleGetFutureData m s = Inr t \<and> futures_inv t \<and>
    future_slots t = fst (futures_step (key, Get (am_src m)) (future_slots s)) \<and>
    as_sent t = as_sent s @ snd (futures_step (key, Get (am_src m)) (future_slots s))"
proof (cases "as_futureDataStore s key")
  case None
  let ?t = "s\<lparr>as_pendingFutureRequests := push_back key (am_src m) (as_pendingFutureRequests s)\<rparr>"
  have "handleGetFutureData m s = Inr ?t"
    using None view by (simp add: handleGetFutureData_def getdata_view_def getFutureData_def)
  moreover have "futures_inv ?t" using inv by (simp add: futures_inv_def push_back_def)
  moreover have "future_slots ?t = (future_slots s)(key := (future_slots s key)\<lparr>fs_waiting := fs_waiting (future_slots s key) @ [am_src m]\<rparr>)"
    by (rule slots_eqI) (auto simp: future_slots_def push_back_def split: option.splits)
  ultimately show ?thesis using None by (simp add: futures_step_def future_slots_def)
next
  case (Some d)
  then have "handleGetFutureData m s = Inr (s\<lparr>as_sent := as_sent s @ [future_message (am_src m, d)]\<rparr>)"
    using view futures_invD(3) [OF inv Some]
    by (simp add: handleGetFutureData_def getdata_view_def getFutureData_def emit_def sendFutureData_eq future_message_def)
  then show ?thesis
    using inv Some by (simp add: futures_step_def future_slots_def futures_inv_def fun_eq_iff)
qed

lemma release_simulates:
  assumes inv: "futures_inv s" and view: "release_view m = Inr key"
  shows "\<exists>t. handleReleaseFutureMessage m s = Inr t \<and> futures_inv t \<and>
    future_slots t = fst (futures_step (key, Release) (future_slots s)) \<and>
    as_sent t = as_sent s @ snd (futures_step (key, Release) (future_slots s))"
proof (cases "as_futureDataStore s key")
  case None
  then have "handleReleaseFutureMessage m s = Inr (s\<lparr>as_askedFutureDelete := (as_askedFutureDelete s)(key \<mapsto> True)\<rparr>)"
    using view by (simp add: handleReleaseFutureMessage_def release_view_def getFutureData_def)
  then show ?thesis
    using inv None by (simp add: futures_step_def future_slots_def futures_inv_def fun_eq_iff)
next
  case (Some d)
  then have "handleReleaseFutureMessage m s = Inr (s\<lparr>as_futureDataStore := (as_futureDataStore s)(key := None)\<rparr>)"
    using view by (simp add: handleReleaseFutureMessage_def release_view_def getFutureData_def removeFutureData_def)
  then show ?thesis
    using inv Some by (simp add: futures_step_def future_slots_def futures_inv_def fun_eq_iff)
qed

lemma registerFuture_simulates:
  assumes inv: "futures_inv s" and len: "length d < 2 ^ 31"
  shows "\<exists>t. registerFuture env key d s = Inr t \<and> futures_inv t \<and>
    future_slots t = fst (futures_step (key, Register d) (future_slots s)) \<and>
    as_sent t = as_sent s @ snd (futures_step (key, Register d) (future_slots s))"
proof (cases "as_pendingFutureRequests s key")
  case None
  then show ?thesis
    using inv len futures_invD(1) [OF inv, of key]
    by (cases "as_askedFutureDelete s key")
      (auto simp: registerFuture_def subscript_def checkFutureRequired_def registerFutureData_def
        futures_step_def future_slots_def futures_inv_def fun_eq_iff removeFutureData_def)
next
  case (Some ps)
  then have ps: "ps \<noteq> []" using futures_invD(2) [OF inv] by auto
  let ?s1 = "s\<lparr>as_futureDataStore := (as_futureDataStore s)(key \<mapsto> d)\<rparr>"
  have ans: "foldE (answer_future key) ps ?s1 = Inr (?s1\<lparr>as_sent := as_sent s @ map (\<lambda>p. future_message (p, d)) ps\<rparr>)"
    using answer_futures [of ?s1 key d ps] len by simp
  show ?thesis
    using Some inv len ps futures_invD(1) [OF inv, of key]
    by (cases "as_askedFutureDelete s key")
      (auto simp: registerFuture_def subscript_def checkFutureRequired_def registerFutureData_def ans comp_def
        futures_step_def future_slots_def futures_inv_def fun_eq_iff removeFutureData_def empty_slot_def)
qed

interpretation future_service: reactive "routeHandleMessage env" as_sent future_slots futures_step future_meaning futures_inv
  for env
proof unfold_locales
  fix s e v
  assume inv: "futures_inv s" and means: "future_meaning e v"
  obtain cls m where e: "e = (cls, m)" by (cases e)
  obtain key ev where v: "v = (key, ev)" by (cases v)
  show "\<exists>t. routeHandleMessage env e s = Inr t \<and> futures_inv t \<and>
    future_slots t = fst (futures_step v (future_slots s)) \<and> as_sent t = as_sent s @ snd (futures_step v (future_slots s))"
  proof (cases ev)
    case (Get p)
    then show ?thesis using get_simulates [OF inv] means by (auto simp: e v routeHandleMessage_def)
  next
    case (Register d)
    then have view: "register_view m = Inr (key, d)" and len: "length d < 2 ^ 31" and cls: "cls = RegisterFuture_class"
      using means by (simp_all add: e v)
    have "handleRegisterFuture env m s = registerFuture env key d s"
      using view by (auto simp: handleRegisterFuture_def register_view_def result_simps)
    then show ?thesis using registerFuture_simulates [OF inv len] Register cls by (simp add: e v routeHandleMessage_def)
  next
    case Release
    then show ?thesis using release_simulates [OF inv] means by (auto simp: e v routeHandleMessage_def)
  qed
qed

section \<open>Every request for a future is answered once\<close>

lemma gets_wait:
  assumes "fs_data (slots key) = None"
  shows "spec_run futures_step (map (\<lambda>p. (key, Get p)) ps) slots =
    (slots(key := (slots key)\<lparr>fs_waiting := fs_waiting (slots key) @ ps\<rparr>), [])"
  using assms by (induction ps arbitrary: slots) (simp_all add: futures_step_def)

lemma gets_served:
  assumes "fs_data (slots key) = Some d"
  shows "spec_run futures_step (map (\<lambda>p. (key, Get p)) ps) slots = (slots, map (\<lambda>p. future_message (p, d)) ps)"
  using assms by (induction ps) (simp_all add: futures_step_def)

lemma released_last:
  assumes "slots key = empty_slot"
  shows "spec_run futures_step (map (\<lambda>p. (key, Get p)) ps @ [(key, Register d)] @ map (\<lambda>p. (key, Get p)) qs @ [(key, Release)]) slots =
    (slots, map (\<lambda>p. future_message (p, d)) (ps @ qs))"
proof -
  let ?s1 = "slots(key := empty_slot\<lparr>fs_waiting := ps\<rparr>)"
  let ?s2 = "slots(key := \<lparr>fs_data = Some d, fs_waiting = [], fs_doomed = False\<rparr>)"
  have "spec_run futures_step (map (\<lambda>p. (key, Get p)) ps) slots = (?s1, [])"
    using gets_wait [of slots key ps] assms by (simp add: empty_slot_def)
  moreover have "futures_step (key, Register d) ?s1 = (?s2, map (\<lambda>p. future_message (p, d)) ps)"
    by (simp add: futures_step_def empty_slot_def comp_def)
  moreover have "spec_run futures_step (map (\<lambda>p. (key, Get p)) qs) ?s2 = (?s2, map (\<lambda>p. future_message (p, d)) qs)"
    by (rule gets_served) simp
  moreover have "futures_step (key, Release) ?s2 = (slots, [])"
    using assms by (simp add: futures_step_def empty_slot_def fun_eq_iff)
  ultimately show ?thesis by (simp add: spec_run_append)
qed

lemma released_early:
  assumes "slots key = empty_slot"
  shows "spec_run futures_step (map (\<lambda>p. (key, Get p)) ps @ [(key, Release)] @ map (\<lambda>p. (key, Get p)) qs @ [(key, Register d)]) slots =
    (slots, map (\<lambda>p. future_message (p, d)) (ps @ qs))"
proof -
  let ?s1 = "slots(key := empty_slot\<lparr>fs_waiting := ps\<rparr>)"
  let ?s2 = "slots(key := empty_slot\<lparr>fs_waiting := ps, fs_doomed := True\<rparr>)"
  have "spec_run futures_step (map (\<lambda>p. (key, Get p)) ps) slots = (?s1, [])"
    using gets_wait [of slots key ps] assms by (simp add: empty_slot_def)
  moreover have "futures_step (key, Release) ?s1 = (?s2, [])"
    by (simp add: futures_step_def empty_slot_def)
  moreover have "spec_run futures_step (map (\<lambda>p. (key, Get p)) qs) ?s2 =
      (slots(key := empty_slot\<lparr>fs_waiting := ps @ qs, fs_doomed := True\<rparr>), [])"
    using gets_wait [of ?s2 key qs] by (simp add: empty_slot_def)
  moreover have "futures_step (key, Register d) (slots(key := empty_slot\<lparr>fs_waiting := ps @ qs, fs_doomed := True\<rparr>)) =
      (slots, map (\<lambda>p. future_message (p, d)) (ps @ qs))"
    using assms by (simp add: futures_step_def empty_slot_def fun_eq_iff comp_def)
  ultimately show ?thesis by (simp add: spec_run_append)
qed

section \<open>Properties\<close>

text \<open>
  Property C9: the handlers for futures refine the specification of futures as slots. Any sequence of
  messages that register, request and release futures, of any keys and in any order, is handled
  without failure; afterwards every slot is what the specification says and exactly the messages
  of the specification were sent, in its order.
\<close>

theorem futures_refine:
  assumes "futures_inv srv" and "list_all2 future_meaning ms evs"
  shows "\<exists>t. foldE (routeHandleMessage env) ms srv = Inr t \<and> futures_inv t \<and>
    future_slots t = fst (spec_run futures_step evs (future_slots srv)) \<and>
    as_sent t = as_sent srv @ snd (spec_run futures_step evs (future_slots srv))"
  using assms by (rule future_service.run_simulates)

lemma future_messages:
  "\<exists>m. future_meaning (GetFutureData_class, m) (key, Get p)"
  "length d < 2 ^ 31 - 16 \<Longrightarrow> \<exists>m. future_meaning (RegisterFuture_class, m) (key, Register d)"
  "\<exists>m. future_meaning (ReleaseFuture_class, m) (key, Release)"
proof -
  let ?b = "\<lparr>bl_addr = 1, bl_mem = \<lambda>_. 0\<rparr>"
  obtain buf where buf: "getdata_view (fresh_message ?b buf) = Inr key"
    using getdata_encode [of ?b key] by auto
  have "getdata_view (fresh_message ?b buf\<lparr>am_src := p\<rparr>) = Inr key"
    by (rule getdata.view_prefix [OF buf, of _ "[]"]) simp
  then show "\<exists>m. future_meaning (GetFutureData_class, m) (key, Get p)"
    by (intro exI [of _ "fresh_message ?b buf\<lparr>am_src := p\<rparr>"]) simp
  show "\<exists>m. future_meaning (RegisterFuture_class, m) (key, Register d)" if "length d < 2 ^ 31 - 16"
    using register_encode [of key d ?b] that by (auto simp: register_ok_def)
  show "\<exists>m. future_meaning (ReleaseFuture_class, m) (key, Release)"
    using release_encode [of ?b key] by auto
qed

theorem futures_refine_witness:
  "\<exists>m1 m2 t. future_meaning m1 (7, Get 3) \<and> future_meaning m2 (7, Register [5, 6]) \<and>
    foldE (routeHandleMessage plain_env) [m1, m2] (ActorServer 0) = Inr t \<and>
    as_sent t = [\<lparr>mm_dst = 3, mm_tag = ABSP_MPI_WORKER_THREAD_TAG, mm_bytes = [5, 6]\<rparr>]"
proof -
  obtain m1 m2 where m: "future_meaning m1 (7, Get 3)" "future_meaning m2 (7, Register [5, 6])"
    using future_messages(1) [of 7 3] future_messages(2) [of "[5, 6]" 7] by auto
  have inv: "futures_inv (ActorServer 0)" by (simp add: futures_inv_def ActorServer_def)
  have "future_slots (ActorServer 0) = (\<lambda>_. empty_slot)" "as_sent (ActorServer 0) = []"
    by (simp_all add: future_slots_def ActorServer_def empty_slot_def fun_eq_iff)
  moreover have "snd (spec_run futures_step [(7, Get 3), (7, Register [5, 6])] (\<lambda>_. empty_slot)) =
      [\<lparr>mm_dst = 3, mm_tag = ABSP_MPI_WORKER_THREAD_TAG, mm_bytes = [5, 6]\<rparr>]"
    by (simp add: futures_step_def empty_slot_def future_message_def)
  ultimately show ?thesis
    using futures_refine [OF inv, of "[m1, m2]" "[(7, Get 3), (7, Register [5, 6])]" plain_env] m
    by (metis append_Nil list_all2_Cons list_all2_Nil)
qed

text \<open>
  Property C14: every process that asks for a future gets its data exactly once, in the order of the
  requests, and the future is forgotten once it was released, whether the release arrives after the
  data and all requests or overtakes the data and some of the requests.
\<close>

theorem future_answered_once:
  assumes "futures_inv srv" and "future_slots srv key = empty_slot"
    and "list_all2 future_meaning ms
      (if early then map (\<lambda>p. (key, Get p)) ps @ [(key, Release)] @ map (\<lambda>p. (key, Get p)) qs @ [(key, Register d)]
       else map (\<lambda>p. (key, Get p)) ps @ [(key, Register d)] @ map (\<lambda>p. (key, Get p)) qs @ [(key, Release)])"
  shows "\<exists>t. foldE (routeHandleMessage env) ms srv = Inr t \<and> future_slots t = future_slots srv \<and>
    as_sent t = as_sent srv @ map (\<lambda>p. \<lparr>mm_dst = p, mm_tag = ABSP_MPI_WORKER_THREAD_TAG, mm_bytes = d\<rparr>) (ps @ qs)"
  using future_service.run_simulates [OF assms(1,3), of env] released_last [of "future_slots srv" key, OF assms(2)]
    released_early [of "future_slots srv" key, OF assms(2)]
  by (cases early) (auto simp: future_message_def)

theorem future_answered_once_witness:
  "\<exists>m1 m2 m3 t. future_meaning m1 (7, Release) \<and> future_meaning m2 (7, Get 3) \<and> future_meaning m3 (7, Register [5, 6]) \<and>
    foldE (routeHandleMessage plain_env) [m1, m2, m3] (ActorServer 0) = Inr t \<and> future_slots t = future_slots (ActorServer 0) \<and>
    as_sent t = [\<lparr>mm_dst = 3, mm_tag = ABSP_MPI_WORKER_THREAD_TAG, mm_bytes = [5, 6]\<rparr>]"
proof -
  obtain m1 m2 m3 where m: "future_meaning m1 (7, Release)" "future_meaning m2 (7, Get 3)" "future_meaning m3 (7, Register [5, 6])"
    using future_messages(1) [of 7 3] future_messages(2) [of "[5, 6]" 7] future_messages(3) [of 7] by auto
  have inv: "futures_inv (ActorServer 0)" "future_slots (ActorServer 0) 7 = empty_slot"
    by (simp_all add: futures_inv_def future_slots_def empty_slot_def ActorServer_def)
  have "as_sent (ActorServer 0) = []" by (simp add: ActorServer_def)
  then obtain t where "foldE (routeHandleMessage plain_env) [m1, m2, m3] (ActorServer 0) = Inr t"
    "future_slots t = future_slots (ActorServer 0)" "as_sent t = [\<lparr>mm_dst = 3, mm_tag = ABSP_MPI_WORKER_THREAD_TAG, mm_bytes = [5, 6]\<rparr>]"
    using future_answered_once [OF inv, of "[m1, m2, m3]" True "[]" "[3]" "[5, 6]" plain_env] m by auto
  then show ?thesis using m by (intro exI conjI)
qed

end
