(* ===== verification/Server_Calls.thy ===== *)
theory Server_Calls
  imports Server_Futures
begin

text \<open>
  The handlers of the management thread that answer the main program: the distribution of a vector
  over the processes of an actor, calls, and the loop of \<^verbatim>\<open>ActorServer::run\<close> around all handlers.
\<close>

section \<open>Distributing a vector\<close>

text \<open>The key of the \<open>k\<close>-th part a process names itself: \<^verbatim>\<open>_next_result_store_local_key--\<close> from \<open>- 1\<close>.\<close>

definition local_key :: "nat \<Rightarrow> c_int" where
  "local_key k = of_int (- 1 - int k)"

lemma sint_local_key: "k < 2 ^ 31 \<Longrightarrow> sint (local_key k) = - 1 - int k"
  unfolding local_key_def by (rule sint_of_fits) (simp add: int_fits_def)

lemma local_key_next:
  assumes "Suc k < 2 ^ 31"
  shows "sub_int (local_key k) 1 = Inr (local_key (Suc k))"
proof -
  have "int_fits (sint (local_key k) - sint (1 :: c_int))"
    using assms by (simp add: sint_local_key int_fits_def)
  then show ?thesis by (simp add: sub_int_fits local_key_def)
qed

lemma local_key_inj: "j < 2 ^ 31 \<Longrightarrow> k < 2 ^ 31 \<Longrightarrow> local_key j = local_key k \<Longrightarrow> j = k"
  by (drule arg_cong [of _ _ sint]) (simp add: sint_local_key)

text \<open>The part of process \<open>i\<close> in the description the handler builds.\<close>

definition block_part :: "c_int list \<Rightarrow> nat \<Rightarrow> nat \<Rightarrow> nat \<Rightarrow> nat \<Rightarrow> vector_distribution_part" where
  "block_part pids k n e i = \<lparr>vp_pid = pids ! i, vp_resid = local_key (k + i),
     vp_size = of_nat (block_size n (length pids) i * e), vp_offset = of_nat (block_begin n (length pids) i * e)\<rparr>"

lemma distribute_steps:
  assumes srv: "as_next_result_store_local_key srv = local_key k" and k: "k + length (as_pids srv) < 2 ^ 31"
    and n: "n < 2 ^ 31" and small: "vd_small (length (as_pids srv))"
    and dv: "length dv = length (as_pids srv)" and j: "j \<le> length (as_pids srv)"
  shows "foldE (distribute_step (of_nat n) (of_nat e) (of_nat (length (as_pids srv)))) [0..<j] (vd_bytes dv, srv) =
    Inr (vd_bytes (map (block_part (as_pids srv) k n e) [0..<j] @ drop j dv),
      srv\<lparr>as_next_result_store_local_key := local_key (k + j)\<rparr>)"
  using j
proof (induction j)
  case 0
  then show ?case using srv by simp
next
  case (Suc j)
  let ?p = "length (as_pids srv)"
  let ?ps = "map (block_part (as_pids srv) k n e) [0..<j] @ drop j dv"
  have p: "?p < 2 ^ 31" using small by (simp add: vd_small_def)
  have dr: "div_range (of_nat n) (of_nat j) (of_nat ?p) =
      Inr (of_nat (block_begin n ?p j), of_nat (block_begin n ?p j + block_size n ?p j))"
    using div_range_eq [OF n _ p, of j] Suc.prems by simp
  have len: "length ?ps = ?p" using Suc.prems dv by simp
  have "register_part (of_nat j) (as_pids srv ! j) (local_key (k + j)) (of_nat (block_size n ?p j * e))
      (of_nat (block_begin n ?p j * e)) (vd_bytes ?ps) = Inr (vd_bytes (?ps[j := block_part (as_pids srv) k n e j]))"
    using register_part_eq [of ?ps j] small Suc.prems unfolding len by (simp add: block_part_def)
  moreover have "?ps[j := block_part (as_pids srv) k n e j] =
      map (block_part (as_pids srv) k n e) [0..<Suc j] @ drop (Suc j) dv"
    using Suc.prems dv by (simp add: list_update_append Cons_nth_drop_Suc [symmetric])
  ultimately show ?case
    using Suc dr local_key_next [of "k + j"] k
    by (simp add: foldE_append distribute_step_def vector_at_def)
qed

lemma block_owner:
  assumes "0 < p" and "j < n * e"
  shows "\<exists>!i. i < p \<and> block_begin n p i * e \<le> j \<and> j < block_begin n p i * e + block_size n p i * e"
proof -
  have e: "0 < e" using assms(2) by (cases e) simp_all
  have j: "j div e < n" using assms(2) by (rule less_mult_imp_div_less)
  have iff: "block_begin n p i * e \<le> j \<and> j < block_begin n p i * e + block_size n p i * e \<longleftrightarrow>
      block_begin n p i \<le> j div e \<and> j div e < block_begin n p i + block_size n p i" for i
    using e by (simp add: less_eq_div_iff_mult_less_eq div_less_iff_less_mult add_mult_distrib)
  show ?thesis
    unfolding iff using blk.owner_exists [OF assms(1) j] blk.owner_unique [OF assms(1)] by blast
qed

definition block_parts :: "c_int list \<Rightarrow> nat \<Rightarrow> nat \<Rightarrow> nat \<Rightarrow> vector_distribution_part list" where
  "block_parts pids k n e = map (block_part pids k n e) [0..<length pids]"

lemma length_block_parts [simp]: "length (block_parts pids k n e) = length pids"
  by (simp add: block_parts_def)

lemma block_parts_nth [simp]: "i < length pids \<Longrightarrow> block_parts pids k n e ! i = block_part pids k n e i"
  by (simp add: block_parts_def)

lemma block_part_bounds:
  assumes "i < length pids" and "n * e < 2 ^ 64"
  shows "unat (vp_offset (block_part pids k n e i)) = block_begin n (length pids) i * e"
    and "unat (vp_size (block_part pids k n e i)) = block_size n (length pids) i * e"
    and "block_begin n (length pids) i * e + block_size n (length pids) i * e \<le> n * e"
proof -
  have "block_begin n (length pids) i + block_size n (length pids) i \<le> n" using assms(1) by (rule block_size_le)
  then have "(block_begin n (length pids) i + block_size n (length pids) i) * e \<le> n * e" by (rule mult_le_mono1)
  then show le: "block_begin n (length pids) i * e + block_size n (length pids) i * e \<le> n * e"
    by (simp add: add_mult_distrib)
  then have "block_begin n (length pids) i * e < 2 ^ 64" "block_size n (length pids) i * e < 2 ^ 64"
    using assms(2) by simp_all
  then show "unat (vp_offset (block_part pids k n e i)) = block_begin n (length pids) i * e"
    "unat (vp_size (block_part pids k n e i)) = block_size n (length pids) i * e"
    unfolding block_part_def by (simp_all del: of_nat_mult)
qed

lemma distribute_handled:
  assumes "distr_view msg = Inr (type, of_nat n, of_nat e)" and "vd_small (length (as_pids srv))" and "n < 2 ^ 31"
    and "as_next_result_store_local_key srv = local_key k" and "k + length (as_pids srv) < 2 ^ 31"
  shows "handleDistributeVectorMessage msg srv = Inr (srv\<lparr>as_next_result_store_local_key := local_key (k + length (as_pids srv)),
      as_sent := as_sent srv @ [\<lparr>mm_dst = am_src msg, mm_tag = ABSP_MPI_MANAGEMENT_THREAD_TAG,
        mm_bytes = vd_bytes (block_parts (as_pids srv) k n e)\<rparr>]\<rparr>)"
proof -
  let ?p = "length (as_pids srv)"
  have p: "?p < 2 ^ 31" using assms(2) by (simp add: vd_small_def)
  have args: "distr_getDistrArgs msg = Inr (of_nat n, of_nat e)"
    using assms(1) by (auto simp: distr_view_def result_simps)
  show ?thesis
    using distribute_steps [OF assms(4,5,3,2), of "replicate ?p zero_part" ?p e] assms(2) p args
    by (simp add: handleDistributeVectorMessage_def vector_distribution_base_eq emit_def sendDistrVector_eq block_parts_def vd_small_def)
qed

text \<open>
  Property C32: a request to distribute \<open>n\<close> elements of \<open>e\<close> bytes over the processes of the actor is
  answered with one message. The requester decodes it to a description with one part per process,
  in the order of the processes; the parts have new, pairwise different keys, and every byte of the
  vector lies in exactly one part.
\<close>

theorem distribute_vector_described:
  assumes "distr_view msg = Inr (DISTR_BLOCK, of_nat n, of_nat e)" and "as_pids srv \<noteq> []"
    and "vd_small (length (as_pids srv))" and "n < 2 ^ 31" and "n * e < 2 ^ 64"
    and "as_next_result_store_local_key srv = local_key k" and "k + length (as_pids srv) < 2 ^ 31"
  shows "\<exists>buf srv'. handleDistributeVectorMessage msg srv = Inr srv' \<and>
    as_sent srv' = as_sent srv @ [\<lparr>mm_dst = am_src msg, mm_tag = ABSP_MPI_MANAGEMENT_THREAD_TAG, mm_bytes = buf\<rparr>] \<and>
    as_next_result_store_local_key srv' = local_key (k + length (as_pids srv)) \<and>
    receiveDistrVector buf = Inr buf \<and> nparts buf = Inr (of_nat (length (as_pids srv))) \<and>
    (\<forall>i<length (as_pids srv). \<exists>part. getPart (of_nat i) buf = Inr part \<and> vp_pid part = as_pids srv ! i \<and>
      vp_resid part = local_key (k + i)) \<and> distinct (map (\<lambda>i. local_key (k + i)) [0..<length (as_pids srv)]) \<and>
    (\<forall>j<n * e. \<exists>!i. i < length (as_pids srv) \<and> (\<exists>part. getPart (of_nat i) buf = Inr part \<and>
      unat (vp_offset part) \<le> j \<and> j < unat (vp_offset part) + unat (vp_size part)))"
proof -
  let ?p = "length (as_pids srv)" and ?parts = "block_parts (as_pids srv) k n e"
  have small: "vd_small (length ?parts)" using assms(3) by simp
  have get: "getPart (of_nat i) (vd_bytes ?parts) = Inr (block_part (as_pids srv) k n e i)" if "i < ?p" for i
    using getPart_eq [OF small, of i] that by simp
  have "\<exists>!i. i < ?p \<and> (\<exists>part. getPart (of_nat i) (vd_bytes ?parts) = Inr part \<and>
      unat (vp_offset part) \<le> j \<and> j < unat (vp_offset part) + unat (vp_size part))" if "j < n * e" for j
    using block_owner [of ?p j n e] assms(2) that by (simp add: get block_part_bounds [OF _ assms(5)] cong: conj_cong)
  moreover have "distinct (map (\<lambda>i. local_key (k + i)) [0..<?p])"
    using assms(7) by (auto simp: distinct_map inj_on_def dest: local_key_inj [rotated 2])
  ultimately show ?thesis
    using distribute_handled [OF assms(1,3,4,6,7)] get receiveDistrVector_eq [OF small]
    by (intro exI [of _ "vd_bytes ?parts"]) (simp add: block_part_def)
qed

theorem distribute_vector_described_witness:
  "\<exists>msg srv'. distr_view msg = Inr (DISTR_BLOCK, 5, 4) \<and>
    handleDistributeVectorMessage msg (ActorServer 0\<lparr>as_pids := [3, 4]\<rparr>) = Inr srv' \<and>
    length (as_sent srv') = 1 \<and> as_next_result_store_local_key srv' = - 3"
proof -
  obtain buf where msg: "distr_view (fresh_message \<lparr>bl_addr = 1, bl_mem = \<lambda>_. 0\<rparr> buf) = Inr (DISTR_BLOCK, of_nat 5, of_nat 4)"
    using distr_encode [of "\<lparr>bl_addr = 1, bl_mem = \<lambda>_. 0\<rparr>" DISTR_BLOCK 5 4] by auto
  have "as_sent (ActorServer 0) = []" "as_next_result_store_local_key (ActorServer 0) = local_key 0"
    by (simp_all add: ActorServer_def local_key_def)
  then show ?thesis
    using distribute_vector_described [OF msg, of "ActorServer 0\<lparr>as_pids := [3, 4]\<rparr>" 0] msg
    by (auto simp: vd_small_def local_key_def)
qed

section \<open>What no handler changes\<close>

definition ident :: "actor_server \<Rightarrow> c_int \<times> (c_int \<times> c_int) option \<times> bool" where
  "ident srv = (as_pid srv, as_intra srv, as_qrun srv)"

lemma ident_update [simp]:
  "ident (srv\<lparr>as_sent := x1\<rparr>) = ident srv" "ident (srv\<lparr>as_pids := x2\<rparr>) = ident srv"
  "ident (srv\<lparr>as_worker := x3\<rparr>) = ident srv" "ident (srv\<lparr>as_joined := x4\<rparr>) = ident srv"
  "ident (srv\<lparr>as_futureDataStore := x5\<rparr>) = ident srv" "ident (srv\<lparr>as_pendingFutureRequests := x6\<rparr>) = ident srv"
  "ident (srv\<lparr>as_askedFutureDelete := x7\<rparr>) = ident srv" "ident (srv\<lparr>as_askedFetch := x8\<rparr>) = ident srv"
  "ident (srv\<lparr>as_partMissing := x9\<rparr>) = ident srv" "ident (srv\<lparr>as_pendingResultRequests := x10\<rparr>) = ident srv"
  "ident (srv\<lparr>as_next_result_store_local_key := x11\<rparr>) = ident srv" "ident (srv\<lparr>as_next_key := x12\<rparr>) = ident srv"
  "ident (srv\<lparr>as_comm := x13\<rparr>) = ident srv" "ident (srv\<lparr>as_dataStore := x14\<rparr>) = ident srv"
  "ident (tick srv) = ident srv" "ident (cond_broadcast srv) = ident srv" "ident (unlock_results srv) = ident srv"
  by (simp_all add: ident_def tick_def cond_broadcast_def unlock_results_def)

abbreviation same :: "actor_server \<Rightarrow> actor_server result \<Rightarrow> bool" where
  "same srv m \<equiv> okE m (\<lambda>s. ident s = ident srv)"

named_theorems same_rules "steps that keep the identity of a server"

lemma same_emit [same_rules]: "ident s = ident srv \<Longrightarrow> same srv (emit r s)"
  by (auto simp: okE_def emit_eq)

lemma same_bind_emit [same_rules]:
  "ident s = ident srv \<Longrightarrow> (\<And>t. ident t = ident srv \<Longrightarrow> okE (f t) Q) \<Longrightarrow> okE (bindE (emit r s) f) Q"
  by (rule okE_bindI [OF same_emit])

lemma same_bind_lock [same_rules]:
  "ident s = ident srv \<Longrightarrow> (\<And>t. ident t = ident srv \<Longrightarrow> okE (f t) Q) \<Longrightarrow> okE (bindE (lock_results s) f) Q"
  by (rule okE_bindI [where P = "\<lambda>t. ident t = ident srv"]) (auto simp: okE_def lock_results_eq ident_def)

lemma same_bind_takeKey [same_rules]:
  "ident s = ident srv \<Longrightarrow> (\<And>k t. ident t = ident srv \<Longrightarrow> okE (f k t) Q) \<Longrightarrow>
    okE (bindE (server_takeKey s) (\<lambda>(k, t). f k t)) Q"
  by (rule okE_bindI [where P = "\<lambda>(k, t). ident t = ident srv"]) (auto simp: okE_def server_takeKey_eq)

lemma same_foldE [same_rules]:
  "ident s = ident srv \<Longrightarrow> (\<And>x t. ident t = ident srv \<Longrightarrow> same srv (g x t)) \<Longrightarrow> same srv (foldE g xs s)"
  by (rule okE_foldE)

lemma same_bind_foldE:
  assumes "ident s = ident srv" and "\<And>x t. ident t = ident srv \<Longrightarrow> same srv (g x t)"
    and "\<And>t. ident t = ident srv \<Longrightarrow> okE (f t) Q"
  shows "okE (bindE (foldE g xs s) f) Q"
  using same_foldE [OF assms(1,2)] assms(3) by (rule okE_bindI)

lemmas same_intros = same_rules same_bind_foldE okE_rules

lemma same_fetchDv: "ident s = ident srv \<Longrightarrow> same srv (fetchDv env msg s)"
  unfolding fetchDv_def fetch_for_def fetch_part_def fetch_piece_def forward_message_def
  by (intro same_intros) simp_all

lemma same_registerFuture: "ident s = ident srv \<Longrightarrow> same srv (registerFuture env key d s)"
  unfolding registerFuture_def Let_def checkFutureRequired_def answer_future_def
  by (intro same_intros same_fetchDv okE_if okE_prod okE_bindI [where P = "\<lambda>s. ident s = ident srv"]) simp_all

lemma same_checkDvPartRequired: "ident s = ident srv \<Longrightarrow> same srv (checkDvPartRequired key s)"
  unfolding checkDvPartRequired_def answer_pending_def by (intro same_intros) simp_all

lemma same_distribute: "same srv (handleDistributeVectorMessage msg srv)"
proof -
  have fold: "okE (foldE (distribute_step n e p) is (dv0, srv)) (\<lambda>y. ident (snd y) = ident srv)" for n e p "is" dv0
    by (rule okE_foldE) (auto simp: distribute_step_def intro!: okE_rules)
  show ?thesis
    unfolding handleDistributeVectorMessage_def by (intro okE_bindI [OF fold] same_intros) auto
qed

lemma same_get_parts_loop: "ident s = ident srv \<Longrightarrow> okE (get_result_parts_loop msg is s) (\<lambda>(r, t). ident t = ident srv)"
proof (induction "is" arbitrary: s)
  case Nil
  then show ?case by (auto intro: okE_Inr)
next
  case (Cons i "is")
  show ?case
    unfolding get_result_parts_loop.simps
    by (intro Cons.IH same_bind_emit [where srv = srv] okE_rules) (use Cons.prems in auto)
qed

lemma same_getParts: "same srv (handleGetResultPartsMessage msg srv)"
  unfolding handleGetResultPartsMessage_def
  by (intro same_bind_lock [where srv = srv] okE_bindI [OF same_get_parts_loop] okE_rules) auto

lemma same_prefetch: "same srv (handlePrefetchMessage env msg srv)"
proof -
  have announce: "okE (prefetch_announce msg srv) (\<lambda>(k, s). ident s = ident srv)"
    unfolding prefetch_announce_def
    by (intro same_bind_takeKey [where srv = srv] same_bind_emit [where srv = srv]
        same_bind_foldE [where srv = srv] okE_rules same_emit) auto
  have register: "same srv (prefetch_register env msg sz p k r s)" if "ident s = ident srv" for sz p k r s
    unfolding prefetch_register_def
    using that by (intro same_bind_emit [where srv = srv] okE_rules same_registerFuture) simp_all
  have prepare: "same srv (prefetch_prepare k n s)" if "ident s = ident srv" for k n s
    unfolding prefetch_prepare_def using that by (intro same_intros) simp_all
  show ?thesis
    unfolding handlePrefetchMessage_def
  proof (rule okE_bind, rule okE_bindI [where P = "\<lambda>(k, s). ident s = ident srv"], goal_cases)
    case (1 head)
    show ?case by (intro okE_if announce okE_Inr) simp_all
  next
    case (2 head x)
    then show ?case
      by (intro okE_bindI [OF prepare] same_bind_takeKey [where srv = srv] okE_rules register) auto
  qed
qed

lemma same_route:
  assumes "cls \<noteq> StopActorProcess_class"
  shows "same srv (routeHandleMessage env (cls, msg) srv)"
proof -
  have "same srv (handleCreateActorMessage msg srv)"
    unfolding handleCreateActorMessage_def startActor_def by (intro same_intros) auto
  moreover have "same srv (handleCallActorMessage msg srv)"
    unfolding handleCallActorMessage_def by (intro same_intros) auto
  moreover have "same srv (handleStopActorMessage msg srv)"
    unfolding handleStopActorMessage_def by (intro same_intros) auto
  moreover have "same srv (handleRegisterFuture env msg srv)"
    unfolding handleRegisterFuture_def by (intro same_registerFuture okE_rules) simp
  moreover have "same srv (handleGetFutureData msg srv)" "same srv (handleReleaseFutureMessage msg srv)"
    unfolding handleGetFutureData_def handleReleaseFutureMessage_def by (intro same_intros; simp)+
  moreover have "same srv (handleStoreResultMessage env msg srv)"
    unfolding handleStoreResultMessage_def
    by (intro same_bind_lock [where srv = srv] same_checkDvPartRequired okE_rules) simp_all
  moreover have "same srv (handleReleaseResultPartMessage msg srv)"
    unfolding handleReleaseResultPartMessage_def by (intro same_intros) simp_all
  moreover have "same srv (handleFetchMessage env msg srv)"
    unfolding handleFetchMessage_def by (intro okE_rules same_fetchDv) simp_all
  moreover have "same srv (handleStoreResultPartMessage msg srv)"
    unfolding handleStoreResultPartMessage_def
    by (intro same_bind_lock [where srv = srv] same_checkDvPartRequired okE_rules) auto
  ultimately show ?thesis
    using assms same_distribute same_getParts same_prefetch by (cases cls) (auto simp: routeHandleMessage_def)
qed

section \<open>The loop\<close>

lemma stop_class:
  assumes "createMessage cb src addr buf n = Inr (Some (StopActorProcess_class, m))"
  shows "get_int buf 0 = Inr INSTRUCTION_STOP"
  using assms by (auto simp: createMessage_def result_simps Let_def split: if_splits)

lemma received_stop:
  assumes "receiveActorMessage nb cb src bs cm = Inr (Some (StopActorProcess_class, m), cm')" and "get_int bs 0 = Inr i"
  shows "i = INSTRUCTION_STOP"
proof -
  obtain old buf where "mem_write 0 bs old = Inr buf" and stop: "get_int buf 0 = Inr INSTRUCTION_STOP"
    using assms(1) by (auto simp: receiveActorMessage_def Let_def result_simps dest: stop_class)
  then obtain junk where "buf = bs @ junk"
    by (auto simp: mem_write_def poke_def split: if_splits)
  then show ?thesis using get_int_prefix [OF assms(2), of junk] stop by simp
qed

lemma turn_runs_on:
  assumes "get_int bs 0 = Inr i" and "i \<noteq> INSTRUCTION_STOP"
  shows "okE (server_turn env (src, bs) srv) (\<lambda>s. as_qrun s = as_qrun srv)"
proof (rule okEI)
  fix t assume t: "server_turn env (src, bs) srv = Inr t"
  obtain msg cm where r: "receiveActorMessage (se_block env (as_tick srv)) (se_block env (as_tick srv + 1)) src bs (as_comm srv) = Inr (msg, cm)"
    and h: "(case msg of None \<Rightarrow> Inr ((tick (tick srv))\<lparr>as_comm := cm\<rparr>) | Some m \<Rightarrow> routeHandleMessage env m ((tick (tick srv))\<lparr>as_comm := cm\<rparr>)) = Inr t"
    using t by (auto simp: server_turn_def Let_def result_simps)
  show "as_qrun t = as_qrun srv"
  proof (cases msg)
    case None
    then show ?thesis using h by (auto simp: tick_def)
  next
    case (Some m)
    obtain cls m' where m: "m = (cls, m')" by (cases m)
    then have "cls \<noteq> StopActorProcess_class" using received_stop [of _ _ src bs _ m' cm i] r Some assms by auto
    from okED [OF same_route [OF this], of env m' "(tick (tick srv))\<lparr>as_comm := cm\<rparr>" t] h Some m
    show ?thesis by (simp add: ident_def tick_def)
  qed
qed

lemma server_loop_prefix:
  assumes "as_qrun srv" and "\<forall>(src, bs)\<in>set msgs. \<exists>i. get_int bs 0 = Inr i \<and> i \<noteq> INSTRUCTION_STOP"
  shows "server_loop env (msgs @ rest) srv = bindE (foldE (server_turn env) msgs srv) (server_loop env rest)"
    and "okE (foldE (server_turn env) msgs srv) as_qrun"
proof -
  have turn: "okE (server_turn env m s) as_qrun" if run: "as_qrun s" and mem: "m \<in> set msgs" for m s
  proof -
    obtain i where "get_int (snd m) 0 = Inr i" "i \<noteq> INSTRUCTION_STOP" using mem assms(2) by fastforce
    from turn_runs_on [OF this, of env "fst m" s] run show ?thesis by simp
  qed
  have "server_loop env (ms @ rest) s = bindE (foldE (server_turn env) ms s) (server_loop env rest) \<and>
      okE (foldE (server_turn env) ms s) as_qrun" if "as_qrun s" "set ms \<subseteq> set msgs" for ms s
    using that
  proof (induction ms arbitrary: s)
    case Nil
    then show ?case by (simp add: okE_Inr)
  next
    case (Cons m ms)
    have "server_loop env ((m # ms) @ rest) s = bindE (server_turn env m s) (server_loop env (ms @ rest))"
      using Cons.prems(1) by (simp add: server_loop.simps [of env "m # ms @ rest"])
    note first = this
    show ?case
    proof (cases "server_turn env m s")
      case (Inl e)
      then show ?thesis using first by (simp add: okE_Inl)
    next
      case (Inr t)
      have "m \<in> set msgs" "set ms \<subseteq> set msgs" using Cons.prems(2) by simp_all
      then have "as_qrun t" using okED [OF turn [OF Cons.prems(1)] Inr] by simp
      from Cons.IH [OF this \<open>set ms \<subseteq> set msgs\<close>] show ?thesis unfolding first by (simp add: Inr)
    qed
  qed
  then show "server_loop env (msgs @ rest) srv = bindE (foldE (server_turn env) msgs srv) (server_loop env rest)"
    and "okE (foldE (server_turn env) msgs srv) as_qrun"
    using assms(1) by auto
qed

lemma stop_turn:
  assumes "cm_inv (as_comm srv)" and "length bs < 2 ^ 31" and "get_int bs 0 = Inr INSTRUCTION_STOP"
  shows "\<exists>cm. server_turn env (src, bs) srv = Inr ((tick (tick srv))\<lparr>as_comm := cm, as_qrun := False\<rparr>)"
proof -
  obtain cm junk where r: "receiveActorMessage (se_block env (as_tick srv)) (se_block env (as_tick srv + 1)) src bs (as_comm srv) =
      bindE (createMessage (se_block env (as_tick srv + 1)) src (cm_recv_addr cm) (bs @ junk) (of_nat (length bs))) (\<lambda>m. Inr (m, cm))"
    using receive_prefix [OF assms(1,2)] by metis
  have "instruction_class INSTRUCTION_STOP = Some StopActorProcess_class"
    by (simp add: instruction_class_def instruction_defs)
  from createMessage_class [OF get_int_prefix [OF assms(3)] this assms(2), of junk]
  obtain m where "createMessage (se_block env (as_tick srv + 1)) src (cm_recv_addr cm) (bs @ junk) (of_nat (length bs)) =
      Inr (Some (StopActorProcess_class, m))" by fastforce
  then show ?thesis
    using r by (intro exI [of _ cm]) (simp add: server_turn_def routeHandleMessage_def handleStopActorProcessMessage_def)
qed

text \<open>
  Property C11: the management thread handles the messages that arrive, each once and in order, until
  the stop message: it then returns without reading any further message, after stopping and joining
  the worker if there still is one, and sends nothing more. Without a stop message it is waiting for
  the next one when it has handled the last.
\<close>

theorem run_serves_until_stop:
  assumes "\<forall>(src, bs)\<in>set msgs. \<exists>i. get_int bs 0 = Inr i \<and> i \<noteq> INSTRUCTION_STOP"
    and "foldE (server_turn env) msgs (srv\<lparr>as_qrun := True\<rparr>) = Inr s" and "cm_inv (as_comm s)"
    and "get_int stop 0 = Inr INSTRUCTION_STOP" and "length stop < 2 ^ 31"
  shows "(\<exists>t. server_run env (msgs @ (src, stop) # rest) srv = Inr (False, rest, t) \<and> as_worker t = None \<and>
      as_joined t = as_joined s @ (case as_worker s of None \<Rightarrow> [] | Some wp \<Rightarrow> [stopActor wp]) \<and>
      as_sent t = as_sent s \<and> as_dataStore t = as_dataStore s) \<and>
    server_run env msgs srv = Inr (True, [], s)"
proof
  note loop = server_loop_prefix [of "srv\<lparr>as_qrun := True\<rparr>" msgs, OF _ assms(1), simplified]
  have run: "as_qrun s" using okED [OF loop(2) assms(2)] .
  obtain cm where turn: "server_turn env (src, stop) s = Inr ((tick (tick s))\<lparr>as_comm := cm, as_qrun := False\<rparr>)"
    using stop_turn [OF assms(3,5,4)] by blast
  have "server_loop env ((src, stop) # rest) s = Inr (False, rest, (tick (tick s))\<lparr>as_comm := cm, as_qrun := False\<rparr>)"
    using run turn by (simp add: server_loop.simps)
  then have l: "server_loop env (msgs @ (src, stop) # rest) (srv\<lparr>as_qrun := True\<rparr>) =
      Inr (False, rest, (tick (tick s))\<lparr>as_comm := cm, as_qrun := False\<rparr>)"
    using loop(1) assms(2) by simp
  show "\<exists>t. server_run env (msgs @ (src, stop) # rest) srv = Inr (False, rest, t) \<and> as_worker t = None \<and>
      as_joined t = as_joined s @ (case as_worker s of None \<Rightarrow> [] | Some wp \<Rightarrow> [stopActor wp]) \<and>
      as_sent t = as_sent s \<and> as_dataStore t = as_dataStore s"
    using l by (cases "as_worker s") (simp_all add: server_run_def tick_def)
  show "server_run env msgs srv = Inr (True, [], s)"
    using loop(1) [of env "[]"] assms(2) run by (simp add: server_run_def server_loop.simps)
qed

theorem run_serves_until_stop_witness:
  "\<exists>t. server_run plain_env [(2, [99, 0, 0, 0]), (1, [1, 0, 0, 0]), (3, [6, 0, 0, 0])] (ActorServer 0) =
    Inr (False, [(3, [6, 0, 0, 0])], t) \<and> as_sent t = []"
proof -
  have ints: "get_int [99, 0, 0, 0] 0 = Inr 99" "get_int [1, 0, 0, 0] 0 = Inr 1"
    by (simp_all add: get_int_def mem_read_def peek_def bytes_int_def)
  let ?srv = "ActorServer 0\<lparr>as_qrun := True\<rparr>"
  have inv: "cm_inv (as_comm ?srv)" by (simp add: ActorServer_def cm_inv_def MPIActorCommunicator_def)
  obtain cm junk where cm: "cm_inv cm" and r: "receiveActorMessage (se_block plain_env (as_tick ?srv)) (se_block plain_env (as_tick ?srv + 1)) 2 [99, 0, 0, 0] (as_comm ?srv) =
      bindE (createMessage (se_block plain_env (as_tick ?srv + 1)) 2 (cm_recv_addr cm) ([99, 0, 0, 0] @ junk) (of_nat (length [99, 0, 0, 0 :: byte]))) (\<lambda>m. Inr (m, cm))"
    using receive_prefix [OF inv, of "[99, 0, 0, 0]" "se_block plain_env (as_tick ?srv)" "se_block plain_env (as_tick ?srv + 1)" 2]
    by auto
  have "instruction_class 99 = None" by (simp add: instruction_class_def instruction_defs)
  from createMessage_unknown [OF get_int_prefix [OF ints(1)] this]
  have "foldE (server_turn plain_env) [(2, [99, 0, 0, 0])] ?srv = Inr ((tick (tick ?srv))\<lparr>as_comm := cm\<rparr>)"
    using r by (simp add: server_turn_def)
  from run_serves_until_stop [OF _ this, of "[1, 0, 0, 0]" 1 "[(3, [6, 0, 0, 0])]"] ints cm
  show ?thesis by (auto simp: instruction_defs tick_def ActorServer_def)
qed

section \<open>Calls\<close>

lemma of_nat_int_inj:
  "(of_nat i :: c_int) = of_nat j \<Longrightarrow> i < 2 ^ 31 \<Longrightarrow> j < 2 ^ 31 \<Longrightarrow> i = j"
  by (drule arg_cong [of _ _ sint]) simp

lemma call_one:
  assumes "as_worker srv = Some wp" and "as_next_key srv = of_nat k" and "Suc k < 2 ^ 31"
  shows "handleCallActorMessage msg srv = Inr (srv\<lparr>as_next_key := of_nat (Suc k),
    as_worker := Some (wp\<lparr>wp_queue := wp_queue wp @ [ActiveObjectRequest msg (am_src msg) (of_nat k)]\<rparr>),
    as_sent := as_sent srv @ [\<lparr>mm_dst = am_src msg, mm_tag = ABSP_MPI_WORKER_THREAD_TAG, mm_bytes = int_bytes (of_nat k)\<rparr>]\<rparr>)"
proof -
  have "takeKey (of_nat k) = Inr (of_nat k, of_nat (Suc k))"
    using add_int_of_nat [of k 1] assms(3) by (simp add: takeKey_def)
  then show ?thesis
    using assms(1,2) by (simp add: handleCallActorMessage_def server_takeKey_def callActor_def postMessage_def sendResponseCode_def)
qed

text \<open>
  Calls are queued for the worker in the order in which they arrive, each with the
  process that sent it and a future key of its own, and each caller is answered with the key of its
  call, so the key a caller waits on is the key under which the worker will publish the result.
\<close>

theorem calls_queued_in_order:
  assumes "as_worker srv = Some wp" and "as_next_key srv = of_nat k" and "k + length msgs < 2 ^ 31"
  shows "\<exists>srv' wp'. foldE handleCallActorMessage msgs srv = Inr srv' \<and> as_worker srv' = Some wp' \<and>
    wp_queue wp' = wp_queue wp @ map (\<lambda>i. ActiveObjectRequest (msgs ! i) (am_src (msgs ! i)) (of_nat (k + i))) [0..<length msgs] \<and>
    as_sent srv' = as_sent srv @ map (\<lambda>i. \<lparr>mm_dst = am_src (msgs ! i), mm_tag = ABSP_MPI_WORKER_THREAD_TAG,
      mm_bytes = int_bytes (of_nat (k + i))\<rparr>) [0..<length msgs] \<and>
    (\<forall>i<length msgs. receiveResponseCode (int_bytes (of_nat (k + i))) = Inr (of_nat (k + i))) \<and>
    distinct (map ar_localkey (map (\<lambda>i. ActiveObjectRequest (msgs ! i) (am_src (msgs ! i)) (of_nat (k + i))) [0..<length msgs]))"
proof -
  have "\<exists>srv' wp'. foldE handleCallActorMessage msgs srv = Inr srv' \<and> as_worker srv' = Some wp' \<and>
    wp_queue wp' = wp_queue wp @ map (\<lambda>i. ActiveObjectRequest (msgs ! i) (am_src (msgs ! i)) (of_nat (k + i))) [0..<length msgs] \<and>
    as_sent srv' = as_sent srv @ map (\<lambda>i. \<lparr>mm_dst = am_src (msgs ! i), mm_tag = ABSP_MPI_WORKER_THREAD_TAG,
      mm_bytes = int_bytes (of_nat (k + i))\<rparr>) [0..<length msgs] \<and> as_next_key srv' = of_nat (k + length msgs)"
    using assms
  proof (induction msgs rule: rev_induct)
    case Nil
    then show ?case by simp
  next
    case (snoc m ms)
    then obtain s wp1 where s: "foldE handleCallActorMessage ms srv = Inr s" "as_worker s = Some wp1"
      "wp_queue wp1 = wp_queue wp @ map (\<lambda>i. ActiveObjectRequest (ms ! i) (am_src (ms ! i)) (of_nat (k + i))) [0..<length ms]"
      "as_sent s = as_sent srv @ map (\<lambda>i. \<lparr>mm_dst = am_src (ms ! i), mm_tag = ABSP_MPI_WORKER_THREAD_TAG,
        mm_bytes = int_bytes (of_nat (k + i))\<rparr>) [0..<length ms]" "as_next_key s = of_nat (k + length ms)"
      by auto
    show ?case
      using call_one [OF s(2,5), of m] s snoc.prems(3) by (simp add: foldE_append nth_append)
  qed
  moreover have "receiveResponseCode (int_bytes (of_nat (k + i))) = Inr (of_nat (k + i))" for i
    by (simp add: receiveResponseCode_def get_int_def mem_read_def peek_def)
  moreover have "distinct (map ar_localkey (map (\<lambda>i. ActiveObjectRequest (msgs ! i) (am_src (msgs ! i)) (of_nat (k + i))) [0..<length msgs]))"
    using assms(3) by (auto simp: ActiveObjectRequest_def distinct_map inj_on_def simp del: of_nat_add dest!: of_nat_int_inj)
  ultimately show ?thesis by blast
qed

theorem calls_queued_in_order_witness:
  "\<exists>srv' wp'. foldE handleCallActorMessage [ActorMessage0\<lparr>am_src := 5\<rparr>, ActorMessage0\<lparr>am_src := 6\<rparr>]
      (ActorServer 0\<lparr>as_worker := Some createActorProcessProxy\<rparr>) = Inr srv' \<and> as_worker srv' = Some wp' \<and>
    map ar_sender (wp_queue wp') = [5, 6] \<and> map mm_dst (as_sent srv') = [5, 6]"
proof -
  let ?msgs = "[ActorMessage0\<lparr>am_src := 5\<rparr>, ActorMessage0\<lparr>am_src := 6\<rparr>]"
  let ?srv = "ActorServer 0\<lparr>as_worker := Some createActorProcessProxy\<rparr>"
  have srv: "as_worker ?srv = Some createActorProcessProxy" "as_next_key ?srv = of_nat 0" "as_sent ?srv = []"
    "wp_queue createActorProcessProxy = []"
    by (simp_all add: ActorServer_def createActorProcessProxy_def)
  obtain srv' wp' where "foldE handleCallActorMessage ?msgs ?srv = Inr srv'" "as_worker srv' = Some wp'"
    "wp_queue wp' = wp_queue createActorProcessProxy @ map (\<lambda>i. ActiveObjectRequest (?msgs ! i) (am_src (?msgs ! i)) (of_nat (0 + i))) [0..<length ?msgs]"
    "as_sent srv' = as_sent ?srv @ map (\<lambda>i. \<lparr>mm_dst = am_src (?msgs ! i), mm_tag = ABSP_MPI_WORKER_THREAD_TAG,
      mm_bytes = int_bytes (of_nat (0 + i))\<rparr>) [0..<length ?msgs]"
    using calls_queued_in_order [OF srv(1,2), of ?msgs] by (auto simp: srv(3,4))
  then show ?thesis
    unfolding srv(3,4) by (intro exI [of _ srv'] exI [of _ wp']) (simp add: ActiveObjectRequest_def)
qed

end
