(* ===== verification/Server_Prefetch.thy ===== *)
theory Server_Prefetch
  imports Server_Calls
begin

text \<open>
  Prefetching a distributed vector: the fetching actor prepares a buffer per process
  (\<^verbatim>\<open>handlePrefetchMessage\<close>), the processes of the actor that holds the vector send the pieces of their
  parts (\<^verbatim>\<open>fetchDv\<close>), and \<^verbatim>\<open>handleStoreResultPartMessage\<close> assembles them.

  The piece of a part that belongs to a range starts in the part at \<open>piece_from\<close> and goes to
  \<open>piece_to\<close> of the range; the code always sends from the start of the part to the start of the
  buffer, which is right exactly when both are zero.
\<close>

section \<open>Pieces\<close>

definition piece_from :: "nat \<Rightarrow> nat \<Rightarrow> nat" where
  "piece_from po io = io - po"

definition piece_to :: "nat \<Rightarrow> nat \<Rightarrow> nat" where
  "piece_to po io = po - io"

definition piece_len :: "nat \<Rightarrow> nat \<Rightarrow> nat \<Rightarrow> nat \<Rightarrow> nat" where
  "piece_len po ps io ie = min (po + ps) ie - max po io"

lemma req_size_word:
  assumes "po + ps < 2 ^ 64" and "ie < 2 ^ 64" and "io < po + ps" and "po < ie" and "io \<le> ie"
  shows "min (of_nat ps) (of_nat ie - of_nat po) -
      (if (of_nat po :: size_t) \<le> of_nat io then of_nat io - of_nat po else 0) = (of_nat (piece_len po ps io ie) :: size_t)"
proof -
  have le: "(of_nat po :: size_t) \<le> of_nat io \<longleftrightarrow> po \<le> io"
    using assms by (simp add: word_of_nat_less_eq_iff take_bit_nat_eq_self)
  have "min (of_nat ps) (of_nat ie - of_nat po) = (of_nat (min ps (ie - po)) :: size_t)"
  proof -
    have "(of_nat ie - of_nat po :: size_t) = of_nat (ie - po)" using assms by simp
    moreover have "(of_nat ps :: size_t) \<le> of_nat (ie - po) \<longleftrightarrow> ps \<le> ie - po"
      using assms by (simp add: word_of_nat_less_eq_iff take_bit_nat_eq_self del: of_nat_diff)
    ultimately show ?thesis by (simp add: min_def del: of_nat_diff)
  qed
  moreover have "(if (of_nat po :: size_t) \<le> of_nat io then of_nat io - of_nat po else 0) = (of_nat (io - po) :: size_t)"
    using le by simp
  moreover have "io - po \<le> min ps (ie - po)" "piece_len po ps io ie = min ps (ie - po) - (io - po)"
    using assms by (auto simp: piece_len_def)
  ultimately show ?thesis by (simp only: of_nat_diff)
qed

lemma fetch_piece_sends:
  assumes inv: "srv_inv srv" and pid: "as_pid srv = vp_pid part"
    and off: "vp_offset part = of_nat po" and sz: "vp_size part = of_nat (length v)"
    and data: "ds_abs (as_dataStore srv) (vp_resid part) = Some p" "part_ready p" "sp_bytes p = v"
    and lim: "po + length v < 2 ^ 31 - 36" "ie < 2 ^ 64" and overlap: "io < po + length v" "po < ie" "io \<le> ie"
  shows "\<exists>buf. fetch_piece env dst key full (of_nat io) (of_nat ie) part srv =
      Inr (srv\<lparr>as_tick := as_tick srv + 1, as_sent := as_sent srv @ [\<lparr>mm_dst = dst, mm_tag = ABSP_MPI_MANAGEMENT_THREAD_TAG, mm_bytes = buf\<rparr>]\<rparr>) \<and>
    length buf < 2 ^ 31 \<and> get_int buf 0 = Inr INSTRUCTION_STORE_RESULT_PART \<and>
    spart_view (fresh_message (se_block env (as_tick srv)) buf) = Inr (key, 0, take (piece_len po (length v) io ie) v)"
proof -
  let ?n = "piece_len po (length v) io ie"
  let ?b = "se_block env (as_tick srv)"
  have n: "?n \<le> length v" using overlap by (auto simp: piece_len_def)
  obtain rest where d: "getPartData (vp_resid part) (as_dataStore srv) = Inr (Some (v @ rest), of_nat (length v))"
    using getPartData_ready [OF _ data(1)] data(2,3) inv by (auto simp: part_ready_def srv_inv_def)
  have "(of_nat po + of_nat (length v) :: size_t) = of_nat (po + length v)" by simp
  then have noskip: "\<not> (vp_offset part + vp_size part \<le> of_nat io \<or> of_nat ie \<le> vp_offset part)"
    using lim overlap unfolding off sz by (simp add: word_of_nat_less_eq_iff take_bit_nat_eq_self del: of_nat_add)
  have req: "min (vp_size part) (of_nat ie - vp_offset part) -
      (if vp_offset part \<le> of_nat io then of_nat io - vp_offset part else 0) = (of_nat ?n :: size_t)"
    unfolding off sz using lim overlap by (intro req_size_word) simp_all
  have "spart_ok (key, 0, take ?n v)" using n lim by (simp add: spart_ok_def)
  from spart_encode [OF this, of ?b full] n
  obtain buf where buf: "StoreResultPartMessage ?b key (take ?n v) 0 (of_nat ?n) full = Inr (fresh_message ?b buf)"
    "length buf < 2 ^ 31" "get_int buf 0 = Inr INSTRUCTION_STORE_RESULT_PART"
    "spart_view (fresh_message ?b buf) = Inr (key, 0, take ?n v)"
    by auto
  have un: "unat (of_nat ?n :: size_t) = ?n" using n lim by simp
  have "mem_read (v @ rest) 0 ?n = Inr (take ?n v)" "mem_read (take ?n v) 0 ?n = Inr (take ?n v)"
    using n by (simp_all add: mem_read_def peek_def)
  then have "StoreResultPartMessage ?b key (v @ rest) 0 (of_nat ?n) full =
      StoreResultPartMessage ?b key (take ?n v) 0 (of_nat ?n) full"
    unfolding StoreResultPartMessage_def part_build_def un by (simp add: Let_def)
  then have mk: "StoreResultPartMessage ?b key (v @ rest) 0 (of_nat ?n) full = Inr (fresh_message ?b buf)"
    using buf(1) by simp
  have "fetch_piece env dst key full (of_nat io) (of_nat ie) part srv =
      Inr (srv\<lparr>as_tick := as_tick srv + 1, as_sent := as_sent srv @ [\<lparr>mm_dst = dst, mm_tag = ABSP_MPI_MANAGEMENT_THREAD_TAG, mm_bytes = buf\<rparr>]\<rparr>)"
    unfolding fetch_piece_def Let_def req
    using pid noskip inv d mk sendActorMessage_fresh [OF buf(2), of dst ?b]
    by (simp add: lock_results_def srv_inv_def tick_def unlock_results_def)
  then show ?thesis using buf(2-4) by blast
qed

section \<open>Properties\<close>

text \<open>
  What \<^const>\<open>fetch_piece\<close> ships for a part that overlaps a range. One message goes to the
  process of the range; it says to store at offset 0 the first bytes of the part, as many as the
  overlap has. The bytes of the overlap, \<open>take len (drop from v)\<close>, would have to be stored at
  \<open>piece_to\<close>: so the message is right whenever the range and the part start together, and when the
  range starts inside a part whose bytes differ from what follows them, it is wrong.
\<close>

theorem fetch_ships_from_start:
  assumes "srv_inv srv" and "as_pid srv = vp_pid part"
    and "vp_offset part = of_nat po" and "vp_size part = of_nat (length v)"
    and "ds_abs (as_dataStore srv) (vp_resid part) = Some p" and "part_ready p" and "sp_bytes p = v"
    and "po + length v < 2 ^ 31 - 36" and "ie < 2 ^ 64" and "io < po + length v" and "po < ie" and "io \<le> ie"
  shows "\<exists>srv' buf. fetch_piece env dst key full (of_nat io) (of_nat ie) part srv = Inr srv' \<and>
    as_sent srv' = as_sent srv @ [\<lparr>mm_dst = dst, mm_tag = ABSP_MPI_MANAGEMENT_THREAD_TAG, mm_bytes = buf\<rparr>] \<and>
    spart_view (fresh_message (se_block env (as_tick srv)) buf) = Inr (key, 0, take (piece_len po (length v) io ie) v) \<and>
    (po = io \<longrightarrow> piece_to po io = 0 \<and>
      take (piece_len po (length v) io ie) v = take (piece_len po (length v) io ie) (drop (piece_from po io) v)) \<and>
    (take (piece_len po (length v) io ie) v \<noteq> take (piece_len po (length v) io ie) (drop (piece_from po io) v) \<longrightarrow>
      spart_view (fresh_message (se_block env (as_tick srv)) buf) \<noteq>
        Inr (key, of_nat (piece_to po io), take (piece_len po (length v) io ie) (drop (piece_from po io) v)))"
  using fetch_piece_sends [OF assms, of env dst key full] by (auto simp: piece_to_def piece_from_def)

theorem fetch_ships_from_start_witness:
  "\<exists>ds srv' buf. storePartVector 3 [7, 8, 9, 10] DataStore = Inr ds \<and>
    fetch_piece plain_env 1 5 4 2 4 \<lparr>vp_pid = 0, vp_resid = 3, vp_size = 4, vp_offset = 0\<rparr> (ActorServer 0\<lparr>as_dataStore := ds\<rparr>) = Inr srv' \<and>
    as_sent srv' = [\<lparr>mm_dst = 1, mm_tag = ABSP_MPI_MANAGEMENT_THREAD_TAG, mm_bytes = buf\<rparr>] \<and>
    spart_view (fresh_message (se_block plain_env 0) buf) = Inr (5, 0, [7, 8])"
proof -
  obtain ds where ds: "storePartVector 3 [7, 8, 9, 10] DataStore = Inr ds" "srv_inv (ActorServer 0\<lparr>as_dataStore := ds\<rparr>)"
    "ds_abs ds = [3 \<mapsto> \<lparr>sp_bytes = [7, 8, 9, 10], sp_missing = 0, sp_in_message = False\<rparr>]"
    using one_part_server [of "[7, 8, 9, 10]"] by auto
  have srv: "as_pid (ActorServer 0) = 0" "as_sent (ActorServer 0) = []" "as_tick (ActorServer 0) = 0"
    by (simp_all add: ActorServer_def)
  obtain srv' buf where "fetch_piece plain_env 1 5 4 (of_nat 2) (of_nat 4) \<lparr>vp_pid = 0, vp_resid = 3, vp_size = 4, vp_offset = 0\<rparr>
      (ActorServer 0\<lparr>as_dataStore := ds\<rparr>) = Inr srv'"
    "as_sent srv' = as_sent (ActorServer 0\<lparr>as_dataStore := ds\<rparr>) @ [\<lparr>mm_dst = 1, mm_tag = ABSP_MPI_MANAGEMENT_THREAD_TAG, mm_bytes = buf\<rparr>]"
    "spart_view (fresh_message (se_block plain_env (as_tick (ActorServer 0\<lparr>as_dataStore := ds\<rparr>))) buf) =
      Inr (5, 0, take (piece_len 0 (length [7, 8, 9, 10 :: byte]) 2 4) [7, 8, 9, 10])"
    using fetch_ships_from_start [OF ds(2), of "\<lparr>vp_pid = 0, vp_resid = 3, vp_size = 4, vp_offset = 0\<rparr>" 0 "[7, 8, 9, 10]"
      "\<lparr>sp_bytes = [7, 8, 9, 10], sp_missing = 0, sp_in_message = False\<rparr>" 4 2 plain_env 1 5 4] ds(3) srv(1)
    by (force simp: part_ready_def)
  moreover have "take (piece_len 0 (length [7, 8, 9, 10 :: byte]) 2 4) [7, 8, 9, 10 :: byte] = [7, 8]"
    by (simp add: piece_len_def)
  ultimately show ?thesis using ds(1) srv(2,3) by (intro exI [of _ ds] exI [of _ srv'] exI [of _ buf]) simp
qed

lemma spart_viewD:
  assumes "spart_view m = Inr (key, off, d)"
  shows "part_getResId m = Inr key" and "part_getOffset m = Inr off"
    and "\<exists>n. part_getDataSize m = Inr n \<and> mem_read (part_getData m) 0 (unat n) = Inr d \<and> unat n = length d"
  using assms by (auto simp: spart_view_def result_simps mem_read_def peek_def split: if_splits)

text \<open>A message that completes a prepared part.\<close>

lemma store_part_completes:
  assumes inv: "srv_inv srv" and view: "spart_view m = Inr (key, 0, v)"
    and prep: "ds_abs (as_dataStore srv) key = Some \<lparr>sp_bytes = w, sp_missing = length v, sp_in_message = False\<rparr>"
    and len: "length w = length v" "v \<noteq> []" and idle: "as_pendingResultRequests srv key = None"
  shows "\<exists>t. handleStoreResultPartMessage m srv = Inr t \<and> srv_inv t \<and> as_sent t = as_sent srv \<and>
    ds_abs (as_dataStore t) = (ds_abs (as_dataStore srv))(key \<mapsto> \<lparr>sp_bytes = v, sp_missing = 0, sp_in_message = False\<rparr>)"
proof -
  obtain n where n: "part_getDataSize m = Inr n" "mem_read (part_getData m) 0 (unat n) = Inr v" "unat n = length v"
    using spart_viewD(3) [OF view] by auto
  obtain ds where ds: "addData key (part_getData m) 0 n (as_dataStore srv) = Inr (0, ds)" "ds_inv ds"
    "ds_abs ds = (ds_abs (as_dataStore srv))(key \<mapsto> \<lparr>sp_bytes = poke 0 v w, sp_missing = 0, sp_in_message = False\<rparr>)"
    using addData_vector [OF _ prep _ n(2), of 0] inv len n(3) by (cases "w = []") (auto simp: srv_inv_def)
  have "poke 0 v w = v" using len by (simp add: poke_def)
  then show ?thesis
    using inv ds spart_viewD(1,2) [OF view] n(1) idle
    by (simp add: handleStoreResultPartMessage_def lock_results_def srv_inv_def unlock_results_def cond_broadcast_def
        checkDvPartRequired_def)
qed

text \<open>
  Prefetching a vector that is already distributed the way it is fetched works end to
  end. The process that holds a part ships it, the message is received by the process that prepared
  a buffer of that size under the key, and after it handled the message the part is complete there
  with exactly the bytes of the source part.
\<close>

theorem aligned_prefetch_delivers:
  assumes "srv_inv srv" and "as_pid srv = vp_pid part"
    and "vp_offset part = of_nat po" and "vp_size part = of_nat (length v)" and "v \<noteq> []"
    and "ds_abs (as_dataStore srv) (vp_resid part) = Some p" and "part_ready p" and "sp_bytes p = v"
    and "po + length v < 2 ^ 31 - 36"
    and "srv_inv tgt" and "as_pendingResultRequests tgt key = None"
    and "ds_abs (as_dataStore tgt) key = None"
  shows "\<exists>tgt1 srv' mm tgt2. prefetch_prepare key (of_nat (length v)) tgt = Inr tgt1 \<and>
    fetch_piece env dst key full (of_nat po) (of_nat (po + length v)) part srv = Inr srv' \<and>
    as_sent srv' = as_sent srv @ [mm] \<and> mm_dst mm = dst \<and>
    server_turn env' (as_pid srv, mm_bytes mm) tgt1 = Inr tgt2 \<and> srv_inv tgt2 \<and>
    ds_abs (as_dataStore tgt2) key = Some \<lparr>sp_bytes = v, sp_missing = 0, sp_in_message = False\<rparr>"
proof -
  have n: "piece_len po (length v) po (po + length v) = length v" by (simp add: piece_len_def)
  have len: "unat (of_nat (length v) :: size_t) = length v" using assms(9) by simp
  obtain buf where buf: "fetch_piece env dst key full (of_nat po) (of_nat (po + length v)) part srv =
      Inr (srv\<lparr>as_tick := as_tick srv + 1, as_sent := as_sent srv @ [\<lparr>mm_dst = dst, mm_tag = ABSP_MPI_MANAGEMENT_THREAD_TAG, mm_bytes = buf\<rparr>]\<rparr>)"
    "length buf < 2 ^ 31" "get_int buf 0 = Inr INSTRUCTION_STORE_RESULT_PART"
    "spart_view (fresh_message (se_block env (as_tick srv)) buf) = Inr (key, 0, v)"
    using fetch_piece_sends [OF assms(1-4,6-9), of "po + length v" po env dst key full] assms(5,9) n by (auto simp: of_nat_add)
  obtain ds where ds: "preparePartVector key (of_nat (length v)) (as_dataStore tgt) = Inr ds" "ds_inv ds"
    "ds_abs ds = (ds_abs (as_dataStore tgt))(key \<mapsto> \<lparr>sp_bytes = replicate (length v) 0, sp_missing = length v, sp_in_message = False\<rparr>)"
    using preparePartVector_fresh [OF _ assms(12), of "of_nat (length v)"] assms(10) len by (auto simp: srv_inv_def)
  define tgt1 where "tgt1 = tgt\<lparr>as_partMissing := (as_partMissing tgt)(key \<mapsto> of_nat (length v)), as_dataStore := ds\<rparr>"
  have prep: "prefetch_prepare key (of_nat (length v)) tgt = Inr tgt1"
    using assms(10) ds(1) by (simp add: prefetch_prepare_def lock_results_def srv_inv_def unlock_results_def tgt1_def)
  let ?nb = "se_block env' (as_tick tgt1)" and ?cb = "se_block env' (as_tick tgt1 + 1)"
  have "cm_inv (as_comm tgt1)" using assms(10) by (simp add: tgt1_def srv_inv_def)
  from receive_prefix [OF this buf(2), of ?nb ?cb "as_pid srv"]
  obtain cm junk where cm: "cm_inv cm" and r: "receiveActorMessage ?nb ?cb (as_pid srv) buf (as_comm tgt1) =
      bindE (createMessage ?cb (as_pid srv) (cm_recv_addr cm) (buf @ junk) (of_nat (length buf))) (\<lambda>m. Inr (m, cm))"
    by blast
  obtain m where m: "createMessage ?cb (as_pid srv) (cm_recv_addr cm) (buf @ junk) (of_nat (length buf)) = Inr (Some (StoreResultPart_class, m))"
    "am_buf m = buf @ junk"
    using createMessage_class [OF get_int_prefix [OF buf(3)] instruction_classes(14) buf(2), of junk ?cb "as_pid srv" "cm_recv_addr cm"]
    by auto
  have view: "spart_view m = Inr (key, 0, v)" using spart.view_prefix [OF buf(4), of m junk] m(2) by simp
  let ?t = "(tick (tick tgt1))\<lparr>as_comm := cm\<rparr>"
  have "srv_inv ?t" using assms(10) ds(2) cm by (simp add: srv_inv_def tgt1_def tick_def)
  from store_part_completes [OF this view, of "replicate (length v) 0"] assms(5,11) ds(3)
  obtain t where t: "handleStoreResultPartMessage m ?t = Inr t" "srv_inv t"
    "ds_abs (as_dataStore t) key = Some \<lparr>sp_bytes = v, sp_missing = 0, sp_in_message = False\<rparr>"
    by (auto simp: tgt1_def tick_def)
  have "server_turn env' (as_pid srv, buf) tgt1 = Inr t"
    using r m(1) t(1) by (simp add: server_turn_def routeHandleMessage_def)
  then show ?thesis using prep buf(1) t(2,3) by auto
qed

theorem aligned_prefetch_delivers_witness:
  "\<exists>ds tgt1 srv' mm tgt2. storePartVector 3 [7, 8] DataStore = Inr ds \<and>
    prefetch_prepare 5 2 (ActorServer 1) = Inr tgt1 \<and>
    fetch_piece plain_env 1 5 4 2 4 \<lparr>vp_pid = 0, vp_resid = 3, vp_size = 2, vp_offset = 2\<rparr> (ActorServer 0\<lparr>as_dataStore := ds\<rparr>) = Inr srv' \<and>
    as_sent srv' = [mm] \<and> server_turn plain_env (0, mm_bytes mm) tgt1 = Inr tgt2 \<and>
    ds_abs (as_dataStore tgt2) 5 = Some \<lparr>sp_bytes = [7, 8], sp_missing = 0, sp_in_message = False\<rparr>"
proof -
  let ?part = "\<lparr>vp_pid = 0, vp_resid = 3, vp_size = 2, vp_offset = 2\<rparr>"
  let ?p = "\<lparr>sp_bytes = [7, 8], sp_missing = 0, sp_in_message = False\<rparr>"
  obtain ds where ds: "storePartVector 3 [7, 8] DataStore = Inr ds" "srv_inv (ActorServer 0\<lparr>as_dataStore := ds\<rparr>)"
    "ds_abs ds = [3 \<mapsto> ?p]"
    using one_part_server [of "[7, 8]"] by auto
  define srv where "srv = ActorServer 0\<lparr>as_dataStore := ds\<rparr>"
  have srv: "srv_inv srv" "as_pid srv = vp_pid ?part" "as_sent srv = []" "ds_abs (as_dataStore srv) (vp_resid ?part) = Some ?p" "as_pid srv = 0"
    using ds(2,3) by (simp_all add: srv_def ActorServer_def)
  have tgt: "srv_inv (ActorServer 1)" "as_pendingResultRequests (ActorServer 1) 5 = None" "ds_abs (as_dataStore (ActorServer 1)) 5 = None"
    by (simp_all add: ActorServer_def srv_inv_def cm_inv_def MPIActorCommunicator_def)
  have part: "vp_offset ?part = of_nat 2" "vp_size ?part = of_nat (length [7, 8 :: byte])" by simp_all
  have "[7, 8 :: byte] \<noteq> []" "part_ready ?p" "sp_bytes ?p = [7, 8]" "2 + length [7, 8 :: byte] < 2 ^ 31 - 36"
    by (simp_all add: part_ready_def)
  from aligned_prefetch_delivers [OF srv(1,2) part this(1) srv(4) this(2-4) tgt, of plain_env 1 4 plain_env]
  obtain tgt1 srv' mm tgt2 where "prefetch_prepare 5 2 (ActorServer 1) = Inr tgt1" "fetch_piece plain_env 1 5 4 2 4 ?part srv = Inr srv'"
    "as_sent srv' = [mm]" "server_turn plain_env (0, mm_bytes mm) tgt1 = Inr tgt2" "ds_abs (as_dataStore tgt2) 5 = Some ?p"
    by (auto simp: srv(3,5))
  then show ?thesis using ds(1) unfolding srv_def by (intro exI conjI)
qed

end
