(* ===== verification/Vector_Access.thy ===== *)
theory Vector_Access
  imports Server_Prefetch
begin

text \<open>
  The client side of distributed vectors: \<^verbatim>\<open>dv_get_part\<close>, \<^verbatim>\<open>block_distribute\<close>, \<^verbatim>\<open>dv_release\<close> and
  \<^verbatim>\<open>store_result\<close> of \<^verbatim>\<open>MPIActorCommunicator\<close> (src/src/ActiveBSP/src/mpi/MPIActorCommunicator.cpp) and
  \<^verbatim>\<open>SharedMemoryMasterProxy::readStoredResult\<close> (src/shmem/SharedMemoryMasterProxy.cpp).

  The output buffer is a byte list; a pointer into it is its address, and the address of the buffer
  is the argument \<open>base\<close>. What the other processes answer is an argument: the messages that arrive
  from each process, in order, as a function of the messages sent to them. MPI delivers messages of
  one sender and tag in order, fails on a message that is longer than the receive allows, and a
  receive without a message waits forever, which is \<^const>\<open>Deadlock\<close>.
\<close>

section \<open>Reading a part from the store of the same process\<close>

text \<open>
  The worker thread waits on the condition variable until the part is there. The argument is the
  list of the states of the store it sees, one each time it holds the mutex.
\<close>

fun readStoredResult ::
  "data_store list \<Rightarrow> c_int \<Rightarrow> c_int \<Rightarrow> c_int \<Rightarrow> nat \<Rightarrow> byte list \<Rightarrow> (c_int \<times> byte list) result"
where
  "readStoredResult [] key offset sz dst out = Inl Deadlock"
| "readStoredResult (ds # later) key offset sz dst out =
     bindE (getPartData key ds) (\<lambda>(stored_data, stored_data_size).
       case stored_data of
         None \<Rightarrow> readStoredResult later key offset sz dst out
       | Some ptr \<Rightarrow>
           bindE (add_int offset sz) (\<lambda>fin.
             if stored_data_size < scast fin then Inr (- 1, out)
             else if sint offset < 0 \<or> sint sz < 0 then Inl Out_of_bounds
             else bindE (mem_read ptr (nat (sint offset)) (nat (sint sz))) (\<lambda>bs.
                  bindE (mem_write dst bs out) (\<lambda>out'. Inr (0, out')))))"

section \<open>dv_get_part\<close>

text \<open>The \<^verbatim>\<open>std::map<int, std::vector<...>>\<close> of the requests, in the order of its keys.\<close>

fun map_push :: "c_int \<Rightarrow> 'v \<Rightarrow> (c_int \<times> 'v list) list \<Rightarrow> (c_int \<times> 'v list) list" where
  "map_push k v [] = [(k, [v])]"
| "map_push k v ((j, vs) # m) =
     (if k = j then (j, vs @ [v]) # m
      else if sint k < sint j then (k, [v]) # (j, vs) # m
      else (j, vs) # map_push k v m)"

record get_plan =
  gp_out :: "byte list"
  gp_reqs :: "(c_int \<times> result_req_part list) list"
  gp_nreqs :: nat

definition part_overlap :: "size_t \<Rightarrow> size_t \<Rightarrow> vector_distribution_part \<Rightarrow> (size_t \<times> size_t) option" where
  "part_overlap offset req_end part =
     (let part_end = vp_offset part + vp_size part
      in if part_end \<le> offset \<or> req_end \<le> vp_offset part then None
         else let req_offset = (if vp_offset part \<le> offset then offset - vp_offset part else 0);
                  req_size = min (vp_size part) (req_end - vp_offset part) - req_offset
              in Some (req_offset, req_size))"

definition get_part_step ::
  "c_int \<Rightarrow> size_t \<Rightarrow> (nat \<Rightarrow> data_store list) \<Rightarrow> size_t \<Rightarrow> size_t \<Rightarrow> vector_distribution \<Rightarrow> nat \<Rightarrow>
    get_plan \<Rightarrow> get_plan result"
where
  "get_part_step self base stores offset req_end dv ipart plan =
     bindE (getPart (of_nat ipart) dv) (\<lambda>part.
       case part_overlap offset req_end part of
         None \<Rightarrow> Inr plan
       | Some (req_offset, req_size) \<Rightarrow>
           let dst = base + req_offset + vp_offset part - offset
           in if vp_pid part = self then
                bindE (readStoredResult (stores ipart) (vp_resid part) (ucast req_offset) (ucast req_size)
                    (unat (dst - base)) (gp_out plan)) (\<lambda>(res, out). Inr (plan\<lparr>gp_out := out\<rparr>))
              else Inr (plan\<lparr>gp_reqs := map_push (vp_pid part) \<lparr>rq_resid = vp_resid part, rq_offset = req_offset,
                    rq_size = req_size, rq_dst = dst\<rparr> (gp_reqs plan), gp_nreqs := gp_nreqs plan + 1\<rparr>))"

definition send_requests :: "(nat \<Rightarrow> block) \<Rightarrow> c_int \<Rightarrow> (c_int \<times> result_req_part list) list \<Rightarrow> mpi_message list result" where
  "send_requests blocks self reqs = mapE (\<lambda>(i, s, rs).
     bindE (GetResultPartsMessage (blocks i) self rs) (\<lambda>m. sendAsyncActorMessage s m)) (enumerate 0 reqs)"

definition receive_part ::
  "size_t \<Rightarrow> c_int \<times> result_req_part \<Rightarrow> byte list \<times> (c_int \<Rightarrow> byte list list) \<Rightarrow>
    (byte list \<times> (c_int \<Rightarrow> byte list list)) result"
where
  "receive_part base = (\<lambda>(s, r) (out, answers).
     case answers s of
       [] \<Rightarrow> Inl Deadlock
     | bs # further \<Rightarrow>
         if sint (ucast (rq_size r) :: c_int) < int (length bs) then Inl Mpi_error
         else bindE (mem_write (unat (rq_dst r - base)) bs out) (\<lambda>out'. Inr (out', answers(s := further))))"

definition dv_get_part ::
  "(nat \<Rightarrow> block) \<Rightarrow> c_int \<Rightarrow> size_t \<Rightarrow> (nat \<Rightarrow> data_store list) \<Rightarrow> (mpi_message list \<Rightarrow> c_int \<Rightarrow> byte list list) \<Rightarrow>
    vector_distribution \<Rightarrow> size_t \<Rightarrow> size_t \<Rightarrow> byte list \<Rightarrow> (mpi_message list \<times> byte list) result"
where
  "dv_get_part blocks self base stores network dv offset sz out_buf =
     bindE (nparts dv) (\<lambda>np.
     bindE (foldE (get_part_step self base stores offset (offset + sz) dv) [0..<nat (sint np)]
         \<lparr>gp_out = out_buf, gp_reqs = [], gp_nreqs = 0\<rparr>) (\<lambda>plan.
     bindE (send_requests blocks self (gp_reqs plan)) (\<lambda>sent.
     let posts = concat (map (\<lambda>(s, rs). map (Pair s) rs) (gp_reqs plan))
     in if gp_nreqs plan + length (gp_reqs plan) < length (gp_reqs plan) + length posts then Inl Out_of_bounds
        else bindE (foldE (receive_part base) posts (gp_out plan, network sent)) (\<lambda>(out, rest).
          Inr (sent, out)))))"

section \<open>The plan\<close>

lemma of_nat_size_le: "a < 2 ^ 64 \<Longrightarrow> b < 2 ^ 64 \<Longrightarrow> (of_nat a :: size_t) \<le> of_nat b \<longleftrightarrow> a \<le> b"
  by (simp add: word_of_nat_less_eq_iff take_bit_nat_eq_self)

lemma part_overlap_eq:
  assumes "vp_offset part = of_nat po" and "vp_size part = of_nat ps" and "po + ps < 2 ^ 31" and "fin < 2 ^ 31" and "from \<le> fin"
  shows "part_overlap (of_nat from) (of_nat fin) part =
    (if po + ps \<le> from \<or> fin \<le> po then None else Some (of_nat (from - po), of_nat (piece_len po ps from fin)))"
proof -
  have "(of_nat po + of_nat ps :: size_t) = of_nat (po + ps)" by simp
  then have skip: "vp_offset part + vp_size part \<le> of_nat from \<or> of_nat fin \<le> vp_offset part \<longleftrightarrow> po + ps \<le> from \<or> fin \<le> po"
    using assms by (simp add: of_nat_size_le del: of_nat_add)
  show ?thesis
  proof (cases "po + ps \<le> from \<or> fin \<le> po")
    case True
    then show ?thesis using skip by (simp add: part_overlap_def Let_def)
  next
    case False
    have "(if vp_offset part \<le> of_nat from then of_nat from - vp_offset part else 0) = (of_nat (from - po) :: size_t)"
      using assms by (simp add: of_nat_size_le)
    moreover have "min (vp_size part) (of_nat fin - vp_offset part) -
        (if vp_offset part \<le> of_nat from then of_nat from - vp_offset part else 0) = (of_nat (piece_len po ps from fin) :: size_t)"
      unfolding assms(1,2) using assms(3-5) False by (intro req_size_word) simp_all
    ultimately show ?thesis using False skip by (simp add: part_overlap_def Let_def)
  qed
qed

text \<open>
  A request that asks for the right bytes: \<open>w\<close> is the range of the vector that is wanted, \<open>content\<close>
  what every process stores under every key.
\<close>

definition good_req :: "size_t \<Rightarrow> byte list \<Rightarrow> (c_int \<Rightarrow> c_int \<Rightarrow> byte list option) \<Rightarrow> c_int \<Rightarrow> result_req_part \<Rightarrow> bool" where
  "good_req base w content s r \<longleftrightarrow> unat (rq_size r) < 2 ^ 31 \<and> unat (rq_dst r - base) + unat (rq_size r) \<le> length w \<and>
     (case content s (rq_resid r) of None \<Rightarrow> False
      | Some c \<Rightarrow> unat (rq_offset r) + unat (rq_size r) \<le> length c \<and>
          peek (unat (rq_offset r)) (unat (rq_size r)) c = peek (unat (rq_dst r - base)) (unat (rq_size r)) w)"

definition req_piece :: "size_t \<Rightarrow> result_req_part \<Rightarrow> nat \<times> nat" where
  "req_piece base r = (unat (rq_dst r - base), unat (rq_size r))"

lemma overlap_request:
  assumes off: "vp_offset part = of_nat po" and sz: "vp_size part = of_nat ps" and v: "po + ps \<le> length v" "length v < 2 ^ 31"
    and rng: "from + n \<le> length v" and ov: "from < po + ps" "po < from + n"
    and c: "content (vp_pid part) (vp_resid part) = Some (peek po ps v)"
  shows "good_req base (peek from n v) content (vp_pid part) \<lparr>rq_resid = vp_resid part, rq_offset = of_nat (from - po),
      rq_size = of_nat (piece_len po ps from (from + n)), rq_dst = base + of_nat (from - po) + vp_offset part - of_nat from\<rparr>"
    and "req_piece base \<lparr>rq_resid = vp_resid part, rq_offset = of_nat (from - po),
      rq_size = of_nat (piece_len po ps from (from + n)), rq_dst = base + of_nat (from - po) + vp_offset part - of_nat from\<rparr> =
      (po - from, piece_len po ps from (from + n))"
    and "\<And>j. j < n \<Longrightarrow> po \<le> from + j \<Longrightarrow> from + j < po + ps \<Longrightarrow> po - from \<le> j \<and> j < po - from + piece_len po ps from (from + n)"
proof -
  let ?l = "piece_len po ps from (from + n)"
  have l: "from - po + ?l \<le> ps" "po - from + ?l \<le> n" "from - po < 2 ^ 64" "?l < 2 ^ 31" "po - from < 2 ^ 64"
    using v rng ov by (auto simp: piece_len_def)
  have "(of_nat (from - po) + of_nat po :: size_t) = of_nat (po - from) + of_nat from"
    by (cases "po \<le> from") (simp_all flip: of_nat_add)
  then have dst: "base + of_nat (from - po) + vp_offset part - of_nat from - base = of_nat (po - from)"
    unfolding off by (simp add: algebra_simps)
  have "from - po + po = po - from + from" by auto
  then have "peek (from - po) ?l (peek po ps v) = peek (po - from) ?l (peek from n v)"
    using l by (simp add: peek_peek add.commute)
  then show "good_req base (peek from n v) content (vp_pid part) \<lparr>rq_resid = vp_resid part, rq_offset = of_nat (from - po),
      rq_size = of_nat ?l, rq_dst = base + of_nat (from - po) + vp_offset part - of_nat from\<rparr>"
    using l v rng c dst by (simp add: good_req_def length_peek del: of_nat_diff)
  show "req_piece base \<lparr>rq_resid = vp_resid part, rq_offset = of_nat (from - po),
      rq_size = of_nat ?l, rq_dst = base + of_nat (from - po) + vp_offset part - of_nat from\<rparr> = (po - from, ?l)"
    using l dst by (simp add: req_piece_def del: of_nat_diff)
  show "\<And>j. j < n \<Longrightarrow> po \<le> from + j \<Longrightarrow> from + j < po + ps \<Longrightarrow> po - from \<le> j \<and> j < po - from + ?l"
    by (auto simp: piece_len_def)
qed

lemma ucast_of_nat_int: "(ucast (of_nat k :: size_t) :: c_int) = of_nat k"
  by transfer (simp add: take_bit_take_bit)

text \<open>The part becomes readable in the store with content \<open>c\<close>, possibly after the worker waited.\<close>

definition arrives :: "data_store list \<Rightarrow> c_int \<Rightarrow> byte list \<Rightarrow> bool" where
  "arrives stores key c \<longleftrightarrow> (\<exists>before ds later rest. stores = before @ ds # later \<and>
     (\<forall>d\<in>set before. getPartData key d = Inr (None, 0)) \<and>
     getPartData key ds = Inr (Some (c @ rest), of_nat (length c)))"

lemma readStoredResult_arrives:
  assumes "arrives stores key c" and "length c < 2 ^ 31" and "off + n \<le> length c" and "dst + n \<le> length out"
  shows "readStoredResult stores key (of_nat off) (of_nat n) dst out = Inr (0, poke dst (peek off n c) out)"
proof -
  obtain before ds later rest where st: "stores = before @ ds # later" and none: "\<forall>d\<in>set before. getPartData key d = Inr (None, 0)"
    and some: "getPartData key ds = Inr (Some (c @ rest), of_nat (length c))"
    using assms(1) by (auto simp: arrives_def)
  have add: "add_int (of_nat off) (of_nat n) = Inr (of_nat (off + n))"
    using assms(2,3) by (intro add_int_of_nat) simp
  have "unat (scast (of_nat (off + n) :: c_int) :: size_t) = off + n"
    using assms(2,3) by (intro unat_scast_of_nat) simp
  then have noerr: "\<not> (of_nat (length c) :: size_t) < scast (of_nat (off + n) :: c_int)"
    using assms(2,3) by (simp add: word_less_nat_alt del: of_nat_add)
  have off: "off < 2 ^ 31" and n: "n < 2 ^ 31" using assms(2,3) by simp_all
  have rd: "mem_read (c @ rest) off n = Inr (peek off n c)"
    using assms(3) by (simp add: mem_read_def peek_def)
  have wr: "mem_write dst (peek off n c) out = Inr (poke dst (peek off n c) out)"
    using assms(3,4) by (simp add: mem_write_def length_peek)
  have "readStoredResult (ds # later) key (of_nat off) (of_nat n) dst out = Inr (0, poke dst (peek off n c) out)"
    using some add noerr off n rd wr by (simp del: of_nat_add)
  then show ?thesis
    unfolding st using none by (induction before) simp_all
qed

abbreviation keys_sorted :: "(c_int \<times> 'v) list \<Rightarrow> bool" where
  "keys_sorted m \<equiv> sorted_wrt (\<lambda>a b. sint (fst a) < sint (fst b)) m"

text \<open>The state of the plan after some parts: \<open>cs\<close> are the pieces already copied.\<close>

definition plan_pieces :: "size_t \<Rightarrow> get_plan \<Rightarrow> (nat \<times> nat) list" where
  "plan_pieces base plan = map (req_piece base) (concat (map snd (gp_reqs plan)))"

definition plan_inv ::
  "c_int \<Rightarrow> size_t \<Rightarrow> byte list \<Rightarrow> (c_int \<Rightarrow> c_int \<Rightarrow> byte list option) \<Rightarrow> (nat \<times> nat) list \<Rightarrow> get_plan \<Rightarrow> bool"
where
  "plan_inv self base w content cs plan \<longleftrightarrow> agrees_on cs w (gp_out plan) \<and>
     (\<forall>(s, rs)\<in>set (gp_reqs plan). s \<noteq> self \<and> (\<forall>r\<in>set rs. good_req base w content s r)) \<and>
     keys_sorted (gp_reqs plan) \<and> gp_nreqs plan = length (concat (map snd (gp_reqs plan)))"

lemma map_push_keys: "fst ` set (map_push k v m) = insert k (fst ` set m)"
  by (induction k v m rule: map_push.induct) auto

lemma map_push_sorted: "keys_sorted m \<Longrightarrow> keys_sorted (map_push k v m)"
proof (induction k v m rule: map_push.induct)
  case (1 k v)
  then show ?case by simp
next
  case (2 k v j vs m)
  have "sint j < sint i" if "i \<in> fst ` set (map_push k v m)" "k \<noteq> j" "\<not> sint k < sint j" for i
  proof -
    have "sint k \<noteq> sint j" using that(2) word_eq_iff_signed [of k j] by blast
    moreover have "i = k \<or> i \<in> fst ` set m" using that(1) by (simp add: map_push_keys)
    ultimately show ?thesis using that(3) 2(2) by auto
  qed
  then show ?case using 2 by auto
qed

lemma keys_sorted_distinct: "keys_sorted m \<Longrightarrow> distinct (map fst m)"
  by (induction m) auto

lemma map_push_values:
  "set (concat (map snd (map_push k v m))) = insert v (set (concat (map snd m)))"
  "length (concat (map snd (map_push k v m))) = Suc (length (concat (map snd m)))"
  by (induction k v m rule: map_push.induct) auto

lemma map_push_good:
  assumes "\<forall>(s, rs)\<in>set m. s \<noteq> self \<and> (\<forall>r\<in>set rs. P s r)" and "P k v" and "k \<noteq> self"
  shows "\<forall>(s, rs)\<in>set (map_push k v m). s \<noteq> self \<and> (\<forall>r\<in>set rs. P s r)"
  using assms by (induction k v m rule: map_push.induct) auto

lemma get_part_step_inv:
  assumes inv: "plan_inv self base (peek from n v) content cs plan"
    and part: "getPart (of_nat i) dv = Inr part" "vp_offset part = of_nat po" "vp_size part = of_nat ps"
    and v: "po + ps \<le> length v" "length v < 2 ^ 31" and rng: "from + n \<le> length v"
    and c: "content (vp_pid part) (vp_resid part) = Some (peek po ps v)"
    and loc: "vp_pid part = self \<Longrightarrow> arrives (stores i) (vp_resid part) (peek po ps v)"
  shows "\<exists>cs' plan'. get_part_step self base stores (of_nat from) (of_nat (from + n)) dv i plan = Inr plan' \<and>
    plan_inv self base (peek from n v) content cs' plan' \<and>
    set cs \<union> set (plan_pieces base plan) \<subseteq> set cs' \<union> set (plan_pieces base plan') \<and>
    (\<forall>j<n. po \<le> from + j \<and> from + j < po + ps \<longrightarrow>
      (\<exists>(d, l)\<in>set cs' \<union> set (plan_pieces base plan'). d \<le> j \<and> j < d + l))"
proof (cases "po + ps \<le> from \<or> from + n \<le> po")
  case True
  then have "part_overlap (of_nat from) (of_nat (from + n)) part = None"
    using part_overlap_eq [OF part(2,3), of "from + n" "from"] v rng by simp
  then have "get_part_step self base stores (of_nat from) (of_nat (from + n)) dv i plan = Inr plan"
    using part(1) by (simp add: get_part_step_def)
  then show ?thesis using inv True by (intro exI [of _ cs] exI [of _ plan]) auto
next
  case False
  let ?l = "piece_len po ps from (from + n)"
  let ?r = "\<lparr>rq_resid = vp_resid part, rq_offset = of_nat (from - po), rq_size = of_nat ?l,
    rq_dst = base + of_nat (from - po) + vp_offset part - of_nat from\<rparr>"
  have ov: "from < po + ps" "po < from + n" using False by simp_all
  note r = overlap_request(1,2) [where content = content and base = base, OF part(2,3) v rng ov c]
    and covers = overlap_request(3) [where content = content, OF part(2,3) v rng ov c]
  have sel: "part_overlap (of_nat from) (of_nat (from + n)) part = Some (of_nat (from - po), of_nat ?l)"
    using part_overlap_eq [OF part(2,3), of "from + n" "from"] v rng False by simp
  have good: "agrees_on cs (peek from n v) (gp_out plan)" using inv by (simp add: plan_inv_def)
  then have len: "length (gp_out plan) = length (peek from n v)" by (simp add: agrees_on_def)
  have dl: "po - from + ?l \<le> length (peek from n v)" "?l < 2 ^ 31" "from - po + ?l \<le> length (peek po ps v)"
    using ov v rng by (auto simp: piece_len_def length_peek)
  show ?thesis
  proof (cases "vp_pid part = self")
    case True
    have dst: "unat (base + of_nat (from - po) + vp_offset part - of_nat from - base) = po - from"
      using r(2) by (simp add: req_piece_def)
    have plen: "length (peek po ps v) < 2 ^ 31" using v by (simp add: length_peek)
    have rd: "readStoredResult (stores i) (vp_resid part) (of_nat (from - po)) (of_nat ?l) (po - from) (gp_out plan) =
        Inr (0, poke (po - from) (peek (from - po) ?l (peek po ps v)) (gp_out plan))"
      using readStoredResult_arrives [OF loc [OF True] plen dl(3), of "po - from" "gp_out plan"] dl(1) len by simp
    have "unat (of_nat (from - po) :: size_t) = from - po" using rng v by (intro unat_size_of_nat) simp
    then have "peek (from - po) ?l (peek po ps v) = peek (po - from) ?l (peek from n v)"
      using r(1,2) dl c by (simp add: good_req_def req_piece_def del: of_nat_diff)
    then have step: "get_part_step self base stores (of_nat from) (of_nat (from + n)) dv i plan =
        Inr (plan\<lparr>gp_out := poke (po - from) (peek (po - from) ?l (peek from n v)) (gp_out plan)\<rparr>)"
      using part(1) sel True rd dst by (simp add: get_part_step_def Let_def ucast_of_nat_int del: of_nat_diff of_nat_add)
    let ?plan = "plan\<lparr>gp_out := poke (po - from) (peek (po - from) ?l (peek from n v)) (gp_out plan)\<rparr>"
    have "plan_inv self base (peek from n v) content ((po - from, ?l) # cs) ?plan"
      using inv agrees_on_poke [OF good dl(1)] by (simp add: plan_inv_def)
    then show ?thesis
      using step covers by (intro exI [of _ "(po - from, ?l) # cs"] exI [of _ ?plan]) (auto simp: plan_pieces_def)
  next
    case False
    let ?plan = "plan\<lparr>gp_reqs := map_push (vp_pid part) ?r (gp_reqs plan), gp_nreqs := gp_nreqs plan + 1\<rparr>"
    have step: "get_part_step self base stores (of_nat from) (of_nat (from + n)) dv i plan = Inr ?plan"
      using part(1) sel False by (simp add: get_part_step_def Let_def)
    have "plan_inv self base (peek from n v) content cs ?plan"
      using inv map_push_sorted [of "gp_reqs plan" "vp_pid part" ?r] map_push_values(2) [of "vp_pid part" ?r "gp_reqs plan"]
        map_push_good [of "gp_reqs plan" self "good_req base (peek from n v) content" "vp_pid part" ?r] r(1) False
      by (simp add: plan_inv_def)
    moreover have "set (plan_pieces base ?plan) = insert (po - from, ?l) (set (plan_pieces base plan))"
      using map_push_values(1) [of "vp_pid part" ?r "gp_reqs plan"] r(2) by (simp add: plan_pieces_def del: set_concat)
    ultimately show ?thesis
      using step covers by (intro exI [of _ cs] exI [of _ ?plan]) auto
  qed
qed

text \<open>The slice of the vector a part stands for; a description of \<open>v\<close> has all its parts inside \<open>v\<close>.\<close>

definition part_bytes_of :: "byte list \<Rightarrow> vector_distribution_part \<Rightarrow> byte list" where
  "part_bytes_of v part = peek (unat (vp_offset part)) (unat (vp_size part)) v"

definition describes :: "vector_distribution_part list \<Rightarrow> byte list \<Rightarrow> bool" where
  "describes parts v \<longleftrightarrow> vd_small (length parts) \<and> length v < 2 ^ 31 \<and>
     (\<forall>part\<in>set parts. unat (vp_offset part) + unat (vp_size part) \<le> length v) \<and>
     (\<forall>j<length v. \<exists>part\<in>set parts. unat (vp_offset part) \<le> j \<and> j < unat (vp_offset part) + unat (vp_size part))"

lemma plan_all:
  assumes desc: "describes parts v" and rng: "from + n \<le> length v" and out: "length out = n"
    and content: "\<forall>part\<in>set parts. content (vp_pid part) (vp_resid part) = Some (part_bytes_of v part)"
    and local: "\<forall>i<length parts. vp_pid (parts ! i) = self \<longrightarrow> arrives (stores i) (vp_resid (parts ! i)) (part_bytes_of v (parts ! i))"
    and k: "k \<le> length parts"
  shows "\<exists>cs plan. foldE (get_part_step self base stores (of_nat from) (of_nat (from + n)) (vd_bytes parts)) [0..<k]
      \<lparr>gp_out = out, gp_reqs = [], gp_nreqs = 0\<rparr> = Inr plan \<and> plan_inv self base (peek from n v) content cs plan \<and>
    (\<forall>i<k. \<forall>j<n. unat (vp_offset (parts ! i)) \<le> from + j \<and> from + j < unat (vp_offset (parts ! i)) + unat (vp_size (parts ! i)) \<longrightarrow>
      (\<exists>(d, l)\<in>set cs \<union> set (plan_pieces base plan). d \<le> j \<and> j < d + l))"
  using k
proof (induction k)
  case 0
  have "agrees_on [] (peek from n v) out" using out rng by (simp add: agrees_on_def length_peek)
  then show ?case
    by (intro exI [of _ "[]"] exI [of _ "\<lparr>gp_out = out, gp_reqs = [], gp_nreqs = 0\<rparr>"]) (simp add: plan_inv_def)
next
  case (Suc k)
  then obtain cs plan where IH: "foldE (get_part_step self base stores (of_nat from) (of_nat (from + n)) (vd_bytes parts)) [0..<k]
      \<lparr>gp_out = out, gp_reqs = [], gp_nreqs = 0\<rparr> = Inr plan" "plan_inv self base (peek from n v) content cs plan"
    "\<forall>i<k. \<forall>j<n. unat (vp_offset (parts ! i)) \<le> from + j \<and> from + j < unat (vp_offset (parts ! i)) + unat (vp_size (parts ! i)) \<longrightarrow>
      (\<exists>(d, l)\<in>set cs \<union> set (plan_pieces base plan). d \<le> j \<and> j < d + l)"
    by auto
  have mem: "parts ! k \<in> set parts" using Suc.prems by simp
  have get: "getPart (of_nat k) (vd_bytes parts) = Inr (parts ! k)"
    using desc Suc.prems by (intro getPart_eq) (simp_all add: describes_def)
  have inside: "unat (vp_offset (parts ! k)) + unat (vp_size (parts ! k)) \<le> length v" "length v < 2 ^ 31"
    using desc mem by (auto simp: describes_def)
  have c: "content (vp_pid (parts ! k)) (vp_resid (parts ! k)) = Some (peek (unat (vp_offset (parts ! k))) (unat (vp_size (parts ! k))) v)"
    using content mem by (simp add: part_bytes_of_def)
  have loc: "vp_pid (parts ! k) = self \<Longrightarrow>
      arrives (stores k) (vp_resid (parts ! k)) (peek (unat (vp_offset (parts ! k))) (unat (vp_size (parts ! k))) v)"
    using local Suc.prems by (simp add: part_bytes_of_def)
  obtain cs' plan' where step: "get_part_step self base stores (of_nat from) (of_nat (from + n)) (vd_bytes parts) k plan = Inr plan'"
    "plan_inv self base (peek from n v) content cs' plan'"
    "set cs \<union> set (plan_pieces base plan) \<subseteq> set cs' \<union> set (plan_pieces base plan')"
    "\<forall>j<n. unat (vp_offset (parts ! k)) \<le> from + j \<and> from + j < unat (vp_offset (parts ! k)) + unat (vp_size (parts ! k)) \<longrightarrow>
      (\<exists>(d, l)\<in>set cs' \<union> set (plan_pieces base plan'). d \<le> j \<and> j < d + l)"
    using get_part_step_inv [where content = content and stores = stores, OF IH(2) get _ _ inside rng c loc] by auto
  have "foldE (get_part_step self base stores (of_nat from) (of_nat (from + n)) (vd_bytes parts)) [0..<Suc k]
      \<lparr>gp_out = out, gp_reqs = [], gp_nreqs = 0\<rparr> = Inr plan'"
    using IH(1) step(1) by (simp add: foldE_append)
  moreover have "\<forall>i<Suc k. \<forall>j<n. unat (vp_offset (parts ! i)) \<le> from + j \<and>
      from + j < unat (vp_offset (parts ! i)) + unat (vp_size (parts ! i)) \<longrightarrow>
      (\<exists>(d, l)\<in>set cs' \<union> set (plan_pieces base plan'). d \<le> j \<and> j < d + l)"
  proof (intro allI impI)
    fix i j assume ij: "i < Suc k" "j < n" "unat (vp_offset (parts ! i)) \<le> from + j \<and>
      from + j < unat (vp_offset (parts ! i)) + unat (vp_size (parts ! i))"
    show "\<exists>(d, l)\<in>set cs' \<union> set (plan_pieces base plan'). d \<le> j \<and> j < d + l"
    proof (cases "i = k")
      case True
      then show ?thesis using step(4) ij by simp
    next
      case False
      then have "i < k" using ij(1) by simp
      with IH(3) ij obtain p where "p \<in> set cs \<union> set (plan_pieces base plan)" "case p of (d, l) \<Rightarrow> d \<le> j \<and> j < d + l"
        by blast
      with step(3) show ?thesis by (intro bexI [of _ p]) auto
    qed
  qed
  ultimately show ?case using step(2) by blast
qed

section \<open>The answers\<close>

definition answer_of :: "(c_int \<Rightarrow> c_int \<Rightarrow> byte list option) \<Rightarrow> c_int \<Rightarrow> result_req_part \<Rightarrow> byte list" where
  "answer_of content s r = peek (unat (rq_offset r)) (unat (rq_size r)) (the (content s (rq_resid r)))"

lemma receive_one:
  assumes "agrees_on cs w out" and "good_req base w content s r" and "answers s = answer_of content s r # later"
  shows "\<exists>out'. receive_part base (s, r) (out, answers) = Inr (out', answers(s := later)) \<and>
    agrees_on (req_piece base r # cs) w out'"
proof -
  let ?d = "unat (rq_dst r - base)" and ?l = "unat (rq_size r)"
  have fit: "?d + ?l \<le> length w" "?l < 2 ^ 31" and bytes: "answer_of content s r = peek ?d ?l w"
    using assms(2) by (simp_all add: good_req_def answer_of_def split: option.splits)
  have lout: "length out = length w" using assms(1) by (simp add: agrees_on_def)
  have len: "length (peek ?d ?l w) = ?l" using fit by (simp add: length_peek)
  have "(ucast (rq_size r) :: c_int) = of_nat ?l"
    using ucast_of_nat_int [of ?l] by simp
  then have "sint (ucast (rq_size r) :: c_int) = int ?l" using fit(2) by (simp only: sint_of_nat_small)
  then have "receive_part base (s, r) (out, answers) = Inr (poke ?d (peek ?d ?l w) out, answers(s := later))"
    using assms(3) fit lout len by (simp add: receive_part_def bytes mem_write_def)
  then show ?thesis using agrees_on_poke [OF assms(1) fit(1)] by (simp add: req_piece_def)
qed

lemma receive_from:
  assumes "agrees_on cs w out" and "\<forall>r\<in>set rs. good_req base w content s r"
    and "answers s = map (answer_of content s) rs @ later"
  shows "\<exists>out'. foldE (receive_part base) (map (Pair s) rs) (out, answers) = Inr (out', answers(s := later)) \<and>
    agrees_on (rev (map (req_piece base) rs) @ cs) w out'"
  using assms
proof (induction rs arbitrary: cs out answers)
  case Nil
  then show ?case by (intro exI [of _ out]) (auto simp: fun_upd_idem)
next
  case (Cons r rs)
  let ?later = "map (answer_of content s) rs @ later"
  obtain out1 where one: "receive_part base (s, r) (out, answers) = Inr (out1, answers(s := ?later))"
    "agrees_on (req_piece base r # cs) w out1"
    using receive_one [OF Cons.prems(1), of base content s r answers ?later] Cons.prems(2,3) by auto
  obtain out' where "foldE (receive_part base) (map (Pair s) rs) (out1, answers(s := ?later)) = Inr (out', (answers(s := ?later))(s := later))"
    "agrees_on (rev (map (req_piece base) rs) @ req_piece base r # cs) w out'"
    using Cons.IH [OF one(2), of "answers(s := ?later)"] Cons.prems(2) by (auto simp del: fun_upd_apply simp: fun_upd_same)
  then show ?case using one(1) by (intro exI [of _ out']) (auto simp: fun_eq_iff)
qed

lemma receive_all:
  assumes "agrees_on cs w out" and "\<forall>(s, rs)\<in>set reqs. (\<forall>r\<in>set rs. good_req base w content s r) \<and> answers s = map (answer_of content s) rs"
    and "distinct (map fst reqs)"
  shows "\<exists>out' rest cs'. foldE (receive_part base) (concat (map (\<lambda>(s, rs). map (Pair s) rs) reqs)) (out, answers) = Inr (out', rest) \<and>
    agrees_on cs' w out' \<and> set cs' = set cs \<union> set (map (req_piece base) (concat (map snd reqs)))"
  using assms
proof (induction reqs arbitrary: cs out answers)
  case Nil
  then show ?case by auto
next
  case (Cons sr reqs)
  obtain s rs where sr: "sr = (s, rs)" by (cases sr)
  obtain out1 where one: "foldE (receive_part base) (map (Pair s) rs) (out, answers) = Inr (out1, answers(s := []))"
    "agrees_on (rev (map (req_piece base) rs) @ cs) w out1"
    using receive_from [OF Cons.prems(1), of rs base content s answers "[]"] Cons.prems(2) sr by auto
  have "\<forall>(t, ts)\<in>set reqs. (\<forall>r\<in>set ts. good_req base w content t r) \<and> (answers(s := [])) t = map (answer_of content t) ts"
    using Cons.prems(2,3) sr by (force simp: image_iff)
  then obtain out' rest cs' where "foldE (receive_part base) (concat (map (\<lambda>(s, rs). map (Pair s) rs) reqs)) (out1, answers(s := [])) = Inr (out', rest)"
    "agrees_on cs' w out'" "set cs' = set (rev (map (req_piece base) rs) @ cs) \<union> set (map (req_piece base) (concat (map snd reqs)))"
    using Cons.IH [OF one(2), of "answers(s := [])"] Cons.prems(3) by (auto simp del: fun_upd_apply)
  then show ?case
    using one(1) by (intro exI [of _ out'] exI [of _ rest] exI [of _ cs']) (auto simp: sr foldE_append)
qed

section \<open>The network\<close>

text \<open>
  How servers answer the messages of process \<open>self\<close>: the server of every destination takes one turn
  of its loop on the message, and the messages it then hands to MPI for \<open>self\<close> with the worker's tag
  arrive in order.
\<close>

definition served ::
  "(c_int \<Rightarrow> server_env) \<Rightarrow> (c_int \<Rightarrow> actor_server) \<Rightarrow> c_int \<Rightarrow> mpi_message list \<Rightarrow> c_int \<Rightarrow> byte list list"
where
  "served envs servers self sent s =
     (case foldE (\<lambda>mm. server_turn (envs s) (self, mm_bytes mm)) (filter (\<lambda>mm. mm_dst mm = s) sent) (servers s) of
        Inl _ \<Rightarrow> []
      | Inr srv' \<Rightarrow> map mm_bytes (filter (\<lambda>mm. mm_dst mm = self \<and> mm_tag mm = ABSP_MPI_WORKER_THREAD_TAG)
          (drop (length (as_sent (servers s))) (as_sent srv'))))"

lemma created_addr:
  assumes "createMessage cb src addr buf n = Inr (Some (cls, m))" and "cls \<noteq> CallActor_class"
  shows "am_addr m = addr"
proof -
  obtain ins where "get_int buf 0 = Inr ins" using assms(1) by (auto simp: createMessage_def result_simps)
  then show ?thesis
    using assms by (simp add: createMessage_def Let_def split: if_splits) (auto simp: ActorMessage_on_def result_simps)
qed

lemma received_addr:
  assumes "receiveActorMessage nb cb src bs cm = Inr (Some (cls, m), cm')" and "cls \<noteq> CallActor_class"
  shows "am_addr m = cm_recv_addr cm'"
  using assms created_addr by (auto simp: receiveActorMessage_def Let_def result_simps)

context wire_codec
begin

text \<open>One turn of the server on a message of this class.\<close>

lemma turn:
  assumes "ok v" and "srv_inv srv" and "mk b v = Inr m" and "sendActorMessage dst m = Inr mm"
  shows "\<exists>m' srv1. server_turn env (src, mm_bytes mm) srv = routeHandleMessage env (cls, m') srv1 \<and>
    view m' = Inr v \<and> am_src m' = src \<and> srv_inv srv1 \<and> as_sent srv1 = as_sent srv \<and>
    as_dataStore srv1 = as_dataStore srv \<and> as_pendingResultRequests srv1 = as_pendingResultRequests srv \<and>
    as_pids srv1 = as_pids srv \<and> as_next_result_store_local_key srv1 = as_next_result_store_local_key srv \<and>
    am_addr m' = (if cls = CallActor_class then am_addr m' else cm_recv_addr (as_comm srv1))"
proof -
  have cm: "cm_inv (as_comm srv)" using assms(2) by (simp add: srv_inv_def)
  obtain mm0 m' cm' where r: "sendActorMessage dst m = Inr mm0"
    "receiveActorMessage (se_block env (as_tick srv)) (se_block env (as_tick srv + 1)) src (mm_bytes mm0) (as_comm srv) =
      Inr (Some (cls, m'), cm')" "cm_inv cm'" "am_src m' = src" "view m' = Inr v"
    using sent_received [OF assms(1) cm, of b dst] assms(3) by (metis Inr_inject)
  have addr: "am_addr m' = cm_recv_addr cm'" if "cls \<noteq> CallActor_class"
    using received_addr [OF r(2) that] .
  let ?srv1 = "(tick (tick srv))\<lparr>as_comm := cm'\<rparr>"
  have "server_turn env (src, mm_bytes mm) srv = routeHandleMessage env (cls, m') ?srv1"
    using r(1,2) assms(4) by (simp add: server_turn_def)
  moreover have "srv_inv ?srv1" using r(3) assms(2) by (simp add: srv_inv_def tick_def)
  moreover have "am_addr m' = (if cls = CallActor_class then am_addr m' else cm_recv_addr (as_comm ?srv1))"
    using addr by simp
  ultimately show ?thesis
    using r(4,5) by (intro exI [of _ m'] exI [of _ ?srv1] conjI) (assumption | simp add: tick_def)+
qed

end

section \<open>The servers answer the requests\<close>

text \<open>What the data store of a server has ready under a key.\<close>

definition held :: "actor_server \<Rightarrow> c_int \<Rightarrow> byte list option" where
  "held srv key = (case ds_abs (as_dataStore srv) key of None \<Rightarrow> None
     | Some p \<Rightarrow> if part_ready p \<and> length (sp_bytes p) < 2 ^ 64 then Some (sp_bytes p) else None)"

lemma held_req_ready:
  assumes "good_req base w (\<lambda>s. held (servers s)) s r"
  shows "req_ready (as_dataStore (servers s)) r"
    and "req_bytes_of (as_dataStore (servers s)) r = answer_of (\<lambda>s. held (servers s)) s r"
  using assms
  by (auto simp: good_req_def held_def req_ready_def in_part_def req_bytes_of_def part_slice_def answer_of_def
      split: option.splits if_splits)

lemma one_server_answers:
  assumes "srv_inv (servers s)" and "parts_ok (self, rs)" and "\<forall>r\<in>set rs. good_req base w (\<lambda>s. held (servers s)) s r"
    and mm: "GetResultPartsMessage b self rs = Inr m" "sendActorMessage s m = Inr mm"
    and one: "filter (\<lambda>mm. mm_dst mm = s) sent = [mm]"
  shows "served envs servers self sent s = map (answer_of (\<lambda>s. held (servers s)) s) rs"
proof -
  obtain m' srv1 where t: "server_turn (envs s) (self, mm_bytes mm) (servers s) = routeHandleMessage (envs s) (GetResultParts_class, m') srv1"
    "parts_view m' = Inr (self, rs)" "srv_inv srv1" "as_sent srv1 = as_sent (servers s)" "as_dataStore srv1 = as_dataStore (servers s)"
    using parts.turn [OF assms(2,1), of b m s mm "envs s" self] mm by auto
  have ready: "\<forall>r\<in>set rs. req_ready (as_dataStore srv1) r" "\<forall>r\<in>set rs. req_bytes_of (as_dataStore srv1) r = answer_of (\<lambda>s. held (servers s)) s r"
    using assms(3) held_req_ready t(5) by auto
  have h: "handleGetResultPartsMessage m' srv1 =
      Inr (srv1\<lparr>as_sent := as_sent srv1 @ map (\<lambda>r. part_message self (req_bytes_of (as_dataStore srv1) r)) rs\<rparr>)"
    by (rule serve_ready [OF t(3,2) ready(1)])
  have "server_turn (envs s) (self, mm_bytes mm) (servers s) =
      Inr (srv1\<lparr>as_sent := as_sent srv1 @ map (\<lambda>r. part_message self (req_bytes_of (as_dataStore srv1) r)) rs\<rparr>)"
    unfolding t(1) routeHandleMessage_def by (simp add: h)
  then show ?thesis
    using ready(2) t(4) one by (simp add: served_def part_message_def comp_def filter_map)
qed

lemma requests_sent:
  assumes "distinct (map fst reqs)" and "\<forall>(s, rs)\<in>set reqs. parts_ok (self, rs)"
  shows "\<exists>sent. send_requests blocks self reqs = Inr sent \<and> map mm_dst sent = map fst reqs \<and>
    (\<forall>(s, rs)\<in>set reqs. \<exists>b m mm. GetResultPartsMessage b self rs = Inr m \<and> sendActorMessage s m = Inr mm \<and>
      filter (\<lambda>mm. mm_dst mm = s) sent = [mm])"
proof -
  have one: "\<exists>m mm. GetResultPartsMessage b self rs = Inr m \<and> sendActorMessage s m = Inr mm \<and> mm_dst mm = s"
    if "parts_ok (self, rs)" for b s rs
    using parts_encode [OF that, of b] sendActorMessage_fresh by fastforce
  have "\<exists>sent. mapE (\<lambda>(i, s, rs). bindE (GetResultPartsMessage (blocks i) self rs) (\<lambda>m. sendAsyncActorMessage s m)) (enumerate k xs) = Inr sent \<and>
      map mm_dst sent = map fst xs \<and> (\<forall>(s, rs)\<in>set xs. \<exists>b m mm. GetResultPartsMessage b self rs = Inr m \<and>
        sendActorMessage s m = Inr mm \<and> filter (\<lambda>mm. mm_dst mm = s) sent = [mm])"
    if "distinct (map fst xs)" "\<forall>(s, rs)\<in>set xs. parts_ok (self, rs)" for k xs
    using that
  proof (induction xs arbitrary: k)
    case Nil
    then show ?case by simp
  next
    case (Cons x xs)
    obtain s rs where x: "x = (s, rs)" by (cases x)
    obtain m mm where m: "GetResultPartsMessage (blocks k) self rs = Inr m" "sendActorMessage s m = Inr mm" "mm_dst mm = s"
      using one [of rs "blocks k" s] Cons.prems(2) x by auto
    obtain sent where sent: "mapE (\<lambda>(i, s, rs). bindE (GetResultPartsMessage (blocks i) self rs) (\<lambda>m. sendAsyncActorMessage s m)) (enumerate (Suc k) xs) = Inr sent"
      "map mm_dst sent = map fst xs" "\<forall>(s, rs)\<in>set xs. \<exists>b m mm. GetResultPartsMessage b self rs = Inr m \<and>
        sendActorMessage s m = Inr mm \<and> filter (\<lambda>mm. mm_dst mm = s) sent = [mm]"
      using Cons.IH [of "Suc k"] Cons.prems by auto
    have "s \<notin> mm_dst ` set sent"
      using sent(2) Cons.prems(1) x by (metis distinct.simps(2) fst_conv list.simps(9) set_map)
    then have "filter (\<lambda>mm. mm_dst mm = s) (mm # sent) = [mm]" using m(3) by (auto simp: filter_empty_conv image_iff)
    moreover have "filter (\<lambda>mm. mm_dst mm = t) (mm # sent) = filter (\<lambda>mm. mm_dst mm = t) sent" if "(t, ts) \<in> set xs" for t ts
      using that m(3) Cons.prems(1) x by force
    ultimately show ?case
      using m sent by (intro exI [of _ "mm # sent"]) (force simp: x sendAsyncActorMessage_def sendActorMessage_def)
  qed
  then show ?thesis unfolding send_requests_def using assms by blast
qed

lemma step_nreqs:
  "get_part_step self base stores offset fin dv i plan = Inr plan' \<Longrightarrow> gp_nreqs plan' \<le> Suc (gp_nreqs plan)" (is "_ \<Longrightarrow> ?thesis")
proof -
  assume step: "get_part_step self base stores offset fin dv i plan = Inr plan'"
  obtain part where part: "getPart (of_nat i) dv = Inr part" using step by (auto simp: get_part_step_def result_simps)
  show ?thesis
  proof (cases "part_overlap offset fin part")
    case None
    then show ?thesis using step part by (simp add: get_part_step_def)
  next
    case (Some ol)
    obtain ro rs where "ol = (ro, rs)" by (cases ol)
    then show ?thesis
      using step part Some by (cases "vp_pid part = self") (auto simp: get_part_step_def Let_def result_simps)
  qed
qed

lemma plan_nreqs:
  "foldE (get_part_step self base stores offset fin dv) [0..<k] plan = Inr plan' \<Longrightarrow> gp_nreqs plan' \<le> gp_nreqs plan + k"
proof (induction k arbitrary: plan')
  case 0
  then show ?case by simp
next
  case (Suc k)
  then obtain p where "foldE (get_part_step self base stores offset fin dv) [0..<k] plan = Inr p"
    "get_part_step self base stores offset fin dv k p = Inr plan'"
    by (auto simp: foldE_append result_simps)
  with Suc.IH [of p] step_nreqs [of self base stores offset fin dv k p plan'] show ?case by simp
qed

lemma length_le_concat: "(s, rs) \<in> set reqs \<Longrightarrow> length rs \<le> length (concat (map snd reqs))"
  by (induction reqs) auto

text \<open>A network that answers every request with the bytes asked for.\<close>

lemma dv_get_part_network:
  assumes desc: "describes parts v" and rng: "from + n \<le> length v" and out: "length out = n"
    and small: "12 + 32 * length parts < 2 ^ 31"
    and content: "\<forall>part\<in>set parts. content (vp_pid part) (vp_resid part) = Some (part_bytes_of v part)"
    and local: "\<forall>i<length parts. vp_pid (parts ! i) = self \<longrightarrow> arrives (stores i) (vp_resid (parts ! i)) (part_bytes_of v (parts ! i))"
    and network: "\<And>reqs sent s rs b m mm. send_requests blocks self reqs = Inr sent \<Longrightarrow> (s, rs) \<in> set reqs \<Longrightarrow>
      parts_ok (self, rs) \<Longrightarrow> \<forall>r\<in>set rs. good_req base (peek from n v) content s r \<Longrightarrow> s \<noteq> self \<Longrightarrow>
      GetResultPartsMessage b self rs = Inr m \<Longrightarrow> sendActorMessage s m = Inr mm \<Longrightarrow>
      filter (\<lambda>mm. mm_dst mm = s) sent = [mm] \<Longrightarrow> network sent s = map (answer_of content s) rs"
  shows "\<exists>sent. dv_get_part blocks self base stores network (vd_bytes parts) (of_nat from) (of_nat n) out = Inr (sent, peek from n v) \<and>
    (\<forall>mm\<in>set sent. mm_dst mm \<noteq> self) \<and> distinct (map mm_dst sent)"
proof -
  let ?w = "peek from n v"
  obtain cs plan where plan: "foldE (get_part_step self base stores (of_nat from) (of_nat (from + n)) (vd_bytes parts)) [0..<length parts]
      \<lparr>gp_out = out, gp_reqs = [], gp_nreqs = 0\<rparr> = Inr plan" and inv: "plan_inv self base ?w content cs plan"
    and cover: "\<forall>i<length parts. \<forall>j<n. unat (vp_offset (parts ! i)) \<le> from + j \<and> from + j < unat (vp_offset (parts ! i)) + unat (vp_size (parts ! i)) \<longrightarrow>
      (\<exists>(d, l)\<in>set cs \<union> set (plan_pieces base plan). d \<le> j \<and> j < d + l)"
    using plan_all [OF desc rng out content local order_refl, of base] by blast
  have nreqs: "gp_nreqs plan \<le> length parts" using plan_nreqs [OF plan] by simp
  have reqs: "distinct (map fst (gp_reqs plan))"
    "\<forall>(s, rs)\<in>set (gp_reqs plan). s \<noteq> self \<and> (\<forall>r\<in>set rs. good_req base ?w content s r)"
    "gp_nreqs plan = length (concat (map snd (gp_reqs plan)))" "agrees_on cs ?w (gp_out plan)"
    using inv keys_sorted_distinct by (auto simp: plan_inv_def)
  have ok: "parts_ok (self, rs)" if "(s, rs) \<in> set (gp_reqs plan)" for s rs
    using length_le_concat [OF that] reqs(3) nreqs small by (simp add: parts_ok_def)
  then obtain sent where sent: "send_requests blocks self (gp_reqs plan) = Inr sent" "map mm_dst sent = map fst (gp_reqs plan)"
    "\<forall>(s, rs)\<in>set (gp_reqs plan). \<exists>b m mm. GetResultPartsMessage b self rs = Inr m \<and> sendActorMessage s m = Inr mm \<and>
      filter (\<lambda>mm. mm_dst mm = s) sent = [mm]"
    using requests_sent [OF reqs(1), of self blocks] by blast
  have "\<forall>(s, rs)\<in>set (gp_reqs plan). (\<forall>r\<in>set rs. good_req base ?w content s r) \<and> network sent s = map (answer_of content s) rs"
  proof clarify
    fix s rs assume mem: "(s, rs) \<in> set (gp_reqs plan)"
    then obtain b m mm where m: "GetResultPartsMessage b self rs = Inr m" "sendActorMessage s m = Inr mm"
      "filter (\<lambda>mm. mm_dst mm = s) sent = [mm]" using sent(3) by blast
    have g: "\<forall>r\<in>set rs. good_req base ?w content s r" "s \<noteq> self" using reqs(2) mem by auto
    then show "(\<forall>r\<in>set rs. good_req base ?w content s r) \<and> network sent s = map (answer_of content s) rs"
      using network [OF sent(1) mem ok [OF mem] g m] by blast
  qed
  from receive_all [OF reqs(4) this reqs(1)]
  obtain out' rest cs' where recv: "foldE (receive_part base) (concat (map (\<lambda>(s, rs). map (Pair s) rs) (gp_reqs plan))) (gp_out plan, network sent) = Inr (out', rest)"
    "agrees_on cs' ?w out'" "set cs' = set cs \<union> set (plan_pieces base plan)"
    unfolding plan_pieces_def by blast
  have "out' = ?w"
  proof (rule agrees_on_all [OF recv(2)], intro allI impI)
    fix j assume "j < length ?w"
    then have j: "j < n" "from + j < length v" using rng by (simp_all add: length_peek)
    then obtain part where part: "part \<in> set parts" "unat (vp_offset part) \<le> from + j" "from + j < unat (vp_offset part) + unat (vp_size part)"
      using desc by (auto simp: describes_def)
    then obtain i where "i < length parts" "parts ! i = part" by (auto simp: in_set_conv_nth)
    with cover part j show "\<exists>(d, l)\<in>set cs'. d \<le> j \<and> j < d + l" unfolding recv(3) by blast
  qed
  moreover have "length (concat (map (\<lambda>(s, rs). map (Pair s) rs) xs)) = length (concat (map snd xs))" for xs :: "(c_int \<times> result_req_part list) list"
    by (induction xs) auto
  moreover have "length parts < 2 ^ 31" using small by simp
  ultimately have "dv_get_part blocks self base stores network (vd_bytes parts) (of_nat from) (of_nat n) out = Inr (sent, ?w)"
    using plan sent(1) recv(1) reqs(3) by (simp add: dv_get_part_def)
  moreover have "\<forall>mm\<in>set sent. mm_dst mm \<noteq> self"
  proof
    fix mm assume "mm \<in> set sent"
    then have "mm_dst mm \<in> set (map fst (gp_reqs plan))" using arg_cong [OF sent(2), of set] by auto
    then obtain rs where "(mm_dst mm, rs) \<in> set (gp_reqs plan)" by auto
    then show "mm_dst mm \<noteq> self" using reqs(2) by blast
  qed
  ultimately show ?thesis using sent(2) reqs(1) by auto
qed

lemma held_arrives:
  assumes "srv_inv srv" and "held srv key = Some c"
    and "stores = before @ as_dataStore srv # later" and "\<forall>d\<in>set before. getPartData key d = Inr (None, 0)"
  shows "arrives stores key c"
proof -
  obtain p where p: "ds_abs (as_dataStore srv) key = Some p" "part_ready p" "sp_bytes p = c"
    using assms(2) by (auto simp: held_def split: option.splits if_splits)
  have "ds_inv (as_dataStore srv)" using assms(1) by (simp add: srv_inv_def)
  from getPartData_ready [OF this p(1)] p(2,3) show ?thesis
    unfolding arrives_def assms(3) using assms(4) by (fastforce simp: part_ready_def)
qed

lemma dv_get_part_held:
  assumes "describes parts v" and "from + n \<le> length v" and "length out = n" and "12 + 32 * length parts < 2 ^ 31"
    and "\<forall>s. srv_inv (servers s)"
    and "\<forall>part\<in>set parts. held (servers (vp_pid part)) (vp_resid part) = Some (part_bytes_of v part)"
    and "\<forall>i<length parts. vp_pid (parts ! i) = self \<longrightarrow>
      (\<exists>before later. stores i = before @ as_dataStore (servers self) # later \<and>
        (\<forall>d\<in>set before. getPartData (vp_resid (parts ! i)) d = Inr (None, 0)))"
  shows "\<exists>sent. dv_get_part blocks self base stores (served envs servers self) (vd_bytes parts) (of_nat from) (of_nat n) out =
      Inr (sent, peek from n v) \<and> (\<forall>mm\<in>set sent. mm_dst mm \<noteq> self) \<and> distinct (map mm_dst sent)"
proof (rule dv_get_part_network [where content = "\<lambda>s. held (servers s)", OF assms(1-4,6)])
  show "\<forall>i<length parts. vp_pid (parts ! i) = self \<longrightarrow> arrives (stores i) (vp_resid (parts ! i)) (part_bytes_of v (parts ! i))"
    using assms(5-7) held_arrives by (metis nth_mem)
  fix reqs sent s rs b m mm
  assume "parts_ok (self, rs)" "\<forall>r\<in>set rs. good_req base (peek from n v) (\<lambda>s. held (servers s)) s r"
    "GetResultPartsMessage b self rs = Inr m" "sendActorMessage s m = Inr mm" "filter (\<lambda>mm. mm_dst mm = s) sent = [mm]"
  then show "served envs servers self sent s = map (answer_of (\<lambda>s. held (servers s)) s) rs"
    using assms(5) by (intro one_server_answers) auto
qed

section \<open>Properties\<close>

text \<open>
  Property C8: reading a range of a distributed vector gives exactly the bytes of the range, for any
  description of the vector in parts (of any sizes and order, overlapping or not) that cover it, and
  any range, when every process holds its parts. The parts of the reading process are copied from
  its own store, possibly after waiting for them; the parts of the other processes are complete
  when they are asked for. Every process that holds an overlapping part is sent one request, its
  server answers the ranges in the order of the request, and the answers, which are received per
  process, fill the buffer. Nothing is written outside the buffer and the read does not wait
  forever. (When a part is still pending, the answers of one process can overtake each other,
  see \<open>Server_Parts\<close>.)
\<close>

theorem dv_get_part_reads:
  assumes "describes parts v" and "from + n \<le> length v" and "length out = n" and "12 + 32 * length parts < 2 ^ 31"
    and "\<forall>s. srv_inv (servers s)"
    and "\<forall>part\<in>set parts. held (servers (vp_pid part)) (vp_resid part) = Some (part_bytes_of v part)"
    and "\<forall>i<length parts. vp_pid (parts ! i) = self \<longrightarrow>
      (\<exists>before later. stores i = before @ as_dataStore (servers self) # later \<and>
        (\<forall>d\<in>set before. getPartData (vp_resid (parts ! i)) d = Inr (None, 0)))"
  shows "\<exists>sent. dv_get_part blocks self base stores (served envs servers self) (vd_bytes parts) (of_nat from) (of_nat n) out =
      Inr (sent, peek from n v) \<and> (\<forall>mm\<in>set sent. mm_dst mm \<noteq> self) \<and> distinct (map mm_dst sent)"
  using assms by (rule dv_get_part_held)

theorem dv_get_part_reads_witness:
  "\<exists>ds sent. storePartVector 3 [7, 8, 9] DataStore = Inr ds \<and>
    dv_get_part (\<lambda>_. \<lparr>bl_addr = 1, bl_mem = \<lambda>_. 0\<rparr>) 0 100 (\<lambda>_. [])
      (served (\<lambda>_. plain_env) (\<lambda>s. if s = 4 then ActorServer 4\<lparr>as_dataStore := ds\<rparr> else ActorServer s) 0)
      (vd_bytes [\<lparr>vp_pid = 4, vp_resid = 3, vp_size = 3, vp_offset = 0\<rparr>]) 1 2 [0, 0] = Inr (sent, [8, 9])"
proof -
  let ?part = "\<lparr>vp_pid = 4, vp_resid = 3, vp_size = 3, vp_offset = 0\<rparr> :: vector_distribution_part"
  obtain ds where ds: "storePartVector 3 [7, 8, 9] DataStore = Inr ds" "srv_inv (ActorServer 0\<lparr>as_dataStore := ds\<rparr>)"
    "ds_abs ds = [3 \<mapsto> \<lparr>sp_bytes = [7, 8, 9], sp_missing = 0, sp_in_message = False\<rparr>]"
    using one_part_server [of "[7, 8, 9]"] by auto
  let ?servers = "\<lambda>s. if s = 4 then ActorServer 4\<lparr>as_dataStore := ds\<rparr> else ActorServer s"
  have "srv_inv (ActorServer 4\<lparr>as_dataStore := ds\<rparr>)"
    using ds(2) by (simp add: srv_inv_def ActorServer_def)
  then have "\<forall>s. srv_inv (?servers s)" by simp
  moreover have "\<forall>part\<in>set [?part]. held (?servers (vp_pid part)) (vp_resid part) = Some (part_bytes_of [7, 8, 9] part)"
    using ds(3) by (simp add: held_def part_ready_def part_bytes_of_def peek_def)
  moreover have "describes [?part] [7, 8, 9]"
    by (auto simp: describes_def vd_small_def)
  ultimately show ?thesis
    using dv_get_part_reads [of "[?part]" "[7, 8, 9]" 1 2 "[0, 0]" ?servers 0 "\<lambda>_. []"
      "\<lambda>_. \<lparr>bl_addr = 1, bl_mem = \<lambda>_. 0\<rparr>" 100 "\<lambda>_. plain_env"] ds(1)
    by (auto simp: peek_def)
qed

end
