(* ===== verification/Vector_Store.thy ===== *)
theory Vector_Store
  imports Vector_Access
begin

text \<open>
  The rest of the client side of \<^verbatim>\<open>MPIActorCommunicator\<close>: distributing a vector over an actor, storing
  and releasing parts, and reading futures. A distributed vector is distributed and read back
  through the servers of all processes.
\<close>

section \<open>The code\<close>

definition receiveKeyedFutureValue :: "byte list list \<Rightarrow> byte list result" where
  "receiveKeyedFutureValue arrived = (case arrived of [] \<Rightarrow> Inl Deadlock | bs # _ \<Rightarrow> Inr bs)"

definition comm_registerFutureData :: "block \<Rightarrow> c_int \<Rightarrow> c_int \<Rightarrow> byte list \<Rightarrow> mpi_message result" where
  "comm_registerFutureData b self key data = bindE (RegisterFutureMessage b key data) (sendActorMessage self)"

definition comm_getFutureData ::
  "block \<Rightarrow> c_int \<Rightarrow> c_int \<Rightarrow> (mpi_message list \<Rightarrow> c_int \<Rightarrow> byte list list) \<Rightarrow> (mpi_message \<times> byte list) result"
where
  "comm_getFutureData b pid key network =
     bindE (GetFutureDataMessage b key) (\<lambda>m.
     bindE (sendActorMessage pid m) (\<lambda>req.
       case network [req] pid of [] \<Rightarrow> Inl Deadlock | data # _ \<Rightarrow> Inr (req, data)))"

definition receiveResultPart :: "byte list list \<Rightarrow> nat \<Rightarrow> c_int \<Rightarrow> byte list \<Rightarrow> byte list result" where
  "receiveResultPart arrived dst sz out = (case arrived of [] \<Rightarrow> Inl Deadlock
     | bs # _ \<Rightarrow> if sint sz < int (length bs) then Inl Mpi_error else mem_write dst bs out)"

text \<open>One part of the vector, from the pointer \<^verbatim>\<open>v + part->offset\<close>; \<open>addr\<close> is the address of \<^verbatim>\<open>v\<close>.\<close>

definition store_part ::
  "(nat \<Rightarrow> block) \<Rightarrow> size_t \<Rightarrow> byte list \<Rightarrow> vector_distribution \<Rightarrow> nat \<Rightarrow> mpi_message result"
where
  "store_part blocks addr v dv i =
     bindE (getPart (of_nat i) dv) (\<lambda>part.
     bindE (StoreResultMessage (blocks i) (vp_resid part) (addr + vp_offset part)
         (drop (unat (vp_offset part)) v) (vp_size part) False) (\<lambda>m.
       sendAsyncActorMessage (vp_pid part) m))"

definition block_distribute ::
  "block \<Rightarrow> (nat \<Rightarrow> block) \<Rightarrow> size_t \<Rightarrow> c_int \<Rightarrow> byte list \<Rightarrow> size_t \<Rightarrow> size_t \<Rightarrow> (mpi_message list \<Rightarrow> byte list list) \<Rightarrow>
    (vector_distribution \<times> mpi_message \<times> mpi_message list) result"
where
  "block_distribute b blocks addr head v n elem_size network =
     bindE (DistributeVectorMessage b DISTR_BLOCK n elem_size) (\<lambda>m.
     bindE (sendActorMessage head m) (\<lambda>req.
       case network [req] of
         [] \<Rightarrow> Inl Deadlock
       | reply # _ \<Rightarrow>
           bindE (receiveDistrVector reply) (\<lambda>dv.
           bindE (nparts dv) (\<lambda>np.
           bindE (mapE (store_part blocks addr v dv) [0..<nat (sint np)]) (\<lambda>msgs.
             Inr (dv, req, msgs))))))"

definition release_part :: "(nat \<Rightarrow> block) \<Rightarrow> vector_distribution \<Rightarrow> nat \<Rightarrow> mpi_message result" where
  "release_part blocks dv i =
     bindE (getPart (of_nat i) dv) (\<lambda>part.
     bindE (ReleaseResultPartMessage (blocks i) (vp_resid part)) (\<lambda>m. sendAsyncActorMessage (vp_pid part) m))"

definition dv_release :: "(nat \<Rightarrow> block) \<Rightarrow> vector_distribution \<Rightarrow> mpi_message list result" where
  "dv_release blocks dv = bindE (nparts dv) (\<lambda>np. mapE (release_part blocks dv) [0..<nat (sint np)])"

text \<open>The send buffer of the communicator is an argument; the message left in it is a result.\<close>

definition comm_store_result ::
  "block \<Rightarrow> nat \<Rightarrow> byte list \<Rightarrow> size_t \<Rightarrow> c_int \<Rightarrow> c_int \<Rightarrow> size_t \<Rightarrow> byte list \<Rightarrow> size_t \<Rightarrow>
    (c_int \<times> mpi_message \<times> actor_message) result"
where
  "comm_store_result b send_addr send_buf send_size self resid addr buf sz =
     bindE (StoreResultMessage_in b send_addr send_buf send_size resid addr buf sz False) (\<lambda>m.
     bindE (sendActorMessage self m) (\<lambda>mm. Inr (resid, mm, m)))"

section \<open>Delivering messages to servers\<close>

definition deliver ::
  "(c_int \<Rightarrow> server_env) \<Rightarrow> c_int \<Rightarrow> mpi_message \<Rightarrow> (c_int \<Rightarrow> actor_server) \<Rightarrow> (c_int \<Rightarrow> actor_server) result"
where
  "deliver envs src mm servers =
     bindE (server_turn (envs (mm_dst mm)) (src, mm_bytes mm) (servers (mm_dst mm))) (\<lambda>srv.
       Inr (servers(mm_dst mm := srv)))"

text \<open>
  A server that receives the bytes of a message of a class, however they came about: the sender may
  have left anything behind the message.
\<close>

context wire_codec
begin

lemma turn_bytes:
  assumes "length bs < 2 ^ 31" and "get_int bs 0 = Inr ins" and "view (at_bytes bs) = Inr v" and "cls \<noteq> CallActor_class"
    and "srv_inv srv"
  shows "\<exists>m' srv1. server_turn env (src, bs) srv = routeHandleMessage env (cls, m') srv1 \<and> view m' = Inr v \<and> srv_inv srv1 \<and>
    as_dataStore srv1 = as_dataStore srv \<and> as_pendingResultRequests srv1 = as_pendingResultRequests srv \<and>
    am_addr m' = cm_recv_addr (as_comm srv1)"
proof -
  have cm: "cm_inv (as_comm srv)" using assms(5) by (simp add: srv_inv_def)
  let ?nb = "se_block env (as_tick srv)" and ?cb = "se_block env (as_tick srv + 1)"
  obtain cm' junk where cm': "cm_inv cm'" "receiveActorMessage ?nb ?cb src bs (as_comm srv) =
      bindE (createMessage ?cb src (cm_recv_addr cm') (bs @ junk) (of_nat (length bs))) (\<lambda>m. Inr (m, cm'))"
    using receive_prefix [OF cm assms(1)] by blast
  obtain m' where m': "createMessage ?cb src (cm_recv_addr cm') (bs @ junk) (of_nat (length bs)) = Inr (Some (cls, m'))" "am_buf m' = bs @ junk"
    using createMessage_class [OF get_int_prefix [OF assms(2)] ins_cls assms(1), of junk] assms(4) by fastforce
  let ?srv1 = "(tick (tick srv))\<lparr>as_comm := cm'\<rparr>"
  have "server_turn env (src, bs) srv = routeHandleMessage env (cls, m') ?srv1"
    using cm'(2) m'(1) by (simp add: server_turn_def)
  moreover have "view m' = Inr v" using view_prefix [OF assms(3), of m' junk] m'(2) by simp
  moreover have "srv_inv ?srv1" using cm'(1) assms(5) by (simp add: srv_inv_def tick_def)
  moreover have "am_addr m' = cm_recv_addr (as_comm ?srv1)" using created_addr [OF m'(1) assms(4)] by simp
  ultimately show ?thesis by (intro exI [of _ m'] exI [of _ ?srv1]) (simp add: tick_def)
qed

end

definition is_store :: "c_int \<Rightarrow> c_int \<Rightarrow> byte list \<Rightarrow> mpi_message \<Rightarrow> bool" where
  "is_store pid key v mm \<longleftrightarrow> mm_dst mm = pid \<and> length (mm_bytes mm) < 2 ^ 31 \<and> length v < 2 ^ 64 \<and>
     get_int (mm_bytes mm) 0 = Inr INSTRUCTION_STORE_RESULT \<and> store_view (at_bytes (mm_bytes mm)) = Inr (key, v)"

text \<open>A part that is sent to a server which does not know its key is held there afterwards.\<close>

lemma deliver_store:
  assumes inv: "srv_inv (servers s)" and new: "ds_abs (as_dataStore (servers s)) key = None"
    and idle: "as_pendingResultRequests (servers s) key = None" and mm: "is_store s key v mm"
  shows "\<exists>t. deliver envs src mm servers = Inr (servers(s := t)) \<and> srv_inv t \<and> held t key = Some v \<and>
    (\<forall>k. k \<noteq> key \<longrightarrow> held t k = held (servers s) k \<and> ds_abs (as_dataStore t) k = ds_abs (as_dataStore (servers s)) k) \<and>
    as_pendingResultRequests t = as_pendingResultRequests (servers s)"
proof -
  have bytes: "length (mm_bytes mm) < 2 ^ 31" "get_int (mm_bytes mm) 0 = Inr INSTRUCTION_STORE_RESULT"
    "store_view (at_bytes (mm_bytes mm)) = Inr (key, v)" "mm_dst mm = s" "length v < 2 ^ 64"
    using mm by (simp_all add: is_store_def)
  obtain m' srv1 where t: "server_turn (envs s) (src, mm_bytes mm) (servers s) = routeHandleMessage (envs s) (StoreResult_class, m') srv1"
    "store_view m' = Inr (key, v)" "srv_inv srv1" "as_dataStore srv1 = as_dataStore (servers s)"
    "as_pendingResultRequests srv1 = as_pendingResultRequests (servers s)" "am_addr m' = cm_recv_addr (as_comm srv1)"
    using store.turn_bytes [OF bytes(1-3) _ inv, of "envs s" src] by auto
  have "ds_abs (as_dataStore srv1) key = None" "as_pendingResultRequests srv1 key = None"
    using new idle t(4,5) by simp_all
  from store_answers [OF t(3) this(1) t(2), of "[]" "envs s"] this(2) t(6)
  obtain u where u: "handleStoreResultMessage (envs s) m' srv1 = Inr u" "srv_inv u"
    "as_pendingResultRequests u = as_pendingResultRequests srv1"
    "ds_abs (as_dataStore u) = (ds_abs (as_dataStore srv1))(key \<mapsto> \<lparr>sp_bytes = v, sp_missing = 0, sp_in_message = True\<rparr>)"
    by auto
  have "held u key = Some v" "\<And>k. k \<noteq> key \<Longrightarrow> held u k = held (servers s) k"
    using u(4) t(4) bytes(5) by (simp_all add: held_def part_ready_def)
  moreover have "deliver envs src mm servers = Inr (servers(s := u))"
    using t(1) u(1) bytes(4) by (simp add: deliver_def routeHandleMessage_def)
  ultimately show ?thesis using u(2-4) t(4,5) by (intro exI [of _ u]) simp
qed

section \<open>Storing all parts\<close>

lemma store_part_sent:
  assumes "vd_small (length parts)" and "i < length parts" and "length v < 2 ^ 31 - 28"
    and "unat (vp_offset (parts ! i)) + unat (vp_size (parts ! i)) \<le> length v"
  shows "\<exists>mm. store_part blocks addr v (vd_bytes parts) i = Inr mm \<and>
    is_store (vp_pid (parts ! i)) (vp_resid (parts ! i)) (part_bytes_of v (parts ! i)) mm"
proof -
  let ?part = "parts ! i" and ?o = "unat (vp_offset (parts ! i))" and ?n = "unat (vp_size (parts ! i))"
  let ?d = "take ?n (drop ?o v)"
  have len: "length ?d = ?n" "?n < 2 ^ 64" using assms(3,4) by simp_all
  have ok: "store_ok (vp_resid ?part, ?d)" using assms(3,4) by (simp add: store_ok_def)
  obtain buf where buf: "StoreResultMessage (blocks i) (vp_resid ?part) 0 ?d (of_nat ?n) False = Inr (fresh_message (blocks i) buf)"
    "length buf < 2 ^ 31" "get_int buf 0 = Inr INSTRUCTION_STORE_RESULT" "store_view (fresh_message (blocks i) buf) = Inr (vp_resid ?part, ?d)"
    using store_encode [OF ok, of "blocks i" 0] len by auto
  have "mem_read (drop ?o v) 0 ?n = Inr ?d" "mem_read ?d 0 ?n = Inr ?d"
    using assms(4) len by (simp_all add: mem_read_def peek_def)
  then have "StoreResultMessage (blocks i) (vp_resid ?part) (addr + vp_offset ?part) (drop ?o v) (of_nat ?n) False =
      StoreResultMessage (blocks i) (vp_resid ?part) 0 ?d (of_nat ?n) False"
    using len(2) by (simp add: StoreResultMessage_def store_build_def Let_def)
  then have "store_part blocks addr v (vd_bytes parts) i =
      Inr \<lparr>mm_dst = vp_pid ?part, mm_tag = ABSP_MPI_MANAGEMENT_THREAD_TAG, mm_bytes = buf\<rparr>"
    using getPart_eq [OF assms(1,2)] buf(1) sendActorMessage_fresh [OF buf(2)]
    by (simp add: store_part_def sendAsyncActorMessage_def sendActorMessage_def)
  moreover have "store_view (at_bytes buf) = Inr (vp_resid ?part, ?d)"
    using buf(4) store_view_buf [of "fresh_message (blocks i) buf"] by simp
  ultimately show ?thesis using buf(2,3) len by (simp add: is_store_def part_bytes_of_def peek_def)
qed

lemma mapE_all:
  "(\<And>i. i \<in> set is \<Longrightarrow> \<exists>y. f i = Inr y \<and> P i y) \<Longrightarrow> \<exists>ys. mapE f is = Inr ys \<and> list_all2 P is ys"
proof (induction "is")
  case Nil
  then show ?case by simp
next
  case (Cons i "is")
  then show ?case by fastforce
qed

text \<open>
  Parts that are pairwise different in process or key, and whose keys are new where they are sent to,
  can all be stored.
\<close>

abbreviation part_key :: "vector_distribution_part \<Rightarrow> c_int \<times> c_int" where
  "part_key part \<equiv> (vp_pid part, vp_resid part)"

definition key_unused :: "(c_int \<Rightarrow> actor_server) \<Rightarrow> c_int \<times> c_int \<Rightarrow> bool" where
  "key_unused servers = (\<lambda>(s, key). ds_abs (as_dataStore (servers s)) key = None \<and> as_pendingResultRequests (servers s) key = None)"

lemma deliver_all:
  assumes "\<forall>s. srv_inv (servers s)" and "list_all2 (\<lambda>part mm. is_store (vp_pid part) (vp_resid part) (part_bytes_of v part) mm) parts msgs"
    and "distinct (map part_key parts)" and "\<forall>part\<in>set parts. key_unused servers (part_key part)"
  shows "\<exists>servers'. foldE (\<lambda>mm. deliver envs (src mm) mm) msgs servers = Inr servers' \<and> (\<forall>s. srv_inv (servers' s)) \<and>
    (\<forall>part\<in>set parts. held (servers' (vp_pid part)) (vp_resid part) = Some (part_bytes_of v part)) \<and>
    (\<forall>s k. (s, k) \<notin> part_key ` set parts \<longrightarrow> held (servers' s) k = held (servers s) k \<and>
      key_unused servers' (s, k) = key_unused servers (s, k))"
  using assms(2,1,3,4)
proof (induction parts msgs arbitrary: servers rule: list_all2_induct)
  case Nil
  then show ?case by simp
next
  case (Cons part parts mm msgs)
  let ?s = "vp_pid part" and ?k = "vp_resid part"
  have fresh: "ds_abs (as_dataStore (servers ?s)) ?k = None" "as_pendingResultRequests (servers ?s) ?k = None" "srv_inv (servers ?s)"
    using Cons.prems(1,3) by (simp_all add: key_unused_def)
  obtain t where t: "deliver envs (src mm) mm servers = Inr (servers(?s := t))" "srv_inv t" "held t ?k = Some (part_bytes_of v part)"
    "\<forall>k. k \<noteq> ?k \<longrightarrow> held t k = held (servers ?s) k \<and> ds_abs (as_dataStore t) k = ds_abs (as_dataStore (servers ?s)) k"
    "as_pendingResultRequests t = as_pendingResultRequests (servers ?s)"
    using deliver_store [where servers = servers and s = ?s, OF fresh(3,1,2) Cons.hyps(1), of envs "src mm"] by blast
  let ?servers = "servers(?s := t)"
  have keys: "part_key part \<notin> part_key ` set parts" using Cons.prems(2) by simp
  have "\<forall>s. srv_inv (?servers s)" "distinct (map part_key parts)" using Cons.prems(1,2) t(2) by simp_all
  moreover have "\<forall>part\<in>set parts. key_unused ?servers (part_key part)"
  proof
    fix other assume other: "other \<in> set parts"
    have "part_key other \<noteq> part_key part"
    proof
      assume eq: "part_key other = part_key part"
      have "part_key other \<in> part_key ` set parts" using other by (rule imageI)
      then show False unfolding eq using keys by (rule notE [rotated])
    qed
    then show "key_unused ?servers (part_key other)"
      using Cons.prems(3) [rule_format, of other] t(4,5) other by (cases "vp_pid other = ?s") (simp_all add: key_unused_def)
  qed
  ultimately obtain servers' where ih: "foldE (\<lambda>mm. deliver envs (src mm) mm) msgs ?servers = Inr servers'" "\<forall>s. srv_inv (servers' s)"
    "\<forall>part\<in>set parts. held (servers' (vp_pid part)) (vp_resid part) = Some (part_bytes_of v part)"
    "\<forall>s k. (s, k) \<notin> part_key ` set parts \<longrightarrow> held (servers' s) k = held (?servers s) k \<and> key_unused servers' (s, k) = key_unused ?servers (s, k)"
    using Cons.IH [of ?servers] by blast
  have "held (servers' ?s) ?k = Some (part_bytes_of v part)" using ih(4) keys t(3) by simp
  moreover have "held (servers' s) k = held (servers s) k \<and> key_unused servers' (s, k) = key_unused servers (s, k)"
    if "(s, k) \<notin> part_key ` set (part # parts)" for s k
    using ih(4) t(4,5) that by (cases "s = ?s") (auto simp: key_unused_def)
  ultimately show ?case using ih(1-3) t(1) by auto
qed

section \<open>A distributed vector can be read back\<close>

lemma block_parts_describe:
  assumes "pids \<noteq> []" and "vd_small (length pids)" and "length v = n * e" and "length v < 2 ^ 31"
  shows "describes (block_parts pids k n e) v"
  unfolding describes_def
proof (intro conjI ballI allI impI)
  have small: "n * e < 2 ^ 64" using assms(3,4) by simp
  show "vd_small (length (block_parts pids k n e))" using assms(2) by simp
  show "length v < 2 ^ 31" by (rule assms(4))
  show "unat (vp_offset part) + unat (vp_size part) \<le> length v" if "part \<in> set (block_parts pids k n e)" for part
    using that block_part_bounds [OF _ small] assms(3) by (auto simp: block_parts_def)
  show "\<exists>part\<in>set (block_parts pids k n e). unat (vp_offset part) \<le> j \<and> j < unat (vp_offset part) + unat (vp_size part)"
    if j: "j < length v" for j
  proof -
    obtain i where "i < length pids" "block_begin n (length pids) i * e \<le> j"
      "j < block_begin n (length pids) i * e + block_size n (length pids) i * e"
      using ex1_implies_ex [OF block_owner [where p = "length pids" and j = j and n = n and e = e]] assms(1,3) j by auto
    then show ?thesis
      using block_part_bounds [of i pids n e] small
      by (intro bexI [of _ "block_part pids k n e i"]) (auto simp: block_parts_def)
  qed
qed

lemma distribute_keys:
  assumes "k + length pids < 2 ^ 31"
  shows "distinct (map vp_resid (block_parts pids k n e))"
  using assms by (auto simp: block_parts_def distinct_map inj_on_def block_part_def dest: local_key_inj [rotated 2])

lemma distribute_request:
  assumes inv: "srv_inv (servers head)" and small: "vd_small (length (as_pids (servers head)))" and n: "n < 2 ^ 31"
    and key: "as_next_result_store_local_key (servers head) = local_key k" and k: "k + length (as_pids (servers head)) < 2 ^ 31"
  shows "\<exists>m req srv. DistributeVectorMessage b DISTR_BLOCK (of_nat n) (of_nat e) = Inr m \<and> sendActorMessage head m = Inr req \<and>
    deliver envs self req servers = Inr (servers(head := srv)) \<and> srv_inv srv \<and>
    as_sent srv = as_sent (servers head) @ [\<lparr>mm_dst = self, mm_tag = ABSP_MPI_MANAGEMENT_THREAD_TAG,
      mm_bytes = vd_bytes (block_parts (as_pids (servers head)) k n e)\<rparr>] \<and>
    as_dataStore srv = as_dataStore (servers head) \<and> as_pendingResultRequests srv = as_pendingResultRequests (servers head)"
proof -
  obtain buf where buf: "DistributeVectorMessage b DISTR_BLOCK (of_nat n) (of_nat e) = Inr (fresh_message b buf)" "length buf < 2 ^ 31"
    using distr_encode [of b DISTR_BLOCK "of_nat n" "of_nat e"] by auto
  let ?req = "\<lparr>mm_dst = head, mm_tag = ABSP_MPI_MANAGEMENT_THREAD_TAG, mm_bytes = buf\<rparr>"
  have send: "sendActorMessage head (fresh_message b buf) = Inr ?req" by (rule sendActorMessage_fresh [OF buf(2)])
  obtain m' srv1 where t: "server_turn (envs head) (self, buf) (servers head) = routeHandleMessage (envs head) (DistributeVector_class, m') srv1"
    "distr_view m' = Inr (DISTR_BLOCK, of_nat n, of_nat e)" "am_src m' = self" "srv_inv srv1" "as_sent srv1 = as_sent (servers head)"
    "as_dataStore srv1 = as_dataStore (servers head)" "as_pendingResultRequests srv1 = as_pendingResultRequests (servers head)"
    "as_pids srv1 = as_pids (servers head)" "as_next_result_store_local_key srv1 = as_next_result_store_local_key (servers head)"
    using distr.turn [of "servers head" b "(DISTR_BLOCK, of_nat n, of_nat e)" "fresh_message b buf" head ?req "envs head" self] inv buf(1) send
    by auto
  have h: "handleDistributeVectorMessage m' srv1 = Inr (srv1\<lparr>as_next_result_store_local_key := local_key (k + length (as_pids srv1)),
      as_sent := as_sent srv1 @ [\<lparr>mm_dst = am_src m', mm_tag = ABSP_MPI_MANAGEMENT_THREAD_TAG,
        mm_bytes = vd_bytes (block_parts (as_pids srv1) k n e)\<rparr>]\<rparr>)"
    using t(8,9) small n key k by (intro distribute_handled [OF t(2)]) simp_all
  let ?srv = "srv1\<lparr>as_next_result_store_local_key := local_key (k + length (as_pids srv1)),
      as_sent := as_sent srv1 @ [\<lparr>mm_dst = am_src m', mm_tag = ABSP_MPI_MANAGEMENT_THREAD_TAG,
        mm_bytes = vd_bytes (block_parts (as_pids srv1) k n e)\<rparr>]\<rparr>"
  have "deliver envs self ?req servers = Inr (servers(head := ?srv))"
    using t(1) h by (simp add: deliver_def routeHandleMessage_def)
  moreover have "srv_inv ?srv" using t(4) by (simp add: srv_inv_def)
  ultimately show ?thesis
    using buf(1) send t(3,5-8) by (intro exI [of _ "fresh_message b buf"] exI [of _ ?req] exI [of _ ?srv]) simp
qed

text \<open>What becomes of the parts, and of the keys that are not used for them.\<close>

lemma distribute_held:
  assumes inv: "\<forall>s. srv_inv (servers s)" and pids: "as_pids (servers head) \<noteq> []" "12 + 32 * length (as_pids (servers head)) < 2 ^ 31"
    and n: "n < 2 ^ 31" "length v = n * e" "length v < 2 ^ 31 - 28"
    and k: "as_next_result_store_local_key (servers head) = local_key k" "k + length (as_pids (servers head)) < 2 ^ 31"
    and unused: "\<forall>s i. i < length (as_pids (servers head)) \<longrightarrow> key_unused servers (s, local_key (k + i))"
  shows "\<exists>m req servers1 msgs servers2. DistributeVectorMessage b DISTR_BLOCK (of_nat n) (of_nat e) = Inr m \<and> sendActorMessage head m = Inr req \<and>
    deliver envs self req servers = Inr servers1 \<and>
    as_sent (servers1 head) = as_sent (servers head) @ [\<lparr>mm_dst = self, mm_tag = ABSP_MPI_MANAGEMENT_THREAD_TAG,
      mm_bytes = vd_bytes (block_parts (as_pids (servers head)) k n e)\<rparr>] \<and>
    block_distribute b blocks addr head v (of_nat n) (of_nat e) (\<lambda>sent. [vd_bytes (block_parts (as_pids (servers head)) k n e)]) =
      Inr (vd_bytes (block_parts (as_pids (servers head)) k n e), req, msgs) \<and>
    foldE (deliver envs self) msgs servers1 = Inr servers2 \<and> describes (block_parts (as_pids (servers head)) k n e) v \<and> (\<forall>s. srv_inv (servers2 s)) \<and>
    (\<forall>part\<in>set (block_parts (as_pids (servers head)) k n e). held (servers2 (vp_pid part)) (vp_resid part) = Some (part_bytes_of v part)) \<and>
    (\<forall>s x. (s, x) \<notin> part_key ` set (block_parts (as_pids (servers head)) k n e) \<longrightarrow> held (servers2 s) x = held (servers s) x \<and>
      key_unused servers2 (s, x) = key_unused servers (s, x))"
proof -
  let ?pids = "as_pids (servers head)"
  let ?parts = "block_parts ?pids k n e"
  have small: "vd_small (length ?pids)" "length ?pids < 2 ^ 31" using pids(2) by (simp_all add: vd_small_def)
  have desc: "describes ?parts v" using pids(1) n(2,3) small by (intro block_parts_describe) simp_all
  obtain m req srv where r: "DistributeVectorMessage b DISTR_BLOCK (of_nat n) (of_nat e) = Inr m" "sendActorMessage head m = Inr req"
    "deliver envs self req servers = Inr (servers(head := srv))" "srv_inv srv"
    "as_sent srv = as_sent (servers head) @ [\<lparr>mm_dst = self, mm_tag = ABSP_MPI_MANAGEMENT_THREAD_TAG, mm_bytes = vd_bytes ?parts\<rparr>]"
    "as_dataStore srv = as_dataStore (servers head)" "as_pendingResultRequests srv = as_pendingResultRequests (servers head)"
    using distribute_request [of servers head n k b e envs self] inv n(1) k small by blast
  let ?servers1 = "servers(head := srv)"
  have "\<exists>mm. store_part blocks addr v (vd_bytes ?parts) i = Inr mm \<and>
      is_store (vp_pid (?parts ! i)) (vp_resid (?parts ! i)) (part_bytes_of v (?parts ! i)) mm" if "i < length ?pids" for i
  proof (rule store_part_sent)
    have "?parts ! i \<in> set ?parts" using that by (intro nth_mem) simp
    then show "unat (vp_offset (?parts ! i)) + unat (vp_size (?parts ! i)) \<le> length v"
      using desc unfolding describes_def by blast
  qed (use n(3) small that in simp_all)
  then obtain msgs where msgs: "mapE (store_part blocks addr v (vd_bytes ?parts)) [0..<length ?pids] = Inr msgs"
    "list_all2 (\<lambda>i mm. is_store (vp_pid (?parts ! i)) (vp_resid (?parts ! i)) (part_bytes_of v (?parts ! i)) mm) [0..<length ?pids] msgs"
    using mapE_all [of "[0..<length ?pids]" "store_part blocks addr v (vd_bytes ?parts)"
      "\<lambda>i mm. is_store (vp_pid (?parts ! i)) (vp_resid (?parts ! i)) (part_bytes_of v (?parts ! i)) mm"] by auto
  have stores: "list_all2 (\<lambda>part mm. is_store (vp_pid part) (vp_resid part) (part_bytes_of v part) mm) ?parts msgs"
    using msgs(2) by (simp add: list_all2_conv_all_nth)
  have same: "key_unused ?servers1 x = key_unused servers x" "held (?servers1 s) y = held (servers s) y" for s x y
    by (cases x; simp add: key_unused_def r(6,7)) (simp add: held_def r(6))
  have fresh: "\<forall>part\<in>set ?parts. key_unused ?servers1 (part_key part)"
    unfolding same using unused by (auto simp: block_parts_def block_part_def)
  have keys: "distinct (map part_key ?parts)"
    using distribute_keys [OF k(2)] by (auto simp: distinct_conv_nth)
  have "\<forall>s. srv_inv (?servers1 s)" using inv r(4) by simp
  from deliver_all [OF this stores keys fresh, of envs "\<lambda>_. self"]
  obtain servers2 where s2: "foldE (deliver envs self) msgs ?servers1 = Inr servers2" "\<forall>s. srv_inv (servers2 s)"
    "\<forall>part\<in>set ?parts. held (servers2 (vp_pid part)) (vp_resid part) = Some (part_bytes_of v part)"
    "\<forall>s x. (s, x) \<notin> part_key ` set ?parts \<longrightarrow> held (servers2 s) x = held (servers s) x \<and> key_unused servers2 (s, x) = key_unused servers (s, x)"
    unfolding same by blast
  have "block_distribute b blocks addr head v (of_nat n) (of_nat e) (\<lambda>sent. [vd_bytes ?parts]) = Inr (vd_bytes ?parts, req, msgs)"
    using r(1,2) msgs(1) receiveDistrVector_eq [of ?parts] small by (simp add: block_distribute_def)
  then show ?thesis using r(1-3,5) s2 desc
    by (intro exI [of _ m] exI [of _ req] exI [of _ ?servers1] exI [of _ msgs] exI [of _ servers2]) simp
qed

text \<open>
  Property C7: a vector distributed over the processes of an actor can be read back. The head of the
  actor answers the request with a description; the parts sent to the processes the description
  names are stored there, and from then on every range of the vector that any process outside the
  actor reads is the range of the original vector.
\<close>

theorem distributed_vector_reads_back:
  assumes "\<forall>s. srv_inv (servers s)" and "as_pids (servers head) \<noteq> []" and "self \<notin> set (as_pids (servers head))"
    and "12 + 32 * length (as_pids (servers head)) < 2 ^ 31" and "n < 2 ^ 31" and "length v = n * e" and "length v < 2 ^ 31 - 28"
    and "as_next_result_store_local_key (servers head) = local_key k" and "k + length (as_pids (servers head)) < 2 ^ 31"
    and "\<forall>s i. i < length (as_pids (servers head)) \<longrightarrow> ds_abs (as_dataStore (servers s)) (local_key (k + i)) = None \<and>
      as_pendingResultRequests (servers s) (local_key (k + i)) = None"
  shows "\<exists>req servers1 reply dv msgs servers2. deliver envs self req servers = Inr servers1 \<and>
    as_sent (servers1 head) = as_sent (servers head) @ [\<lparr>mm_dst = self, mm_tag = ABSP_MPI_MANAGEMENT_THREAD_TAG, mm_bytes = reply\<rparr>] \<and>
    block_distribute b blocks addr head v (of_nat n) (of_nat e) (\<lambda>sent. [reply]) = Inr (dv, req, msgs) \<and>
    foldE (deliver envs self) msgs servers1 = Inr servers2 \<and>
    (\<forall>from m out. from + m \<le> length v \<longrightarrow> length out = m \<longrightarrow>
      (\<exists>sent. dv_get_part blocks self base stores (served envs servers2 self) dv (of_nat from) (of_nat m) out = Inr (sent, peek from m v)))"
proof -
  let ?pids = "as_pids (servers head)"
  let ?parts = "block_parts ?pids k n e"
  have "\<forall>s i. i < length ?pids \<longrightarrow> key_unused servers (s, local_key (k + i))" using assms(10) by (simp add: key_unused_def)
  from distribute_held [OF assms(1,2,4-9) this, of b envs self blocks addr]
  obtain req servers1 msgs servers2 where r: "deliver envs self req servers = Inr servers1"
    "as_sent (servers1 head) = as_sent (servers head) @ [\<lparr>mm_dst = self, mm_tag = ABSP_MPI_MANAGEMENT_THREAD_TAG, mm_bytes = vd_bytes ?parts\<rparr>]"
    "block_distribute b blocks addr head v (of_nat n) (of_nat e) (\<lambda>sent. [vd_bytes ?parts]) = Inr (vd_bytes ?parts, req, msgs)"
    "foldE (deliver envs self) msgs servers1 = Inr servers2" "describes ?parts v" "\<forall>s. srv_inv (servers2 s)"
    "\<forall>part\<in>set ?parts. held (servers2 (vp_pid part)) (vp_resid part) = Some (part_bytes_of v part)" by blast
  have "\<exists>sent. dv_get_part blocks self base stores (served envs servers2 self) (vd_bytes ?parts) (of_nat from) (of_nat m) out =
      Inr (sent, peek from m v)" if "from + m \<le> length v" "length out = m" for "from" m out
  proof -
    have "vp_pid (?parts ! i) \<noteq> self" if "i < length ?pids" for i
      using assms(3) that by (auto simp: block_part_def)
    then show ?thesis
      using dv_get_part_held [OF r(5) that _ r(6,7), of self stores blocks base envs] assms(4) by auto
  qed
  then show ?thesis
    using r(1-4) by (intro exI [of _ req] exI [of _ servers1] exI [of _ "vd_bytes ?parts"] exI [of _ msgs] exI [of _ servers2]) auto
qed

theorem distributed_vector_reads_back_witness:
  "\<exists>req reply dv msgs servers2 sent.
    block_distribute \<lparr>bl_addr = 1, bl_mem = \<lambda>_. 0\<rparr> (\<lambda>_. \<lparr>bl_addr = 2, bl_mem = \<lambda>_. 0\<rparr>) 0 1 [7, 8, 9] 3 1 (\<lambda>sent. [reply]) = Inr (dv, req, msgs) \<and>
    foldE (deliver (\<lambda>_. plain_env) 0) (req # msgs) (\<lambda>s. ActorServer s\<lparr>as_pids := [1, 2]\<rparr>) = Inr servers2 \<and>
    dv_get_part (\<lambda>_. \<lparr>bl_addr = 2, bl_mem = \<lambda>_. 0\<rparr>) 0 100 (\<lambda>_. []) (served (\<lambda>_. plain_env) servers2 0) dv 1 2 [0, 0] = Inr (sent, [8, 9])"
proof -
  let ?servers = "\<lambda>s. ActorServer s\<lparr>as_pids := [1, 2]\<rparr>"
  have fresh: "ds_abs (as_dataStore (?servers s)) key = None" "as_pendingResultRequests (?servers s) key = None"
    "as_pids (?servers s) = [1, 2]" "as_next_result_store_local_key (?servers s) = local_key 0" "srv_inv (?servers s)" for s key
    by (simp_all add: ActorServer_def local_key_def srv_inv_def cm_inv_def MPIActorCommunicator_def)
  obtain req servers1 reply dv msgs servers2 where r: "deliver (\<lambda>_. plain_env) 0 req ?servers = Inr servers1"
    "block_distribute \<lparr>bl_addr = 1, bl_mem = \<lambda>_. 0\<rparr> (\<lambda>_. \<lparr>bl_addr = 2, bl_mem = \<lambda>_. 0\<rparr>) 0 1 [7, 8, 9] (of_nat 3) (of_nat 1) (\<lambda>sent. [reply]) = Inr (dv, req, msgs)"
    "foldE (deliver (\<lambda>_. plain_env) 0) msgs servers1 = Inr servers2"
    "\<forall>from m out. from + m \<le> length [7, 8, 9 :: byte] \<longrightarrow> length out = m \<longrightarrow>
      (\<exists>sent. dv_get_part (\<lambda>_. \<lparr>bl_addr = 2, bl_mem = \<lambda>_. 0\<rparr>) 0 100 (\<lambda>_. []) (served (\<lambda>_. plain_env) servers2 0) dv (of_nat from) (of_nat m) out =
        Inr (sent, peek from m [7, 8, 9]))"
    using distributed_vector_reads_back [of ?servers 1 0 3 "[7, 8, 9]" 1 0 "\<lambda>_. plain_env" "\<lparr>bl_addr = 1, bl_mem = \<lambda>_. 0\<rparr>"
      "\<lambda>_. \<lparr>bl_addr = 2, bl_mem = \<lambda>_. 0\<rparr>" 0 100 "\<lambda>_. []"] fresh by auto
  obtain sent where "dv_get_part (\<lambda>_. \<lparr>bl_addr = 2, bl_mem = \<lambda>_. 0\<rparr>) 0 100 (\<lambda>_. []) (served (\<lambda>_. plain_env) servers2 0) dv (of_nat 1) (of_nat 2) [0, 0] =
      Inr (sent, peek 1 2 [7, 8, 9])"
    using r(4) [rule_format, of 1 2 "[0, 0]"] by auto
  then show ?thesis using r(1-3)
    by (intro exI [of _ req] exI [of _ reply] exI [of _ dv] exI [of _ msgs] exI [of _ servers2] exI [of _ sent]) (simp add: peek_def)
qed

end
