(* ===== verification/Actor_Base.thy ===== *)
theory Actor_Base
  imports Vector_Store
begin

text \<open>
  \<^verbatim>\<open>ActorBase\<close>, the class every actor derives from (src/src/ActiveBSP/src/Actor.cpp,
  include/Actor.h, include/Actor.hpp): the table of SPMD functions the processes of an actor run
  together, the results an actor stores, and the broadcast of a description of a vector to all
  its processes.

  An object of a class derived from \<^verbatim>\<open>ActorBase\<close> is a value of the type \<open>'o\<close>; an SPMD method is
  what it does to the object of its process, together with what it receives there. BSPlib is
  outside the program: \<^verbatim>\<open>bsp_put\<close> and \<^verbatim>\<open>bsp_get\<close> take effect at the next \<^verbatim>\<open>bsp_sync\<close>, and \<^verbatim>\<open>bsp_get\<close>
  stays inside the area that was registered. What a process hands to MPI is recorded in order:
  the ids of functions it broadcasts to the other processes and the messages to management threads.
\<close>

section \<open>State\<close>

datatype 'o spmd_function = Base_bsp_sync | Spmd_method "'o \<Rightarrow> 'o result"

record 'o actor_base =
  ab_obj :: 'o
  ab_pid :: c_int
  ab_nprocs :: c_int
  ab_node :: c_int
  ab_spmd_function_ids :: "size_t \<rightharpoonup> c_int"
  ab_spmd_functions :: "'o spmd_function list"
  ab_reqId :: c_int
  ab_cur_vector_distribution :: vector_distribution
  ab_dv_buf :: "byte list"
  ab_dv_buf_registered :: nat
  ab_dv_buf_nelems :: c_int
  ab_RequestDistrVectors :: "c_int \<rightharpoonup> vector_distribution"
  ab_next_key :: c_int
  ab_send_buf :: actor_message
  ab_syncs :: nat
  ab_called :: "c_int list"
  ab_ids_sent :: "c_int list"
  ab_sent :: "mpi_message list"

section \<open>SPMD functions\<close>

definition base_sync :: "'o actor_base \<Rightarrow> 'o actor_base" where
  "base_sync a = a\<lparr>ab_syncs := ab_syncs a + 1\<rparr>"

text \<open>\<open>addr\<close> is the member function pointer cast to an integer by \<^verbatim>\<open>force_cast\<close>.\<close>

definition register_spmd :: "size_t \<Rightarrow> 'o spmd_function \<Rightarrow> 'o actor_base \<Rightarrow> 'o actor_base" where
  "register_spmd addr f a = a\<lparr>
     ab_spmd_function_ids := (ab_spmd_function_ids a)(addr \<mapsto> of_nat (length (ab_spmd_functions a))),
     ab_spmd_functions := ab_spmd_functions a @ [f]\<rparr>"

text \<open>
  The constructor; \<open>dv\<close> is the default description, of one part. The object is what the
  constructor of the derived class makes of it afterwards.
\<close>

definition ActorBase :: "size_t \<Rightarrow> 'o \<Rightarrow> c_int \<Rightarrow> c_int \<Rightarrow> c_int \<Rightarrow> c_int \<Rightarrow> 'o actor_base result" where
  "ActorBase sync_addr obj pid nprocs node next_key =
     bindE (vector_distribution_base 1) (\<lambda>dv.
       Inr (base_sync (register_spmd sync_addr Base_bsp_sync
         \<lparr>ab_obj = obj, ab_pid = pid, ab_nprocs = nprocs, ab_node = node, ab_spmd_function_ids = Map.empty,
          ab_spmd_functions = [], ab_reqId = 0, ab_cur_vector_distribution = dv, ab_dv_buf = [],
          ab_dv_buf_registered = 0, ab_dv_buf_nelems = 0, ab_RequestDistrVectors = Map.empty,
          ab_next_key = next_key, ab_send_buf = ActorMessage0, ab_syncs = 0, ab_called = [],
          ab_ids_sent = [], ab_sent = []\<rparr>)))"

definition run_function :: "'o spmd_function \<Rightarrow> 'o actor_base \<Rightarrow> 'o actor_base result" where
  "run_function f a = (case f of
       Base_bsp_sync \<Rightarrow> Inr (base_sync a)
     | Spmd_method g \<Rightarrow> bindE (g (ab_obj a)) (\<lambda>obj. Inr (a\<lparr>ab_obj := obj\<rparr>)))"

text \<open>\<^verbatim>\<open>_spmd_functions[id]()\<close>, with the history of the functions that were called.\<close>

definition call_function :: "c_int \<Rightarrow> 'o actor_base \<Rightarrow> 'o actor_base result" where
  "call_function i a =
     (if sint i < 0 then Inl Out_of_bounds
      else bindE (vector_at (ab_spmd_functions a) (nat (sint i))) (\<lambda>f.
           run_function f (a\<lparr>ab_called := ab_called a @ [i]\<rparr>)))"

definition call_spmd :: "c_int \<Rightarrow> 'o actor_base \<Rightarrow> 'o actor_base result" where
  "call_spmd function_id a = (if ab_spmd_functions a \<noteq> [] then call_function function_id a else Inr a)"

definition sendSPMDFunctionID :: "c_int \<Rightarrow> 'o actor_base \<Rightarrow> 'o actor_base" where
  "sendSPMDFunctionID function_id a = a\<lparr>ab_ids_sent := ab_ids_sent a @ [function_id]\<rparr>"

definition kill_slaves :: "'o actor_base \<Rightarrow> 'o actor_base" where
  "kill_slaves a = sendSPMDFunctionID 0 a"

definition run_function_id :: "c_int \<Rightarrow> 'o actor_base \<Rightarrow> 'o actor_base result" where
  "run_function_id i a = bindE (add_int i 1) (\<lambda>send_id. call_function i (sendSPMDFunctionID send_id a))"

definition bsp_run :: "size_t \<Rightarrow> 'o actor_base \<Rightarrow> 'o actor_base result" where
  "bsp_run addr a =
     (let (i, ids) = subscript 0 addr (ab_spmd_function_ids a)
      in run_function_id i (a\<lparr>ab_spmd_function_ids := ids\<rparr>))"

definition is_master :: "'o actor_base \<Rightarrow> bool" where
  "is_master a \<longleftrightarrow> ab_pid a = 0"

definition setRequestId :: "c_int \<Rightarrow> 'o actor_base \<Rightarrow> 'o actor_base" where
  "setRequestId reqId a = a\<lparr>ab_reqId := reqId\<rparr>"

section \<open>Results\<close>

definition prepare_distr_result :: "c_int \<Rightarrow> 'o actor_base \<Rightarrow> 'o actor_base result" where
  "prepare_distr_result n a =
     bindE (vector_distribution_base n) (\<lambda>dv. Inr (base_sync (a\<lparr>ab_cur_vector_distribution := dv\<rparr>)))"

definition register_result_part :: "c_int \<Rightarrow> c_int \<Rightarrow> size_t \<Rightarrow> size_t \<Rightarrow> 'o actor_base \<Rightarrow> 'o actor_base result" where
  "register_result_part ipart resid sz offset a =
     bindE (register_part ipart (ab_node a) resid sz offset (ab_cur_vector_distribution a)) (\<lambda>dv.
       Inr (a\<lparr>ab_cur_vector_distribution := dv\<rparr>))"

text \<open>\<^verbatim>\<open>emplace\<close> keeps the value a key has.\<close>

definition store_vector_distribution :: "vector_distribution \<Rightarrow> 'o actor_base \<Rightarrow> 'o actor_base" where
  "store_vector_distribution dv a =
     (case ab_RequestDistrVectors a (ab_reqId a) of
        None \<Rightarrow> a\<lparr>ab_RequestDistrVectors := (ab_RequestDistrVectors a)(ab_reqId a \<mapsto> dv)\<rparr>
      | Some _ \<Rightarrow> a)"

definition free_vector_distribution :: "c_int \<Rightarrow> 'o actor_base \<Rightarrow> 'o actor_base" where
  "free_vector_distribution reqId a = a\<lparr>ab_RequestDistrVectors := (ab_RequestDistrVectors a)(reqId := None)\<rparr>"

definition store_result ::
  "block \<Rightarrow> size_t \<Rightarrow> byte list \<Rightarrow> size_t \<Rightarrow> 'o actor_base \<Rightarrow> (c_int \<times> 'o actor_base) result"
where
  "store_result b addr buf sz a =
     bindE (takeKey (ab_next_key a)) (\<lambda>(key, nxt).
     bindE (comm_store_result b (am_addr (ab_send_buf a)) (am_buf (ab_send_buf a)) (scast (am_buf_size (ab_send_buf a)))
         (ab_node a) key addr buf sz) (\<lambda>(resid, mm, m).
       Inr (key, a\<lparr>ab_next_key := nxt, ab_send_buf := m, ab_sent := ab_sent a @ [mm]\<rparr>)))"

definition register_single_part_result ::
  "block \<Rightarrow> size_t \<Rightarrow> byte list \<Rightarrow> size_t \<Rightarrow> size_t \<Rightarrow> 'o actor_base \<Rightarrow> 'o actor_base result"
where
  "register_single_part_result b addr data sz offset a =
     bindE (store_result b addr data sz a) (\<lambda>(resid, a1).
     bindE (prepare_distr_result 1 a1) (register_result_part 0 resid sz offset))"

text \<open>The typed forms, for elements of \<open>elem\<close> bytes.\<close>

definition typed_store_result ::
  "size_t \<Rightarrow> block \<Rightarrow> size_t \<Rightarrow> byte list \<Rightarrow> size_t \<Rightarrow> 'o actor_base \<Rightarrow> (c_int \<times> 'o actor_base) result"
where
  "typed_store_result elem b addr buf sz a = store_result b addr buf (sz * elem) a"

definition typed_register_single_part_result ::
  "size_t \<Rightarrow> block \<Rightarrow> size_t \<Rightarrow> byte list \<Rightarrow> size_t \<Rightarrow> size_t \<Rightarrow> 'o actor_base \<Rightarrow> 'o actor_base result"
where
  "typed_register_single_part_result elem b addr buf sz offset a =
     register_single_part_result b addr buf (sz * elem) (offset * elem) a"

section \<open>Broadcasting a description inside an actor\<close>

text \<open>
  All processes of the actor at once: each has its argument \<open>dv\<close> and its object. The first superstep
  tells the number of parts of the head's description to everybody.
\<close>

type_synonym 'o spmd_group = "(vector_distribution \<times> 'o actor_base) list"

definition broadcast_header :: "'o spmd_group \<Rightarrow> 'o spmd_group result" where
  "broadcast_header ps =
     bindE (mapE (\<lambda>(dv, a). nparts dv) ps) (\<lambda>ns.
       case ns of [] \<Rightarrow> Inr []
       | n # _ \<Rightarrow> Inr (map (\<lambda>(dv, a). (dv, base_sync (a\<lparr>ab_dv_buf_nelems := n\<rparr>))) ps))"

text \<open>Every other process makes an empty description; whoever's buffer is too small enlarges it.\<close>

definition needs_room :: "vector_distribution \<times> 'o actor_base \<Rightarrow> bool" where
  "needs_room = (\<lambda>(dv, a). of_nat (length (ab_dv_buf a)) < getBufSize dv)"

definition broadcast_room :: "nat \<Rightarrow> vector_distribution \<times> 'o actor_base \<Rightarrow> (vector_distribution \<times> 'o actor_base) result" where
  "broadcast_room s = (\<lambda>(dv0, a).
     bindE (if s \<noteq> 0 then vector_distribution_base (ab_dv_buf_nelems a) else Inr dv0) (\<lambda>dv.
       if needs_room (dv, a)
       then Inr (dv, base_sync (a\<lparr>ab_dv_buf := ab_dv_buf a @ replicate (length dv - length (ab_dv_buf a)) 0,
                                  ab_dv_buf_registered := length dv\<rparr>))
       else Inr (dv, a)))"

definition broadcast_fetch ::
  "byte list \<Rightarrow> nat \<Rightarrow> nat \<Rightarrow> vector_distribution \<times> 'o actor_base \<Rightarrow> (vector_distribution \<times> 'o actor_base) result"
where
  "broadcast_fetch head_buf head_registered s = (\<lambda>(dv, a).
     if s = 0 then bindE (mem_write 0 dv (ab_dv_buf a)) (\<lambda>buf. Inr (dv, base_sync (a\<lparr>ab_dv_buf := buf\<rparr>)))
     else if ab_dv_buf_registered a = 0 \<or> head_registered < length dv then Inl Out_of_bounds
     else bindE (mem_read head_buf 0 (length dv)) (\<lambda>bs. Inr (bs, base_sync a)))"

text \<open>A process that enlarges its buffer synchronises once more than one that does not.\<close>

definition broadcast_dv :: "'o spmd_group \<Rightarrow> 'o spmd_group result" where
  "broadcast_dv ps =
     bindE (broadcast_header ps) (\<lambda>ps1.
     bindE (mapE (\<lambda>(s, p). broadcast_room s p) (enumerate 0 ps1)) (\<lambda>ps2.
       if \<not> (\<forall>p \<in> set ps2. ab_syncs (snd p) = ab_syncs (snd (hd ps2))) then Inl Deadlock
       else case ps2 of [] \<Rightarrow> Inr []
       | (dv, a) # _ \<Rightarrow>
           bindE (mem_write 0 dv (ab_dv_buf a)) (\<lambda>head_buf.
             mapE (\<lambda>(s, p). broadcast_fetch head_buf (ab_dv_buf_registered a) s p) (enumerate 0 ps2))))"


section \<open>The table of SPMD functions\<close>

text \<open>What a process that runs SPMD functions keeps: the pids, the table and the requests of its results.\<close>

lemma run_function_frame:
  assumes "run_function f a = Inr b"
  shows "ab_spmd_functions b = ab_spmd_functions a" "ab_spmd_function_ids b = ab_spmd_function_ids a"
    "ab_called b = ab_called a" "ab_ids_sent b = ab_ids_sent a" "ab_pid b = ab_pid a" "ab_sent b = ab_sent a"
  using assms by (auto simp: run_function_def base_sync_def result_simps split: spmd_function.splits)

lemma registered_function:
  assumes "length (ab_spmd_functions a) < 2 ^ 31"
  shows "call_function (of_nat (length (ab_spmd_functions a))) (register_spmd addr f a) =
    run_function f ((register_spmd addr f a)\<lparr>ab_called := ab_called a @ [of_nat (length (ab_spmd_functions a))]\<rparr>)"
  using assms by (simp add: call_function_def register_spmd_def vector_at_def)

text \<open>An id that is in the table stays there with its function when others are registered.\<close>

definition function_at :: "c_int \<Rightarrow> 'o actor_base \<Rightarrow> 'o spmd_function option" where
  "function_at i a = (if 0 \<le> sint i \<and> nat (sint i) < length (ab_spmd_functions a)
     then Some (ab_spmd_functions a ! nat (sint i)) else None)"

lemma call_function_eq:
  "call_function i a = (case function_at i a of None \<Rightarrow> Inl Out_of_bounds
     | Some f \<Rightarrow> run_function f (a\<lparr>ab_called := ab_called a @ [i]\<rparr>))"
  by (auto simp: call_function_def function_at_def vector_at_def)

lemma function_at_register: "function_at i a = Some f \<Longrightarrow> function_at i (register_spmd addr g a) = Some f"
  by (auto simp: function_at_def register_spmd_def nth_append split: if_splits)

definition table_ok :: "'o actor_base \<Rightarrow> bool" where
  "table_ok a \<longleftrightarrow> (\<forall>addr i. ab_spmd_function_ids a addr = Some i \<longrightarrow> function_at i a \<noteq> None) \<and>
     function_at 0 a = Some Base_bsp_sync \<and> length (ab_spmd_functions a) < 2 ^ 31"

lemma table_ok_register:
  assumes "table_ok a" and "length (ab_spmd_functions a) + 1 < 2 ^ 31"
  shows "table_ok (register_spmd addr f a)"
proof -
  let ?n = "length (ab_spmd_functions a)"
  have "function_at (of_nat ?n) (register_spmd addr f a) = Some f"
    using assms(2) by (simp add: function_at_def register_spmd_def)
  moreover have "function_at i (register_spmd addr f a) \<noteq> None" if "ab_spmd_function_ids a x = Some i" for x i
  proof -
    from assms(1) that obtain g where "function_at i a = Some g" by (auto simp: table_ok_def)
    then show ?thesis by (simp add: function_at_register)
  qed
  moreover have "ab_spmd_function_ids (register_spmd addr f a) = (ab_spmd_function_ids a)(addr \<mapsto> of_nat ?n)"
    by (simp add: register_spmd_def)
  moreover have "function_at 0 (register_spmd addr f a) = Some Base_bsp_sync"
    using assms(1) by (simp add: table_ok_def function_at_register)
  ultimately show ?thesis
    using assms(2) by (auto simp: table_ok_def register_spmd_def)
qed

lemma ActorBase_ok:
  assumes "ActorBase sync_addr obj pid nprocs node next_key = Inr a"
  shows "table_ok a" "ab_ids_sent a = []" "ab_called a = []" "ab_sent a = []" "ab_pid a = pid" "ab_obj a = obj" "ab_node a = node"
    "ab_syncs a = 1" "ab_dv_buf a = []" "ab_dv_buf_registered a = 0"
  using assms by (auto simp: ActorBase_def result_simps table_ok_def function_at_def register_spmd_def base_sync_def
      split: if_splits)

lemma ActorBase_total: "\<exists>a. ActorBase sync_addr obj pid nprocs node next_key = Inr a"
  using vector_distribution_base_eq [of 1] by (simp add: ActorBase_def vd_small_def)

section \<open>The broadcast\<close>

definition group_inv :: "nat \<Rightarrow> nat \<Rightarrow> 'o spmd_group \<Rightarrow> bool" where
  "group_inv len syncs ps \<longleftrightarrow> len < 2 ^ 31 \<and> (\<forall>(dv, a)\<in>set ps. (\<exists>n. nparts dv = Inr n) \<and>
     length (ab_dv_buf a) = len \<and> ab_dv_buf_registered a = len \<and> ab_syncs a = syncs)"

definition after_room :: "nat \<Rightarrow> vector_distribution \<Rightarrow> nat \<Rightarrow> vector_distribution \<times> 'o actor_base \<Rightarrow> vector_distribution \<times> 'o actor_base" where
  "after_room len head s = (\<lambda>(dv0, a).
     (if s \<noteq> 0 then vd_bytes (replicate ((length head - 8) div 24) zero_part) else head,
      if len < length head
      then base_sync (a\<lparr>ab_dv_buf := ab_dv_buf a @ replicate (length head - len) 0, ab_dv_buf_registered := length head\<rparr>)
      else a))"

lemma broadcast_room_eq:
  assumes "vd_small (length parts)" and "ab_dv_buf_nelems a = of_nat (length parts)"
    and "length (ab_dv_buf a) = len" and "len < 2 ^ 31" and "s = 0 \<Longrightarrow> dv = vd_bytes parts"
  shows "broadcast_room s (dv, a) = Inr (after_room len (vd_bytes parts) s (dv, a))"
proof -
  have small: "8 + 24 * length parts < 2 ^ 64" "len < 2 ^ 64" using assms(1,4) by (simp_all add: vd_small_def)
  have lt: "((of_nat len :: size_t) < of_nat (8 + 24 * length parts)) = (len < 8 + 24 * length parts)"
    using of_nat_size_le [OF small] by (simp only: flip: not_le)
  show ?thesis
  proof (cases "s = 0")
    case True
    then show ?thesis
      using assms(3,5) lt by (simp add: broadcast_room_def after_room_def needs_room_def getBufSize_def del: of_nat_add)
  next
    case False
    then show ?thesis
      using assms lt by (simp add: broadcast_room_def after_room_def needs_room_def getBufSize_def
          vector_distribution_base_eq del: of_nat_add)
  qed
qed

lemma broadcast_same_description:
  assumes ps: "ps = (vd_bytes parts, a) # rest" and small: "vd_small (length parts)" and inv: "group_inv len syncs ps"
  shows "\<exists>qs syncs'. broadcast_dv ps = Inr qs \<and> length qs = length ps \<and> (\<forall>q\<in>set qs. fst q = vd_bytes parts) \<and>
    map (\<lambda>q. ab_obj (snd q)) qs = map (\<lambda>p. ab_obj (snd p)) ps \<and> group_inv (max len (8 + 24 * length parts)) syncs' qs"
proof -
  define dv where "dv = vd_bytes parts"
  define n where "n = (of_nat (length parts) :: c_int)"
  define ps1 where "ps1 = map (\<lambda>(d, b). (d, base_sync (b\<lparr>ab_dv_buf_nelems := n\<rparr>))) ps"
  define ps2 where "ps2 = map (\<lambda>(s, p). after_room len dv s p) (enumerate 0 ps1)"
  define m where "m = max len (8 + 24 * length parts)"
  define k where "k = syncs + 1 + (if len < length dv then 1 else 0)"
  have ldv: "length dv = 8 + 24 * length parts" by (simp add: dv_def)
  have "mapE (\<lambda>(d, b). nparts d) ps = Inr (map (\<lambda>(d, b). projr (nparts d)) ps)"
    using inv by (intro mapE_eq_map) (auto simp: group_inv_def)
  then have header: "broadcast_header ps = Inr ps1"
    by (simp add: broadcast_header_def ps ps1_def n_def)
  have in1: "ab_dv_buf_nelems b = n \<and> length (ab_dv_buf b) = len \<and> ab_dv_buf_registered b = len \<and> ab_syncs b = syncs + 1"
    if "(d, b) \<in> set ps1" for d b
    using that inv by (auto simp: ps1_def group_inv_def base_sync_def)
  have first: "ps1 ! 0 = (dv, snd (ps1 ! 0))" by (simp add: ps1_def ps dv_def)
  have elem: "(d, b) \<in> set ps1 \<and> (s = 0 \<longrightarrow> d = dv)" if "(s, d, b) \<in> set (enumerate 0 ps1)" for s d b
    using that first by (auto simp: in_set_enumerate_eq dest: nth_mem)
  have room: "mapE (\<lambda>(s, p). broadcast_room s p) (enumerate 0 ps1) = Inr ps2"
    unfolding ps2_def
  proof (rule mapE_eq_map, clarify)
    fix s d b assume x: "(s, d, b) \<in> set (enumerate 0 ps1)"
    show "broadcast_room s (d, b) = Inr (after_room len dv s (d, b))"
      using elem [OF x] in1 [of d b] inv small unfolding dv_def
      by (intro broadcast_room_eq) (auto simp: n_def group_inv_def)
  qed
  have in2: "length d = length dv \<and> length (ab_dv_buf b) = m \<and> ab_dv_buf_registered b = m \<and> ab_syncs b = k"
    if p: "(d, b) \<in> set ps2" for d b
  proof -
    from p obtain s d0 b0 where "(s, d0, b0) \<in> set (enumerate 0 ps1)" "(d, b) = after_room len dv s (d0, b0)"
      by (auto simp: ps2_def)
    then show ?thesis using in1 [of d0 b0] elem [of s d0 b0] ldv
      by (auto simp: after_room_def m_def k_def base_sync_def split: if_splits)
  qed
  have len2: "length ps2 = length ps" by (simp add: ps2_def ps1_def)
  obtain c rest2 where ps2: "ps2 = (dv, c) # rest2"
    by (auto simp: ps2_def ps1_def ps after_room_def dv_def)
  have c: "length (ab_dv_buf c) = m" "ab_dv_buf_registered c = m" using in2 [of dv c] ps2 by auto
  have mdv: "length dv \<le> m" "0 < m" by (auto simp: m_def ldv)
  define hb where "hb = dv @ drop (length dv) (ab_dv_buf c)"
  have hb: "mem_write 0 dv (ab_dv_buf c) = Inr hb" using c mdv by (simp add: mem_write_def poke_def hb_def)
  have lhb: "length hb = m" using c mdv by (simp add: hb_def)
  define out where "out = (\<lambda>(s, d :: vector_distribution, b). (dv, base_sync (if s = (0::nat) then b\<lparr>ab_dv_buf := hb\<rparr> else b)) :: vector_distribution \<times> 'a actor_base)"
  have elem2: "(d, b) \<in> set ps2 \<and> (s = 0 \<longrightarrow> d = dv \<and> b = c)" if "(s, d, b) \<in> set (enumerate 0 ps2)" for s d b
  proof -
    have s: "s < length ps2" "ps2 ! s = (d, b)" using that by (auto simp: in_set_enumerate_eq)
    then show ?thesis using nth_mem [OF s(1)] by (auto simp: ps2)
  qed
  have fetch: "mapE (\<lambda>(s, p). broadcast_fetch hb (ab_dv_buf_registered c) s p) (enumerate 0 ps2) =
      Inr (map out (enumerate 0 ps2))"
  proof (rule mapE_eq_map, clarify)
    fix s d b assume x: "(s, d, b) \<in> set (enumerate 0 ps2)"
    have "mem_read hb 0 (length d) = Inr dv" using in2 [of d b] elem2 [OF x] lhb mdv
      by (simp add: mem_read_def peek_def hb_def)
    then show "broadcast_fetch hb (ab_dv_buf_registered c) s (d, b) = Inr (out (s, d, b))"
      using in2 [of d b] elem2 [OF x] c mdv hb by (auto simp: broadcast_fetch_def out_def)
  qed
  have sync: "\<forall>p\<in>set ps2. ab_syncs (snd p) = ab_syncs (snd (hd ps2))"
    using in2 ps2 by (metis hd_in_set list.distinct(1) prod.collapse)
  have res: "broadcast_dv ps = Inr (map out (enumerate 0 ps2))"
    unfolding broadcast_dv_def header bindE_Inr room using sync fetch hb by (simp add: ps2 del: enumerate_simps)
  have objs: "map (\<lambda>q. ab_obj (snd q)) (map out (enumerate 0 ps2)) = map (\<lambda>p. ab_obj (snd p)) ps"
  proof (rule nth_equalityI)
    fix i assume "i < length (map (\<lambda>q. ab_obj (snd q)) (map out (enumerate 0 ps2)))"
    then have i: "i < length ps" using len2 by simp
    then have "ab_obj (snd (ps2 ! i)) = ab_obj (snd (ps ! i))"
      by (auto simp: ps2_def ps1_def nth_enumerate_eq after_room_def base_sync_def split: prod.splits)
    then show "map (\<lambda>q. ab_obj (snd q)) (map out (enumerate 0 ps2)) ! i = map (\<lambda>p. ab_obj (snd p)) ps ! i"
      using i len2 by (auto simp: nth_enumerate_eq out_def base_sync_def split: prod.splits)
  qed (simp add: len2)
  have "group_inv m (k + 1) (map out (enumerate 0 ps2))"
  proof -
    have "m < 2 ^ 31" using inv small by (auto simp: m_def group_inv_def vd_small_def)
    moreover have "length (ab_dv_buf b) = m \<and> ab_dv_buf_registered b = m \<and> ab_syncs b = k + 1 \<and> d = dv"
      if b: "(d, b) \<in> set (map out (enumerate 0 ps2))" for d b
    proof -
      from b obtain s d2 b2 where x: "(s, d2, b2) \<in> set (enumerate 0 ps2)" "(d, b) = out (s, d2, b2)" by auto
      then have "(d2, b2) \<in> set ps2" using elem2 by blast
      then show ?thesis using in2 [of d2 b2] lhb x(2) by (auto simp: out_def base_sync_def)
    qed
    ultimately show ?thesis unfolding group_inv_def dv_def by fastforce
  qed
  moreover have "\<forall>q\<in>set (map out (enumerate 0 ps2)). fst q = vd_bytes parts" by (auto simp: out_def dv_def)
  moreover have "length (map out (enumerate 0 ps2)) = length ps" using len2 by simp
  ultimately show ?thesis using res objs unfolding m_def by blast
qed


section \<open>Properties\<close>

text \<open>
  Property C17: after \<^const>\<open>broadcast_dv\<close> every process of the actor holds the description of the
  head, no object has changed, and the buffers of all processes are equally long again, so that the
  processes stay in step in the next broadcast.
\<close>

theorem broadcast_dv_shares_description:
  assumes "group_inv len syncs ((vd_bytes parts, a) # rest)" and "vd_small (length parts)"
  shows "\<exists>qs syncs'. broadcast_dv ((vd_bytes parts, a) # rest) = Inr qs \<and> length qs = Suc (length rest) \<and>
    (\<forall>q\<in>set qs. fst q = vd_bytes parts) \<and> map (\<lambda>q. ab_obj (snd q)) qs = ab_obj a # map (\<lambda>p. ab_obj (snd p)) rest \<and>
    group_inv (max len (8 + 24 * length parts)) syncs' qs"
  using broadcast_same_description [OF refl assms(2,1)] by simp

theorem broadcast_dv_shares_description_witness:
  "\<exists>a b qs. ActorBase 1 (5 :: nat) 0 2 7 0 = Inr a \<and> ActorBase 1 6 1 2 8 0 = Inr b \<and>
    broadcast_dv [(vd_bytes [\<lparr>vp_pid = 7, vp_resid = 3, vp_size = 4, vp_offset = 0\<rparr>,
      \<lparr>vp_pid = 8, vp_resid = 4, vp_size = 4, vp_offset = 4\<rparr>], a), (vd_bytes [zero_part], b)] = Inr qs \<and>
    (\<forall>q\<in>set qs. nparts (fst q) = Inr 2) \<and> map (\<lambda>q. ab_obj (snd q)) qs = [5, 6]"
proof -
  let ?parts = "[\<lparr>vp_pid = 7, vp_resid = 3, vp_size = 4, vp_offset = 0\<rparr>, \<lparr>vp_pid = 8, vp_resid = 4, vp_size = 4, vp_offset = 4\<rparr>]"
  obtain a b where ab: "ActorBase 1 (5 :: nat) 0 2 7 0 = Inr a" "ActorBase 1 (6 :: nat) 1 2 8 0 = Inr b"
    using ActorBase_total [of 1 "5 :: nat" 0 2 7 0] ActorBase_total [of 1 "6 :: nat" 1 2 8 0] by auto
  note a = ActorBase_ok [OF ab(1)] and b = ActorBase_ok [OF ab(2)]
  have "group_inv 0 1 [(vd_bytes ?parts, a), (vd_bytes [zero_part], b)]"
    using a(8-10) b(8-10) by (simp add: group_inv_def)
  from broadcast_dv_shares_description [OF this] obtain qs where
    "broadcast_dv [(vd_bytes ?parts, a), (vd_bytes [zero_part], b)] = Inr qs" "\<forall>q\<in>set qs. fst q = vd_bytes ?parts"
    "map (\<lambda>q. ab_obj (snd q)) qs = [ab_obj a, ab_obj b]"
    by (auto simp: vd_small_def)
  then show ?thesis using ab a(6) b(6) by (intro exI [of _ a] exI [of _ b] exI [of _ qs]) simp
qed

text \<open>
  Running a method that was never registered is not detected: the lookup inserts the
  id 0, so every process of the actor runs \<^verbatim>\<open>bsp_sync\<close> instead, and the address now counts as
  registered.
\<close>

theorem unregistered_method_syncs:
  assumes "table_ok a" and "ab_spmd_function_ids a addr = None"
  shows "bsp_run addr a = Inr (a\<lparr>ab_spmd_function_ids := (ab_spmd_function_ids a)(addr \<mapsto> 0),
    ab_ids_sent := ab_ids_sent a @ [1], ab_called := ab_called a @ [0], ab_syncs := ab_syncs a + 1\<rparr>)"
  using assms by (simp add: bsp_run_def subscript_def run_function_id_def add_int_def int_fits_def call_function_eq
      function_at_def table_ok_def sendSPMDFunctionID_def run_function_def base_sync_def split: if_splits)

theorem unregistered_method_syncs_witness:
  "\<exists>a b. ActorBase 1 (0 :: nat) 0 2 7 0 = Inr a \<and> bsp_run 99 a = Inr b \<and> ab_ids_sent b = [1] \<and> ab_obj b = 0"
proof -
  obtain a where a: "ActorBase 1 (0 :: nat) 0 2 7 0 = Inr a"
    using ActorBase_total [of 1 "0 :: nat" 0 2 7 0] by blast
  have "ab_spmd_function_ids a 99 = None"
    using a by (auto simp: ActorBase_def result_simps register_spmd_def base_sync_def)
  from unregistered_method_syncs [OF ActorBase_ok(1) [OF a] this] ActorBase_ok [OF a]
  show ?thesis using a by (intro exI [of _ a] exI) (auto intro!: conjI)
qed

end
