(* ===== verification/Serialization.thy ===== *)
theory Serialization
  imports Actor_Base
begin

text \<open>
  The serialisation of arguments and results (src/src/ActiveBSP/include/serialization): plain data
  and vectors of plain data are copied byte by byte into a contiguous buffer; everything else goes
  through Boost, which is outside the program and an argument (\<open>boost_archive\<close>).

  A C++ value is its bytes where its type is plain data (\<^verbatim>\<open>is_pod\<close>), the list of its elements where
  it is a \<^verbatim>\<open>std::vector\<close>, and an opaque state where it is an object of a class. The overloads the
  compiler selects by the static types are selected by \<open>type_of\<close>.
\<close>

section \<open>Types and values\<close>

datatype cpp_type = Pod_type nat | Vector_type cpp_type | Class_type

datatype cpp_value = Pod "byte list" | Vec cpp_type "cpp_value list" | Object "byte list"

fun type_of :: "cpp_value \<Rightarrow> cpp_type" where
  "type_of (Pod bs) = Pod_type (length bs)"
| "type_of (Vec t vs) = Vector_type t"
| "type_of (Object st) = Class_type"

fun is_pod :: "cpp_type \<Rightarrow> bool" where
  "is_pod (Pod_type k) = True"
| "is_pod t = False"

fun is_contiguous_vector :: "cpp_type \<Rightarrow> bool" where
  "is_contiguous_vector (Vector_type t) = is_pod t"
| "is_contiguous_vector t = False"

definition is_contiguous :: "cpp_type \<Rightarrow> bool" where
  "is_contiguous t \<longleftrightarrow> is_pod t \<or> is_contiguous_vector t"

fun are_contiguous :: "cpp_type list \<Rightarrow> bool" where
  "are_contiguous [] = True"
| "are_contiguous (t # ts) = (is_contiguous t \<and> are_contiguous ts)"

text \<open>\<^verbatim>\<open>sizeof\<close> of plain data; the object of a class or a vector is never copied as bytes.\<close>

fun cpp_sizeof :: "cpp_type \<Rightarrow> nat" where
  "cpp_sizeof (Pod_type k) = k"
| "cpp_sizeof t = 0"

fun pod_bytes :: "cpp_value \<Rightarrow> byte list" where
  "pod_bytes (Pod bs) = bs"
| "pod_bytes v = []"

section \<open>Contiguous serialisation\<close>

fun predict_contiguous_unit_serialization_size :: "cpp_value \<Rightarrow> size_t" where
  "predict_contiguous_unit_serialization_size (Vec t vs) = 8 + of_nat (length vs) * of_nat (cpp_sizeof t)"
| "predict_contiguous_unit_serialization_size v = of_nat (cpp_sizeof (type_of v))"

fun predict_contiguous_serialization_size :: "cpp_value list \<Rightarrow> size_t" where
  "predict_contiguous_serialization_size [] = 0"
| "predict_contiguous_serialization_size (v # vs) =
     predict_contiguous_unit_serialization_size v + predict_contiguous_serialization_size vs"

text \<open>The buffer pointer is a position in the buffer.\<close>

fun contiguous_serialize_unit_to_buf :: "nat \<Rightarrow> cpp_value \<Rightarrow> byte list \<Rightarrow> (size_t \<times> byte list) result" where
  "contiguous_serialize_unit_to_buf at (Vec t vs) buf =
     bindE (mem_write at (size_bytes (of_nat (length vs))) buf) (\<lambda>buf1.
     bindE (mem_write (at + 8) (concat (map pod_bytes vs)) buf1) (\<lambda>buf2.
       Inr (of_nat (length vs) * of_nat (cpp_sizeof t) + 8, buf2)))"
| "contiguous_serialize_unit_to_buf at v buf =
     bindE (mem_write at (pod_bytes v) buf) (\<lambda>buf1. Inr (of_nat (cpp_sizeof (type_of v)), buf1))"

fun contiguous_serialize_all_to_buf :: "nat \<Rightarrow> cpp_value list \<Rightarrow> byte list \<Rightarrow> byte list result" where
  "contiguous_serialize_all_to_buf at [] buf = Inr buf"
| "contiguous_serialize_all_to_buf at (v # vs) buf =
     bindE (contiguous_serialize_unit_to_buf at v buf) (\<lambda>(offset, buf1).
       contiguous_serialize_all_to_buf (at + unat offset) vs buf1)"

text \<open>
  Reading back. \<^verbatim>\<open>vec.resize\<close> refuses more elements than a vector can have; the elements are the
  pieces of the bytes that are copied.
\<close>

definition vector_max_bytes :: nat where "vector_max_bytes = 2 ^ 63"

fun contiguous_deserialize_unit :: "nat \<Rightarrow> cpp_type \<Rightarrow> byte list \<Rightarrow> (cpp_value \<times> size_t) result" where
  "contiguous_deserialize_unit at (Vector_type t) buf =
     bindE (get_size buf at) (\<lambda>n.
       if vector_max_bytes \<le> unat n * cpp_sizeof t then Inl Bad_alloc
       else bindE (mem_read buf (at + 8) (unat (n * of_nat (cpp_sizeof t)))) (\<lambda>bs.
            Inr (Vec t (map (\<lambda>i. Pod (peek (i * cpp_sizeof t) (cpp_sizeof t) bs)) [0..<unat n]),
                 n * of_nat (cpp_sizeof t) + 8)))"
| "contiguous_deserialize_unit at t buf =
     (let n = ucast (of_nat (cpp_sizeof t) :: size_t) :: c_int
      in bindE (mem_read buf at (cpp_sizeof t)) (\<lambda>bs. Inr (Pod bs, scast n)))"

fun contiguous_deserialize_all :: "nat \<Rightarrow> cpp_type list \<Rightarrow> byte list \<Rightarrow> cpp_value list result" where
  "contiguous_deserialize_all at [] buf = Inr []"
| "contiguous_deserialize_all at (t # ts) buf =
     bindE (contiguous_deserialize_unit at t buf) (\<lambda>(v, offset).
     bindE (contiguous_deserialize_all (at + unat offset) ts buf) (\<lambda>vs. Inr (v # vs)))"

section \<open>The choice of the serialiser\<close>

record boost_archive =
  ba_save :: "cpp_value list \<Rightarrow> byte list"
  ba_load :: "cpp_type list \<Rightarrow> byte list \<Rightarrow> cpp_value list result"

definition predictBoostSerializationSize :: "boost_archive \<Rightarrow> cpp_value list \<Rightarrow> size_t" where
  "predictBoostSerializationSize ba args = of_nat (length (ba_save ba args))"

text \<open>The sink is an array of \<open>buf_size\<close> bytes: what does not fit is an error of the stream.\<close>

definition boost_serialize_all_to_buf ::
  "boost_archive \<Rightarrow> nat \<Rightarrow> c_int \<Rightarrow> cpp_value list \<Rightarrow> byte list \<Rightarrow> byte list result"
where
  "boost_serialize_all_to_buf ba at buf_size args buf =
     (if sint buf_size < int (length (ba_save ba args)) then Inl Out_of_bounds
      else mem_write at (ba_save ba args) buf)"

definition boost_deserialize_all ::
  "boost_archive \<Rightarrow> cpp_type list \<Rightarrow> byte list \<Rightarrow> c_int \<Rightarrow> cpp_value list result"
where
  "boost_deserialize_all ba ts buf bufsize =
     (if sint bufsize < 0 then Inl Out_of_bounds
      else bindE (mem_read buf 0 (nat (sint bufsize))) (ba_load ba ts))"

definition predictSerializationSize :: "boost_archive \<Rightarrow> cpp_value list \<Rightarrow> size_t" where
  "predictSerializationSize ba args =
     (if are_contiguous (map type_of args) then predict_contiguous_serialization_size args
      else predictBoostSerializationSize ba args)"

definition serialize_all_to_buf ::
  "boost_archive \<Rightarrow> nat \<Rightarrow> c_int \<Rightarrow> cpp_value list \<Rightarrow> byte list \<Rightarrow> byte list result"
where
  "serialize_all_to_buf ba at buf_size args buf =
     (if are_contiguous (map type_of args) then contiguous_serialize_all_to_buf at args buf
      else boost_serialize_all_to_buf ba at buf_size args buf)"

definition serialize_all_to_vchar :: "boost_archive \<Rightarrow> cpp_value list \<Rightarrow> byte list result" where
  "serialize_all_to_vchar ba args =
     (let sz = predictSerializationSize ba args
      in serialize_all_to_buf ba 0 (ucast sz) args (replicate (unat sz) 0))"

definition deserialize_all :: "boost_archive \<Rightarrow> cpp_type list \<Rightarrow> byte list \<Rightarrow> c_int \<Rightarrow> cpp_value list result" where
  "deserialize_all ba ts buf bufsize =
     (if are_contiguous ts then contiguous_deserialize_all 0 ts buf
      else boost_deserialize_all ba ts buf bufsize)"

section \<open>Calling a method from its serialised arguments\<close>

type_synonym 'o actor_method = "cpp_value list \<Rightarrow> 'o actor_base \<Rightarrow> (cpp_value \<times> 'o actor_base) result"

text \<open>The overload without arguments does not look at the buffer.\<close>

definition deserialize_call ::
  "boost_archive \<Rightarrow> cpp_type list \<Rightarrow> byte list \<Rightarrow> c_int \<Rightarrow> 'o actor_method \<Rightarrow> 'o actor_base \<Rightarrow>
    (cpp_value \<times> 'o actor_base) result"
where
  "deserialize_call ba ts buf bufsize f a =
     (if ts = [] then f [] a else bindE (deserialize_all ba ts buf bufsize) (\<lambda>args. f args a))"

definition deserialize_call_serialize ::
  "boost_archive \<Rightarrow> cpp_type list \<Rightarrow> byte list \<Rightarrow> c_int \<Rightarrow> 'o actor_method \<Rightarrow> 'o actor_base \<Rightarrow>
    (byte list \<times> 'o actor_base) result"
where
  "deserialize_call_serialize ba ts buf bufsize f a =
     bindE (deserialize_call ba ts buf bufsize f a) (\<lambda>(res, a1).
     bindE (serialize_all_to_vchar ba [res]) (\<lambda>bs. Inr (bs, a1)))"

text \<open>
  The entry points that always use Boost; the program calls the ones above instead. There are
  overloads for up to five arguments; the stream of the result grows, so writing it cannot fail.
\<close>

definition boost_deserialize_call_archive ::
  "boost_archive \<Rightarrow> cpp_type list \<Rightarrow> byte list \<Rightarrow> 'o actor_method \<Rightarrow> 'o actor_base \<Rightarrow> (cpp_value \<times> 'o actor_base) result"
where
  "boost_deserialize_call_archive ba ts bs f a =
     bindE (ba_load ba ts bs) (\<lambda>args. f args a)"

definition boost_deserialize_call_serialize ::
  "boost_archive \<Rightarrow> cpp_type list \<Rightarrow> byte list \<Rightarrow> c_int \<Rightarrow> 'o actor_method \<Rightarrow> 'o actor_base \<Rightarrow>
    (byte list \<times> 'o actor_base) result"
where
  "boost_deserialize_call_serialize ba ts buf bufsize f a =
     (if sint bufsize < 0 then Inl Out_of_bounds
      else bindE (mem_read buf 0 (nat (sint bufsize))) (\<lambda>bs.
           bindE (boost_deserialize_call_archive ba ts bs f a) (\<lambda>(res, a1). Inr (ba_save ba [res], a1))))"

definition boost_deserialize_result :: "boost_archive \<Rightarrow> cpp_type \<Rightarrow> byte list \<Rightarrow> c_int \<Rightarrow> cpp_value result" where
  "boost_deserialize_result ba t buf bufsize =
     bindE (boost_deserialize_all ba [t] buf bufsize) (\<lambda>vals.
       case vals of [] \<Rightarrow> Inl Out_of_bounds | val # _ \<Rightarrow> Inr val)"

section \<open>The bytes of a value\<close>

fun value_bytes :: "cpp_value \<Rightarrow> byte list" where
  "value_bytes (Pod bs) = bs"
| "value_bytes (Vec t vs) = size_bytes (of_nat (length vs)) @ concat (map pod_bytes vs)"
| "value_bytes (Object st) = []"

text \<open>The elements of a vector have its element type; no type has size 0.\<close>

fun value_ok :: "cpp_value \<Rightarrow> bool" where
  "value_ok (Pod bs) = (bs \<noteq> [])"
| "value_ok (Vec t vs) = (t \<noteq> Pod_type 0 \<and> (\<forall>v\<in>set vs. type_of v = t))"
| "value_ok (Object st) = True"

definition serial_bytes :: "boost_archive \<Rightarrow> cpp_value list \<Rightarrow> byte list" where
  "serial_bytes ba vs = (if are_contiguous (map type_of vs) then concat (map value_bytes vs) else ba_save ba vs)"

definition serial_ok :: "boost_archive \<Rightarrow> cpp_value list \<Rightarrow> bool" where
  "serial_ok ba vs \<longleftrightarrow> (\<forall>v\<in>set vs. value_ok v) \<and> length (serial_bytes ba vs) < 2 ^ 31"

text \<open>What the code relies on in Boost: what was saved is loaded again, given the types.\<close>

definition boost_ok :: "boost_archive \<Rightarrow> cpp_value list \<Rightarrow> bool" where
  "boost_ok ba vs \<longleftrightarrow> are_contiguous (map type_of vs) \<or> ba_load ba (map type_of vs) (ba_save ba vs) = Inr vs"

lemma are_contiguous_iff: "are_contiguous ts \<longleftrightarrow> (\<forall>t\<in>set ts. is_contiguous t)"
  by (induction ts) auto

lemma contiguous_cases:
  assumes "value_ok v" and "is_contiguous (type_of v)"
  obtains bs where "v = Pod bs" | k es where "v = Vec (Pod_type k) (map Pod es)" "\<forall>e\<in>set es. length e = k" "0 < k"
proof (cases v)
  case (Pod bs)
  then show ?thesis by (rule that(1))
next
  case (Vec t vs)
  then obtain k where t: "t = Pod_type k" using assms(2) by (cases t) (auto simp: is_contiguous_def)
  have pod: "Pod (pod_bytes w) = w \<and> length (pod_bytes w) = k" if "w \<in> set vs" for w
    using assms(1) that Vec t by (cases w) auto
  then have "vs = map Pod (map pod_bytes vs)" by (simp add: map_idI)
  moreover have "0 < k" using assms(1) Vec t by auto
  ultimately show ?thesis using that(2) [of k "map pod_bytes vs"] pod Vec t by auto
next
  case (Object st)
  then show ?thesis using assms(2) by (simp add: is_contiguous_def)
qed

lemma map_pod_bytes [simp]: "map (pod_bytes \<circ> Pod) es = es"
  by (simp add: map_idI)

lemma length_concat_rows: "\<forall>e\<in>set es. length e = k \<Longrightarrow> length (concat es) = length es * k"
  by (induction es) auto

lemma poke_poke_append:
  "at + length xs + length ys \<le> length buf \<Longrightarrow> poke (at + length xs) ys (poke at xs buf) = poke at (xs @ ys) buf"
  by (cases xs) (auto simp: poke_def min_def ac_simps)

lemma vec_size: "(of_nat (length es) :: size_t) * of_nat k + 8 = of_nat (length es * k + 8)"
  by simp

lemma unit_written:
  assumes "value_ok v" and "is_contiguous (type_of v)" and "at + length (value_bytes v) \<le> length buf"
  shows "contiguous_serialize_unit_to_buf at v buf = Inr (of_nat (length (value_bytes v)), poke at (value_bytes v) buf)"
    and "predict_contiguous_unit_serialization_size v = of_nat (length (value_bytes v))"
proof -
  have "contiguous_serialize_unit_to_buf at v buf = Inr (of_nat (length (value_bytes v)), poke at (value_bytes v) buf) \<and>
      predict_contiguous_unit_serialization_size v = of_nat (length (value_bytes v))"
    using assms(1,2)
  proof (cases rule: contiguous_cases)
    case (1 bs)
    then show ?thesis using assms(3) by (simp add: mem_write_Inr)
  next
    case (2 k es)
    then have len: "length (concat es) = length es * k" by (simp add: length_concat_rows)
    have "poke (at + 8) (concat es) (poke at (size_bytes (of_nat (length es))) buf) =
        poke at (size_bytes (of_nat (length es)) @ concat es) buf"
      using poke_poke_append [of at "size_bytes (of_nat (length es))" "concat es" buf] assms(3) 2 by simp
    then have "mem_write (at + 8) (concat es) (poke at (size_bytes (of_nat (length es))) buf) =
        Inr (poke at (size_bytes (of_nat (length es)) @ concat es) buf)"
      using assms(3) 2 len by (simp add: mem_write_Inr length_poke)
    then show ?thesis
      using 2 assms(3) len vec_size [of es k] by (simp add: mem_write_Inr add.commute)
  qed
  then show "contiguous_serialize_unit_to_buf at v buf = Inr (of_nat (length (value_bytes v)), poke at (value_bytes v) buf)"
    "predict_contiguous_unit_serialization_size v = of_nat (length (value_bytes v))" by simp_all
qed

lemma all_written:
  assumes "\<forall>v\<in>set vs. value_ok v \<and> is_contiguous (type_of v)" and "at + length (concat (map value_bytes vs)) \<le> length buf"
    and "length (concat (map value_bytes vs)) < 2 ^ 64"
  shows "contiguous_serialize_all_to_buf at vs buf = Inr (poke at (concat (map value_bytes vs)) buf)"
  using assms
proof (induction vs arbitrary: at buf)
  case Nil
  then show ?case by simp
next
  case (Cons v vs)
  let ?b = "value_bytes v"
  have u: "unat (of_nat (length ?b) :: size_t) = length ?b" using Cons.prems(3) by (simp add: unat_of_nat take_bit_nat_eq_self)
  have one: "contiguous_serialize_unit_to_buf at v buf = Inr (of_nat (length ?b), poke at ?b buf)"
    using Cons.prems by (intro unit_written(1)) auto
  have "contiguous_serialize_all_to_buf (at + length ?b) vs (poke at ?b buf) =
      Inr (poke (at + length ?b) (concat (map value_bytes vs)) (poke at ?b buf))"
    using Cons.prems by (intro Cons.IH) (auto simp: length_poke)
  then show ?case
    using Cons.prems(2) one u by (simp add: poke_poke_append)
qed

lemma predicted_size:
  assumes "\<forall>v\<in>set vs. value_ok v \<and> is_contiguous (type_of v)"
  shows "predict_contiguous_serialization_size vs = of_nat (length (concat (map value_bytes vs)))"
  using assms
proof (induction vs)
  case Nil
  then show ?case by simp
next
  case (Cons v vs)
  then show ?case using unit_written(2) [of v 0 "value_bytes v"] by simp
qed


section \<open>Reading values back\<close>

lemma mem_read_mid: "mem_read (xs @ ys @ zs) (length xs) (length ys) = Inr ys"
  by (simp add: mem_read_def peek_def)

lemma pieces_of_concat:
  assumes "\<forall>e\<in>set es. length e = k"
  shows "map (\<lambda>i. Pod (peek (i * k) k (concat es))) [0..<length es] = map Pod es"
  using assms
proof (induction es)
  case Nil
  then show ?case by simp
next
  case (Cons e es)
  have next_piece: "peek (Suc i * k) k (concat (e # es)) = peek (i * k) k (concat es)" for i
    using Cons.prems peek_append_right [of e "i * k" k "concat es"] by simp
  have "peek (0 * k) k (concat (e # es)) = e" using Cons.prems by (simp add: peek_def)
  then have "map (\<lambda>i. Pod (peek (i * k) k (concat (e # es)))) (0 # map Suc [0..<length es]) = map Pod (e # es)"
    using Cons by (simp only: list.map map_map comp_def next_piece) simp
  moreover have "0 # map Suc [0..<length es] = [0..<length (e # es)]"
    by (simp add: map_Suc_upt upt_conv_Cons del: upt_Suc)
  ultimately show ?case by metis
qed

lemma unit_read:
  assumes "value_ok v" and "is_contiguous (type_of v)" and "length (value_bytes v) < 2 ^ 31"
  shows "contiguous_deserialize_unit (length pre) (type_of v) (pre @ value_bytes v @ rest) =
    Inr (v, of_nat (length (value_bytes v)))"
  using assms(1,2)
proof (cases rule: contiguous_cases)
  case (1 bs)
  then show ?thesis using assms(3) by (simp add: mem_read_mid Let_def)
next
  case (2 k es)
  have len: "length (concat es) = length es * k" using 2 by (simp add: length_concat_rows)
  have small: "8 + length es * k < 2 ^ 31" using assms(3) 2 len by simp
  have n: "get_size (pre @ (size_bytes (of_nat (length es)) @ concat es) @ rest) (length pre) = Inr (of_nat (length es))"
    using mem_read_mid [of pre "size_bytes (of_nat (length es))" "concat es @ rest"] by (simp add: get_size_def)
  have un: "unat (of_nat (length es) :: size_t) = length es"
  proof (rule unat_size_of_nat)
    have le: "length es \<le> length es * k" using 2(3) by simp
    show "length es < 2 ^ 64" by (rule le_less_trans [OF le]) (use small in simp)
  qed
  have ub: "unat (of_nat (length es) * of_nat k :: size_t) = length (concat es)"
    using small len unat_size_of_nat [of "length es * k"] by simp
  have "mem_read (pre @ (size_bytes (of_nat (length es)) @ concat es) @ rest) (length pre + 8) (length (concat es)) = Inr (concat es)"
    using mem_read_mid [of "pre @ size_bytes (of_nat (length es))" "concat es" rest] by simp
  then show ?thesis
    using n un ub small len pieces_of_concat [OF 2(2)] vec_size [of es k]
    by (simp add: 2(1) vector_max_bytes_def add.commute)
qed

lemma all_read:
  assumes "\<forall>v\<in>set vs. value_ok v \<and> is_contiguous (type_of v)" and "length (concat (map value_bytes vs)) < 2 ^ 31"
  shows "contiguous_deserialize_all (length pre) (map type_of vs) (pre @ concat (map value_bytes vs) @ rest) = Inr vs"
  using assms
proof (induction vs arbitrary: pre)
  case Nil
  then show ?case by simp
next
  case (Cons v vs)
  let ?b = "value_bytes v"
  have "unat (of_nat (length ?b) :: size_t) = length ?b" using Cons.prems(2) by simp
  moreover have "contiguous_deserialize_unit (length pre) (type_of v) (pre @ ?b @ concat (map value_bytes vs) @ rest) =
      Inr (v, of_nat (length ?b))"
    using Cons.prems by (intro unit_read) auto
  moreover have "contiguous_deserialize_all (length (pre @ ?b)) (map type_of vs) ((pre @ ?b) @ concat (map value_bytes vs) @ rest) = Inr vs"
    using Cons.prems by (intro Cons.IH) auto
  ultimately show ?case by simp
qed

section \<open>What deserialisation accepts\<close>

text \<open>No type has size 0.\<close>

definition sized :: "cpp_type \<Rightarrow> bool" where
  "sized t \<longleftrightarrow> t \<noteq> Pod_type 0 \<and> t \<noteq> Vector_type (Pod_type 0)"

text \<open>The value was read from its own bytes, and the offset is their number.\<close>

definition read_from :: "nat \<Rightarrow> byte list \<Rightarrow> cpp_type \<Rightarrow> cpp_value \<Rightarrow> bool" where
  "read_from at buf t v \<longleftrightarrow> type_of v = t \<and> value_ok v \<and> at + length (value_bytes v) \<le> length buf \<and>
     value_bytes v = peek at (length (value_bytes v)) buf"

lemma concat_pieces: "m * k \<le> length bs \<Longrightarrow> concat (map (\<lambda>i. peek (i * k) k bs) [0..<m]) = take (m * k) bs"
proof (induction m)
  case 0
  then show ?case by simp
next
  case (Suc m)
  have "take (m * k) bs @ take k (drop (m * k) bs) = take (m * k + k) bs" by (simp add: take_add)
  then show ?case using Suc by (simp add: peek_def add.commute)
qed

lemma size_bytes_size: "length bs = 8 \<Longrightarrow> size_bytes (bytes_size bs) = bs"
  using le_enc_dec [of bs] le_enc_mod [of 8 "le_dec bs"] by (simp add: size_bytes_def bytes_size_def unat_of_nat take_bit_eq_mod)

lemma peek_add: "peek at (m + n) buf = peek at m buf @ peek (at + m) n buf"
  by (simp add: peek_def take_add add.commute)

lemma unit_accepted:
  assumes "is_contiguous t" and "sized t" and "contiguous_deserialize_unit at t buf = Inr (v, n)" and "length buf < 2 ^ 31"
  shows "read_from at buf t v \<and> unat n = length (value_bytes v)"
proof (cases t)
  case (Pod_type k)
  then obtain bs where bs: "mem_read buf at k = Inr bs" "v = Pod bs" "n = scast (ucast (of_nat k :: size_t) :: c_int)"
    using assms(3) by (auto simp: Let_def result_simps)
  then have k: "at + k \<le> length buf" "bs = peek at k buf" by (auto simp: mem_read_def split: if_splits)
  then have "k < 2 ^ 31" "length bs = k" using assms(4) by (simp_all add: length_peek)
  moreover have "bs \<noteq> []" using assms(2) Pod_type \<open>length bs = k\<close> by (auto simp: sized_def)
  ultimately show ?thesis using k bs(2,3) Pod_type by (simp add: read_from_def)
next
  case (Vector_type u)
  then obtain k where u: "u = Pod_type k" using assms(1) by (cases u) (auto simp: is_contiguous_def)
  obtain c where g: "get_size buf at = Inr c"
    using assms(3) by (cases "get_size buf at") (simp_all add: Vector_type u)
  then have small: "\<not> vector_max_bytes \<le> unat c * k"
    using assms(3) by (simp add: Vector_type u split: if_splits)
  obtain bs where b: "mem_read buf (at + 8) (unat (c * of_nat k)) = Inr bs"
    using assms(3) g small by (cases "mem_read buf (at + 8) (unat (c * of_nat k))") (simp_all add: Vector_type u)
  have v: "v = Vec (Pod_type k) (map (\<lambda>i. Pod (peek (i * k) k bs)) [0..<unat c])" "n = c * of_nat k + 8"
    using assms(3) g small b by (simp_all add: Vector_type u)
  have "unat c * k < 2 ^ 64" using small by (simp add: vector_max_bytes_def)
  then have ck: "unat (c * of_nat k) = unat c * k"
    using unat_size_of_nat [of "unat c * k"] by simp
  have c: "at + 8 \<le> length buf" "c = bytes_size (peek at 8 buf)"
    using g by (auto simp: get_size_def mem_read_def result_simps split: if_splits)
  have bs: "bs = peek (at + 8) (unat c * k) buf" "at + 8 + unat c * k \<le> length buf"
    using b ck by (auto simp: mem_read_def split: if_splits)
  then have len: "length bs = unat c * k" by (simp add: length_peek)
  have piece: "length (peek (i * k) k bs) = k" if "i < unat c" for i
  proof -
    have "Suc i * k \<le> length bs" unfolding len using that by (intro mult_le_mono1) simp
    then show ?thesis by (simp add: peek_def)
  qed
  have "concat (map (\<lambda>i. peek (i * k) k bs) [0..<unat c]) = bs" using concat_pieces [of "unat c" k bs] len by simp
  then have bytes: "value_bytes v = peek at 8 buf @ bs"
    using c size_bytes_size [of "peek at 8 buf"] by (simp add: v(1) comp_def length_peek)
  then have l: "length (value_bytes v) = 8 + unat c * k" using c(1) len by (simp add: length_peek)
  have "unat c * k + 8 < 2 ^ 64" using bs(2) assms(4) by simp
  then have "unat n = length (value_bytes v)"
    using unat_size_of_nat [of "unat c * k + 8"] unfolding l v(2) by (simp add: add.commute)
  moreover have "value_bytes v = peek at (8 + unat c * k) buf" unfolding bytes bs(1) by (simp add: peek_add)
  moreover have "k \<noteq> 0" using assms(2) Vector_type u by (simp add: sized_def)
  then have "type_of v = t" "value_ok v" using piece Vector_type u by (auto simp: v(1))
  ultimately show ?thesis using bs(2) l by (simp add: read_from_def)
next
  case Class_type
  then show ?thesis using assms(1) by (simp add: is_contiguous_def)
qed

lemma all_accepted:
  assumes "are_contiguous ts" and "\<forall>t\<in>set ts. sized t" and "contiguous_deserialize_all at ts buf = Inr vs" and "length buf < 2 ^ 31"
    and "at \<le> length buf"
  shows "map type_of vs = ts \<and> (\<forall>v\<in>set vs. value_ok v) \<and> at + length (concat (map value_bytes vs)) \<le> length buf \<and>
    concat (map value_bytes vs) = peek at (length (concat (map value_bytes vs))) buf"
  using assms
proof (induction ts arbitrary: at vs)
  case Nil
  then show ?case by (simp add: peek_def)
next
  case (Cons t ts)
  then obtain v n ws where r: "contiguous_deserialize_unit at t buf = Inr (v, n)"
    "contiguous_deserialize_all (at + unat n) ts buf = Inr ws" "vs = v # ws"
    by (auto simp: result_simps)
  have v: "read_from at buf t v" "unat n = length (value_bytes v)" using unit_accepted [OF _ _ r(1)] Cons.prems by simp_all
  then have "at + unat n \<le> length buf" by (simp add: read_from_def)
  from Cons.IH [OF _ _ r(2) _ this] Cons.prems(1,2,4)
  have ws: "map type_of ws = ts" "\<forall>v\<in>set ws. value_ok v" "at + unat n + length (concat (map value_bytes ws)) \<le> length buf"
    "concat (map value_bytes ws) = peek (at + unat n) (length (concat (map value_bytes ws))) buf" by simp_all
  then show ?case using v unfolding read_from_def r(3) by (simp add: peek_add)
qed

section \<open>Both serialisers\<close>

text \<open>The entry points that always use Boost agree with the others on what is not contiguous.\<close>

lemma boost_entry_points:
  assumes "\<not> are_contiguous ts"
  shows "\<And>r. deserialize_call ba ts buf n f a = Inr r \<Longrightarrow>
      boost_deserialize_call_serialize ba ts buf n f a = Inr (ba_save ba [fst r], snd r)"
    and "\<not> is_contiguous t \<Longrightarrow> boost_deserialize_result ba t buf n =
      bindE (deserialize_all ba [t] buf n) (\<lambda>vals. case vals of [] \<Rightarrow> Inl Out_of_bounds | val # _ \<Rightarrow> Inr val)"
proof -
  fix r
  assume "deserialize_call ba ts buf n f a = Inr r"
  moreover have "ts \<noteq> []" using assms by auto
  ultimately show "boost_deserialize_call_serialize ba ts buf n f a = Inr (ba_save ba [fst r], snd r)"
    using assms by (auto simp: deserialize_call_def boost_deserialize_call_serialize_def boost_deserialize_call_archive_def
        deserialize_all_def boost_deserialize_all_def result_simps split: if_splits intro!: exI [of _ "fst r"])
qed (simp add: boost_deserialize_result_def deserialize_all_def)

lemma serial_contiguous:
  "serial_ok ba vs \<Longrightarrow> are_contiguous (map type_of vs) \<Longrightarrow> \<forall>v\<in>set vs. value_ok v \<and> is_contiguous (type_of v)"
  by (auto simp: serial_ok_def are_contiguous_iff)

lemma predictSerializationSize_eq:
  assumes "serial_ok ba vs"
  shows "predictSerializationSize ba vs = of_nat (length (serial_bytes ba vs))"
  using predicted_size [OF serial_contiguous [OF assms]]
  by (auto simp: predictSerializationSize_def serial_bytes_def predictBoostSerializationSize_def)

lemma serialize_all_to_buf_eq:
  assumes "serial_ok ba vs" and "at + length (serial_bytes ba vs) \<le> length buf"
  shows "serialize_all_to_buf ba at (of_nat (length (serial_bytes ba vs))) vs buf = Inr (poke at (serial_bytes ba vs) buf)"
proof (cases "are_contiguous (map type_of vs)")
  case True
  then show ?thesis
    using all_written [OF serial_contiguous [OF assms(1) True]] assms
    by (simp add: serialize_all_to_buf_def serial_bytes_def serial_ok_def)
next
  case False
  then show ?thesis
    using assms by (simp add: serialize_all_to_buf_def serial_bytes_def serial_ok_def boost_serialize_all_to_buf_def mem_write_Inr)
qed

lemma serialize_all_to_vchar_eq:
  assumes "serial_ok ba vs"
  shows "serialize_all_to_vchar ba vs = Inr (serial_bytes ba vs)"
proof -
  let ?b = "serial_bytes ba vs"
  have len: "length ?b < 2 ^ 31" using assms by (simp add: serial_ok_def)
  then have "(ucast (of_nat (length ?b) :: size_t) :: c_int) = of_nat (length ?b)" "unat (of_nat (length ?b) :: size_t) = length ?b"
    by (simp_all add: ucast_of_nat_int)
  then show ?thesis
    using serialize_all_to_buf_eq [OF assms, of 0 "replicate (length ?b) 0"]
    by (simp add: serialize_all_to_vchar_def predictSerializationSize_eq [OF assms] Let_def poke_def)
qed

lemma deserialize_all_eq:
  assumes "boost_ok ba vs" and "serial_ok ba vs"
  shows "deserialize_all ba (map type_of vs) (serial_bytes ba vs @ rest) (of_nat (length (serial_bytes ba vs))) = Inr vs"
proof (cases "are_contiguous (map type_of vs)")
  case True
  then show ?thesis
    using all_read [OF serial_contiguous [OF assms(2) True], of "[]" rest] assms(2)
    by (simp add: deserialize_all_def serial_bytes_def serial_ok_def)
next
  case False
  then show ?thesis
    using assms mem_read_mid [of "[]" "ba_save ba vs" rest]
    by (simp add: deserialize_all_def boost_deserialize_all_def serial_bytes_def serial_ok_def boost_ok_def)
qed


section \<open>Properties\<close>

text \<open>
  Property C16: the arguments of a call, serialised on one side and deserialised with the same
  static types on the other, are the same values; the predicted size is the size of the bytes, and
  whatever follows them in the receive buffer is not read. This holds for plain data and vectors
  of it in any order, and for all other types if Boost loads what it saved.
\<close>

theorem arguments_round_trip:
  assumes "boost_ok ba vs" and "serial_ok ba vs"
  shows "\<exists>bs. serialize_all_to_vchar ba vs = Inr bs \<and> predictSerializationSize ba vs = of_nat (length bs) \<and>
    deserialize_all ba (map type_of vs) (bs @ junk) (of_nat (length bs)) = Inr vs"
  using serialize_all_to_vchar_eq [OF assms(2)] predictSerializationSize_eq [OF assms(2)] deserialize_all_eq [OF assms]
  by (intro exI conjI)

definition tag_archive :: boost_archive where
  "tag_archive = \<lparr>ba_save = \<lambda>vs. case vs of [Object st, Pod bs] \<Rightarrow> bs @ st | _ \<Rightarrow> [],
     ba_load = \<lambda>ts bs. case ts of [Class_type, Pod_type k] \<Rightarrow> Inr [Object (drop k bs), Pod (take k bs)] | _ \<Rightarrow> Inl Out_of_bounds\<rparr>"

theorem arguments_round_trip_witness:
  "let vs = [Pod [1, 2], Vec (Pod_type 1) [Pod [7], Pod [8]]]; ws = [Object [5], Pod [1, 2]]
   in (\<exists>bs. serialize_all_to_vchar tag_archive vs = Inr bs \<and>
        deserialize_all tag_archive (map type_of vs) (bs @ [9]) (of_nat (length bs)) = Inr vs) \<and>
      (\<exists>bs. serialize_all_to_vchar tag_archive ws = Inr bs \<and>
        deserialize_all tag_archive (map type_of ws) (bs @ [9]) (of_nat (length bs)) = Inr ws)"
proof -
  let ?vs = "[Pod [1, 2], Vec (Pod_type 1) [Pod [7], Pod [8]]]" and ?ws = "[Object [5], Pod [1, 2]]"
  have v: "boost_ok tag_archive ?vs" "serial_ok tag_archive ?vs" and w: "boost_ok tag_archive ?ws" "serial_ok tag_archive ?ws"
    by (simp_all add: boost_ok_def serial_ok_def serial_bytes_def tag_archive_def is_contiguous_def)
  show ?thesis
    using arguments_round_trip [OF v, of "[9]"] arguments_round_trip [OF w, of "[9]"] unfolding Let_def by blast
qed


text \<open>
  Property C38: the bytes determine the values and the values the bytes. Whatever buffer arrives, if the values of a
  list of plain types and vectors of them can be read from it, they have these types, serialising them succeeds, and
  gives exactly the bytes at the start of the buffer they were read from: the serialised form is the only one that is
  accepted. (A message, hence the buffer, is shorter than \<open>2 ^ 31\<close> bytes, and no C++ type has size 0.)
\<close>

theorem deserialized_bytes_are_serial:
  assumes "are_contiguous ts" and "Pod_type 0 \<notin> set ts" and "Vector_type (Pod_type 0) \<notin> set ts" and "length buf < 2 ^ 31"
    and "deserialize_all ba ts buf bufsize = Inr vs"
  shows "\<exists>bs rest. map type_of vs = ts \<and> serialize_all_to_vchar ba vs = Inr bs \<and> buf = bs @ rest"
proof -
  let ?bs = "concat (map value_bytes vs)"
  have "contiguous_deserialize_all 0 ts buf = Inr vs" using assms(1,5) by (simp add: deserialize_all_def)
  moreover have "\<forall>t\<in>set ts. sized t" using assms(2,3) by (auto simp: sized_def)
  ultimately have r: "map type_of vs = ts" "\<forall>v\<in>set vs. value_ok v" "length ?bs \<le> length buf" "?bs = peek 0 (length ?bs) buf"
    using all_accepted [OF assms(1) _ _ assms(4)] by force+
  have sb: "serial_bytes ba vs = ?bs" using assms(1) r(1) by (simp add: serial_bytes_def)
  then have "serialize_all_to_vchar ba vs = Inr ?bs"
    using serialize_all_to_vchar_eq [of ba vs] r(2,3) assms(4) by (simp add: serial_ok_def)
  moreover have "buf = ?bs @ drop (length ?bs) buf" using r(4) unfolding peek_def by (metis append_take_drop_id drop0)
  ultimately show ?thesis using r(1) by blast
qed

theorem deserialized_bytes_are_serial_witness:
  "\<exists>vs bs rest. deserialize_all tag_archive [Pod_type 1, Vector_type (Pod_type 2)] [7, 1, 0, 0, 0, 0, 0, 0, 0, 9, 8, 5] 11 = Inr vs \<and>
    serialize_all_to_vchar tag_archive vs = Inr bs \<and> [7, 1, 0, 0, 0, 0, 0, 0, 0, 9, 8, 5] = bs @ rest"
proof -
  have "bytes_size [1, 0, 0, 0, 0, 0, 0, 0] = 1" by code_simp
  then have r: "deserialize_all tag_archive [Pod_type 1, Vector_type (Pod_type 2)] [7, 1, 0, 0, 0, 0, 0, 0, 0, 9, 8, 5] 11 =
      Inr [Pod [7], Vec (Pod_type 2) [Pod [9, 8]]]"
    by (simp add: deserialize_all_def is_contiguous_def Let_def mem_read_def peek_def get_size_def vector_max_bytes_def)
  from deserialized_bytes_are_serial [OF _ _ _ _ r] r show ?thesis by (fastforce simp: is_contiguous_def)
qed

end
