(* ===== verification/Actor_Worker.thy ===== *)
theory Actor_Worker
  imports Serialization
begin

text \<open>
  The worker thread of an actor process: \<^verbatim>\<open>ActorWorker\<close>
  (src/src/ActiveBSP/src/worker/ActorWorker.cpp), the proxy through which it reaches its management
  thread (src/shmem/SharedMemoryMasterProxy.cpp, src/future/LazyResultPublisher.cpp), the handlers
  \<^verbatim>\<open>DECL_ACTOR\<close> generates for the methods of a class (include/decl_actor.h), and the channel of
  SPMD function ids from the head to the other processes
  (src/mpi/MPIIntraActorCommunicator.cpp).

  The requests the management thread posts and the ids the head broadcasts are arguments: a thread
  that waits for one more than will ever arrive is a \<^const>\<open>Deadlock\<close>. The object that is deleted at
  the end is kept in the state so that what it did can be stated.
\<close>

section \<open>State\<close>

type_synonym 'o method_handler = "byte list \<Rightarrow> c_int \<Rightarrow> 'o actor_base \<Rightarrow> (byte list \<times> 'o actor_base) result"

record 'o actor_worker =
  aw_obj :: "'o actor_base option"
  aw_run :: bool
  aw_functions :: "byte list \<rightharpoonup> 'o method_handler"
  aw_deleted :: "'o actor_base option"

definition ActorWorker :: "'o actor_base \<Rightarrow> 'o actor_worker" where
  "ActorWorker obj = \<lparr>aw_obj = Some obj, aw_run = True, aw_functions = Map.empty, aw_deleted = None\<rparr>"

definition register_function :: "byte list \<Rightarrow> 'o method_handler \<Rightarrow> 'o actor_worker \<Rightarrow> 'o actor_worker" where
  "register_function name f w = w\<lparr>aw_functions := (aw_functions w)(name \<mapsto> f)\<rparr>"

definition actor_function_handler :: "boost_archive \<Rightarrow> cpp_type list \<Rightarrow> 'o actor_method \<Rightarrow> 'o method_handler" where
  "actor_function_handler ba ts func argsBuf argsSize obj = deserialize_call_serialize ba ts argsBuf argsSize func obj"

section \<open>The proxy of the management thread\<close>

definition publishResult ::
  "block \<Rightarrow> active_object_request \<Rightarrow> byte list \<Rightarrow> 'o actor_base \<Rightarrow> 'o actor_base result"
where
  "publishResult b req data a =
     bindE (comm_registerFutureData b (ab_node a) (ar_localkey req) data) (\<lambda>mm. Inr (a\<lparr>ab_sent := ab_sent a @ [mm]\<rparr>))"

definition reportResult ::
  "block \<Rightarrow> active_object_request \<Rightarrow> byte list \<Rightarrow> 'o actor_base \<Rightarrow> 'o actor_base result"
where
  "reportResult b req data a = publishResult b req data a"

definition getNextRequest :: "request_queue \<Rightarrow> (active_object_request \<times> request_queue) option" where
  "getNextRequest q = getNextMessage q"

definition getNPendingRequests :: "request_queue \<Rightarrow> c_int" where
  "getNPendingRequests q = queue_getNPendingRequests q"

text \<open>\<^verbatim>\<open>writeStoredResult\<close> only logs that it is not implemented.\<close>

definition writeStoredResult :: "'s \<Rightarrow> c_int \<times> 's" where
  "writeStoredResult store = (0, store)"

text \<open>
  The other publisher, and the retriever that goes with it: the result is sent to the caller
  directly. The tag of the message is the source of the request, not its key.
\<close>

definition direct_publishResult ::
  "active_object_request \<Rightarrow> byte list \<Rightarrow> 'o actor_base \<Rightarrow> 'o actor_base result"
where
  "direct_publishResult req data a =
     bindE (sendKeyedFutureValue (ar_sender req) data (ar_sender req)) (\<lambda>mm. Inr (a\<lparr>ab_sent := ab_sent a @ [mm]\<rparr>))"

definition direct_retrieveData :: "(c_int \<Rightarrow> c_int \<Rightarrow> byte list list) \<Rightarrow> c_int \<Rightarrow> c_int \<Rightarrow> byte list result" where
  "direct_retrieveData arrived src key = receiveKeyedFutureValue (arrived src key)"

definition hasRequest :: "request_queue \<Rightarrow> bool" where
  "hasRequest q \<longleftrightarrow> \<not> queue_isEmpty q"

definition destroyMasterObject :: "block \<Rightarrow> 'o actor_base \<Rightarrow> 'o actor_base result" where
  "destroyMasterObject b a =
     bindE (StopActorMessage b False) (\<lambda>m.
     bindE (sendActorMessage (ab_node a) m) (\<lambda>mm. Inr (a\<lparr>ab_sent := ab_sent a @ [mm]\<rparr>)))"

section \<open>The loops\<close>

text \<open>The answer to a call of an unknown method is the text \<^verbatim>\<open>error\<close>.\<close>

definition error_text :: "byte list" where
  "error_text = [101, 114, 114, 111, 114]"

definition serve_request ::
  "(nat \<Rightarrow> block) \<Rightarrow> active_object_request \<Rightarrow> 'o actor_worker \<Rightarrow> 'o actor_worker result"
where
  "serve_request blocks req w =
     bindE (call_getFunctionName (ar_callActorMessage req)) (\<lambda>name.
     bindE (call_getArgsPtr (ar_callActorMessage req)) (\<lambda>serialBuf.
     bindE (call_getArgsSize (ar_callActorMessage req)) (\<lambda>serialSize.
     bindE (call_getFutureKey (ar_callActorMessage req)) (\<lambda>key.
       case aw_obj w of
         None \<Rightarrow> Inl Null_deref
       | Some a \<Rightarrow>
           bindE (case aw_functions w name of
                    Some f \<Rightarrow> f serialBuf serialSize (setRequestId key a)
                  | None \<Rightarrow> Inr (error_text, a)) (\<lambda>(serial, a1).
           bindE (reportResult (blocks (length (ab_sent a1))) req serial a1) (\<lambda>a2.
             Inr (w\<lparr>aw_obj := Some a2\<rparr>)))))))"

text \<open>\<^verbatim>\<open>while (_run || _masterProxy->hasRequest())\<close>, on the requests that will be posted.\<close>

fun master_loop ::
  "(nat \<Rightarrow> block) \<Rightarrow> request_queue \<Rightarrow> 'o actor_worker \<Rightarrow> ('o actor_worker \<times> request_queue) result"
where
  "master_loop blocks [] w = (if aw_run w then Inl Deadlock else Inr (w, []))"
| "master_loop blocks (req # reqs) w =
     (if ar_sender req = - 1 then Inr (w\<lparr>aw_run := False\<rparr>, reqs)
      else bindE (serve_request blocks req w) (master_loop blocks reqs))"

fun receiveSPMDFunctionId :: "c_int list \<Rightarrow> (c_int \<times> c_int list) result" where
  "receiveSPMDFunctionId [] = Inl Deadlock"
| "receiveSPMDFunctionId (i # ids) = Inr (i, ids)"

fun slave_loop :: "c_int list \<Rightarrow> 'o actor_base \<Rightarrow> ('o actor_base \<times> c_int list) result" where
  "slave_loop [] a = Inl Deadlock"
| "slave_loop (function_id # ids) a =
     (if function_id = 0 then Inr (a, ids)
      else bindE (sub_int function_id 1) (\<lambda>i. bindE (call_spmd i a) (slave_loop ids)))"

definition destroyActor :: "block \<Rightarrow> 'o actor_worker \<Rightarrow> 'o actor_worker result" where
  "destroyActor b w =
     (case aw_obj w of
        None \<Rightarrow> Inl Null_deref
      | Some a \<Rightarrow>
          bindE (if \<not> is_master a then destroyMasterObject b a else Inr (kill_slaves a)) (\<lambda>a1.
            Inr (w\<lparr>aw_obj := None, aw_deleted := Some (base_sync a1)\<rparr>)))"

definition worker_handler ::
  "(nat \<Rightarrow> block) \<Rightarrow> request_queue \<Rightarrow> c_int list \<Rightarrow> 'o actor_worker \<Rightarrow>
    ('o actor_worker \<times> request_queue \<times> c_int list) result"
where
  "worker_handler blocks reqs ids w =
     (case aw_obj w of
        None \<Rightarrow> Inl Null_deref
      | Some a \<Rightarrow>
          if is_master a then
            bindE (master_loop blocks reqs w) (\<lambda>(w1, reqs1).
            bindE (destroyActor (blocks 0) w1) (\<lambda>w2. Inr (w2, reqs1, ids)))
          else
            bindE (slave_loop ids a) (\<lambda>(a1, ids1).
            bindE (destroyActor (blocks 0) (w\<lparr>aw_obj := Some a1\<rparr>)) (\<lambda>w2. Inr (w2, reqs, ids1))))"

text \<open>
  The handler \<^verbatim>\<open>DECL_ACTOR\<close> generates for a class: \<open>obj\<close> is the object its constructor makes,
  \<open>methods\<close> the listed methods with their names and argument types.
\<close>

definition class_handler ::
  "boost_archive \<Rightarrow> (nat \<Rightarrow> block) \<Rightarrow> (byte list \<times> cpp_type list \<times> 'o actor_method) list \<Rightarrow> 'o actor_base \<Rightarrow>
    request_queue \<Rightarrow> c_int list \<Rightarrow> ('o actor_worker \<times> request_queue \<times> c_int list) result"
where
  "class_handler ba blocks methods obj reqs ids =
     worker_handler blocks reqs ids
       (fold (\<lambda>(name, ts, f). register_function name (actor_function_handler ba ts f)) methods (ActorWorker obj))"

section \<open>Serving typed calls\<close>

text \<open>What a call is: the method, its arguments, the key in the message and the key of the future.\<close>

type_synonym 'o typed_call = "'o actor_method \<times> cpp_value list \<times> c_int \<times> c_int"

definition typed_call ::
  "boost_archive \<Rightarrow> (nat \<Rightarrow> block) \<Rightarrow> 'o typed_call \<Rightarrow> 'o actor_base \<Rightarrow> 'o actor_base result"
where
  "typed_call ba blocks = (\<lambda>(f, args, reqid, key) a.
     bindE (f args (setRequestId reqid a)) (\<lambda>(res, a1).
     bindE (comm_registerFutureData (blocks (length (ab_sent a1))) (ab_node a1) key (serial_bytes ba [res])) (\<lambda>mm.
       Inr (a1\<lparr>ab_sent := ab_sent a1 @ [mm]\<rparr>))))"

definition returns_ok :: "boost_archive \<Rightarrow> cpp_value list \<Rightarrow> 'o actor_method \<Rightarrow> bool" where
  "returns_ok ba args f \<longleftrightarrow> (\<forall>a res b. f args a = Inr (res, b) \<longrightarrow>
     serial_ok ba [res] \<and> register_ok (0, serial_bytes ba [res]))"

definition is_request ::
  "boost_archive \<Rightarrow> (byte list \<rightharpoonup> 'o method_handler) \<Rightarrow> active_object_request \<Rightarrow> 'o typed_call \<Rightarrow> bool"
where
  "is_request ba fs req = (\<lambda>(f, args, reqid, key).
     ar_sender req \<noteq> - 1 \<and> ar_localkey req = key \<and> boost_ok ba args \<and> serial_ok ba args \<and> returns_ok ba args f \<and>
     (\<exists>name. call_getFunctionName (ar_callActorMessage req) = Inr name \<and>
       call_getArgs (ar_callActorMessage req) = Inr (serial_bytes ba args) \<and>
       call_getFutureKey (ar_callActorMessage req) = Inr reqid \<and>
       fs name = Some (actor_function_handler ba (map type_of args) f)))"

lemma call_getArgs_ptr:
  assumes "call_getArgs m = Inr bs"
  shows "call_getArgsSize m = Inr (of_nat (length bs)) \<and> (\<exists>rest. call_getArgsPtr m = Inr (bs @ rest))"
proof -
  from assms obtain n off at where n: "call_getArgsSize m = Inr n" "0 \<le> sint n" "get_int (am_buf m) 12 = Inr off"
    "envelope_offset 20 off = Inr at" "mem_read (am_buf m) at (nat (sint n)) = Inr bs"
    by (auto simp: call_getArgs_def result_simps split: if_splits)
  then have bs: "bs = take (nat (sint n)) (drop at (am_buf m))" and len: "length bs = nat (sint n)"
    by (auto simp: mem_read_def peek_def split: if_splits)
  have "(of_nat (length bs) :: c_int) = of_int (int (nat (sint n)))" by (simp only: len of_int_of_nat_eq)
  also have "\<dots> = n" using n(2) by simp
  finally have "n = of_nat (length bs)" by simp
  moreover have "drop at (am_buf m) = bs @ drop (nat (sint n)) (drop at (am_buf m))"
    unfolding bs by (rule append_take_drop_id [symmetric])
  ultimately show ?thesis using n by (auto simp: call_getArgsPtr_def)
qed

lemma deserialize_call_eq:
  assumes "boost_ok ba args" and "serial_ok ba args"
  shows "deserialize_call ba (map type_of args) (serial_bytes ba args @ rest) (of_nat (length (serial_bytes ba args))) f a = f args a"
  using deserialize_all_eq [OF assms, of rest] by (cases args) (simp_all add: deserialize_call_def)

lemma handler_runs_method:
  assumes "boost_ok ba args" and "serial_ok ba args" and "returns_ok ba args f"
  shows "actor_function_handler ba (map type_of args) f (serial_bytes ba args @ rest) (of_nat (length (serial_bytes ba args))) a =
    bindE (f args a) (\<lambda>(res, b). Inr (serial_bytes ba [res], b))"
proof (cases "f args a")
  case (Inl e)
  then show ?thesis
    using deserialize_call_eq [OF assms(1,2), of rest f a] by (simp add: actor_function_handler_def deserialize_call_serialize_def)
next
  case (Inr rb)
  obtain res b where rb: "rb = (res, b)" by (cases rb)
  then have "serial_ok ba [res]" using assms(3) Inr unfolding returns_ok_def by blast
  then show ?thesis
    using deserialize_call_eq [OF assms(1,2), of rest f a] Inr rb
    by (simp add: actor_function_handler_def deserialize_call_serialize_def serialize_all_to_vchar_eq)
qed

lemma serve_typed:
  assumes "is_request ba (aw_functions w) req c" and "aw_obj w = Some a"
  shows "serve_request blocks req w = bindE (typed_call ba blocks c a) (\<lambda>b. Inr (w\<lparr>aw_obj := Some b\<rparr>))"
proof -
  obtain f args reqid key where c: "c = (f, args, reqid, key)" by (cases c)
  from assms(1) obtain name where n: "ar_localkey req = key" "call_getFunctionName (ar_callActorMessage req) = Inr name"
    "call_getFutureKey (ar_callActorMessage req) = Inr reqid" "call_getArgs (ar_callActorMessage req) = Inr (serial_bytes ba args)"
    "aw_functions w name = Some (actor_function_handler ba (map type_of args) f)"
    and ok: "boost_ok ba args" "serial_ok ba args" "returns_ok ba args f"
    by (auto simp: is_request_def c)
  from call_getArgs_ptr [OF n(4)] obtain rest where
    p: "call_getArgsSize (ar_callActorMessage req) = Inr (of_nat (length (serial_bytes ba args)))"
    "call_getArgsPtr (ar_callActorMessage req) = Inr (serial_bytes ba args @ rest)" by blast
  show ?thesis
    using n(1-3,5) p handler_runs_method [OF ok, of rest "setRequestId reqid a"] assms(2)
    by (simp add: serve_request_def c typed_call_def reportResult_def publishResult_def split_def)
qed

lemma master_loop_typed:
  assumes "list_all2 (is_request ba (aw_functions w)) reqs calls" and "aw_obj w = Some a" and "ar_sender stop = - 1"
  shows "master_loop blocks (reqs @ stop # later) w =
    bindE (foldE (typed_call ba blocks) calls a) (\<lambda>b. Inr (w\<lparr>aw_obj := Some b, aw_run := False\<rparr>, later))"
  using assms
proof (induction reqs arbitrary: calls a w)
  case Nil
  then show ?case by (cases w) simp
next
  case (Cons req reqs)
  from Cons.prems(1) obtain c cs where calls: "calls = c # cs" "is_request ba (aw_functions w) req c"
    "list_all2 (is_request ba (aw_functions w)) reqs cs" by (auto simp: list_all2_Cons1)
  have "ar_sender req \<noteq> - 1" using calls(2) by (auto simp: is_request_def split_def)
  then have "master_loop blocks ((req # reqs) @ stop # later) w =
      bindE (typed_call ba blocks c a) (\<lambda>b. master_loop blocks (reqs @ stop # later) (w\<lparr>aw_obj := Some b\<rparr>))"
    using serve_typed [OF calls(2) Cons.prems(2)] by simp
  moreover have "master_loop blocks (reqs @ stop # later) (w\<lparr>aw_obj := Some b\<rparr>) =
      bindE (foldE (typed_call ba blocks) cs b) (\<lambda>d. Inr (w\<lparr>aw_obj := Some d, aw_run := False\<rparr>, later))" for b
    using Cons.IH [of "w\<lparr>aw_obj := Some b\<rparr>" cs b] calls(3) Cons.prems(3) by simp
  ultimately show ?case by (simp add: calls(1))
qed


section \<open>The processes of an actor run the same SPMD functions\<close>

text \<open>The head has told the others every function it ran, in order, one more than its index.\<close>

definition spmd_log :: "'o actor_base \<Rightarrow> bool" where
  "spmd_log a \<longleftrightarrow> ab_ids_sent a = map (\<lambda>i. i + 1) (ab_called a) \<and>
     (\<forall>i\<in>set (ab_called a). 0 \<le> sint i \<and> sint i < 2 ^ 31 - 1)"

definition in_step :: "('o actor_base \<Rightarrow> ('r \<times> 'o actor_base) result) \<Rightarrow> bool" where
  "in_step m \<longleftrightarrow> (\<forall>a r b. m a = Inr (r, b) \<longrightarrow> spmd_log a \<longrightarrow> spmd_log b \<and> ab_pid b = ab_pid a)"

lemma in_step_request: "in_step m \<Longrightarrow> in_step (\<lambda>a. m (setRequestId key a))"
proof (unfold in_step_def, intro allI impI)
  fix a r b
  assume m: "\<forall>a r b. m a = Inr (r, b) \<longrightarrow> spmd_log a \<longrightarrow> spmd_log b \<and> ab_pid b = ab_pid a"
    and run: "m (setRequestId key a) = Inr (r, b)" and log: "spmd_log a"
  have "spmd_log (setRequestId key a)" "ab_pid (setRequestId key a) = ab_pid a"
    using log by (simp_all add: setRequestId_def spmd_log_def)
  then show "spmd_log b \<and> ab_pid b = ab_pid a" using m run by metis
qed

lemma bsp_run_log:
  assumes "bsp_run addr a = Inr b" and "spmd_log a"
  shows "spmd_log b \<and> ab_pid b = ab_pid a"
proof -
  obtain i ids where s: "subscript 0 addr (ab_spmd_function_ids a) = (i, ids)" by (cases "subscript 0 addr (ab_spmd_function_ids a)")
  define a1 where "a1 = sendSPMDFunctionID (i + 1) (a\<lparr>ab_spmd_function_ids := ids\<rparr>)"
  have fits: "int_fits (sint i + 1)" and call: "call_function i a1 = Inr b"
    using assms(1) s by (auto simp: bsp_run_def run_function_id_def add_int_def result_simps a1_def split: if_splits)
  from call obtain f where f: "function_at i a1 = Some f" "run_function f (a1\<lparr>ab_called := ab_called a1 @ [i]\<rparr>) = Inr b"
    by (auto simp: call_function_eq split: option.splits)
  have "0 \<le> sint i" using f(1) by (auto simp: function_at_def split: if_splits)
  then show ?thesis
    using run_function_frame [OF f(2)] fits assms(2) by (auto simp: spmd_log_def a1_def sendSPMDFunctionID_def int_fits_def)
qed

text \<open>
  What the body of a method can do with the part of its object that lives in
  \<^verbatim>\<open>ActorBase\<close>: the log of the functions called, the channel of function ids and the pid are
  private to the base class, so everything in the body leaves them alone, except
  \<^const>\<open>bsp_run\<close>, which is called any number of times, between any computations on the object and
  under any conditions on it.
\<close>

definition spmd_view :: "'o actor_base \<Rightarrow> c_int list \<times> c_int list \<times> c_int" where
  "spmd_view a = (ab_called a, ab_ids_sent a, ab_pid a)"

inductive method_body :: "('o actor_base \<Rightarrow> ('r \<times> 'o actor_base) result) \<Rightarrow> bool" where
  finish: "(\<And>a r b. m a = Inr (r, b) \<Longrightarrow> spmd_view b = spmd_view a) \<Longrightarrow> method_body m"
| compute: "(\<And>a b. l a = Inr b \<Longrightarrow> spmd_view b = spmd_view a) \<Longrightarrow> method_body m \<Longrightarrow> method_body (\<lambda>a. bindE (l a) m)"
| run_spmd: "method_body m \<Longrightarrow> method_body (\<lambda>a. bindE (bsp_run addr a) m)"
| branch: "(\<And>x. method_body (k x)) \<Longrightarrow> method_body (\<lambda>a. k a a)"

lemma spmd_view_log: "spmd_view b = spmd_view a \<Longrightarrow> spmd_log a \<Longrightarrow> spmd_log b \<and> ab_pid b = ab_pid a"
  by (simp add: spmd_view_def spmd_log_def)

lemma method_body_in_step: "method_body m \<Longrightarrow> in_step m"
proof (induction rule: method_body.induct)
  case (finish m)
  then show ?case unfolding in_step_def by (meson spmd_view_log)
next
  case (compute l m)
  show ?case unfolding in_step_def
  proof (intro allI impI)
    fix a r b
    assume "bindE (l a) m = Inr (r, b)" and log: "spmd_log a"
    then obtain c where c: "l a = Inr c" "m c = Inr (r, b)" by (auto simp: result_simps)
    from spmd_view_log [OF compute.hyps(1) [OF c(1)] log] compute.IH c(2)
    show "spmd_log b \<and> ab_pid b = ab_pid a" unfolding in_step_def by metis
  qed
next
  case (run_spmd m addr)
  show ?case unfolding in_step_def
  proof (intro allI impI)
    fix a r b
    assume "bindE (bsp_run addr a) m = Inr (r, b)" and log: "spmd_log a"
    then obtain c where c: "bsp_run addr a = Inr c" "m c = Inr (r, b)" by (auto simp: result_simps)
    from bsp_run_log [OF c(1) log] run_spmd.IH c(2)
    show "spmd_log b \<and> ab_pid b = ab_pid a" unfolding in_step_def by metis
  qed
next
  case (branch k)
  then show ?case unfolding in_step_def by blast
qed

lemma serve_request_log:
  assumes "serve_request blocks req w = Inr w'" and "aw_obj w = Some a" and "spmd_log a"
    and "\<forall>f\<in>ran (aw_functions w). \<forall>buf n. in_step (f buf n)"
  shows "aw_functions w' = aw_functions w \<and> (\<exists>b. aw_obj w' = Some b \<and> spmd_log b \<and> ab_pid b = ab_pid a)"
proof -
  from assms(1,2) obtain name buf n key serial a1 a2 where
    r: "(case aw_functions w name of Some f \<Rightarrow> f buf n (setRequestId key a) | None \<Rightarrow> Inr (error_text, a)) = Inr (serial, a1)"
    "reportResult (blocks (length (ab_sent a1))) req serial a1 = Inr a2" "w' = w\<lparr>aw_obj := Some a2\<rparr>"
    by (auto simp: serve_request_def result_simps)
  have "spmd_log a1 \<and> ab_pid a1 = ab_pid a"
  proof (cases "aw_functions w name")
    case None
    then show ?thesis using r(1) assms(3) by simp
  next
    case (Some f)
    then have "in_step (f buf n)" using assms(4) by (auto simp: ran_def)
    then have "in_step (\<lambda>a. f buf n (setRequestId key a))" by (rule in_step_request)
    then show ?thesis using r(1) Some assms(3) unfolding in_step_def by auto
  qed
  then show ?thesis using r(2,3) by (auto simp: reportResult_def publishResult_def result_simps spmd_log_def)
qed

lemma master_loop_log:
  assumes "master_loop blocks reqs w = Inr (w', rest)" and "aw_obj w = Some a" and "spmd_log a"
    and "\<forall>f\<in>ran (aw_functions w). \<forall>buf n. in_step (f buf n)"
  shows "\<exists>b. aw_obj w' = Some b \<and> spmd_log b \<and> ab_pid b = ab_pid a"
  using assms
proof (induction blocks reqs w arbitrary: a rule: master_loop.induct)
  case (1 blocks w)
  then show ?case by (auto split: if_splits)
next
  case (2 blocks req reqs w)
  show ?case
  proof (cases "ar_sender req = - 1")
    case True
    then show ?thesis using 2(2-) by auto
  next
    case False
    then obtain w1 where w1: "serve_request blocks req w = Inr w1" "master_loop blocks reqs w1 = Inr (w', rest)"
      using 2(2) by (auto simp: result_simps)
    from serve_request_log [OF w1(1) 2(3,4,5)] obtain b where
      b: "aw_functions w1 = aw_functions w" "aw_obj w1 = Some b" "spmd_log b" "ab_pid b = ab_pid a" by blast
    show ?thesis using 2(1) [OF False w1(2) b(2,3)] 2(5) b(1,4) by auto
  qed
qed

lemma slave_loop_follows:
  assumes "\<forall>i\<in>set called. 0 \<le> sint i \<and> sint i < 2 ^ 31 - 1"
  shows "slave_loop (map (\<lambda>i. i + 1) called @ 0 # later) s = bindE (foldE call_spmd called s) (\<lambda>t. Inr (t, later))"
  using assms
proof (induction called arbitrary: s)
  case Nil
  then show ?case by simp
next
  case (Cons i called)
  have fits: "int_fits (sint i + 1)" using Cons.prems by (simp add: int_fits_def)
  then have "sint (i + 1) = sint i + 1" using sint_of_fits [of "sint i + 1"] by simp
  then have "i + 1 \<noteq> 0" "sub_int (i + 1) 1 = Inr i"
    using Cons.prems by (auto simp: sub_int_def int_fits_def) 
  moreover have "slave_loop (map (\<lambda>i. i + 1) called @ 0 # later) = (\<lambda>s :: 'a actor_base. bindE (foldE call_spmd called s) (\<lambda>t. Inr (t, later)))"
    using Cons by (intro ext) simp
  ultimately show ?case by simp
qed

lemma master_handler:
  assumes "worker_handler blocks reqs ids w = Inr (w', rest, ids')" and "aw_obj w = Some a" and "is_master a" and "spmd_log a"
    and "\<forall>f\<in>ran (aw_functions w). \<forall>buf n. in_step (f buf n)"
  shows "\<exists>b. aw_deleted w' = Some b \<and> ab_ids_sent b = map (\<lambda>i. i + 1) (ab_called b) @ [0] \<and>
    (\<forall>i\<in>set (ab_called b). 0 \<le> sint i \<and> sint i < 2 ^ 31 - 1)"
proof -
  from assms(1-3) obtain w1 where m: "master_loop blocks reqs w = Inr (w1, rest)" and d: "destroyActor (blocks 0) w1 = Inr w'"
    by (auto simp: worker_handler_def result_simps)
  from master_loop_log [OF m assms(2,4,5)] obtain b where b: "aw_obj w1 = Some b" "spmd_log b" "ab_pid b = ab_pid a" by blast
  then show ?thesis
    using d assms(3) by (auto simp: destroyActor_def is_master_def kill_slaves_def sendSPMDFunctionID_def base_sync_def spmd_log_def)
qed


lemma in_step_handler:
  assumes "\<And>args. in_step (f args)"
  shows "in_step (actor_function_handler ba ts f buf n)"
  unfolding in_step_def
proof (intro allI impI)
  fix a r b
  assume run: "actor_function_handler ba ts f buf n a = Inr (r, b)" and log: "spmd_log a"
  then obtain args res where "f args a = Inr (res, b)"
    by (auto simp: actor_function_handler_def deserialize_call_serialize_def deserialize_call_def result_simps split: if_splits)
  then show "spmd_log b \<and> ab_pid b = ab_pid a" using assms [of args] log unfolding in_step_def by blast
qed

lemma registered_methods:
  assumes "f \<in> ran (aw_functions (fold (\<lambda>(name, ts, f). register_function name (actor_function_handler ba ts f)) methods w))"
  shows "f \<in> ran (aw_functions w) \<or> (\<exists>(name, ts, g)\<in>set methods. f = actor_function_handler ba ts g)"
  using assms
proof (induction methods arbitrary: w)
  case Nil
  then show ?case by simp
next
  case (Cons x methods)
  obtain name ts g where x: "x = (name, ts, g)" by (cases x)
  have "ran (aw_functions (register_function name h w)) \<subseteq> insert h (ran (aw_functions w))" for h
    by (auto simp: register_function_def ran_def)
  then show ?case using Cons.IH [of "register_function name (actor_function_handler ba ts g) w"] Cons.prems x by auto
qed

lemma registered_worker:
  "aw_obj (fold (\<lambda>(name, ts, f). register_function name (h ts f)) methods w) = aw_obj w"
  by (induction methods arbitrary: w) (auto simp: register_function_def)

lemma class_handler_in_step:
  assumes "class_handler ba blocks methods a reqs ids = Inr (w', rest, ids')" and "is_master a"
    and "ab_called a = []" and "ab_ids_sent a = []" and "\<forall>(name, ts, f)\<in>set methods. \<forall>args. method_body (f args)"
  shows "\<exists>b. aw_deleted w' = Some b \<and> ab_ids_sent b = map (\<lambda>i. i + 1) (ab_called b) @ [0] \<and>
    (\<forall>i\<in>set (ab_called b). 0 \<le> sint i \<and> sint i < 2 ^ 31 - 1)"
proof -
  let ?w = "fold (\<lambda>(name, ts, f). register_function name (actor_function_handler ba ts f)) methods (ActorWorker a)"
  have "aw_obj ?w = Some a" unfolding registered_worker by (simp add: ActorWorker_def)
  moreover have "\<forall>f\<in>ran (aw_functions ?w). \<forall>buf n. in_step (f buf n)"
  proof (intro ballI allI)
    fix f buf n
    assume "f \<in> ran (aw_functions ?w)"
    from registered_methods [OF this] obtain name ts g where g: "(name, ts, g) \<in> set methods" "f = actor_function_handler ba ts g"
      by (auto simp: ActorWorker_def)
    have "method_body (g args)" for args using bspec [OF assms(5) g(1)] by simp
    then have "in_step (g args)" for args by (rule method_body_in_step)
    then show "in_step (f buf n)" unfolding g(2) by (rule in_step_handler)
  qed
  ultimately show ?thesis
    using master_handler [of blocks reqs ids ?w w' rest ids' a] assms(1-4) by (simp add: class_handler_def spmd_log_def)
qed

lemma report_sent:
  assumes "register_ok (key, data)"
  shows "\<exists>buf. RegisterFutureMessage b key data = Inr (fresh_message b buf) \<and>
    comm_registerFutureData b self key data =
      Inr \<lparr>mm_dst = self, mm_tag = ABSP_MPI_MANAGEMENT_THREAD_TAG, mm_bytes = buf\<rparr>"
  using register_encode [OF assms, of b] by (auto simp: comm_registerFutureData_def sendActorMessage_fresh)

lemma typed_call_returns:
  assumes "f args (setRequestId reqid a) = Inr (res, b)" and "returns_ok ba args f"
  shows "\<exists>c. typed_call ba blocks (f, args, reqid, key) a = Inr c"
proof -
  have "register_ok (0, serial_bytes ba [res])" using assms unfolding returns_ok_def by blast
  then have "register_ok (key, serial_bytes ba [res])" by (simp add: register_ok_def)
  from report_sent [OF this, of "blocks (length (ab_sent b))" "ab_node b"] show ?thesis
    using assms(1) by (auto simp: typed_call_def)
qed

lemma typed_calls_return:
  assumes "list_all2 (is_request ba fs) reqs calls" and "\<forall>(f, args, _)\<in>set calls. \<forall>a. \<exists>r. f args a = Inr r"
  shows "\<exists>b. foldE (typed_call ba blocks) calls a = Inr b"
  using assms
proof (induction reqs calls arbitrary: a rule: list_all2_induct)
  case Nil
  then show ?case by simp
next
  case (Cons req reqs c calls)
  obtain f args reqid key where c: "c = (f, args, reqid, key)" by (cases c)
  have "\<forall>a. \<exists>r. f args a = Inr r" using Cons.prems c by simp
  then obtain res b where "f args (setRequestId reqid a) = Inr (res, b)" by force
  moreover have "returns_ok ba args f" using Cons.hyps(1) by (simp add: is_request_def c)
  ultimately obtain d where d: "typed_call ba blocks c a = Inr d" using typed_call_returns c by blast
  have "\<exists>e. foldE (typed_call ba blocks) calls d = Inr e" using Cons.prems by (intro Cons.IH) simp
  then show ?case using d by simp
qed

section \<open>Properties\<close>

text \<open>
  Property C15: the loop of the head's worker thread returns at the stop request, if every method
  that is called returns. It has then served the requests before it, in the order of the queue:
  each method ran on the argument values the caller serialised, and its serialised result was
  reported under the key of the request. The requests after the stop request are left.
\<close>

theorem master_loop_serves_calls:
  assumes "list_all2 (is_request ba (aw_functions w)) reqs calls" and "aw_obj w = Some a" and "ar_sender stop = - 1"
    and "\<forall>(f, args, _)\<in>set calls. \<forall>a. \<exists>r. f args a = Inr r"
  shows "\<exists>b. foldE (typed_call ba blocks) calls a = Inr b \<and>
    master_loop blocks (reqs @ stop # later) w = Inr (w\<lparr>aw_obj := Some b, aw_run := False\<rparr>, later)"
  using typed_calls_return [OF assms(1,4), of blocks a] master_loop_typed [OF assms(1-3), of blocks later] by auto

text \<open>A class with a method that adds to its object, through an SPMD function, and one that reads it.\<close>

definition sample_add :: "byte actor_method" where
  "sample_add args a = (case args of
     [Pod [n]] \<Rightarrow> bindE (bsp_run 5 (a\<lparr>ab_obj := ab_obj a + n\<rparr>)) (\<lambda>b. Inr (Pod [ab_obj b], b))
   | _ \<Rightarrow> Inr (Pod [0], a))"

definition sample_get :: "byte actor_method" where
  "sample_get args a = Inr (Pod [ab_obj a], a)"

definition sample_worker :: "byte actor_base \<Rightarrow> byte actor_worker" where
  "sample_worker a = register_function [103] (actor_function_handler tag_archive [] sample_get)
     (register_function [97] (actor_function_handler tag_archive [Pod_type 1] sample_add) (ActorWorker a))"

lemma sample_returns: "returns_ok tag_archive args sample_get" "returns_ok tag_archive args sample_add"
  by (auto simp: returns_ok_def sample_get_def sample_add_def serial_ok_def serial_bytes_def register_ok_def is_contiguous_def
      result_simps split: list.splits cpp_value.splits)

lemma sample_request:
  assumes "name = [103] \<and> args = [] \<and> f = sample_get \<or> name = [97] \<and> args = [Pod [n]] \<and> f = sample_add"
  shows "\<exists>m. CallActorMessage \<lparr>bl_addr = 1, bl_mem = \<lambda>_. 0\<rparr> name (serial_bytes tag_archive args) 0 = Inr m \<and>
    is_request tag_archive (aw_functions (sample_worker a)) (ActiveObjectRequest m 3 key) (f, args, 0, key)"
proof -
  have "call_ok (name, serial_bytes tag_archive args, 0)"
    using assms by (auto simp: call_ok_def serial_bytes_def is_contiguous_def)
  then obtain m where "CallActorMessage \<lparr>bl_addr = 1, bl_mem = \<lambda>_. 0\<rparr> name (serial_bytes tag_archive args) 0 = Inr m"
    "call_view m = Inr (name, serial_bytes tag_archive args, 0)"
    using call_encode by blast
  moreover have "boost_ok tag_archive args \<and> serial_ok tag_archive args"
    using assms by (auto simp: boost_ok_def serial_ok_def serial_bytes_def is_contiguous_def)
  ultimately show ?thesis using assms sample_returns
    by (intro exI [of _ m]) (auto simp: is_request_def ActiveObjectRequest_def call_view_def result_simps
        sample_worker_def register_function_def)
qed

theorem master_loop_serves_calls_witness:
  "\<exists>a req w. ActorBase 1 (9 :: byte) 0 2 7 0 = Inr a \<and>
    master_loop (\<lambda>_. \<lparr>bl_addr = 2, bl_mem = \<lambda>_. 0\<rparr>) [req, ActiveObjectRequest ActorMessage0 (- 1) 0] (sample_worker a) = Inr (w, [])"
proof -
  obtain a where a: "ActorBase 1 (9 :: byte) 0 2 7 0 = Inr a" using ActorBase_total [of 1 "9 :: byte" 0 2 7 0] by blast
  obtain m where m: "is_request tag_archive (aw_functions (sample_worker a)) (ActiveObjectRequest m 3 4) (sample_get, [], 0, 4)"
    using sample_request by blast
  have "aw_obj (sample_worker a) = Some a" by (simp add: sample_worker_def register_function_def ActorWorker_def)
  from master_loop_serves_calls [of _ _ "[ActiveObjectRequest m 3 4]" "[(sample_get, [], 0, 4)]", OF _ this,
      of tag_archive "ActiveObjectRequest ActorMessage0 (- 1) 0" "\<lambda>_. \<lparr>bl_addr = 2, bl_mem = \<lambda>_. 0\<rparr>" "[]"] m
  obtain b where "master_loop (\<lambda>_. \<lparr>bl_addr = 2, bl_mem = \<lambda>_. 0\<rparr>) [ActiveObjectRequest m 3 4, ActiveObjectRequest ActorMessage0 (- 1) 0]
      (sample_worker a) = Inr ((sample_worker a)\<lparr>aw_obj := Some b, aw_run := False\<rparr>, [])"
    by (auto simp: sample_get_def ActiveObjectRequest_def)
  then show ?thesis using a by blast
qed

text \<open>
  Property C3: the processes of an actor run the same SPMD functions. A class is served by its
  head until the stop request, on any requests; its methods compute on the object and call
  \<^const>\<open>bsp_run\<close> any number of times (\<^const>\<open>method_body\<close>). The ids the head has broadcast
  then make every other process call exactly the functions the head has called, in the same order,
  and leave its loop: no id is left unread and none is missing.
\<close>

theorem slaves_follow_master:
  assumes "class_handler ba blocks methods a reqs ids = Inr (w', rest, ids')" and "is_master a"
    and "ab_called a = []" and "ab_ids_sent a = []" and "\<forall>(name, ts, f)\<in>set methods. \<forall>args. method_body (f args)"
  shows "\<exists>b. aw_deleted w' = Some b \<and>
    (\<forall>s later. slave_loop (ab_ids_sent b @ later) s = bindE (foldE call_spmd (ab_called b) s) (\<lambda>t. Inr (t, later)))"
  using class_handler_in_step [OF assms] slave_loop_follows by fastforce

text \<open>The class above: its methods, the handler of its head on a call that runs an SPMD function.\<close>

definition sample_methods :: "(byte list \<times> cpp_type list \<times> byte actor_method) list" where
  "sample_methods = [([97], [Pod_type 1], sample_add), ([103], [], sample_get)]"

lemma sample_bodies: "\<forall>(name, ts, f)\<in>set sample_methods. \<forall>args. method_body (f args)"
proof -
  have "method_body (sample_get args)" for args by (rule finish) (simp add: sample_get_def)
  moreover have "method_body (sample_add args)" for args
  proof (cases "\<exists>n. args = [Pod [n]]")
    case True
    then obtain n where n: "args = [Pod [n]]" by blast
    have "sample_add args = (\<lambda>a. bindE (Inr (a\<lparr>ab_obj := ab_obj a + n\<rparr>)) (\<lambda>a. bindE (bsp_run 5 a) (\<lambda>b. Inr (Pod [ab_obj b], b))))"
      by (simp add: n sample_add_def fun_eq_iff)
    then show ?thesis
      by (simp only:) (intro compute run_spmd finish, auto simp: spmd_view_def)
  next
    case False
    then have "sample_add args = (\<lambda>a. Inr (Pod [0], a))"
      by (auto simp: sample_add_def fun_eq_iff split: list.splits cpp_value.splits)
    then show ?thesis by (simp only:) (rule finish, simp)
  qed
  ultimately show ?thesis by (simp add: sample_methods_def)
qed

lemma sample_add_runs:
  assumes "ActorBase 1 (9 :: byte) 0 2 7 0 = Inr a"
  shows "\<exists>b. sample_add [Pod [2]] (setRequestId 0 (register_spmd 5 (Spmd_method (\<lambda>x. Inr (x + 1))) a)) = Inr (Pod [12], b) \<and>
    ab_called b = [1] \<and> ab_node b = 7 \<and> ab_pid b = 0"
proof -
  have "ab_spmd_functions a = [Base_bsp_sync]"
    using assms by (auto simp: ActorBase_def result_simps register_spmd_def base_sync_def)
  then show ?thesis
    using ActorBase_ok [OF assms]
    by (simp add: sample_add_def bsp_run_def setRequestId_def subscript_def run_function_id_def add_int_def int_fits_def
        call_function_def register_spmd_def sendSPMDFunctionID_def vector_at_def run_function_def)
qed

theorem slaves_follow_master_witness:
  "\<exists>a w b req. ActorBase 1 (9 :: byte) 0 2 7 0 = Inr a \<and>
    class_handler tag_archive (\<lambda>_. \<lparr>bl_addr = 2, bl_mem = \<lambda>_. 0\<rparr>) sample_methods
      (register_spmd 5 (Spmd_method (\<lambda>x. Inr (x + 1))) a) [req, ActiveObjectRequest ActorMessage0 (- 1) 0] [] = Inr (w, [], []) \<and>
    aw_deleted w = Some b \<and> ab_called b = [1] \<and>
    (\<forall>s :: byte actor_base. slave_loop (ab_ids_sent b @ [6]) s = bindE (foldE call_spmd (ab_called b) s) (\<lambda>t. Inr (t, [6])))"
proof -
  obtain a where a: "ActorBase 1 (9 :: byte) 0 2 7 0 = Inr a" using ActorBase_total [of 1 "9 :: byte" 0 2 7 0] by blast
  let ?a = "register_spmd 5 (Spmd_method (\<lambda>x. Inr (x + 1))) a" and ?bl = "\<lambda>_ :: nat. \<lparr>bl_addr = 2, bl_mem = \<lambda>_. 0\<rparr>"
  let ?stop = "ActiveObjectRequest ActorMessage0 (- 1) 0"
  obtain m where m: "is_request tag_archive (aw_functions (sample_worker ?a)) (ActiveObjectRequest m 3 4) (sample_add, [Pod [2]], 0, 4)"
    using sample_request by blast
  from sample_add_runs [OF a] obtain b where b: "sample_add [Pod [2]] (setRequestId 0 ?a) = Inr (Pod [12], b)" "ab_called b = [1]"
    "ab_pid b = 0" by blast
  obtain c where c: "typed_call tag_archive ?bl (sample_add, [Pod [2]], 0, 4) ?a = Inr c" "ab_called c = [1]" "ab_pid c = 0"
    using b report_sent [of 4 "serial_bytes tag_archive [Pod [12]]" "?bl (length (ab_sent b))" "ab_node b"]
    by (auto simp: typed_call_def register_ok_def serial_bytes_def is_contiguous_def)
  have w: "aw_obj (sample_worker ?a) = Some ?a" by (simp add: sample_worker_def register_function_def ActorWorker_def)
  have loop: "master_loop ?bl [ActiveObjectRequest m 3 4, ?stop] (sample_worker ?a) =
      Inr ((sample_worker ?a)\<lparr>aw_obj := Some c, aw_run := False\<rparr>, [])"
    using master_loop_typed [of tag_archive "sample_worker ?a" "[ActiveObjectRequest m 3 4]" "[(sample_add, [Pod [2]], 0, 4)]"
        ?a ?stop ?bl "[]"] m w c(1) by (simp add: ActiveObjectRequest_def)
  have start: "is_master ?a" "ab_called ?a = []" "ab_ids_sent ?a = []"
    using ActorBase_ok [OF a] by (simp_all add: register_spmd_def is_master_def)
  have run: "class_handler tag_archive ?bl sample_methods ?a [ActiveObjectRequest m 3 4, ?stop] [] =
      Inr ((sample_worker ?a)\<lparr>aw_obj := None, aw_run := False, aw_deleted := Some (base_sync (kill_slaves c))\<rparr>, [], [])"
    using loop w start(1) c(3)
    by (simp add: class_handler_def sample_methods_def sample_worker_def worker_handler_def destroyActor_def is_master_def)
  from slaves_follow_master [OF run start sample_bodies] c(2)
  show ?thesis using a run
    by (intro exI [of _ a] exI exI [of _ "base_sync (kill_slaves c)"] conjI)
      (auto simp: base_sync_def kill_slaves_def sendSPMDFunctionID_def)
qed

end
