(* ===== verification/Actor_Call.thy ===== *)
theory Actor_Call
  imports Actor_Worker
begin

text \<open>
  The client side of an actor: proxies (src/src/ActiveBSP/include/Proxy.hpp, src/Proxy.cpp), futures
  (src/Future.cpp, include/future/Future.hpp, src/future/LazyFutureDataRetriever.cpp), the call
  message with its typed arguments (include/actormsg/CallActorMessage.hpp) and the functions of
  \<^verbatim>\<open>activebsp.cpp\<close>. A call is followed from the proxy through the management thread and the worker
  to the value of its future.

  The \<open>network\<close> of a client gives, for the requests it has sent and a process, the messages that
  arrive from that process.
\<close>

type_synonym network = "mpi_message list \<Rightarrow> c_int \<Rightarrow> byte list list"

section \<open>The call message\<close>

text \<open>
  The constructor that reuses the send buffer: \<open>buf_addr\<close>, \<open>buf\<close>, \<open>buf_size\<close> are \<^verbatim>\<open>*buf\<close> and
  \<^verbatim>\<open>*buf_size\<close> before the call; the new size of the buffer is a result.
\<close>

definition CallActorMessage_in ::
  "boost_archive \<Rightarrow> block \<Rightarrow> nat \<Rightarrow> byte list \<Rightarrow> size_t \<Rightarrow> byte list \<Rightarrow> c_int \<Rightarrow> cpp_value list \<Rightarrow>
    (actor_message \<times> size_t) result"
where
  "CallActorMessage_in ba b buf_addr buf buf_size function_name future_key args =
     (let name_size = of_nat (length function_name + 1) :: c_int;
          args_size = ucast (predictSerializationSize ba args) :: c_int;
          n = ucast (4 + 16 + scast name_size + scast args_size :: size_t) :: c_int;
          grow = buf_size < scast n;
          m = (if grow then ActorMessage_on (- 1) (bl_addr b) (new_char (bl_mem b) (unat (scast n :: size_t))) n
               else ActorMessage_on (- 1) buf_addr buf n)
      in bindE (mem_read (function_name @ [0]) 0 (unat (scast name_size :: size_t))) (\<lambda>name.
         bindE (envelope_offset 20 name_size) (\<lambda>args_at.
         bindE (fill [(0, int_bytes INSTRUCTION_CALL_ACTOR), (8, int_bytes future_key), (16, int_bytes args_size),
                      (4, int_bytes 0), (12, int_bytes name_size), (20, name)] m) (\<lambda>m1.
         bindE (serialize_all_to_buf ba args_at args_size args (am_buf m1)) (\<lambda>buf1.
           Inr (m1\<lparr>am_buf := buf1\<rparr>, if grow then scast n else buf_size))))))"

definition CallActorMessage_args ::
  "boost_archive \<Rightarrow> block \<Rightarrow> byte list \<Rightarrow> c_int \<Rightarrow> cpp_value list \<Rightarrow> actor_message result"
where
  "CallActorMessage_args ba b function_name future_key args =
     (let name_size = of_nat (length function_name + 1) :: c_int;
          args_size = ucast (predictSerializationSize ba args) :: c_int;
          m = allocateOwnBuffer b (4 + 16 + scast name_size + scast args_size) ActorMessage0
      in bindE (mem_read (function_name @ [0]) 0 (unat (scast name_size :: size_t))) (\<lambda>name.
         bindE (envelope_offset 20 name_size) (\<lambda>args_at.
         bindE (fill [(0, int_bytes INSTRUCTION_CALL_ACTOR), (8, int_bytes future_key), (16, int_bytes args_size),
                      (4, int_bytes 0), (12, int_bytes name_size), (20, name)] m) (\<lambda>m1.
         bindE (serialize_all_to_buf ba args_at args_size args (am_buf m1)) (\<lambda>buf1. Inr (m1\<lparr>am_buf := buf1\<rparr>))))))"

section \<open>Futures\<close>

record lazy_retriever =
  lr_key :: c_int
  lr_pid :: c_int

record future =
  fu_data :: "byte list option"
  fu_dataRetriever :: "lazy_retriever option"

definition LazyFutureDataRetriever :: "c_int \<Rightarrow> c_int \<Rightarrow> lazy_retriever" where
  "LazyFutureDataRetriever pid key = \<lparr>lr_key = key, lr_pid = pid\<rparr>"

definition retrieveData :: "block \<Rightarrow> network \<Rightarrow> lazy_retriever \<Rightarrow> (mpi_message \<times> byte list) result" where
  "retrieveData b network r = comm_getFutureData b (lr_pid r) (lr_key r) network"

definition releaseData :: "block \<Rightarrow> lazy_retriever \<Rightarrow> mpi_message result" where
  "releaseData b r = bindE (ReleaseFutureMessage b (lr_key r)) (sendActorMessage (lr_pid r))"

text \<open>What the archive of Boost is given of a retriever, and takes from it: the key, then the pid.\<close>

definition retriever_save :: "lazy_retriever \<Rightarrow> c_int list" where
  "retriever_save r = [lr_key r, lr_pid r]"

fun retriever_load :: "c_int list \<Rightarrow> lazy_retriever result" where
  "retriever_load (key # pid # ar) = Inr \<lparr>lr_key = key, lr_pid = pid\<rparr>"
| "retriever_load ar = Inl Out_of_bounds"

definition FutureBase :: "lazy_retriever option \<Rightarrow> future" where
  "FutureBase r = \<lparr>fu_data = None, fu_dataRetriever = r\<rparr>"

definition future_copy :: "future \<Rightarrow> future" where
  "future_copy other = \<lparr>fu_data = fu_data other, fu_dataRetriever = fu_dataRetriever other\<rparr>"

definition future_swap :: "future \<Rightarrow> future \<Rightarrow> future \<times> future" where
  "future_swap this other =
     (this\<lparr>fu_dataRetriever := fu_dataRetriever other, fu_data := fu_data other\<rparr>,
      other\<lparr>fu_dataRetriever := fu_dataRetriever this, fu_data := fu_data this\<rparr>)"

definition future_assign :: "future \<Rightarrow> future \<Rightarrow> future" where
  "future_assign this other = fst (future_swap this (future_copy other))"

definition resetData :: "future \<Rightarrow> future" where
  "resetData fu = fu\<lparr>fu_data := None\<rparr>"

definition future_release :: "block \<Rightarrow> future \<Rightarrow> mpi_message result" where
  "future_release b fu = (case fu_dataRetriever fu of None \<Rightarrow> Inl Null_deref | Some r \<Rightarrow> releaseData b r)"

text \<open>\<^verbatim>\<open>get()\<close> of a future of type \<open>t\<close>: the value, the future with its data, and the requests sent.\<close>

definition future_get ::
  "boost_archive \<Rightarrow> cpp_type \<Rightarrow> block \<Rightarrow> network \<Rightarrow> future \<Rightarrow> (cpp_value \<times> future \<times> mpi_message list) result"
where
  "future_get ba t b network fu =
     bindE (case fu_data fu of
              Some data \<Rightarrow> Inr (data, [])
            | None \<Rightarrow> (case fu_dataRetriever fu of
                None \<Rightarrow> Inl Null_deref
              | Some r \<Rightarrow> bindE (retrieveData b network r) (\<lambda>(req, data). Inr (data, [req])))) (\<lambda>(data, sent).
     bindE (deserialize_all ba [t] data (of_nat (length data))) (\<lambda>vals.
       case vals of [] \<Rightarrow> Inl Out_of_bounds | val # _ \<Rightarrow> Inr (val, fu\<lparr>fu_data := Some data\<rparr>, sent)))"

section \<open>Proxies\<close>

record actor_proxy =
  px_dst :: c_int
  px_send_addr :: nat
  px_send_buf :: "byte list"
  px_send_buf_size :: size_t

definition ProxyBase :: "c_int \<Rightarrow> actor_proxy" where
  "ProxyBase dst = \<lparr>px_dst = dst, px_send_addr = 0, px_send_buf = [], px_send_buf_size = 0\<rparr>"

definition active_call ::
  "boost_archive \<Rightarrow> block \<Rightarrow> byte list \<Rightarrow> cpp_value list \<Rightarrow> network \<Rightarrow> actor_proxy \<Rightarrow>
    (future \<times> actor_proxy \<times> mpi_message) result"
where
  "active_call ba b f args network px =
     bindE (CallActorMessage_in ba b (px_send_addr px) (px_send_buf px) (px_send_buf_size px) f 0 args) (\<lambda>(m, buf_size).
     bindE (sendActorMessage (px_dst px) m) (\<lambda>req.
       case network [req] (px_dst px) of
         [] \<Rightarrow> Inl Deadlock
       | code # _ \<Rightarrow>
           bindE (receiveResponseCode code) (\<lambda>future_key.
             Inr (FutureBase (Some (LazyFutureDataRetriever (px_dst px) future_key)),
                  px\<lparr>px_send_addr := am_addr m, px_send_buf := am_buf m, px_send_buf_size := buf_size\<rparr>, req))))"

definition proxy_prefetch ::
  "size_t \<Rightarrow> block \<Rightarrow> future \<Rightarrow> size_t \<Rightarrow> network \<Rightarrow> actor_proxy \<Rightarrow> (future \<times> mpi_message) result"
where
  "proxy_prefetch elem b fu sz network px =
     (case fu_dataRetriever fu of
        None \<Rightarrow> Inl Null_deref
      | Some r \<Rightarrow>
          bindE (PrefetchMessage b (lr_pid r) (lr_key r) (sz * elem)) (\<lambda>m.
          bindE (sendActorMessage (px_dst px) m) (\<lambda>req.
            case network [req] (px_dst px) of
              [] \<Rightarrow> Inl Deadlock
            | code # _ \<Rightarrow>
                bindE (receiveResponseCode code) (\<lambda>future_key.
                  Inr (FutureBase (Some (LazyFutureDataRetriever (px_dst px) future_key)), req)))))"

definition proxy_block_distribute ::
  "size_t \<Rightarrow> block \<Rightarrow> (nat \<Rightarrow> block) \<Rightarrow> size_t \<Rightarrow> byte list \<Rightarrow> size_t \<Rightarrow> (mpi_message list \<Rightarrow> byte list list) \<Rightarrow> actor_proxy \<Rightarrow>
    (vector_distribution \<times> mpi_message \<times> mpi_message list) result"
where
  "proxy_block_distribute elem b blocks addr v n network px =
     block_distribute b blocks addr (px_dst px) v n elem network"

definition destroyObject :: "block \<Rightarrow> network \<Rightarrow> actor_proxy \<Rightarrow> mpi_message result" where
  "destroyObject b network px =
     bindE (StopActorMessage b True) (\<lambda>m.
     bindE (sendActorMessage (px_dst px) m) (\<lambda>req.
       case network [req] (px_dst px) of
         [] \<Rightarrow> Inl Deadlock
       | code # _ \<Rightarrow> bindE (receiveResponseCode code) (\<lambda>ret. bindE (assertE (ret = 0)) (\<lambda>_. Inr req))))"

text \<open>\<^verbatim>\<open>createActiveObject\<close> of a class declared with \<^verbatim>\<open>DECL_ACTOR\<close>; the head is the first pid.\<close>

definition createActiveObject ::
  "block \<Rightarrow> byte list \<Rightarrow> network \<Rightarrow> c_int list \<Rightarrow> (actor_proxy \<times> mpi_message list) result"
where
  "createActiveObject b cls network pids =
     bindE (askCreateActor b pids cls network) (\<lambda>(sent, res).
     bindE (vector_at pids 0) (\<lambda>head. Inr (ProxyBase head, sent)))"

section \<open>The functions of activebsp\<close>

text \<open>
  Reading a range of a vector into a fresh buffer, and the typed forms, for elements of \<open>elem\<close>
  bytes. The same functions are members of \<^verbatim>\<open>ActorBase\<close>.
\<close>

type_synonym reader = "vector_distribution \<Rightarrow> size_t \<Rightarrow> size_t \<Rightarrow> byte list \<Rightarrow> (mpi_message list \<times> byte list) result"

definition absp_dv_get_part ::
  "(nat \<Rightarrow> block) \<Rightarrow> c_int \<Rightarrow> size_t \<Rightarrow> (nat \<Rightarrow> data_store list) \<Rightarrow> network \<Rightarrow> reader"
where
  "absp_dv_get_part blocks self base stores network dv offset sz out = dv_get_part blocks self base stores network dv offset sz out"

definition dv_get_part_vector :: "reader \<Rightarrow> vector_distribution \<Rightarrow> size_t \<Rightarrow> size_t \<Rightarrow> (mpi_message list \<times> byte list) result" where
  "dv_get_part_vector read dv offset sz = read dv offset sz (replicate (unat sz) 0)"

definition typed_dv_get_part :: "size_t \<Rightarrow> reader \<Rightarrow> reader" where
  "typed_dv_get_part elem read dv offset sz out = read dv (offset * elem) (sz * elem) out"

definition typed_dv_get_part_vector ::
  "size_t \<Rightarrow> reader \<Rightarrow> vector_distribution \<Rightarrow> size_t \<Rightarrow> size_t \<Rightarrow> (mpi_message list \<times> byte list) result"
where
  "typed_dv_get_part_vector elem read dv offset sz =
     typed_dv_get_part elem read dv offset sz (replicate (unat (sz * elem)) 0)"

definition activebsp_finalize :: "block \<Rightarrow> c_int \<Rightarrow> mpi_message list result" where
  "activebsp_finalize b nprocs = bindE (StopActorProcessMessage b) (broadcastActorMessage nprocs)"


section \<open>The bytes of a call\<close>

text \<open>Fields that follow each other without gaps determine the bytes they cover.\<close>

fun tiles :: "nat \<Rightarrow> (nat \<times> byte list) list \<Rightarrow> bool" where
  "tiles off [] \<longleftrightarrow> True"
| "tiles off (w # ws) \<longleftrightarrow> fst w = off \<and> tiles (off + length (snd w)) ws"

lemma tiles_take:
  assumes "tiles off ws" and "\<forall>w\<in>set ws. peek (fst w) (length (snd w)) buf = snd w"
  shows "take (length (concat (map snd ws))) (drop off buf) = concat (map snd ws)"
  using assms
proof (induction ws arbitrary: off)
  case Nil
  then show ?case by simp
next
  case (Cons w ws)
  let ?n = "length (snd w)"
  have "take ?n (drop off buf) = snd w" using Cons.prems by (simp add: peek_def)
  moreover have "take (length (concat (map snd ws))) (drop (off + ?n) buf) = concat (map snd ws)"
    using Cons.prems by (intro Cons.IH) auto
  ultimately show ?case by (simp add: take_add add.commute)
qed

definition call_fields :: "byte list \<Rightarrow> byte list \<Rightarrow> c_int \<Rightarrow> (nat \<times> byte list) list" where
  "call_fields nm args key = [(0, int_bytes INSTRUCTION_CALL_ACTOR), (4, int_bytes 0), (8, int_bytes key),
     (12, int_bytes (of_nat (length nm))), (16, int_bytes (of_nat (length args))), (20, nm), (20 + length nm, args)]"

lemma tiles_call: "tiles 0 (call_fields nm args key)"
  by (simp add: call_fields_def)

lemma length_call: "length (concat (map snd (call_fields nm args key))) = 20 + length nm + length args"
  by (simp add: call_fields_def)

lemma call_bytes:
  assumes ok: "call_ok (name, args, key)"
  shows "CallActorMessage b name args key = Inr (fresh_message b (concat (map snd (call_fields (name @ [0]) args key))))"
proof -
  define nm where "nm = name @ [0 :: byte]"
  let ?a = "length nm" and ?c = "length args" and ?k = "20 + length nm + length args"
  have len: "?a = length name + 1" by (simp add: nm_def)
  have a: "?a < 2 ^ 31" and c: "?c < 2 ^ 31" and k: "?k < 2 ^ 31" using ok len by (simp_all add: call_ok_def)
  have sz: "(4 + 16 + scast (of_nat ?a :: c_int) + scast (of_nat ?c :: c_int) :: size_t) = of_nat ?k"
    by (simp only: scast_int_size [OF a] scast_int_size [OF c]) simp
  let ?ws = "[(0, int_bytes INSTRUCTION_CALL_ACTOR), (8, int_bytes key), (16, int_bytes (of_nat ?c)),
      (4, int_bytes 0), (12, int_bytes (of_nat ?a)), (20, nm), (20 + ?a, args)]"
  have "layout ?k ?ws" by (simp add: apart_def)
  then obtain buf where f: "fill ?ws (allocateOwnBuffer b (of_nat ?k) ActorMessage0) = Inr (fresh_message b buf)"
    and l: "length buf = ?k" and r: "\<forall>w\<in>set ?ws. peek (fst w) (length (snd w)) buf = snd w"
    using fill_allocated [OF _ k refl, of ?ws b] by auto
  have "\<forall>w\<in>set (call_fields nm args key). peek (fst w) (length (snd w)) buf = snd w"
    using r by (simp add: call_fields_def)
  from tiles_take [OF tiles_call this] have "buf = concat (map snd (call_fields nm args key))"
    using l by (simp add: length_call)
  then show ?thesis
    unfolding CallActorMessage_def Let_def len [symmetric] sz nm_def [symmetric]
    using f by (simp only: unat_scast_of_nat [OF a] unat_scast_of_nat [OF c] mem_read_all bindE_Inr
        envelope_offset_of_nat [OF a])
qed

lemma layout_mono: "layout n ws \<Longrightarrow> n \<le> k \<Longrightarrow> layout k ws"
  by (induction ws) auto

lemma call_in_bytes:
  assumes ok: "call_ok (name, serial_bytes ba args, key)" and ser: "serial_ok ba args" and buf: "length buf = unat buf_size"
  shows "\<exists>m cap. CallActorMessage_in ba b addr buf buf_size name key args = Inr (m, cap) \<and> length (am_buf m) = unat cap \<and>
    sendActorMessage dst m = Inr \<lparr>mm_dst = dst, mm_tag = ABSP_MPI_MANAGEMENT_THREAD_TAG,
      mm_bytes = concat (map snd (call_fields (name @ [0]) (serial_bytes ba args) key))\<rparr>"
proof -
  define nm where "nm = name @ [0 :: byte]"
  define as where "as = serial_bytes ba args"
  let ?a = "length nm" and ?c = "length as" and ?k = "20 + length nm + length as"
  have len: "?a = length name + 1" by (simp add: nm_def)
  have a: "?a < 2 ^ 31" and c: "?c < 2 ^ 31" and k: "?k < 2 ^ 31" using ok len by (simp_all add: call_ok_def as_def)
  have args_size: "(ucast (predictSerializationSize ba args) :: c_int) = of_nat ?c"
    unfolding predictSerializationSize_eq [OF ser] as_def by (rule ucast_of_nat_int)
  have "(4 + 16 + scast (of_nat ?a :: c_int) + scast (of_nat ?c :: c_int) :: size_t) = of_nat ?k"
    by (simp only: scast_int_size [OF a] scast_int_size [OF c]) simp
  then have n: "(ucast (4 + 16 + scast (of_nat ?a :: c_int) + scast (of_nat ?c :: c_int) :: size_t) :: c_int) = of_nat ?k"
    by (simp only: ucast_of_nat_int)
  have un: "unat (scast (of_nat ?k :: c_int) :: size_t) = ?k" using k by (rule unat_scast_of_nat)
  define grow where "grow = (buf_size < scast (of_nat ?k :: c_int))"
  define m0 where "m0 = (if grow then ActorMessage_on (- 1) (bl_addr b) (new_char (bl_mem b) ?k) (of_nat ?k)
    else ActorMessage_on (- 1) addr buf (of_nat ?k))"
  define cap where "cap = (if grow then scast (of_nat ?k :: c_int) else buf_size)"
  have m0: "length (am_buf m0) = unat cap" "?k \<le> length (am_buf m0)" "am_buf_size m0 = of_nat ?k"
    using buf un by (auto simp: m0_def cap_def grow_def ActorMessage_on_def word_less_nat_alt)
  let ?ws = "[(0, int_bytes INSTRUCTION_CALL_ACTOR), (8, int_bytes key), (16, int_bytes (of_nat ?c)),
      (4, int_bytes 0), (12, int_bytes (of_nat ?a)), (20, nm)]"
  have "layout ?k ?ws" by (simp add: apart_def)
  then obtain buf1 where w: "writes ?ws (am_buf m0) = Inr buf1" "length buf1 = length (am_buf m0)"
    "\<forall>w\<in>set ?ws. peek (fst w) (length (snd w)) buf1 = snd w"
    using writes_layout [OF layout_mono [OF _ m0(2)], of ?ws] by blast
  let ?buf2 = "poke (20 + ?a) as buf1"
  have ser2: "serialize_all_to_buf ba (20 + ?a) (of_nat ?c) args buf1 = Inr ?buf2"
    using serialize_all_to_buf_eq [OF ser, of "20 + ?a" buf1] m0(2) w(2) by (simp add: as_def)
  let ?m = "m0\<lparr>am_buf := ?buf2\<rparr>"
  have filled: "fill ?ws m0 = Inr (m0\<lparr>am_buf := buf1\<rparr>)" using w(1) by (simp only: fill_def bindE_Inr)
  have mk: "CallActorMessage_in ba b addr buf buf_size name key args = Inr (?m, cap)"
    unfolding CallActorMessage_in_def Let_def len [symmetric] args_size n un nm_def [symmetric]
      grow_def [symmetric] m0_def [symmetric] cap_def [symmetric]
    unfolding unat_scast_of_nat [OF a] mem_read_all bindE_Inr envelope_offset_of_nat [OF a] filled
    using ser2 by simp
  have fits: "20 + ?a + ?c \<le> length buf1" using m0(2) w(2) by simp
  have "\<forall>w\<in>set (call_fields nm as key). peek (fst w) (length (snd w)) ?buf2 = snd w"
    using w(3) fits by (simp add: call_fields_def peek_poke_before peek_poke_same)
  from tiles_take [OF tiles_call this] have "take ?k ?buf2 = concat (map snd (call_fields nm as key))"
    by (simp add: length_call)
  moreover have "length ?buf2 = length (am_buf m0)" using fits w(2) by (simp add: length_poke)
  ultimately have "sendActorMessage dst ?m = Inr \<lparr>mm_dst = dst, mm_tag = ABSP_MPI_MANAGEMENT_THREAD_TAG,
      mm_bytes = concat (map snd (call_fields nm as key))\<rparr>"
    using m0(2,3) sint_of_nat_small [OF k] by (simp add: sendActorMessage_def mpi_send_def mem_read_def peek_def del: of_nat_add sint_of_nat_small)
  then show ?thesis
    using mk m0(1) \<open>length ?buf2 = _\<close> by (intro exI [of _ ?m] exI [of _ cap]) (simp add: as_def nm_def)
qed


section \<open>From the call to the value\<close>

context wire_codec
begin

text \<open>A turn on a message of this class only touches the receive buffer before the handler runs.\<close>

lemma turn_state:
  assumes "ok v" and "srv_inv srv" and "mk b v = Inr m" and "sendActorMessage dst m = Inr mm"
  shows "\<exists>m' cm'. server_turn env (src, mm_bytes mm) srv = routeHandleMessage env (cls, m') (tick (tick srv)\<lparr>as_comm := cm'\<rparr>) \<and>
    view m' = Inr v \<and> am_src m' = src \<and> srv_inv (tick (tick srv)\<lparr>as_comm := cm'\<rparr>)"
proof -
  have cm: "cm_inv (as_comm srv)" using assms(2) by (simp add: srv_inv_def)
  obtain mm0 m' cm' where r: "sendActorMessage dst m = Inr mm0"
    "receiveActorMessage (se_block env (as_tick srv)) (se_block env (as_tick srv + 1)) src (mm_bytes mm0) (as_comm srv) =
      Inr (Some (cls, m'), cm')" "cm_inv cm'" "am_src m' = src" "view m' = Inr v"
    using sent_received [OF assms(1) cm, of b dst] assms(3) by (metis Inr_inject)
  have "server_turn env (src, mm_bytes mm) srv = routeHandleMessage env (cls, m') (tick (tick srv)\<lparr>as_comm := cm'\<rparr>)"
    using r(1,2) assms(4) by (simp add: server_turn_def)
  moreover have "srv_inv (tick (tick srv)\<lparr>as_comm := cm'\<rparr>)" using r(3) assms(2) by (simp add: srv_inv_def tick_def)
  ultimately show ?thesis using r(4,5) by blast
qed

end

text \<open>What a server answers to process \<open>src\<close> when it is handed the requests one after the other.\<close>

definition answers_of :: "server_env \<Rightarrow> c_int \<Rightarrow> actor_server \<Rightarrow> network" where
  "answers_of env src srv reqs dst =
     (case foldE (\<lambda>mm. server_turn env (src, mm_bytes mm)) reqs srv of
        Inl _ \<Rightarrow> []
      | Inr t \<Rightarrow> map mm_bytes (filter (\<lambda>mm. mm_dst mm = src \<and> mm_tag mm = ABSP_MPI_WORKER_THREAD_TAG)
          (drop (length (as_sent srv)) (as_sent t))))"

lemma response_read: "receiveResponseCode (int_bytes code) = Inr code"
  by (simp add: receiveResponseCode_def get_int_def mem_read_def peek_def)

text \<open>The management thread on the call: the request is queued and the caller gets its key.\<close>

lemma call_turn:
  assumes "call_ok (name, args, 0)" and "srv_inv srv" and "as_worker srv = Some wp" and "as_next_key srv = of_nat k" and "Suc k < 2 ^ 31"
  shows "\<exists>m' cm' t. server_turn env (src, concat (map snd (call_fields (name @ [0]) args 0))) srv = Inr t \<and>
    t = (tick (tick srv))\<lparr>as_comm := cm', as_next_key := of_nat (Suc k),
      as_worker := Some (wp\<lparr>wp_queue := wp_queue wp @ [ActiveObjectRequest m' src (of_nat k)]\<rparr>),
      as_sent := as_sent srv @ [\<lparr>mm_dst = src, mm_tag = ABSP_MPI_WORKER_THREAD_TAG, mm_bytes = int_bytes (of_nat k)\<rparr>]\<rparr> \<and>
    call_view m' = Inr (name, args, 0) \<and> srv_inv t"
proof -
  let ?b = "\<lparr>bl_addr = 1, bl_mem = \<lambda>_. 0\<rparr>" and ?bytes = "concat (map snd (call_fields (name @ [0]) args 0))"
  have len: "length ?bytes < 2 ^ 31" using assms(1) by (simp add: length_call call_ok_def)
  obtain m' cm' where r: "server_turn env (src, ?bytes) srv = routeHandleMessage env (CallActor_class, m') (tick (tick srv)\<lparr>as_comm := cm'\<rparr>)"
    "call_view m' = Inr (name, args, 0)" "am_src m' = src" "srv_inv (tick (tick srv)\<lparr>as_comm := cm'\<rparr>)"
    using call.turn_state [of "(name, args, 0)" srv ?b _ 0 _ env src] assms(1,2) call_bytes [OF assms(1), of ?b]
      sendActorMessage_fresh [OF len, of 0 ?b] by fastforce
  show ?thesis
    using r call_one [of "tick (tick srv)\<lparr>as_comm := cm'\<rparr>" wp k m'] assms(3-5)
    by (intro exI [of _ m'] exI [of _ cm']) (simp add: routeHandleMessage_def tick_def srv_inv_def)
qed

text \<open>The management thread on a published result, on the request for a future and on its release.\<close>

lemma future_turn:
  assumes "srv_inv srv" and "futures_inv srv" and "sendActorMessage dst m = Inr mm"
    and "RegisterFutureMessage b key d = Inr m \<and> register_ok (key, d) \<and> ev = Register d \<or>
      GetFutureDataMessage b key = Inr m \<and> ev = Get src \<or> ReleaseFutureMessage b key = Inr m \<and> ev = Release"
  shows "\<exists>t. server_turn env (src, mm_bytes mm) srv = Inr t \<and> srv_inv t \<and> futures_inv t \<and>
    future_slots t = (future_slots srv)(key := fst (slot_step ev (future_slots srv key))) \<and>
    as_sent t = as_sent srv @ map future_message (snd (slot_step ev (future_slots srv key)))"
proof -
  obtain cls m' cm' where r: "server_turn env (src, mm_bytes mm) srv = routeHandleMessage env (cls, m') (tick (tick srv)\<lparr>as_comm := cm'\<rparr>)"
    "future_meaning (cls, m') (key, ev)" "srv_inv (tick (tick srv)\<lparr>as_comm := cm'\<rparr>)"
    "cls \<in> {RegisterFuture_class, GetFutureData_class, ReleaseFuture_class}"
    using assms(4)
  proof (elim disjE conjE)
    assume m: "RegisterFutureMessage b key d = Inr m" "register_ok (key, d)" "ev = Register d"
    show ?thesis
      using register.turn_state [OF m(2) assms(1) _ assms(3), of b env src] m that [of RegisterFuture_class]
      by (auto simp: register_ok_def)
  next
    assume m: "GetFutureDataMessage b key = Inr m" "ev = Get src"
    show ?thesis
      using getdata.turn_state [OF TrueI assms(1) _ assms(3), of b key env src] m that [of GetFutureData_class] by auto
  next
    assume m: "ReleaseFutureMessage b key = Inr m" "ev = Release"
    show ?thesis
      using release.turn_state [OF TrueI assms(1) _ assms(3), of b key env src] m that [of ReleaseFuture_class] by auto
  qed
  let ?s = "tick (tick srv)\<lparr>as_comm := cm'\<rparr>"
  have same: "futures_inv ?s" "future_slots ?s = future_slots srv" "as_sent ?s = as_sent srv"
    using assms(2) by (simp_all add: futures_inv_def future_slots_def tick_def fun_eq_iff)
  obtain t where t: "routeHandleMessage env (cls, m') ?s = Inr t" "futures_inv t"
    "future_slots t = fst (futures_step (key, ev) (future_slots srv))" "as_sent t = as_sent srv @ snd (futures_step (key, ev) (future_slots srv))"
    using future_service.run_simulates [OF same(1), of "[(cls, m')]" "[(key, ev)]" env] r(2) same(2,3)
    by (auto simp: result_simps split_def)
  have "srv_inv t"
    using r(4) okED [OF inv_kept_route [OF r(3), of cls m' env] t(1)] by (auto simp: msg_ok_def)
  then show ?thesis using r(1) t by (auto simp: futures_step_def split_def Let_def)
qed


definition proxy_inv :: "actor_proxy \<Rightarrow> bool" where
  "proxy_inv px \<longleftrightarrow> length (px_send_buf px) = unat (px_send_buf_size px)"

lemma ProxyBase_inv: "proxy_inv (ProxyBase dst)"
  by (simp add: proxy_inv_def ProxyBase_def)

text \<open>The proxy's half of a call, on any server whose worker runs.\<close>

lemma active_call_sent:
  assumes "proxy_inv px" and "call_ok (name, serial_bytes ba args, 0)" and "serial_ok ba args" and "srv_inv srv"
    and "as_worker srv = Some wp" and "as_next_key srv = of_nat k" and "Suc k < 2 ^ 31"
  shows "\<exists>px' req m' cm' t. active_call ba b name args (answers_of env self srv) px =
      Inr (FutureBase (Some (LazyFutureDataRetriever (px_dst px) (of_nat k))), px', req) \<and> proxy_inv px' \<and> px_dst px' = px_dst px \<and>
    mm_dst req = px_dst px \<and> server_turn env (self, mm_bytes req) srv = Inr t \<and>
    t = (tick (tick srv))\<lparr>as_comm := cm', as_next_key := of_nat (Suc k),
      as_worker := Some (wp\<lparr>wp_queue := wp_queue wp @ [ActiveObjectRequest m' self (of_nat k)]\<rparr>),
      as_sent := as_sent srv @ [\<lparr>mm_dst = self, mm_tag = ABSP_MPI_WORKER_THREAD_TAG, mm_bytes = int_bytes (of_nat k)\<rparr>]\<rparr> \<and>
    call_view m' = Inr (name, serial_bytes ba args, 0) \<and> srv_inv t"
proof -
  let ?bytes = "concat (map snd (call_fields (name @ [0]) (serial_bytes ba args) 0))"
  let ?req = "\<lparr>mm_dst = px_dst px, mm_tag = ABSP_MPI_MANAGEMENT_THREAD_TAG, mm_bytes = ?bytes\<rparr>"
  obtain m cap where m: "CallActorMessage_in ba b (px_send_addr px) (px_send_buf px) (px_send_buf_size px) name 0 args = Inr (m, cap)"
    "length (am_buf m) = unat cap" "sendActorMessage (px_dst px) m = Inr ?req"
    using call_in_bytes [OF assms(2,3), of "px_send_buf px" "px_send_buf_size px" b "px_send_addr px" "px_dst px"] assms(1)
    by (auto simp: proxy_inv_def)
  obtain m' cm' t where t: "server_turn env (self, ?bytes) srv = Inr t"
    "t = (tick (tick srv))\<lparr>as_comm := cm', as_next_key := of_nat (Suc k),
      as_worker := Some (wp\<lparr>wp_queue := wp_queue wp @ [ActiveObjectRequest m' self (of_nat k)]\<rparr>),
      as_sent := as_sent srv @ [\<lparr>mm_dst = self, mm_tag = ABSP_MPI_WORKER_THREAD_TAG, mm_bytes = int_bytes (of_nat k)\<rparr>]\<rparr>"
    "call_view m' = Inr (name, serial_bytes ba args, 0)" "srv_inv t"
    using call_turn [OF assms(2,4,5,6,7), of env self] by blast
  have "answers_of env self srv [?req] (px_dst px) = [int_bytes (of_nat k)]"
    using t(1,2) by (simp add: answers_of_def)
  then show ?thesis
    using m t by (intro exI [of _ "px\<lparr>px_send_addr := am_addr m, px_send_buf := am_buf m, px_send_buf_size := cap\<rparr>"]
        exI [of _ ?req] exI [of _ m'] exI [of _ cm'] exI [of _ t])
      (simp add: active_call_def response_read proxy_inv_def)
qed

text \<open>Reading a future whose data the server has.\<close>

lemma future_get_stored:
  assumes "srv_inv srv" and "futures_inv srv" and "future_slots srv key = \<lparr>fs_data = Some (serial_bytes ba [res]), fs_waiting = [], fs_doomed = False\<rparr>"
    and "boost_ok ba [res]" and "serial_ok ba [res]"
  shows "\<exists>req. future_get ba (type_of res) b (answers_of env self srv) (FutureBase (Some (LazyFutureDataRetriever pid key))) =
    Inr (res, \<lparr>fu_data = Some (serial_bytes ba [res]), fu_dataRetriever = Some (LazyFutureDataRetriever pid key)\<rparr>, [req])"
proof -
  let ?d = "serial_bytes ba [res]"
  obtain buf where buf: "GetFutureDataMessage b key = Inr (fresh_message b buf)" "length buf < 2 ^ 31"
    using getdata_encode [of b key] by blast
  let ?req = "\<lparr>mm_dst = pid, mm_tag = ABSP_MPI_MANAGEMENT_THREAD_TAG, mm_bytes = buf\<rparr>"
  have send: "sendActorMessage pid (fresh_message b buf) = Inr ?req" using sendActorMessage_fresh [OF buf(2)] .
  obtain t where t: "server_turn env (self, mm_bytes ?req) srv = Inr t" "as_sent t = as_sent srv @ [future_message (self, ?d)]"
    using future_turn [OF assms(1,2) send, of b key "[]" "Get self" self env] buf(1) assms(3) by auto
  then have "answers_of env self srv [?req] pid = [?d]" by (simp add: answers_of_def future_message_def)
  moreover have "deserialize_all ba [type_of res] ?d (of_nat (length ?d)) = Inr [res]"
    using deserialize_all_eq [OF assms(4,5), of "[]"] by simp
  ultimately show ?thesis
    using buf(1) send by (intro exI [of _ ?req])
      (simp add: future_get_def FutureBase_def retrieveData_def LazyFutureDataRetriever_def comm_getFutureData_def)
qed


text \<open>The worker's half: the request it takes from the queue and the result it publishes.\<close>

lemma request_served:
  assumes "call_view m = Inr (name, serial_bytes ba args, 0)" and "src \<noteq> - 1" and "boost_ok ba args" and "serial_ok ba args"
    and "aw_obj w = Some a" and "aw_functions w name = Some (actor_function_handler ba (map type_of args) f)"
    and "returns_ok ba args f" and "f args (setRequestId 0 a) = Inr (res, a')"
  shows "\<exists>buf w1. serve_request blocks (ActiveObjectRequest m src key) w = Inr w1 \<and>
    RegisterFutureMessage (blocks (length (ab_sent a'))) key (serial_bytes ba [res]) = Inr (fresh_message (blocks (length (ab_sent a'))) buf) \<and>
    length buf < 2 ^ 31 \<and> aw_obj w1 = Some (a'\<lparr>ab_sent := ab_sent a' @
      [\<lparr>mm_dst = ab_node a', mm_tag = ABSP_MPI_MANAGEMENT_THREAD_TAG, mm_bytes = buf\<rparr>]\<rparr>) \<and> register_ok (key, serial_bytes ba [res])"
proof -
  let ?b = "blocks (length (ab_sent a'))"
  have "register_ok (0, serial_bytes ba [res])" using assms(7,8) unfolding returns_ok_def by blast
  then have reg: "register_ok (key, serial_bytes ba [res])" by (simp add: register_ok_def)
  obtain buf where buf: "RegisterFutureMessage ?b key (serial_bytes ba [res]) = Inr (fresh_message ?b buf)" "length buf < 2 ^ 31"
    using register_encode [OF reg, of ?b] by blast
  have "is_request ba (aw_functions w) (ActiveObjectRequest m src key) (f, args, 0, key)"
    using assms by (auto simp: is_request_def ActiveObjectRequest_def call_view_def result_simps)
  from serve_typed [OF this assms(5), of blocks] show ?thesis
    using assms(8) buf reg by (auto simp: typed_call_def comm_registerFutureData_def sendActorMessage_fresh)
qed

lemma slots_after_call:
  assumes "t = (tick (tick srv))\<lparr>as_comm := cm, as_next_key := n, as_worker := wp, as_sent := sent\<rparr>"
  shows "future_slots t = future_slots srv" and "futures_inv t \<longleftrightarrow> futures_inv srv"
  by (simp_all add: assms future_slots_def futures_inv_def tick_def fun_eq_iff)

section \<open>Properties\<close>

text \<open>
  Property C1: a call through a proxy returns what the method returns. The message the proxy sends
  makes the management thread of the head queue a request and answer with a key; the worker thread
  that takes the request runs the method on the argument values of the caller and publishes the
  result under that key; and \<^verbatim>\<open>get()\<close> on the future of the call, once the result has arrived, is
  the value the method returned on the head.
\<close>

theorem call_returns_result:
  assumes "proxy_inv px" and "call_ok (name, serial_bytes ba args, 0)" and "boost_ok ba args" and "serial_ok ba args"
    and "srv_inv srv" and "futures_inv srv" and "as_worker srv = Some wp" and "as_next_key srv = of_nat k" and "Suc k < 2 ^ 31"
    and "future_slots srv (of_nat k) = empty_slot"
    and "aw_obj w = Some a" and "aw_functions w name = Some (actor_function_handler ba (map type_of args) f)"
    and "returns_ok ba args f" and "f args (setRequestId 0 a) = Inr (res, a')" and "ab_node a' = px_dst px"
    and "boost_ok ba [res]" and "self \<noteq> - 1"
  shows "\<exists>fu px' call req srv1 w1 report srv2 fu' sent.
    active_call ba b name args (answers_of env self srv) px = Inr (fu, px', call) \<and>
    server_turn env (self, mm_bytes call) srv = Inr srv1 \<and>
    as_worker srv1 = Some (wp\<lparr>wp_queue := wp_queue wp @ [req]\<rparr>) \<and>
    serve_request blocks req w = Inr w1 \<and> aw_obj w1 = Some (a'\<lparr>ab_sent := ab_sent a' @ [report]\<rparr>) \<and>
    mm_dst report = px_dst px \<and> server_turn env (px_dst px, mm_bytes report) srv1 = Inr srv2 \<and>
    future_get ba (type_of res) b' (answers_of env self srv2) fu = Inr (res, fu', sent)"
proof -
  obtain px' call m' cm' srv1 where c: "active_call ba b name args (answers_of env self srv) px =
      Inr (FutureBase (Some (LazyFutureDataRetriever (px_dst px) (of_nat k))), px', call)"
    "server_turn env (self, mm_bytes call) srv = Inr srv1"
    "srv1 = (tick (tick srv))\<lparr>as_comm := cm', as_next_key := of_nat (Suc k),
      as_worker := Some (wp\<lparr>wp_queue := wp_queue wp @ [ActiveObjectRequest m' self (of_nat k)]\<rparr>),
      as_sent := as_sent srv @ [\<lparr>mm_dst = self, mm_tag = ABSP_MPI_WORKER_THREAD_TAG, mm_bytes = int_bytes (of_nat k)\<rparr>]\<rparr>"
    "call_view m' = Inr (name, serial_bytes ba args, 0)" "srv_inv srv1"
    using active_call_sent [OF assms(1,2,4,5,7,8,9), of b env self] by blast
  let ?req = "ActiveObjectRequest m' self (of_nat k)" and ?d = "serial_bytes ba [res]" and ?b = "blocks (length (ab_sent a'))"
  obtain buf w1 where s: "serve_request blocks ?req w = Inr w1"
    "RegisterFutureMessage ?b (of_nat k) ?d = Inr (fresh_message ?b buf)" "length buf < 2 ^ 31"
    "aw_obj w1 = Some (a'\<lparr>ab_sent := ab_sent a' @ [\<lparr>mm_dst = ab_node a', mm_tag = ABSP_MPI_MANAGEMENT_THREAD_TAG, mm_bytes = buf\<rparr>]\<rparr>)"
    "register_ok (of_nat k, ?d)"
    using request_served [OF c(4) assms(17,3,4,11,12,13,14), of blocks "of_nat k"] by blast
  let ?report = "\<lparr>mm_dst = px_dst px, mm_tag = ABSP_MPI_MANAGEMENT_THREAD_TAG, mm_bytes = buf\<rparr>"
  have slots: "futures_inv srv1" "future_slots srv1 (of_nat k) = empty_slot"
    using slots_after_call [OF c(3)] assms(6,10) by simp_all
  obtain srv2 where r: "server_turn env (px_dst px, mm_bytes ?report) srv1 = Inr srv2" "srv_inv srv2" "futures_inv srv2"
    "future_slots srv2 (of_nat k) = \<lparr>fs_data = Some ?d, fs_waiting = [], fs_doomed = False\<rparr>"
    using future_turn [OF c(5) slots(1) sendActorMessage_fresh [OF s(3), of "px_dst px" ?b], of ?b "of_nat k" ?d "Register ?d" "px_dst px" env]
      s(2,5) slots(2) by (auto simp: empty_slot_def)
  have "serial_ok ba [res]" using assms(13,14) unfolding returns_ok_def by blast
  then obtain req where "future_get ba (type_of res) b' (answers_of env self srv2)
      (FutureBase (Some (LazyFutureDataRetriever (px_dst px) (of_nat k)))) =
    Inr (res, \<lparr>fu_data = Some ?d, fu_dataRetriever = Some (LazyFutureDataRetriever (px_dst px) (of_nat k))\<rparr>, [req])"
    using future_get_stored [OF r(2,3,4) assms(16), of b' env self "px_dst px"] by blast
  then show ?thesis using c(1,2,3) s(1,4) r(1) assms(15)
    by (intro exI [of _ ?report] exI [of _ ?req] exI [of _ w1] exI [of _ srv1] exI [of _ srv2] exI conjI) simp_all
qed


theorem call_returns_result_witness:
  "\<exists>a fu px' call srv1 req w1 (report :: mpi_message) srv2 fu' sent. ActorBase 1 (9 :: byte) 0 2 7 0 = Inr a \<and>
    active_call tag_archive \<lparr>bl_addr = 1, bl_mem = \<lambda>_. 0\<rparr> [97] [Pod [2]]
      (answers_of plain_env 3 (ActorServer 7\<lparr>as_worker := Some createActorProcessProxy\<rparr>)) (ProxyBase 7) = Inr (fu, px', call) \<and>
    as_worker srv1 = Some (createActorProcessProxy\<lparr>wp_queue := [req]\<rparr>) \<and>
    serve_request (\<lambda>_. \<lparr>bl_addr = 2, bl_mem = \<lambda>_. 0\<rparr>) req
      (sample_worker (register_spmd 5 (Spmd_method (\<lambda>x. Inr (x + 1))) a)) = Inr w1 \<and>
    server_turn plain_env (7, mm_bytes report) srv1 = Inr srv2 \<and>
    future_get tag_archive (Pod_type 1) \<lparr>bl_addr = 3, bl_mem = \<lambda>_. 0\<rparr> (answers_of plain_env 3 srv2) fu = Inr (Pod [12], fu', sent)"
proof -
  obtain a where a: "ActorBase 1 (9 :: byte) 0 2 7 0 = Inr a" using ActorBase_total [of 1 "9 :: byte" 0 2 7 0] by blast
  let ?a = "register_spmd 5 (Spmd_method (\<lambda>x. Inr (x + 1))) a" and ?srv = "ActorServer 7\<lparr>as_worker := Some createActorProcessProxy\<rparr>"
  obtain b where b: "sample_add [Pod [2]] (setRequestId 0 ?a) = Inr (Pod [12], b)" "ab_node b = px_dst (ProxyBase 7)"
    using sample_add_runs [OF a] by (auto simp: ProxyBase_def)
  have ser: "serial_bytes tag_archive [Pod [2]] = [2]" "boost_ok tag_archive [Pod [2]]" "boost_ok tag_archive [Pod [12]]"
    "serial_ok tag_archive [Pod [2]]"
    by (simp_all add: serial_bytes_def boost_ok_def serial_ok_def is_contiguous_def)
  have call: "call_ok ([97], serial_bytes tag_archive [Pod [2]], 0)" by (simp add: call_ok_def ser(1))
  have srv: "srv_inv ?srv" "futures_inv ?srv" "as_worker ?srv = Some createActorProcessProxy" "as_next_key ?srv = of_nat 0"
    "Suc 0 < 2 ^ 31" "future_slots ?srv (of_nat 0) = empty_slot"
    by (simp_all add: srv_inv_def futures_inv_def future_slots_def empty_slot_def ActorServer_def cm_inv_def MPIActorCommunicator_def
        ds_inv_def DataStore_def)
  have w: "aw_obj (sample_worker ?a) = Some ?a" "aw_functions (sample_worker ?a) [97] =
      Some (actor_function_handler tag_archive (map type_of [Pod [2]]) sample_add)"
    by (simp_all add: sample_worker_def register_function_def ActorWorker_def)
  have t: "type_of (Pod [12]) = Pod_type 1" by simp
  have q: "createActorProcessProxy\<lparr>wp_queue := wp_queue createActorProcessProxy @ [req]\<rparr> = createActorProcessProxy\<lparr>wp_queue := [req]\<rparr>" for req
    by (simp add: createActorProcessProxy_def)
  have ids: "(3 :: c_int) \<noteq> - 1" "(px_dst (ProxyBase 7)) = 7" by (simp_all add: ProxyBase_def)
  from call_returns_result [OF ProxyBase_inv call ser(2,4) srv w sample_returns(2) b ser(3) ids(1),
      of "\<lparr>bl_addr = 1, bl_mem = \<lambda>_. 0\<rparr>" plain_env "\<lambda>_. \<lparr>bl_addr = 2, bl_mem = \<lambda>_. 0\<rparr>" "\<lparr>bl_addr = 3, bl_mem = \<lambda>_. 0\<rparr>"]
  show ?thesis using a unfolding t q ids(2) by (elim exE conjE) (intro exI conjI, assumption+)
qed

end
