(* ===== verification/Future_Network.thy ===== *)
theory Future_Network
  imports Actor_Call
begin

text \<open>
  Futures in the whole system: the management threads of all processes, the messages on their way
  to and from them, and the clients (main programs and workers) that ask for, publish and release
  futures, in any interleaving. MPI keeps the order of the messages from one process to another;
  a management thread takes the next message of any process.

  The messages in flight are the bytes the program hands to MPI (\<^const>\<open>comm_registerFutureData\<close>,
  \<^const>\<open>releaseData\<close> and the request of \<^const>\<open>comm_getFutureData\<close>); a management thread handles them by
  \<^const>\<open>server_turn\<close>. Beside the bytes the model keeps which event a message stands for, and
  what was published, released and received, for the statements only: no step looks at them except
  that a client does not publish a key twice, since every key is taken from its process once.
\<close>

section \<open>Steps\<close>

record net =
  nt_server :: "c_int \<Rightarrow> actor_server"
  nt_up :: "c_int \<times> c_int \<Rightarrow> (byte list \<times> c_int \<times> future_event) list"
  nt_down :: "c_int \<times> c_int \<Rightarrow> byte list list"
  nt_wait :: "c_int \<rightharpoonup> c_int \<times> c_int"
  nt_published :: "c_int \<times> c_int \<rightharpoonup> byte list"
  nt_released :: "(c_int \<times> c_int) set"
  nt_got :: "(c_int \<times> c_int \<times> c_int \<times> byte list) list"

text \<open>Both kinds of channels are indexed by the client and the process of the management thread.\<close>

definition net_init :: net where
  "net_init = \<lparr>nt_server = ActorServer, nt_up = (\<lambda>_. []), nt_down = (\<lambda>_. []), nt_wait = Map.empty,
     nt_published = Map.empty, nt_released = {}, nt_got = []\<rparr>"

definition future_request :: "block \<Rightarrow> c_int \<Rightarrow> c_int \<Rightarrow> future_event \<Rightarrow> mpi_message result" where
  "future_request b q k ev = (case ev of
       Get p \<Rightarrow> bindE (GetFutureDataMessage b k) (sendActorMessage q)
     | Register d \<Rightarrow> comm_registerFutureData b q k d
     | Release \<Rightarrow> releaseData b (LazyFutureDataRetriever q k))"

definition post :: "c_int \<Rightarrow> c_int \<Rightarrow> mpi_message \<Rightarrow> c_int \<Rightarrow> future_event \<Rightarrow> net \<Rightarrow> net" where
  "post p q mm k ev n = n\<lparr>nt_up := (nt_up n)((p, q) := nt_up n (p, q) @ [(mm_bytes mm, k, ev)])\<rparr>"

text \<open>What server \<open>q\<close> hands to MPI is on its way to the clients.\<close>

definition sent_to :: "c_int \<Rightarrow> mpi_message list \<Rightarrow> byte list list" where
  "sent_to p ms = map mm_bytes (filter (\<lambda>mm. mm_dst mm = p \<and> mm_tag mm = ABSP_MPI_WORKER_THREAD_TAG) ms)"

definition served :: "c_int \<Rightarrow> c_int \<Rightarrow> actor_server \<Rightarrow> net \<Rightarrow> net" where
  "served p q t n = n\<lparr>nt_up := (nt_up n)((p, q) := tl (nt_up n (p, q))), nt_server := (nt_server n)(q := t),
     nt_down := (\<lambda>(r, q'). nt_down n (r, q') @
       (if q' = q then sent_to r (drop (length (as_sent (nt_server n q))) (as_sent t)) else []))\<rparr>"

text \<open>
  A client asks only when it does not wait: \<^verbatim>\<open>Future::get\<close> blocks until the answer of the process
  it asked arrives.
\<close>

inductive client_step :: "net \<Rightarrow> net \<Rightarrow> bool" where
  ask: "nt_wait n p = None \<Longrightarrow> future_request b q k (Get p) = Inr mm \<Longrightarrow>
    client_step n (post p q mm k (Get p) (n\<lparr>nt_wait := (nt_wait n)(p \<mapsto> (q, k))\<rparr>))"
| publish: "nt_published n (q, k) = None \<Longrightarrow> register_ok (k, d) \<Longrightarrow> future_request b q k (Register d) = Inr mm \<Longrightarrow>
    client_step n (post p q mm k (Register d) (n\<lparr>nt_published := (nt_published n)((q, k) \<mapsto> d)\<rparr>))"
| release: "future_request b q k Release = Inr mm \<Longrightarrow>
    client_step n (post p q mm k Release (n\<lparr>nt_released := insert (q, k) (nt_released n)\<rparr>))"

inductive system_step :: "(c_int \<Rightarrow> server_env) \<Rightarrow> net \<Rightarrow> net \<Rightarrow> bool" for env where
  serve: "nt_up n (p, q) = (bs, k, ev) # rest \<Longrightarrow> server_turn (env q) (p, bs) (nt_server n q) = Inr t \<Longrightarrow>
    system_step env n (served p q t n)"
| receive: "nt_wait n p = Some (q, k) \<Longrightarrow> nt_down n (p, q) = d # ds \<Longrightarrow>
    system_step env n (n\<lparr>nt_wait := (nt_wait n)(p := None), nt_down := (nt_down n)((p, q) := ds),
      nt_got := nt_got n @ [(p, q, k, d)]\<rparr>)"

inductive_cases client_stepE: "client_step n n'"
inductive_cases system_stepE: "system_step env n n'"

inductive reachable :: "(c_int \<Rightarrow> server_env) \<Rightarrow> net \<Rightarrow> bool" for env where
  start: "reachable env net_init"
| client: "reachable env n \<Longrightarrow> client_step n n' \<Longrightarrow> reachable env n'"
| system: "reachable env n \<Longrightarrow> system_step env n n' \<Longrightarrow> reachable env n'"

section \<open>The invariant\<close>

text \<open>How often process \<open>p\<close> has asked server \<open>q\<close> for key \<open>k\<close> without an answer being sent.\<close>

definition gets :: "c_int \<Rightarrow> (byte list \<times> c_int \<times> future_event) list \<Rightarrow> c_int list" where
  "gets p xs = map (\<lambda>(bs, k, ev). k) (filter (\<lambda>(bs, k, ev). ev = Get p) xs)"

definition asked :: "net \<Rightarrow> c_int \<Rightarrow> c_int \<Rightarrow> c_int \<Rightarrow> nat" where
  "asked n p q k = count_list (gets p (nt_up n (p, q))) k + count_list (fs_waiting (future_slots (nt_server n q) k)) p"

definition waits_for :: "net \<Rightarrow> c_int \<Rightarrow> c_int \<Rightarrow> c_int option" where
  "waits_for n p q = (case nt_wait n p of Some (q', k) \<Rightarrow> if q' = q then Some k else None | None \<Rightarrow> None)"

definition pair_ok :: "c_int option \<Rightarrow> (c_int \<Rightarrow> nat) \<Rightarrow> byte list list \<Rightarrow> (c_int \<rightharpoonup> byte list) \<Rightarrow> bool" where
  "pair_ok w c down pub = (case w of
       None \<Rightarrow> c = (\<lambda>_. 0) \<and> down = []
     | Some k \<Rightarrow> c = (\<lambda>_. 0)(k := 1) \<and> down = [] \<or> c = (\<lambda>_. 0) \<and> (\<exists>d. down = [d] \<and> pub k = Some d))"

definition flight_ok :: "net \<Rightarrow> c_int \<Rightarrow> c_int \<Rightarrow> byte list \<times> c_int \<times> future_event \<Rightarrow> bool" where
  "flight_ok n p q = (\<lambda>(bs, k, ev). (\<exists>b mm. future_request b q k ev = Inr mm \<and> mm_bytes mm = bs) \<and>
     (case ev of Get r \<Rightarrow> r = p | Register d \<Rightarrow> register_ok (k, d) \<and> nt_published n (q, k) = Some d
      | Release \<Rightarrow> (q, k) \<in> nt_released n))"

definition slot_ok :: "net \<Rightarrow> c_int \<Rightarrow> c_int \<Rightarrow> future_slot \<Rightarrow> bool" where
  "slot_ok n q k fs \<longleftrightarrow> (\<forall>d. fs_data fs = Some d \<longrightarrow> nt_published n (q, k) = Some d \<and> fs_waiting fs = []) \<and>
     (fs_doomed fs \<longrightarrow> (q, k) \<in> nt_released n)"

definition arriving :: "net \<Rightarrow> c_int \<Rightarrow> c_int \<Rightarrow> byte list \<Rightarrow> bool" where
  "arriving n q k d \<longleftrightarrow> (\<exists>p bs. (bs, k, Register d) \<in> set (nt_up n (p, q)))"

definition net_inv :: "net \<Rightarrow> bool" where
  "net_inv n \<longleftrightarrow> (\<forall>q. srv_inv (nt_server n q) \<and> futures_inv (nt_server n q)) \<and>
     (\<forall>p q. \<forall>x\<in>set (nt_up n (p, q)). flight_ok n p q x) \<and>
     (\<forall>q k. slot_ok n q k (future_slots (nt_server n q) k)) \<and>
     (\<forall>p q. pair_ok (waits_for n p q) (asked n p q) (nt_down n (p, q)) (\<lambda>k. nt_published n (q, k))) \<and>
     (\<forall>q k d. nt_published n (q, k) = Some d \<longrightarrow> (q, k) \<notin> nt_released n \<longrightarrow>
        fs_data (future_slots (nt_server n q) k) = Some d \<or> arriving n q k d) \<and>
     (\<forall>(p, q, k, d)\<in>set (nt_got n). nt_published n (q, k) = Some d)"

lemma net_inv_init: "net_inv net_init"
  by (auto simp: net_inv_def net_init_def slot_ok_def pair_ok_def waits_for_def asked_def gets_def
      ActorServer_def future_slots_def futures_inv_def fun_eq_iff srv_inv_init [unfolded ActorServer_def])

section \<open>The steps of clients\<close>

lemma future_slot_init: "future_slots (ActorServer q) = (\<lambda>_. empty_slot)"
  by (simp add: fun_eq_iff future_slots_def ActorServer_def empty_slot_def)

lemma gets_append [simp]: "gets p (xs @ ys) = gets p xs @ gets p ys"
  by (simp add: gets_def)

lemma gets_Nil [simp]: "gets p [] = []"
  by (simp add: gets_def)

lemma gets_Cons [simp]: "gets p ((bs, k, ev) # xs) = (if ev = Get p then k # gets p xs else gets p xs)"
  by (simp add: gets_def)

text \<open>What a client does keeps the invariant if it only adds a message of its own, and knowledge.\<close>

lemma asked_post: "asked (post p q mm k ev n) r s =
    (\<lambda>k'. asked n r s k' + (if r = p \<and> s = q \<and> ev = Get p \<and> k' = k then 1 else 0))"
  by (auto simp: asked_def post_def fun_eq_iff)

lemma asked_frame:
  "asked (n\<lparr>nt_wait := w\<rparr>) = asked n" "asked (n\<lparr>nt_published := pb\<rparr>) = asked n" "asked (n\<lparr>nt_released := rl\<rparr>) = asked n"
  by (simp_all add: asked_def fun_eq_iff)

lemma pair_ok_mono: "pair_ok w c down pub \<Longrightarrow> pub \<subseteq>\<^sub>m pub' \<Longrightarrow> pair_ok w c down pub'"
  by (auto simp: pair_ok_def map_le_def dom_def split: option.splits)

lemma flight_ok_mono:
  assumes "flight_ok n p q x" and "nt_published n \<subseteq>\<^sub>m nt_published n'" and "nt_released n \<subseteq> nt_released n'"
  shows "flight_ok n' p q x"
  using assms by (auto simp: flight_ok_def map_le_def dom_def split: prod.splits future_event.splits)

lemma slot_ok_mono:
  assumes "slot_ok n q k fs" and "nt_published n \<subseteq>\<^sub>m nt_published n'" and "nt_released n \<subseteq> nt_released n'"
  shows "slot_ok n' q k fs"
  using assms by (auto simp: slot_ok_def map_le_def dom_def)

lemma post_inv:
  assumes inv: "net_inv n" and same: "nt_server n1 = nt_server n" "nt_up n1 = nt_up n" "nt_down n1 = nt_down n" "nt_got n1 = nt_got n"
    and mono: "nt_published n \<subseteq>\<^sub>m nt_published n1" "nt_released n \<subseteq> nt_released n1"
    and flight: "flight_ok n1 p q (mm_bytes mm, k, ev)"
    and new: "\<And>q' k' d. nt_published n1 (q', k') = Some d \<Longrightarrow> nt_published n (q', k') = Some d \<or> q' = q \<and> k' = k \<and> ev = Register d"
    and pairs: "\<And>r s. pair_ok (waits_for n1 r s) (asked (post p q mm k ev n1) r s) (nt_down n (r, s)) (\<lambda>k. nt_published n1 (s, k))"
  shows "net_inv (post p q mm k ev n1)"
proof -
  let ?n = "post p q mm k ev n1"
  have flights: "flight_ok ?n r s x" if "x \<in> set (nt_up ?n (r, s))" for r s x
  proof -
    have "flight_ok n1 r s x"
    proof (cases "x \<in> set (nt_up n (r, s))")
      case True
      then show ?thesis using inv flight_ok_mono [OF _ mono] by (auto simp: net_inv_def)
    next
      case False
      then show ?thesis using that flight by (auto simp: post_def same split: if_splits)
    qed
    then show ?thesis by (auto simp: flight_ok_def post_def split: future_event.splits)
  qed
  have slots: "slot_ok ?n s k' (future_slots (nt_server ?n s) k')" for s k'
  proof -
    have "slot_ok n1 s k' (future_slots (nt_server n s) k')"
      by (rule slot_ok_mono [OF _ mono]) (use inv in \<open>simp add: net_inv_def\<close>)
    then show ?thesis by (simp add: slot_ok_def post_def same)
  qed
  have lives: "fs_data (future_slots (nt_server ?n s) k') = Some d \<or> arriving ?n s k' d"
    if "nt_published ?n (s, k') = Some d" "(s, k') \<notin> nt_released ?n" for s k' d
  proof (cases "nt_published n (s, k') = Some d")
    case True
    moreover have "(s, k') \<notin> nt_released n" using that(2) mono(2) by (auto simp: post_def)
    ultimately have "fs_data (future_slots (nt_server n s) k') = Some d \<or> arriving n s k' d"
      using inv unfolding net_inv_def by metis
    then show ?thesis by (auto simp: arriving_def post_def same)
  next
    case False
    then show ?thesis using new [of s k' d] that(1) by (auto simp: arriving_def post_def same)
  qed
  have gots: "\<forall>(p, q, k, d)\<in>set (nt_got ?n). nt_published ?n (q, k) = Some d"
    using inv mono(1) by (auto simp: net_inv_def post_def same map_le_def dom_def)
  have "waits_for ?n r s = waits_for n1 r s" "nt_down ?n = nt_down n" "nt_server ?n = nt_server n" "nt_published ?n = nt_published n1" for r s
    by (simp_all add: waits_for_def post_def same)
  then show ?thesis
    using inv flights slots lives gots pairs unfolding net_inv_def by simp
qed

lemma client_inv:
  assumes "client_step n n'" and "net_inv n"
  shows "net_inv n'"
proof -
  have pairs: "pair_ok (waits_for n r s) (asked n r s) (nt_down n (r, s)) (\<lambda>k. nt_published n (s, k))" for r s
    using assms(2) by (simp add: net_inv_def)
  show ?thesis
    using assms(1)
  proof cases
    case (ask p b q k mm)
    let ?n = "n\<lparr>nt_wait := (nt_wait n)(p \<mapsto> (q, k))\<rparr>"
    have new: "pair_ok (waits_for ?n r s) (asked (post p q mm k (Get p) ?n) r s) (nt_down n (r, s)) (\<lambda>k. nt_published ?n (s, k))" for r s
    proof (cases "r = p")
      case True
      then have "asked n r s = (\<lambda>_. 0)" "nt_down n (r, s) = []"
        using pairs [of r s] ask(2) by (simp_all add: pair_ok_def waits_for_def)
      then show ?thesis using True by (auto simp: pair_ok_def waits_for_def asked_post asked_frame fun_eq_iff)
    next
      case False
      then show ?thesis using pairs [of r s] by (simp add: waits_for_def asked_post asked_frame)
    qed
    show ?thesis
      unfolding ask(1) by (rule post_inv [OF assms(2) _ _ _ _ _ _ _ _ new]) (use ask(3) in \<open>auto simp: flight_ok_def\<close>)
  next
    case (publish q k d b mm p)
    let ?n = "n\<lparr>nt_published := (nt_published n)((q, k) \<mapsto> d)\<rparr>"
    have mono: "nt_published n \<subseteq>\<^sub>m nt_published ?n" using publish(2) by (auto simp: map_le_def)
    then have "(\<lambda>k. nt_published n (s, k)) \<subseteq>\<^sub>m (\<lambda>k. nt_published ?n (s, k))" for s
      by (auto simp: map_le_def dom_def)
    from pair_ok_mono [OF pairs this]
    have new: "pair_ok (waits_for ?n r s) (asked (post p q mm k (Register d) ?n) r s) (nt_down n (r, s)) (\<lambda>k. nt_published ?n (s, k))" for r s
      by (simp add: waits_for_def asked_post asked_frame)
    show ?thesis
      unfolding publish(1) by (rule post_inv [OF assms(2) _ _ _ _ _ _ _ _ new])
        (use publish mono in \<open>auto simp: flight_ok_def split: if_splits\<close>)
  next
    case (release b q k mm p)
    let ?n = "n\<lparr>nt_released := insert (q, k) (nt_released n)\<rparr>"
    have new: "pair_ok (waits_for ?n r s) (asked (post p q mm k Release ?n) r s) (nt_down n (r, s)) (\<lambda>k. nt_published ?n (s, k))" for r s
      using pairs [of r s] by (simp add: waits_for_def asked_post asked_frame)
    show ?thesis
      unfolding release(1) by (rule post_inv [OF assms(2) _ _ _ _ _ _ _ _ new]) (use release in \<open>auto simp: flight_ok_def\<close>)
  qed
qed

section \<open>The steps of the management threads\<close>

lemma flight_turn:
  assumes "flight_ok n p q (bs, k, ev)" and "srv_inv srv" and "futures_inv srv"
  shows "\<exists>t. server_turn env (p, bs) srv = Inr t \<and> srv_inv t \<and> futures_inv t \<and>
    future_slots t = (future_slots srv)(k := fst (slot_step ev (future_slots srv k))) \<and>
    as_sent t = as_sent srv @ map future_message (snd (slot_step ev (future_slots srv k)))"
proof -
  obtain b mm where mm: "future_request b q k ev = Inr mm" "mm_bytes mm = bs" using assms(1) by (auto simp: flight_ok_def)
  show ?thesis
  proof (cases ev)
    case (Get r)
    then obtain m where "GetFutureDataMessage b k = Inr m" "sendActorMessage q m = Inr mm"
      using mm by (auto simp: future_request_def result_simps)
    then show ?thesis using future_turn [OF assms(2,3), of q m mm b k "[]" ev p env] Get assms(1) mm(2) by (simp add: flight_ok_def)
  next
    case (Register d)
    then obtain m where "RegisterFutureMessage b k d = Inr m" "sendActorMessage q m = Inr mm"
      using mm by (auto simp: future_request_def comm_registerFutureData_def result_simps)
    then show ?thesis using future_turn [OF assms(2,3), of q m mm b k d ev p env] Register assms(1) mm(2) by (simp add: flight_ok_def)
  next
    case Release
    then obtain m where "ReleaseFutureMessage b k = Inr m" "sendActorMessage q m = Inr mm"
      using mm by (auto simp: future_request_def releaseData_def LazyFutureDataRetriever_def result_simps)
    then show ?thesis using future_turn [OF assms(2,3), of q m mm b k "[]" ev p env] Release mm(2) by simp
  qed
qed

lemma sent_to_answers: "sent_to r (map future_message ans) = map snd (filter (\<lambda>(x, d). x = r) ans)"
  by (induction ans) (auto simp: sent_to_def future_message_def)

lemma answers_to_waiting: "map snd (filter (\<lambda>(x, d). x = r) (map (\<lambda>x. (x, d)) ws)) = replicate (count_list ws r) d"
  by (induction ws) auto

lemma slot_step_ok:
  assumes "slot_ok n q k fs" and "flight_ok n p q (bs, k, ev)"
  shows "slot_ok n q k (fst (slot_step ev fs))"
  using assms by (cases ev) (auto simp: slot_ok_def flight_ok_def empty_slot_def split: option.splits)

text \<open>The pair of a client and a server when the server takes a message about key \<open>k\<close>.\<close>

lemma pair_step:
  fixes fs ev r p q k n
  defines "fs' \<equiv> fst (slot_step ev fs)" and "to_r \<equiv> map snd (filter (\<lambda>(x, d). x = r) (snd (slot_step ev fs)))"
  assumes fs: "slot_ok n q k fs" and fl: "flight_ok n p q (bs, k, ev)"
    and g: "c k = g + count_list (fs_waiting fs) r" and g': "g = g' + (if ev = Get r then 1 else 0)"
    and ok: "pair_ok w c down (\<lambda>k. nt_published n (q, k))"
  shows "pair_ok w (c(k := g' + count_list (fs_waiting fs') r)) (down @ to_r) (\<lambda>k. nt_published n (q, k))"
proof (cases ev)
  case (Get x)
  show ?thesis
  proof (cases "fs_data fs")
    case None
    then have "c(k := g' + count_list (fs_waiting fs') r) = c" "to_r = []"
      using Get g g' by (auto simp: fs'_def to_r_def fun_eq_iff)
    then show ?thesis using ok by simp
  next
    case (Some d)
    then have fs': "fs' = fs" "to_r = (if x = r then [d] else [])" "fs_waiting fs = []" "nt_published n (q, k) = Some d"
      using Get fs by (auto simp: fs'_def to_r_def slot_ok_def)
    show ?thesis
    proof (cases "x = r")
      case True
      then have "0 < c k" using g g' Get by simp
      then have "w = Some k" "down = []" "c = (\<lambda>_. 0)(k := 1)"
        using ok by (auto simp: pair_ok_def split: option.splits if_splits)
      then show ?thesis using fs' True g g' Get by (auto simp: pair_ok_def)
    next
      case False
      then have "c(k := g' + count_list (fs_waiting fs') r) = c" "to_r = []" using fs' g g' Get by (auto simp: fun_eq_iff)
      then show ?thesis using ok by simp
    qed
  qed
next
  case (Register d)
  have wt: "fs_waiting fs' = []" using Register by (simp add: fs'_def empty_slot_def)
  have tr: "to_r = replicate (count_list (fs_waiting fs) r) d" using Register by (simp add: to_r_def answers_to_waiting)
  show ?thesis
  proof (cases "count_list (fs_waiting fs) r")
    case 0
    then have "c(k := g' + count_list (fs_waiting fs') r) = c" using g g' Register wt by (auto simp: fun_eq_iff)
    then show ?thesis using ok tr 0 by simp
  next
    case (Suc j)
    then have "0 < c k" using g by simp
    then have w: "w = Some k" "down = []" "c = (\<lambda>_. 0)(k := 1)"
      using ok by (auto simp: pair_ok_def split: option.splits if_splits)
    then have "g' = 0" "j = 0" using g g' Register Suc by auto
    moreover have "nt_published n (q, k) = Some d" using fl Register by (simp add: flight_ok_def)
    ultimately show ?thesis using w wt tr Suc by (auto simp: pair_ok_def fun_eq_iff)
  qed
next
  case Release
  then have "c(k := g' + count_list (fs_waiting fs') r) = c" "to_r = []"
    using g g' by (auto simp: fs'_def to_r_def fun_eq_iff split: option.splits)
  then show ?thesis using ok by simp
qed

lemma serve_inv:
  assumes inv: "net_inv n" and up: "nt_up n (p, q) = (bs, k, ev) # rest"
  shows "\<exists>t. server_turn (env q) (p, bs) (nt_server n q) = Inr t \<and> net_inv (served p q t n)"
proof -
  let ?srv = "nt_server n q"
  let ?fs = "future_slots ?srv k"
  have fl: "flight_ok n p q (bs, k, ev)" and fs: "slot_ok n q k ?fs" and srv: "srv_inv ?srv" "futures_inv ?srv"
    using inv up by (simp_all add: net_inv_def)
  obtain t where t: "server_turn (env q) (p, bs) ?srv = Inr t" "srv_inv t" "futures_inv t"
    "future_slots t = (future_slots ?srv)(k := fst (slot_step ev ?fs))"
    "as_sent t = as_sent ?srv @ map future_message (snd (slot_step ev ?fs))"
    using flight_turn [OF fl srv, of "env q"] by blast
  let ?n = "served p q t n"
  have slots: "slot_ok ?n s k' (future_slots (nt_server ?n s) k')" for s k'
    using inv slot_step_ok [OF fs fl] t(4) by (auto simp: net_inv_def served_def slot_ok_def)
  have flights: "flight_ok ?n r s x" if "x \<in> set (nt_up ?n (r, s))" for r s x
  proof -
    have "x \<in> set (nt_up n (r, s))" using that up by (auto simp: served_def split: if_splits)
    then have "flight_ok n r s x" using inv by (auto simp: net_inv_def)
    then show ?thesis by (auto simp: flight_ok_def served_def split: future_event.splits)
  qed
  have pairs: "pair_ok (waits_for ?n r s) (asked ?n r s) (nt_down ?n (r, s)) (\<lambda>k. nt_published ?n (s, k))" for r s
  proof (cases "s = q")
    case True
    let ?g = "count_list (gets r (nt_up n (r, q))) k" and ?g' = "count_list (gets r (nt_up ?n (r, q))) k"
    have ok: "pair_ok (waits_for n r q) (asked n r q) (nt_down n (r, q)) (\<lambda>k. nt_published n (q, k))"
      using inv by (simp add: net_inv_def)
    have ev: "ev = Get r \<Longrightarrow> r = p" using fl by (simp add: flight_ok_def)
    have "asked ?n r q = (asked n r q)(k := ?g' + count_list (fs_waiting (fst (slot_step ev ?fs))) r)"
    proof (rule ext)
      fix k'
      show "asked ?n r q k' = ((asked n r q)(k := ?g' + count_list (fs_waiting (fst (slot_step ev ?fs))) r)) k'"
        by (cases "k' = k"; cases "r = p") (simp_all add: asked_def served_def t(4) up)
    qed
    moreover have "?g = ?g' + (if ev = Get r then 1 else 0)"
    proof (cases "r = p")
      case False
      then have "ev \<noteq> Get r" using ev by blast
      then show ?thesis using False by (simp add: served_def)
    qed (simp add: served_def up)
    moreover have "nt_down ?n (r, q) = nt_down n (r, q) @ map snd (filter (\<lambda>(x, d). x = r) (snd (slot_step ev ?fs)))"
      using t(5) by (simp add: served_def sent_to_answers)
    ultimately show ?thesis
      using pair_step [OF fs fl, of "asked n r q" ?g r ?g'] ok True by (simp add: asked_def waits_for_def served_def)
  next
    case False
    have "pair_ok (waits_for n r s) (asked n r s) (nt_down n (r, s)) (\<lambda>k. nt_published n (s, k))"
      using inv by (simp add: net_inv_def)
    moreover have "asked ?n r s = asked n r s" using False by (simp add: asked_def served_def fun_eq_iff)
    ultimately show ?thesis using False by (simp add: waits_for_def served_def)
  qed
  have lives: "fs_data (future_slots (nt_server ?n s) k') = Some d \<or> arriving ?n s k' d"
    if "nt_published ?n (s, k') = Some d" "(s, k') \<notin> nt_released ?n" for s k' d
  proof -
    have pub: "nt_published n (s, k') = Some d" "(s, k') \<notin> nt_released n" using that by (simp_all add: served_def)
    have "fs_data (future_slots (nt_server n s) k') = Some d \<or> arriving n s k' d" using inv pub unfolding net_inv_def by metis
    then show ?thesis
    proof
      assume "fs_data (future_slots (nt_server n s) k') = Some d"
      then show ?thesis using t(4) fl fs pub
        by (cases ev) (auto simp: served_def flight_ok_def slot_ok_def split: option.splits)
    next
      assume "arriving n s k' d"
      then obtain r bs' where r: "(bs', k', Register d) \<in> set (nt_up n (r, s))" by (auto simp: arriving_def)
      show ?thesis
      proof (cases "r = p \<and> s = q \<and> (bs', k', Register d) = (bs, k, ev)")
        case True
        then have "\<not> fs_doomed ?fs" using fs pub by (auto simp: slot_ok_def)
        then show ?thesis using True t(4) by (auto simp: served_def)
      next
        case False
        then show ?thesis using r up by (auto simp: arriving_def served_def intro!: exI [of _ r])
      qed
    qed
  qed
  have "net_inv ?n"
    using inv t(2,3) slots flights pairs lives unfolding net_inv_def by (simp add: served_def)
  then show ?thesis using t(1) by blast
qed

lemma receive_inv:
  assumes inv: "net_inv n" and w: "nt_wait n p = Some (q, k)" and d: "nt_down n (p, q) = d # ds"
  shows "ds = []" and "nt_published n (q, k) = Some d"
    and "net_inv (n\<lparr>nt_wait := (nt_wait n)(p := None), nt_down := (nt_down n)((p, q) := ds), nt_got := nt_got n @ [(p, q, k, d)]\<rparr>)"
proof -
  let ?n = "n\<lparr>nt_wait := (nt_wait n)(p := None), nt_down := (nt_down n)((p, q) := ds), nt_got := nt_got n @ [(p, q, k, d)]\<rparr>"
  have pairs: "pair_ok (waits_for n r s) (asked n r s) (nt_down n (r, s)) (\<lambda>k. nt_published n (s, k))" for r s
    using inv by (simp add: net_inv_def)
  show ds: "ds = []" and pub: "nt_published n (q, k) = Some d"
    using pairs [of p q] w d by (auto simp: pair_ok_def waits_for_def)
  have pairs': "pair_ok (waits_for ?n r s) (asked ?n r s) (nt_down ?n (r, s)) (\<lambda>k. nt_published ?n (s, k))" for r s
  proof -
    have "asked ?n r s = asked n r s" by (simp add: asked_def fun_eq_iff)
    then show ?thesis using pairs [of r s] w d ds by (auto simp: pair_ok_def waits_for_def split: option.splits if_splits)
  qed
  have same: "flight_ok ?n r s x = flight_ok n r s x" "slot_ok ?n s k' fs = slot_ok n s k' fs" "arriving ?n s k' e = arriving n s k' e"
    for r s x k' fs e
    by (auto simp: flight_ok_def slot_ok_def arriving_def split: future_event.splits)
  show "net_inv ?n" using inv pairs' same pub unfolding net_inv_def by simp
qed

lemma system_inv:
  assumes "system_step env n n'" and "net_inv n"
  shows "net_inv n'"
  using assms(1)
proof cases
  case (serve p q bs k ev rest t)
  then show ?thesis using serve_inv [OF assms(2) serve(2), of env] by auto
next
  case (receive p q k d ds)
  then show ?thesis using receive_inv(3) [OF assms(2) receive(2,3)] by simp
qed

lemma reachable_inv: "reachable env n \<Longrightarrow> net_inv n"
  by (induction rule: reachable.induct) (simp_all add: net_inv_init client_inv system_inv)

section \<open>The network settles\<close>

definition load :: "(c_int \<times> c_int \<Rightarrow> 'a list) \<Rightarrow> nat" where
  "load chans = (\<Sum>x\<in>UNIV. length (chans x))"

lemma load_less:
  assumes "\<And>y. length (f y) \<le> length (g y)" and "length (f x) < length (g x)"
  shows "load f < load g"
  unfolding load_def
proof (rule sum_strict_mono_ex1)
  show "\<exists>y\<in>UNIV. length (f y) < length (g y)" using assms(2) by blast
qed (use assms(1) in auto)

definition idle :: "net \<Rightarrow> bool" where
  "idle n \<longleftrightarrow> nt_up n = (\<lambda>_. []) \<and> nt_down n = (\<lambda>_. [])"

definition flow :: "(net \<times> net) set" where
  "flow = inv_image (less_than <*lex*> less_than) (\<lambda>n. (load (nt_up n), load (nt_down n)))"

lemma wf_flow: "wf flow"
  unfolding flow_def by (intro wf_inv_image wf_lex_prod wf_less_than)

lemma system_step_flow:
  assumes "system_step env n n'"
  shows "(n', n) \<in> flow"
  using assms
proof cases
  case (serve p q bs k ev rest t)
  have "load (nt_up n') < load (nt_up n)"
    using serve(2) by (intro load_less [of _ _ "(p, q)"]) (auto simp: serve(1) served_def)
  then show ?thesis by (simp add: flow_def)
next
  case (receive p q k d ds)
  have "load (nt_down n') < load (nt_down n)"
    using receive(3) by (intro load_less [of _ _ "(p, q)"]) (auto simp: receive(1))
  then show ?thesis by (simp add: flow_def receive(1))
qed

lemma system_moves:
  assumes inv: "net_inv n" and "\<not> idle n"
  shows "\<exists>n'. system_step env n n'"
proof (cases "nt_up n = (\<lambda>_. [])")
  case True
  then obtain p q where down: "nt_down n (p, q) \<noteq> []" using assms(2) by (auto simp: idle_def fun_eq_iff)
  have "pair_ok (waits_for n p q) (asked n p q) (nt_down n (p, q)) (\<lambda>k. nt_published n (q, k))"
    using inv by (simp add: net_inv_def)
  then obtain k d ds where "nt_wait n p = Some (q, k)" "nt_down n (p, q) = d # ds"
    using down by (auto simp: pair_ok_def waits_for_def split: option.splits if_splits)
  then show ?thesis by (blast intro: receive)
next
  case False
  then obtain p q bs k ev rest where up: "nt_up n (p, q) = (bs, k, ev) # rest"
    by (auto simp: fun_eq_iff neq_Nil_conv)
  then show ?thesis using serve_inv [OF inv up, of env] by (blast intro: serve)
qed

lemma system_settles:
  assumes "net_inv n"
  shows "\<exists>n'. (system_step env)\<^sup>*\<^sup>* n n' \<and> idle n'"
  using assms
proof (induction n rule: wf_induct_rule [OF wf_flow])
  case (1 n)
  show ?case
  proof (cases "idle n")
    case False
    then obtain n1 where n1: "system_step env n n1" using system_moves [OF 1(2)] by blast
    then obtain n' where "(system_step env)\<^sup>*\<^sup>* n1 n'" "idle n'"
      using 1(1) [OF system_step_flow [OF n1] system_inv [OF n1 1(2)]] by blast
    then show ?thesis using n1 by (meson converse_rtranclp_into_rtranclp)
  qed blast
qed

text \<open>What system steps leave alone, and what becomes of a client that waits.\<close>

lemma system_step_waiting:
  assumes "system_step env n n'" and "net_inv n"
  shows "nt_published n' = nt_published n \<and> nt_released n' = nt_released n \<and> set (nt_got n) \<subseteq> set (nt_got n') \<and>
    (nt_wait n p = Some (q, k) \<longrightarrow> nt_wait n' p = Some (q, k) \<or> (\<exists>d. nt_published n (q, k) = Some d \<and> (p, q, k, d) \<in> set (nt_got n')))"
  using assms(1)
proof cases
  case (receive r s j d ds)
  then show ?thesis using receive_inv(2) [OF assms(2) receive(2,3)] by auto
qed (simp add: served_def)

lemma system_steps_waiting:
  assumes "(system_step env)\<^sup>*\<^sup>* n n'" and "net_inv n" and "nt_wait n p = Some (q, k)"
  shows "net_inv n' \<and> nt_published n' = nt_published n \<and> nt_released n' = nt_released n \<and>
    (nt_wait n' p = Some (q, k) \<or> (\<exists>d. nt_published n (q, k) = Some d \<and> (p, q, k, d) \<in> set (nt_got n')))"
  using assms(1)
proof (induction rule: rtranclp_induct)
  case base
  then show ?case using assms(2,3) by simp
next
  case (step n1 n2)
  then show ?case using system_step_waiting [OF step(2), of p q k] system_inv [OF step(2)] by auto
qed

text \<open>When nothing is in flight, nobody waits for a future that is there.\<close>

lemma idle_waiting:
  assumes inv: "net_inv n" and "idle n" and w: "nt_wait n p = Some (q, k)" and pub: "nt_published n (q, k) = Some d"
  shows "(q, k) \<in> nt_released n"
proof (rule ccontr)
  assume rel: "(q, k) \<notin> nt_released n"
  have empty: "nt_up n (r, s) = []" "nt_down n (r, s) = []" for r s using assms(2) by (simp_all add: idle_def)
  then have "fs_data (future_slots (nt_server n q) k) = Some d"
    using inv pub rel unfolding net_inv_def arriving_def by fastforce
  then have none: "fs_waiting (future_slots (nt_server n q) k) = []" using inv by (auto simp: net_inv_def slot_ok_def)
  have "pair_ok (waits_for n p q) (asked n p q) (nt_down n (p, q)) (\<lambda>k. nt_published n (q, k))"
    using inv by (simp add: net_inv_def)
  then have "asked n p q k = 1" using w empty by (auto simp: pair_ok_def waits_for_def)
  then show False using none empty by (simp add: asked_def)
qed

text \<open>A client waits for a future that another one publishes before the request is served.\<close>

lemma client_requests:
  "\<exists>mm. future_request b q k (Get p) = Inr mm" "register_ok (k, d) \<Longrightarrow> \<exists>mm. future_request b q k (Register d) = Inr mm"
  "\<exists>mm. future_request b q k Release = Inr mm"
proof -
  obtain buf where "GetFutureDataMessage b k = Inr (fresh_message b buf)" "length buf < 2 ^ 31"
    using getdata_encode [of b k] by blast
  then show "\<exists>mm. future_request b q k (Get p) = Inr mm" by (simp add: future_request_def sendActorMessage_fresh)
next
  assume "register_ok (k, d)"
  then obtain buf where "RegisterFutureMessage b k d = Inr (fresh_message b buf)" "length buf < 2 ^ 31"
    using register_encode [of k d b] by blast
  then show "\<exists>mm. future_request b q k (Register d) = Inr mm"
    by (simp add: future_request_def comm_registerFutureData_def sendActorMessage_fresh)
next
  obtain buf where "ReleaseFutureMessage b k = Inr (fresh_message b buf)" "length buf < 2 ^ 31"
    using release_encode [of b k] by blast
  then show "\<exists>mm. future_request b q k Release = Inr mm"
    by (simp add: future_request_def releaseData_def LazyFutureDataRetriever_def sendActorMessage_fresh)
qed

lemma ask_and_publish:
  assumes "register_ok (k, d)"
  shows "\<exists>n. reachable env n \<and> nt_wait n p = Some (q, k) \<and> nt_published n (q, k) = Some d \<and> nt_released n = {}"
proof -
  let ?b = "\<lparr>bl_addr = 1, bl_mem = \<lambda>_. 0\<rparr>"
  obtain m1 m2 where m: "future_request ?b q k (Get p) = Inr m1" "future_request ?b q k (Register d) = Inr m2"
    using client_requests(1) [of ?b q k p] client_requests(2) [OF assms, of ?b q] by blast
  let ?n1 = "post p q m1 k (Get p) (net_init\<lparr>nt_wait := (nt_wait net_init)(p \<mapsto> (q, k))\<rparr>)"
  let ?n2 = "post p q m2 k (Register d) (?n1\<lparr>nt_published := (nt_published ?n1)((q, k) \<mapsto> d)\<rparr>)"
  have "reachable env ?n1"
    by (rule reachable.client [OF reachable.start client_step.ask [OF _ m(1)]]) (simp add: net_init_def)
  then have "reachable env ?n2"
    by (rule reachable.client [OF _ client_step.publish [OF _ assms m(2)]]) (simp add: net_init_def post_def)
  then show ?thesis by (intro exI [of _ "?n2"]) (simp add: post_def net_init_def)
qed

section \<open>Properties\<close>

text \<open>
  Property C13: futures are never mixed up. Whatever the clients and the management threads of all
  processes do and in whatever order their messages arrive, what a client receives for the future
  with key \<open>k\<close> of process \<open>q\<close> is what was published under this key, although the answers carry no
  key: no answer is ever left over that a later request could receive.
\<close>

theorem futures_never_mixed:
  assumes "reachable env n"
  shows "(\<forall>(p, q, k, d)\<in>set (nt_got n). nt_published n (q, k) = Some d) \<and>
    (nt_wait n p = None \<longrightarrow> nt_down n (p, q) = []) \<and>
    (nt_wait n p = Some (q, k) \<longrightarrow> nt_down n (p, q) = [] \<or> (\<exists>d. nt_down n (p, q) = [d] \<and> nt_published n (q, k) = Some d))"
proof -
  have inv: "net_inv n" using assms by (rule reachable_inv)
  then have "\<forall>(p, q, k, d)\<in>set (nt_got n). nt_published n (q, k) = Some d" unfolding net_inv_def by blast
  moreover have "pair_ok (waits_for n p q) (asked n p q) (nt_down n (p, q)) (\<lambda>k. nt_published n (q, k))"
    using inv unfolding net_inv_def by blast
  then have "(nt_wait n p = None \<longrightarrow> nt_down n (p, q) = []) \<and>
      (nt_wait n p = Some (q, k) \<longrightarrow> nt_down n (p, q) = [] \<or> (\<exists>d. nt_down n (p, q) = [d] \<and> nt_published n (q, k) = Some d))"
    by (auto simp: pair_ok_def waits_for_def)
  ultimately show ?thesis by (rule conjI)
qed

theorem futures_never_mixed_witness:
  "\<exists>n. reachable (\<lambda>_. plain_env) n \<and> nt_published n (3, 5) = Some [7] \<and> (1, 3, 5, [7]) \<in> set (nt_got n) \<and>
    (\<forall>(p, q, k, d)\<in>set (nt_got n). nt_published n (q, k) = Some d)"
proof -
  obtain n where n: "reachable (\<lambda>_. plain_env) n" "nt_wait n 1 = Some (3, 5)" "nt_published n (3, 5) = Some [7]" "nt_released n = {}"
    using ask_and_publish [of 5 "[7]" "\<lambda>_. plain_env" 1 3] by (auto simp: register_ok_def)
  obtain n' where n': "(system_step (\<lambda>_. plain_env))\<^sup>*\<^sup>* n n'" "idle n'"
    using system_settles [OF reachable_inv [OF n(1)], of "\<lambda>_. plain_env"] by blast
  have r: "reachable (\<lambda>_. plain_env) n'" using n'(1) n(1) by (induction rule: rtranclp_induct) (auto intro: system)
  have "nt_published n' = nt_published n" "nt_released n' = nt_released n" "(1, 3, 5, [7]) \<in> set (nt_got n') \<or> nt_wait n' 1 = Some (3, 5)"
    using system_steps_waiting [OF n'(1) reachable_inv [OF n(1)] n(2)] n(3) by auto
  then have "(1, 3, 5, [7]) \<in> set (nt_got n')" using idle_waiting [OF reachable_inv [OF r] n'(2)] n(3,4) by fastforce
  then show ?thesis
    using r n(3) \<open>nt_published n' = _\<close> futures_never_mixed [OF r, of 1 3 5] by (intro exI [of _ n']) simp
qed

text \<open>
  Property C12: every client that waits for a published future gets it. From any reachable state the
  management threads and the clients that receive settle by themselves, and in whatever order
  they do, when nothing is in flight any more the client has the data, unless the future was
  released meanwhile.
\<close>

theorem published_future_arrives:
  assumes "reachable env n" and "nt_wait n p = Some (q, k)" and "nt_published n (q, k) = Some d" and "(q, k) \<notin> nt_released n"
  shows "(\<exists>n'. (system_step env)\<^sup>*\<^sup>* n n' \<and> idle n') \<and>
    (\<forall>n'. (system_step env)\<^sup>*\<^sup>* n n' \<longrightarrow> idle n' \<longrightarrow> (p, q, k, d) \<in> set (nt_got n'))"
proof (intro conjI allI impI)
  note inv = reachable_inv [OF assms(1)]
  show "\<exists>n'. (system_step env)\<^sup>*\<^sup>* n n' \<and> idle n'" by (rule system_settles [OF inv])
  fix n'
  assume steps: "(system_step env)\<^sup>*\<^sup>* n n'" and "idle n'"
  then show "(p, q, k, d) \<in> set (nt_got n')"
    using system_steps_waiting [OF steps inv assms(2)] idle_waiting [of n' p q k d] assms(3,4) by auto
qed

theorem published_future_arrives_witness:
  "\<exists>n n'. reachable (\<lambda>_. plain_env) n \<and> (system_step (\<lambda>_. plain_env))\<^sup>*\<^sup>* n n' \<and> idle n' \<and> (1, 3, 5, [7]) \<in> set (nt_got n')"
proof -
  obtain n where n: "reachable (\<lambda>_. plain_env) n" "nt_wait n 1 = Some (3, 5)" "nt_published n (3, 5) = Some [7]" "nt_released n = {}"
    using ask_and_publish [of 5 "[7]" "\<lambda>_. plain_env" 1 3] by (auto simp: register_ok_def)
  then show ?thesis using published_future_arrives [OF n(1-3)] by blast
qed

end
