(* ===== verification/Actor_Process.thy ===== *)
theory Actor_Process
  imports Future_Network
begin

text \<open>
  From the declaration of a class to its running actor: the macros of include/decl_actor.h that
  list the methods of a class, the registry of classes by name (src/ActorRegistry.cpp), the worker
  thread the management thread starts (src/management/ThreadedActorWorkerProxy.cpp,
  src/worker/ThreadedActorWorkerFactory.cpp) and the start of a process (src/activebsp.cpp,
  src/mpi/MPIWrapper.cpp).

  A class is its methods and its constructor; the object a constructor makes on a process depends
  on the rank and size of the communicator of the actor. What MPI answers (the thread level, the
  rank in a communicator) is an argument.
\<close>

section \<open>The declaration of a class\<close>

type_synonym 'o declared_method = "byte list \<times> cpp_type list \<times> 'o actor_method"

text \<open>The macros count their arguments: more than the table of macros provides is not C++ any more.\<close>

definition REGISTER_FUNC_HANDLER :: "boost_archive \<Rightarrow> 'o declared_method \<Rightarrow> ('o actor_worker \<Rightarrow> 'o actor_worker) option" where
  "REGISTER_FUNC_HANDLER ba = (\<lambda>(name, ts, f).
     if length ts \<le> 6 then Some (register_function name (actor_function_handler ba ts f)) else None)"

fun REGISTER_FUNC_HANDLERS ::
  "boost_archive \<Rightarrow> 'o declared_method list \<Rightarrow> ('o actor_worker \<Rightarrow> 'o actor_worker) option"
where
  "REGISTER_FUNC_HANDLERS ba [] = None"
| "REGISTER_FUNC_HANDLERS ba [f0] = REGISTER_FUNC_HANDLER ba f0"
| "REGISTER_FUNC_HANDLERS ba (f0 # f1 # fs) =
     (if 10 < length (f0 # f1 # fs) then None
      else case (REGISTER_FUNC_HANDLER ba f0, REGISTER_FUNC_HANDLERS ba (f1 # fs)) of
        (Some g, Some h) \<Rightarrow> Some (\<lambda>worker. h (g worker))
      | _ \<Rightarrow> None)"

text \<open>The methods of the proxy class: their names and argument types.\<close>

definition DECLARE_PROXY_FUNC :: "'o declared_method \<Rightarrow> (byte list \<times> cpp_type list) option" where
  "DECLARE_PROXY_FUNC = (\<lambda>(name, ts, f). if length ts \<le> 5 then Some (name, ts) else None)"

fun DECLARE_PROXY_FUNCS :: "'o declared_method list \<Rightarrow> (byte list \<times> cpp_type list) list option" where
  "DECLARE_PROXY_FUNCS [] = None"
| "DECLARE_PROXY_FUNCS [f0] = (case DECLARE_PROXY_FUNC f0 of None \<Rightarrow> None | Some d \<Rightarrow> Some [d])"
| "DECLARE_PROXY_FUNCS (f0 # f1 # fs) =
     (if 10 < length (f0 # f1 # fs) then None
      else case DECLARE_PROXY_FUNC f0 of
        None \<Rightarrow> None
      | Some d \<Rightarrow> (case DECLARE_PROXY_FUNCS (f1 # fs) of None \<Rightarrow> None | Some ds \<Rightarrow> Some (d # ds)))"

text \<open>A call of a method of the proxy: the compiler picks the declaration by the name and the types.\<close>

definition proxy_method ::
  "boost_archive \<Rightarrow> block \<Rightarrow> (byte list \<times> cpp_type list) list \<Rightarrow> byte list \<Rightarrow> cpp_value list \<Rightarrow> network \<Rightarrow> actor_proxy \<Rightarrow>
    (future \<times> actor_proxy \<times> mpi_message) result option"
where
  "proxy_method ba b decls name args network px =
     (if (name, map type_of args) \<in> set decls then Some (active_call ba b name args network px) else None)"

record 'o actor_class =
  ac_name :: "byte list"
  ac_methods :: "'o declared_method list"
  ac_new :: "c_int \<times> c_int \<Rightarrow> 'o actor_base result"

text \<open>
  What a handler of a class leaves behind, with the type of its objects hidden: the messages its
  object sent and the requests and function ids it did not read.
\<close>

type_synonym actor_handler =
  "c_int \<times> c_int \<Rightarrow> request_queue \<Rightarrow> c_int list \<Rightarrow> (mpi_message list \<times> request_queue \<times> c_int list) result"

definition sent_by :: "'o actor_worker \<Rightarrow> mpi_message list" where
  "sent_by w = (case aw_deleted w of None \<Rightarrow> [] | Some a \<Rightarrow> ab_sent a)"

definition CLASS_handler :: "boost_archive \<Rightarrow> (nat \<Rightarrow> block) \<Rightarrow> 'o actor_class \<Rightarrow> actor_handler option" where
  "CLASS_handler ba blocks c =
     map_option (\<lambda>register comm reqs ids.
       bindE (ac_new c comm) (\<lambda>obj.
       bindE (worker_handler blocks reqs ids (register (ActorWorker obj))) (\<lambda>(w, reqs1, ids1).
         Inr (sent_by w, reqs1, ids1))))
     (REGISTER_FUNC_HANDLERS ba (ac_methods c))"

section \<open>The registry\<close>

text \<open>The values are function pointers: looking up an unknown name inserts a null pointer.\<close>

type_synonym actor_registry = "byte list \<rightharpoonup> actor_handler option"

definition ActorMaker :: "byte list \<Rightarrow> actor_handler \<Rightarrow> actor_registry \<Rightarrow> actor_registry" where
  "ActorMaker name handler registry = registry(name \<mapsto> Some handler)"

definition REGISTER_ACTOR ::
  "boost_archive \<Rightarrow> (nat \<Rightarrow> block) \<Rightarrow> 'o actor_class \<Rightarrow> actor_registry \<Rightarrow> actor_registry option"
where
  "REGISTER_ACTOR ba blocks c registry =
     map_option (\<lambda>handler. ActorMaker (ac_name c) handler registry) (CLASS_handler ba blocks c)"

section \<open>The worker thread\<close>

text \<open>
  \<open>comm\<close> is the rank and the size MPI gives the process in the communicator of the pids; the thread
  makes one for the worker and one for the management thread.
\<close>

definition createBSPlib ::
  "c_int \<times> c_int \<Rightarrow> worker_proxy \<Rightarrow> actor_registry \<Rightarrow> actor_server \<Rightarrow>
    actor_handler option \<times> actor_registry \<times> actor_server"
where
  "createBSPlib comm wp registry srv =
     (let (handler, registry1) = subscript None (wp_name wp) registry
      in (handler, registry1, setIntraActorComm comm srv))"

definition create_actor_thread_from_proxy ::
  "c_int \<times> c_int \<Rightarrow> worker_proxy \<Rightarrow> actor_registry \<Rightarrow> request_queue \<Rightarrow> c_int list \<Rightarrow> actor_server \<Rightarrow>
    ((mpi_message list \<times> request_queue \<times> c_int list) \<times> actor_server) result"
where
  "create_actor_thread_from_proxy comm wp registry reqs ids srv =
     (let (handler, registry1, srv1) = createBSPlib comm wp registry srv
      in case handler of
           None \<Rightarrow> Inl Null_deref
         | Some f \<Rightarrow> bindE (f comm reqs ids) (\<lambda>r. Inr (r, srv1)))"

section \<open>The start of a process\<close>

text \<open>\<open>provided\<close> is the thread level MPI reports, whether it was initialised before or is now.\<close>

definition MPIWrapper_init :: "c_int \<Rightarrow> (bool \<Rightarrow> c_int) \<Rightarrow> bool \<Rightarrow> unit result" where
  "MPIWrapper_init requested provided flag = (if requested < provided flag then Inl Mpi_error else Inr ())"

text \<open>
  Process 0 returns and runs the main program; every other process serves messages until it is
  stopped and exits. The result is the final state of its management thread.
\<close>

definition activebsp_init ::
  "server_env \<Rightarrow> c_int \<Rightarrow> (bool \<Rightarrow> c_int) \<Rightarrow> bool \<Rightarrow> c_int \<Rightarrow> (c_int \<times> byte list) list \<Rightarrow>
    (bool \<times> (c_int \<times> byte list) list \<times> actor_server) option result"
where
  "activebsp_init env requested provided flag rank msgs =
     bindE (MPIWrapper_init requested provided flag) (\<lambda>_.
       if rank \<noteq> 0 then bindE (server_run env msgs (ActorServer rank)) (\<lambda>r. Inr (Some r)) else Inr None)"

section \<open>What the macros generate\<close>

lemma registered_fold:
  assumes "REGISTER_FUNC_HANDLERS ba ms = Some register"
  shows "register w = fold (\<lambda>(name, ts, f). register_function name (actor_function_handler ba ts f)) ms w"
  using assms
  by (induction ba ms arbitrary: register w rule: REGISTER_FUNC_HANDLERS.induct)
    (auto simp: REGISTER_FUNC_HANDLER_def split: if_splits option.splits)

lemma declared_methods:
  assumes "DECLARE_PROXY_FUNCS ms = Some decls"
  shows "decls = map (\<lambda>(name, ts, f). (name, ts)) ms"
  using assms
  by (induction ms arbitrary: decls rule: DECLARE_PROXY_FUNCS.induct)
    (auto simp: DECLARE_PROXY_FUNC_def split: if_splits option.splits)

lemma handler_frame: "name \<notin> fst ` set ms \<Longrightarrow>
    aw_functions (fold (\<lambda>(name, ts, f). register_function name (actor_function_handler ba ts f)) ms w) name = aw_functions w name"
  by (induction ms arbitrary: w) (auto simp: register_function_def)

text \<open>The handler under a name is that of the last method of this name.\<close>

lemma last_handler:
  assumes "name \<notin> fst ` set later"
  shows "aw_functions (fold (\<lambda>(name, ts, f). register_function name (actor_function_handler ba ts f)) (before @ (name, ts, f) # later) w) name =
    Some (actor_function_handler ba ts f)"
  using handler_frame [OF assms] by (simp add: register_function_def)

lemma CLASS_handler_eq:
  assumes "REGISTER_FUNC_HANDLERS ba (ac_methods c) = Some register"
  shows "CLASS_handler ba blocks c = Some (\<lambda>comm reqs ids. bindE (ac_new c comm) (\<lambda>obj.
    bindE (class_handler ba blocks (ac_methods c) obj reqs ids) (\<lambda>(w, reqs1, ids1). Inr (sent_by w, reqs1, ids1))))"
  using assms by (simp add: CLASS_handler_def class_handler_def registered_fold)

section \<open>Creating an actor\<close>

lemma create_turn:
  assumes ok: "create_ok (name, pids)" and inv: "srv_inv srv" and m: "CreateActorMessage b name pids = Inr m"
    and send: "sendActorMessage dst m = Inr mm" and "pids \<noteq> []"
  shows "\<exists>t. server_turn env (src, mm_bytes mm) srv = Inr t \<and> as_pids t = pids \<and>
    as_worker t = Some \<lparr>wp_queue = [], wp_name = name, wp_pids = pids\<rparr> \<and> as_intra t = as_intra srv \<and>
    as_sent t = as_sent srv @ (if as_pid srv = hd pids
      then [\<lparr>mm_dst = src, mm_tag = ABSP_MPI_WORKER_THREAD_TAG, mm_bytes = int_bytes 0\<rparr>] else [])"
proof -
  obtain m' cm' where r: "server_turn env (src, mm_bytes mm) srv = routeHandleMessage env (CreateActor_class, m') (tick (tick srv)\<lparr>as_comm := cm'\<rparr>)"
    "create_view m' = Inr (name, pids)" "am_src m' = src"
    using create.turn_state [OF ok inv, of b m dst mm env src] m send by auto
  have v: "create_getActorName m' = Inr name" "create_getPids m' = Inr pids"
    using r(2) by (auto simp: create_view_def result_simps)
  have "vector_at pids 0 = Inr (hd pids)" using assms(5) by (simp add: vector_at_def hd_conv_nth)
  then show ?thesis
    using r v by (auto simp: routeHandleMessage_def handleCreateActorMessage_def startActor_def createActorProcessProxy_def
        emit_def sendResponseCode_def mpi_send_def mem_read_def peek_def tick_def Let_def)
qed

lemma thread_runs:
  assumes "registry name = Some (Some f)" and "wp_name wp = name"
  shows "create_actor_thread_from_proxy comm wp registry reqs ids srv =
    bindE (f comm reqs ids) (\<lambda>r. Inr (r, setIntraActorComm comm srv))"
  using assms by (simp add: create_actor_thread_from_proxy_def createBSPlib_def subscript_def)

lemma create_message:
  assumes "create_ok (name, pids)" and "askCreateActor b pids name network = Inr (sent, res)" and "pid \<in> set pids"
  shows "\<exists>m mm. CreateActorMessage b name pids = Inr m \<and> sendActorMessage pid m = Inr mm \<and> mm \<in> set sent \<and> mm_dst mm = pid"
proof -
  obtain buf where buf: "CreateActorMessage b name pids = Inr (fresh_message b buf)" "length buf < 2 ^ 31"
    using create_encode [OF assms(1), of b] by blast
  let ?mm = "\<lambda>q. \<lparr>mm_dst = q, mm_tag = ABSP_MPI_MANAGEMENT_THREAD_TAG, mm_bytes = buf\<rparr>"
  have "mapE (\<lambda>q. sendActorMessage q (fresh_message b buf)) pids = Inr (map ?mm pids)"
    using sendActorMessage_fresh [OF buf(2)] by (intro mapE_eq_map) simp
  then have "sent = map ?mm pids"
    using assms(2) buf(1) by (auto simp: askCreateActor_def result_simps split: list.splits)
  then show ?thesis using buf sendActorMessage_fresh [OF buf(2), of pid b] assms(3) by auto
qed

lemma ask_create:
  assumes "create_ok (name, pids)" and "pids \<noteq> []"
  shows "\<exists>sent. askCreateActor b pids name (\<lambda>_ _. [int_bytes 0]) = Inr (sent, 0)"
proof -
  obtain buf where buf: "CreateActorMessage b name pids = Inr (fresh_message b buf)" "length buf < 2 ^ 31"
    using create_encode [OF assms(1), of b] by blast
  let ?mm = "\<lambda>q. \<lparr>mm_dst = q, mm_tag = ABSP_MPI_MANAGEMENT_THREAD_TAG, mm_bytes = buf\<rparr>"
  have send: "sendActorMessage q (fresh_message b buf) = Inr (?mm q)" for q using sendActorMessage_fresh [OF buf(2)] .
  have "mapE (\<lambda>q. Inr (?mm q)) qs = Inr (map ?mm qs)" for qs by (rule mapE_eq_map) simp
  then show ?thesis using buf(1) assms(2) by (cases pids) (simp_all add: askCreateActor_def response_read send)
qed

text \<open>A class with two methods, for concrete runs.\<close>

definition sample_class :: "byte actor_class" where
  "sample_class = \<lparr>ac_name = [65], ac_methods = [([103], [], sample_get), ([97], [Pod_type 1], sample_add)],
     ac_new = (\<lambda>(pid, nprocs). ActorBase 1 9 pid nprocs 7 0)\<rparr>"

section \<open>Properties\<close>

text \<open>
  Property C2: an actor runs the class it was created with. When \<^verbatim>\<open>askCreateActor\<close> names a registered
  class, every process of its pids receives a message whose handling starts a worker thread with
  that name and those pids, and only the head answers, with code 0; the thread makes the object
  of the class and runs its handler with every declared method registered.
\<close>

theorem created_actor_runs_its_class:
  assumes "REGISTER_ACTOR ba blocks c registry = Some registry'" and "create_ok (ac_name c, pids)"
    and "askCreateActor b pids (ac_name c) network = Inr (sent, res)" and "pid \<in> set pids"
    and "srv_inv srv" and "as_pid srv = pid"
  shows "\<exists>mm t wp. mm \<in> set sent \<and> mm_dst mm = pid \<and> server_turn env (src, mm_bytes mm) srv = Inr t \<and>
    as_worker t = Some wp \<and> wp_pids wp = pids \<and>
    as_sent t = as_sent srv @ (if pid = hd pids
      then [\<lparr>mm_dst = src, mm_tag = ABSP_MPI_WORKER_THREAD_TAG, mm_bytes = int_bytes 0\<rparr>] else []) \<and>
    create_actor_thread_from_proxy comm wp registry' reqs ids t = bindE (ac_new c comm) (\<lambda>obj.
      bindE (class_handler ba blocks (ac_methods c) obj reqs ids) (\<lambda>(w, reqs1, ids1).
        Inr ((sent_by w, reqs1, ids1), setIntraActorComm comm t)))"
proof -
  have ne: "pids \<noteq> []" using assms(4) by auto
  obtain m mm where m: "CreateActorMessage b (ac_name c) pids = Inr m" "sendActorMessage pid m = Inr mm" "mm \<in> set sent" "mm_dst mm = pid"
    using create_message [OF assms(2-4)] by blast
  obtain t where t: "server_turn env (src, mm_bytes mm) srv = Inr t" "as_worker t = Some \<lparr>wp_queue = [], wp_name = ac_name c, wp_pids = pids\<rparr>"
    "as_sent t = as_sent srv @ (if as_pid srv = hd pids
      then [\<lparr>mm_dst = src, mm_tag = ABSP_MPI_WORKER_THREAD_TAG, mm_bytes = int_bytes 0\<rparr>] else [])"
    using create_turn [OF assms(2,5) m(1,2) ne, of env src] by blast
  obtain register where r: "REGISTER_FUNC_HANDLERS ba (ac_methods c) = Some register"
    using assms(1) by (auto simp: REGISTER_ACTOR_def CLASS_handler_def)
  let ?wp = "\<lparr>wp_queue = [], wp_name = ac_name c, wp_pids = pids\<rparr>"
  let ?h = "\<lambda>comm reqs ids. bindE (ac_new c comm) (\<lambda>obj.
      bindE (class_handler ba blocks (ac_methods c) obj reqs ids) (\<lambda>(w, reqs1, ids1). Inr (sent_by w, reqs1, ids1)))"
  have "registry' (ac_name c) = Some (Some ?h)"
    using assms(1) by (auto simp: REGISTER_ACTOR_def CLASS_handler_eq [OF r] ActorMaker_def)
  then have "create_actor_thread_from_proxy comm ?wp registry' reqs ids t = bindE (?h comm reqs ids) (\<lambda>r. Inr (r, setIntraActorComm comm t))"
    by (rule thread_runs [where name = "ac_name c" and f = ?h]) simp
  then have "create_actor_thread_from_proxy comm ?wp registry' reqs ids t =
    bindE (ac_new c comm) (\<lambda>obj. bindE (class_handler ba blocks (ac_methods c) obj reqs ids) (\<lambda>(w, reqs1, ids1).
        Inr ((sent_by w, reqs1, ids1), setIntraActorComm comm t)))"
    by (cases "ac_new c comm"; cases "class_handler ba blocks (ac_methods c) (projr (ac_new c comm)) reqs ids") auto
  then show ?thesis using m(3,4) t assms(6) by (intro exI [of _ mm] exI [of _ t]) auto
qed

theorem created_actor_runs_its_class_witness:
  "\<exists>registry sent mm t wp. REGISTER_ACTOR tag_archive (\<lambda>_. \<lparr>bl_addr = 2, bl_mem = \<lambda>_. 0\<rparr>) sample_class Map.empty = Some registry \<and>
    askCreateActor \<lparr>bl_addr = 1, bl_mem = \<lambda>_. 0\<rparr> [7] [65] (\<lambda>_ _. [int_bytes 0]) = Inr (sent, 0) \<and> mm \<in> set sent \<and>
    server_turn plain_env (3, mm_bytes mm) (ActorServer 7) = Inr t \<and> as_worker t = Some wp \<and>
    create_actor_thread_from_proxy (0, 1) wp registry [] [] t = Inl Deadlock"
proof -
  let ?bl = "\<lambda>_. \<lparr>bl_addr = 2, bl_mem = \<lambda>_. 0\<rparr>" and ?b = "\<lparr>bl_addr = 1, bl_mem = \<lambda>_. 0\<rparr>"
  obtain registry where r: "REGISTER_ACTOR tag_archive ?bl sample_class Map.empty = Some registry"
    by (simp add: REGISTER_ACTOR_def CLASS_handler_def sample_class_def REGISTER_FUNC_HANDLER_def)
  have ok: "create_ok (ac_name sample_class, [7])" by (simp add: create_ok_def sample_class_def)
  obtain sent where sent: "askCreateActor ?b [7] (ac_name sample_class) (\<lambda>_ _. [int_bytes 0]) = Inr (sent, 0)"
    using ask_create [OF ok, of ?b] by auto
  have srv: "srv_inv (ActorServer 7)" "as_pid (ActorServer 7) = 7" by (simp_all add: srv_inv_init) (simp add: ActorServer_def)
  obtain a where a: "ac_new sample_class (0, 1) = Inr a" "ab_pid a = 0"
    using ActorBase_total [of 1 "9 :: byte" 0 1 7 0] by (auto simp: sample_class_def ActorBase_def base_sync_def register_spmd_def)
  have waits: "class_handler tag_archive ?bl (ac_methods sample_class) a [] [] = Inl Deadlock"
    using a(2) by (simp add: class_handler_def worker_handler_def sample_class_def register_function_def ActorWorker_def is_master_def)
  have mem: "(7 :: c_int) \<in> set [7]" by simp
  show ?thesis
    using created_actor_runs_its_class [OF r ok sent mem srv, of plain_env 3 "(0, 1)" "[]" "[]"] r sent
    by (elim exE conjE) (intro exI conjI; simp add: a(1) waits; simp add: sample_class_def)
qed

text \<open>
  Property C39: what a proxy offers is what the worker serves. If the methods of a class have
  different names, every method of the proxy class is registered under its name with exactly the
  argument types the compiler checks the call against, so the worker deserialises the arguments
  as what the caller serialised.
\<close>

theorem declared_methods_are_served:
  assumes "DECLARE_PROXY_FUNCS ms = Some decls" and "REGISTER_FUNC_HANDLERS ba ms = Some register" and "distinct (map fst ms)"
    and "proxy_method ba b decls name args network px \<noteq> None"
  shows "\<exists>f. (name, map type_of args, f) \<in> set ms \<and>
    aw_functions (register (ActorWorker obj)) name = Some (actor_function_handler ba (map type_of args) f) \<and>
    proxy_method ba b decls name args network px = Some (active_call ba b name args network px)"
proof -
  have "(name, map type_of args) \<in> set decls" using assms(4) by (auto simp: proxy_method_def split: if_splits)
  then obtain f where f: "(name, map type_of args, f) \<in> set ms" using declared_methods [OF assms(1)] by auto
  then obtain before later where ms: "ms = before @ (name, map type_of args, f) # later" by (meson split_list)
  have "name \<notin> fst ` set later" using assms(3) by (auto simp: ms)
  from last_handler [OF this] show ?thesis
    using f assms(4) by (auto simp: registered_fold [OF assms(2)] ms proxy_method_def split: if_splits)
qed

theorem declared_methods_are_served_witness:
  "\<exists>decls register. DECLARE_PROXY_FUNCS (ac_methods sample_class) = Some decls \<and>
    REGISTER_FUNC_HANDLERS tag_archive (ac_methods sample_class) = Some register \<and>
    proxy_method tag_archive \<lparr>bl_addr = 1, bl_mem = \<lambda>_. 0\<rparr> decls [97] [Pod [2]] (\<lambda>_ _. []) (ProxyBase 7) \<noteq> None \<and>
    (\<forall>a. \<exists>f. aw_functions (register (ActorWorker a)) [97] = Some (actor_function_handler tag_archive [Pod_type 1] f))"
proof -
  obtain decls register where d: "DECLARE_PROXY_FUNCS (ac_methods sample_class) = Some decls"
    "REGISTER_FUNC_HANDLERS tag_archive (ac_methods sample_class) = Some register"
    by (simp add: sample_class_def DECLARE_PROXY_FUNC_def REGISTER_FUNC_HANDLER_def)
  have dist: "distinct (map fst (ac_methods sample_class))" by (simp add: sample_class_def)
  have p: "proxy_method tag_archive \<lparr>bl_addr = 1, bl_mem = \<lambda>_. 0\<rparr> decls [97] [Pod [2]] (\<lambda>_ _. []) (ProxyBase 7) \<noteq> None"
    using declared_methods [OF d(1)] by (simp add: proxy_method_def sample_class_def)
  have "\<exists>f. aw_functions (register (ActorWorker a)) [97] = Some (actor_function_handler tag_archive [Pod_type 1] f)" for a
    using declared_methods_are_served [OF d dist p, of a] by auto
  then show ?thesis using d p by blast
qed

text \<open>
  Creating an actor of an unknown class is answered with success all the same: the answer
  is sent when the thread is started, and it is the thread that then calls a null pointer.
\<close>

theorem unknown_class_fails_late:
  assumes "registry name = None" and "create_ok (name, pids)" and "askCreateActor b pids name network = Inr (sent, res)"
    and "pids \<noteq> []" and "srv_inv srv" and "as_pid srv = hd pids"
  shows "\<exists>mm t wp. mm \<in> set sent \<and> server_turn env (src, mm_bytes mm) srv = Inr t \<and>
    as_sent t = as_sent srv @ [\<lparr>mm_dst = src, mm_tag = ABSP_MPI_WORKER_THREAD_TAG, mm_bytes = int_bytes 0\<rparr>] \<and>
    as_worker t = Some wp \<and> create_actor_thread_from_proxy comm wp registry reqs ids t = Inl Null_deref"
proof -
  have pid: "hd pids \<in> set pids" using assms(4) by simp
  obtain m mm where m: "CreateActorMessage b name pids = Inr m" "sendActorMessage (hd pids) m = Inr mm" "mm \<in> set sent"
    using create_message [OF assms(2,3) pid] by blast
  obtain t where t: "server_turn env (src, mm_bytes mm) srv = Inr t" "as_worker t = Some \<lparr>wp_queue = [], wp_name = name, wp_pids = pids\<rparr>"
    "as_sent t = as_sent srv @ [\<lparr>mm_dst = src, mm_tag = ABSP_MPI_WORKER_THREAD_TAG, mm_bytes = int_bytes 0\<rparr>]"
    using create_turn [OF assms(2,5) m(1,2) assms(4), of env src] assms(6) by auto
  have "create_actor_thread_from_proxy comm \<lparr>wp_queue = [], wp_name = name, wp_pids = pids\<rparr> registry reqs ids t = Inl Null_deref"
    using assms(1) by (simp add: create_actor_thread_from_proxy_def createBSPlib_def subscript_def)
  then show ?thesis using m(3) t by (intro exI [of _ mm] exI [of _ t]) simp
qed

theorem unknown_class_fails_late_witness:
  "\<exists>sent mm t wp. askCreateActor \<lparr>bl_addr = 1, bl_mem = \<lambda>_. 0\<rparr> [7] [65] (\<lambda>_ _. [int_bytes 0]) = Inr (sent, 0) \<and> mm \<in> set sent \<and>
    server_turn plain_env (3, mm_bytes mm) (ActorServer 7) = Inr t \<and>
    as_sent t = [\<lparr>mm_dst = 3, mm_tag = ABSP_MPI_WORKER_THREAD_TAG, mm_bytes = int_bytes 0\<rparr>] \<and>
    as_worker t = Some wp \<and> create_actor_thread_from_proxy (0, 1) wp Map.empty [] [] t = Inl Null_deref"
proof -
  have ok: "create_ok ([65], [7])" by (simp add: create_ok_def)
  obtain sent where sent: "askCreateActor \<lparr>bl_addr = 1, bl_mem = \<lambda>_. 0\<rparr> [7] [65] (\<lambda>_ _. [int_bytes 0]) = Inr (sent, 0)"
    using ask_create [OF ok, of "\<lparr>bl_addr = 1, bl_mem = \<lambda>_. 0\<rparr>"] by auto
  have srv: "srv_inv (ActorServer 7)" "as_pid (ActorServer 7) = hd [7]" "as_sent (ActorServer 7) = []"
    by (simp_all add: srv_inv_init) (simp_all add: ActorServer_def)
  have other: "(Map.empty :: actor_registry) [65] = None" "[7 :: c_int] \<noteq> []" by simp_all
  show ?thesis
    using unknown_class_fails_late [OF other(1) ok sent other(2) srv(1,2), of plain_env 3 "(0, 1)" "[]" "[]"] sent srv(3)
    by (elim exE conjE) (intro exI conjI; simp)
qed

text \<open>
  The client may use an actor before it is ready. The head answers the creation before
  its worker thread has made the communicator of the actor; a prefetch that arrives in between
  dereferences a null pointer in the management thread, while one that arrives later finds the
  communicator the thread made.
\<close>

theorem prefetch_races_with_start:
  assumes "create_ok (name, pids)" and "askCreateActor b pids name network = Inr (sent, res)" and "pids \<noteq> []"
    and "srv_inv srv" and "as_pid srv = hd pids" and "as_intra srv = None"
  shows "\<exists>mm t wp. mm \<in> set sent \<and> server_turn env (src, mm_bytes mm) srv = Inr t \<and> as_worker t = Some wp \<and>
    as_sent t \<noteq> as_sent srv \<and> handlePrefetchMessage env msg t = Inl Null_deref \<and>
    (\<forall>r t'. create_actor_thread_from_proxy comm wp registry reqs ids t = Inr (r, t') \<longrightarrow> isHead t' = Inr (fst comm = 0))"
proof -
  have pid: "hd pids \<in> set pids" using assms(3) by simp
  obtain m mm where m: "CreateActorMessage b name pids = Inr m" "sendActorMessage (hd pids) m = Inr mm" "mm \<in> set sent"
    using create_message [OF assms(1,2) pid] by blast
  obtain t where t: "server_turn env (src, mm_bytes mm) srv = Inr t" "as_worker t = Some \<lparr>wp_queue = [], wp_name = name, wp_pids = pids\<rparr>"
    "as_sent t \<noteq> as_sent srv" "as_intra t = None"
    using create_turn [OF assms(1,4) m(1,2) assms(3), of env src] assms(5,6) by auto
  have "handlePrefetchMessage env msg t = Inl Null_deref" using t(4) by (simp add: handlePrefetchMessage_def isHead_def)
  moreover have "isHead t' = Inr (fst comm = 0)"
    if "create_actor_thread_from_proxy comm \<lparr>wp_queue = [], wp_name = name, wp_pids = pids\<rparr> registry reqs ids t = Inr (r, t')" for r t'
    using that by (cases comm) (auto simp: create_actor_thread_from_proxy_def createBSPlib_def setIntraActorComm_def isHead_def
        Let_def result_simps split: prod.splits option.splits)
  ultimately show ?thesis using m(3) t by (intro exI [of _ mm] exI [of _ t]) simp
qed

theorem prefetch_races_with_start_witness:
  "\<exists>sent mm t. askCreateActor \<lparr>bl_addr = 1, bl_mem = \<lambda>_. 0\<rparr> [7] [65] (\<lambda>_ _. [int_bytes 0]) = Inr (sent, 0) \<and> mm \<in> set sent \<and>
    server_turn plain_env (3, mm_bytes mm) (ActorServer 7) = Inr t \<and> as_sent t \<noteq> [] \<and>
    handlePrefetchMessage plain_env ActorMessage0 t = Inl Null_deref"
proof -
  have ok: "create_ok ([65], [7])" by (simp add: create_ok_def)
  obtain sent where sent: "askCreateActor \<lparr>bl_addr = 1, bl_mem = \<lambda>_. 0\<rparr> [7] [65] (\<lambda>_ _. [int_bytes 0]) = Inr (sent, 0)"
    using ask_create [OF ok, of "\<lparr>bl_addr = 1, bl_mem = \<lambda>_. 0\<rparr>"] by auto
  have srv: "srv_inv (ActorServer 7)" "as_pid (ActorServer 7) = hd [7]" "as_intra (ActorServer 7) = None" "as_sent (ActorServer 7) = []"
    by (simp_all add: srv_inv_init) (simp_all add: ActorServer_def)
  have ne: "[7 :: c_int] \<noteq> []" by simp
  show ?thesis
    using prefetch_races_with_start [OF ok sent ne srv(1-3), of plain_env 3 ActorMessage0 "(0, 1)" Map.empty "[]" "[]"] sent srv(4)
    by (elim exE conjE) (intro exI conjI; simp)
qed

text \<open>
  The check of the thread level is the wrong way round: a level of MPI that is too low
  passes, a level higher than needed aborts the program.
\<close>

theorem thread_level_check_inverted:
  "activebsp_init env requested provided flag 0 msgs = (if requested < provided flag then Inl Mpi_error else Inr None)"
  by (simp add: activebsp_init_def MPIWrapper_init_def)

end
