(* ===== verification/Spmd_Group.thy ===== *)
theory Spmd_Group
  imports Actor_Process
begin

text \<open>
  What the actors of src/src/examples/imgproc share: the processes of an actor as a list in the order
  of \<^verbatim>\<open>bsp_pid()\<close>, one-sided puts that take effect at the next \<^verbatim>\<open>bsp_sync\<close>, the broadcast of a member
  that is a description, reading a range of a vector through the library, and the conversions
  \<^verbatim>\<open>%d\<close> and \<^verbatim>\<open>%zu\<close> of \<^verbatim>\<open>sprintf\<close>.
\<close>

section \<open>Printing of numbers\<close>

text \<open>A string literal as bytes.\<close>

definition chars :: "string \<Rightarrow> byte list" where
  "chars s = map of_char s"

fun decimal :: "nat \<Rightarrow> byte list" where
  "decimal n = (if n < 10 then [of_nat (48 + n)] else decimal (n div 10) @ [of_nat (48 + n mod 10)])"

declare decimal.simps [simp del]

definition format_size :: "size_t \<Rightarrow> byte list" where
  "format_size n = decimal (unat n)"

definition format_int :: "c_int \<Rightarrow> byte list" where
  "format_int n = (if sint n < 0 then 45 # decimal (nat (- sint n)) else decimal (nat (sint n)))"

definition digit_value :: "byte \<Rightarrow> nat" where
  "digit_value b = unat b - 48"

definition is_digit :: "byte \<Rightarrow> bool" where
  "is_digit b \<longleftrightarrow> 48 \<le> unat b \<and> unat b \<le> 57"

definition undecimal :: "byte list \<Rightarrow> nat" where
  "undecimal bs = foldl (\<lambda>n b. 10 * n + digit_value b) 0 bs"

lemma unat_digit: "n < 10 \<Longrightarrow> unat (of_nat (48 + n) :: byte) = 48 + n"
  by (simp add: unat_of_nat take_bit_nat_eq_self_iff del: of_nat_add)

lemma is_digit_of_nat [simp]: "n < 10 \<Longrightarrow> is_digit (of_nat (48 + n))"
  by (simp add: is_digit_def unat_digit del: of_nat_add)

lemma digit_value_of_nat [simp]: "n < 10 \<Longrightarrow> digit_value (of_nat (48 + n)) = n"
  by (simp add: digit_value_def unat_digit del: of_nat_add)

lemma decimal_digits: "b \<in> set (decimal n) \<Longrightarrow> is_digit b"
proof (induction n rule: decimal.induct)
  case (1 n)
  from "1.prems" have "is_digit b \<or> (\<not> n < 10 \<and> b \<in> set (decimal (n div 10)))"
    by (subst (asm) decimal.simps) (auto split: if_splits simp del: of_nat_add)
  then show ?case using "1.IH" by blast
qed

lemma decimal_not_Nil [simp]: "decimal n \<noteq> []"
  by (subst decimal.simps) simp

lemma undecimal_decimal [simp]: "undecimal (decimal n) = n"
proof (induction n rule: decimal.induct)
  case (1 n)
  show ?case
  proof (cases "n < 10")
    case True
    then show ?thesis by (subst decimal.simps) (simp add: undecimal_def del: of_nat_add)
  next
    case False
    then have "undecimal (decimal n) = 10 * undecimal (decimal (n div 10)) + n mod 10"
      by (subst decimal.simps) (simp add: undecimal_def del: of_nat_add)
    then show ?thesis using "1.IH" False by simp
  qed
qed

lemma decimal_inject [simp]: "decimal m = decimal n \<longleftrightarrow> m = n"
  by (metis undecimal_decimal)

text \<open>Two numbers in front of a character that is no digit.\<close>

lemma decimal_prefix_inject:
  assumes "decimal m @ c # xs = decimal n @ c # ys" and "\<not> is_digit c"
  shows "m = n \<and> xs = ys"
proof -
  have tw: "takeWhile is_digit (decimal k @ c # zs) = decimal k" for k zs
    using assms(2) decimal_digits by (simp add: takeWhile_append2)
  from assms(1) have "decimal m = decimal n" by (metis tw)
  with assms(1) show ?thesis by simp
qed

lemma length_decimal: "n < 10 ^ k \<Longrightarrow> 0 < k \<Longrightarrow> length (decimal n) \<le> k"
proof (induction n arbitrary: k rule: decimal.induct)
  case (1 n)
  show ?case
  proof (cases "n < 10")
    case True
    then show ?thesis using "1.prems" by (subst decimal.simps) simp
  next
    case False
    obtain j where k: "k = Suc j" using "1.prems" by (cases k) simp_all
    with "1.prems" False have j: "0 < j" by (cases j) simp_all
    have "n div 10 < 10 ^ j" using "1.prems" k by (simp add: less_mult_imp_div_less mult.commute)
    then have "length (decimal (n div 10)) \<le> j" using "1.IH" [OF False _ j] by blast
    then show ?thesis using k False by (subst decimal.simps) simp
  qed
qed

section \<open>Puts\<close>

text \<open>
  \<^verbatim>\<open>bsp_put(pid, src, dst, offset, nbytes)\<close> of all processes of a superstep, carried out at its end
  on the areas registered under \<^verbatim>\<open>dst\<close>: outside of the area is an error.
\<close>

type_synonym bsp_put = "c_int \<times> nat \<times> byte list"

definition bsp_deliver1 :: "bsp_put \<Rightarrow> byte list list \<Rightarrow> byte list list result" where
  "bsp_deliver1 = (\<lambda>(d, off, bs) regs.
     if 0 \<le> sint d \<and> nat (sint d) < length regs
     then bindE (mem_write off bs (regs ! nat (sint d))) (\<lambda>r. Inr (regs[nat (sint d) := r]))
     else Inl Out_of_bounds)"

definition bsp_deliver :: "bsp_put list \<Rightarrow> byte list list \<Rightarrow> byte list list result" where
  "bsp_deliver = foldE bsp_deliver1"

text \<open>Every process puts its value into the element of its pid of an array of every process.\<close>

definition all_to_all :: "'v list \<Rightarrow> 'v list \<Rightarrow> 'v list result" where
  "all_to_all vals buf =
     foldE (\<lambda>(i, v) b. if i < length b then Inr (b[i := v]) else Inl Out_of_bounds) (enumerate 0 vals) buf"

lemma all_to_all_from:
  assumes "length before = k" and "length buf = length vals"
  shows "foldE (\<lambda>(i, v) b. if i < length b then Inr (b[i := v]) else Inl Out_of_bounds) (enumerate k vals)
    (before @ buf) = Inr (before @ vals)"
  using assms
proof (induction vals arbitrary: k before buf)
  case Nil
  then show ?case by simp
next
  case (Cons v vals)
  then obtain c buf' where buf: "buf = c # buf'" by (cases buf) auto
  have "foldE (\<lambda>(i, v) b. if i < length b then Inr (b[i := v]) else Inl Out_of_bounds) (enumerate (Suc k) vals)
    ((before @ [v]) @ buf') = Inr ((before @ [v]) @ vals)"
    using Cons.prems buf by (intro Cons.IH) simp_all
  then show ?case using Cons.prems buf by (simp add: enumerate_simps list_update_append)
qed

lemma all_to_all_eq: "length buf = length vals \<Longrightarrow> all_to_all vals buf = Inr vals"
  using all_to_all_from [of "[]" 0 buf vals] by (simp add: all_to_all_def)

text \<open>Pieces that follow each other and cover a buffer replace it.\<close>

lemma tiles_after: "tiles off ws \<Longrightarrow> w \<in> set ws \<Longrightarrow> off \<le> fst w \<and> fst w + length (snd w) \<le> off + length (concat (map snd ws))"
  by (induction ws arbitrary: off) fastforce+

lemma tiles_layout:
  assumes "tiles off ws" and "off + length (concat (map snd ws)) \<le> n"
  shows "layout n ws"
  using assms
proof (induction ws arbitrary: off)
  case Nil
  then show ?case by simp
next
  case (Cons w ws)
  have "\<forall>v\<in>set ws. apart w v"
    using Cons.prems(1) tiles_after [of "off + length (snd w)" ws] by (auto simp: apart_def)
  moreover have "layout n ws" using Cons.prems by (intro Cons.IH [of "off + length (snd w)"]) simp_all
  ultimately show ?case using Cons.prems by simp
qed

lemma writes_tiles:
  assumes "tiles 0 ws" and "length buf = length (concat (map snd ws))"
  shows "writes ws buf = Inr (concat (map snd ws))"
proof -
  obtain buf' where b: "writes ws buf = Inr buf'" "length buf' = length buf"
    "\<forall>w\<in>set ws. peek (fst w) (length (snd w)) buf' = snd w"
    using writes_layout [of buf ws] tiles_layout [OF assms(1), of "length buf"] assms(2) by auto
  from tiles_take [OF assms(1) b(3)] b assms(2) show ?thesis by simp
qed

lemma bsp_deliver_one:
  assumes "0 \<le> sint d" and "nat (sint d) < length regs"
  shows "bsp_deliver (map (Pair d) ws) regs =
    bindE (writes ws (regs ! nat (sint d))) (\<lambda>r. Inr (regs[nat (sint d) := r]))"
  using assms(2)
proof (induction ws arbitrary: regs)
  case Nil
  then show ?case by (simp add: bsp_deliver_def)
next
  case (Cons w ws)
  obtain off bs where w: "w = (off, bs)" by (cases w)
  show ?case
  proof (cases "mem_write off bs (regs ! nat (sint d))")
    case (Inl e)
    then show ?thesis using w Cons.prems assms(1) by (simp add: bsp_deliver_def bsp_deliver1_def)
  next
    case (Inr r)
    then show ?thesis using w Cons.prems assms(1) Cons.IH [of "regs[nat (sint d) := r]"]
      by (simp add: bsp_deliver_def bsp_deliver1_def)
  qed
qed

lemma bsp_deliver_tiles:
  assumes "d < length regs" and "d < 2 ^ 31" and "tiles 0 ws" and "length (regs ! d) = length (concat (map snd ws))"
  shows "bsp_deliver (map (Pair (of_nat d)) ws) regs = Inr (regs[d := concat (map snd ws)])"
  using assms by (simp add: bsp_deliver_one writes_tiles)

text \<open>The blocks of the processes follow each other.\<close>

lemma tiles_snoc: "tiles off (ws @ [w]) \<longleftrightarrow> tiles off ws \<and> fst w = off + length (concat (map snd ws))"
  by (induction ws arbitrary: off) (simp_all add: add.assoc)

lemma tiles_blocks:
  assumes "\<And>s. s < k \<Longrightarrow> length (bs s) = block_size n p s"
  shows "tiles 0 (map (\<lambda>s. (block_begin n p s, bs s)) [0..<k]) \<and>
    length (concat (map bs [0..<k])) = block_begin n p k"
  using assms
proof (induction k)
  case 0
  then show ?case by simp
next
  case (Suc k)
  have "map snd (map (\<lambda>s. (block_begin n p s, bs s)) [0..<k]) = map bs [0..<k]" by simp
  with Suc show ?case by (simp add: tiles_snoc block_begin_Suc comp_def)
qed

text \<open>Every process gets one put that fills its area.\<close>

lemma bsp_deliver_each:
  assumes "length regs < 2 ^ 31" and "\<forall>s<length regs. length (regs ! s) = length (bs s)" and "k \<le> length regs"
  shows "bsp_deliver (map (\<lambda>s. (of_nat s, 0, bs s)) [0..<k]) regs = Inr (map bs [0..<k] @ drop k regs)"
  using assms(3)
proof (induction k)
  case 0
  then show ?case by (simp add: bsp_deliver_def)
next
  case (Suc k)
  let ?regs = "map bs [0..<k] @ drop k regs"
  have k: "k < length regs" "k < 2 ^ 31" using Suc.prems assms(1) by simp_all
  have nth: "?regs ! k = regs ! k" using k by (simp add: nth_append)
  have "mem_write 0 (bs k) (regs ! k) = Inr (bs k)" using assms(2) k by (simp add: mem_write_def poke_def)
  then have "bsp_deliver1 (of_nat k, 0, bs k) ?regs = Inr (?regs[k := bs k])"
    using k nth by (simp add: bsp_deliver1_def)
  moreover have "?regs[k := bs k] = map bs [0..<Suc k] @ drop (Suc k) regs"
    using k by (simp add: list_update_append Cons_nth_drop_Suc [symmetric])
  moreover have "bsp_deliver (map (\<lambda>s. (of_nat s, 0, bs s)) [0..<k]) regs = Inr ?regs" using Suc by simp
  ultimately show ?case by (simp add: bsp_deliver_def foldE_append)
qed

lemma bsp_deliver_poke:
  assumes "length regs < 2 ^ 31" and "\<forall>s<length regs. length (bs s) \<le> length (regs ! s)" and "k \<le> length regs"
  shows "bsp_deliver (map (\<lambda>s. (of_nat s, 0, bs s)) [0..<k]) regs = Inr (map (\<lambda>s. poke 0 (bs s) (regs ! s)) [0..<k] @ drop k regs)"
  using assms(3)
proof (induction k)
  case 0
  then show ?case by (simp add: bsp_deliver_def)
next
  case (Suc k)
  let ?regs = "map (\<lambda>s. poke 0 (bs s) (regs ! s)) [0..<k] @ drop k regs"
  have k: "k < length regs" "k < 2 ^ 31" using Suc.prems assms(1) by simp_all
  have nth: "?regs ! k = regs ! k" using k by (simp add: nth_append)
  have "mem_write 0 (bs k) (regs ! k) = Inr (poke 0 (bs k) (regs ! k))" using assms(2) k by (simp add: mem_write_def)
  then have "bsp_deliver1 (of_nat k, 0, bs k) ?regs = Inr (?regs[k := poke 0 (bs k) (regs ! k)])"
    using k nth by (simp add: bsp_deliver1_def)
  moreover have "?regs[k := poke 0 (bs k) (regs ! k)] = map (\<lambda>s. poke 0 (bs s) (regs ! s)) [0..<Suc k] @ drop (Suc k) regs"
    using k by (simp add: list_update_append Cons_nth_drop_Suc [symmetric])
  moreover have "bsp_deliver (map (\<lambda>s. (of_nat s, 0, bs s)) [0..<k]) regs = Inr ?regs" using Suc by simp
  ultimately show ?case by (simp add: bsp_deliver_def foldE_append)
qed

text \<open>A loop in a loop is a loop over all pairs.\<close>

lemma foldE_concat: "foldE (\<lambda>x. foldE f (g x)) xs s = foldE f (concat (map g xs)) s"
  by (induction xs arbitrary: s) (simp_all add: foldE_append bindE_def split: sum.split)

lemma foldE_map: "foldE f (map g xs) s = foldE (\<lambda>x. f (g x)) xs s"
  by (induction xs arbitrary: s) (simp_all add: bindE_def split: sum.split)

section \<open>Broadcast of a member\<close>

text \<open>\<^verbatim>\<open>broadcast_dv(_dv)\<close> on all processes of the actor.\<close>

definition broadcast_member ::
  "('o \<Rightarrow> vector_distribution) \<Rightarrow> (vector_distribution \<Rightarrow> 'o \<Rightarrow> 'o) \<Rightarrow> 'o actor_base list \<Rightarrow> 'o actor_base list result"
where
  "broadcast_member dv_of put_dv ps =
     bindE (broadcast_dv (map (\<lambda>a. (dv_of (ab_obj a), a)) ps)) (\<lambda>qs.
       Inr (map (\<lambda>(dv, a). a\<lparr>ab_obj := put_dv dv (ab_obj a)\<rparr>) qs))"

text \<open>What a broadcast leaves alone.\<close>

definition actor_frame :: "'o actor_base \<Rightarrow>
  c_int \<times> c_int \<times> c_int \<times> c_int \<times> actor_message \<times> mpi_message list \<times> c_int \<times> vector_distribution \<times> (c_int \<rightharpoonup> vector_distribution)"
where
  "actor_frame a = (ab_pid a, ab_nprocs a, ab_node a, ab_next_key a, ab_send_buf a, ab_sent a, ab_reqId a,
     ab_cur_vector_distribution a, ab_RequestDistrVectors a)"

lemma actor_frame_simps [simp]:
  "actor_frame (base_sync a) = actor_frame a" "actor_frame (a\<lparr>ab_obj := obj\<rparr>) = actor_frame a"
  "actor_frame (a\<lparr>ab_dv_buf := buf\<rparr>) = actor_frame a" "actor_frame (a\<lparr>ab_dv_buf_nelems := k\<rparr>) = actor_frame a"
  "actor_frame (a\<lparr>ab_dv_buf := buf, ab_dv_buf_registered := r\<rparr>) = actor_frame a"
  by (simp_all add: actor_frame_def base_sync_def)

lemma mapE_enumerate_map:
  assumes "mapE (\<lambda>(s, p). f s p) (enumerate k ps) = Inr qs" and "\<And>s p q. f s p = Inr q \<Longrightarrow> h q = g p"
  shows "map h qs = map g ps"
  using assms(1)
proof (induction ps arbitrary: k qs)
  case Nil
  then show ?case by simp
next
  case (Cons p ps)
  then show ?case using assms(2) by (auto simp: enumerate_simps result_simps)
qed

lemma mapE_map: "mapE f (map g xs) = mapE (f \<circ> g) xs"
  by (induction xs) simp_all

lemma broadcast_dv_frame:
  assumes "broadcast_dv ps = Inr qs"
  shows "map (\<lambda>q. actor_frame (snd q)) qs = map (\<lambda>p. actor_frame (snd p)) ps"
proof -
  from assms obtain ps1 ps2 where h: "broadcast_header ps = Inr ps1"
    and r: "mapE (\<lambda>(s, p). broadcast_room s p) (enumerate 0 ps1) = Inr ps2"
    unfolding broadcast_dv_def by blast
  have q: "ps2 = [] \<and> qs = [] \<or> (\<exists>hb reg. mapE (\<lambda>(s, p). broadcast_fetch hb reg s p) (enumerate 0 ps2) = Inr qs)"
    using assms h r by (cases ps2) (fastforce simp: broadcast_dv_def simp del: enumerate_simps mapE.simps split: if_splits)+
  have "map (\<lambda>p. actor_frame (snd p)) ps1 = map (\<lambda>p. actor_frame (snd p)) ps"
  proof -
    obtain ns where ns: "mapE (\<lambda>(dv, a). nparts dv) ps = Inr ns" using h by (auto simp: broadcast_header_def)
    then have "length ns = length ps" by (rule mapE_length)
    then show ?thesis using h ns by (auto simp: broadcast_header_def split: list.splits)
  qed
  moreover have "map (\<lambda>p. actor_frame (snd p)) ps2 = map (\<lambda>p. actor_frame (snd p)) ps1"
    using r by (rule mapE_enumerate_map) (auto simp: broadcast_room_def result_simps split: if_splits)
  moreover have "map (\<lambda>p. actor_frame (snd p)) qs = map (\<lambda>p. actor_frame (snd p)) ps2"
    using q by (auto elim!: mapE_enumerate_map simp: broadcast_fetch_def result_simps split: if_splits)
  ultimately show ?thesis by simp
qed

text \<open>The processes of an actor are in step.\<close>

definition step_view :: "'o actor_base \<Rightarrow> nat \<times> nat \<times> nat" where
  "step_view a = (length (ab_dv_buf a), ab_dv_buf_registered a, ab_syncs a)"

definition group_in_step :: "'o actor_base list \<Rightarrow> bool" where
  "group_in_step ps \<longleftrightarrow> (\<exists>len syncs. len < 2 ^ 31 \<and> (\<forall>a\<in>set ps. step_view a = (len, len, syncs)))"

lemma broadcast_member_eq:
  assumes step: "group_in_step ps" and ps: "ps = a # rest" and dv: "dv_of (ab_obj a) = vd_bytes parts" and small: "vd_small (length parts)"
    and defined: "\<forall>b\<in>set ps. \<exists>n. nparts (dv_of (ab_obj b)) = Inr n"
  shows "\<exists>qs. broadcast_member dv_of put_dv ps = Inr qs \<and> group_in_step qs \<and> map actor_frame qs = map actor_frame ps \<and>
    map ab_obj qs = map (\<lambda>b. put_dv (vd_bytes parts) (ab_obj b)) ps"
proof -
  let ?ps = "map (\<lambda>b. (dv_of (ab_obj b), b)) ps"
  obtain len syncs where inv: "group_inv len syncs ?ps"
    using step defined by (fastforce simp: group_in_step_def group_inv_def step_view_def)
  have eq: "?ps = (vd_bytes parts, a) # map (\<lambda>b. (dv_of (ab_obj b), b)) rest" using ps dv by simp
  obtain qs syncs' where q: "broadcast_dv ?ps = Inr qs" "\<forall>q\<in>set qs. fst q = vd_bytes parts"
    "map (\<lambda>q. ab_obj (snd q)) qs = map (\<lambda>p. ab_obj (snd p)) ?ps" "group_inv (max len (8 + 24 * length parts)) syncs' qs"
    using broadcast_same_description [OF eq small inv] by (elim exE conjE) (rule that)
  define qs' where "qs' = map (\<lambda>(dv, a). a\<lparr>ab_obj := put_dv dv (ab_obj a)\<rparr>) qs"
  have "group_in_step qs'"
    using q(4) unfolding group_in_step_def qs'_def group_inv_def step_view_def
    by (intro exI [of _ "max len (8 + 24 * length parts)"] exI [of _ syncs']) auto
  moreover have "map actor_frame qs' = map actor_frame ps"
    using broadcast_dv_frame [OF q(1)] by (simp add: qs'_def comp_def case_prod_beta)
  moreover have "map ab_obj qs' = map (\<lambda>b. put_dv (vd_bytes parts) (ab_obj b)) ps"
  proof -
    have "map ab_obj qs' = map (put_dv (vd_bytes parts)) (map (\<lambda>q. ab_obj (snd q)) qs)"
      using q(2) by (auto simp: qs'_def)
    then show ?thesis using q(3) by (simp add: comp_def)
  qed
  ultimately show ?thesis using q(1) by (auto simp: broadcast_member_def qs'_def)
qed

section \<open>Reading through the library\<close>

text \<open>
  What a user of \<^verbatim>\<open>dv_get_part\<close> relies on: a range of a vector that lies inside of it fills the
  buffer. \<open>holds dv v\<close>: the processes hold the bytes \<open>v\<close> under the description \<open>dv\<close>.
\<close>

definition reads_vector :: "reader \<Rightarrow> vector_distribution \<Rightarrow> byte list \<Rightarrow> bool" where
  "reads_vector read dv v \<longleftrightarrow> length v < 2 ^ 31 \<and> (\<forall>from n out. from + n \<le> length v \<longrightarrow> length out = n \<longrightarrow>
     (\<exists>sent. read dv (of_nat from) (of_nat n) out = Inr (sent, peek from n v)))"

locale range_reader =
  fixes read :: reader and holds :: "vector_distribution \<Rightarrow> byte list \<Rightarrow> bool"
  assumes read_range: "holds dv v \<Longrightarrow> from + n \<le> length v \<Longrightarrow> length out = n \<Longrightarrow>
    \<exists>sent. read dv (of_nat from) (of_nat n) out = Inr (sent, peek from n v)"
    and holds_small: "holds dv v \<Longrightarrow> length v < 2 ^ 31"
begin

lemma reads: "holds dv v \<Longrightarrow> reads_vector read dv v"
  using read_range holds_small by (simp add: reads_vector_def)

end

lemma reads_block:
  assumes "reads_vector read dv v" and "s < p" and "length out = block_size (length v) p s"
  shows "\<exists>sent. read dv (of_nat (block_begin (length v) p s)) (of_nat (block_size (length v) p s)) out =
    Inr (sent, peek (block_begin (length v) p s) (block_size (length v) p s) v)"
  using assms block_size_le [OF assms(2)] by (simp add: reads_vector_def)

lemma describes_end:
  assumes "describes parts v"
  shows "vec_end parts = of_nat (length v)" and "vd_small (length parts)"
proof -
  show "vd_small (length parts)" using assms by (simp add: describes_def)
  have n: "length v < 2 ^ 31" and le: "\<And>part. part \<in> set parts \<Longrightarrow> unat (vp_offset part) + unat (vp_size part) \<le> length v"
    using assms by (auto simp: describes_def)
  have pe: "unat (part_end part) = unat (vp_offset part) + unat (vp_size part)" if "part \<in> set parts" for part
  proof -
    have "unat (vp_offset part) + unat (vp_size part) < 2 ^ 64" using le [OF that] n by simp
    then show ?thesis by (simp add: part_end_def unat_word_ariths)
  qed
  let ?S = "insert 0 (part_end ` set parts)"
  have upper: "x \<le> of_nat (length v)" if "x \<in> ?S" for x
    using that le pe n by (auto simp: word_le_nat_alt)
  have "of_nat (length v) \<in> ?S"
  proof (cases "v = []")
    case False
    then have "length v - 1 < length v" by simp
    then obtain part where part: "part \<in> set parts" "length v - 1 < unat (vp_offset part) + unat (vp_size part)"
      using assms unfolding describes_def by blast
    then have "unat (part_end part) = length v" using le [OF part(1)] pe [OF part(1)] by linarith
    then have "of_nat (unat (part_end part)) = (of_nat (length v) :: size_t)" by simp
    then have "part_end part = of_nat (length v)" by simp
    then show ?thesis using part(1) by (metis image_eqI insertI2)
  qed simp
  then show "vec_end parts = of_nat (length v)" unfolding vec_end_def by (intro Max_eqI) (use upper in auto)
qed

text \<open>The library's own reader, on servers that answer.\<close>

definition vector_held ::
  "(c_int \<Rightarrow> actor_server) \<Rightarrow> c_int \<Rightarrow> (nat \<Rightarrow> data_store list) \<Rightarrow> vector_distribution \<Rightarrow> byte list \<Rightarrow> bool"
where
  "vector_held servers self stores dv v \<longleftrightarrow> (\<exists>parts. dv = vd_bytes parts \<and> describes parts v \<and>
     12 + 32 * length parts < 2 ^ 31 \<and> (\<forall>s. srv_inv (servers s)) \<and>
     (\<forall>part\<in>set parts. held (servers (vp_pid part)) (vp_resid part) = Some (part_bytes_of v part)) \<and>
     (\<forall>i<length parts. vp_pid (parts ! i) = self \<longrightarrow>
       (\<exists>before later. stores i = before @ as_dataStore (servers self) # later \<and>
         (\<forall>d\<in>set before. getPartData (vp_resid (parts ! i)) d = Inr (None, 0)))))"

interpretation absp: range_reader
  "absp_dv_get_part blocks self base stores (Vector_Access.served envs servers self)" "vector_held servers self stores"
  for blocks self base stores envs servers
proof unfold_locales
  fix dv v "from" n and out :: "byte list"
  assume held: "vector_held servers self stores dv v" and rng: "from + n \<le> length v" "length out = n"
  obtain parts where parts: "dv = vd_bytes parts" "describes parts v" "12 + 32 * length parts < 2 ^ 31"
    "\<forall>s. srv_inv (servers s)"
    "\<forall>part\<in>set parts. held (servers (vp_pid part)) (vp_resid part) = Some (part_bytes_of v part)"
    "\<forall>i<length parts. vp_pid (parts ! i) = self \<longrightarrow>
       (\<exists>before later. stores i = before @ as_dataStore (servers self) # later \<and>
         (\<forall>d\<in>set before. getPartData (vp_resid (parts ! i)) d = Inr (None, 0)))"
    using held unfolding vector_held_def by blast
  from dv_get_part_held [OF parts(2) rng parts(3-6)]
  show "\<exists>sent. absp_dv_get_part blocks self base stores (Vector_Access.served envs servers self) dv (of_nat from) (of_nat n) out =
    Inr (sent, peek from n v)"
    unfolding absp_dv_get_part_def parts(1) by blast
next
  fix dv v assume "vector_held servers self stores dv v"
  then show "length v < 2 ^ 31" by (auto simp: vector_held_def describes_def)
qed

text \<open>Every process can read a vector that is stored, from its own server what its own server holds.\<close>

definition vector_stored :: "(c_int \<Rightarrow> actor_server) \<Rightarrow> vector_distribution \<Rightarrow> byte list \<Rightarrow> bool" where
  "vector_stored servers dv v \<longleftrightarrow> (\<exists>parts. dv = vd_bytes parts \<and> describes parts v \<and> 12 + 32 * length parts < 2 ^ 31 \<and>
     (\<forall>s. srv_inv (servers s)) \<and> (\<forall>part\<in>set parts. held (servers (vp_pid part)) (vp_resid part) = Some (part_bytes_of v part)))"

definition process_reader ::
  "(nat \<Rightarrow> block) \<Rightarrow> size_t \<Rightarrow> (c_int \<Rightarrow> server_env) \<Rightarrow> (c_int \<Rightarrow> actor_server) \<Rightarrow> c_int \<Rightarrow> reader"
where
  "process_reader blocks base envs servers self =
     absp_dv_get_part blocks self base (\<lambda>_. [as_dataStore (servers self)]) (Vector_Access.served envs servers self)"

lemma vector_stored_held:
  "vector_stored servers dv v \<Longrightarrow> vector_held servers self (\<lambda>_. [as_dataStore (servers self)]) dv v"
proof -
  assume "vector_stored servers dv v"
  then obtain parts where p: "dv = vd_bytes parts" "describes parts v" "12 + 32 * length parts < 2 ^ 31" "\<forall>s. srv_inv (servers s)"
    "\<forall>part\<in>set parts. held (servers (vp_pid part)) (vp_resid part) = Some (part_bytes_of v part)"
    unfolding vector_stored_def by blast
  have "\<exists>before later. [as_dataStore (servers self)] = before @ as_dataStore (servers self) # later \<and>
      (\<forall>d\<in>set before. getPartData key d = Inr (None, 0))" for key
    by (intro exI [of _ "[]"]) simp
  then show ?thesis using p unfolding vector_held_def by blast
qed

lemma process_reader_reads: "vector_stored servers dv v \<Longrightarrow> reads_vector (process_reader blocks base envs servers self) dv v"
  unfolding process_reader_def by (rule absp.reads [OF vector_stored_held])

lemma vector_storedE:
  assumes "vector_stored servers dv v"
  obtains parts where "dv = vd_bytes parts" "describes parts v" "vd_small (length parts)" "vec_end parts = of_nat (length v)"
  using assms describes_end unfolding vector_stored_def by blast

section \<open>Supersteps\<close>

lemma pid_inject: "s < 2 ^ 31 \<Longrightarrow> t < 2 ^ 31 \<Longrightarrow> (of_nat s :: c_int) = of_nat t \<longleftrightarrow> s = t"
proof
  assume "s < 2 ^ 31" "t < 2 ^ 31" "(of_nat s :: c_int) = of_nat t"
  then have "unat (of_nat s :: c_int) = unat (of_nat t :: c_int)" by simp
  then show "s = t" using \<open>s < 2 ^ 31\<close> \<open>t < 2 ^ 31\<close> by (subst (asm) (1 2) unat_int_of_nat) simp_all
qed simp

text \<open>
  The local part of a superstep on every process, with its pid; the synchronisation; and
  what only the head does between two calls of \<^verbatim>\<open>bsp_run\<close>.
\<close>

definition on_all :: "(nat \<Rightarrow> 'o \<Rightarrow> 'o result) \<Rightarrow> 'o actor_base list \<Rightarrow> 'o actor_base list result" where
  "on_all f ps = mapE (\<lambda>(s, a). bindE (f s (ab_obj a)) (\<lambda>obj. Inr (a\<lparr>ab_obj := obj\<rparr>))) (enumerate 0 ps)"

definition sync_all :: "'o actor_base list \<Rightarrow> 'o actor_base list" where
  "sync_all ps = map base_sync ps"

fun upd_head :: "('o \<Rightarrow> 'o) \<Rightarrow> 'o actor_base list \<Rightarrow> 'o actor_base list" where
  "upd_head f [] = []"
| "upd_head f (a # ps) = a\<lparr>ab_obj := f (ab_obj a)\<rparr> # ps"

text \<open>\<^verbatim>\<open>bsp_get(0, &m, 0, &m, sizeof(m))\<close> on every process but the head, for the members \<open>copy\<close> copies.\<close>

definition get_from_head :: "('o \<Rightarrow> 'o \<Rightarrow> 'o) \<Rightarrow> 'o actor_base list \<Rightarrow> 'o actor_base list" where
  "get_from_head copy ps = (case ps of [] \<Rightarrow> []
     | a # rest \<Rightarrow> sync_all (a # map (\<lambda>b. b\<lparr>ab_obj := copy (ab_obj a) (ab_obj b)\<rparr>) rest))"

text \<open>\<^verbatim>\<open>dv_get_part\<close> on every process into a member; \<open>what\<close> computes its arguments.\<close>

definition read_all_parts ::
  "(nat \<Rightarrow> reader) \<Rightarrow> (nat \<Rightarrow> 'o \<Rightarrow> (vector_distribution \<times> size_t \<times> size_t \<times> byte list) result) \<Rightarrow> (byte list \<Rightarrow> 'o \<Rightarrow> 'o) \<Rightarrow>
    'o actor_base list \<Rightarrow> 'o actor_base list result"
where
  "read_all_parts reads what put_buf ps = mapE (\<lambda>(s, a).
     bindE (what s (ab_obj a)) (\<lambda>(dv, off, sz, buf).
       bindE (reads s dv off sz buf) (\<lambda>(sent, buf').
         Inr (a\<lparr>ab_obj := put_buf buf' (ab_obj a), ab_sent := ab_sent a @ sent\<rparr>)))) (enumerate 0 ps)"

text \<open>\<^verbatim>\<open>std::vector::resize\<close>.\<close>

definition vec_resize :: "nat \<Rightarrow> 'v \<Rightarrow> 'v list \<Rightarrow> 'v list" where
  "vec_resize n z xs = take n xs @ replicate (n - length xs) z"

lemma length_vec_resize [simp]: "length (vec_resize n z xs) = n"
  by (simp add: vec_resize_def)

text \<open>The objects of the processes, in order, are all the steps act on.\<close>

abbreviation objs :: "'o actor_base list \<Rightarrow> 'o list" where
  "objs \<equiv> map ab_obj"

lemma objs_sync_all [simp]: "objs (sync_all ps) = objs ps"
  by (simp add: sync_all_def base_sync_def)

lemma length_sync_all [simp]: "length (sync_all ps) = length ps"
  by (simp add: sync_all_def)

lemma objs_upd_head [simp]: "objs (upd_head f ps) = (case objs ps of [] \<Rightarrow> [] | x # xs \<Rightarrow> f x # xs)"
  by (cases ps) simp_all

lemma enumerate_upt: "enumerate 0 xs = map (\<lambda>s. (s, xs ! s)) [0..<length xs]"
  by (rule nth_equalityI) (simp_all add: nth_enumerate_eq)

lemma step_view_simps [simp]:
  "step_view (a\<lparr>ab_obj := obj\<rparr>) = step_view a" "step_view (a\<lparr>ab_obj := obj, ab_sent := sent\<rparr>) = step_view a"
  by (simp_all add: step_view_def)

lemma in_step_iff:
  "group_in_step ps \<longleftrightarrow> (\<exists>len syncs. len < 2 ^ 31 \<and> (\<forall>x\<in>set (map step_view ps). x = (len, len, syncs)))"
  by (simp add: group_in_step_def)

lemma in_step_view: "map step_view qs = map step_view ps \<Longrightarrow> group_in_step ps \<Longrightarrow> group_in_step qs"
  by (simp only: in_step_iff)

lemma in_step_sync [simp]: "group_in_step ps \<Longrightarrow> group_in_step (sync_all ps)"
  by (auto simp: group_in_step_def sync_all_def step_view_def base_sync_def)

lemma in_step_upd_head [simp]: "group_in_step ps \<Longrightarrow> group_in_step (upd_head f ps)"
  by (rule in_step_view [of _ ps]) (cases ps, simp_all)

lemma on_all_eq:
  assumes "\<And>s. s < length ps \<Longrightarrow> f s (objs ps ! s) = Inr (g s (objs ps ! s))"
  shows "\<exists>qs. on_all f ps = Inr qs \<and> objs qs = map (\<lambda>s. g s (objs ps ! s)) [0..<length ps] \<and>
    map step_view qs = map step_view ps"
proof -
  have "on_all f ps = Inr (map (\<lambda>(s, a). a\<lparr>ab_obj := g s (ab_obj a)\<rparr>) (enumerate 0 ps))"
    unfolding on_all_def using assms by (intro mapE_eq_map) (auto simp: in_set_enumerate_eq)
  moreover have "objs (map (\<lambda>(s, a). a\<lparr>ab_obj := g s (ab_obj a)\<rparr>) (enumerate 0 ps)) = map (\<lambda>s. g s (objs ps ! s)) [0..<length ps]"
    by (rule nth_equalityI) (simp_all add: nth_enumerate_eq)
  moreover have "map step_view (map (\<lambda>(s, a). a\<lparr>ab_obj := g s (ab_obj a)\<rparr>) (enumerate 0 ps)) = map step_view ps"
    by (rule nth_equalityI) (simp_all add: nth_enumerate_eq)
  ultimately show ?thesis by blast
qed

lemma on_all_frame: "on_all f ps = Inr qs \<Longrightarrow> map actor_frame qs = map actor_frame ps"
  unfolding on_all_def by (erule mapE_enumerate_map) (auto simp: result_simps)

lemma sync_all_frame [simp]: "map actor_frame (sync_all ps) = map actor_frame ps"
  by (simp add: sync_all_def)

lemma upd_head_frame [simp]: "map actor_frame (upd_head f ps) = map actor_frame ps"
  by (cases ps) simp_all

lemma get_from_head_frame [simp]: "map actor_frame (get_from_head copy ps) = map actor_frame ps"
  by (cases ps) (simp_all add: get_from_head_def comp_def)

text \<open>The same with any relation between the objects before and after.\<close>

lemma on_all_ex:
  assumes "\<And>s. s < length ps \<Longrightarrow> \<exists>o1. f s (objs ps ! s) = Inr o1 \<and> R s o1"
  shows "\<exists>qs. on_all f ps = Inr qs \<and> length qs = length ps \<and> (\<forall>s<length ps. R s (objs qs ! s)) \<and>
    map step_view qs = map step_view ps \<and> map actor_frame qs = map actor_frame ps"
proof -
  obtain g where g: "\<And>s. s < length ps \<Longrightarrow> f s (objs ps ! s) = Inr (g s) \<and> R s (g s)" using assms by metis
  from on_all_eq [of ps f "\<lambda>s o1. g s"] g
  obtain qs where q: "on_all f ps = Inr qs" "objs qs = map g [0..<length ps]" "map step_view qs = map step_view ps" by auto
  have "length qs = length ps" using arg_cong [OF q(2), of length] by simp
  moreover have "R s (objs qs ! s)" if "s < length ps" for s unfolding q(2) using g that by simp
  ultimately show ?thesis using q(1,3) on_all_frame [OF q(1)] by blast
qed

lemma objs_get_from_head:
  "objs (get_from_head copy ps) =
    map (\<lambda>s. if s = 0 then objs ps ! 0 else copy (objs ps ! 0) (objs ps ! s)) [0..<length ps]"
proof (cases ps)
  case Nil
  then show ?thesis by (simp add: get_from_head_def)
next
  case (Cons a rest)
  then show ?thesis
    by (intro nth_equalityI) (auto simp: get_from_head_def nth_Cons' sync_all_def base_sync_def simp del: upt_Suc)
qed

lemma in_step_get_from_head [simp]: "group_in_step ps \<Longrightarrow> group_in_step (get_from_head copy ps)"
proof -
  assume "group_in_step ps"
  moreover have "group_in_step (get_from_head copy ps)"
    if "group_in_step ps" "ps = a # rest" for a rest
    using that(1) unfolding get_from_head_def that(2) by (auto intro!: in_step_sync intro: in_step_view [of _ "a # rest"])
  ultimately show ?thesis by (cases ps) (simp_all add: get_from_head_def)
qed

lemma read_all_parts_eq:
  assumes "\<And>s. s < length ps \<Longrightarrow> \<exists>sent. what s (objs ps ! s) = Inr (dv s, off s, sz s, buf s) \<and>
    reads s (dv s) (off s) (sz s) (buf s) = Inr (sent, out s)"
  shows "\<exists>qs. read_all_parts reads what put_buf ps = Inr qs \<and>
    objs qs = map (\<lambda>s. put_buf (out s) (objs ps ! s)) [0..<length ps] \<and> map step_view qs = map step_view ps"
proof -
  obtain sent where sent: "what s (objs ps ! s) = Inr (dv s, off s, sz s, buf s)"
    "reads s (dv s) (off s) (sz s) (buf s) = Inr (sent s, out s)" if "s < length ps" for s
    using assms by metis
  have "read_all_parts reads what put_buf ps =
    Inr (map (\<lambda>(s, a). a\<lparr>ab_obj := put_buf (out s) (ab_obj a), ab_sent := ab_sent a @ sent s\<rparr>) (enumerate 0 ps))"
    unfolding read_all_parts_def using sent by (intro mapE_eq_map) (auto simp: in_set_enumerate_eq)
  moreover have "objs (map (\<lambda>(s, a). a\<lparr>ab_obj := put_buf (out s) (ab_obj a), ab_sent := ab_sent a @ sent s\<rparr>) (enumerate 0 ps)) = map (\<lambda>s. put_buf (out s) (objs ps ! s)) [0..<length ps]"
    by (rule nth_equalityI) (simp_all add: nth_enumerate_eq)
  moreover have "map step_view (map (\<lambda>(s, a). a\<lparr>ab_obj := put_buf (out s) (ab_obj a), ab_sent := ab_sent a @ sent s\<rparr>) (enumerate 0 ps)) = map step_view ps"
    by (rule nth_equalityI) (simp_all add: nth_enumerate_eq)
  ultimately show ?thesis by blast
qed

section \<open>A group that has just been constructed\<close>

text \<open>The processes of an actor with the objects \<open>os\<close>, after the constructor of the base class.\<close>

definition new_group :: "'o list \<Rightarrow> 'o actor_base list" where
  "new_group os = map (\<lambda>s. projr (ActorBase 1 (os ! s) (of_nat s) (of_nat (length os)) (of_nat s) 0)) [0..<length os]"

lemma new_group_ok: "objs (new_group os) = os" "group_in_step (new_group os)" "length (new_group os) = length os"
proof -
  have a: "\<exists>a. ActorBase 1 obj pid nprocs node 0 = Inr a \<and> ab_obj a = obj \<and> step_view a = (0, 0, 1)" for obj :: 'a and pid nprocs node
    using ActorBase_total [of 1 obj pid nprocs node 0] ActorBase_ok by (fastforce simp: step_view_def)
  have b: "ab_obj (projr (ActorBase 1 obj pid nprocs node 0)) = obj \<and> step_view (projr (ActorBase 1 obj pid nprocs node 0)) = (0, 0, 1)"
    for obj :: 'a and pid nprocs node
    using a [of obj pid nprocs node] by auto
  show "objs (new_group os) = os" by (rule nth_equalityI) (simp_all add: new_group_def b)
  show "group_in_step (new_group os)"
    unfolding group_in_step_def by (intro exI [of _ 0] exI [of _ 1]) (auto simp: new_group_def b)
  show "length (new_group os) = length os" by (simp add: new_group_def)
qed

text \<open>A reader that answers at once from the vectors \<open>content\<close>.\<close>

definition direct_reader :: "(vector_distribution \<Rightarrow> byte list) \<Rightarrow> reader" where
  "direct_reader content dv off sz out = Inr ([], peek (unat off) (unat sz) (content dv))"

lemma direct_reader_reads: "content dv = v \<Longrightarrow> length v < 2 ^ 31 \<Longrightarrow> reads_vector (direct_reader content) dv v"
  by (auto simp: reads_vector_def direct_reader_def)

end
