(* ===== verification/Image_Database.thy ===== *)
theory Image_Database
  imports Spmd_Group
begin

text \<open>
  The actor \<^verbatim>\<open>ImageDatabase\<close> (src/src/examples/imgproc/src/ImageDatabase.cpp, ImageDatabase.h): a hash
  table of images that is distributed over the processes of the actor. Every process owns a range of
  the buckets; an image is read in blocks, every process hashes its block, the hashes are exchanged,
  and the owner of the bucket gathers the image. The hash functions of Boost are an argument. Logging and time measurement are left out.

  The operations are functions on the list of all processes; \<^verbatim>\<open>bsp_run\<close> (\<^const>\<open>bsp_run\<close>) makes every process
  call the same member function.
\<close>

section \<open>State\<close>

text \<open>\<^verbatim>\<open>_hashTable\<close> holds pointers to elements of the list \<^verbatim>\<open>_thumbnails\<close>: positions in this list.\<close>

record image_db =
  db_width :: c_int
  db_height :: c_int
  db_nbitPix :: c_int
  db_part_offset :: size_t
  db_part_size :: size_t
  db_full_size :: size_t
  db_procs_buf :: "size_t list"
  db_global_match :: c_int
  db_path :: "byte list"
  db_thumbnails :: "byte list list"
  db_hashTable :: "nat list list"
  db_hash_start :: size_t
  db_nhash :: size_t
  db_hash_block :: size_t
  db_thumbnail_buf :: "byte list"
  db_dv :: vector_distribution
  db_part :: "byte list"
  db_img :: "byte list"

definition HASH_SIZE :: c_int where
  "HASH_SIZE = 12289"

text \<open>\<^verbatim>\<open>boost::hash_range\<close> from the seed 0, over bytes and over hashes.\<close>

record boost_hash =
  hash_chars :: "byte list \<Rightarrow> size_t"
  hash_sizes :: "size_t list \<Rightarrow> size_t"

text \<open>
  The constructor; \<open>mem\<close> is what the members it does not initialise hold. A vector has at most
  \<open>2 ^ 63\<close> bytes, and a list object has 24.
\<close>

definition ImageDatabase :: "image_db \<Rightarrow> c_int \<Rightarrow> c_int \<Rightarrow> image_db result" where
  "ImageDatabase mem s p =
     bindE (div_int HASH_SIZE p) (\<lambda>q.
     bindE (vector_distribution_base 1) (\<lambda>dv.
       let block = (if HASH_SIZE - q * p \<noteq> 0 then scast q + 1 else scast q);
           start = block * scast s;
           nhash = (if start + block \<le> scast HASH_SIZE then block else scast HASH_SIZE - start)
       in if 2 ^ 63 div 24 < unat nhash then Inl Bad_alloc
          else Inr (mem\<lparr>db_procs_buf := replicate (unat p) 0, db_thumbnails := [], db_hashTable := replicate (unat nhash) [],
                        db_hash_start := start, db_nhash := nhash, db_hash_block := block,
                        db_thumbnail_buf := [], db_dv := dv, db_part := [], db_img := []\<rparr>)))"

section \<open>The size of the images\<close>

definition copy_img_params :: "image_db \<Rightarrow> image_db \<Rightarrow> image_db" where
  "copy_img_params head o1 = o1\<lparr>db_width := db_width head, db_height := db_height head, db_nbitPix := db_nbitPix head\<rparr>"

definition set_img_params_local :: "nat \<Rightarrow> nat \<Rightarrow> image_db \<Rightarrow> image_db result" where
  "set_img_params_local p s o1 =
     bindE (mul_int (db_width o1) (db_height o1)) (\<lambda>wh.
       let full = scast wh :: size_t in
       bindE (div_range full (of_nat s) (of_nat p)) (\<lambda>(offset, part_end).
         let size = part_end - offset in
         if 2 ^ 63 \<le> unat full \<or> 2 ^ 63 \<le> unat size then Inl Bad_alloc
         else Inr (o1\<lparr>db_full_size := full, db_part_offset := offset, db_part_size := size,
                db_part := vec_resize (unat size) 0 (db_part o1),
                db_thumbnail_buf := vec_resize (unat full) 0 (db_thumbnail_buf o1)\<rparr>)))"

definition bsp_set_img_params :: "image_db actor_base list \<Rightarrow> image_db actor_base list result" where
  "bsp_set_img_params ps =
     bindE (on_all (set_img_params_local (length ps)) (get_from_head copy_img_params ps)) (\<lambda>qs. Inr (sync_all qs))"

definition setImgParams :: "c_int \<Rightarrow> c_int \<Rightarrow> c_int \<Rightarrow> image_db actor_base list \<Rightarrow> image_db actor_base list result" where
  "setImgParams width height nbitPix ps =
     bsp_set_img_params (upd_head (\<lambda>o1. o1\<lparr>db_width := width, db_height := height, db_nbitPix := nbitPix\<rparr>) ps)"

section \<open>Inserting and looking up\<close>

text \<open>\<^verbatim>\<open>std::equal(a.begin(), a.end(), b.begin())\<close>.\<close>

fun std_equal :: "byte list \<Rightarrow> byte list \<Rightarrow> bool result" where
  "std_equal [] bs = Inr True"
| "std_equal (a # as) [] = Inl Out_of_bounds"
| "std_equal (a # as) (b # bs) = (if a = b then std_equal as bs else Inr False)"

text \<open>The loop over the entries of a bucket.\<close>

fun find_collision :: "byte list list \<Rightarrow> byte list \<Rightarrow> nat list \<Rightarrow> bool result" where
  "find_collision thumbs buf [] = Inr False"
| "find_collision thumbs buf (k # ks) =
     bindE (vector_at thumbs k) (\<lambda>t. bindE (std_equal t buf) (\<lambda>eq.
       if eq then Inr True else find_collision thumbs buf ks))"

text \<open>
  From the blocks of the image to the owner of its bucket: the hash of every block goes to all
  processes, and the blocks go to the owner.
\<close>

definition exchange_hashes :: "boost_hash \<Rightarrow> image_db actor_base list \<Rightarrow> image_db actor_base list result" where
  "exchange_hashes bh ps =
     (let hashes = map (\<lambda>o1. hash_chars bh (db_part o1)) (objs ps)
      in bindE (on_all (\<lambda>s o1. bindE (all_to_all hashes (db_procs_buf o1)) (\<lambda>buf. Inr (o1\<lparr>db_procs_buf := buf\<rparr>))) ps)
           (\<lambda>qs. Inr (sync_all qs)))"

definition modulus_hash :: "boost_hash \<Rightarrow> image_db \<Rightarrow> size_t" where
  "modulus_hash bh o1 = hash_sizes bh (db_procs_buf o1) mod scast HASH_SIZE"

definition dst_proc :: "boost_hash \<Rightarrow> image_db \<Rightarrow> c_int" where
  "dst_proc bh o1 = ucast (modulus_hash bh o1 div db_hash_block o1)"

definition thumbnail_put :: "boost_hash \<Rightarrow> image_db \<Rightarrow> bsp_put result" where
  "thumbnail_put bh o1 =
     bindE (mem_read (db_part o1) 0 (unat (db_part_size o1))) (\<lambda>bs. Inr (dst_proc bh o1, unat (db_part_offset o1), bs))"

definition gather_thumbnail :: "boost_hash \<Rightarrow> image_db actor_base list \<Rightarrow> image_db actor_base list result" where
  "gather_thumbnail bh ps =
     bindE (mapE (thumbnail_put bh) (objs ps)) (\<lambda>puts.
     bindE (bsp_deliver puts (map db_thumbnail_buf (objs ps))) (\<lambda>bufs.
     bindE (on_all (\<lambda>s o1. Inr (o1\<lparr>db_thumbnail_buf := bufs ! s\<rparr>)) ps) (\<lambda>qs. Inr (sync_all qs))))"

definition insert_entry :: "boost_hash \<Rightarrow> nat \<Rightarrow> image_db \<Rightarrow> image_db result" where
  "insert_entry bh s o1 =
     (if of_nat s \<noteq> dst_proc bh o1 then Inr o1
      else
        let hash_index = unat (modulus_hash bh o1 - db_hash_start o1) in
        bindE (vector_at (db_hashTable o1) hash_index) (\<lambda>entry.
          let thumbs = db_thumbnails o1 @ [db_thumbnail_buf o1] in
          bindE (find_collision thumbs (db_thumbnail_buf o1) entry) (\<lambda>found.
            Inr (o1\<lparr>db_thumbnails := thumbs,
                  db_hashTable := (if found then db_hashTable o1
                    else (db_hashTable o1)[hash_index := entry @ [length thumbs - 1]])\<rparr>))))"

definition insert_blocks :: "boost_hash \<Rightarrow> image_db actor_base list \<Rightarrow> image_db actor_base list result" where
  "insert_blocks bh ps =
     bindE (exchange_hashes bh ps) (\<lambda>ps1.
     bindE (gather_thumbnail bh ps1) (\<lambda>ps2.
     bindE (on_all (insert_entry bh) ps2) (\<lambda>ps3. Inr (sync_all ps3))))"

definition read_blocks :: "(nat \<Rightarrow> reader) \<Rightarrow> image_db actor_base list \<Rightarrow> image_db actor_base list result" where
  "read_blocks reads ps =
     bindE (broadcast_member db_dv (\<lambda>dv o1. o1\<lparr>db_dv := dv\<rparr>) ps) (\<lambda>ps1.
       read_all_parts reads (\<lambda>s o1. Inr (db_dv o1, db_part_offset o1, db_part_size o1, db_part o1))
         (\<lambda>buf o1. o1\<lparr>db_part := buf\<rparr>) ps1)"

definition bsp_insert :: "boost_hash \<Rightarrow> (nat \<Rightarrow> reader) \<Rightarrow> image_db actor_base list \<Rightarrow> image_db actor_base list result" where
  "bsp_insert bh reads ps = bindE (read_blocks reads ps) (insert_blocks bh)"

text \<open>\<open>dv\<close> is the value of the future \<open>img\<close>; the messages that release the vector and the future are the head's.\<close>

definition db_insert ::
  "(nat \<Rightarrow> block) \<Rightarrow> block \<Rightarrow> boost_hash \<Rightarrow> (nat \<Rightarrow> reader) \<Rightarrow> vector_distribution \<Rightarrow> future \<Rightarrow> image_db actor_base list \<Rightarrow>
    (mpi_message list \<times> image_db actor_base list) result"
where
  "db_insert blocks b bh reads dv img ps =
     bindE (bsp_insert bh reads (upd_head (\<lambda>o1. o1\<lparr>db_dv := dv\<rparr>) ps)) (\<lambda>ps1.
     bindE (dv_release blocks dv) (\<lambda>sent.
     bindE (future_release b img) (\<lambda>mm. Inr (sent @ [mm], ps1))))"

text \<open>
  The variant for an image that is not distributed: the head puts the blocks, before the other
  processes have entered the superstep, and sets its own \<^verbatim>\<open>_part_size\<close> in the loop.
\<close>

definition seq_block :: "image_db \<Rightarrow> nat \<Rightarrow> nat \<Rightarrow> (size_t \<times> bsp_put) result" where
  "seq_block o1 p i =
     bindE (div_range (db_full_size o1) (of_nat i) (of_nat p)) (\<lambda>(offset, part_end).
     bindE (mem_read (db_img o1) (unat offset) (unat (part_end - offset))) (\<lambda>bs.
       Inr (part_end - db_part_offset o1, (of_nat i, 0, bs))))"

definition bsp_insert_seq :: "boost_hash \<Rightarrow> bsp_put list \<Rightarrow> image_db actor_base list \<Rightarrow> image_db actor_base list result" where
  "bsp_insert_seq bh puts ps =
     bindE (bsp_deliver puts (map db_part (objs ps))) (\<lambda>parts.
     bindE (on_all (\<lambda>s o1. Inr (o1\<lparr>db_part := parts ! s\<rparr>)) ps) (\<lambda>ps1. insert_blocks bh (sync_all ps1)))"

definition insertSeq :: "boost_hash \<Rightarrow> byte list \<Rightarrow> image_db actor_base list \<Rightarrow> image_db actor_base list result" where
  "insertSeq bh img ps =
     (case upd_head (\<lambda>o1. o1\<lparr>db_img := img\<rparr>) ps of
        [] \<Rightarrow> Inl Out_of_bounds
      | a # rest \<Rightarrow>
          bindE (mapE (seq_block (ab_obj a) (length ps)) [0..<length ps]) (\<lambda>blocks.
            bsp_insert_seq bh (map snd blocks)
              (upd_head (\<lambda>o1. o1\<lparr>db_part_size := fst (last blocks)\<rparr>) (a # rest))))"

definition exist_entry :: "boost_hash \<Rightarrow> nat \<Rightarrow> image_db \<Rightarrow> c_int option result" where
  "exist_entry bh s o1 =
     (if of_nat s \<noteq> dst_proc bh o1 then Inr None
      else
        bindE (vector_at (db_hashTable o1) (unat (modulus_hash bh o1 - db_hash_start o1))) (\<lambda>entry.
        bindE (find_collision (db_thumbnails o1) (db_thumbnail_buf o1) entry) (\<lambda>found.
          Inr (Some (if found then 1 else 0)))))"

definition bsp_exist :: "boost_hash \<Rightarrow> (nat \<Rightarrow> reader) \<Rightarrow> image_db actor_base list \<Rightarrow> image_db actor_base list result" where
  "bsp_exist bh reads ps =
     bindE (read_blocks reads ps) (\<lambda>ps1.
     bindE (exchange_hashes bh ps1) (\<lambda>ps2.
     bindE (gather_thumbnail bh ps2) (\<lambda>ps3.
     bindE (mapE (\<lambda>(s, o1). exist_entry bh s o1) (enumerate 0 (objs ps3))) (\<lambda>found.
       Inr (sync_all (upd_head (\<lambda>o1. foldl (\<lambda>o1 m. case m of None \<Rightarrow> o1 | Some x \<Rightarrow> o1\<lparr>db_global_match := x\<rparr>) o1 found) ps3))))))"

definition exist :: "boost_hash \<Rightarrow> (nat \<Rightarrow> reader) \<Rightarrow> vector_distribution \<Rightarrow> image_db actor_base list \<Rightarrow>
  (c_int \<times> image_db actor_base list) result"
where
  "exist bh reads dv ps =
     bindE (bsp_exist bh reads (upd_head (\<lambda>o1. o1\<lparr>db_dv := dv\<rparr>) ps)) (\<lambda>ps1.
       case objs ps1 of [] \<Rightarrow> Inl Out_of_bounds | o1 # _ \<Rightarrow> Inr (db_global_match o1, ps1))"

section \<open>What the table contains\<close>

text \<open>Buckets per process, and the bucket of an image that is hashed by \<open>p\<close> processes.\<close>

definition db_block :: "nat \<Rightarrow> nat" where
  "db_block p = (12289 + p - 1) div p"

definition block_hashes :: "boost_hash \<Rightarrow> nat \<Rightarrow> byte list \<Rightarrow> size_t list" where
  "block_hashes bh p v =
     map (\<lambda>s. hash_chars bh (peek (block_begin (length v) p s) (block_size (length v) p s) v)) [0..<p]"

definition image_hash :: "boost_hash \<Rightarrow> nat \<Rightarrow> byte list \<Rightarrow> nat" where
  "image_hash bh p v = unat (hash_sizes bh (block_hashes bh p v)) mod 12289"

definition image_owner :: "boost_hash \<Rightarrow> nat \<Rightarrow> byte list \<Rightarrow> nat" where
  "image_owner bh p v = image_hash bh p v div db_block p"

definition bucket_images :: "image_db \<Rightarrow> nat \<Rightarrow> byte list list" where
  "bucket_images o1 h = map (\<lambda>k. db_thumbnails o1 ! k) (db_hashTable o1 ! h)"

definition db_images :: "image_db \<Rightarrow> byte list set" where
  "db_images o1 = (\<Union>h<length (db_hashTable o1). set (bucket_images o1 h))"

text \<open>
  The invariant of process \<open>s\<close> of \<open>p\<close> for images of \<open>n\<close> bytes: its range of buckets, its block of an
  image, and every bucket holds valid pointers to different images that belong there.
\<close>

definition buckets_ok :: "boost_hash \<Rightarrow> nat \<Rightarrow> nat \<Rightarrow> nat \<Rightarrow> image_db \<Rightarrow> bool" where
  "buckets_ok bh p n s o1 \<longleftrightarrow> (\<forall>h<length (db_hashTable o1).
     distinct (bucket_images o1 h) \<and> (\<forall>k\<in>set (db_hashTable o1 ! h). k < length (db_thumbnails o1)) \<and>
     (\<forall>v\<in>set (bucket_images o1 h). length v = n \<and> image_hash bh p v = db_block p * s + h))"

definition db_inv :: "boost_hash \<Rightarrow> nat \<Rightarrow> nat \<Rightarrow> nat \<Rightarrow> image_db \<Rightarrow> bool" where
  "db_inv bh p n s o1 \<longleftrightarrow>
     db_hash_block o1 = of_nat (db_block p) \<and> db_hash_start o1 = of_nat (db_block p * s) \<and>
     db_block p * s + length (db_hashTable o1) = min (db_block p * s + db_block p) 12289 \<and>
     db_full_size o1 = of_nat n \<and> db_part_offset o1 = of_nat (block_begin n p s) \<and>
     db_part_size o1 = of_nat (block_size n p s) \<and> length (db_part o1) = block_size n p s \<and>
     length (db_thumbnail_buf o1) = n \<and> length (db_procs_buf o1) = p \<and> (\<exists>m. nparts (db_dv o1) = Inr m) \<and>
     buckets_ok bh p n s o1"

definition db_group :: "boost_hash \<Rightarrow> nat \<Rightarrow> image_db actor_base list \<Rightarrow> bool" where
  "db_group bh n ps \<longleftrightarrow> group_in_step ps \<and> 0 < length ps \<and> length ps < 2 ^ 31 \<and> n < 2 ^ 31 \<and>
     (\<forall>s<length ps. db_inv bh (length ps) n s (objs ps ! s))"

definition stored_images :: "image_db actor_base list \<Rightarrow> byte list set" where
  "stored_images ps = (\<Union>o1\<in>set (objs ps). db_images o1)"

lemma db_block_covers: "0 < p \<Longrightarrow> 12289 \<le> db_block p * p"
proof -
  assume "0 < p"
  have "12289 + p - 1 = db_block p * p + (12289 + p - 1) mod p"
    by (simp only: db_block_def div_mult_mod_eq)
  moreover have "(12289 + p - 1) mod p \<le> p - 1" using \<open>0 < p\<close> by (simp add: less_Suc_eq_le [symmetric])
  ultimately show ?thesis using \<open>0 < p\<close> by linarith
qed

lemma db_block_pos: "0 < p \<Longrightarrow> 0 < db_block p"
  using db_block_covers [of p] by (cases "db_block p") simp_all

lemma db_block_le: "0 < p \<Longrightarrow> db_block p \<le> 12289"
proof -
  assume "0 < p"
  then have "12289 + p - 1 \<le> 12289 * p" by (cases p) simp_all
  then have "db_block p \<le> 12289 * p div p" unfolding db_block_def by (rule div_le_mono)
  then show ?thesis using \<open>0 < p\<close> by simp
qed

lemma image_hash_less: "image_hash bh p v < 12289"
  by (simp add: image_hash_def)

lemma image_owner_less: "0 < p \<Longrightarrow> image_owner bh p v < p"
proof -
  assume p: "0 < p"
  have "image_hash bh p v < p * db_block p"
    using image_hash_less [of bh p v] db_block_covers [OF p] by (simp add: mult.commute)
  then show ?thesis using db_block_pos [OF p] by (simp add: image_owner_def less_mult_imp_div_less)
qed

lemma image_owner_bounds:
  assumes "0 < p" and "s = image_owner bh p v"
  shows "db_block p * s \<le> image_hash bh p v" "image_hash bh p v < db_block p * s + db_block p"
proof -
  have B: "0 < db_block p" using assms(1) by (rule db_block_pos)
  have eq: "image_hash bh p v = db_block p * s + image_hash bh p v mod db_block p"
    by (simp add: assms(2) image_owner_def)
  show "db_block p * s \<le> image_hash bh p v" by (subst eq) simp
  show "image_hash bh p v < db_block p * s + db_block p" using B by (subst eq) simp
qed

section \<open>Finding an image in its bucket\<close>

lemma std_equal_eq: "length as = length bs \<Longrightarrow> std_equal as bs = Inr (as = bs)"
proof (induction as arbitrary: bs)
  case Nil
  then show ?case by simp
next
  case (Cons a as)
  then show ?case by (cases bs) auto
qed

lemma find_collision_eq:
  assumes "\<forall>k\<in>set ks. k < length thumbs \<and> length (thumbs ! k) = length buf"
  shows "find_collision thumbs buf ks = Inr (buf \<in> set (map (\<lambda>k. thumbs ! k) ks))"
  using assms by (induction ks) (auto simp: vector_at_def std_equal_eq)

text \<open>The value of the hash and the owner, computed by a process that knows the hashes of all blocks.\<close>

lemma modulus_hash_eq:
  assumes "db_procs_buf o1 = block_hashes bh p v"
  shows "modulus_hash bh o1 = of_nat (image_hash bh p v)"
proof -
  have "unat (modulus_hash bh o1) = image_hash bh p v"
    by (simp add: modulus_hash_def image_hash_def assms unat_mod HASH_SIZE_def)
  then have "of_nat (unat (modulus_hash bh o1)) = (of_nat (image_hash bh p v) :: size_t)" by simp
  then show ?thesis by simp
qed

lemma dst_proc_eq:
  assumes "db_procs_buf o1 = block_hashes bh p v" and "db_hash_block o1 = of_nat (db_block p)" and "0 < p"
  shows "dst_proc bh o1 = of_nat (image_owner bh p v)"
proof -
  have "modulus_hash bh o1 div db_hash_block o1 = of_nat (image_owner bh p v)"
    unfolding modulus_hash_eq [OF assms(1)] assms(2) image_owner_def
    using db_block_le [OF assms(3)] image_hash_less [of bh p v] by (intro size_div_of_nat) simp_all
  moreover have "image_owner bh p v < 2 ^ 32"
    unfolding image_owner_def
    by (rule le_less_trans [OF div_le_dividend]) (rule less_trans [OF image_hash_less], simp)
  ultimately show ?thesis by (simp add: dst_proc_def)
qed

section \<open>From the blocks to the owner\<close>

text \<open>The objects after the blocks of \<open>v\<close> have been read, hashed and gathered.\<close>

definition with_block :: "vector_distribution \<Rightarrow> nat \<Rightarrow> byte list \<Rightarrow> nat \<Rightarrow> image_db \<Rightarrow> image_db" where
  "with_block dv p v s o1 =
     o1\<lparr>db_dv := dv, db_part := peek (block_begin (length v) p s) (block_size (length v) p s) v\<rparr>"

definition with_hashes :: "boost_hash \<Rightarrow> nat \<Rightarrow> byte list \<Rightarrow> image_db \<Rightarrow> image_db" where
  "with_hashes bh p v o1 = o1\<lparr>db_procs_buf := block_hashes bh p v\<rparr>"

definition with_image :: "boost_hash \<Rightarrow> nat \<Rightarrow> byte list \<Rightarrow> nat \<Rightarrow> image_db \<Rightarrow> image_db" where
  "with_image bh p v s o1 =
     o1\<lparr>db_thumbnail_buf := (if s = image_owner bh p v then v else db_thumbnail_buf o1)\<rparr>"

definition gathered :: "boost_hash \<Rightarrow> vector_distribution \<Rightarrow> nat \<Rightarrow> byte list \<Rightarrow> nat \<Rightarrow> image_db \<Rightarrow> image_db" where
  "gathered bh dv p v s o1 = with_image bh p v s (with_hashes bh p v (with_block dv p v s o1))"

lemma blocks_glue:
  "0 < p \<Longrightarrow> concat (map (\<lambda>s. peek (block_begin (length v) p s) (block_size (length v) p s) v) [0..<p]) = v"
  using blk.glue [of p v "length v"] by (simp add: peek_def)

lemma length_block: "s < p \<Longrightarrow> length (peek (block_begin (length v) p s) (block_size (length v) p s) v) = block_size (length v) p s"
  using block_size_le [of s p "length v"] by (simp add: length_peek)

lemma read_blocks_eq:
  assumes grp: "db_group bh (length v) ps" and dv: "db_dv (objs ps ! 0) = vd_bytes parts" and small: "vd_small (length parts)"
    and reads: "\<forall>s<length ps. reads_vector (reads s) (vd_bytes parts) v"
  shows "\<exists>qs. read_blocks reads ps = Inr qs \<and> group_in_step qs \<and>
    objs qs = map (\<lambda>s. with_block (vd_bytes parts) (length ps) v s (objs ps ! s)) [0..<length ps]"
proof -
  let ?p = "length ps" and ?put = "\<lambda>dv o1. o1\<lparr>db_dv := dv\<rparr>"
  have inv: "db_inv bh ?p (length v) s (objs ps ! s)" if "s < ?p" for s using grp that by (simp add: db_group_def)
  obtain a rest where ps: "ps = a # rest" using grp by (cases ps) (auto simp: db_group_def)
  have defined: "\<forall>b\<in>set ps. \<exists>n. nparts (db_dv (ab_obj b)) = Inr n"
    using inv by (auto simp: db_inv_def in_set_conv_nth)
  from grp have "group_in_step ps" by (simp add: db_group_def)
  then obtain ps1 where p1: "broadcast_member db_dv ?put ps = Inr ps1" "group_in_step ps1"
    "objs ps1 = map (\<lambda>b. ?put (vd_bytes parts) (ab_obj b)) ps"
    using broadcast_member_eq [where put_dv = ?put, OF _ ps _ small defined] dv ps by auto
  have len1: "length ps1 = ?p" using arg_cong [OF p1(3), of length] by simp
  have nth1: "objs ps1 ! s = ?put (vd_bytes parts) (objs ps ! s)" if "s < ?p" for s using that p1(3) by simp
  let ?n = "length v"
  have "\<exists>qs. read_all_parts reads (\<lambda>s o1. Inr (db_dv o1, db_part_offset o1, db_part_size o1, db_part o1))
      (\<lambda>buf o1. o1\<lparr>db_part := buf\<rparr>) ps1 = Inr qs \<and>
    objs qs = map (\<lambda>s. (objs ps1 ! s)\<lparr>db_part := peek (block_begin ?n ?p s) (block_size ?n ?p s) v\<rparr>) [0..<length ps1] \<and>
    map step_view qs = map step_view ps1"
  proof (rule read_all_parts_eq)
    fix s assume "s < length ps1"
    then have s: "s < ?p" using len1 by simp
    obtain sent where "reads s (vd_bytes parts) (of_nat (block_begin ?n ?p s)) (of_nat (block_size ?n ?p s)) (db_part (objs ps ! s)) =
      Inr (sent, peek (block_begin ?n ?p s) (block_size ?n ?p s) v)"
      using reads_block [of "reads s" "vd_bytes parts" v s ?p "db_part (objs ps ! s)"] reads s inv [OF s] by (auto simp: db_inv_def)
    then show "\<exists>sent. Inr (db_dv (objs ps1 ! s), db_part_offset (objs ps1 ! s), db_part_size (objs ps1 ! s), db_part (objs ps1 ! s)) =
        Inr (vd_bytes parts, of_nat (block_begin ?n ?p s), of_nat (block_size ?n ?p s), db_part (objs ps ! s)) \<and>
      reads s (vd_bytes parts) (of_nat (block_begin ?n ?p s)) (of_nat (block_size ?n ?p s)) (db_part (objs ps ! s)) =
      Inr (sent, peek (block_begin ?n ?p s) (block_size ?n ?p s) v)"
      using nth1 [OF s] inv [OF s] by (auto simp: db_inv_def)
  qed
  then obtain qs where q: "read_all_parts reads (\<lambda>s o1. Inr (db_dv o1, db_part_offset o1, db_part_size o1, db_part o1))
      (\<lambda>buf o1. o1\<lparr>db_part := buf\<rparr>) ps1 = Inr qs"
    "objs qs = map (\<lambda>s. (objs ps1 ! s)\<lparr>db_part := peek (block_begin ?n ?p s) (block_size ?n ?p s) v\<rparr>) [0..<length ps1]"
    "map step_view qs = map step_view ps1" by blast
  have "objs qs = map (\<lambda>s. with_block (vd_bytes parts) ?p v s (objs ps ! s)) [0..<?p]"
    unfolding q(2) len1 using nth1 by (intro map_cong refl) (auto simp: with_block_def)
  moreover have "group_in_step qs" using q(3) p1(2) by (rule in_step_view)
  ultimately show ?thesis using p1(1) q(1) by (simp add: read_blocks_def)
qed

lemma exchange_hashes_all:
  assumes "\<forall>o1\<in>set (objs ps). length (db_procs_buf o1) = length ps"
  shows "\<exists>qs. exchange_hashes bh ps = Inr qs \<and> (group_in_step ps \<longrightarrow> group_in_step qs) \<and>
    objs qs = map (\<lambda>o1. o1\<lparr>db_procs_buf := map (\<lambda>o1. hash_chars bh (db_part o1)) (objs ps)\<rparr>) (objs ps)"
proof -
  let ?hs = "map (\<lambda>o1. hash_chars bh (db_part o1)) (objs ps)"
  let ?f = "\<lambda>(s :: nat) o1. bindE (all_to_all ?hs (db_procs_buf o1)) (\<lambda>buf. Inr (o1\<lparr>db_procs_buf := buf\<rparr>))"
  have "\<exists>qs. on_all ?f ps = Inr qs \<and> objs qs = map (\<lambda>s. (objs ps ! s)\<lparr>db_procs_buf := ?hs\<rparr>) [0..<length ps] \<and>
    map step_view qs = map step_view ps"
  proof (rule on_all_eq)
    fix s assume "s < length ps"
    then have "objs ps ! s \<in> set (objs ps)" by (intro nth_mem) simp
    then have "length (db_procs_buf (objs ps ! s)) = length ?hs" using assms by (simp only: length_map)
    then show "?f s (objs ps ! s) = Inr ((objs ps ! s)\<lparr>db_procs_buf := ?hs\<rparr>)" by (simp only: all_to_all_eq bindE_Inr)
  qed
  then obtain qs where q: "on_all ?f ps = Inr qs" "objs qs = map (\<lambda>s. (objs ps ! s)\<lparr>db_procs_buf := ?hs\<rparr>) [0..<length ps]"
    "map step_view qs = map step_view ps" by blast
  have "objs qs = map (\<lambda>o1. o1\<lparr>db_procs_buf := ?hs\<rparr>) (objs ps)"
    unfolding q(2) by (rule nth_equalityI) simp_all
  moreover have "group_in_step ps \<longrightarrow> group_in_step (sync_all qs)" using in_step_view [OF q(3)] by simp
  moreover have "exchange_hashes bh ps = Inr (sync_all qs)" unfolding exchange_hashes_def Let_def q(1) bindE_Inr ..
  ultimately show ?thesis by (intro exI [of _ "sync_all qs"]) (simp only: objs_sync_all simp_thms)
qed

lemma exchange_hashes_eq:
  assumes "objs ps = map (\<lambda>s. with_block dv p v s (os s)) [0..<p]"
    and "\<forall>s<p. length (db_procs_buf (os s)) = p" and "group_in_step ps"
  shows "\<exists>qs. exchange_hashes bh ps = Inr qs \<and> group_in_step qs \<and>
    objs qs = map (\<lambda>s. with_hashes bh p v (with_block dv p v s (os s))) [0..<p]"
proof -
  have len: "length ps = p" using arg_cong [OF assms(1), of length] by simp
  have hashes: "map (\<lambda>o1. hash_chars bh (db_part o1)) (objs ps) = block_hashes bh p v"
    unfolding assms(1) by (simp add: block_hashes_def with_block_def)
  have "\<forall>o1\<in>set (objs ps). length (db_procs_buf o1) = length ps"
    unfolding assms(1) len using assms(2) by (simp add: with_block_def)
  from exchange_hashes_all [OF this, of bh] obtain qs where q: "exchange_hashes bh ps = Inr qs" "group_in_step qs"
    "objs qs = map (\<lambda>o1. o1\<lparr>db_procs_buf := block_hashes bh p v\<rparr>) (objs ps)"
    using assms(3) hashes by auto
  have "objs qs = map (\<lambda>s. with_hashes bh p v (with_block dv p v s (os s))) [0..<p]"
    unfolding q(3) assms(1) by (simp add: with_hashes_def)
  then show ?thesis using q by blast
qed

lemma gather_thumbnail_eq:
  assumes objs: "objs ps = map (\<lambda>s. with_hashes bh p v (with_block dv p v s (os s))) [0..<p]" and p: "0 < p" "p < 2 ^ 31"
    and inv: "\<forall>s<p. db_inv bh p (length v) s (os s)" and n: "length v < 2 ^ 31" and step: "group_in_step ps"
  shows "\<exists>qs. gather_thumbnail bh ps = Inr qs \<and> group_in_step qs \<and> objs qs = map (\<lambda>s. gathered bh dv p v s (os s)) [0..<p]"
proof -
  let ?n = "length v" and ?d = "image_owner bh p v"
  let ?o = "\<lambda>s. with_hashes bh p v (with_block dv p v s (os s))"
  let ?b = "\<lambda>s. peek (block_begin ?n p s) (block_size ?n p s) v"
  let ?ws = "map (\<lambda>s. (block_begin ?n p s, ?b s)) [0..<p]"
  have len: "length ps = p" using arg_cong [OF objs, of length] by simp
  have d: "?d < p" using p(1) by (rule image_owner_less)
  have put: "thumbnail_put bh (?o s) = Inr (of_nat ?d, block_begin ?n p s, ?b s)" if s: "s < p" for s
  proof -
    have i: "db_inv bh p ?n s (os s)" using inv s by simp
    have le: "block_begin ?n p s + block_size ?n p s \<le> ?n" using s by (rule block_size_le)
    have "dst_proc bh (?o s) = of_nat ?d"
      using i p(1) by (intro dst_proc_eq) (simp_all add: db_inv_def with_hashes_def with_block_def)
    moreover have "mem_read (?b s) 0 (block_size ?n p s) = Inr (?b s)"
      using length_block [OF s, of v] by (simp add: mem_read_def peek_all)
    ultimately show ?thesis
      using i le n by (simp add: thumbnail_put_def db_inv_def with_hashes_def with_block_def)
  qed
  have puts: "mapE (thumbnail_put bh) (objs ps) = Inr (map (Pair (of_nat ?d)) ?ws)"
  proof -
    have "mapE (\<lambda>s. thumbnail_put bh (?o s)) [0..<p] = Inr (map (\<lambda>s. (of_nat ?d, block_begin ?n p s, ?b s)) [0..<p])"
      using put by (intro mapE_eq_map) simp
    then show ?thesis by (simp add: objs mapE_map comp_def)
  qed
  let ?bufs = "map (\<lambda>s. db_thumbnail_buf (os s)) [0..<p]"
  have tiles: "tiles 0 ?ws" using tiles_blocks [of p ?b ?n p] length_block by blast
  have snd: "concat (map snd ?ws) = v" using blocks_glue [OF p(1), of v] by (simp add: comp_def)
  have "bsp_deliver (map (Pair (of_nat ?d)) ?ws) ?bufs = Inr (?bufs[?d := concat (map snd ?ws)])"
    using d p(2) tiles inv snd by (intro bsp_deliver_tiles) (simp_all add: db_inv_def)
  moreover have "map db_thumbnail_buf (objs ps) = ?bufs" by (simp add: objs with_hashes_def with_block_def)
  ultimately have deliver: "bsp_deliver (map (Pair (of_nat ?d)) ?ws) (map db_thumbnail_buf (objs ps)) = Inr (?bufs[?d := v])"
    using snd by simp
  have nth: "objs ps ! s = ?o s" if "s < p" for s unfolding objs using that by simp
  have "\<exists>qs. on_all (\<lambda>s o1. Inr (o1\<lparr>db_thumbnail_buf := ?bufs[?d := v] ! s\<rparr>)) ps = Inr qs \<and>
    objs qs = map (\<lambda>s. with_image bh p v s (objs ps ! s)) [0..<length ps] \<and> map step_view qs = map step_view ps"
  proof (rule on_all_eq)
    fix s assume "s < length ps"
    then have s: "s < p" using len by simp
    have "?bufs[?d := v] ! s = (if s = ?d then v else db_thumbnail_buf (objs ps ! s))"
      unfolding nth [OF s] using s d by (simp add: with_hashes_def with_block_def)
    then show "(Inr ((objs ps ! s)\<lparr>db_thumbnail_buf := ?bufs[?d := v] ! s\<rparr>) :: image_db result) = Inr (with_image bh p v s (objs ps ! s))"
      by (simp only: with_image_def)
  qed
  then obtain qs where q: "on_all (\<lambda>s o1. Inr (o1\<lparr>db_thumbnail_buf := ?bufs[?d := v] ! s\<rparr>)) ps = Inr qs"
    "objs qs = map (\<lambda>s. with_image bh p v s (objs ps ! s)) [0..<length ps]" "map step_view qs = map step_view ps" by blast
  have "objs qs = map (\<lambda>s. gathered bh dv p v s (os s)) [0..<p]"
    unfolding q(2) len using nth by (intro map_cong refl) (simp only: gathered_def set_upt atLeastLessThan_iff)
  moreover have "group_in_step qs" using q(3) step by (rule in_step_view)
  ultimately show ?thesis using puts deliver q(1) by (simp add: gather_thumbnail_def)
qed

text \<open>The three steps together, which insertion and lookup share.\<close>

lemma image_gathered:
  assumes grp: "db_group bh (length v) ps" and dv: "db_dv (objs ps ! 0) = vd_bytes parts" and small: "vd_small (length parts)"
    and reads: "\<forall>s<length ps. reads_vector (reads s) (vd_bytes parts) v"
  shows "\<exists>ps1 ps2 ps3. read_blocks reads ps = Inr ps1 \<and> exchange_hashes bh ps1 = Inr ps2 \<and> gather_thumbnail bh ps2 = Inr ps3 \<and>
    group_in_step ps3 \<and> objs ps3 = map (\<lambda>s. gathered bh (vd_bytes parts) (length ps) v s (objs ps ! s)) [0..<length ps]"
proof -
  have g: "0 < length ps" "length ps < 2 ^ 31" "length v < 2 ^ 31" "\<forall>s<length ps. db_inv bh (length ps) (length v) s (objs ps ! s)"
    using grp by (auto simp: db_group_def)
  obtain ps1 where p1: "read_blocks reads ps = Inr ps1" "group_in_step ps1"
    "objs ps1 = map (\<lambda>s. with_block (vd_bytes parts) (length ps) v s (objs ps ! s)) [0..<length ps]"
    using read_blocks_eq [OF assms] by blast
  have "\<forall>s<length ps. length (db_procs_buf (objs ps ! s)) = length ps" using g(4) by (simp add: db_inv_def)
  then obtain ps2 where p2: "exchange_hashes bh ps1 = Inr ps2" "group_in_step ps2"
    "objs ps2 = map (\<lambda>s. with_hashes bh (length ps) v (with_block (vd_bytes parts) (length ps) v s (objs ps ! s))) [0..<length ps]"
    using exchange_hashes_eq [OF p1(3) _ p1(2)] by blast
  obtain ps3 where "gather_thumbnail bh ps2 = Inr ps3" "group_in_step ps3"
    "objs ps3 = map (\<lambda>s. gathered bh (vd_bytes parts) (length ps) v s (objs ps ! s)) [0..<length ps]"
    using gather_thumbnail_eq [OF p2(3) g(1,2,4,3) p2(2)] by blast
  then show ?thesis using p1(1) p2(1) by blast
qed

section \<open>The owner of the bucket\<close>

definition bucket_of :: "boost_hash \<Rightarrow> nat \<Rightarrow> byte list \<Rightarrow> nat" where
  "bucket_of bh p v = image_hash bh p v - db_block p * image_owner bh p v"

lemma gathered_fields [simp]:
  "db_thumbnails (gathered bh dv p v s o1) = db_thumbnails o1" "db_hashTable (gathered bh dv p v s o1) = db_hashTable o1"
  "db_hash_start (gathered bh dv p v s o1) = db_hash_start o1" "db_hash_block (gathered bh dv p v s o1) = db_hash_block o1"
  "db_procs_buf (gathered bh dv p v s o1) = block_hashes bh p v"
  "db_full_size (gathered bh dv p v s o1) = db_full_size o1" "db_part_offset (gathered bh dv p v s o1) = db_part_offset o1"
  "db_part_size (gathered bh dv p v s o1) = db_part_size o1" "db_dv (gathered bh dv p v s o1) = dv"
  "db_part (gathered bh dv p v s o1) = peek (block_begin (length v) p s) (block_size (length v) p s) v"
  "db_thumbnail_buf (gathered bh dv p v s o1) = (if s = image_owner bh p v then v else db_thumbnail_buf o1)"
  by (simp_all add: gathered_def with_image_def with_hashes_def with_block_def)

lemma gathered_images [simp]:
  "bucket_images (gathered bh dv p v s o1) h = bucket_images o1 h" "db_images (gathered bh dv p v s o1) = db_images o1"
  by (simp_all add: bucket_images_def db_images_def)

lemma db_inv_gathered:
  assumes "db_inv bh p (length v) s o1" and "s < p" and "vd_small (length parts)"
  shows "db_inv bh p (length v) s (gathered bh (vd_bytes parts) p v s o1)"
  using assms length_block [OF assms(2), of v] by (auto simp: db_inv_def buckets_ok_def block_hashes_def)

lemma owner_bucket:
  assumes "db_inv bh p n s o1" and "0 < p" and "s = image_owner bh p v"
  shows "bucket_of bh p v < length (db_hashTable o1)" "image_hash bh p v = db_block p * s + bucket_of bh p v"
    "unat (of_nat (image_hash bh p v) - db_hash_start o1) = bucket_of bh p v"
proof -
  note b = image_owner_bounds [OF assms(2,3)]
  show eq: "image_hash bh p v = db_block p * s + bucket_of bh p v" using b(1) assms(3) by (simp add: bucket_of_def)
  show "bucket_of bh p v < length (db_hashTable o1)"
    using assms(1) b(2) image_hash_less [of bh p v] eq by (auto simp: db_inv_def min_def split: if_splits)
  have "(of_nat (image_hash bh p v) - of_nat (db_block p * s) :: size_t) = of_nat (bucket_of bh p v)"
    by (simp only: eq of_nat_add add_diff_cancel_left')
  moreover have "bucket_of bh p v < 2 ^ 64" using eq image_hash_less [of bh p v] by simp
  ultimately show "unat (of_nat (image_hash bh p v) - db_hash_start o1) = bucket_of bh p v"
    using assms(1) by (simp add: db_inv_def)
qed

lemma in_images_iff:
  assumes "db_inv bh p n s o1" and "0 < p" and "length v = n"
  shows "v \<in> db_images o1 \<longleftrightarrow> s = image_owner bh p v \<and> v \<in> set (bucket_images o1 (bucket_of bh p v))"
proof
  assume "v \<in> db_images o1"
  then obtain h where h: "h < length (db_hashTable o1)" "v \<in> set (bucket_images o1 h)" by (auto simp: db_images_def)
  then have eq: "image_hash bh p v = db_block p * s + h" using assms(1) by (auto simp: db_inv_def buckets_ok_def)
  have "h < db_block p" using assms(1) h(1) by (auto simp: db_inv_def min_def split: if_splits)
  then have s: "s = image_owner bh p v" using eq by (simp add: image_owner_def)
  moreover have "bucket_of bh p v = h" unfolding bucket_of_def using eq s by simp
  ultimately show "s = image_owner bh p v \<and> v \<in> set (bucket_images o1 (bucket_of bh p v))" using h(2) by simp
next
  assume "s = image_owner bh p v \<and> v \<in> set (bucket_images o1 (bucket_of bh p v))"
  then show "v \<in> db_images o1" using owner_bucket(1) [OF assms(1,2)] by (auto simp: db_images_def)
qed

text \<open>What insertion makes of the table of the owner.\<close>

definition inserted :: "boost_hash \<Rightarrow> nat \<Rightarrow> byte list \<Rightarrow> image_db \<Rightarrow> image_db" where
  "inserted bh p v o1 = o1\<lparr>db_thumbnails := db_thumbnails o1 @ [v],
     db_hashTable := (if v \<in> set (bucket_images o1 (bucket_of bh p v)) then db_hashTable o1
       else (db_hashTable o1)[bucket_of bh p v := db_hashTable o1 ! bucket_of bh p v @ [length (db_thumbnails o1)]])\<rparr>"

lemma bucket_lookup:
  assumes inv: "db_inv bh p (length v) s o1" and h: "h < length (db_hashTable o1)"
  shows "find_collision (db_thumbnails o1 @ extra) v (db_hashTable o1 ! h) = Inr (v \<in> set (bucket_images o1 h))"
proof -
  have ptr: "k < length (db_thumbnails o1) \<and> length (db_thumbnails o1 ! k) = length v" if "k \<in> set (db_hashTable o1 ! h)" for k
    using inv h that by (auto simp: db_inv_def buckets_ok_def bucket_images_def)
  then have "find_collision (db_thumbnails o1 @ extra) v (db_hashTable o1 ! h) =
      Inr (v \<in> set (map (\<lambda>k. (db_thumbnails o1 @ extra) ! k) (db_hashTable o1 ! h)))"
    by (intro find_collision_eq) (auto simp: nth_append trans_less_add1)
  moreover have "map (\<lambda>k. (db_thumbnails o1 @ extra) ! k) (db_hashTable o1 ! h) = bucket_images o1 h"
    using ptr by (auto simp: bucket_images_def nth_append)
  ultimately show ?thesis by simp
qed

lemma insert_entry_eq:
  assumes inv: "db_inv bh p (length v) s o1" and p: "0 < p" "p < 2 ^ 31" "s < p"
    and buf: "db_procs_buf o1 = block_hashes bh p v" "s = image_owner bh p v \<Longrightarrow> db_thumbnail_buf o1 = v"
  shows "insert_entry bh s o1 = Inr (if s = image_owner bh p v then inserted bh p v o1 else o1)"
proof -
  have dst: "dst_proc bh o1 = of_nat (image_owner bh p v)"
    using inv p(1) buf(1) by (intro dst_proc_eq) (simp_all add: db_inv_def)
  have same: "(of_nat s :: c_int) = of_nat (image_owner bh p v) \<longleftrightarrow> s = image_owner bh p v"
    using p image_owner_less [OF p(1), of bh v] by (intro pid_inject) simp_all
  show ?thesis
  proof (cases "s = image_owner bh p v")
    case True
    note b = owner_bucket [OF inv p(1) True]
    have "find_collision (db_thumbnails o1 @ [v]) v (db_hashTable o1 ! bucket_of bh p v) =
      Inr (v \<in> set (bucket_images o1 (bucket_of bh p v)))"
      using bucket_lookup [OF inv b(1)] .
    then show ?thesis
      using True dst buf modulus_hash_eq [OF buf(1)] b(1,3)
      by (simp add: insert_entry_def Let_def vector_at_def inserted_def)
  next
    case False
    then show ?thesis using dst same by (simp add: insert_entry_def)
  qed
qed

lemma inserted_ok:
  assumes inv: "db_inv bh p (length v) s o1" and p: "0 < p" and s: "s = image_owner bh p v"
  shows "db_inv bh p (length v) s (inserted bh p v o1)" "db_images (inserted bh p v o1) = insert v (db_images o1)"
proof -
  let ?b = "bucket_of bh p v"
  note b = owner_bucket [OF inv p s]
  have ptr: "k < length (db_thumbnails o1)" if "h < length (db_hashTable o1)" "k \<in> set (db_hashTable o1 ! h)" for h k
    using inv that by (auto simp: db_inv_def buckets_ok_def)
  have old: "map (\<lambda>k. (db_thumbnails o1 @ [v]) ! k) (db_hashTable o1 ! h) = bucket_images o1 h"
    if "h < length (db_hashTable o1)" for h
    using ptr [OF that] by (auto simp: bucket_images_def nth_append)
  have new: "bucket_images (inserted bh p v o1) h =
      (if h = ?b \<and> v \<notin> set (bucket_images o1 ?b) then bucket_images o1 ?b @ [v] else bucket_images o1 h)"
    if "h < length (db_hashTable o1)" for h
    using that b(1) old [of h] old [OF b(1)]
    by (simp only: bucket_images_def [of "inserted bh p v o1"]) (auto simp: inserted_def)
  have len: "length (db_hashTable (inserted bh p v o1)) = length (db_hashTable o1)" by (simp add: inserted_def)
  have ptr': "k < Suc (length (db_thumbnails o1))"
    if "h < length (db_hashTable o1)" "k \<in> set (db_hashTable (inserted bh p v o1) ! h)" for h k
    using that ptr [of h k] b(1) by (auto simp: inserted_def nth_list_update split: if_splits)
  have "buckets_ok bh p (length v) s o1" using inv by (simp add: db_inv_def)
  then have "buckets_ok bh p (length v) s (inserted bh p v o1)"
    using new b(1,2) ptr' unfolding buckets_ok_def len by (auto simp: inserted_def)
  then show "db_inv bh p (length v) s (inserted bh p v o1)"
    using inv by (simp add: db_inv_def inserted_def)
  show "db_images (inserted bh p v o1) = insert v (db_images o1)"
  proof -
    have "set (bucket_images (inserted bh p v o1) h) = (if h = ?b then insert v else id) (set (bucket_images o1 h))"
      if "h < length (db_hashTable o1)" for h
      using new [OF that] by auto
    then show ?thesis using b(1) by (auto simp: db_images_def len split: if_splits)
  qed
qed

text \<open>The loops over all processes.\<close>

lemma stored_images_nth: "stored_images ps = (\<Union>s<length ps. db_images (objs ps ! s))"
proof -
  have "set (objs ps) = (\<lambda>s. objs ps ! s) ` {..<length ps}" 
    using arg_cong [OF map_nth [of "objs ps"], of set, symmetric] by (simp only: set_map set_upt length_map lessThan_atLeast0)
  then show ?thesis by (simp only: stored_images_def image_image)
qed

lemma insert_blocks_group:
  assumes grp: "db_group bh (length v) ps" and small: "vd_small (length parts)"
    and g: "exchange_hashes bh ps1 = Inr ps2" "gather_thumbnail bh ps2 = Inr ps3" "group_in_step ps3"
      "objs ps3 = map (\<lambda>s. gathered bh (vd_bytes parts) (length ps) v s (objs ps ! s)) [0..<length ps]"
  shows "\<exists>qs. insert_blocks bh ps1 = Inr qs \<and> db_group bh (length v) qs \<and> stored_images qs = insert v (stored_images ps) \<and>
    length qs = length ps"
proof -
  let ?p = "length ps" and ?d = "image_owner bh (length ps) v"
  let ?g = "\<lambda>s. gathered bh (vd_bytes parts) (length ps) v s (objs ps ! s)"
  let ?f = "\<lambda>s o1. if s = ?d then inserted bh ?p v o1 else o1"
  have p: "0 < ?p" "?p < 2 ^ 31" "length v < 2 ^ 31" and inv: "\<And>s. s < ?p \<Longrightarrow> db_inv bh ?p (length v) s (objs ps ! s)"
    using grp by (auto simp: db_group_def)
  have len: "length ps3 = ?p" using arg_cong [OF g(4), of length] by simp
  have nth: "objs ps3 ! s = ?g s" if "s < ?p" for s unfolding g(4) using that by simp
  have gi: "db_inv bh ?p (length v) s (?g s)" if "s < ?p" for s using db_inv_gathered [OF inv [OF that] that small] .
  have "\<exists>qs. on_all (insert_entry bh) ps3 = Inr qs \<and> objs qs = map (\<lambda>s. ?f s (objs ps3 ! s)) [0..<length ps3] \<and>
    map step_view qs = map step_view ps3"
  proof (rule on_all_eq)
    fix s assume "s < length ps3"
    then have s: "s < ?p" using len by simp
    show "insert_entry bh s (objs ps3 ! s) = Inr (?f s (objs ps3 ! s))"
      unfolding nth [OF s] by (rule insert_entry_eq [OF gi [OF s] p(1,2) s]) simp_all
  qed
  then obtain qs where q: "on_all (insert_entry bh) ps3 = Inr qs" "objs qs = map (\<lambda>s. ?f s (objs ps3 ! s)) [0..<length ps3]"
    "map step_view qs = map step_view ps3" by blast
  have objs: "objs qs = map (\<lambda>s. ?f s (?g s)) [0..<?p]"
    unfolding q(2) len using nth by (intro map_cong refl) (simp only: set_upt atLeastLessThan_iff)
  have lq: "length qs = ?p" using arg_cong [OF objs, of length] by simp
  have d: "?d < ?p" using p(1) by (rule image_owner_less)
  have nthq: "objs qs ! s = ?f s (?g s)" if "s < ?p" for s unfolding objs using that by simp
  have ok: "db_inv bh ?p (length v) s (?f s (?g s)) \<and>
      db_images (?f s (?g s)) = (if s = ?d then insert v (db_images (objs ps ! s)) else db_images (objs ps ! s))" if "s < ?p" for s
    using inserted_ok [OF gi [OF that] p(1)] gi [OF that] by auto
  have "db_group bh (length v) (sync_all qs)"
    using p q(3) g(3) ok nthq lq in_step_view [of qs ps3] by (auto simp: db_group_def simp del: nth_map)
  moreover have "stored_images (sync_all qs) = insert v (stored_images ps)"
  proof -
    have "stored_images (sync_all qs) = (\<Union>s<?p. db_images (?f s (?g s)))"
      by (simp only: stored_images_def objs_sync_all objs set_map set_upt image_image lessThan_atLeast0)
    also have "\<dots> = (\<Union>s<?p. if s = ?d then insert v (db_images (objs ps ! s)) else db_images (objs ps ! s))"
      using ok by auto
    also have "\<dots> = insert v (\<Union>s<?p. db_images (objs ps ! s))" using d by (auto split: if_splits)
    also have "(\<Union>s<?p. db_images (objs ps ! s)) = stored_images ps"
      by (simp add: stored_images_nth)
    finally show ?thesis .
  qed
  ultimately show ?thesis using g(1,2) q(1) lq by (simp add: insert_blocks_def)
qed

lemma db_group_upd_head:
  assumes "db_group bh n ps" and "\<And>p s o1. db_inv bh p n s o1 \<Longrightarrow> db_inv bh p n s (f o1)"
  shows "db_group bh n (upd_head f ps)"
proof -
  have "objs (upd_head f ps) ! s = (if s = 0 then f (objs ps ! s) else objs ps ! s)" if "s < length ps" for s
    using that by (cases ps) (auto simp: nth_Cons')
  moreover have "length (upd_head f ps) = length ps" by (cases ps) simp_all
  ultimately show ?thesis using assms by (auto simp: db_group_def simp del: nth_map objs_upd_head)
qed

lemma stored_images_upd_head:
  assumes "\<And>o1. db_images (f o1) = db_images o1"
  shows "stored_images (upd_head f ps) = stored_images ps"
  using assms by (cases ps) (simp_all add: stored_images_def)

lemma db_group_dv:
  assumes "db_group bh n ps"
  shows "db_group bh n (upd_head (\<lambda>o1. o1\<lparr>db_dv := vd_bytes parts\<rparr>) ps)"
    "db_dv (objs (upd_head (\<lambda>o1. o1\<lparr>db_dv := vd_bytes parts\<rparr>) ps) ! 0) = vd_bytes parts"
    "stored_images (upd_head (\<lambda>o1. o1\<lparr>db_dv := vd_bytes parts\<rparr>) ps) = stored_images ps"
    "length (upd_head (\<lambda>o1. o1\<lparr>db_dv := vd_bytes parts\<rparr>) ps) = length ps"
proof -
  show "db_group bh n (upd_head (\<lambda>o1. o1\<lparr>db_dv := vd_bytes parts\<rparr>) ps)"
    by (rule db_group_upd_head [OF assms]) (auto simp: db_inv_def buckets_ok_def bucket_images_def)
  show "db_dv (objs (upd_head (\<lambda>o1. o1\<lparr>db_dv := vd_bytes parts\<rparr>) ps) ! 0) = vd_bytes parts"
    using assms by (cases ps) (auto simp: db_group_def)
  show "stored_images (upd_head (\<lambda>o1. o1\<lparr>db_dv := vd_bytes parts\<rparr>) ps) = stored_images ps"
    by (rule stored_images_upd_head) (simp add: db_images_def bucket_images_def)
  show "length (upd_head (\<lambda>o1. o1\<lparr>db_dv := vd_bytes parts\<rparr>) ps) = length ps"
    by (cases ps) simp_all
qed

lemma only_owner_answers:
  "foldl (\<lambda>o1 m. case m of None \<Rightarrow> o1 | Some x \<Rightarrow> o1\<lparr>db_global_match := x\<rparr>) o1 (map (\<lambda>s. if s = d then Some x else None) [0..<k]) =
    (if d < k then o1\<lparr>db_global_match := x\<rparr> else o1)"
  by (induction k) (auto simp: less_Suc_eq)

lemma exist_group:
  assumes grp: "db_group bh (length v) ps" and dv: "db_dv (objs ps ! 0) = vd_bytes parts" and small: "vd_small (length parts)"
    and reads: "\<forall>s<length ps. reads_vector (reads s) (vd_bytes parts) v"
  shows "\<exists>qs. bsp_exist bh reads ps = Inr qs \<and> db_group bh (length v) qs \<and> stored_images qs = stored_images ps \<and>
    length qs = length ps \<and> db_global_match (objs qs ! 0) = (if v \<in> stored_images ps then 1 else 0)"
proof -
  let ?p = "length ps" and ?d = "image_owner bh (length ps) v"
  let ?g = "\<lambda>s. gathered bh (vd_bytes parts) (length ps) v s (objs ps ! s)"
  obtain ps1 ps2 ps3 where g: "read_blocks reads ps = Inr ps1" "exchange_hashes bh ps1 = Inr ps2" "gather_thumbnail bh ps2 = Inr ps3"
    "group_in_step ps3" "objs ps3 = map ?g [0..<?p]"
    using image_gathered [OF assms] by blast
  have p: "0 < ?p" "?p < 2 ^ 31" "length v < 2 ^ 31" and inv: "\<And>s. s < ?p \<Longrightarrow> db_inv bh ?p (length v) s (objs ps ! s)"
    using grp by (auto simp: db_group_def)
  have gi: "db_inv bh ?p (length v) s (?g s)" if "s < ?p" for s using db_inv_gathered [OF inv [OF that] that small] .
  have len: "length ps3 = ?p" using arg_cong [OF g(5), of length] by simp
  have d: "?d < ?p" using p(1) by (rule image_owner_less)
  let ?x = "if v \<in> stored_images ps then 1 else 0 :: c_int"
  have stored: "v \<in> stored_images ps \<longleftrightarrow> v \<in> set (bucket_images (?g ?d) (bucket_of bh ?p v))"
    using in_images_iff [OF inv p(1) refl] d by (auto simp: stored_images_nth)
  have entry: "exist_entry bh s (?g s) = Inr (if s = ?d then Some ?x else None)" if s: "s < ?p" for s
  proof (cases "s = ?d")
    case True
    have "dst_proc bh (?g s) = of_nat ?d" using gi [OF s] p(1) by (intro dst_proc_eq) (simp_all add: db_inv_def)
    moreover have "modulus_hash bh (?g s) = of_nat (image_hash bh ?p v)" by (rule modulus_hash_eq) simp
    moreover note b = owner_bucket [OF gi [OF s] p(1) True]
    moreover have "find_collision (db_thumbnails (?g s)) v (db_hashTable (?g s) ! bucket_of bh ?p v) = Inr (v \<in> stored_images ps)"
      using bucket_lookup [OF gi [OF s] b(1), of "[]"] stored True by simp
    ultimately show ?thesis using True by (simp add: exist_entry_def vector_at_def)
  next
    case False
    have "dst_proc bh (?g s) = of_nat ?d" using gi [OF s] p(1) by (intro dst_proc_eq) (simp_all add: db_inv_def)
    moreover have "(of_nat s :: c_int) \<noteq> of_nat ?d" using False s d p(2) by (subst pid_inject) simp_all
    ultimately show ?thesis using False by (simp add: exist_entry_def)
  qed
  let ?found = "map (\<lambda>s. if s = ?d then Some ?x else None) [0..<?p]"
  have "mapE (\<lambda>s. exist_entry bh s (?g s)) [0..<?p] = Inr ?found" using entry by (intro mapE_eq_map) simp
  then have found: "mapE (\<lambda>(s, o1). exist_entry bh s o1) (enumerate 0 (objs ps3)) = Inr ?found"
    by (simp only: g(5) enumerate_map_upt mapE_map comp_def case_prod_conv)
  define f where "f = (\<lambda>o1 :: image_db. foldl (\<lambda>o1 m. case m of None \<Rightarrow> o1 | Some x \<Rightarrow> o1\<lparr>db_global_match := x\<rparr>) o1 ?found)"
  have f: "f o1 = o1\<lparr>db_global_match := ?x\<rparr>" for o1 unfolding f_def only_owner_answers using d by simp
  have nth: "objs ps3 ! s = ?g s" if "s < ?p" for s unfolding g(5) using that by simp
  have "db_group bh (length v) ps3"
    using p g(4) gi nth len by (auto simp: db_group_def simp del: nth_map)
  then have "db_group bh (length v) (upd_head f ps3)"
    by (rule db_group_upd_head) (auto simp: f db_inv_def buckets_ok_def bucket_images_def)
  then have grp': "db_group bh (length v) (sync_all (upd_head f ps3))" by (auto simp: db_group_def simp del: objs_upd_head nth_map)
  have "stored_images (sync_all (upd_head f ps3)) = stored_images (upd_head f ps3)"
    by (simp only: stored_images_def objs_sync_all)
  also have "\<dots> = stored_images ps3"
    by (rule stored_images_upd_head) (simp add: f db_images_def bucket_images_def)
  also have "\<dots> = stored_images ps" unfolding stored_images_nth len using nth by simp
  finally have st: "stored_images (sync_all (upd_head f ps3)) = stored_images ps" .
  have "db_global_match (objs (sync_all (upd_head f ps3)) ! 0) = ?x" using len p(1) by (cases ps3) (auto simp: f)
  moreover have "length (upd_head f ps3) = ?p" using len by (cases ps3) simp_all
  moreover have "bsp_exist bh reads ps = Inr (sync_all (upd_head f ps3))"
    using g(1-3) found by (simp only: bsp_exist_def bindE_Inr f_def)
  ultimately show ?thesis using grp' st by (intro exI [of _ "sync_all (upd_head f ps3)"]) (simp only: length_sync_all)
qed

section \<open>Construction\<close>

lemma db_block_eq: "0 < p \<Longrightarrow> db_block p = (if 12289 mod p \<noteq> 0 then 12289 div p + 1 else 12289 div p)"
proof -
  assume p: "0 < p"
  have "12289 + p - 1 = (p - 1 + 12289 mod p) + 12289 div p * p" using p div_mult_mod_eq [of 12289 p] by linarith
  then have "db_block p = ((p - 1 + 12289 mod p) + 12289 div p * p) div p" unfolding db_block_def by (simp only:)
  then have "db_block p = (p - 1 + 12289 mod p) div p + 12289 div p" using p by (simp only: div_mult_self1)
  moreover have "(p - 1 + 12289 mod p) div p = (if 12289 mod p \<noteq> 0 then 1 else 0)"
  proof (cases "12289 mod p = 0")
    case False
    define k where "k = 12289 mod p - 1"
    have "p - 1 + 12289 mod p = p + k" using p False by (simp add: k_def)
    moreover have "(p + k) div p = 1"
      using p by (simp add: k_def less_imp_diff_less div_add_self1 del: add_diff_assoc)
    ultimately show ?thesis using False by simp
  qed (use p in simp)
  ultimately show ?thesis by simp
qed

lemma ImageDatabase_eq:
  assumes "s < p" and "p < 2 ^ 31"
  shows "ImageDatabase mem (of_nat s) (of_nat p) =
    (if 12289 < db_block p * s then Inl Bad_alloc
     else Inr (mem\<lparr>db_procs_buf := replicate p 0, db_thumbnails := [],
       db_hashTable := replicate (min (db_block p) (12289 - db_block p * s)) [],
       db_hash_start := of_nat (db_block p * s),
       db_nhash := of_nat (min (db_block p) (12289 - db_block p * s)), db_hash_block := of_nat (db_block p),
       db_thumbnail_buf := [], db_dv := vd_bytes [zero_part], db_part := [], db_img := []\<rparr>))"
proof -
  let ?B = "db_block p"
  have p: "0 < p" using assms(1) by simp
  have B: "?B \<le> 12289" using p by (rule db_block_le)
  have H: "HASH_SIZE = of_nat 12289" by (simp add: HASH_SIZE_def)
  have dv1: "vector_distribution_base 1 = Inr (vd_bytes [zero_part])"
    using vector_distribution_base_eq [of 1] by (simp add: vd_small_def)
  have "?B * s < 12289 * 2 ^ 31" using B assms by (intro le_less_trans [OF mult_le_mono1 [OF B]]) simp
  then have small: "?B * s + ?B < 2 ^ 46" using B by simp
  have q: "div_int HASH_SIZE (of_nat p) = Inr (of_nat (12289 div p))"
    unfolding H using assms p by (intro div_int_of_nat) simp_all
  have r: "HASH_SIZE - of_nat (12289 div p) * of_nat p = (of_nat (12289 mod p) :: c_int)"
  proof -
    have "(of_nat 12289 :: c_int) = of_nat (12289 div p * p + 12289 mod p)" by (simp only: div_mult_mod_eq)
    then show ?thesis unfolding H by (simp only: of_nat_add of_nat_mult add_diff_cancel_left')
  qed
  have "12289 mod p < 2 ^ 31" by (rule le_less_trans [OF mod_less_eq_dividend]) simp
  then have r0: "(of_nat (12289 mod p) :: c_int) = 0 \<longleftrightarrow> 12289 mod p = 0"
    using pid_inject [of "12289 mod p" 0] by simp
  have dv: "12289 div p < 2 ^ 31" by (rule le_less_trans [OF div_le_dividend]) simp
  have blk: "(if 12289 mod p \<noteq> 0 then scast (of_nat (12289 div p) :: c_int) + 1 else scast (of_nat (12289 div p) :: c_int)) =
      (of_nat ?B :: size_t)"
    using dv by (simp add: db_block_eq [OF p])
  have start: "(of_nat ?B :: size_t) * scast (of_nat s :: c_int) = of_nat (?B * s)" using assms by simp
  have sH: "(scast HASH_SIZE :: size_t) = of_nat 12289" unfolding H by (rule scast_int_size) simp
  have le: "(of_nat (?B * s) :: size_t) + of_nat ?B \<le> of_nat 12289 \<longleftrightarrow> ?B * s + ?B \<le> 12289"
    using of_nat_size_le [of "?B * s + ?B" 12289] small by simp
  show ?thesis
  proof (cases "12289 < ?B * s")
    case True
    have eq: "(of_nat 12289 - of_nat (?B * s) :: size_t) = of_nat (2 ^ 64 - (?B * s - 12289))"
    proof -
      have "(of_nat (2 ^ 64 - (?B * s - 12289)) :: size_t) = of_nat (2 ^ 64) - of_nat (?B * s - 12289)"
        using small by (intro of_nat_diff) simp
      also have "(of_nat (?B * s - 12289) :: size_t) = of_nat (?B * s) - of_nat 12289" using True by (intro of_nat_diff) simp
      finally show ?thesis by simp
    qed
    have "unat (of_nat 12289 - of_nat (?B * s) :: size_t) = 2 ^ 64 - (?B * s - 12289)"
      unfolding eq using True by (intro unat_size_of_nat) simp
    then have "2 ^ 63 div 24 < unat (of_nat 12289 - of_nat (?B * s) :: size_t)" using small by simp
    then show ?thesis
      using True le unfolding ImageDatabase_def q bindE_Inr r r0 Let_def blk start sH
      by (simp add: dv1)
  next
    case False
    let ?m = "min ?B (12289 - ?B * s)"
    have nhash: "(if (of_nat (?B * s) :: size_t) + of_nat ?B \<le> of_nat 12289 then of_nat ?B else of_nat 12289 - of_nat (?B * s)) =
        (of_nat ?m :: size_t)"
      using False le by (auto simp: min_def of_nat_diff)
    have "unat (of_nat ?m :: size_t) = ?m" using B by (intro unat_size_of_nat) (simp add: min_def)
    then show ?thesis
      using False B assms unfolding ImageDatabase_def q bindE_Inr r r0 Let_def blk start sH nhash
      by (simp add: dv1)
  qed
qed

lemma set_img_params_eq:
  assumes "db_width o1 = of_nat w" "db_height o1 = of_nat h" and "w < 2 ^ 31" "h < 2 ^ 31" "w * h < 2 ^ 31"
    and s: "s < p" and p: "p < 2 ^ 31"
  shows "set_img_params_local p s o1 = Inr (o1\<lparr>db_full_size := of_nat (w * h),
    db_part_offset := of_nat (block_begin (w * h) p s), db_part_size := of_nat (block_size (w * h) p s),
    db_part := vec_resize (block_size (w * h) p s) 0 (db_part o1),
    db_thumbnail_buf := vec_resize (w * h) 0 (db_thumbnail_buf o1)\<rparr>)"
proof -
  have le: "block_begin (w * h) p s + block_size (w * h) p s \<le> w * h" using s by (rule block_size_le)
  have "mul_int (db_width o1) (db_height o1) = Inr (of_nat (w * h))"
    unfolding assms(1,2) using assms(3-5) by (rule mul_int_of_nat)
  moreover have "(scast (of_nat (w * h) :: c_int) :: size_t) = of_nat (w * h)" using assms(5) by (rule scast_int_size)
  moreover have "unat (of_nat (block_size (w * h) p s) :: size_t) = block_size (w * h) p s"
    using le assms(5) by (intro unat_size_of_nat) simp
  moreover have "unat (of_nat (w * h) :: size_t) = w * h" using assms(5) by (intro unat_size_of_nat) simp
  ultimately show ?thesis
    using div_range_eq [OF assms(5) s p] le assms(5) by (simp add: set_img_params_local_def Let_def del: of_nat_mult)
qed

text \<open>What a process of the actor holds when it has just been constructed.\<close>

definition constructed :: "image_db actor_base list \<Rightarrow> bool" where
  "constructed ps \<longleftrightarrow> group_in_step ps \<and>
     (\<forall>s<length ps. \<exists>mem. ImageDatabase mem (of_nat s) (of_nat (length ps)) = Inr (objs ps ! s))"

lemma set_params_group:
  assumes new: "constructed ps" and p: "0 < length ps" "length ps < 2 ^ 31"
    and wh: "w < 2 ^ 31" "h < 2 ^ 31" "w * h < 2 ^ 31"
  shows "\<exists>qs. setImgParams (of_nat w) (of_nat h) depth ps = Inr qs \<and> db_group bh (w * h) qs \<and> stored_images qs = {} \<and>
    length qs = length ps"
proof -
  let ?p = "length ps"
  let ?set = "\<lambda>o1. o1\<lparr>db_width := of_nat w, db_height := of_nat h, db_nbitPix := depth\<rparr>"
  let ?local = "\<lambda>s o1. o1\<lparr>db_full_size := of_nat (w * h),
    db_part_offset := of_nat (block_begin (w * h) ?p s), db_part_size := of_nat (block_size (w * h) ?p s),
    db_part := vec_resize (block_size (w * h) ?p s) 0 (db_part o1),
    db_thumbnail_buf := vec_resize (w * h) 0 (db_thumbnail_buf o1)\<rparr>"
  obtain a rest where ps: "ps = a # rest" using p by (cases ps) auto
  define ps1 where "ps1 = get_from_head copy_img_params (upd_head ?set ps)"
  have l0: "length (upd_head ?set ps) = ?p" by (simp add: ps)
  have o1: "objs ps1 = map (\<lambda>s. if s = 0 then objs (upd_head ?set ps) ! 0
      else copy_img_params (objs (upd_head ?set ps) ! 0) (objs (upd_head ?set ps) ! s)) [0..<?p]"
    unfolding ps1_def objs_get_from_head l0 ..
  have len: "length ps1 = ?p" using arg_cong [OF o1, of length] by simp
  have nth: "objs ps1 ! s = ?set (objs ps ! s)" if "s < ?p" for s
    unfolding o1 using that by (auto simp: ps copy_img_params_def nth_Cons' simp del: upt_Suc)
  have step: "group_in_step ps1" using new by (simp add: ps1_def constructed_def)
  have "\<exists>qs. on_all (set_img_params_local ?p) ps1 = Inr qs \<and> objs qs = map (\<lambda>s. ?local s (objs ps1 ! s)) [0..<length ps1] \<and>
    map step_view qs = map step_view ps1"
  proof (rule on_all_eq)
    fix s assume "s < length ps1"
    then have s: "s < ?p" using len by simp
    show "set_img_params_local ?p s (objs ps1 ! s) = Inr (?local s (objs ps1 ! s))"
      by (rule set_img_params_eq [OF _ _ wh s p(2)]) (simp_all only: nth [OF s], simp_all)
  qed
  then obtain qs where q: "on_all (set_img_params_local ?p) ps1 = Inr qs"
    "objs qs = map (\<lambda>s. ?local s (objs ps1 ! s)) [0..<length ps1]" "map step_view qs = map step_view ps1" by blast
  have lq: "length qs = ?p" using arg_cong [OF q(2), of length] len by simp
  have nq: "objs qs ! s = ?local s (?set (objs ps ! s))" if "s < ?p" for s
    unfolding q(2) using that len nth by (simp del: nth_map upt_Suc) (simp only: nth_map length_upt, simp)
  have inv: "db_inv bh ?p (w * h) s (objs qs ! s) \<and> db_images (objs qs ! s) = {}" if s: "s < ?p" for s
  proof -
    obtain mem where mem: "ImageDatabase mem (of_nat s) (of_nat ?p) = Inr (objs ps ! s)" using new s by (auto simp: constructed_def)
    then have le: "\<not> 12289 < db_block ?p * s" and eq: "objs ps ! s = mem\<lparr>db_procs_buf := replicate ?p 0, db_thumbnails := [],
       db_hashTable := replicate (min (db_block ?p) (12289 - db_block ?p * s)) [],
       db_hash_start := of_nat (db_block ?p * s),
       db_nhash := of_nat (min (db_block ?p) (12289 - db_block ?p * s)), db_hash_block := of_nat (db_block ?p),
       db_thumbnail_buf := [], db_dv := vd_bytes [zero_part], db_part := [], db_img := []\<rparr>"
      using ImageDatabase_eq [OF s p(2), of mem] by (simp_all split: if_splits del: nth_map)
    show ?thesis
      unfolding nq [OF s] eq using le
      by (auto simp: db_inv_def buckets_ok_def bucket_images_def db_images_def vd_small_def min_def)
  qed
  have "db_group bh (w * h) (sync_all qs)"
    using p wh(3) inv lq q(3) step in_step_view [of qs ps1] by (auto simp: db_group_def simp del: nth_map)
  moreover have "stored_images (sync_all qs) = {}"
    unfolding stored_images_nth using inv lq by (auto simp del: nth_map)
  moreover have "setImgParams (of_nat w) (of_nat h) depth ps = Inr (sync_all qs)"
    using q(1) by (simp add: setImgParams_def bsp_set_img_params_def l0 flip: ps1_def)
  ultimately show ?thesis using lq by simp
qed

section \<open>Requests\<close>

text \<open>The messages that give the image back can always be built.\<close>

lemma dv_release_sent: "vd_small (length parts) \<Longrightarrow> \<exists>sent. dv_release blocks (vd_bytes parts) = Inr sent"
proof -
  assume small: "vd_small (length parts)"
  have "release_part blocks (vd_bytes parts) i = Inr (projr (release_part blocks (vd_bytes parts) i))"
    if i: "i < length parts" for i
  proof -
    obtain buf where "ReleaseResultPartMessage (blocks i) (vp_resid (parts ! i)) = Inr (fresh_message (blocks i) buf)"
      "length buf < 2 ^ 31"
      using relpart_encode by blast
    then show ?thesis
      using getPart_eq [OF small i] by (simp add: release_part_def sendAsyncActorMessage_def mpi_send_all)
  qed
  then have "mapE (release_part blocks (vd_bytes parts)) [0..<length parts] =
      Inr (map (\<lambda>i. projr (release_part blocks (vd_bytes parts) i)) [0..<length parts])"
    by (intro mapE_eq_map) simp
  moreover have "length parts < 2 ^ 31" using small by (simp add: vd_small_def)
  ultimately show ?thesis by (simp add: dv_release_def)
qed

lemma future_release_sent: "fu_dataRetriever fu \<noteq> None \<Longrightarrow> \<exists>mm. future_release b fu = Inr mm"
proof -
  assume "fu_dataRetriever fu \<noteq> None"
  then obtain r where r: "fu_dataRetriever fu = Some r" by blast
  obtain buf where "ReleaseFutureMessage b (lr_key r) = Inr (fresh_message b buf)" "length buf < 2 ^ 31"
    using release_encode by blast
  then show ?thesis using r by (simp add: future_release_def releaseData_def sendActorMessage_fresh)
qed

lemma db_insert_group:
  assumes grp: "db_group bh (length v) ps" and small: "vd_small (length parts)"
    and reads: "\<forall>s<length ps. reads_vector (reads s) (vd_bytes parts) v" and img: "fu_dataRetriever img \<noteq> None"
  shows "\<exists>sent qs. db_insert blocks b bh reads (vd_bytes parts) img ps = Inr (sent, qs) \<and> db_group bh (length v) qs \<and>
    stored_images qs = insert v (stored_images ps) \<and> length qs = length ps"
proof -
  let ?ps = "upd_head (\<lambda>o1. o1\<lparr>db_dv := vd_bytes parts\<rparr>) ps"
  note h = db_group_dv [OF grp, of parts]
  have reads': "\<forall>s<length ?ps. reads_vector (reads s) (vd_bytes parts) v" using reads h(4) by simp
  obtain ps1 ps2 ps3 where g: "read_blocks reads ?ps = Inr ps1" "exchange_hashes bh ps1 = Inr ps2" "gather_thumbnail bh ps2 = Inr ps3"
    "group_in_step ps3" "objs ps3 = map (\<lambda>s. gathered bh (vd_bytes parts) (length ?ps) v s (objs ?ps ! s)) [0..<length ?ps]"
    using image_gathered [OF h(1,2) small reads'] by blast
  obtain qs where q: "insert_blocks bh ps1 = Inr qs" "db_group bh (length v) qs" "stored_images qs = insert v (stored_images ?ps)"
    "length qs = length ?ps"
    using insert_blocks_group [OF h(1) small g(2-5)] by blast
  have "bsp_insert bh reads ?ps = Inr qs" using g(1) q(1) by (simp add: bsp_insert_def)
  then show ?thesis
    using dv_release_sent [OF small, of blocks] future_release_sent [OF img, of b] q h(3,4) by (auto simp: db_insert_def)
qed

text \<open>
  A sequence of calls: insertions (True) and lookups (False) of distributed images, with the results
  the client gets. The specification keeps a set.
\<close>

fun serve_requests ::
  "(nat \<Rightarrow> block) \<Rightarrow> block \<Rightarrow> boost_hash \<Rightarrow> (nat \<Rightarrow> reader) \<Rightarrow> (bool \<times> vector_distribution \<times> future) list \<Rightarrow>
    image_db actor_base list \<Rightarrow> (c_int list \<times> image_db actor_base list) result"
where
  "serve_requests blocks b bh reads [] ps = Inr ([], ps)"
| "serve_requests blocks b bh reads ((ins, dv, img) # rs) ps =
     bindE (if ins then bindE (db_insert blocks b bh reads dv img ps) (\<lambda>(sent, qs). Inr (0, qs)) else exist bh reads dv ps)
       (\<lambda>(x, ps1). bindE (serve_requests blocks b bh reads rs ps1) (\<lambda>(xs, ps2). Inr (x # xs, ps2)))"

fun set_answers :: "(bool \<times> byte list) list \<Rightarrow> byte list set \<Rightarrow> c_int list" where
  "set_answers [] S = []"
| "set_answers ((ins, v) # rs) S =
     (if ins then 0 # set_answers rs (insert v S) else (if v \<in> S then 1 else 0) # set_answers rs S)"

definition request_ok :: "nat \<Rightarrow> nat \<Rightarrow> (nat \<Rightarrow> reader) \<Rightarrow> bool \<times> vector_distribution \<times> future \<Rightarrow> bool \<times> byte list \<Rightarrow> bool" where
  "request_ok p n reads r q \<longleftrightarrow> fst r = fst q \<and> length (snd q) = n \<and> (fst q \<longrightarrow> fu_dataRetriever (snd (snd r)) \<noteq> None) \<and>
     (\<exists>parts. fst (snd r) = vd_bytes parts \<and> vd_small (length parts)) \<and>
     (\<forall>s<p. reads_vector (reads s) (fst (snd r)) (snd q))"

lemma serve_requests_set:
  assumes "list_all2 (request_ok p n reads) rs qs" and "db_group bh n ps" and "length ps = p"
  shows "\<exists>ps'. serve_requests blocks b bh reads rs ps = Inr (set_answers qs (stored_images ps), ps') \<and> db_group bh n ps'"
  using assms
proof (induction rs qs arbitrary: ps rule: list_all2_induct)
  case Nil
  then show ?case by simp
next
  case (Cons r rs q qs)
  obtain ins dv img where r: "r = (ins, dv, img)" by (cases r)
  obtain v where q: "q = (ins, v)" using Cons.hyps(1) r by (cases q) (auto simp: request_ok_def)
  have ok: "request_ok (length ps) n reads r q" using Cons.hyps(1) Cons.prems(2) by simp
  obtain parts where parts: "dv = vd_bytes parts" "vd_small (length parts)" using ok r by (auto simp: request_ok_def)
  have v: "length v = n" and reads: "\<forall>s<length ps. reads_vector (reads s) (vd_bytes parts) v"
    and img: "ins \<Longrightarrow> fu_dataRetriever img \<noteq> None"
    using ok r q parts by (auto simp: request_ok_def)
  show ?case
  proof (cases ins)
    case True
    obtain sent ps1 where i: "db_insert blocks b bh reads (vd_bytes parts) img ps = Inr (sent, ps1)" "db_group bh n ps1"
      "stored_images ps1 = insert v (stored_images ps)" "length ps1 = length ps"
      using db_insert_group [OF _ parts(2) reads img [OF True]] Cons.prems v by blast
    then show ?thesis using Cons.IH [of ps1] Cons.prems(2) r q parts True by auto
  next
    case False
    let ?ps = "upd_head (\<lambda>o1. o1\<lparr>db_dv := vd_bytes parts\<rparr>) ps"
    have grp: "db_group bh (length v) ps" using Cons.prems v by simp
    note h = db_group_dv [OF grp, of parts]
    have reads': "\<forall>s<length ?ps. reads_vector (reads s) (vd_bytes parts) v" using reads h(4) by simp
    obtain ps1 where e: "bsp_exist bh reads ?ps = Inr ps1" "db_group bh (length v) ps1" "stored_images ps1 = stored_images ?ps"
      "length ps1 = length ?ps" "db_global_match (objs ps1 ! 0) = (if v \<in> stored_images ?ps then 1 else 0)"
      using exist_group [OF h(1,2) parts(2) reads'] by blast
    obtain a rest where "ps1 = a # rest" using e(2) by (cases ps1) (auto simp: db_group_def)
    then have "exist bh reads (vd_bytes parts) ps = Inr (if v \<in> stored_images ps then 1 else 0, ps1)"
      using e h(3) by (simp add: exist_def)
    then show ?thesis using Cons.IH [of ps1] Cons.prems(2) e h(3,4) r q parts False v by auto
  qed
qed

section \<open>Properties\<close>

text \<open>
  Property C23: on at most 111 processes the constructor and \<^verbatim>\<open>setImgParams\<close> make an empty database: the
  ranges of buckets cover the table of 12289 buckets, the blocks cover an image, and the invariant of
  every process holds.
\<close>

theorem database_ready:
  assumes "length ps \<le> 111" and "ps \<noteq> []" and "group_in_step ps"
    and "\<forall>s<length ps. objs ps ! s = projr (ImageDatabase (mem s) (of_nat s) (of_nat (length ps)))"
    and "w < 2 ^ 31" "h < 2 ^ 31" "w * h < 2 ^ 31"
  shows "\<exists>qs. setImgParams (of_nat w) (of_nat h) depth ps = Inr qs \<and> db_group bh (w * h) qs \<and> stored_images qs = {}"
proof -
  let ?p = "length ps"
  have p: "0 < ?p" "?p < 2 ^ 31" using assms(1,2) by simp_all
  have "db_block ?p * s \<le> 12289" if s: "s < ?p" for s
  proof -
    obtain m where m: "?p = Suc m" using p by (cases ?p) simp_all
    have "db_block ?p * ?p \<le> 12289 + ?p - 1" unfolding db_block_def by (rule div_times_less_eq_dividend)
    then have "db_block ?p * ?p * m \<le> (12289 + m) * m" unfolding m by (intro mult_le_mono1) simp
    also have "\<dots> \<le> 12289 * m + 110 * 110"
      using assms(1) m mult_le_mono [of m 110 m 110] by (simp add: add_mult_distrib)
    also have "\<dots> \<le> 12289 * ?p" by (simp add: m)
    finally have "db_block ?p * m * ?p \<le> 12289 * ?p" by (simp only: mult.commute mult.left_commute mult.assoc)
    then have upper: "db_block ?p * (?p - 1) \<le> 12289" using p m by (simp only: mult_le_cancel2 diff_Suc_1)
    have "db_block ?p * s \<le> db_block ?p * (?p - 1)" by (rule mult_le_mono2) (use s in simp)
    from this upper show ?thesis by (rule le_trans)
  qed
  then have "constructed ps"
    using assms(3,4) ImageDatabase_eq [OF _ p(2)] by (auto simp: constructed_def simp del: nth_map) (metis not_le sum.sel(2))
  from set_params_group [OF this p assms(5-7)] show ?thesis by blast
qed

text \<open>
  With so many processes that the range of the last ones would begin behind the table the
  number of buckets of such a process wraps around, and its constructor cannot allocate them.
\<close>

theorem too_many_processes:
  assumes "s < p" and "p < 2 ^ 31" and "12289 < db_block p * s"
  shows "ImageDatabase mem (of_nat s) (of_nat p) = Inl Bad_alloc"
  using assms by (simp add: ImageDatabase_eq)

theorem too_many_processes_witness: "\<forall>mem. ImageDatabase mem 116 117 = Inl Bad_alloc"
  using too_many_processes [of 116 117] by (simp add: db_block_def)

text \<open>
  Property C21: clients of the database see a set of images: in any sequence of insertions and lookups of
  distributed images an insertion answers 0 and a lookup answers 1 exactly for the images that were
  inserted before, and the invariant holds in the end. So equal hashes of different images do no harm,
  and it does not matter how an image is distributed.
\<close>

theorem database_is_a_set:
  assumes "db_group bh n ps" and "list_all2 (request_ok (length ps) n reads) rs qs"
  shows "\<exists>ps'. serve_requests blocks b bh reads rs ps = Inr (set_answers qs (stored_images ps), ps') \<and> db_group bh n ps'"
  using serve_requests_set [OF assms(2,1) refl] .

text \<open>A database of two processes for images of four pixels, with a hash that is always 0.\<close>

definition zero_hash :: boost_hash where
  "zero_hash = \<lparr>hash_chars = \<lambda>bs. 0, hash_sizes = \<lambda>hs. 0\<rparr>"

definition empty_db :: image_db where
  "empty_db = \<lparr>db_width = 0, db_height = 0, db_nbitPix = 0, db_part_offset = 0, db_part_size = 0, db_full_size = 0,
     db_procs_buf = [], db_global_match = 0, db_path = [], db_thumbnails = [], db_hashTable = [], db_hash_start = 0,
     db_nhash = 0, db_hash_block = 0, db_thumbnail_buf = [], db_dv = [], db_part = [], db_img = []\<rparr>"

definition two_databases :: "image_db actor_base list" where
  "two_databases = new_group (map (\<lambda>s. projr (ImageDatabase empty_db (of_nat s) (of_nat (2 :: nat)))) [0..<2])"

lemma two_databases_ok:
  "length two_databases = 2" "group_in_step two_databases" "two_databases \<noteq> []"
  "s < 2 \<Longrightarrow> objs two_databases ! s = projr (ImageDatabase empty_db (of_nat s) (of_nat (length two_databases)))"
proof -
  let ?os = "map (\<lambda>s. projr (ImageDatabase empty_db (of_nat s) (of_nat (2 :: nat)))) [0..<2]"
  note g = new_group_ok [of ?os, folded two_databases_def]
  show l: "length two_databases = 2" using g(3) by simp
  then show "two_databases \<noteq> []" by auto
  show "group_in_step two_databases" by (rule g(2))
  show "s < 2 \<Longrightarrow> objs two_databases ! s = projr (ImageDatabase empty_db (of_nat s) (of_nat (length two_databases)))"
    unfolding l g(1) by simp
qed

lemma two_databases_constructed: "constructed two_databases"
proof -
  have "db_block 2 * s \<le> 12289" if "s < 2" for s using that by (auto simp: db_block_def less_2_cases_iff)
  then have "\<exists>o1. ImageDatabase empty_db (of_nat s) (of_nat 2) = Inr o1" if "s < 2" for s
    using ImageDatabase_eq [of s 2 empty_db] that by (simp add: not_less)
  then show ?thesis
    unfolding constructed_def using two_databases_ok by (metis sum.sel(2))
qed

theorem database_ready_witness:
  "\<exists>qs. setImgParams 2 2 8 two_databases = Inr qs \<and> db_group zero_hash 4 qs \<and> stored_images qs = {}"
  using database_ready [of two_databases "\<lambda>s. empty_db" 2 2 8 zero_hash] two_databases_ok by simp

theorem database_is_a_set_witness:
  "\<exists>ps ps' reads. setImgParams 2 2 8 two_databases = Inr ps \<and>
    serve_requests (\<lambda>i. \<lparr>bl_addr = 0, bl_mem = \<lambda>i. 0\<rparr>) \<lparr>bl_addr = 0, bl_mem = \<lambda>i. 0\<rparr> zero_hash reads
      [(True, vd_bytes [], FutureBase (Some (LazyFutureDataRetriever 0 1))),
       (False, vd_bytes [], FutureBase None), (False, vd_bytes [zero_part], FutureBase None)] ps = Inr ([0, 1, 0], ps')"
proof -
  let ?b = "\<lparr>bl_addr = 0, bl_mem = \<lambda>i. 0\<rparr>" and ?img = "FutureBase (Some (LazyFutureDataRetriever 0 1))"
  let ?v = "[1, 2, 3, 4] :: byte list" and ?w = "[4, 3, 2, 1] :: byte list"
  let ?reads = "\<lambda>s :: nat. direct_reader (\<lambda>dv. if dv = vd_bytes [] then ?v else ?w)"
  let ?rs = "[(True, vd_bytes [], ?img), (False, vd_bytes [], FutureBase None), (False, vd_bytes [zero_part], FutureBase None)]"
  let ?qs = "[(True, ?v), (False, ?v), (False, ?w)]"
  obtain ps where ps: "setImgParams 2 2 8 two_databases = Inr ps" "db_group zero_hash 4 ps" "stored_images ps = {}" "length ps = 2"
    using set_params_group [OF two_databases_constructed, of 2 2 8 zero_hash] two_databases_ok(1) by auto
  have ne: "vd_bytes [zero_part] \<noteq> vd_bytes []" by (rule notI) (drule arg_cong [of _ _ length], simp)
  have "reads_vector (?reads s) (vd_bytes []) ?v" "reads_vector (?reads s) (vd_bytes [zero_part]) ?w" for s
    using ne by (auto intro!: direct_reader_reads)
  then have "list_all2 (request_ok (length ps) 4 ?reads) ?rs ?qs"
    by (auto simp: request_ok_def FutureBase_def vd_small_def intro: exI [of _ "[]"] exI [of _ "[zero_part]"])
  from database_is_a_set [OF ps(2) this, of "\<lambda>i. ?b" ?b] ps(3)
  obtain ps' where "serve_requests (\<lambda>i. ?b) ?b zero_hash ?reads ?rs ps = Inr ([0, 1, 0], ps')" by auto
  then show ?thesis using ps(1) by blast
qed

lemma first_block_smaller: "1 < p \<Longrightarrow> 1 < n \<Longrightarrow> block_size n p 0 < n"
proof -
  assume p: "1 < p" and n: "1 < n"
  show "block_size n p 0 < n"
  proof (cases "n < p")
    case True
    then show ?thesis using n by (simp add: block_size_def)
  next
    case False
    then have q: "1 \<le> n div p" using p by (simp add: div_greater_zero_iff Suc_le_eq)
    have "n div p * 2 \<le> n div p * p" using p by (intro mult_le_mono2) simp
    then have "n div p * 2 + n mod p \<le> n" using div_mult_mod_eq [of n p] by linarith
    then show ?thesis using q by (simp add: block_size_def)
  qed
qed

text \<open>The blocks the head puts, and the size it is left with.\<close>

lemma seq_blocks:
  assumes o1: "db_full_size o1 = of_nat n" "db_part_offset o1 = 0" "length (db_img o1) = n" and n: "n < 2 ^ 31" and p: "0 < p" "p < 2 ^ 31"
  shows "\<exists>blocks. mapE (seq_block o1 p) [0..<p] = Inr blocks \<and> fst (last blocks) = of_nat n \<and>
    map snd blocks = map (\<lambda>s. (of_nat s, 0, peek (block_begin n p s) (block_size n p s) (db_img o1))) [0..<p]"
proof -
  let ?size = "\<lambda>i. (of_nat (block_begin n p i + block_size n p i) :: size_t)"
  let ?b = "\<lambda>s. peek (block_begin n p s) (block_size n p s) (db_img o1)"
  have block: "seq_block o1 p i = Inr (?size i, (of_nat i, 0, ?b i))" if i: "i < p" for i
    using div_range_eq [OF n i p(2)] block_size_le [OF i, of n] o1 n by (simp add: seq_block_def mem_read_def)
  define blocks where "blocks = map (\<lambda>i. (?size i, (of_nat i :: c_int, 0 :: nat, ?b i))) [0..<p]"
  have blocks: "mapE (seq_block o1 p) [0..<p] = Inr blocks" unfolding blocks_def using block by (intro mapE_eq_map) simp
  have "Suc (p - 1) = p" using p(1) by simp
  then have "block_begin n p (p - 1) + block_size n p (p - 1) = n"
    using block_begin_Suc [of n p "p - 1"] block_begin_all [OF p(1), of n] by simp
  moreover have "last [0..<p] = p - 1" "[0..<p] \<noteq> []" using p(1) by simp_all
  ultimately have "fst (last blocks) = of_nat n" by (simp only: blocks_def last_map fst_conv simp_thms)
  moreover have "map snd blocks = map (\<lambda>s. (of_nat s, 0, ?b s)) [0..<p]" by (simp add: blocks_def)
  ultimately show ?thesis using blocks by blast
qed

text \<open>
  Property C31: inserting an image that is not distributed does not work on more than one process: the loop of
  \<^verbatim>\<open>insertSeq\<close> leaves the size of the whole image in \<^verbatim>\<open>_part_size\<close> of the head, which then puts that
  many bytes from its block.
\<close>

theorem insertSeq_reads_beyond:
  assumes grp: "db_group bh n ps" and p: "1 < length ps" and n: "1 < n" and img: "length img = n"
  shows "insertSeq bh img ps = Inl Out_of_bounds"
proof -
  let ?p = "length ps" and ?b = "\<lambda>s. peek (block_begin n (length ps) s) (block_size n (length ps) s) img"
  have g: "0 < ?p" "?p < 2 ^ 31" "n < 2 ^ 31" and inv: "\<And>s. s < ?p \<Longrightarrow> db_inv bh ?p n s (objs ps ! s)"
    using grp by (auto simp: db_group_def)
  obtain a rest where ps: "ps = a # rest" using p by (cases ps) auto
  let ?o = "(ab_obj a)\<lparr>db_img := img\<rparr>"
  have head: "db_full_size ?o = of_nat n" "db_part_offset ?o = 0" "length (db_img ?o) = n"
    using inv [of 0] p img by (simp_all add: ps db_inv_def)
  obtain blocks where blocks: "mapE (seq_block ?o ?p) [0..<?p] = Inr blocks" "fst (last blocks) = of_nat n"
    "map snd blocks = map (\<lambda>s. (of_nat s, 0, ?b s)) [0..<?p]"
    using seq_blocks [OF head g(3,1,2)] by auto
  let ?ps = "upd_head (\<lambda>o1. o1\<lparr>db_part_size := of_nat n\<rparr>) (a\<lparr>ab_obj := ?o\<rparr> # rest)"
  have len: "length ?ps = ?p" by (simp add: ps)
  have part: "db_part (objs ?ps ! s) = db_part (objs ps ! s)" "db_procs_buf (objs ?ps ! s) = db_procs_buf (objs ps ! s)"
    if "s < ?p" for s
    using that by (auto simp: ps nth_Cons')
  have sizes: "length (db_part (objs ?ps ! s)) = length (?b s)" "length (db_procs_buf (objs ?ps ! s)) = ?p" if s: "s < ?p" for s
    using inv [OF s] length_block [OF s, of img] img unfolding part [OF s] by (simp_all add: db_inv_def)
  have "bsp_deliver (map snd blocks) (map db_part (objs ?ps)) = Inr (map ?b [0..<?p] @ drop ?p (map db_part (objs ?ps)))"
    unfolding blocks(3)
  proof (rule bsp_deliver_each)
    show "\<forall>s<length (map db_part (objs ?ps)). length (map db_part (objs ?ps) ! s) = length (?b s)"
      using sizes(1) len by (simp del: upd_head.simps objs_upd_head)
  qed (use len g(2) in \<open>simp_all add: ps\<close>)
  moreover have "drop ?p (map db_part (objs ?ps)) = []" using len by (simp add: ps)
  ultimately have deliver: "bsp_deliver (map snd blocks) (map db_part (objs ?ps)) = Inr (map ?b [0..<?p])" by (simp only: append_Nil2)
  have "\<exists>qs. on_all (\<lambda>s o1. Inr (o1\<lparr>db_part := map ?b [0..<?p] ! s\<rparr>)) ?ps = Inr qs \<and>
    objs qs = map (\<lambda>s. (objs ?ps ! s)\<lparr>db_part := map ?b [0..<?p] ! s\<rparr>) [0..<length ?ps] \<and> map step_view qs = map step_view ?ps"
    by (rule on_all_eq) simp
  then obtain qs where q: "on_all (\<lambda>s o1. Inr (o1\<lparr>db_part := map ?b [0..<?p] ! s\<rparr>)) ?ps = Inr qs"
    "objs qs = map (\<lambda>s. (objs ?ps ! s)\<lparr>db_part := map ?b [0..<?p] ! s\<rparr>) [0..<length ?ps]" by blast
  have lq: "length qs = ?p" using arg_cong [OF q(2), of length] len by simp
  have "\<forall>o1\<in>set (objs (sync_all qs)). length (db_procs_buf o1) = length (sync_all qs)"
  proof
    fix o1 assume "o1 \<in> set (objs (sync_all qs))"
    then obtain s where s: "s < ?p" "o1 = (objs ?ps ! s)\<lparr>db_part := map ?b [0..<?p] ! s\<rparr>"
      unfolding objs_sync_all q(2) len by (auto simp del: upd_head.simps objs_upd_head)
    then show "length (db_procs_buf o1) = length (sync_all qs)"
      using sizes(2) [OF s(1)] lq by (simp del: upd_head.simps objs_upd_head)
  qed
  from exchange_hashes_all [OF this, of bh] obtain hs ps2 where e: "exchange_hashes bh (sync_all qs) = Inr ps2"
    "objs ps2 = map (\<lambda>o1. o1\<lparr>db_procs_buf := hs\<rparr>) (objs qs)" by auto
  obtain os where os: "objs qs = ?o\<lparr>db_part_size := of_nat n, db_part := ?b 0\<rparr> # os"
    unfolding q(2) len using p by (simp add: upt_conv_Cons ps)
  have "length (?b 0) < n" using first_block_smaller [OF p n] length_block [of 0 ?p img] g(1) img by simp
  then have "thumbnail_put bh (?o\<lparr>db_part_size := of_nat n, db_part := ?b 0, db_procs_buf := hs\<rparr>) = Inl Out_of_bounds"
    using g(3) by (simp add: thumbnail_put_def mem_read_def)
  then have "gather_thumbnail bh ps2 = Inl Out_of_bounds" by (simp add: gather_thumbnail_def e(2) os)
  then have "insert_blocks bh (sync_all qs) = Inl Out_of_bounds" using e(1) by (simp add: insert_blocks_def)
  then have "bsp_insert_seq bh (map snd blocks) ?ps = Inl Out_of_bounds"
    unfolding bsp_insert_seq_def deliver bindE_Inr q(1) .
  then show ?thesis using blocks(1,2) unfolding insertSeq_def ps by simp
qed

theorem insertSeq_reads_beyond_witness:
  "\<exists>ps. setImgParams 2 2 8 two_databases = Inr ps \<and> insertSeq zero_hash [1, 2, 3, 4] ps = Inl Out_of_bounds"
proof -
  obtain ps where "setImgParams 2 2 8 two_databases = Inr ps" "db_group zero_hash 4 ps" "length ps = 2"
    using set_params_group [OF two_databases_constructed, of 2 2 8 zero_hash] two_databases_ok(1) by auto
  then show ?thesis using insertSeq_reads_beyond [of zero_hash 4 ps "[1, 2, 3, 4]"] by auto
qed

end
