(* ===== verification/Image_Files.thy ===== *)
theory Image_Files
  imports Spmd_Group
begin

text \<open>
  Files as the actors of src/src/examples/imgproc see them, and the names of files they print.
\<close>

section \<open>Files\<close>

text \<open>
  Files: a map from names to contents, where repeated slashes in a name count as one. Opening a file
  for writing creates or truncates it.
\<close>

type_synonym files = "byte list \<rightharpoonup> byte list"

fun norm_path :: "byte list \<Rightarrow> byte list" where
  "norm_path [] = []"
| "norm_path [b] = [b]"
| "norm_path (b # c # bs) = (if b = 47 \<and> c = 47 then norm_path (c # bs) else b # norm_path (c # bs))"

definition PATH_MAX :: nat where
  "PATH_MAX = 4096"

section \<open>Logs\<close>

definition strncpy :: "nat \<Rightarrow> byte list \<Rightarrow> byte list" where
  "strncpy n str = take n (takeWhile (\<lambda>c. c \<noteq> 0) str @ replicate n 0)"

text \<open>Only \<^verbatim>\<open>sizeof(int)\<close> bytes of the length reach the other processes.\<close>

definition low_int :: "size_t \<Rightarrow> size_t \<Rightarrow> size_t" where
  "low_int new old = bytes_size (take 4 (size_bytes new) @ drop 4 (size_bytes old))"

section \<open>Names\<close>

lemma norm_path_plain: "47 \<notin> set x \<Longrightarrow> norm_path x = x"
  by (induction x rule: norm_path.induct) auto

lemma norm_path_append: "47 \<notin> set x \<Longrightarrow> norm_path (b @ x) = norm_path b @ x"
proof (induction b rule: norm_path.induct)
  case (2 c)
  then show ?case by (cases x) (auto simp: norm_path_plain)
qed (auto simp: norm_path_plain)

lemma norm_path_slash: "d \<noteq> [] \<Longrightarrow> last d = 47 \<Longrightarrow> norm_path (d @ [47]) = norm_path d"
  by (induction d rule: norm_path.induct) auto

lemma chars_simps [simp]: "chars [] = []" "chars (c # cs) = of_char c # chars cs"
  by (simp_all add: chars_def)

end
