(* ===== verification/Database_Files.thy ===== *)
theory Database_Files
  imports Image_Database Image_Files
begin

text \<open>
  Saving and loading a database of images: \<^verbatim>\<open>saveDb\<close> and \<^verbatim>\<open>loadDb\<close> of
  src/src/examples/imgproc/src/ImageDatabase.cpp. Every image is written to a file of its own, whose
  name holds a counter and the pid of the process.
\<close>

section \<open>Saving and loading\<close>

text \<open>\<^verbatim>\<open>strncpy(_path, s, PATH_MAX)\<close> followed by \<^verbatim>\<open>strlen(_path)\<close>: without a final zero the latter runs on.\<close>

definition copy_path :: "byte list \<Rightarrow> byte list result" where
  "copy_path str = (let t = takeWhile (\<lambda>c. c \<noteq> 0) str in if length t < PATH_MAX then Inr t else Inl Out_of_bounds)"

text \<open>
  \<^verbatim>\<open>snprintf(_path + base_len, PATH_MAX - base_len, ...)\<close>: truncates, but a \<open>base_len\<close> beyond
  \<^verbatim>\<open>PATH_MAX\<close> makes the size wrap around.
\<close>

definition path_print :: "nat \<Rightarrow> byte list \<Rightarrow> byte list \<Rightarrow> byte list result" where
  "path_print base_len suffix path =
     (if PATH_MAX < base_len then Inl Out_of_bounds
      else Inr (take base_len path @ take (PATH_MAX - 1 - base_len) suffix))"

definition db_file_suffix :: "nat \<Rightarrow> nat \<Rightarrow> byte list" where
  "db_file_suffix i s = chars ''file'' @ decimal i @ chars ''_p'' @ decimal s"

text \<open>The state of the loops of \<^verbatim>\<open>bsp_save_db\<close>: the counter of files, the path and the files.\<close>

definition save_thumbnail ::
  "nat \<Rightarrow> nat \<Rightarrow> byte list list \<Rightarrow> size_t \<Rightarrow> nat \<Rightarrow> nat \<times> byte list \<times> files \<Rightarrow> (nat \<times> byte list \<times> files) result"
where
  "save_thumbnail s base_len thumbs hash k = (\<lambda>(i, path, fs).
     bindE (path_print base_len (db_file_suffix i s) path) (\<lambda>path'.
     bindE (vector_at thumbs k) (\<lambda>t.
       Inr (i + 1, path', fs(norm_path path' \<mapsto> size_bytes hash @ t)))))"

definition save_bucket ::
  "nat \<Rightarrow> nat \<Rightarrow> byte list list \<Rightarrow> size_t \<Rightarrow> nat \<times> nat list \<Rightarrow> nat \<times> byte list \<times> files \<Rightarrow> (nat \<times> byte list \<times> files) result"
where
  "save_bucket s base_len thumbs start = (\<lambda>(h, ks). foldE (save_thumbnail s base_len thumbs (start + of_nat h)) ks)"

definition save_db_local :: "nat \<Rightarrow> image_db \<Rightarrow> files \<Rightarrow> (image_db \<times> files) result" where
  "save_db_local s o1 fs =
     (let base_len = length (db_path o1) in
      bindE (path_print base_len (chars ''imgdb_'') (db_path o1)) (\<lambda>path.
      bindE (foldE (save_bucket s (base_len + 6) (db_thumbnails o1) (db_hash_start o1))
              (enumerate 0 (db_hashTable o1)) (0, path, fs)) (\<lambda>(i, path', fs').
        Inr (o1\<lparr>db_path := path'\<rparr>, fs'))))"

definition bsp_save_db :: "image_db actor_base list \<Rightarrow> files \<Rightarrow> (image_db actor_base list \<times> files) result" where
  "bsp_save_db ps fs =
     bindE (foldE (\<lambda>(s, a) (qs, fs1).
         bindE (save_db_local s (ab_obj a) fs1) (\<lambda>(o1, fs2). Inr (qs @ [a\<lparr>ab_obj := o1\<rparr>], fs2)))
       (enumerate 0 (sync_all ps)) ([], fs)) (\<lambda>(qs, fs'). Inr (sync_all qs, fs'))"

text \<open>The test of \<^verbatim>\<open>saveDb\<close> looks at the zero after the last character, so a slash is always appended.\<close>

definition saveDb :: "byte list \<Rightarrow> image_db actor_base list \<Rightarrow> files \<Rightarrow> (image_db actor_base list \<times> files) result" where
  "saveDb dir ps fs =
     bindE (copy_path (dir @ [47])) (\<lambda>path.
       bsp_save_db (map (\<lambda>a. a\<lparr>ab_obj := (ab_obj a)\<lparr>db_path := path\<rparr>\<rparr>) ps) fs)"

text \<open>One file: the hash of its bucket, then the bytes of the image, as many as there are.\<close>

definition load_thumbnail :: "byte list \<Rightarrow> image_db \<Rightarrow> image_db result" where
  "load_thumbnail content o1 =
     (if length content < 8 then Inl Out_of_bounds
      else
        bindE (mem_write 0 (take (unat (db_full_size o1)) (drop 8 content)) (db_thumbnail_buf o1)) (\<lambda>buf.
          let hash = unat (bytes_size (take 8 content) - db_hash_start o1);
              thumbs = db_thumbnails o1 @ [buf]
          in bindE (vector_at (db_hashTable o1) hash) (\<lambda>entry.
               Inr (o1\<lparr>db_thumbnail_buf := buf, db_thumbnails := thumbs,
                     db_hashTable := (db_hashTable o1)[hash := entry @ [length thumbs - 1]]\<rparr>))))"

text \<open>The loop ends at the first file that cannot be opened; a path that is always truncated never ends it.\<close>

partial_function (option) load_loop :: "files \<Rightarrow> nat \<Rightarrow> nat \<Rightarrow> nat \<Rightarrow> image_db \<Rightarrow> image_db result option" where
  "load_loop fs s base_len i o1 =
     (case path_print base_len (db_file_suffix i s) (db_path o1) of
        Inl e \<Rightarrow> Some (Inl e)
      | Inr path \<Rightarrow> (case fs (norm_path path) of
          None \<Rightarrow> Some (Inr (o1\<lparr>db_path := path\<rparr>))
        | Some content \<Rightarrow> (case load_thumbnail content (o1\<lparr>db_path := path\<rparr>) of
            Inl e \<Rightarrow> Some (Inl e)
          | Inr o2 \<Rightarrow> load_loop fs s base_len (i + 1) o2)))"

definition load_db_local :: "files \<Rightarrow> nat \<Rightarrow> image_db \<Rightarrow> image_db result option" where
  "load_db_local fs s o1 =
     (let base_len = length (db_path o1)
      in case path_print base_len (chars ''imgdb_'') (db_path o1) of
           Inl e \<Rightarrow> Some (Inl e)
         | Inr path \<Rightarrow> load_loop fs s (base_len + 6) 0 (o1\<lparr>db_path := path\<rparr>))"

text \<open>None: some process never comes back.\<close>

fun bsp_load_db :: "files \<Rightarrow> nat \<Rightarrow> image_db actor_base list \<Rightarrow> image_db actor_base list result option" where
  "bsp_load_db fs s [] = Some (Inr [])"
| "bsp_load_db fs s (a # ps) =
     (case (load_db_local fs s (ab_obj a), bsp_load_db fs (s + 1) ps) of
        (Some r, Some rs) \<Rightarrow> Some (bindE r (\<lambda>o1. bindE rs (\<lambda>qs. Inr (a\<lparr>ab_obj := o1\<rparr> # qs))))
      | _ \<Rightarrow> None)"

definition loadDb :: "byte list \<Rightarrow> files \<Rightarrow> image_db actor_base list \<Rightarrow> image_db actor_base list result option" where
  "loadDb dir fs ps =
     (if dir = [] then Some (Inl Out_of_bounds)
      else case copy_path (if last dir \<noteq> 47 then dir @ [47] else dir) of
        Inl e \<Rightarrow> Some (Inl e)
      | Inr path \<Rightarrow>
          bsp_load_db fs 0 (get_from_head (\<lambda>head o1. o1\<lparr>db_path := db_path head\<rparr>)
            (upd_head (\<lambda>o1. o1\<lparr>db_path := path\<rparr>) ps)))"

section \<open>Names of files\<close>

lemma suffix_plain: "47 \<notin> set (db_file_suffix i s)"
proof -
  have "\<not> is_digit 47" by (simp add: is_digit_def)
  then have "47 \<notin> set (decimal k)" for k using decimal_digits by blast
  then show ?thesis by (simp add: db_file_suffix_def)
qed

lemma suffix_inject: "db_file_suffix i s = db_file_suffix j t \<longleftrightarrow> i = j \<and> s = t"
proof
  assume "db_file_suffix i s = db_file_suffix j t"
  then have "decimal i @ 95 # 112 # decimal s = decimal j @ 95 # 112 # decimal t" by (simp add: db_file_suffix_def)
  moreover have "\<not> is_digit 95" by (simp add: is_digit_def)
  ultimately show "i = j \<and> s = t" using decimal_prefix_inject by (metis decimal_inject list.inject)
qed simp

lemma suffix_length: "i < 10 ^ 20 \<Longrightarrow> s < 2 ^ 31 \<Longrightarrow> length (db_file_suffix i s) \<le> 36"
  using length_decimal [of i 20] length_decimal [of s 10] by (simp add: db_file_suffix_def)

text \<open>The name of a file, for a directory given by the path with its slash.\<close>

definition db_file :: "byte list \<Rightarrow> nat \<Rightarrow> nat \<Rightarrow> byte list" where
  "db_file dir s i = norm_path dir @ chars ''imgdb_'' @ db_file_suffix i s"

lemma db_file_inject: "db_file dir s i = db_file dir t j \<longleftrightarrow> s = t \<and> i = j"
  by (auto simp: db_file_def suffix_inject)

lemma db_file_norm: "norm_path (dir @ chars ''imgdb_'' @ db_file_suffix i s) = db_file dir s i"
  unfolding db_file_def by (rule norm_path_append) (simp add: suffix_plain)

lemma path_print_file:
  assumes "take base_len path = dir @ chars ''imgdb_''" and "base_len = length dir + 6" and "base_len + 36 < PATH_MAX"
    and "i < 10 ^ 20" and "s < 2 ^ 31"
  shows "path_print base_len (db_file_suffix i s) path = Inr (dir @ chars ''imgdb_'' @ db_file_suffix i s)"
  using assms suffix_length [OF assms(4,5)] by (simp add: path_print_def)

section \<open>Saving and loading one process\<close>

text \<open>The images of a process in the order of the loops of \<^verbatim>\<open>bsp_save_db\<close>, with their buckets.\<close>

definition db_entries :: "image_db \<Rightarrow> (nat \<times> nat) list" where
  "db_entries o1 = concat (map (\<lambda>(h, ks). map (Pair h) ks) (enumerate 0 (db_hashTable o1)))"

definition entry_bytes :: "image_db \<Rightarrow> nat \<times> nat \<Rightarrow> byte list" where
  "entry_bytes o1 = (\<lambda>(h, k). size_bytes (db_hash_start o1 + of_nat h) @ db_thumbnails o1 ! k)"

lemma save_loop:
  assumes "\<forall>e\<in>set es. snd e < length thumbs" and "take bl path = dir @ chars ''imgdb_''" and "bl = length dir + 6"
    and "bl + 36 < PATH_MAX" and "i + length es < 10 ^ 20" and "s < 2 ^ 31"
  shows "\<exists>path' fs'. foldE (\<lambda>(h, k). save_thumbnail s bl thumbs (start + of_nat h) k) es (i, path, fs) = Inr (i + length es, path', fs') \<and>
    (\<forall>j<length es. fs' (db_file dir s (i + j)) = Some (size_bytes (start + of_nat (fst (es ! j))) @ thumbs ! snd (es ! j))) \<and>
    (\<forall>name. (\<forall>j<length es. name \<noteq> db_file dir s (i + j)) \<longrightarrow> fs' name = fs name)"
  using assms
proof (induction es arbitrary: i path fs)
  case Nil
  then show ?case by simp
next
  case (Cons e es)
  obtain h k where e: "e = (h, k)" by (cases e)
  let ?path = "dir @ chars ''imgdb_'' @ db_file_suffix i s"
  let ?c = "size_bytes (start + of_nat h) @ thumbs ! k"
  let ?fs = "fs(db_file dir s i \<mapsto> ?c)"
  have first: "save_thumbnail s bl thumbs (start + of_nat h) k (i, path, fs) = Inr (i + 1, ?path, ?fs)"
    using path_print_file [OF Cons.prems(2-4) _ Cons.prems(6), of i] Cons.prems(1,5) e
    by (simp add: save_thumbnail_def vector_at_def db_file_norm del: chars_simps)
  have a: "\<forall>e\<in>set es. snd e < length thumbs" "take bl ?path = dir @ chars ''imgdb_''" "i + 1 + length es < 10 ^ 20"
    using Cons.prems(1,3,5) by simp_all
  obtain path' fs' where IH: "foldE (\<lambda>(h, k). save_thumbnail s bl thumbs (start + of_nat h) k) es (i + 1, ?path, ?fs) =
      Inr (i + 1 + length es, path', fs')"
    "\<forall>j<length es. fs' (db_file dir s (i + 1 + j)) = Some (size_bytes (start + of_nat (fst (es ! j))) @ thumbs ! snd (es ! j))"
    "\<forall>name. (\<forall>j<length es. name \<noteq> db_file dir s (i + 1 + j)) \<longrightarrow> fs' name = ?fs name"
    using Cons.IH [OF a(1,2) Cons.prems(3,4) a(3) Cons.prems(6), of ?fs] by blast
  have "fs' (db_file dir s (i + j)) = Some (size_bytes (start + of_nat (fst ((e # es) ! j))) @ thumbs ! snd ((e # es) ! j))"
    if "j < length (e # es)" for j
  proof (cases j)
    case 0
    then show ?thesis using IH(3) e by (simp add: db_file_inject)
  next
    case (Suc j')
    then show ?thesis using IH(2) that by simp
  qed
  moreover have "fs' name = fs name" if "\<forall>j<length (e # es). name \<noteq> db_file dir s (i + j)" for name
  proof -
    have "name \<noteq> db_file dir s i" using that by fastforce
    moreover have "\<forall>j<length es. name \<noteq> db_file dir s (i + 1 + j)"
    proof (intro allI impI)
      fix j assume "j < length es"
      then show "name \<noteq> db_file dir s (i + 1 + j)" using that [rule_format, of "Suc j"] by simp
    qed
    ultimately show ?thesis using IH(3) by simp
  qed
  ultimately show ?case using first IH(1) e by auto
qed

lemma save_buckets_flat:
  "foldE (save_bucket s bl thumbs start) xs st =
    foldE (\<lambda>(h, k). save_thumbnail s bl thumbs (start + of_nat h) k) (concat (map (\<lambda>(h, ks). map (Pair h) ks) xs)) st"
proof -
  have "save_bucket s bl thumbs start =
    (\<lambda>x. foldE (\<lambda>(h, k). save_thumbnail s bl thumbs (start + of_nat h) k) ((\<lambda>(h, ks). map (Pair h) ks) x))"
    by (auto simp: save_bucket_def fun_eq_iff foldE_map)
  then show ?thesis by (simp only: foldE_concat)
qed

definition entries_valid :: "image_db \<Rightarrow> bool" where
  "entries_valid o1 \<longleftrightarrow> (\<forall>h<length (db_hashTable o1). \<forall>k\<in>set (db_hashTable o1 ! h). k < length (db_thumbnails o1))"

lemma db_entries_upt: "db_entries o1 = concat (map (\<lambda>h. map (Pair h) (db_hashTable o1 ! h)) [0..<length (db_hashTable o1)])"
  by (simp add: db_entries_def enumerate_upt comp_def)

lemma in_entries_iff: "e \<in> set (db_entries o1) \<longleftrightarrow> fst e < length (db_hashTable o1) \<and> snd e \<in> set (db_hashTable o1 ! fst e)"
  by (cases e) (auto simp: db_entries_upt)

lemma save_process:
  assumes "entries_valid o1" and "db_path o1 = dir" and "length dir + 42 < PATH_MAX" and "length (db_entries o1) < 10 ^ 20"
    and "s < 2 ^ 31"
  shows "\<exists>o2 fs'. save_db_local s o1 fs = Inr (o2, fs') \<and>
    (\<forall>j<length (db_entries o1). fs' (db_file dir s j) = Some (entry_bytes o1 (db_entries o1 ! j))) \<and>
    (\<forall>name. (\<forall>j<length (db_entries o1). name \<noteq> db_file dir s j) \<longrightarrow> fs' name = fs name)"
proof -
  let ?path = "dir @ chars ''imgdb_''"
  have e: "\<forall>e\<in>set (db_entries o1). snd e < length (db_thumbnails o1)" using assms(1) by (auto simp: entries_valid_def in_entries_iff)
  have t: "take (length dir + 6) ?path = ?path" by simp
  have l: "length dir + 6 + 36 < PATH_MAX" "0 + length (db_entries o1) < 10 ^ 20" using assms(3,4) by simp_all
  have print: "path_print (length dir) (chars ''imgdb_'') dir = Inr ?path"
    using assms(3) by (simp add: path_print_def)
  obtain path' fs' where r: "foldE (\<lambda>(h, k). save_thumbnail s (length dir + 6) (db_thumbnails o1) (db_hash_start o1 + of_nat h) k)
      (db_entries o1) (0, ?path, fs) = Inr (0 + length (db_entries o1), path', fs')"
    "\<forall>j<length (db_entries o1). fs' (db_file dir s (0 + j)) =
      Some (size_bytes (db_hash_start o1 + of_nat (fst (db_entries o1 ! j))) @ db_thumbnails o1 ! snd (db_entries o1 ! j))"
    "\<forall>name. (\<forall>j<length (db_entries o1). name \<noteq> db_file dir s (0 + j)) \<longrightarrow> fs' name = fs name"
    using save_loop [OF e t refl l(1,2) assms(5), of "db_hash_start o1" fs] by blast
  have "save_db_local s o1 fs = Inr (o1\<lparr>db_path := path'\<rparr>, fs')"
    using print r(1) unfolding save_db_local_def save_buckets_flat Let_def assms(2)
    by (simp add: db_entries_def del: chars_simps)
  then show ?thesis using r(2,3) by (simp add: entry_bytes_def case_prod_beta)
qed

lemma save_processes:
  assumes "\<forall>a\<in>set as. entries_valid (ab_obj a) \<and> db_path (ab_obj a) = dir \<and> length (db_entries (ab_obj a)) < 10 ^ 20"
    and "length dir + 42 < PATH_MAX" and "k + length as < 2 ^ 31"
  shows "\<exists>qs fs'. foldE (\<lambda>(s, a) (qs, fs1).
         bindE (save_db_local s (ab_obj a) fs1) (\<lambda>(o1, fs2). Inr (qs @ [a\<lparr>ab_obj := o1\<rparr>], fs2))) (enumerate k as) (acc, fs) =
      Inr (acc @ qs, fs') \<and>
    (\<forall>i<length as. \<forall>j<length (db_entries (ab_obj (as ! i))). fs' (db_file dir (k + i) j) =
      Some (entry_bytes (ab_obj (as ! i)) (db_entries (ab_obj (as ! i)) ! j))) \<and>
    (\<forall>name. (\<forall>i<length as. \<forall>j<length (db_entries (ab_obj (as ! i))). name \<noteq> db_file dir (k + i) j) \<longrightarrow> fs' name = fs name)"
  using assms
proof (induction as arbitrary: k acc fs)
  case Nil
  then show ?case by simp
next
  case (Cons a as)
  let ?E = "db_entries (ab_obj a)"
  obtain o2 fs1 where s: "save_db_local k (ab_obj a) fs = Inr (o2, fs1)"
    "\<forall>j<length ?E. fs1 (db_file dir k j) = Some (entry_bytes (ab_obj a) (?E ! j))"
    "\<forall>name. (\<forall>j<length ?E. name \<noteq> db_file dir k j) \<longrightarrow> fs1 name = fs name"
    using save_process [of "ab_obj a" dir k fs] Cons.prems by auto
  have pre: "\<forall>a\<in>set as. entries_valid (ab_obj a) \<and> db_path (ab_obj a) = dir \<and> length (db_entries (ab_obj a)) < 10 ^ 20"
    "Suc k + length as < 2 ^ 31" using Cons.prems by simp_all
  obtain qs fs' where IH: "foldE (\<lambda>(s, a) (qs, fs1).
         bindE (save_db_local s (ab_obj a) fs1) (\<lambda>(o1, fs2). Inr (qs @ [a\<lparr>ab_obj := o1\<rparr>], fs2))) (enumerate (Suc k) as)
         (acc @ [a\<lparr>ab_obj := o2\<rparr>], fs1) = Inr ((acc @ [a\<lparr>ab_obj := o2\<rparr>]) @ qs, fs')"
    "\<forall>i<length as. \<forall>j<length (db_entries (ab_obj (as ! i))). fs' (db_file dir (Suc k + i) j) =
      Some (entry_bytes (ab_obj (as ! i)) (db_entries (ab_obj (as ! i)) ! j))"
    "\<forall>name. (\<forall>i<length as. \<forall>j<length (db_entries (ab_obj (as ! i))). name \<noteq> db_file dir (Suc k + i) j) \<longrightarrow> fs' name = fs1 name"
    using Cons.IH [OF pre(1) Cons.prems(2) pre(2), of "acc @ [a\<lparr>ab_obj := o2\<rparr>]" fs1] by blast
  have "fs' (db_file dir (k + i) j) = Some (entry_bytes (ab_obj ((a # as) ! i)) (db_entries (ab_obj ((a # as) ! i)) ! j))"
    if "i < length (a # as)" "j < length (db_entries (ab_obj ((a # as) ! i)))" for i j
  proof (cases i)
    case 0
    have "fs' (db_file dir k j) = fs1 (db_file dir k j)" using IH(3) by (simp add: db_file_inject)
    then show ?thesis using 0 s(2) that by simp
  next
    case (Suc i')
    then show ?thesis using IH(2) that by simp
  qed
  moreover have "fs' name = fs name"
    if new: "\<forall>i<length (a # as). \<forall>j<length (db_entries (ab_obj ((a # as) ! i))). name \<noteq> db_file dir (k + i) j" for name
  proof -
    have "\<forall>j<length ?E. name \<noteq> db_file dir k j" using new [rule_format, of 0] by simp
    moreover have "\<forall>i<length as. \<forall>j<length (db_entries (ab_obj (as ! i))). name \<noteq> db_file dir (Suc k + i) j"
    proof (intro allI impI)
      fix i j assume "i < length as" "j < length (db_entries (ab_obj (as ! i)))"
      then show "name \<noteq> db_file dir (Suc k + i) j" using new [rule_format, of "Suc i" j] by simp
    qed
    ultimately show ?thesis using IH(3) s(3) by simp
  qed
  ultimately show ?case using s(1) IH(1) by (intro exI [of _ "a\<lparr>ab_obj := o2\<rparr> # qs"] exI [of _ fs']) (simp add: enumerate_simps)
qed

text \<open>The images of a bucket among the entries.\<close>

definition entry_image :: "image_db \<Rightarrow> nat \<times> nat \<Rightarrow> nat \<times> byte list" where
  "entry_image o1 e = (fst e, db_thumbnails o1 ! snd e)"

definition of_bucket :: "nat \<Rightarrow> (nat \<times> byte list) list \<Rightarrow> byte list list" where
  "of_bucket h es = map snd (filter (\<lambda>e. fst e = h) es)"

lemma of_bucket_simps [simp]:
  "of_bucket h [] = []" "of_bucket h ((h', v) # es) = (if h' = h then v # of_bucket h es else of_bucket h es)"
  "of_bucket h (es @ fs) = of_bucket h es @ of_bucket h fs"
  by (simp_all add: of_bucket_def)

lemma entries_of_bucket:
  assumes "h < length (db_hashTable o1)"
  shows "of_bucket h (map (entry_image o1) (db_entries o1)) = bucket_images o1 h"
proof -
  have own: "of_bucket h (map (entry_image o1) (map (Pair h') ks)) = (if h' = h then map (\<lambda>k. db_thumbnails o1 ! k) ks else [])" for h' ks
    by (induction ks) (auto simp: entry_image_def)
  have "of_bucket h (map (entry_image o1) (concat (map (\<lambda>h. map (Pair h) (db_hashTable o1 ! h)) [0..<n]))) =
      (if h < n then bucket_images o1 h else [])" for n
    by (induction n) (auto simp: own bucket_images_def less_Suc_eq simp del: map_map)
  then show ?thesis using assms by (simp add: db_entries_upt)
qed

text \<open>What loading the images \<open>es\<close> into a table does: they are appended to their buckets.\<close>

definition same_geometry :: "image_db \<Rightarrow> image_db \<Rightarrow> bool" where
  "same_geometry o1 o2 \<longleftrightarrow> db_hash_block o2 = db_hash_block o1 \<and> db_hash_start o2 = db_hash_start o1 \<and>
     length (db_hashTable o2) = length (db_hashTable o1) \<and> db_full_size o2 = db_full_size o1 \<and>
     db_part_offset o2 = db_part_offset o1 \<and> db_part_size o2 = db_part_size o1 \<and> db_part o2 = db_part o1 \<and>
     length (db_thumbnail_buf o2) = length (db_thumbnail_buf o1) \<and> db_procs_buf o2 = db_procs_buf o1 \<and> db_dv o2 = db_dv o1"

definition loaded :: "(nat \<times> byte list) list \<Rightarrow> image_db \<Rightarrow> image_db \<Rightarrow> bool" where
  "loaded es o1 o2 \<longleftrightarrow> same_geometry o1 o2 \<and> entries_valid o2 \<and>
     (\<forall>h<length (db_hashTable o1). bucket_images o2 h = bucket_images o1 h @ of_bucket h es)"

lemma load_thumbnail_eq:
  assumes "entries_valid o1" and "db_hash_start o1 = of_nat st" "st + h < 2 ^ 31" "h < length (db_hashTable o1)"
    and "db_full_size o1 = of_nat n" "n < 2 ^ 31" "length v = n" "length (db_thumbnail_buf o1) = n"
  shows "\<exists>o2. load_thumbnail (size_bytes (of_nat st + of_nat h) @ v) o1 = Inr o2 \<and> db_path o2 = db_path o1 \<and> loaded [(h, v)] o1 o2"
proof -
  let ?T = "db_hashTable o1" and ?k = "length (db_thumbnails o1)"
  define o2 where "o2 = o1\<lparr>db_thumbnail_buf := v, db_thumbnails := db_thumbnails o1 @ [v], db_hashTable := ?T[h := ?T ! h @ [?k]]\<rparr>"
  have start: "unat ((of_nat st + of_nat h) - of_nat st :: size_t) = h" using assms(3) by simp
  have "mem_write 0 v (db_thumbnail_buf o1) = Inr v" using assms(7,8) by (simp add: mem_write_def poke_def)
  then have "load_thumbnail (size_bytes (of_nat st + of_nat h) @ v) o1 = Inr o2"
    using assms start by (simp add: load_thumbnail_def Let_def vector_at_def o2_def)
  moreover have "entries_valid o2"
    using assms(1,4) by (auto simp: entries_valid_def o2_def nth_list_update less_Suc_eq)
  moreover have "bucket_images o2 h' = bucket_images o1 h' @ of_bucket h' [(h, v)]" if "h' < length ?T" for h'
  proof -
    have "map (\<lambda>k. (db_thumbnails o1 @ [v]) ! k) (?T ! h') = bucket_images o1 h'"
      using assms(1) that by (auto simp: bucket_images_def entries_valid_def nth_append)
    then show ?thesis using assms(4) that by (simp only: bucket_images_def [of o2]) (auto simp: o2_def)
  qed
  ultimately show ?thesis using assms(7,8) by (intro exI [of _ o2]) (simp add: loaded_def same_geometry_def o2_def)
qed

lemma loaded_path: "loaded es (o1\<lparr>db_path := x\<rparr>) o2 \<longleftrightarrow> loaded es o1 o2" "loaded es o1 (o2\<lparr>db_path := x\<rparr>) \<longleftrightarrow> loaded es o1 o2"
  by (simp_all add: loaded_def same_geometry_def entries_valid_def bucket_images_def)

lemma loaded_append: "loaded es o1 o2 \<Longrightarrow> loaded fs o2 o3 \<Longrightarrow> loaded (es @ fs) o1 o3"
  by (simp add: loaded_def same_geometry_def)

lemma load_loop_eq:
  assumes "entries_valid o1" and "db_hash_start o1 = of_nat st" and "st + length (db_hashTable o1) < 2 ^ 31"
    and "db_full_size o1 = of_nat n" "n < 2 ^ 31" "length (db_thumbnail_buf o1) = n"
    and "\<forall>e\<in>set es. fst e < length (db_hashTable o1) \<and> length (snd e) = n"
    and "\<forall>j<length es. fs (db_file dir s (i + j)) = Some (size_bytes (of_nat st + of_nat (fst (es ! j))) @ snd (es ! j))"
    and "fs (db_file dir s (i + length es)) = None"
    and "take bl (db_path o1) = dir @ chars ''imgdb_''" and "bl = length dir + 6" and "bl + 36 < PATH_MAX"
    and "i + length es < 10 ^ 20" and "s < 2 ^ 31"
  shows "\<exists>o2. load_loop fs s bl i o1 = Some (Inr o2) \<and> loaded es o1 o2"
  using assms
proof (induction es arbitrary: i o1)
  case Nil
  have "path_print bl (db_file_suffix i s) (db_path o1) = Inr (dir @ chars ''imgdb_'' @ db_file_suffix i s)"
    using Nil.prems(10-14) by (intro path_print_file) simp_all
  then have "load_loop fs s bl i o1 = Some (Inr (o1\<lparr>db_path := dir @ chars ''imgdb_'' @ db_file_suffix i s\<rparr>))"
    using Nil.prems(9) by (subst load_loop.simps) (simp add: db_file_norm del: chars_simps)
  moreover have "loaded [] o1 o1" using Nil.prems(1) by (simp add: loaded_def same_geometry_def)
  ultimately show ?case by (simp add: loaded_path)
next
  case (Cons e es)
  obtain h v where e: "e = (h, v)" by (cases e)
  let ?path = "dir @ chars ''imgdb_'' @ db_file_suffix i s"
  let ?o = "o1\<lparr>db_path := ?path\<rparr>"
  have print: "path_print bl (db_file_suffix i s) (db_path o1) = Inr ?path"
    using Cons.prems(10-14) by (intro path_print_file) simp_all
  have content: "fs (db_file dir s i) = Some (size_bytes (of_nat st + of_nat h) @ v)"
    using Cons.prems(8) [rule_format, of 0] e by simp
  have hv: "h < length (db_hashTable o1)" "length v = n" using Cons.prems(7) e by simp_all
  obtain o2 where l: "load_thumbnail (size_bytes (of_nat st + of_nat h) @ v) ?o = Inr o2" "db_path o2 = ?path" "loaded [(h, v)] ?o o2"
    using load_thumbnail_eq [of ?o st h n v] Cons.prems(1-6) hv by (auto simp: entries_valid_def)
  have g: "same_geometry o1 o2" using l(3) by (simp add: loaded_def same_geometry_def)
  have "\<exists>o3. load_loop fs s bl (i + 1) o2 = Some (Inr o3) \<and> loaded es o2 o3"
  proof (rule Cons.IH)
    show "\<forall>j<length es. fs (db_file dir s (i + 1 + j)) = Some (size_bytes (of_nat st + of_nat (fst (es ! j))) @ snd (es ! j))"
    proof (intro allI impI)
      fix j assume "j < length es"
      then show "fs (db_file dir s (i + 1 + j)) = Some (size_bytes (of_nat st + of_nat (fst (es ! j))) @ snd (es ! j))"
        using Cons.prems(8) [rule_format, of "Suc j"] by simp
    qed
    show "take bl (db_path o2) = dir @ chars ''imgdb_''" using l(2) Cons.prems(11) by simp
    show "entries_valid o2" using l(3) by (simp add: loaded_def)
  qed (use g Cons.prems in \<open>simp_all add: same_geometry_def\<close>)
  then obtain o3 where o3: "load_loop fs s bl (i + 1) o2 = Some (Inr o3)" "loaded es o2 o3" by blast
  have "load_loop fs s bl i o1 = Some (Inr o3)"
    using print content l(1) o3(1) by (subst load_loop.simps) (simp add: db_file_norm del: chars_simps)
  moreover have "loaded ((h, v) # es) o1 o3" using loaded_append [OF l(3) o3(2)] by (simp add: loaded_path)
  ultimately show ?case using e by blast
qed

section \<open>Saving and loading a database\<close>

lemma load_process:
  assumes "entries_valid o1" and "db_hash_start o1 = of_nat st" and "st + length (db_hashTable o1) < 2 ^ 31"
    and "db_full_size o1 = of_nat n" "n < 2 ^ 31" "length (db_thumbnail_buf o1) = n"
    and "\<forall>e\<in>set es. fst e < length (db_hashTable o1) \<and> length (snd e) = n"
    and "\<forall>j<length es. fs (db_file dir s j) = Some (size_bytes (of_nat st + of_nat (fst (es ! j))) @ snd (es ! j))"
    and "fs (db_file dir s (length es)) = None" and "db_path o1 = dir" and "length dir + 42 < PATH_MAX"
    and "length es < 10 ^ 20" and "s < 2 ^ 31"
  shows "\<exists>o2. load_db_local fs s o1 = Some (Inr o2) \<and> loaded es o1 o2"
proof -
  let ?path = "dir @ chars ''imgdb_''"
  have "path_print (length dir) (chars ''imgdb_'') dir = Inr ?path"
    using assms(11) by (simp add: path_print_def)
  then have "load_db_local fs s o1 = load_loop fs s (length dir + 6) 0 (o1\<lparr>db_path := ?path\<rparr>)"
    using assms(10) by (simp add: load_db_local_def Let_def del: chars_simps)
  moreover have "\<exists>o2. load_loop fs s (length dir + 6) 0 (o1\<lparr>db_path := ?path\<rparr>) = Some (Inr o2) \<and> loaded es (o1\<lparr>db_path := ?path\<rparr>) o2"
    by (rule load_loop_eq [where st = st and n = n and dir = dir]) (use assms in \<open>simp_all add: entries_valid_def\<close>)
  ultimately show ?thesis by (simp add: loaded_path)
qed

lemma load_processes:
  assumes "\<forall>i<length as. \<exists>o2. load_db_local fs (k + i) (ab_obj (as ! i)) = Some (Inr o2) \<and> P (k + i) o2"
  shows "\<exists>qs. bsp_load_db fs k as = Some (Inr qs) \<and> map step_view qs = map step_view as \<and> (\<forall>i<length as. P (k + i) (ab_obj (qs ! i)))"
  using assms
proof (induction as arbitrary: k)
  case Nil
  then show ?case by simp
next
  case (Cons a as)
  obtain o2 where o2: "load_db_local fs k (ab_obj a) = Some (Inr o2)" "P k o2" using Cons.prems [rule_format, of 0] by auto
  have "\<forall>i<length as. \<exists>o2. load_db_local fs (Suc k + i) (ab_obj (as ! i)) = Some (Inr o2) \<and> P (Suc k + i) o2"
  proof (intro allI impI)
    fix i assume "i < length as"
    then show "\<exists>o2. load_db_local fs (Suc k + i) (ab_obj (as ! i)) = Some (Inr o2) \<and> P (Suc k + i) o2"
      using Cons.prems [rule_format, of "Suc i"] by simp
  qed
  then obtain qs where qs: "bsp_load_db fs (Suc k) as = Some (Inr qs)" "map step_view qs = map step_view as"
    "\<forall>i<length as. P (Suc k + i) (ab_obj (qs ! i))" using Cons.IH by blast
  have "P (k + i) (ab_obj ((a\<lparr>ab_obj := o2\<rparr> # qs) ! i))" if "i < length (a # as)" for i
    using that o2(2) qs(3) by (cases i) simp_all
  then show ?case using o2(1) qs(1,2) by (intro exI [of _ "a\<lparr>ab_obj := o2\<rparr> # qs"]) simp
qed

lemma loaded_inv:
  assumes src: "db_inv bh p n s o0" and dst: "db_inv bh p n s o1" and empty: "db_images o1 = {}"
    and ld: "loaded (map (entry_image o0) (db_entries o0)) o1 o2"
  shows "db_inv bh p n s o2" "db_images o2 = db_images o0"
proof -
  have len: "length (db_hashTable o1) = length (db_hashTable o0)" "length (db_hashTable o2) = length (db_hashTable o0)"
    using src dst ld by (simp_all add: db_inv_def loaded_def same_geometry_def)
  have "bucket_images o1 h = []" if "h < length (db_hashTable o0)" for h
    using empty that len(1) by (auto simp: db_images_def)
  then have b: "bucket_images o2 h = bucket_images o0 h" if "h < length (db_hashTable o0)" for h
    using ld that len(1) entries_of_bucket [OF that] by (simp add: loaded_def)
  then show "db_images o2 = db_images o0" by (simp add: db_images_def len)
  have "entries_valid o2" using ld by (simp add: loaded_def)
  then have "buckets_ok bh p n s o2" using src b by (simp add: buckets_ok_def db_inv_def len entries_valid_def)
  then show "db_inv bh p n s o2" using dst ld by (simp add: db_inv_def loaded_def same_geometry_def)
qed

text \<open>Saving writes one file per image, and no other.\<close>

lemma save_group:
  assumes ps: "db_group bh n ps" and dir: "0 \<notin> set dir" "length dir + 43 < PATH_MAX"
    and few: "\<forall>o1\<in>set (objs ps). length (db_entries o1) < 10 ^ 20"
  shows "\<exists>ps' fs'. saveDb dir ps fs = Inr (ps', fs') \<and>
    (\<forall>s<length ps. \<forall>j<length (db_entries (objs ps ! s)).
      fs' (db_file (dir @ [47]) s j) = Some (entry_bytes (objs ps ! s) (db_entries (objs ps ! s) ! j))) \<and>
    (\<forall>name. (\<forall>s<length ps. \<forall>j<length (db_entries (objs ps ! s)). name \<noteq> db_file (dir @ [47]) s j) \<longrightarrow> fs' name = fs name)"
proof -
  let ?p = "length ps" and ?ds = "dir @ [47]"
  let ?ps = "map (\<lambda>a. a\<lparr>ab_obj := (ab_obj a)\<lparr>db_path := ?ds\<rparr>\<rparr>) ps"
  have inv: "db_inv bh ?p n s (objs ps ! s)" if "s < ?p" for s using ps that by (simp add: db_group_def)
  have "takeWhile (\<lambda>c. c \<noteq> 0) ?ds = ?ds" using dir(1) by (auto simp: takeWhile_eq_all_conv)
  then have copy: "copy_path ?ds = Inr ?ds" using dir(2) by (simp only: copy_path_def Let_def) simp
  have ent: "db_entries (o1\<lparr>db_path := x\<rparr>) = db_entries o1" "entry_bytes (o1\<lparr>db_path := x\<rparr>) = entry_bytes o1"
    "entries_valid (o1\<lparr>db_path := x\<rparr>) = entries_valid o1" for o1 x
    by (simp_all add: db_entries_def entry_bytes_def fun_eq_iff entries_valid_def)
  have nths: "ab_obj (sync_all ?ps ! s) = (objs ps ! s)\<lparr>db_path := ?ds\<rparr>" if "s < ?p" for s
    using that by (simp add: sync_all_def base_sync_def)
  have valid: "entries_valid (objs ps ! s)" if "s < ?p" for s
    using inv [OF that] by (auto simp: db_inv_def buckets_ok_def entries_valid_def)
  have pre: "\<forall>a\<in>set (sync_all ?ps). entries_valid (ab_obj a) \<and> db_path (ab_obj a) = ?ds \<and> length (db_entries (ab_obj a)) < 10 ^ 20"
  proof
    fix a assume "a \<in> set (sync_all ?ps)"
    then obtain s where s: "s < ?p" "a = sync_all ?ps ! s" by (auto simp: in_set_conv_nth)
    then show "entries_valid (ab_obj a) \<and> db_path (ab_obj a) = ?ds \<and> length (db_entries (ab_obj a)) < 10 ^ 20"
      using nths [OF s(1)] ent valid [OF s(1)] few by simp
  qed
  have "length ?ds + 42 < PATH_MAX" "0 + length (sync_all ?ps) < 2 ^ 31" using dir(2) ps by (simp_all add: db_group_def)
  from save_processes [OF pre this, of "[]" fs] obtain rs fs' where saved: "foldE (\<lambda>(s, a) (qs, fs1).
         bindE (save_db_local s (ab_obj a) fs1) (\<lambda>(o1, fs2). Inr (qs @ [a\<lparr>ab_obj := o1\<rparr>], fs2))) (enumerate 0 (sync_all ?ps)) ([], fs) =
      Inr ([] @ rs, fs')"
    and r: "\<forall>i<length (sync_all ?ps). \<forall>j<length (db_entries (ab_obj (sync_all ?ps ! i))). fs' (db_file ?ds (0 + i) j) =
      Some (entry_bytes (ab_obj (sync_all ?ps ! i)) (db_entries (ab_obj (sync_all ?ps ! i)) ! j))"
    "\<forall>name. (\<forall>i<length (sync_all ?ps). \<forall>j<length (db_entries (ab_obj (sync_all ?ps ! i))). name \<noteq> db_file ?ds (0 + i) j) \<longrightarrow>
      fs' name = fs name"
    by blast
  have "saveDb dir ps fs = Inr (sync_all rs, fs')" using copy saved by (simp add: saveDb_def bsp_save_db_def)
  then show ?thesis using r nths ent by (intro exI [of _ "sync_all rs"] exI [of _ fs']) (simp del: nth_map)
qed

text \<open>Loading reads the files of the images \<open>es s\<close> of every process.\<close>

lemma load_group:
  assumes qs: "db_group bh n qs" and dir: "dir \<noteq> []" "0 \<notin> set dir" "length dir + 43 < PATH_MAX"
    and es: "\<forall>s<length qs. length (es s) < 10 ^ 20 \<and> (\<forall>e\<in>set (es s). fst e < length (db_hashTable (objs qs ! s)) \<and> length (snd e) = n)"
    and files: "\<forall>s<length qs. \<forall>j<length (es s). fs (db_file (dir @ [47]) s j) =
      Some (size_bytes (of_nat (db_block (length qs) * s) + of_nat (fst (es s ! j))) @ snd (es s ! j))"
    and last: "\<forall>s<length qs. fs (db_file (dir @ [47]) s (length (es s))) = None"
  shows "\<exists>qs'. loadDb dir fs qs = Some (Inr qs') \<and> length qs' = length qs \<and> group_in_step qs' \<and>
    (\<forall>s<length qs. loaded (es s) (objs qs ! s) (objs qs' ! s))"
proof -
  let ?p = "length qs"
  define dl where "dl = (if last dir \<noteq> 47 then dir @ [47] else dir)"
  have ldl: "length dl + 42 < PATH_MAX" using dir(3) by (simp add: dl_def)
  have inv: "db_inv bh ?p n s (objs qs ! s)" if "s < ?p" for s using qs that by (simp add: db_group_def)
  have p: "0 < ?p" "?p < 2 ^ 31" "n < 2 ^ 31" using qs by (auto simp: db_group_def)
  have names: "db_file dl s i = db_file (dir @ [47]) s i" for s i using dir(1) norm_path_slash by (simp add: db_file_def dl_def)
  have "takeWhile (\<lambda>c. c \<noteq> 0) dl = dl" using dir(2) by (auto simp: takeWhile_eq_all_conv dl_def)
  then have copy: "copy_path dl = Inr dl" using ldl by (simp only: copy_path_def Let_def) simp
  let ?qs = "get_from_head (\<lambda>head o1. o1\<lparr>db_path := db_path head\<rparr>) (upd_head (\<lambda>o1. o1\<lparr>db_path := dl\<rparr>) qs)"
  obtain b qs1 where q1: "qs = b # qs1" using p(1) by (cases qs) auto
  have lu: "length (upd_head (\<lambda>o1. o1\<lparr>db_path := dl\<rparr>) qs) = ?p" by (simp add: q1)
  have oq: "objs ?qs = map (\<lambda>s. (objs qs ! s)\<lparr>db_path := dl\<rparr>) [0..<?p]"
    unfolding objs_get_from_head lu by (rule map_cong [OF refl]) (auto simp: q1 nth_Cons' simp del: upt_Suc)
  have lq: "length ?qs = ?p" using arg_cong [OF oq, of length] by simp
  have nq: "ab_obj (?qs ! s) = (objs qs ! s)\<lparr>db_path := dl\<rparr>" if "s < ?p" for s
    using arg_cong [OF oq, of "\<lambda>xs. xs ! s"] that lq by simp
  let ?P = "\<lambda>s o2. loaded (es s) (objs qs ! s) o2"
  have "\<exists>o2. load_db_local fs (0 + s) (ab_obj (?qs ! s)) = Some (Inr o2) \<and> ?P (0 + s) o2" if "s < length ?qs" for s
  proof -
    have s: "s < ?p" using that lq by simp
    let ?q = "(objs qs ! s)\<lparr>db_path := dl\<rparr>"
    have "\<exists>o2. load_db_local fs s ?q = Some (Inr o2) \<and> loaded (es s) ?q o2"
    proof (rule load_process [where st = "db_block ?p * s" and n = n and dir = dl])
      show "entries_valid ?q" using inv [OF s] by (auto simp: db_inv_def buckets_ok_def entries_valid_def)
      show "db_block ?p * s + length (db_hashTable ?q) < 2 ^ 31" using inv [OF s] by (simp add: db_inv_def min_def)
      show "\<forall>j<length (es s). fs (db_file dl s j) = Some (size_bytes (of_nat (db_block ?p * s) + of_nat (fst (es s ! j))) @ snd (es s ! j))"
        unfolding names using files s by blast
      show "fs (db_file dl s (length (es s))) = None" unfolding names using last s by blast
    qed (use inv [OF s] p s ldl es in \<open>simp_all add: db_inv_def\<close>)
    then show ?thesis using nq [OF s] by (simp add: loaded_path del: nth_map)
  qed
  then obtain qs' where l: "bsp_load_db fs 0 ?qs = Some (Inr qs')" "map step_view qs' = map step_view ?qs"
    "\<forall>i<length ?qs. ?P (0 + i) (ab_obj (qs' ! i))"
    using load_processes [of ?qs fs 0 ?P] by blast
  have "length qs' = ?p" using arg_cong [OF l(2), of length] lq by simp
  moreover have "group_in_step qs'" using qs by (intro in_step_view [OF l(2)]) (simp add: db_group_def)
  moreover have "loadDb dir fs qs = Some (Inr qs')" using copy l(1) dir(1) by (simp add: loadDb_def flip: dl_def)
  ultimately show ?thesis using l(3) lq by simp
qed

text \<open>No image is twice in a bucket, so the images bound the files.\<close>

lemma length_concat_le: "(\<And>ks. ks \<in> set T \<Longrightarrow> length ks \<le> m) \<Longrightarrow> length (concat T) \<le> length T * m"
  by (induction T) (simp_all add: add_mono)

lemma length_db_entries: "length (db_entries o1) = length (concat (db_hashTable o1))"
proof -
  have "map length (map (\<lambda>h. db_hashTable o1 ! h) [0..<length (db_hashTable o1)]) = map length (db_hashTable o1)"
    by (simp only: map_nth)
  then show ?thesis by (simp add: db_entries_upt length_concat comp_def)
qed

lemma few_entries:
  assumes "db_group bh n ps" and "card (stored_images ps) < 10 ^ 15"
  shows "\<forall>o1\<in>set (objs ps). length (db_entries o1) < 10 ^ 20"
proof
  fix o1 assume "o1 \<in> set (objs ps)"
  then obtain s where s: "s < length ps" "o1 = objs ps ! s" by (metis in_set_conv_nth length_map)
  have inv: "db_inv bh (length ps) n s o1" using assms(1) s by (simp add: db_group_def)
  have fin: "finite (stored_images ps)" by (simp add: stored_images_def db_images_def)
  let ?T = "db_hashTable o1"
  have "length ks \<le> card (stored_images ps)" if ks: "ks \<in> set ?T" for ks
  proof -
    obtain h where h: "h < length ?T" "ks = ?T ! h" using ks by (metis in_set_conv_nth)
    have "set (bucket_images o1 h) \<subseteq> stored_images ps"
      using h(1) s by (auto simp: stored_images_nth db_images_def simp del: nth_map)
    then have "card (set (bucket_images o1 h)) \<le> card (stored_images ps)" using fin by (rule card_mono [rotated])
    moreover have "distinct (bucket_images o1 h)" using inv h(1) by (simp add: db_inv_def buckets_ok_def)
    then have "card (set (bucket_images o1 h)) = length ks" using h(2) by (simp only: distinct_card) (simp add: bucket_images_def)
    ultimately show ?thesis by simp
  qed
  then have "length (concat ?T) \<le> length ?T * card (stored_images ps)" by (rule length_concat_le)
  also have "\<dots> \<le> 12289 * card (stored_images ps)" using inv by (intro mult_le_mono1) (simp add: db_inv_def min_def split: if_splits)
  also have "\<dots> < 10 ^ 20" using assms(2) by simp
  finally show "length (db_entries o1) < 10 ^ 20" by (simp add: length_db_entries)
qed

text \<open>A database of other processes for the same images, whose directory has no files of a database.\<close>

lemma save_load_group:
  assumes ps: "db_group bh n ps" and qs: "db_group bh n qs" "stored_images qs = {}" "length qs = length ps"
    and dir: "dir \<noteq> []" "0 \<notin> set dir" "length dir + 43 < PATH_MAX"
    and few: "card (stored_images ps) < 10 ^ 15"
    and clean: "\<forall>s i. fs (db_file (dir @ [47]) s i) = None"
  shows "\<exists>ps' fs' qs'. saveDb dir ps fs = Inr (ps', fs') \<and> loadDb dir fs' qs = Some (Inr qs') \<and>
    db_group bh n qs' \<and> stored_images qs' = stored_images ps"
proof -
  let ?p = "length ps"
  have inv: "\<And>s. s < ?p \<Longrightarrow> db_inv bh ?p n s (objs ps ! s)" "\<And>s. s < ?p \<Longrightarrow> db_inv bh ?p n s (objs qs ! s)"
    using ps qs(1,3) by (auto simp: db_group_def)
  obtain ps' fs' where save: "saveDb dir ps fs = Inr (ps', fs')"
    and written: "\<forall>s<?p. \<forall>j<length (db_entries (objs ps ! s)).
      fs' (db_file (dir @ [47]) s j) = Some (entry_bytes (objs ps ! s) (db_entries (objs ps ! s) ! j))"
    and other: "\<forall>name. (\<forall>s<?p. \<forall>j<length (db_entries (objs ps ! s)). name \<noteq> db_file (dir @ [47]) s j) \<longrightarrow> fs' name = fs name"
    using save_group [OF ps dir(2,3) few_entries [OF ps few], of fs] by blast
  define es where "es s = map (entry_image (objs ps ! s)) (db_entries (objs ps ! s))" for s
  have tab: "length (db_hashTable (objs qs ! s)) = length (db_hashTable (objs ps ! s))"
    "db_hash_start (objs ps ! s) = of_nat (db_block ?p * s)" if "s < ?p" for s
    using inv [OF that] by (simp_all add: db_inv_def)
  obtain qs' where load: "loadDb dir fs' qs = Some (Inr qs')" "length qs' = length qs" "group_in_step qs'"
    "\<forall>s<length qs. loaded (es s) (objs qs ! s) (objs qs' ! s)"
  proof (atomize_elim, rule load_group [OF qs(1) dir])
    show "\<forall>s<length qs. length (es s) < 10 ^ 20 \<and> (\<forall>e\<in>set (es s). fst e < length (db_hashTable (objs qs ! s)) \<and> length (snd e) = n)"
      using inv(1) tab few_entries [OF ps few] qs(3)
      by (auto simp: es_def entry_image_def in_entries_iff db_inv_def buckets_ok_def bucket_images_def simp del: nth_map)
        (simp add: db_entries_def)
    show "\<forall>s<length qs. \<forall>j<length (es s). fs' (db_file (dir @ [47]) s j) =
        Some (size_bytes (of_nat (db_block (length qs) * s) + of_nat (fst (es s ! j))) @ snd (es s ! j))"
      using written tab(2) qs(3) by (simp add: es_def entry_image_def entry_bytes_def case_prod_beta del: of_nat_mult)
    show "\<forall>s<length qs. fs' (db_file (dir @ [47]) s (length (es s))) = None"
      using other clean by (simp add: es_def db_file_inject)
  qed
  have ok: "db_inv bh ?p n s (objs qs' ! s) \<and> db_images (objs qs' ! s) = db_images (objs ps ! s)" if s: "s < ?p" for s
  proof -
    have "db_images (objs qs ! s) = {}" using qs(2,3) s by (auto simp: stored_images_nth simp del: nth_map)
    then show ?thesis using loaded_inv [OF inv(1) [OF s] inv(2) [OF s]] load(4) s qs(3) es_def by (metis)
  qed
  then have "db_group bh n qs'" using ps qs(3) load(2,3) by (simp add: db_group_def del: nth_map)
  moreover have "stored_images qs' = stored_images ps"
    using ok load(2) qs(3) by (auto simp: stored_images_nth simp del: nth_map)
  ultimately show ?thesis using save load(1) by blast
qed

section \<open>Properties\<close>

text \<open>
  Property C22: a database that is saved and loaded by another actor with as many processes contains the
  same images, and its buckets satisfy the invariant; whether the name of the directory ends in a slash
  does not matter. The directory must not hold files of an older database: those are not removed by
  \<^verbatim>\<open>saveDb\<close> and would be loaded as well.
\<close>

theorem database_save_load:
  assumes "db_group bh n ps" and "db_group bh n qs" "stored_images qs = {}" "length qs = length ps"
    and "dir \<noteq> []" "0 \<notin> set dir" "length dir + 43 < PATH_MAX"
    and "card (stored_images ps) < 10 ^ 15" and "\<forall>s i. fs (db_file (dir @ [47]) s i) = None"
  shows "\<exists>ps' fs' qs'. saveDb dir ps fs = Inr (ps', fs') \<and> loadDb dir fs' qs = Some (Inr qs') \<and>
    db_group bh n qs' \<and> stored_images qs' = stored_images ps"
  using assms by (rule save_load_group)

text \<open>Two processes save one image; the database that loads it finds it.\<close>

theorem database_save_load_witness:
  "\<exists>ps ps' fs' qs'. stored_images ps = {[1, 2, 3, 4]} \<and> saveDb [47, 100] ps Map.empty = Inr (ps', fs') \<and>
    loadDb [47, 100] fs' (projr (setImgParams 2 2 8 two_databases)) = Some (Inr qs') \<and> stored_images qs' = {[1, 2, 3, 4]}"
proof -
  let ?b = "\<lparr>bl_addr = 0, bl_mem = \<lambda>i. 0\<rparr>" and ?v = "[1, 2, 3, 4] :: byte list"
  obtain qs where qs: "setImgParams 2 2 8 two_databases = Inr qs" "db_group zero_hash 4 qs" "stored_images qs = {}" "length qs = 2"
    using set_params_group [OF two_databases_constructed, of 2 2 8 zero_hash] two_databases_ok(1) by auto
  have l: "length ?v = 4" by simp
  have grp: "db_group zero_hash (length ?v) qs" by (subst l) (rule qs(2))
  have "\<forall>s<length qs. reads_vector (direct_reader (\<lambda>dv. ?v)) (vd_bytes []) ?v" by (simp add: direct_reader_reads)
  from db_insert_group [OF grp _ this, of "FutureBase (Some (LazyFutureDataRetriever 0 1))" "\<lambda>i. ?b" ?b, unfolded l]
  obtain ps where ps: "db_group zero_hash 4 ps" "stored_images ps = {?v}" "length ps = 2"
    using qs(3,4) by (auto simp: FutureBase_def vd_small_def)
  from database_save_load [OF ps(1) qs(2,3), of "[47, 100]" Map.empty] ps qs
  obtain ps' fs' qs' where "saveDb [47, 100] ps Map.empty = Inr (ps', fs')" "loadDb [47, 100] fs' qs = Some (Inr qs')"
    "stored_images qs' = {?v}"
    by (auto simp: PATH_MAX_def)
  then show ?thesis using ps(2) qs(1) by auto
qed

end
