(* ===== verification/Group_Result.thy ===== *)
theory Group_Result
  imports Spmd_Group
begin

text \<open>
  Results of an actor that are distributed vectors: every process hands its part to its own management
  thread with \<^verbatim>\<open>register_single_part_result\<close>, and the head gathers the description with
  \<^verbatim>\<open>gather_distr_parts\<close> (src/src/ActiveBSP/src/Actor.cpp, include/Actor.hpp). The send buffer of an
  actor is reused, so that a message may carry bytes of an older, longer one behind its own.
\<close>

section \<open>All processes of an actor\<close>

definition register_all_parts ::
  "size_t \<Rightarrow> (nat \<Rightarrow> block) \<Rightarrow> size_t \<Rightarrow> (nat \<Rightarrow> 'o \<Rightarrow> byte list \<times> size_t \<times> size_t) \<Rightarrow> 'o actor_base list \<Rightarrow> 'o actor_base list result"
where
  "register_all_parts elem blocks addr what ps = mapE (\<lambda>(s, a).
     (case what s (ab_obj a) of (data, sz, off) \<Rightarrow> typed_register_single_part_result elem (blocks s) addr data sz off a)) (enumerate 0 ps)"

definition gather_result :: "'o actor_base list \<Rightarrow> (vector_distribution \<times> 'o actor_base list) result" where
  "gather_result ps = (case ps of [] \<Rightarrow> Inl Out_of_bounds
     | a # _ \<Rightarrow> bindE (gather_distr_parts (\<lambda>s off n. peek off n (ab_cur_vector_distribution (ps ! s))) (ab_nprocs a)
           (ab_cur_vector_distribution a)) (\<lambda>dv. Inr (dv, sync_all ps)))"

section \<open>A message in the send buffer\<close>

definition send_inv :: "actor_message \<Rightarrow> bool" where
  "send_inv m \<longleftrightarrow> length (am_buf m) < 2 ^ 31 \<and> am_buf_size m = of_nat (length (am_buf m))"

lemma send_inv_0 [simp]: "send_inv ActorMessage0"
  by (simp add: send_inv_def ActorMessage0_def)

lemma enforced_room:
  assumes "send_inv sb" and "k < 2 ^ 31"
  shows "send_inv (enforceBufferSize b (of_nat k) (ActorMessage_on (- 1) addr (am_buf sb) (am_buf_size sb)))"
    and "k \<le> length (am_buf (enforceBufferSize b (of_nat k) (ActorMessage_on (- 1) addr (am_buf sb) (am_buf_size sb))))"
proof -
  let ?n = "length (am_buf sb)" and ?e = "enforceBufferSize b (of_nat k) (ActorMessage_on (- 1) addr (am_buf sb) (am_buf_size sb))"
  have n: "?n < 2 ^ 31" "am_buf_size sb = of_nat ?n" using assms(1) by (simp_all add: send_inv_def)
  have le: "((of_nat k :: size_t) \<le> of_nat ?n) = (k \<le> ?n)" using of_nat_size_le [of k ?n] assms(2) n(1) by simp
  then have lt: "(scast (am_buf_size sb) < (of_nat k :: size_t)) = (?n < k)" using n by (simp flip: not_le)
  then show "send_inv ?e" "k \<le> length (am_buf ?e)"
    using assms(2) n by (auto simp: enforceBufferSize_def ActorMessage_on_def allocateBuffer_def freeBuffer_def send_inv_def)
qed

lemma store_in_buffer:
  assumes sb: "send_inv sb" and n: "28 + n < 2 ^ 31" "n \<le> length data"
  shows "\<exists>m. StoreResultMessage_in b (am_addr sb) (am_buf sb) (scast (am_buf_size sb)) key addr data (of_nat n) False = Inr m \<and>
    send_inv m \<and> get_int (am_buf m) 0 = Inr INSTRUCTION_STORE_RESULT \<and> store_view (at_bytes (am_buf m)) = Inr (key, take n data)"
proof -
  let ?k = "28 + n" and ?d = "take n data"
  have len: "length ?d = n" "n < 2 ^ 64" using n by simp_all
  have size: "(ucast (scast (am_buf_size sb) :: size_t) :: c_int) = am_buf_size sb"
    using sb by (simp add: send_inv_def)
  define m where "m = (enforceBufferSize b (of_nat ?k) (ActorMessage_on (- 1) (am_addr sb) (am_buf sb) (am_buf_size sb)))\<lparr>am_qowned := False\<rparr>"
  have m: "send_inv m" "?k \<le> length (am_buf m)"
    using enforced_room [OF sb, of ?k b "am_addr sb"] n(1) by (simp_all add: m_def send_inv_def)
  let ?ws = "[(0, int_bytes INSTRUCTION_STORE_RESULT), (4, int_bytes key), (12, size_bytes (of_nat n)), (20, [0 :: byte]), (21, ?d)]"
  have "layout (length (am_buf m)) ?ws" using m(2) len by (simp add: apart_def)
  then obtain buf where w: "writes ?ws (am_buf m) = Inr buf" and l: "length buf = length (am_buf m)"
    and r: "\<forall>w\<in>set ?ws. peek (fst w) (length (snd w)) buf = snd w"
    using writes_layout by blast
  have "(4 + 24 + of_nat n :: size_t) = of_nat ?k" by simp
  moreover have "mem_read data 0 n = Inr ?d" using n(2) by (simp add: mem_read_def peek_def)
  ultimately have mk: "StoreResultMessage_in b (am_addr sb) (am_buf sb) (scast (am_buf_size sb)) key addr data (of_nat n) False = Inr (m\<lparr>am_buf := buf\<rparr>)"
    using w unfolding StoreResultMessage_in_def store_build_def Let_def if_False size
    by (simp only: unat_size_of_nat [OF len(2)] bindE_Inr m_def [symmetric] fill_def)
  have "get_int buf 4 = Inr key" "get_size buf 12 = Inr (of_nat n)" "mem_read buf 20 1 = Inr [0]" "mem_read (drop 21 buf) 0 n = Inr ?d"
    using r l m(2) len by (simp_all add: get_int_field get_size_field mem_read_field peek_drop)
  then have "store_view (at_bytes buf) = Inr (key, ?d)"
    by (simp only: store_view_defs am_buf_at_bytes bindE_Inr unat_size_of_nat [OF len(2)]) simp
  then show ?thesis using mk l r m(1) by (intro exI [of _ "m\<lparr>am_buf := buf\<rparr>"]) (simp add: get_int_field send_inv_def)
qed

section \<open>One process\<close>

definition result_ready :: "'o actor_base \<Rightarrow> bool" where
  "result_ready a \<longleftrightarrow> send_inv (ab_send_buf a) \<and> 0 \<le> sint (ab_next_key a) \<and> sint (ab_next_key a) + 1 < 2 ^ 31"

abbreviation own_part :: "'o actor_base \<Rightarrow> nat \<Rightarrow> size_t \<Rightarrow> vector_distribution_part" where
  "own_part a n off \<equiv> \<lparr>vp_pid = ab_node a, vp_resid = ab_next_key a, vp_size = of_nat n, vp_offset = off\<rparr>"

lemma store_result_sent:
  assumes "result_ready a" and n: "28 + n < 2 ^ 31" "n \<le> length data"
  shows "\<exists>m mm. store_result b addr data (of_nat n) a =
      Inr (ab_next_key a, a\<lparr>ab_next_key := ab_next_key a + 1, ab_send_buf := m, ab_sent := ab_sent a @ [mm]\<rparr>) \<and>
    send_inv m \<and> is_store (ab_node a) (ab_next_key a) (take n data) mm"
proof -
  have key: "takeKey (ab_next_key a) = Inr (ab_next_key a, ab_next_key a + 1)"
    using assms(1) by (simp add: takeKey_def add_int_def int_fits_def result_ready_def)
  obtain m where m: "StoreResultMessage_in b (am_addr (ab_send_buf a)) (am_buf (ab_send_buf a)) (scast (am_buf_size (ab_send_buf a)))
      (ab_next_key a) addr data (of_nat n) False = Inr m" "send_inv m" "get_int (am_buf m) 0 = Inr INSTRUCTION_STORE_RESULT"
    "store_view (at_bytes (am_buf m)) = Inr (ab_next_key a, take n data)"
    using store_in_buffer [OF _ n, of "ab_send_buf a" b "ab_next_key a" addr] assms(1) by (auto simp: result_ready_def)
  let ?mm = "\<lparr>mm_dst = ab_node a, mm_tag = ABSP_MPI_MANAGEMENT_THREAD_TAG, mm_bytes = am_buf m\<rparr>"
  have send: "sendActorMessage (ab_node a) m = Inr ?mm" using m(2) by (simp add: sendActorMessage_def send_inv_def mpi_send_all)
  have "is_store (ab_node a) (ab_next_key a) (take n data) ?mm" using m n by (simp add: is_store_def send_inv_def)
  then show ?thesis using key m(1,2) send
    by (intro exI [of _ m] exI [of _ ?mm]) (simp add: store_result_def comm_store_result_def)
qed

definition registered_part :: "nat \<Rightarrow> size_t \<Rightarrow> byte list \<Rightarrow> 'o actor_base \<Rightarrow> 'o actor_base \<Rightarrow> bool" where
  "registered_part n off d a a' \<longleftrightarrow> ab_obj a' = ab_obj a \<and> ab_nprocs a' = ab_nprocs a \<and> ab_node a' = ab_node a \<and>
     ab_next_key a' = ab_next_key a + 1 \<and> ab_cur_vector_distribution a' = vd_bytes [own_part a n off] \<and>
     step_view a' = (length (ab_dv_buf a), ab_dv_buf_registered a, ab_syncs a + 1) \<and> send_inv (ab_send_buf a') \<and>
     (\<exists>mm. ab_sent a' = ab_sent a @ [mm] \<and> is_store (ab_node a) (ab_next_key a) d mm)"

lemma register_single_part_sent:
  assumes "result_ready a" and "28 + n < 2 ^ 31" "n \<le> length data"
  shows "\<exists>a'. register_single_part_result b addr data (of_nat n) off a = Inr a' \<and> registered_part n off (take n data) a a'"
proof -
  obtain m mm where s: "store_result b addr data (of_nat n) a =
      Inr (ab_next_key a, a\<lparr>ab_next_key := ab_next_key a + 1, ab_send_buf := m, ab_sent := ab_sent a @ [mm]\<rparr>)"
    "send_inv m" "is_store (ab_node a) (ab_next_key a) (take n data) mm"
    using store_result_sent [OF assms] by blast
  have small: "vd_small (length [zero_part])" "vd_small 1" by (simp_all add: vd_small_def)
  have base: "vector_distribution_base 1 = Inr (vd_bytes [zero_part])" using vector_distribution_base_eq [OF small(2)] by simp
  have "register_part 0 pid resid sz off (vd_bytes [zero_part]) = Inr (vd_bytes [\<lparr>vp_pid = pid, vp_resid = resid, vp_size = sz, vp_offset = off\<rparr>])"
    for pid resid sz using register_part_eq [OF small(1), of 0] by simp
  then show ?thesis using s
    by (simp add: register_single_part_result_def prepare_distr_result_def register_result_part_def base base_sync_def
        registered_part_def step_view_def)
qed

section \<open>The whole actor\<close>

text \<open>The parts the processes register, and the messages they send meanwhile.\<close>

definition group_parts :: "'o actor_base list \<Rightarrow> (nat \<Rightarrow> nat) \<Rightarrow> (nat \<Rightarrow> size_t) \<Rightarrow> vector_distribution_part list" where
  "group_parts ps n off = map (\<lambda>s. own_part (ps ! s) (n s) (off s)) [0..<length ps]"

definition new_messages :: "'o actor_base list \<Rightarrow> 'o actor_base list \<Rightarrow> mpi_message list" where
  "new_messages ps qs = concat (map (\<lambda>s. drop (length (ab_sent (ps ! s))) (ab_sent (qs ! s))) [0..<length ps])"

text \<open>Every management thread handles what its own process sends it.\<close>

definition deliver_own ::
  "(c_int \<Rightarrow> server_env) \<Rightarrow> mpi_message list \<Rightarrow> (c_int \<Rightarrow> actor_server) \<Rightarrow> (c_int \<Rightarrow> actor_server) result"
where
  "deliver_own envs = foldE (\<lambda>mm. deliver envs (mm_dst mm) mm)"

lemma length_group_parts [simp]: "length (group_parts ps n off) = length ps"
  by (simp add: group_parts_def)

lemma mapE_enumerate_ex:
  assumes "\<And>s. s < length ps \<Longrightarrow> \<exists>q. f s (ps ! s) = Inr q \<and> P s q"
  shows "\<exists>qs. mapE (\<lambda>(s, a). f s a) (enumerate 0 ps) = Inr qs \<and> length qs = length ps \<and> (\<forall>s<length ps. P s (qs ! s))"
proof -
  have "\<exists>qs. mapE (\<lambda>(s, a). f s a) (enumerate 0 ps) = Inr qs \<and> list_all2 (\<lambda>(s, a) q. P s q) (enumerate 0 ps) qs"
    using assms by (intro mapE_all) (auto simp: in_set_enumerate_eq)
  then show ?thesis by (fastforce simp: list_all2_conv_all_nth nth_enumerate_eq)
qed

lemma register_all_parts_sent:
  assumes "\<And>s. s < length ps \<Longrightarrow> result_ready (ps ! s) \<and> what s (ab_obj (ps ! s)) = (data s, of_nat (n s), off s) \<and>
    28 + n s < 2 ^ 31 \<and> n s \<le> length (data s)"
  shows "\<exists>qs. register_all_parts 1 blocks addr what ps = Inr qs \<and> length qs = length ps \<and>
    (\<forall>s<length ps. registered_part (n s) (off s) (take (n s) (data s)) (ps ! s) (qs ! s))"
  unfolding register_all_parts_def
proof (rule mapE_enumerate_ex)
  fix s assume s: "s < length ps"
  have "\<exists>q. register_single_part_result (blocks s) addr (data s) (of_nat (n s)) (off s) (ps ! s) = Inr q \<and>
      registered_part (n s) (off s) (take (n s) (data s)) (ps ! s) q"
    using assms [OF s] by (intro register_single_part_sent) simp_all
  then show "\<exists>q. (case what s (ab_obj (ps ! s)) of (data, sz, off) \<Rightarrow> typed_register_single_part_result 1 (blocks s) addr data sz off (ps ! s)) = Inr q \<and>
      registered_part (n s) (off s) (take (n s) (data s)) (ps ! s) q"
    using assms [OF s] by (simp add: typed_register_single_part_result_def)
qed

lemma single_parts_gathered:
  assumes cur: "\<forall>s<length qs. ab_cur_vector_distribution (qs ! s) = vd_bytes [part s] \<and> ab_nprocs (qs ! s) = of_nat (length qs)"
    and p: "qs \<noteq> []" "vd_small (length qs)" and off: "\<forall>s<length qs. vp_offset (part s) < 2 ^ 32"
  shows "gather_result qs = Inr (vd_bytes (map part [0..<length qs]), sync_all qs)"
proof -
  let ?p = "length qs" and ?parts = "\<lambda>s. [part s]"
  obtain a rest where qs: "qs = a # rest" using p(1) by (cases qs) auto
  have head: "ab_nprocs a = of_nat ?p" "ab_cur_vector_distribution a = vd_bytes (?parts 0)"
    using cur [rule_format, of 0] by (simp_all add: qs)
  have "gather_distr_parts (\<lambda>s off n. peek off n (ab_cur_vector_distribution (qs ! s))) (of_nat ?p) (vd_bytes (?parts 0)) =
      Inr (vd_bytes (concat (map (\<lambda>s. trunc_last (?parts s)) [0..<?p])))"
    using p cur vd_small_int [OF p(2)] by (intro gather_distr_parts_eq [where k = 1]) simp_all
  moreover have "map (\<lambda>s. trunc_last (?parts s)) [0..<?p] = map ?parts [0..<?p]"
    using off by (simp add: trunc_last_def take_bit_eq_mod mod_word_less)
  moreover have "concat (map ?parts [0..<?p]) = map part [0..<?p]" by (rule concat_map_singleton)
  ultimately have "gather_distr_parts (\<lambda>s off n. peek off n (ab_cur_vector_distribution (qs ! s))) (of_nat ?p) (vd_bytes (?parts 0)) =
      Inr (vd_bytes (map part [0..<?p]))" by (simp only:)
  then show ?thesis unfolding gather_result_def using head by (simp add: qs del: upt_Suc)
qed

lemma group_parts_gathered:
  assumes "length qs = length ps"
    "\<forall>s<length ps. ab_cur_vector_distribution (qs ! s) = vd_bytes [own_part (ps ! s) (n s) (off s)] \<and> ab_nprocs (qs ! s) = of_nat (length ps)"
    and "ps \<noteq> []" "vd_small (length ps)" and "\<forall>s<length ps. off s < 2 ^ 32"
  shows "gather_result qs = Inr (vd_bytes (group_parts ps n off), sync_all qs)"
proof -
  have "qs \<noteq> []" using assms(1,3) by auto
  then show ?thesis
    using assms single_parts_gathered [of qs "\<lambda>s. own_part (ps ! s) (n s) (off s)"] by (simp add: group_parts_def)
qed

text \<open>Synchronising changes neither the descriptions nor the messages; a frame is all that matters before.\<close>

lemma nth_sync_all [simp]: "s < length qs \<Longrightarrow> sync_all qs ! s = base_sync (qs ! s)"
  by (simp add: sync_all_def)

lemma base_sync_simps [simp]:
  "ab_cur_vector_distribution (base_sync a) = ab_cur_vector_distribution a" "ab_nprocs (base_sync a) = ab_nprocs a"
  "ab_sent (base_sync a) = ab_sent a" "ab_node (base_sync a) = ab_node a" "ab_next_key (base_sync a) = ab_next_key a"
  "ab_send_buf (base_sync a) = ab_send_buf a"
  by (simp_all add: base_sync_def)

lemma nodes_sync_all [simp]: "map ab_node (sync_all ps) = map ab_node ps" "sync_all ps = [] \<longleftrightarrow> ps = []"
  by (simp_all add: sync_all_def)

lemma actor_frame_nth:
  assumes "map actor_frame qs = map actor_frame ps" and "s < length ps"
  shows "ab_nprocs (qs ! s) = ab_nprocs (ps ! s)" "ab_node (qs ! s) = ab_node (ps ! s)" "ab_next_key (qs ! s) = ab_next_key (ps ! s)"
    "ab_send_buf (qs ! s) = ab_send_buf (ps ! s)" "ab_sent (qs ! s) = ab_sent (ps ! s)"
    "ab_cur_vector_distribution (qs ! s) = ab_cur_vector_distribution (ps ! s)"
proof -
  have "length qs = length ps" using assms(1) by (metis length_map)
  then have "actor_frame (qs ! s) = actor_frame (ps ! s)" using assms by (metis nth_map)
  then show "ab_nprocs (qs ! s) = ab_nprocs (ps ! s)" "ab_node (qs ! s) = ab_node (ps ! s)" "ab_next_key (qs ! s) = ab_next_key (ps ! s)"
    "ab_send_buf (qs ! s) = ab_send_buf (ps ! s)" "ab_sent (qs ! s) = ab_sent (ps ! s)"
    "ab_cur_vector_distribution (qs ! s) = ab_cur_vector_distribution (ps ! s)"
    by (simp_all add: actor_frame_def)
qed

lemma group_parts_frame:
  assumes "map actor_frame qs = map actor_frame ps"
  shows "group_parts qs n off = group_parts ps n off"
proof -
  have "length qs = length ps" using assms by (metis length_map)
  then show ?thesis by (simp add: group_parts_def actor_frame_nth [OF assms])
qed

lemma new_messages_frame:
  assumes "map actor_frame ps1 = map actor_frame ps" and "length qs = length ps"
  shows "new_messages ps1 (sync_all qs) = new_messages ps qs"
proof -
  have "length ps1 = length ps" using assms(1) by (metis length_map)
  then have "map (\<lambda>s. drop (length (ab_sent (ps1 ! s))) (ab_sent (sync_all qs ! s))) [0..<length ps1] =
      map (\<lambda>s. drop (length (ab_sent (ps ! s))) (ab_sent (qs ! s))) [0..<length ps]"
    using assms(2) by (intro map_cong) (simp_all add: actor_frame_nth [OF assms(1)])
  then show ?thesis by (simp only: new_messages_def)
qed

lemma group_messages:
  assumes "length qs = length ps" and "\<forall>s<length ps. registered_part (n s) (off s) (d s) (ps ! s) (qs ! s)"
  shows "list_all2 (\<lambda>s mm. is_store (ab_node (ps ! s)) (ab_next_key (ps ! s)) (d s) mm) [0..<length ps] (new_messages ps qs)"
proof -
  have "\<exists>mm. drop (length (ab_sent (ps ! s))) (ab_sent (qs ! s)) = [mm] \<and> is_store (ab_node (ps ! s)) (ab_next_key (ps ! s)) (d s) mm"
    if "s < length ps" for s
    using assms(2) that by (auto simp: registered_part_def)
  then obtain mm where mm: "\<And>s. s < length ps \<Longrightarrow> drop (length (ab_sent (ps ! s))) (ab_sent (qs ! s)) = [mm s]"
    "\<And>s. s < length ps \<Longrightarrow> is_store (ab_node (ps ! s)) (ab_next_key (ps ! s)) (d s) (mm s)" by metis
  have "map (\<lambda>s. drop (length (ab_sent (ps ! s))) (ab_sent (qs ! s))) [0..<length ps] = map (\<lambda>s. [mm s]) [0..<length ps]"
    using mm(1) by (intro map_cong) simp_all
  then have "new_messages ps qs = map mm [0..<length ps]" by (simp only: new_messages_def concat_map_singleton)
  then show ?thesis using mm(2) by (simp add: list_all2_conv_all_nth)
qed

text \<open>
  What the processes of an actor need to return a vector: free keys, and management threads of
  their own that do not know those keys.
\<close>

definition result_group :: "(c_int \<Rightarrow> actor_server) \<Rightarrow> 'o actor_base list \<Rightarrow> bool" where
  "result_group servers ps \<longleftrightarrow> ps \<noteq> [] \<and> 12 + 32 * length ps < 2 ^ 31 \<and> distinct (map ab_node ps) \<and> (\<forall>s. srv_inv (servers s)) \<and>
     (\<forall>a\<in>set ps. result_ready a \<and> ab_nprocs a = of_nat (length ps) \<and> key_unused servers (ab_node a, ab_next_key a))"

lemma result_group_nth:
  "result_group servers ps \<longleftrightarrow> ps \<noteq> [] \<and> 12 + 32 * length ps < 2 ^ 31 \<and> distinct (map ab_node ps) \<and> (\<forall>s. srv_inv (servers s)) \<and>
     (\<forall>s<length ps. result_ready (ps ! s) \<and> ab_nprocs (ps ! s) = of_nat (length ps) \<and> key_unused servers (ab_node (ps ! s), ab_next_key (ps ! s)))"
  by (auto simp: result_group_def all_set_conv_all_nth)

lemma result_group_frame:
  assumes "map actor_frame qs = map actor_frame ps"
  shows "result_group servers qs = result_group servers ps" and "ab_node ` set qs = ab_node ` set ps"
proof -
  have len: "length qs = length ps" using assms by (metis length_map)
  note f = actor_frame_nth [OF assms]
  have nodes: "map ab_node qs = map ab_node ps" using len f(2) by (intro nth_equalityI) simp_all
  show "result_group servers qs = result_group servers ps"
    unfolding result_group_nth nodes len result_ready_def using f len by auto
  show "ab_node ` set qs = ab_node ` set ps" using arg_cong [OF nodes, of set] by simp
qed

lemma group_parts_distinct: "distinct (map ab_node ps) \<Longrightarrow> distinct (map part_key (group_parts ps n off))"
  by (auto simp: distinct_conv_nth group_parts_def)

text \<open>Together the parts make up the vector.\<close>

definition parts_make ::
  "'o actor_base list \<Rightarrow> (nat \<Rightarrow> nat) \<Rightarrow> (nat \<Rightarrow> size_t) \<Rightarrow> (nat \<Rightarrow> byte list) \<Rightarrow> byte list \<Rightarrow> bool"
where
  "parts_make ps n off data v \<longleftrightarrow> length v < 2 ^ 31 - 28 \<and> describes (group_parts ps n off) v \<and>
     (\<forall>s<length ps. n s \<le> length (data s) \<and> n s < 2 ^ 64 \<and> peek (unat (off s)) (n s) v = take (n s) (data s))"

lemma parts_make_bounds:
  assumes "parts_make ps n off data v" and "s < length ps"
  shows "unat (off s) + n s \<le> length v" "28 + n s < 2 ^ 31" "off s < 2 ^ 32" "n s \<le> length (data s)"
    "part_bytes_of v (own_part (ps ! s) (n s) (off s)) = take (n s) (data s)"
proof -
  have part: "own_part (ps ! s) (n s) (off s) \<in> set (group_parts ps n off)" using assms(2) by (simp add: group_parts_def)
  have n: "n s < 2 ^ 64" "length v < 2 ^ 31 - 28" using assms by (simp_all add: parts_make_def)
  have le: "unat (off s) + unat (of_nat (n s) :: size_t) \<le> length v"
    using assms(1) part by (auto simp: parts_make_def describes_def)
  then show b: "unat (off s) + n s \<le> length v" using n(1) by (simp only: unat_size_of_nat)
  show "28 + n s < 2 ^ 31" using b n(2) by linarith
  have "unat (off s) < 2 ^ 32" using b n(2) by (simp add: power_def)
  then show "off s < 2 ^ 32" by (simp add: word_less_nat_alt)
  show "n s \<le> length (data s)" using assms by (simp add: parts_make_def)
  show "part_bytes_of v (own_part (ps ! s) (n s) (off s)) = take (n s) (data s)"
    using assms n(1) by (simp add: parts_make_def part_bytes_of_def)
qed

text \<open>What becomes of the servers when keys that were not used before are.\<close>

definition others_kept :: "(c_int \<times> c_int) set \<Rightarrow> (c_int \<Rightarrow> actor_server) \<Rightarrow> (c_int \<Rightarrow> actor_server) \<Rightarrow> bool" where
  "others_kept keys servers servers' \<longleftrightarrow> (\<forall>s. srv_inv (servers' s)) \<and> (\<forall>x\<in>keys. key_unused servers x) \<and> (\<forall>s k. (s, k) \<notin> keys \<longrightarrow>
     held (servers' s) k = held (servers s) k \<and> key_unused servers' (s, k) = key_unused servers (s, k))"

abbreviation next_keys :: "'o actor_base list \<Rightarrow> (c_int \<times> c_int) set" where
  "next_keys ps \<equiv> (\<lambda>a. (ab_node a, ab_next_key a)) ` set ps"

lemma group_parts_keys: "part_key ` set (group_parts ps n off) = next_keys ps"
proof -
  have "map part_key (group_parts ps n off) = map (\<lambda>a. (ab_node a, ab_next_key a)) ps"
    by (rule nth_equalityI) (simp_all add: group_parts_def)
  from arg_cong [OF this, of set] show ?thesis by simp
qed

lemma group_result_delivered:
  assumes grp: "result_group servers ps" and what: "\<forall>s<length ps. what s (ab_obj (ps ! s)) = (data s, of_nat (n s), off s)"
    and make: "parts_make ps n off data v"
  shows "\<exists>qs servers'. register_all_parts 1 blocks addr what ps = Inr qs \<and> length qs = length ps \<and>
    (\<forall>s<length ps. registered_part (n s) (off s) (take (n s) (data s)) (ps ! s) (qs ! s)) \<and>
    (\<forall>r. r = qs \<or> r = sync_all qs \<longrightarrow> gather_result r = Inr (vd_bytes (group_parts ps n off), sync_all r)) \<and>
    deliver_own envs (new_messages ps qs) servers = Inr servers' \<and>
    (\<forall>part\<in>set (group_parts ps n off). held (servers' (vp_pid part)) (vp_resid part) = Some (part_bytes_of v part)) \<and>
    others_kept (next_keys ps) servers servers'"
proof -
  let ?parts = "group_parts ps n off"
  note b = parts_make_bounds [OF make]
  have ready: "result_ready (ps ! s)" "ab_nprocs (ps ! s) = of_nat (length ps)" if "s < length ps" for s
    using grp nth_mem [OF that] by (auto simp: result_group_def)
  obtain qs where q: "register_all_parts 1 blocks addr what ps = Inr qs" "length qs = length ps"
    "\<forall>s<length ps. registered_part (n s) (off s) (take (n s) (data s)) (ps ! s) (qs ! s)"
    using register_all_parts_sent [of ps what data n off blocks addr] ready(1) what b(2,4) by blast
  have small: "vd_small (length ps)" using grp by (simp add: result_group_def vd_small_def)
  have gather: "gather_result r = Inr (vd_bytes ?parts, sync_all r)" if "r = qs \<or> r = sync_all qs" for r
    using grp small b(3) that q(2,3) ready(2)
    by (intro group_parts_gathered) (auto simp: result_group_def registered_part_def)
  have stores: "list_all2 (\<lambda>part mm. is_store (vp_pid part) (vp_resid part) (part_bytes_of v part) mm) ?parts (new_messages ps qs)"
    using group_messages [OF q(2,3)] b(5) by (simp add: list_all2_conv_all_nth group_parts_def)
  have unused: "\<forall>x\<in>next_keys ps. key_unused servers x" using grp by (auto simp: result_group_def)
  then have "\<forall>part\<in>set ?parts. key_unused servers (part_key part)" unfolding group_parts_keys [of ps n off, symmetric] by simp
  from deliver_all [OF _ stores group_parts_distinct this, of envs "mm_dst"] grp
  obtain servers' where s: "deliver_own envs (new_messages ps qs) servers = Inr servers'" "\<forall>s. srv_inv (servers' s)"
    "\<forall>part\<in>set ?parts. held (servers' (vp_pid part)) (vp_resid part) = Some (part_bytes_of v part)"
    "\<forall>s k. (s, k) \<notin> next_keys ps \<longrightarrow> held (servers' s) k = held (servers s) k \<and> key_unused servers' (s, k) = key_unused servers (s, k)"
    unfolding deliver_own_def result_group_def group_parts_keys by blast
  have "others_kept (next_keys ps) servers servers'" unfolding others_kept_def using s(2,4) unused by blast
  then show ?thesis using q gather s(1,3) by blast
qed

lemma group_result_held:
  assumes grp: "result_group servers ps" and what: "\<forall>s<length ps. what s (ab_obj (ps ! s)) = (data s, of_nat (n s), off s)"
    and make: "parts_make ps n off data v" and self: "self \<notin> ab_node ` set ps"
  shows "\<exists>qs servers'. register_all_parts 1 blocks addr what ps = Inr qs \<and> length qs = length ps \<and> objs qs = objs ps \<and>
    gather_result qs = Inr (vd_bytes (group_parts ps n off), sync_all qs) \<and>
    gather_result (sync_all qs) = Inr (vd_bytes (group_parts ps n off), sync_all (sync_all qs)) \<and>
    deliver_own envs (new_messages ps qs) servers = Inr servers' \<and>
    vector_held servers' self stores (vd_bytes (group_parts ps n off)) v"
proof -
  let ?parts = "group_parts ps n off"
  from group_result_delivered [where ps = ps and what = what, OF grp what make, of blocks addr envs]
  obtain qs servers' where q: "register_all_parts 1 blocks addr what ps = Inr qs" "length qs = length ps"
    "\<forall>s<length ps. registered_part (n s) (off s) (take (n s) (data s)) (ps ! s) (qs ! s)"
    "\<And>r. r = qs \<or> r = sync_all qs \<Longrightarrow> gather_result r = Inr (vd_bytes ?parts, sync_all r)"
    "deliver_own envs (new_messages ps qs) servers = Inr servers'" "others_kept (next_keys ps) servers servers'"
    "\<forall>part\<in>set ?parts. held (servers' (vp_pid part)) (vp_resid part) = Some (part_bytes_of v part)" by blast
  have "vp_pid (?parts ! i) \<noteq> self" if "i < length ?parts" for i using self that by (auto simp: group_parts_def)
  moreover have "describes ?parts v" "12 + 32 * length ?parts < 2 ^ 31"
    using make grp by (simp_all add: parts_make_def result_group_def)
  moreover have "\<forall>s. srv_inv (servers' s)" using q(6) by (simp add: others_kept_def)
  ultimately have "vector_held servers' self stores (vd_bytes ?parts) v"
    unfolding vector_held_def using q(7) by (intro exI [of _ ?parts]) auto
  moreover have "objs qs = objs ps" using q(2,3) by (auto simp: registered_part_def intro: nth_equalityI)
  ultimately show ?thesis using q by blast
qed

section \<open>What a result depends on\<close>

definition result_view :: "'o actor_base \<Rightarrow> c_int \<times> c_int \<times> c_int \<times> actor_message" where
  "result_view a = (ab_nprocs a, ab_node a, ab_next_key a, ab_send_buf a)"

lemma frame_view: "map actor_frame qs = map actor_frame ps \<Longrightarrow> map result_view qs = map result_view ps"
proof -
  assume f: "map actor_frame qs = map actor_frame ps"
  then have "length qs = length ps" by (metis length_map)
  then show ?thesis using actor_frame_nth [OF f] by (intro nth_equalityI) (simp_all add: result_view_def)
qed

lemma result_group_view:
  assumes "map result_view qs = map result_view ps"
  shows "result_group servers qs = result_group servers ps" and "ab_node ` set qs = ab_node ` set ps"
proof -
  have len: "length qs = length ps" using assms by (metis length_map)
  have v: "result_view (qs ! s) = result_view (ps ! s)" if "s < length ps" for s using assms len that by (metis nth_map)
  have f: "ab_nprocs (qs ! s) = ab_nprocs (ps ! s)" "ab_node (qs ! s) = ab_node (ps ! s)" "ab_next_key (qs ! s) = ab_next_key (ps ! s)"
    "ab_send_buf (qs ! s) = ab_send_buf (ps ! s)" if "s < length ps" for s
    using v [OF that] by (simp_all add: result_view_def)
  have nodes: "map ab_node qs = map ab_node ps" using len f(2) by (intro nth_equalityI) simp_all
  show "result_group servers qs = result_group servers ps"
    unfolding result_group_nth nodes len result_ready_def using f len by auto
  show "ab_node ` set qs = ab_node ` set ps" using arg_cong [OF nodes, of set] by simp
qed

lemma read_all_parts_ex:
  assumes "\<And>s. s < length ps \<Longrightarrow> \<exists>dv off sz buf sent out. what s (objs ps ! s) = Inr (dv, off, sz, buf) \<and>
    reads s dv off sz buf = Inr (sent, out) \<and> R s (put_buf out (objs ps ! s))"
  shows "\<exists>qs. read_all_parts reads what put_buf ps = Inr qs \<and> length qs = length ps \<and> (\<forall>s<length ps. R s (objs qs ! s)) \<and>
    map step_view qs = map step_view ps \<and> map result_view qs = map result_view ps"
proof -
  have "\<exists>dv off sz buf out. \<forall>s<length ps. \<exists>sent. what s (objs ps ! s) = Inr (dv s, off s, sz s, buf s) \<and>
      reads s (dv s) (off s) (sz s) (buf s) = Inr (sent, out s) \<and> R s (put_buf (out s) (objs ps ! s))"
    using assms by metis
  then obtain dv off sz buf out where a: "\<And>s. s < length ps \<Longrightarrow> \<exists>sent. what s (objs ps ! s) = Inr (dv s, off s, sz s, buf s) \<and>
      reads s (dv s) (off s) (sz s) (buf s) = Inr (sent, out s) \<and> R s (put_buf (out s) (objs ps ! s))" by blast
  then obtain qs where q: "read_all_parts reads what put_buf ps = Inr qs" "objs qs = map (\<lambda>s. put_buf (out s) (objs ps ! s)) [0..<length ps]"
    "map step_view qs = map step_view ps"
    using read_all_parts_eq [of ps what dv off sz buf reads out put_buf] by blast
  have "map result_view qs = map result_view ps"
    using q(1) unfolding read_all_parts_def by (rule mapE_enumerate_map) (auto simp: result_simps result_view_def)
  moreover have "length qs = length ps" using arg_cong [OF q(2), of length] by simp
  moreover have "R s (objs qs ! s)" if "s < length ps" for s unfolding q(2) using a [OF that] that by auto
  ultimately show ?thesis using q(1,3) by blast
qed

section \<open>Parts that follow each other\<close>

lemma tiles_owner:
  assumes "b 0 = (0 :: nat)" and "j < b k"
  shows "\<exists>s<k. b s \<le> j \<and> j < b (Suc s)"
  using assms(2)
proof (induction k)
  case (Suc k)
  then show ?case by (cases "j < b k") (auto intro: less_SucI)
qed (simp add: assms(1))

lemma tiles_make:
  assumes ps: "ps \<noteq> []" "vd_small (length ps)" and v: "length v < 2 ^ 31 - 28" and b: "b 0 = 0" "b (length ps) = length v"
    and tile: "\<And>s. s < length ps \<Longrightarrow> b (Suc s) = b s + n s \<and> n s \<le> length (data s) \<and> take (n s) (data s) = peek (b s) (n s) v"
  shows "parts_make ps n (\<lambda>s. of_nat (b s)) data v"
proof -
  let ?parts = "group_parts ps n (\<lambda>s. of_nat (b s))"
  have mono: "b s \<le> b k" if "s \<le> k" "k \<le> length ps" for s k
    using that by (induction k rule: dec_induct) (use tile in \<open>auto intro: order_trans\<close>)
  have le: "b s + n s \<le> length v" if "s < length ps" for s
    using mono [of "Suc s" "length ps"] tile [OF that] that b(2) by simp
  have size: "unat (of_nat (b s) :: size_t) = b s" "unat (of_nat (n s) :: size_t) = n s" "n s < 2 ^ 64" if "s < length ps" for s
    using le [OF that] v by (simp_all add: unat_size_of_nat)
  have "describes ?parts v"
    unfolding describes_def
  proof (intro conjI ballI allI impI)
    show "vd_small (length ?parts)" using ps(2) by (simp add: group_parts_def)
    show "length v < 2 ^ 31" using v by simp
    show "unat (vp_offset part) + unat (vp_size part) \<le> length v" if "part \<in> set ?parts" for part
      using that le size by (auto simp: group_parts_def)
    fix j assume "j < length v"
    then obtain s where "s < length ps" "b s \<le> j" "j < b s + n s" using tiles_owner [of b j "length ps"] b tile by auto
    then show "\<exists>part\<in>set ?parts. unat (vp_offset part) \<le> j \<and> j < unat (vp_offset part) + unat (vp_size part)"
      using size by (intro bexI [of _ "own_part (ps ! s) (n s) (of_nat (b s))"]) (auto simp: group_parts_def)
  qed
  then show ?thesis using v tile size by (simp add: parts_make_def)
qed

text \<open>The last message of every process, to its own management thread, carries its part.\<close>

definition last_messages :: "'o actor_base list \<Rightarrow> mpi_message list" where
  "last_messages ps = map (\<lambda>a. last (ab_sent a)) ps"

lemma last_messages_new:
  assumes "length qs = length ps" and "\<forall>s<length ps. registered_part (n s) (off s) (d s) (ps ! s) (qs ! s)"
  shows "last_messages (sync_all (sync_all qs)) = new_messages ps qs"
proof -
  have m: "drop (length (ab_sent (ps ! s))) (ab_sent (qs ! s)) = [last (ab_sent (qs ! s))]" if "s < length ps" for s
    using assms(2) that by (auto simp: registered_part_def)
  have "new_messages ps qs = concat (map (\<lambda>s. [last (ab_sent (qs ! s))]) [0..<length ps])"
    unfolding new_messages_def using m by (intro arg_cong [of _ _ concat] map_cong) simp_all
  also have "\<dots> = map (\<lambda>s. last (ab_sent (qs ! s))) [0..<length qs]" by (simp only: concat_map_singleton assms(1))
  also have "\<dots> = map (\<lambda>a. last (ab_sent a)) qs" by (rule nth_equalityI) simp_all
  finally show ?thesis by (simp add: last_messages_def sync_all_def base_sync_def)
qed

section \<open>Sharing the argument of a method\<close>

lemma upd_head_nth: "s < length ps \<Longrightarrow> ab_obj (upd_head f ps ! s) = (if s = 0 then f (ab_obj (ps ! 0)) else ab_obj (ps ! s))"
  by (cases ps; cases s) simp_all

lemma length_upd_head [simp]: "length (upd_head f ps) = length ps"
  by (cases ps) simp_all

text \<open>The head puts a description into a member and all processes get it.\<close>

lemma share_member:
  assumes step: "group_in_step ps" and small: "vd_small (length parts)"
    and def: "\<And>s. s < length ps \<Longrightarrow> \<exists>m. nparts (dv_of (objs ps ! s)) = Inr m"
    and put: "\<And>o1. dv_of (put_dv (vd_bytes parts) o1) = vd_bytes parts" "\<And>o1. put_dv (vd_bytes parts) (put_dv (vd_bytes parts) o1) = put_dv (vd_bytes parts) o1"
    and ne: "ps \<noteq> []"
  shows "\<exists>qs. broadcast_member dv_of put_dv (upd_head (put_dv (vd_bytes parts)) ps) = Inr qs \<and>
    group_in_step qs \<and> length qs = length ps \<and> map result_view qs = map result_view ps \<and>
    (\<forall>s<length ps. objs qs ! s = put_dv (vd_bytes parts) (objs ps ! s))"
proof -
  let ?ps = "upd_head (put_dv (vd_bytes parts)) ps"
  obtain a rest where ps: "ps = a # rest" using ne by (cases ps) auto
  have "\<exists>n. nparts (dv_of (ab_obj b)) = Inr n" if b: "b \<in> set rest" for b
  proof -
    obtain i where "i < length rest" "b = rest ! i" using b by (metis in_set_conv_nth)
    then show ?thesis using def [of "Suc i"] by (simp add: ps)
  qed
  then have defined: "\<forall>b\<in>set ?ps. \<exists>n. nparts (dv_of (ab_obj b)) = Inr n" using small put(1) by (simp add: ps)
  have "dv_of (ab_obj (a\<lparr>ab_obj := put_dv (vd_bytes parts) (ab_obj a)\<rparr>)) = vd_bytes parts" using put(1) by simp
  from broadcast_member_eq [where put_dv = put_dv, OF in_step_upd_head [OF step] _ this small defined, of rest]
  obtain qs where q: "broadcast_member dv_of put_dv ?ps = Inr qs" "group_in_step qs" "map actor_frame qs = map actor_frame ?ps"
    "objs qs = map (\<lambda>b. put_dv (vd_bytes parts) (ab_obj b)) ?ps" by (auto simp: ps)
  have "length qs = length ps" using arg_cong [OF q(4), of length] by simp
  moreover have "objs qs ! s = put_dv (vd_bytes parts) (objs ps ! s)" if s: "s < length ps" for s
    unfolding q(4) using s put(2) by (simp add: upd_head_nth)
  moreover have "map result_view qs = map result_view ps" using frame_view [of qs ps] q(3) by simp
  ultimately show ?thesis using q(1,2) by blast
qed

section \<open>One result after another\<close>

text \<open>An actor that can return \<open>m\<close> more vectors, and what becomes of everybody when it returns one.\<close>

definition results_group :: "nat \<Rightarrow> (c_int \<Rightarrow> actor_server) \<Rightarrow> 'o actor_base list \<Rightarrow> bool" where
  "results_group m servers ps \<longleftrightarrow> ps \<noteq> [] \<and> 12 + 32 * length ps < 2 ^ 31 \<and> distinct (map ab_node ps) \<and> (\<forall>s. srv_inv (servers s)) \<and>
     (\<forall>a\<in>set ps. send_inv (ab_send_buf a) \<and> ab_nprocs a = of_nat (length ps) \<and> 0 \<le> sint (ab_next_key a) \<and> sint (ab_next_key a) + int m < 2 ^ 31 \<and>
       (\<forall>k<m. key_unused servers (ab_node a, ab_next_key a + of_nat k)))"

lemma results_groupD: "results_group (Suc m) servers ps \<Longrightarrow> result_group servers ps"
  by (force simp: results_group_def result_group_def result_ready_def)

lemma held_not_unused: "held (servers s) k = Some v \<Longrightarrow> \<not> key_unused servers (s, k)"
  by (auto simp: held_def key_unused_def split: option.splits)

lemma stored_kept:
  assumes "others_kept keys servers servers'" and "vector_stored servers dv v"
  shows "vector_stored servers' dv v"
proof -
  obtain parts where p: "dv = vd_bytes parts" "describes parts v" "12 + 32 * length parts < 2 ^ 31"
    "\<forall>part\<in>set parts. held (servers (vp_pid part)) (vp_resid part) = Some (part_bytes_of v part)"
    using assms(2) unfolding vector_stored_def by blast
  have "held (servers' (vp_pid part)) (vp_resid part) = Some (part_bytes_of v part)" if "part \<in> set parts" for part
    using assms(1) p(4) that held_not_unused [of servers "vp_pid part" "vp_resid part"] unfolding others_kept_def by fastforce
  then show ?thesis using assms(1) p(1-3) unfolding vector_stored_def others_kept_def by blast
qed

lemma results_kept:
  assumes "others_kept keys servers servers'" and "results_group m servers rs" and "fst ` keys \<inter> ab_node ` set rs = {}"
  shows "results_group m servers' rs"
proof -
  have "key_unused servers' (ab_node a, k) = key_unused servers (ab_node a, k)" if "a \<in> set rs" for a k
  proof -
    have "(ab_node a, k) \<notin> keys" using assms(3) that by force
    then show ?thesis using assms(1) by (simp add: others_kept_def)
  qed
  then show ?thesis using assms(1,2) by (simp add: results_group_def others_kept_def)
qed

lemma results_group_nth:
  "results_group m servers ps \<longleftrightarrow> ps \<noteq> [] \<and> 12 + 32 * length ps < 2 ^ 31 \<and> distinct (map ab_node ps) \<and> (\<forall>s. srv_inv (servers s)) \<and>
     (\<forall>s<length ps. send_inv (ab_send_buf (ps ! s)) \<and> ab_nprocs (ps ! s) = of_nat (length ps) \<and> 0 \<le> sint (ab_next_key (ps ! s)) \<and>
       sint (ab_next_key (ps ! s)) + int m < 2 ^ 31 \<and> (\<forall>k<m. key_unused servers (ab_node (ps ! s), ab_next_key (ps ! s) + of_nat k)))"
  by (auto simp: results_group_def all_set_conv_all_nth)

lemma later_keys:
  assumes grp: "results_group (Suc m) servers ps" and kept: "others_kept (next_keys ps) servers servers'" and s: "s < length ps"
  shows "sint (ab_next_key (ps ! s) + 1) = sint (ab_next_key (ps ! s)) + 1"
    and "k < m \<Longrightarrow> key_unused servers' (ab_node (ps ! s), ab_next_key (ps ! s) + 1 + of_nat k)"
proof -
  let ?n = "ab_next_key (ps ! s)"
  have n: "0 \<le> sint ?n" "sint ?n + int (Suc m) < 2 ^ 31" "\<And>k. k < Suc m \<Longrightarrow> key_unused servers (ab_node (ps ! s), ?n + of_nat k)"
    "distinct (map ab_node ps)"
    using grp s by (simp_all add: results_group_nth)
  have "int_fits (sint ?n + 1)" using n(1,2) by (simp add: int_fits_def)
  from sint_of_fits [OF this] show "sint (?n + 1) = sint ?n + 1" by simp
  assume k: "k < m"
  have "(ab_node (ps ! s), ?n + 1 + of_nat k) \<notin> next_keys ps"
  proof
    assume "(ab_node (ps ! s), ?n + 1 + of_nat k) \<in> next_keys ps"
    then obtain t where t: "t < length ps" "ab_node (ps ! t) = ab_node (ps ! s)" "ab_next_key (ps ! t) = ?n + 1 + of_nat k"
      by (auto simp: in_set_conv_nth)
    then have "t = s" using n(4) s by (auto simp: distinct_conv_nth)
    then have "(of_nat (Suc k) :: c_int) = 0" using t(3) by (simp add: algebra_simps)
    moreover have "Suc k < 2 ^ 32" using k n(1,2) by simp
    ultimately show False by (metis unat_int_of_nat unat_0 nat.simps(3))
  qed
  moreover have "key_unused servers (ab_node (ps ! s), ?n + 1 + of_nat k)" using n(3) [of "Suc k"] k by (simp add: algebra_simps)
  ultimately show "key_unused servers' (ab_node (ps ! s), ?n + 1 + of_nat k)" using kept by (simp add: others_kept_def)
qed

text \<open>The actor has returned the vector \<open>v\<close>: what the management threads, the actor and the others are in for.\<close>

definition returned ::
  "nat \<Rightarrow> (c_int \<Rightarrow> server_env) \<Rightarrow> (c_int \<Rightarrow> actor_server) \<Rightarrow> 'o actor_base list \<Rightarrow> byte list \<Rightarrow>
    vector_distribution \<Rightarrow> 'o actor_base list \<Rightarrow> (c_int \<Rightarrow> actor_server) \<Rightarrow> bool"
where
  "returned m envs servers ps v dv qs servers' \<longleftrightarrow> deliver_own envs (last_messages qs) servers = Inr servers' \<and>
     vector_stored servers' dv v \<and> results_group m servers' qs \<and> group_in_step qs \<and> map ab_node qs = map ab_node ps \<and>
     others_kept (next_keys ps) servers servers'"

lemma returned_kept:
  assumes "returned m envs servers ps v dv qs servers'"
  shows "vector_stored servers d w \<Longrightarrow> vector_stored servers' d w"
    and "results_group k servers rs \<Longrightarrow> ab_node ` set ps \<inter> ab_node ` set rs = {} \<Longrightarrow> results_group k servers' rs"
proof -
  have kept: "others_kept (next_keys ps) servers servers'" using assms by (simp add: returned_def)
  show "vector_stored servers d w \<Longrightarrow> vector_stored servers' d w" by (rule stored_kept [OF kept])
  show "results_group k servers rs \<Longrightarrow> ab_node ` set ps \<inter> ab_node ` set rs = {} \<Longrightarrow> results_group k servers' rs"
    by (rule results_kept [OF kept]) auto
qed

lemma returned_nodes: "returned m envs servers ps v dv qs servers' \<Longrightarrow> ab_node ` set qs = ab_node ` set ps"
  unfolding returned_def by (metis set_map)

lemma group_result_step:
  assumes grp: "results_group (Suc m) servers ps" and step: "group_in_step ps" and what: "\<forall>s<length ps. what s (ab_obj (ps ! s)) = (data s, of_nat (n s), off s)"
    and make: "parts_make ps n off data v"
  shows "\<exists>qs dv servers'. register_all_parts 1 blocks addr what ps = Inr qs \<and> length qs = length ps \<and> objs qs = objs ps \<and>
    gather_result (sync_all qs) = Inr (dv, sync_all (sync_all qs)) \<and> returned m envs servers ps v dv (sync_all (sync_all qs)) servers'"
proof -
  let ?parts = "group_parts ps n off"
  from group_result_delivered [where ps = ps and what = what, OF results_groupD [OF grp] what make, of blocks addr envs]
  obtain qs servers' where q: "register_all_parts 1 blocks addr what ps = Inr qs" "length qs = length ps"
    "\<And>s. s < length ps \<Longrightarrow> registered_part (n s) (off s) (take (n s) (data s)) (ps ! s) (qs ! s)"
    "gather_result (sync_all qs) = Inr (vd_bytes ?parts, sync_all (sync_all qs))"
    "deliver_own envs (new_messages ps qs) servers = Inr servers'"
    "\<forall>part\<in>set ?parts. held (servers' (vp_pid part)) (vp_resid part) = Some (part_bytes_of v part)"
    "others_kept (next_keys ps) servers servers'" by blast
  note r = q(3) [unfolded registered_part_def]
  have same: "objs qs = objs ps" "map ab_node qs = map ab_node ps" "map step_view qs = map (\<lambda>a. step_view (base_sync a)) ps"
    using q(2) r by (auto simp: step_view_def base_sync_def intro: nth_equalityI)
  have ne: "qs \<noteq> []" using grp q(2) by (auto simp: results_group_def)
  have last: "last_messages (sync_all (sync_all qs)) = new_messages ps qs"
    using q(3) by (intro last_messages_new [where n = n and off = off and d = "\<lambda>s. take (n s) (data s)", OF q(2)]) simp
  have "describes ?parts v" "12 + 32 * length ?parts < 2 ^ 31"
    using make grp by (simp_all add: parts_make_def results_group_def)
  then have stored: "vector_stored servers' (vd_bytes ?parts) v"
    using q(6,7) unfolding vector_stored_def others_kept_def by blast
  have "results_group m servers' (sync_all (sync_all qs))"
    using grp q(2,7) same(2) r later_keys [OF grp q(7)] ne by (simp add: results_group_nth others_kept_def)
  moreover have "map step_view qs = map step_view (sync_all ps)" using same(3) by (simp add: sync_all_def)
  then have "group_in_step qs" using step by (intro in_step_view [of qs "sync_all ps"]) simp_all
  ultimately have "returned m envs servers ps v (vd_bytes ?parts) (sync_all (sync_all qs)) servers'"
    using q(5,7) same(2) stored by (simp add: returned_def last)
  then show ?thesis using q(1,2,4) same(1) by blast
qed

text \<open>Only the keys, the nodes and the send buffers matter; and elements of any size are bytes.\<close>

lemma results_group_view:
  assumes "map result_view qs = map result_view ps"
  shows "results_group m servers qs = results_group m servers ps" and "next_keys qs = next_keys ps" and "map ab_node qs = map ab_node ps"
proof -
  have len: "length qs = length ps" using assms by (metis length_map)
  have v: "result_view (qs ! s) = result_view (ps ! s)" if "s < length ps" for s using assms len that by (metis nth_map)
  have f: "ab_nprocs (qs ! s) = ab_nprocs (ps ! s)" "ab_node (qs ! s) = ab_node (ps ! s)" "ab_next_key (qs ! s) = ab_next_key (ps ! s)"
    "ab_send_buf (qs ! s) = ab_send_buf (ps ! s)" if "s < length ps" for s
    using v [OF that] by (simp_all add: result_view_def)
  show nodes: "map ab_node qs = map ab_node ps" using len f(2) by (intro nth_equalityI) simp_all
  have "map (\<lambda>a. (ab_node a, ab_next_key a)) qs = map (\<lambda>a. (ab_node a, ab_next_key a)) ps"
    using len f by (intro nth_equalityI) simp_all
  from arg_cong [OF this, of set] show "next_keys qs = next_keys ps" by simp
  have "qs = [] \<longleftrightarrow> ps = []" using len by auto
  then show "results_group m servers qs = results_group m servers ps" unfolding results_group_nth nodes len using f by simp
qed

lemma returned_view: "map result_view ps1 = map result_view ps \<Longrightarrow> returned m envs servers ps1 v dv qs servers' = returned m envs servers ps v dv qs servers'"
  using results_group_view(2,3) [of ps1 ps] by (simp add: returned_def)

lemma result_view_sync [simp]: "map result_view (sync_all ps) = map result_view ps"
  by (simp add: sync_all_def result_view_def base_sync_def)

lemma register_all_parts_elem:
  "register_all_parts e blocks addr what ps =
    register_all_parts 1 blocks addr (\<lambda>s o1. case what s o1 of (data, sz, off) \<Rightarrow> (data, sz * e, off * e)) ps"
  by (simp add: register_all_parts_def typed_register_single_part_result_def case_prod_beta)

text \<open>The readers of the processes of an actor.\<close>

definition group_readers ::
  "(nat \<Rightarrow> block) \<Rightarrow> size_t \<Rightarrow> (c_int \<Rightarrow> server_env) \<Rightarrow> (c_int \<Rightarrow> actor_server) \<Rightarrow> 'o actor_base list \<Rightarrow> nat \<Rightarrow> reader"
where
  "group_readers blocks base envs servers ps s = process_reader blocks base envs servers (ab_node (ps ! s))"

lemma group_readers_read: "vector_stored servers dv v \<Longrightarrow> reads_vector (group_readers blocks base envs servers ps s) dv v"
  by (simp add: group_readers_def process_reader_reads)

text \<open>An actor that has just been constructed on the nodes from \<open>first\<close> on.\<close>

definition placed_group :: "nat \<Rightarrow> 'o list \<Rightarrow> 'o actor_base list" where
  "placed_group first os = map (\<lambda>s. projr (ActorBase 1 (os ! s) (of_nat s) (of_nat (length os)) (of_nat (first + s)) 0)) [0..<length os]"

lemma placed_group_ok:
  shows "objs (placed_group first os) = os" "group_in_step (placed_group first os)" "length (placed_group first os) = length os"
    and "os \<noteq> [] \<Longrightarrow> 12 + 32 * (first + length os) < 2 ^ 31 \<Longrightarrow> m < 2 ^ 31 \<Longrightarrow> results_group m ActorServer (placed_group first os)"
    and "ab_node ` set (placed_group first os) = (\<lambda>s. of_nat (first + s)) ` {..<length os}"
proof -
  have a: "\<exists>a. ActorBase 1 obj pid nprocs node 0 = Inr a \<and> ab_obj a = obj \<and> step_view a = (0, 0, 1) \<and> ab_node a = node \<and>
      ab_nprocs a = nprocs \<and> ab_next_key a = 0 \<and> ab_send_buf a = ActorMessage0" for obj :: 'a and pid nprocs node
    using ActorBase_total [of 1 obj pid nprocs node 0] ActorBase_ok
    by (fastforce simp: step_view_def ActorBase_def result_simps register_spmd_def base_sync_def)
  let ?a = "\<lambda>obj pid nprocs node. projr (ActorBase 1 obj pid nprocs node 0)"
  have b: "ab_obj (?a obj pid nprocs node) = obj \<and> step_view (?a obj pid nprocs node) = (0, 0, 1) \<and> ab_node (?a obj pid nprocs node) = node \<and>
      ab_nprocs (?a obj pid nprocs node) = nprocs \<and> ab_next_key (?a obj pid nprocs node) = 0 \<and> ab_send_buf (?a obj pid nprocs node) = ActorMessage0"
    for obj :: 'a and pid nprocs node
    using a [of obj pid nprocs node] by auto
  show "objs (placed_group first os) = os" by (rule nth_equalityI) (simp_all add: placed_group_def b)
  show "group_in_step (placed_group first os)"
    unfolding group_in_step_def by (intro exI [of _ 0] exI [of _ 1]) (auto simp: placed_group_def b)
  show l: "length (placed_group first os) = length os" by (simp add: placed_group_def)
  have node: "ab_node (placed_group first os ! s) = of_nat (first + s)" if "s < length os" for s using that by (simp add: placed_group_def b)
  show "ab_node ` set (placed_group first os) = (\<lambda>s. of_nat (first + s)) ` {..<length os}"
    by (auto simp: placed_group_def b image_image atLeast0LessThan)
  assume os: "os \<noteq> []" "12 + 32 * (first + length os) < 2 ^ 31" "m < 2 ^ 31"
  have "distinct (map ab_node (placed_group first os))"
    using os(2) node by (auto simp: distinct_conv_nth l pid_inject simp del: of_nat_add)
  moreover have "placed_group first os \<noteq> []" using os(1) l by auto
  moreover have "key_unused ActorServer x" for x by (cases x) (simp add: key_unused_def ActorServer_def)
  ultimately show "results_group m ActorServer (placed_group first os)"
    using os by (auto simp: results_group_nth l srv_inv_init placed_group_def b)
qed

section \<open>Properties\<close>

text \<open>
  Property C25: the result of an actor can be read. When every process registers its part, the parts make
  up the vector \<open>v\<close>, and the management threads have handled what their processes sent them, then
  the description the head gathers is one with which any other process reads every range of \<open>v\<close>.
\<close>

theorem actor_result_readable:
  assumes "result_group servers ps" and "\<forall>s<length ps. what s (ab_obj (ps ! s)) = (data s, of_nat (n s), off s)"
    and "parts_make ps n off data v" and "self \<notin> ab_node ` set ps"
  shows "\<exists>qs dv servers'. register_all_parts 1 blocks addr what ps = Inr qs \<and> gather_result qs = Inr (dv, sync_all qs) \<and>
    deliver_own envs (new_messages ps qs) servers = Inr servers' \<and>
    (\<forall>from m out. from + m \<le> length v \<longrightarrow> length out = m \<longrightarrow> (\<exists>sent.
      absp_dv_get_part blocks self base stores (Vector_Access.served envs' servers' self) dv (of_nat from) (of_nat m) out =
        Inr (sent, peek from m v)))"
proof -
  obtain qs servers' where q: "register_all_parts 1 blocks addr what ps = Inr qs" "gather_result qs = Inr (vd_bytes (group_parts ps n off), sync_all qs)"
    "deliver_own envs (new_messages ps qs) servers = Inr servers'" "vector_held servers' self stores (vd_bytes (group_parts ps n off)) v"
    using group_result_held [where ps = ps and what = what, OF assms, of blocks addr envs stores] by blast
  show ?thesis using q(1-3) absp.read_range [OF q(4)] by blast
qed

text \<open>Two processes return the bytes 1, 2 and 3, the first of them two and with one byte of its buffer left.\<close>

lemma result_group_new:
  assumes "os \<noteq> []" and "12 + 32 * length os < 2 ^ 31"
  shows "result_group ActorServer (new_group os)" and "ab_node ` set (new_group os) = of_nat ` {..<length os}"
proof -
  have new: "new_group os = placed_group 0 os" by (simp add: new_group_def placed_group_def)
  show "result_group ActorServer (new_group os)"
    unfolding new using assms by (intro results_groupD [where m = 0] placed_group_ok(4)) simp_all
  show "ab_node ` set (new_group os) = of_nat ` {..<length os}" unfolding new placed_group_ok(5) by simp
qed

lemma new_group_description: "s < length os \<Longrightarrow> ab_cur_vector_distribution (new_group os ! s) = vd_bytes [zero_part]"
proof -
  have "vector_distribution_base 1 = Inr (vd_bytes [zero_part])"
    using vector_distribution_base_eq [of 1] by (simp add: vd_small_def)
  then show "s < length os \<Longrightarrow> ab_cur_vector_distribution (new_group os ! s) = vd_bytes [zero_part]"
    by (simp add: new_group_def ActorBase_def register_spmd_def base_sync_def)
qed

theorem actor_result_readable_witness:
  "\<exists>qs dv servers' sent. register_all_parts 1 (\<lambda>_. \<lparr>bl_addr = 1, bl_mem = \<lambda>_. 0\<rparr>) 0
      (\<lambda>s x. if s = 0 then ([1, 2, 9], 2, 0) else ([3], 1, 2)) (new_group [0, 0 :: nat]) = Inr qs \<and>
    gather_result qs = Inr (dv, sync_all qs) \<and>
    deliver_own (\<lambda>_. plain_env) (new_messages (new_group [0, 0 :: nat]) qs) ActorServer = Inr servers' \<and>
    absp_dv_get_part (\<lambda>_. \<lparr>bl_addr = 1, bl_mem = \<lambda>_. 0\<rparr>) 5 100 (\<lambda>_. []) (Vector_Access.served (\<lambda>_. plain_env) servers' 5)
      dv 1 2 [0, 0] = Inr (sent, [2, 3])"
proof -
  let ?ps = "new_group [0, 0 :: nat]" and ?b = "\<lambda>_ :: nat. \<lparr>bl_addr = 1, bl_mem = \<lambda>_. 0\<rparr>"
  let ?what = "\<lambda>s (x :: nat). if s = 0 then ([1, 2, 9], 2, 0) else ([3], 1, 2) :: byte list \<times> size_t \<times> size_t"
  let ?data = "\<lambda>s :: nat. if s = 0 then [1, 2, 9] else [3] :: byte list" and ?n = "\<lambda>s :: nat. if s = 0 then 2 else 1 :: nat"
  let ?off = "\<lambda>s :: nat. if s = 0 then 0 else 2 :: size_t"
  have grp: "result_group ActorServer ?ps" and "ab_node ` set ?ps = of_nat ` {..<2}" and l: "length ?ps = 2"
    using result_group_new [of "[0, 0 :: nat]"] new_group_ok(3) [of "[0, 0 :: nat]"] by (simp_all flip: numeral_2_eq_2)
  then have self: "5 \<notin> ab_node ` set ?ps" by (auto simp: less_2_cases_iff)
  have parts: "group_parts ?ps ?n ?off = [own_part (?ps ! 0) 2 0, own_part (?ps ! 1) 1 2]"
    by (simp add: group_parts_def l upt_conv_Cons)
  have "parts_make ?ps ?n ?off ?data [1, 2, 3]"
    unfolding parts_make_def parts l describes_def by (auto simp: vd_small_def peek_def less_2_cases_iff)
  moreover have "\<forall>s<length ?ps. ?what s (ab_obj (?ps ! s)) = (?data s, of_nat (?n s), ?off s)" by simp
  ultimately have "\<exists>qs dv servers'. register_all_parts 1 ?b 0 ?what ?ps = Inr qs \<and> gather_result qs = Inr (dv, sync_all qs) \<and>
    deliver_own (\<lambda>_. plain_env) (new_messages ?ps qs) ActorServer = Inr servers' \<and>
    (\<forall>from m out. from + m \<le> length [1, 2, 3 :: byte] \<longrightarrow> length out = m \<longrightarrow> (\<exists>sent.
      absp_dv_get_part ?b 5 100 (\<lambda>_. []) (Vector_Access.served (\<lambda>_. plain_env) servers' 5) dv (of_nat from) (of_nat m) out =
        Inr (sent, peek from m [1, 2, 3])))"
    by (intro actor_result_readable [OF grp _ _ self])
  then obtain qs dv servers' where q: "register_all_parts 1 ?b 0 ?what ?ps = Inr qs" "gather_result qs = Inr (dv, sync_all qs)"
    "deliver_own (\<lambda>_. plain_env) (new_messages ?ps qs) ActorServer = Inr servers'"
    "\<forall>from m out. from + m \<le> length [1, 2, 3 :: byte] \<longrightarrow> length out = m \<longrightarrow> (\<exists>sent.
      absp_dv_get_part ?b 5 100 (\<lambda>_. []) (Vector_Access.served (\<lambda>_. plain_env) servers' 5) dv (of_nat from) (of_nat m) out =
        Inr (sent, peek from m [1, 2, 3]))"
    by blast
  have "1 + 2 \<le> length [1, 2, 3 :: byte]" "length [0, 0 :: byte] = 2" by simp_all
  then obtain sent where "absp_dv_get_part ?b 5 100 (\<lambda>_. []) (Vector_Access.served (\<lambda>_. plain_env) servers' 5) dv (of_nat 1) (of_nat 2) [0, 0] =
      Inr (sent, peek 1 2 [1, 2, 3])"
    using q(4) by blast
  then show ?thesis using q(1-3)
    by (intro exI [of _ qs] exI [of _ dv] exI [of _ servers'] exI [of _ sent]) (simp add: peek_def)
qed

end
