(* ===== verification/Image_Store.thy ===== *)
theory Image_Store
  imports Group_Result Image_Files
begin

text \<open>
  The actor \<^verbatim>\<open>ImgStore\<close> (src/src/examples/imgproc/src/ImgStore.cpp, ImgStore.h): it writes a distributed
  image to one file per process and loads it again, as a distributed vector or as one vector on the
  head. The members that hold paths are buffers of \<^verbatim>\<open>PATH_MAX\<close> bytes with a string in them. The
  measured times and the contents of the logs are left out, as is the name of the directory the
  loading functions compute and do not use; the path of a log is printed, since that may overflow.
\<close>

section \<open>State\<close>

text \<open>\<open>st_res_registered\<close>: whether this process has registered its \<^verbatim>\<open>_res\<close>, as long as it is, for puts.\<close>

record img_store =
  st_logpath :: "byte list"
  st_log_base_len :: size_t
  st_dv :: vector_distribution
  st_part :: "byte list"
  st_res :: "byte list"
  st_res_registered :: bool
  st_dst :: "byte list"
  st_max_block_size :: size_t
  st_proc_ints_buffer :: "c_int list"

text \<open>The constructor on one of \<open>p\<close> processes; \<open>mem\<close> is what the members it does not initialise hold.\<close>

definition ImgStore :: "img_store \<Rightarrow> c_int \<Rightarrow> img_store result" where
  "ImgStore mem p =
     bindE (vector_distribution_base 1) (\<lambda>dv.
       Inr (mem\<lparr>st_log_base_len := 0, st_dv := dv, st_part := [], st_res := [], st_res_registered := False,
                st_dst := replicate PATH_MAX 0, st_max_block_size := 0, st_proc_ints_buffer := replicate (unat p) 0\<rparr>))"

section \<open>Logs\<close>

definition setLogPathBase :: "byte list \<Rightarrow> img_store actor_base list \<Rightarrow> (c_int \<times> img_store actor_base list) result" where
  "setLogPathBase path ps = (case objs ps of [] \<Rightarrow> Inl Out_of_bounds
     | head # _ \<Rightarrow>
         bindE (mem_write 0 (strncpy (PATH_MAX - 1) path) (st_logpath head)) (\<lambda>logpath.
         bindE (mem_read logpath 0 (length path + 1)) (\<lambda>bs.
         bindE (on_all (\<lambda>s o1. bindE (mem_write 0 bs (st_logpath o1)) (\<lambda>lp.
                  Inr (o1\<lparr>st_logpath := lp, st_log_base_len := low_int (of_nat (length path)) (st_log_base_len o1)\<rparr>)))
             (upd_head (\<lambda>o1. o1\<lparr>st_logpath := logpath, st_log_base_len := of_nat (length path)\<rparr>) ps)) (\<lambda>qs.
           Inr (1, sync_all qs)))))"

text \<open>Opening the log of a function prints its path behind the base.\<close>

definition open_log :: "byte list \<Rightarrow> nat \<Rightarrow> img_store \<Rightarrow> img_store result" where
  "open_log name s o1 =
     (if st_log_base_len o1 \<noteq> 0
      then bindE (mem_write (unat (st_log_base_len o1)) (name @ decimal s @ [0]) (st_logpath o1)) (\<lambda>lp. Inr (o1\<lparr>st_logpath := lp\<rparr>))
      else Inr o1)"

section \<open>Storing\<close>

text \<open>\<^verbatim>\<open>sprintf(base + strlen(base), "_%d", bsp_pid())\<close>.\<close>

definition print_part_path :: "nat \<Rightarrow> img_store \<Rightarrow> img_store result" where
  "print_part_path s o1 =
     bindE (c_string (st_dst o1)) (\<lambda>base.
     bindE (mem_write (length base) (chars ''_'' @ decimal s @ [0]) (st_dst o1)) (\<lambda>dst. Inr (o1\<lparr>st_dst := dst\<rparr>)))"

definition store_block :: "nat \<Rightarrow> nat \<Rightarrow> img_store \<Rightarrow> (vector_distribution \<times> size_t \<times> size_t \<times> byte list) result" where
  "store_block p s o1 =
     bindE (typed_getVecSize 1 (st_dv o1)) (\<lambda>vec_size.
     bindE (div_range vec_size (of_nat s) (of_nat p)) (\<lambda>(part_offset, part_end).
       let part_size = part_end - part_offset
       in if 2 ^ 63 \<le> unat part_size then Inl Bad_alloc
          else Inr (st_dv o1, part_offset, part_size, vec_resize (unat part_size) 0 (st_part o1))))"

definition part_file_content :: "img_store \<Rightarrow> (byte list \<times> byte list) result" where
  "part_file_content o1 = bindE (c_string (st_dst o1)) (\<lambda>name. Inr (norm_path name, st_part o1))"

definition bsp_store_img ::
  "(nat \<Rightarrow> reader) \<Rightarrow> img_store actor_base list \<Rightarrow> files \<Rightarrow> (img_store actor_base list \<times> files) result"
where
  "bsp_store_img reads ps fs =
     bindE (on_all (open_log (chars ''_bsp_store_img_p'')) ps) (\<lambda>ps1.
     bindE (broadcast_member st_dv (\<lambda>dv o1. o1\<lparr>st_dv := dv\<rparr>) ps1) (\<lambda>ps2.
     bindE (read_all_parts reads (store_block (length ps)) (\<lambda>buf o1. o1\<lparr>st_part := buf\<rparr>)
         (get_from_head (\<lambda>head o1. o1\<lparr>st_dst := st_dst head\<rparr>) ps2)) (\<lambda>ps3.
     bindE (on_all print_part_path ps3) (\<lambda>ps4.
     bindE (mapE part_file_content (objs ps4)) (\<lambda>parts.
       Inr (sync_all ps4, foldl (\<lambda>fs (name, content). fs(name \<mapsto> content)) fs parts))))))"

text \<open>\<^verbatim>\<open>memcpy(&_dst[0], &dst_base[0], dst_base.size() + 1)\<close> does not look at the size of \<^verbatim>\<open>_dst\<close>.\<close>

definition set_path :: "byte list \<Rightarrow> img_store actor_base list \<Rightarrow> img_store actor_base list result" where
  "set_path bs ps = (case objs ps of [] \<Rightarrow> Inl Out_of_bounds
     | head # _ \<Rightarrow> bindE (mem_write 0 bs (st_dst head)) (\<lambda>dst. Inr (upd_head (\<lambda>o1. o1\<lparr>st_dst := dst\<rparr>) ps)))"

definition storeImage ::
  "(nat \<Rightarrow> reader) \<Rightarrow> vector_distribution \<Rightarrow> byte list \<Rightarrow> img_store actor_base list \<Rightarrow> files \<Rightarrow>
    (c_int \<times> img_store actor_base list \<times> files) result"
where
  "storeImage reads img_data dst_base ps fs =
     bindE (set_path (dst_base @ [0]) (upd_head (\<lambda>o1. o1\<lparr>st_dv := img_data\<rparr>) ps)) (\<lambda>ps1.
     bindE (bsp_store_img reads ps1 fs) (\<lambda>(ps2, fs'). Inr (1, ps2, fs')))"

section \<open>Loading a distributed image\<close>

definition send_path :: "img_store actor_base list \<Rightarrow> img_store actor_base list result" where
  "send_path ps = (case objs ps of [] \<Rightarrow> Inr []
     | head # _ \<Rightarrow>
         bindE (c_string (st_dst head)) (\<lambda>base.
         bindE (bsp_deliver (map (\<lambda>i. (of_nat i, 0, base @ [0])) [1..<length ps]) (map st_dst (objs ps))) (\<lambda>regs.
         bindE (on_all (\<lambda>s o1. Inr (o1\<lparr>st_dst := regs ! s\<rparr>)) ps) (\<lambda>qs. Inr (sync_all qs)))))"

definition open_part :: "files \<Rightarrow> img_store \<Rightarrow> byte list option result" where
  "open_part fs o1 = bindE (c_string (st_dst o1)) (\<lambda>name. Inr (fs (norm_path name)))"

definition max_block :: "img_store \<Rightarrow> size_t" where
  "max_block o1 = foldl (\<lambda>m b. max m (scast b)) 0 (st_proc_ints_buffer o1)"

text \<open>\<^verbatim>\<open>is.read(&_part[0], block_size)\<close> into a buffer of the size of the largest block.\<close>

definition read_part_file :: "byte list \<Rightarrow> img_store \<Rightarrow> img_store result" where
  "read_part_file content o1 =
     (let m = max_block o1
      in if 2 ^ 63 \<le> unat m then Inl Bad_alloc
         else bindE (mem_write 0 content (vec_resize (unat m) 0 (st_part o1))) (\<lambda>buf.
                Inr (o1\<lparr>st_max_block_size := m, st_part := buf\<rparr>)))"

text \<open>The files of the processes are open; their sizes are narrowed to \<^verbatim>\<open>int\<close> when they are exchanged.\<close>

definition load_blocks ::
  "(nat \<Rightarrow> block) \<Rightarrow> size_t \<Rightarrow> byte list list \<Rightarrow> img_store actor_base list \<Rightarrow> img_store actor_base list result"
where
  "load_blocks blocks addr contents ps =
     bindE (on_all (\<lambda>s o1. bindE (all_to_all (map (\<lambda>c. of_nat (length c)) contents) (st_proc_ints_buffer o1)) (\<lambda>buf.
         Inr (o1\<lparr>st_proc_ints_buffer := buf\<rparr>))) ps) (\<lambda>ps1.
     bindE (on_all (\<lambda>s. read_part_file (contents ! s)) (sync_all ps1)) (\<lambda>ps2.
     bindE (register_all_parts 1 blocks addr
         (\<lambda>s o1. (st_part o1, of_nat (length (contents ! s)), of_nat s * st_max_block_size o1)) ps2) (\<lambda>ps3. Inr (sync_all ps3))))"

text \<open>
  A process that cannot open its file returns at once. When all of them do, the actor goes on as if it
  had loaded an image. When only some do, the supersteps of the processes no longer match: those that found
  their file wait in the exchange of the sizes, where nobody joins them unless the head is one of those that
  failed, whose later gathering is then taken for it. Such a group is not followed any further:
  \<^const>\<open>Deadlock\<close> stands for it here and in \<^verbatim>\<open>bsp_load_img_seq\<close>.
\<close>

definition bsp_load_img ::
  "(nat \<Rightarrow> block) \<Rightarrow> size_t \<Rightarrow> files \<Rightarrow> img_store actor_base list \<Rightarrow> img_store actor_base list result"
where
  "bsp_load_img blocks addr fs ps =
     bindE (on_all (open_log (chars ''_bsp_load_img_p'')) ps) (\<lambda>ps1.
     bindE (send_path ps1) (\<lambda>ps2.
     bindE (on_all print_part_path ps2) (\<lambda>ps3.
     bindE (mapE (open_part fs) (objs ps3)) (\<lambda>cs.
       if list_all (\<lambda>c. c = None) cs then Inr ps3
       else if list_all (\<lambda>c. c \<noteq> None) cs then load_blocks blocks addr (map the cs) ps3
       else Inl Deadlock))))"

definition loadImage ::
  "(nat \<Rightarrow> block) \<Rightarrow> size_t \<Rightarrow> files \<Rightarrow> byte list \<Rightarrow> img_store actor_base list \<Rightarrow>
    (vector_distribution \<times> img_store actor_base list) result"
where
  "loadImage blocks addr fs base_path ps =
     bindE (set_path (takeWhile (\<lambda>c. c \<noteq> 0) base_path @ [0]) ps) (\<lambda>ps1.
     bindE (bsp_load_img blocks addr fs ps1) gather_result)"

section \<open>Loading an image to the head\<close>

text \<open>
  Here every process puts its size into the element of the receiver, so that each process only learns
  the size of one other, the one whose put comes last: \<open>winner s\<close> on process \<open>s\<close>.
\<close>

definition seq_sizes :: "(nat \<Rightarrow> nat) \<Rightarrow> byte list list \<Rightarrow> nat \<Rightarrow> img_store \<Rightarrow> img_store result" where
  "seq_sizes winner contents s o1 =
     (if s < length (st_proc_ints_buffer o1)
      then Inr (o1\<lparr>st_proc_ints_buffer := (st_proc_ints_buffer o1)[s := of_nat (length (contents ! (winner s mod length contents)))]\<rparr>)
      else Inl Out_of_bounds)"

text \<open>\<open>prev\<close>: the size before. Taking back the registration of memory that was never registered is an error.\<close>

definition renew_res :: "nat \<Rightarrow> size_t \<Rightarrow> nat \<Rightarrow> img_store \<Rightarrow> img_store result" where
  "renew_res p prev s o1 =
     (if prev \<noteq> 0 \<and> \<not> st_res_registered o1 then Inl Out_of_bounds
      else let n = unat (if s = 0 then of_nat p * st_max_block_size o1 else 1)
           in if 2 ^ 63 \<le> n then Inl Bad_alloc
              else Inr (o1\<lparr>st_res := vec_resize n 0 (st_res o1), st_res_registered := True\<rparr>))"

definition renew_all :: "size_t list \<Rightarrow> img_store actor_base list \<Rightarrow> img_store actor_base list result" where
  "renew_all prevs ps =
     (let changed = map (\<lambda>(prev, o1). prev \<noteq> st_max_block_size o1) (zip prevs (objs ps))
      in if list_all (\<lambda>c. c) changed then bindE (on_all (\<lambda>s. renew_res (length ps) (prevs ! s) s) ps) (\<lambda>qs. Inr (sync_all qs))
         else if list_all (\<lambda>c. \<not> c) changed then Inr ps
         else Inl Deadlock)"

definition res_put :: "nat \<Rightarrow> byte list \<Rightarrow> img_store \<Rightarrow> bsp_put result" where
  "res_put s content o1 =
     (if \<not> st_res_registered o1 then Inl Out_of_bounds
      else bindE (mem_read (st_part o1) 0 (length content)) (\<lambda>bs. Inr (0, unat (of_nat s * st_max_block_size o1), bs)))"

definition load_blocks_seq ::
  "(nat \<Rightarrow> nat) \<Rightarrow> byte list list \<Rightarrow> img_store actor_base list \<Rightarrow> img_store actor_base list result"
where
  "load_blocks_seq winner contents ps =
     bindE (on_all (seq_sizes winner contents) ps) (\<lambda>ps1.
     bindE (on_all (\<lambda>s. read_part_file (contents ! s)) (sync_all ps1)) (\<lambda>ps2.
     bindE (renew_all (map st_max_block_size (objs ps1)) ps2) (\<lambda>ps3.
     bindE (mapE (\<lambda>(s, o1). res_put s (contents ! s) o1) (enumerate 0 (objs ps3))) (\<lambda>puts.
     bindE (bsp_deliver puts (map st_res (objs ps3))) (\<lambda>regs.
     bindE (on_all (\<lambda>s o1. Inr (o1\<lparr>st_res := regs ! s\<rparr>)) ps3) (\<lambda>ps4. Inr (sync_all ps4)))))))"

definition bsp_load_img_seq ::
  "(nat \<Rightarrow> nat) \<Rightarrow> files \<Rightarrow> img_store actor_base list \<Rightarrow> img_store actor_base list result"
where
  "bsp_load_img_seq winner fs ps =
     bindE (send_path ps) (\<lambda>ps1.
     bindE (on_all print_part_path ps1) (\<lambda>ps2.
     bindE (mapE (open_part fs) (objs ps2)) (\<lambda>cs.
       if list_all (\<lambda>c. c = None) cs then Inr ps2
       else if list_all (\<lambda>c. c \<noteq> None) cs then load_blocks_seq winner (map the cs) ps2
       else Inl Deadlock)))"

definition loadImageSeq ::
  "(nat \<Rightarrow> nat) \<Rightarrow> files \<Rightarrow> byte list \<Rightarrow> img_store actor_base list \<Rightarrow> (byte list \<times> img_store actor_base list) result"
where
  "loadImageSeq winner fs base_path ps =
     bindE (set_path (takeWhile (\<lambda>c. c \<noteq> 0) base_path @ [0]) ps) (\<lambda>ps1.
     bindE (bsp_load_img_seq winner fs ps1) (\<lambda>ps2.
       case objs ps2 of [] \<Rightarrow> Inl Out_of_bounds | head # _ \<Rightarrow> Inr (st_res head, ps2)))"

section \<open>Paths\<close>

text \<open>A base path that leaves room for the number of a process behind it.\<close>

definition path_ok :: "byte list \<Rightarrow> bool" where
  "path_ok base \<longleftrightarrow> 0 \<notin> set base \<and> length base + 12 \<le> PATH_MAX"

definition part_file :: "byte list \<Rightarrow> nat \<Rightarrow> byte list" where
  "part_file base s = norm_path base @ 95 # decimal s"

definition holds_path :: "byte list \<Rightarrow> byte list \<Rightarrow> bool" where
  "holds_path base dst \<longleftrightarrow> length dst = PATH_MAX \<and> (\<exists>rest. dst = base @ 0 # rest)"

lemma decimal_plain: "\<not> is_digit b \<Longrightarrow> b \<notin> set (decimal n)"
  using decimal_digits by blast

lemma decimal_no_zero [simp]: "0 \<notin> set (decimal n)" "47 \<notin> set (decimal n)"
  by (simp_all add: decimal_plain is_digit_def)

lemma part_file_inject [simp]: "part_file base s = part_file base t \<longleftrightarrow> s = t"
  by (simp add: part_file_def)

lemma part_file_norm: "norm_path (base @ 95 # decimal s) = part_file base s"
  unfolding part_file_def by (rule norm_path_append) simp

lemma holds_path_string: "holds_path base dst \<Longrightarrow> 0 \<notin> set base \<Longrightarrow> c_string dst = Inr base"
  by (auto simp: holds_path_def c_string_append)

lemma write_string:
  assumes "off \<le> length base" and "holds_path base dst \<or> off = 0 \<and> length dst = PATH_MAX" and "off + length str < PATH_MAX"
  shows "\<exists>dst'. mem_write off (str @ [0]) dst = Inr dst' \<and> holds_path (take off base @ str) dst'"
proof -
  have len: "length dst = PATH_MAX" using assms(2) by (auto simp: holds_path_def)
  have "take off dst = take off base" using assms(1,2) by (auto simp: holds_path_def)
  then have "poke off (str @ [0]) dst = (take off base @ str) @ 0 # drop (off + length str + 1) dst"
    by (simp add: poke_def)
  moreover have "length (poke off (str @ [0]) dst) = PATH_MAX" using assms(3) len by (simp add: poke_def)
  ultimately show ?thesis using assms(3) len by (intro exI [of _ "poke off (str @ [0]) dst"]) (simp add: mem_write_def holds_path_def)
qed

lemma print_part_path_eq:
  assumes "path_ok base" and "holds_path base (st_dst o1)" and "s < 2 ^ 31"
  shows "\<exists>dst. print_part_path s o1 = Inr (o1\<lparr>st_dst := dst\<rparr>) \<and> holds_path (base @ 95 # decimal s) dst"
proof -
  have "length (decimal s) \<le> 10" using assms(3) by (intro length_decimal) simp_all
  then have "length base + length (95 # decimal s :: byte list) < PATH_MAX" using assms(1) by (simp add: path_ok_def)
  with assms(2) obtain dst where "mem_write (length base) ((95 # decimal s) @ [0]) (st_dst o1) = Inr dst" "holds_path (base @ 95 # decimal s) dst"
    using write_string [of "length base" base "st_dst o1" "95 # decimal s"] by auto
  then show ?thesis using assms(1,2)
    by (intro exI [of _ dst]) (simp add: print_part_path_def path_ok_def holds_path_string)
qed

section \<open>The invariant\<close>

text \<open>The base path of the logs is short enough for the names printed behind it.\<close>

definition log_ok :: "img_store \<Rightarrow> bool" where
  "log_ok o1 \<longleftrightarrow> st_log_base_len o1 = 0 \<or> unat (st_log_base_len o1) + 27 \<le> length (st_logpath o1)"

definition st_inv :: "nat \<Rightarrow> img_store \<Rightarrow> bool" where
  "st_inv p o1 \<longleftrightarrow> length (st_dst o1) = PATH_MAX \<and> length (st_proc_ints_buffer o1) = p \<and> (\<exists>m. nparts (st_dv o1) = Inr m) \<and> log_ok o1"

definition st_group :: "img_store actor_base list \<Rightarrow> bool" where
  "st_group ps \<longleftrightarrow> group_in_step ps \<and> 0 < length ps \<and> length ps < 2 ^ 31 \<and> (\<forall>s<length ps. st_inv (length ps) (objs ps ! s))"

definition logged :: "img_store \<Rightarrow> img_store \<Rightarrow> bool" where
  "logged o1 o2 \<longleftrightarrow> (\<exists>lp. length lp = length (st_logpath o1) \<and> o2 = o1\<lparr>st_logpath := lp\<rparr>)"

lemma loggedD:
  assumes "logged o1 o2"
  shows "st_dst o2 = st_dst o1" "st_dv o2 = st_dv o1" "st_part o2 = st_part o1" "st_proc_ints_buffer o2 = st_proc_ints_buffer o1"
    "st_max_block_size o2 = st_max_block_size o1" "log_ok o2 = log_ok o1"
  using assms by (auto simp: logged_def log_ok_def)

lemma open_log_eq:
  assumes "log_ok o1" and "length name \<le> 16" and "s < 2 ^ 31"
  shows "\<exists>o2. open_log name s o1 = Inr o2 \<and> logged o1 o2"
proof -
  let ?bs = "name @ decimal s @ [0]" and ?off = "unat (st_log_base_len o1)"
  have len: "length ?bs \<le> 27" using assms(2) length_decimal [of s 10] assms(3) by simp
  show ?thesis
  proof (cases "st_log_base_len o1 = 0")
    case True
    then show ?thesis by (auto simp: open_log_def logged_def intro: exI [of _ "st_logpath o1"])
  next
    case False
    with assms(1) have fits: "?off + length ?bs \<le> length (st_logpath o1)" using len by (simp add: log_ok_def)
    then have "length (poke ?off ?bs (st_logpath o1)) = length (st_logpath o1)" by (simp add: poke_def)
    moreover have "open_log name s o1 = Inr (o1\<lparr>st_logpath := poke ?off ?bs (st_logpath o1)\<rparr>)"
      using False fits by (simp add: open_log_def mem_write_def)
    ultimately show ?thesis unfolding logged_def by blast
  qed
qed

section \<open>What storing does\<close>

abbreviation block_of :: "byte list \<Rightarrow> nat \<Rightarrow> nat \<Rightarrow> byte list" where
  "block_of v p s \<equiv> peek (block_begin (length v) p s) (block_size (length v) p s) v"

definition stored :: "byte list \<Rightarrow> nat \<Rightarrow> byte list \<Rightarrow> files \<Rightarrow> files \<Rightarrow> bool" where
  "stored base p v fs fs' \<longleftrightarrow> (\<forall>s<p. fs' (part_file base s) = Some (block_of v p s)) \<and>
     (\<forall>name. (\<forall>s<p. name \<noteq> part_file base s) \<longrightarrow> fs' name = fs name)"

lemma set_path_eq:
  assumes "ps \<noteq> []" and "length (st_dst (objs ps ! 0)) = PATH_MAX" and "length base < PATH_MAX"
  shows "\<exists>dst. set_path (base @ [0]) ps = Inr (upd_head (\<lambda>o1. o1\<lparr>st_dst := dst\<rparr>) ps) \<and> holds_path base dst"
proof -
  obtain a rest where ps: "ps = a # rest" using assms(1) by (cases ps) auto
  obtain dst where "mem_write 0 (base @ [0]) (st_dst (ab_obj a)) = Inr dst" "holds_path base dst"
    using write_string [of 0 base "st_dst (ab_obj a)" base] assms(2,3) ps by auto
  then show ?thesis using ps by (intro exI [of _ dst]) (simp add: set_path_def)
qed

lemma store_block_eq:
  assumes "st_dv o1 = vd_bytes parts" and "vd_small (length parts)" and "vec_end parts = of_nat n" and n: "n < 2 ^ 31"
    and s: "s < p" and p: "p < 2 ^ 31"
  shows "store_block p s o1 =
    Inr (vd_bytes parts, of_nat (block_begin n p s), of_nat (block_size n p s), vec_resize (block_size n p s) 0 (st_part o1))"
proof -
  have "block_size n p s < 2 ^ 31" using block_size_le [OF s, of n] n by simp
  then show ?thesis
    using div_range_eq [OF n s p] assms(1-3) getVecSize_eq [OF assms(2)] by (simp add: store_block_def typed_getVecSize_def)
qed

lemma foldl_files:
  assumes "inj_on f {..<p}"
  shows "(\<forall>s<p. foldl (\<lambda>fs (name, content). fs(name \<mapsto> content)) fs (map (\<lambda>s. (f s, c s)) [0..<p]) (f s) = Some (c s)) \<and>
    (\<forall>name. (\<forall>s<p. name \<noteq> f s) \<longrightarrow> foldl (\<lambda>fs (name, content). fs(name \<mapsto> content)) fs (map (\<lambda>s. (f s, c s)) [0..<p]) name = fs name)"
  using assms
proof (induction p)
  case 0
  then show ?case by simp
next
  case (Suc p)
  have "f p \<noteq> f s" "f s \<noteq> f p" if "s < p" for s using that inj_onD [OF Suc.prems, of p s] by auto
  moreover have "inj_on f {..<p}" using Suc.prems by (auto simp: inj_on_def)
  ultimately show ?case using Suc.IH by (auto simp: less_Suc_eq)
qed

text \<open>Up to the reading of the blocks.\<close>

definition store_read :: "(nat \<Rightarrow> reader) \<Rightarrow> img_store actor_base list \<Rightarrow> img_store actor_base list result" where
  "store_read reads ps =
     bindE (on_all (open_log (chars ''_bsp_store_img_p'')) ps) (\<lambda>ps1.
     bindE (broadcast_member st_dv (\<lambda>dv o1. o1\<lparr>st_dv := dv\<rparr>) ps1) (\<lambda>ps2.
       read_all_parts reads (store_block (length ps)) (\<lambda>buf o1. o1\<lparr>st_part := buf\<rparr>)
         (get_from_head (\<lambda>head o1. o1\<lparr>st_dst := st_dst head\<rparr>) ps2)))"

lemma bsp_store_img_split:
  "bsp_store_img reads ps fs = bindE (store_read reads ps) (\<lambda>ps3.
     bindE (on_all print_part_path ps3) (\<lambda>ps4.
     bindE (mapE part_file_content (objs ps4)) (\<lambda>parts.
       Inr (sync_all ps4, foldl (\<lambda>fs (name, content). fs(name \<mapsto> content)) fs parts))))"
  by (auto simp: bsp_store_img_def store_read_def bindE_def split: sum.split)

lemma store_read_eq:
  assumes grp: "st_group ps" and head: "st_dv (objs ps ! 0) = vd_bytes parts" "holds_path base (st_dst (objs ps ! 0))"
    and small: "vd_small (length parts)" "vec_end parts = of_nat (length v)" and reads: "\<forall>s<length ps. reads_vector (reads s) (vd_bytes parts) v"
  shows "\<exists>qs. store_read reads ps = Inr qs \<and> length qs = length ps \<and> group_in_step qs \<and>
    (\<forall>s<length ps. holds_path base (st_dst (objs qs ! s)) \<and> st_part (objs qs ! s) = block_of v (length ps) s \<and> st_inv (length ps) (objs qs ! s))"
proof -
  let ?p = "length ps" and ?put = "\<lambda>dv o1. o1\<lparr>st_dv := dv\<rparr>" and ?name = "chars ''_bsp_store_img_p''"
  have p: "0 < ?p" "?p < 2 ^ 31" and step: "group_in_step ps" and inv: "\<And>s. s < ?p \<Longrightarrow> st_inv ?p (objs ps ! s)"
    using grp by (simp_all add: st_group_def)
  have "\<exists>ps1. on_all (open_log ?name) ps = Inr ps1 \<and> length ps1 = ?p \<and> (\<forall>s<?p. logged (objs ps ! s) (objs ps1 ! s)) \<and>
      map step_view ps1 = map step_view ps \<and> map actor_frame ps1 = map actor_frame ps"
  proof (rule on_all_ex)
    fix s assume "s < ?p"
    then show "\<exists>o2. open_log ?name s (objs ps ! s) = Inr o2 \<and> logged (objs ps ! s) o2"
      using inv [of s] p(2) by (intro open_log_eq) (simp_all add: st_inv_def)
  qed
  then obtain ps1 where p1: "on_all (open_log ?name) ps = Inr ps1" "length ps1 = ?p" "\<And>s. s < ?p \<Longrightarrow> logged (objs ps ! s) (objs ps1 ! s)"
    "map step_view ps1 = map step_view ps" by blast
  note l1 = loggedD [OF p1(3)]
  obtain a rest where ps1: "ps1 = a # rest" using p(1) p1(2) by (cases ps1) auto
  have dv1: "st_dv (ab_obj a) = vd_bytes parts" using l1(2) [of 0] head(1) p(1) p1(2) by (simp add: ps1)
  have "\<exists>n. nparts (st_dv (objs ps1 ! s)) = Inr n" if "s < ?p" for s using inv [OF that] l1(2) [OF that] by (simp add: st_inv_def)
  then have defined: "\<forall>b\<in>set ps1. \<exists>n. nparts (st_dv (ab_obj b)) = Inr n" using p1(2) by (auto simp: in_set_conv_nth)
  have step1: "group_in_step ps1" using in_step_view [OF p1(4) step] .
  obtain ps2 where p2: "broadcast_member st_dv ?put ps1 = Inr ps2" "group_in_step ps2" "objs ps2 = map (\<lambda>b. ?put (vd_bytes parts) (ab_obj b)) ps1"
    using broadcast_member_eq [where put_dv = ?put, OF step1 ps1 dv1 small(1) defined] by auto
  let ?ps3 = "get_from_head (\<lambda>head o1. o1\<lparr>st_dst := st_dst head\<rparr>) ps2"
  have len: "length ps2 = ?p" "length ?ps3 = ?p"
    using arg_cong [OF p2(3), of length] arg_cong [OF objs_get_from_head [of "\<lambda>head o1. o1\<lparr>st_dst := st_dst head\<rparr>" ps2], of length] p1(2)
    by simp_all
  have nth2: "objs ps2 ! s = ?put (vd_bytes parts) (objs ps1 ! s)" if "s < ?p" for s using that p1(2) p2(3) by simp
  have nth3: "objs ?ps3 ! s = (objs ps1 ! s)\<lparr>st_dv := vd_bytes parts, st_dst := st_dst (objs ps ! 0)\<rparr>" if s: "s < ?p" for s
    unfolding objs_get_from_head using s len(1) nth2 [OF s] nth2 [OF p(1)] l1(1) [OF p(1)] by auto
  let ?out = "\<lambda>s. block_of v ?p s"
  have "\<exists>qs. read_all_parts reads (store_block ?p) (\<lambda>buf o1. o1\<lparr>st_part := buf\<rparr>) ?ps3 = Inr qs \<and>
    objs qs = map (\<lambda>s. (objs ?ps3 ! s)\<lparr>st_part := ?out s\<rparr>) [0..<length ?ps3] \<and> map step_view qs = map step_view ?ps3"
  proof (rule read_all_parts_eq)
    fix s assume "s < length ?ps3"
    then have s: "s < ?p" using len(2) by simp
    let ?o = "objs ?ps3 ! s"
    have v: "length v < 2 ^ 31" using reads s by (auto simp: reads_vector_def)
    have "store_block ?p s ?o = Inr (vd_bytes parts, of_nat (block_begin (length v) ?p s), of_nat (block_size (length v) ?p s),
        vec_resize (block_size (length v) ?p s) 0 (st_part ?o))"
      using small v s p(2) by (intro store_block_eq) (simp_all add: nth3 [OF s])
    moreover obtain sent where "reads s (vd_bytes parts) (of_nat (block_begin (length v) ?p s)) (of_nat (block_size (length v) ?p s))
        (vec_resize (block_size (length v) ?p s) 0 (st_part ?o)) = Inr (sent, ?out s)"
      using reads_block [of "reads s" "vd_bytes parts" v s ?p "vec_resize (block_size (length v) ?p s) 0 (st_part ?o)"] reads s by auto
    ultimately show "\<exists>sent. store_block ?p s ?o = Inr (vd_bytes parts, of_nat (block_begin (length v) ?p s), of_nat (block_size (length v) ?p s),
        vec_resize (block_size (length v) ?p s) 0 (st_part ?o)) \<and>
      reads s (vd_bytes parts) (of_nat (block_begin (length v) ?p s)) (of_nat (block_size (length v) ?p s))
        (vec_resize (block_size (length v) ?p s) 0 (st_part ?o)) = Inr (sent, ?out s)" by blast
  qed
  then obtain qs where q: "read_all_parts reads (store_block ?p) (\<lambda>buf o1. o1\<lparr>st_part := buf\<rparr>) ?ps3 = Inr qs"
    "objs qs = map (\<lambda>s. (objs ?ps3 ! s)\<lparr>st_part := ?out s\<rparr>) [0..<?p]" "map step_view qs = map step_view ?ps3"
    unfolding len(2) by blast
  have "objs qs ! s = (objs ps1 ! s)\<lparr>st_dv := vd_bytes parts, st_dst := st_dst (objs ps ! 0), st_part := ?out s\<rparr>" if "s < ?p" for s
    unfolding q(2) using that by (simp add: nth3 nth_map_upt del: nth_map)
  moreover have "st_inv ?p ((objs ps1 ! s)\<lparr>st_dv := vd_bytes parts, st_dst := st_dst (objs ps ! 0), st_part := ?out s\<rparr>)" if s: "s < ?p" for s
    using inv [OF s] inv [OF p(1)] l1(4,6) [OF s] by (simp add: st_inv_def log_ok_def)
  moreover have "length qs = ?p" using arg_cong [OF q(2), of length] by simp
  moreover have "group_in_step qs" using in_step_view [OF q(3)] p2(2) by simp
  ultimately show ?thesis using p1(1) p2(1) q(1) head(2) by (intro exI [of _ qs]) (simp add: store_read_def)
qed

lemma store_write_eq:
  assumes ok: "path_ok base" and p: "length ps < 2 ^ 31" and step: "group_in_step ps"
    and pre: "\<And>s. s < length ps \<Longrightarrow> holds_path base (st_dst (objs ps ! s)) \<and> st_part (objs ps ! s) = block_of v (length ps) s \<and> st_inv (length ps) (objs ps ! s)"
  shows "\<exists>qs parts. on_all print_part_path ps = Inr qs \<and> mapE part_file_content (objs qs) = Inr parts \<and>
    length qs = length ps \<and> group_in_step qs \<and> (\<forall>s<length ps. st_inv (length ps) (objs qs ! s)) \<and>
    stored base (length ps) v fs (foldl (\<lambda>fs (name, content). fs(name \<mapsto> content)) fs parts)"
proof -
  let ?p = "length ps"
  have "\<exists>qs. on_all print_part_path ps = Inr qs \<and> length qs = ?p \<and>
    (\<forall>s<?p. \<exists>dst. objs qs ! s = (objs ps ! s)\<lparr>st_dst := dst\<rparr> \<and> holds_path (base @ 95 # decimal s) dst) \<and>
    map step_view qs = map step_view ps \<and> map actor_frame qs = map actor_frame ps"
  proof (rule on_all_ex)
    fix s assume s: "s < ?p"
    then have "s < 2 ^ 31" using p by simp
    from print_part_path_eq [OF ok conjunct1 [OF pre [OF s]] this]
    show "\<exists>o1. print_part_path s (objs ps ! s) = Inr o1 \<and> (\<exists>dst. o1 = (objs ps ! s)\<lparr>st_dst := dst\<rparr> \<and> holds_path (base @ 95 # decimal s) dst)"
      by blast
  qed
  then obtain qs where q: "on_all print_part_path ps = Inr qs" "length qs = ?p" "map step_view qs = map step_view ps"
    "\<And>s. s < ?p \<Longrightarrow> \<exists>dst. objs qs ! s = (objs ps ! s)\<lparr>st_dst := dst\<rparr> \<and> holds_path (base @ 95 # decimal s) dst" by blast
  have content: "part_file_content (objs qs ! s) = Inr (part_file base s, block_of v ?p s)" and inv: "st_inv ?p (objs qs ! s)" if s: "s < ?p" for s
  proof -
    obtain dst where d: "objs qs ! s = (objs ps ! s)\<lparr>st_dst := dst\<rparr>" "holds_path (base @ 95 # decimal s) dst" using q(4) [OF s] by blast
    have "0 \<notin> set (base @ 95 # decimal s)" using ok by (simp add: path_ok_def)
    then show "part_file_content (objs qs ! s) = Inr (part_file base s, block_of v ?p s)"
      unfolding d(1) using pre [OF s] holds_path_string [OF d(2)] by (simp add: part_file_content_def part_file_norm)
    show "st_inv ?p (objs qs ! s)"
      unfolding d(1) using pre [OF s] d(2) by (simp add: st_inv_def holds_path_def log_ok_def)
  qed
  have "mapE part_file_content (objs qs) = Inr (map (\<lambda>s. (part_file base s, block_of v ?p s)) [0..<?p])"
  proof -
    have "objs qs = map (\<lambda>s. objs qs ! s) [0..<?p]" using q(2) by (intro nth_equalityI) simp_all
    then have "mapE part_file_content (objs qs) = mapE (part_file_content \<circ> (\<lambda>s. objs qs ! s)) [0..<?p]"
      by (simp only: mapE_map [symmetric])
    also have "\<dots> = Inr (map (\<lambda>s. (part_file base s, block_of v ?p s)) [0..<?p])"
      using content by (intro mapE_eq_map) (simp only: comp_def set_upt atLeastLessThan_iff)
    finally show ?thesis .
  qed
  moreover have "inj_on (part_file base) {..<?p}" by (auto simp: inj_on_def)
  from foldl_files [OF this, of fs "\<lambda>s. block_of v ?p s"]
  have "stored base ?p v fs (foldl (\<lambda>fs (name, content). fs(name \<mapsto> content)) fs (map (\<lambda>s. (part_file base s, block_of v ?p s)) [0..<?p]))"
    by (simp only: stored_def)
  ultimately show ?thesis using q(1,2) inv in_step_view [OF q(3) step] by blast
qed

lemma nth_upd_head: "objs (upd_head f ps) ! s = (if s = 0 \<and> ps \<noteq> [] then f (objs ps ! 0) else objs ps ! s)"
  by (cases ps) (auto simp: nth_Cons')

lemma store_group:
  assumes grp: "st_group ps" and small: "vd_small (length parts)" "vec_end parts = of_nat (length v)"
    and reads: "\<forall>s<length ps. reads_vector (reads s) (vd_bytes parts) v" and ok: "path_ok base"
  shows "\<exists>ps' fs'. storeImage reads (vd_bytes parts) base ps fs = Inr (1, ps', fs') \<and> length ps' = length ps \<and> st_group ps' \<and>
    stored base (length ps) v fs fs'"
proof -
  let ?p = "length ps" and ?ps = "upd_head (\<lambda>o1. o1\<lparr>st_dv := vd_bytes parts\<rparr>) ps"
  have p: "ps \<noteq> []" "0 < ?p" "?p < 2 ^ 31" and inv: "\<And>s. s < ?p \<Longrightarrow> st_inv ?p (objs ps ! s)" and step: "group_in_step ps"
    using grp by (auto simp: st_group_def)
  have len: "length ?ps = ?p" "?ps \<noteq> []" using p(1) by (cases ps, simp_all)+
  have "length (st_dst (objs ?ps ! 0)) = PATH_MAX" using inv [OF p(2)] p(1) unfolding nth_upd_head by (simp add: st_inv_def)
  moreover have "length base < PATH_MAX" using ok by (simp add: path_ok_def)
  ultimately obtain dst where dst: "set_path (base @ [0]) ?ps = Inr (upd_head (\<lambda>o1. o1\<lparr>st_dst := dst\<rparr>) ?ps)" "holds_path base dst"
    using set_path_eq [OF len(2)] by blast
  let ?qs = "upd_head (\<lambda>o1. o1\<lparr>st_dst := dst\<rparr>) ?ps"
  have lq: "length ?qs = ?p" using len by (cases ps) simp_all
  have nth: "objs ?qs ! s = (if s = 0 then (objs ps ! 0)\<lparr>st_dv := vd_bytes parts, st_dst := dst\<rparr> else objs ps ! s)" for s
    unfolding nth_upd_head using len(2) p(1) by auto
  have "st_inv ?p (objs ?qs ! s)" if "s < ?p" for s
    unfolding nth using inv [OF that] inv [OF p(2)] dst(2) by (simp add: st_inv_def holds_path_def log_ok_def)
  then have grp': "st_group ?qs" using p(2,3) step lq by (simp add: st_group_def del: upd_head.simps objs_upd_head)
  have head: "st_dv (objs ?qs ! 0) = vd_bytes parts" "holds_path base (st_dst (objs ?qs ! 0))" unfolding nth using dst(2) by simp_all
  from store_read_eq [OF grp' head small, of reads, unfolded lq] reads
  obtain ps3 where r: "store_read reads ?qs = Inr ps3" "length ps3 = ?p" "group_in_step ps3"
    "\<And>s. s < ?p \<Longrightarrow> holds_path base (st_dst (objs ps3 ! s)) \<and> st_part (objs ps3 ! s) = block_of v ?p s \<and> st_inv ?p (objs ps3 ! s)" by blast
  from store_write_eq [OF ok _ r(3), of v fs, unfolded r(2)] p(3) r(4)
  obtain ps4 contents where w: "on_all print_part_path ps3 = Inr ps4" "mapE part_file_content (objs ps4) = Inr contents"
    "length ps4 = ?p" "group_in_step ps4" "\<forall>s<?p. st_inv ?p (objs ps4 ! s)"
    "stored base ?p v fs (foldl (\<lambda>fs (name, content). fs(name \<mapsto> content)) fs contents)" by blast
  have "st_group (sync_all ps4)" using w(3-5) p(2,3) by (simp add: st_group_def del: nth_map)
  then show ?thesis using dst(1) r(1) w(1-3,6) by (simp add: storeImage_def bsp_store_img_split)
qed

section \<open>The sizes of the blocks\<close>

text \<open>The largest of some sizes.\<close>

definition max_size :: "nat list \<Rightarrow> nat" where
  "max_size ns = foldl max 0 ns"

lemma foldl_max: "foldl max (k :: nat) ns = max k (foldl max 0 ns)"
proof (induction ns arbitrary: k)
  case Nil
  then show ?case by simp
next
  case (Cons n ns)
  show ?case using Cons [of "max k n"] Cons [of n] by simp
qed

lemma max_size_simps [simp]: "max_size [] = 0" "max_size (n # ns) = max n (max_size ns)"
  by (simp_all add: max_size_def foldl_max [of n])

lemma max_size_ge: "n \<in> set ns \<Longrightarrow> n \<le> max_size ns"
  by (induction ns) auto

lemma max_size_less: "(\<And>n. n \<in> set ns \<Longrightarrow> n < m) \<Longrightarrow> 0 < m \<Longrightarrow> max_size ns < m"
  by (induction ns) auto

lemma max_block_eq:
  assumes "st_proc_ints_buffer o1 = map of_nat ns" and "\<forall>n\<in>set ns. n < 2 ^ 31"
  shows "max_block o1 = of_nat (max_size ns)"
proof -
  have "foldl (\<lambda>m b. max m (scast b)) (of_nat k :: size_t) (map of_nat ns :: c_int list) = of_nat (foldl max k ns)"
    if "k < 2 ^ 31" "\<forall>n\<in>set ns. n < 2 ^ 31" for k
    using that
  proof (induction ns arbitrary: k)
    case Nil
    then show ?case by simp
  next
    case (Cons n ns)
    have "max (of_nat k :: size_t) (scast (of_nat n :: c_int)) = of_nat (max k n)"
      using Cons.prems of_nat_size_le [of k n] by (simp add: max_def)
    then show ?case using Cons.IH [of "max k n"] Cons.prems by simp
  qed
  from this [of 0] show ?thesis using assms by (simp add: max_block_def max_size_def)
qed

lemma read_part_file_eq:
  assumes "max_block o1 = of_nat m" and "m < 2 ^ 31" and "length content \<le> m"
  shows "\<exists>buf. read_part_file content o1 = Inr (o1\<lparr>st_max_block_size := of_nat m, st_part := buf\<rparr>) \<and>
    length buf = m \<and> take (length content) buf = content"
  using assms
  by (intro exI [of _ "poke 0 content (vec_resize m 0 (st_part o1))"])
    (simp add: read_part_file_def Let_def mem_write_def poke_def)

section \<open>Loading the blocks\<close>

text \<open>The sizes are exchanged and every process reads its file.\<close>

definition load_read :: "byte list list \<Rightarrow> img_store actor_base list \<Rightarrow> img_store actor_base list result" where
  "load_read contents ps =
     bindE (on_all (\<lambda>s o1. bindE (all_to_all (map (\<lambda>c. of_nat (length c)) contents) (st_proc_ints_buffer o1)) (\<lambda>buf.
         Inr (o1\<lparr>st_proc_ints_buffer := buf\<rparr>))) ps) (\<lambda>ps1. on_all (\<lambda>s. read_part_file (contents ! s)) (sync_all ps1))"

lemma load_blocks_split:
  "load_blocks blocks addr contents ps = bindE (load_read contents ps) (\<lambda>ps2.
     bindE (register_all_parts 1 blocks addr
         (\<lambda>s o1. (st_part o1, of_nat (length (contents ! s)), of_nat s * st_max_block_size o1)) ps2) (\<lambda>ps3. Inr (sync_all ps3)))"
  by (auto simp: load_blocks_def load_read_def bindE_def split: sum.split)

definition read_ok :: "byte list list \<Rightarrow> nat \<Rightarrow> img_store \<Rightarrow> img_store \<Rightarrow> bool" where
  "read_ok contents s o1 o2 \<longleftrightarrow> (\<exists>buf. o2 = o1\<lparr>st_proc_ints_buffer := map (\<lambda>c. of_nat (length c)) contents,
       st_max_block_size := of_nat (max_size (map length contents)), st_part := buf\<rparr> \<and>
     length buf = max_size (map length contents) \<and> take (length (contents ! s)) buf = contents ! s)"

lemma load_read_eq:
  assumes len: "length contents = length ps" and small: "\<forall>c\<in>set contents. length c < 2 ^ 31"
    and bufs: "\<forall>s<length ps. length (st_proc_ints_buffer (objs ps ! s)) = length ps"
  shows "\<exists>qs. load_read contents ps = Inr qs \<and> length qs = length ps \<and> (\<forall>s<length ps. read_ok contents s (objs ps ! s) (objs qs ! s)) \<and>
    map actor_frame qs = map actor_frame ps \<and> (group_in_step ps \<longrightarrow> group_in_step qs)"
proof -
  let ?ns = "map length contents" and ?m = "max_size (map length contents)"
  let ?sizes = "map (\<lambda>c. of_nat (length c)) contents :: c_int list"
  let ?f = "\<lambda>s :: nat. \<lambda>o1. bindE (all_to_all ?sizes (st_proc_ints_buffer o1)) (\<lambda>buf. Inr (o1\<lparr>st_proc_ints_buffer := buf\<rparr>))"
  have "\<exists>ps1. on_all ?f ps = Inr ps1 \<and> length ps1 = length ps \<and>
    (\<forall>s<length ps. objs ps1 ! s = (objs ps ! s)\<lparr>st_proc_ints_buffer := ?sizes\<rparr>) \<and>
    map step_view ps1 = map step_view ps \<and> map actor_frame ps1 = map actor_frame ps"
  proof (rule on_all_ex)
    fix s assume "s < length ps"
    then have "all_to_all ?sizes (st_proc_ints_buffer (objs ps ! s)) = Inr ?sizes"
      using bufs len by (intro all_to_all_eq) (simp del: nth_map)
    then show "\<exists>o1. ?f s (objs ps ! s) = Inr o1 \<and> o1 = (objs ps ! s)\<lparr>st_proc_ints_buffer := ?sizes\<rparr>" by simp
  qed
  then obtain ps1 where p1: "on_all ?f ps = Inr ps1" "length ps1 = length ps"
    "\<And>s. s < length ps \<Longrightarrow> objs ps1 ! s = (objs ps ! s)\<lparr>st_proc_ints_buffer := ?sizes\<rparr>"
    "map step_view ps1 = map step_view ps" "map actor_frame ps1 = map actor_frame ps" by blast
  have m: "?m < 2 ^ 31" using small by (intro max_size_less) auto
  have "\<exists>qs. on_all (\<lambda>s. read_part_file (contents ! s)) (sync_all ps1) = Inr qs \<and> length qs = length (sync_all ps1) \<and>
    (\<forall>s<length (sync_all ps1). read_ok contents s (objs ps ! s) (objs qs ! s)) \<and>
    map step_view qs = map step_view (sync_all ps1) \<and> map actor_frame qs = map actor_frame (sync_all ps1)"
  proof (rule on_all_ex)
    fix s assume "s < length (sync_all ps1)"
    then have s: "s < length ps" using p1(2) by simp
    have nth: "objs (sync_all ps1) ! s = (objs ps ! s)\<lparr>st_proc_ints_buffer := ?sizes\<rparr>" using p1(3) [OF s] by (simp only: objs_sync_all)
    have block: "max_block (objs (sync_all ps1) ! s) = of_nat ?m"
      unfolding nth using small by (intro max_block_eq) (auto simp: comp_def)
    have "length (contents ! s) \<le> ?m" using s len by (intro max_size_ge) auto
    from read_part_file_eq [OF block m this] show "\<exists>o1. read_part_file (contents ! s) (objs (sync_all ps1) ! s) = Inr o1 \<and> read_ok contents s (objs ps ! s) o1"
      unfolding nth read_ok_def by auto
  qed
  then show ?thesis using p1 in_step_view unfolding load_read_def by (auto simp: in_step_view)
qed

section \<open>Opening the files\<close>

lemma deliver_to_others:
  assumes "length regs < 2 ^ 31" and "\<forall>i<length regs. length bs \<le> length (regs ! i)" and "k \<le> length regs"
  shows "\<exists>regs'. bsp_deliver (map (\<lambda>i. (of_nat i, 0, bs)) [1..<k]) regs = Inr regs' \<and> length regs' = length regs \<and>
    (\<forall>i<length regs. regs' ! i = (if 0 < i \<and> i < k then poke 0 bs (regs ! i) else regs ! i))"
  using assms(3)
proof (induction k)
  case 0
  then show ?case by (simp add: bsp_deliver_def)
next
  case (Suc k)
  then obtain r where r: "bsp_deliver (map (\<lambda>i. (of_nat i, 0, bs)) [1..<k]) regs = Inr r" "length r = length regs"
    "\<forall>i<length regs. r ! i = (if 0 < i \<and> i < k then poke 0 bs (regs ! i) else regs ! i)" by auto
  show ?case
  proof (cases "k = 0")
    case True
    then show ?thesis by (simp add: bsp_deliver_def)
  next
    case False
    have k: "k < length r" "k < 2 ^ 31" "r ! k = regs ! k" using Suc.prems assms(1) r(2,3) by simp_all
    then have "bsp_deliver1 (of_nat k, 0, bs) r = Inr (r[k := poke 0 bs (regs ! k)])"
      using assms(2) r(2) by (simp add: bsp_deliver1_def mem_write_def)
    moreover have "[1..<Suc k] = [1..<k] @ [k]" using False by simp
    ultimately have "bsp_deliver (map (\<lambda>i. (of_nat i, 0, bs)) [1..<Suc k]) regs = Inr (r[k := poke 0 bs (regs ! k)])"
      using r(1) by (simp add: bsp_deliver_def foldE_append)
    then show ?thesis using r(2,3) k False by (auto simp: nth_list_update less_Suc_eq)
  qed
qed

text \<open>Every process has the path of the head, and then its own.\<close>

definition with_path :: "byte list \<Rightarrow> img_store \<Rightarrow> img_store \<Rightarrow> bool" where
  "with_path path o1 o2 \<longleftrightarrow> (\<exists>dst. o2 = o1\<lparr>st_dst := dst\<rparr> \<and> holds_path path dst)"

lemma with_pathD: "with_path path o1 o2 \<Longrightarrow> holds_path path (st_dst o2)"
  by (auto simp: with_path_def)

lemma holds_path_poke:
  assumes "length dst = PATH_MAX" and "length base < PATH_MAX"
  shows "holds_path base (poke 0 (base @ [0]) dst)"
  using write_string [of 0 base dst base] assms by (auto simp: mem_write_def split: if_splits)

lemma send_path_eq:
  assumes "ps \<noteq> []" and p: "length ps < 2 ^ 31" and dst: "\<forall>s<length ps. length (st_dst (objs ps ! s)) = PATH_MAX"
    and head: "holds_path base (st_dst (objs ps ! 0))" and base: "0 \<notin> set base" "length base < PATH_MAX"
  shows "\<exists>qs. send_path ps = Inr qs \<and> length qs = length ps \<and> (\<forall>s<length ps. with_path base (objs ps ! s) (objs qs ! s)) \<and>
    map actor_frame qs = map actor_frame ps \<and> (group_in_step ps \<longrightarrow> group_in_step qs)"
proof -
  obtain a rest where ps: "ps = a # rest" using assms(1) by (cases ps) auto
  let ?regs = "map st_dst (objs ps)"
  have nth: "?regs ! s = st_dst (objs ps ! s)" if "s < length ps" for s using that by simp
  have "\<forall>i<length ?regs. length (base @ [0]) \<le> length (?regs ! i)" using dst base(2) nth by (simp del: nth_map)
  with p obtain regs where regs: "bsp_deliver (map (\<lambda>i. (of_nat i, 0, base @ [0])) [1..<length ps]) ?regs = Inr regs" "length regs = length ps"
    "\<forall>i<length ps. regs ! i = (if 0 < i then poke 0 (base @ [0]) (?regs ! i) else ?regs ! i)"
    using deliver_to_others [of ?regs "base @ [0]" "length ps"] by auto
  have "\<exists>qs. on_all (\<lambda>s o1. Inr (o1\<lparr>st_dst := regs ! s\<rparr>)) ps = Inr qs \<and> length qs = length ps \<and>
    (\<forall>s<length ps. with_path base (objs ps ! s) (objs qs ! s)) \<and> map step_view qs = map step_view ps \<and> map actor_frame qs = map actor_frame ps"
  proof (rule on_all_ex)
    fix s assume s: "s < length ps"
    have "holds_path base (regs ! s)"
      using regs(3) s head dst base(2) nth [OF s] by (cases "s = 0") (simp_all add: holds_path_poke del: nth_map)
    then show "\<exists>o1. Inr ((objs ps ! s)\<lparr>st_dst := regs ! s\<rparr>) = (Inr o1 :: img_store result) \<and> with_path base (objs ps ! s) o1"
      by (auto simp: with_path_def)
  qed
  then obtain qs where q: "on_all (\<lambda>s o1. Inr (o1\<lparr>st_dst := regs ! s\<rparr>)) ps = Inr qs" "length qs = length ps"
    "\<forall>s<length ps. with_path base (objs ps ! s) (objs qs ! s)" "map step_view qs = map step_view ps" "map actor_frame qs = map actor_frame ps"
    by blast
  have "c_string (st_dst (objs ps ! 0)) = Inr base" using head base(1) by (rule holds_path_string)
  then have "send_path ps = Inr (sync_all qs)" using regs(1) q(1) by (simp add: send_path_def ps)
  then show ?thesis using q by (auto simp: in_step_view)
qed

lemma print_paths_eq:
  assumes ok: "path_ok base" and p: "length ps < 2 ^ 31" and pre: "\<forall>s<length ps. holds_path base (st_dst (objs ps ! s))"
  shows "\<exists>qs. on_all print_part_path ps = Inr qs \<and> length qs = length ps \<and>
    (\<forall>s<length ps. with_path (base @ 95 # decimal s) (objs ps ! s) (objs qs ! s)) \<and>
    map step_view qs = map step_view ps \<and> map actor_frame qs = map actor_frame ps"
proof (rule on_all_ex)
  fix s assume s: "s < length ps"
  then have "s < 2 ^ 31" using p by simp
  from print_part_path_eq [OF ok pre [rule_format, OF s] this]
  show "\<exists>o1. print_part_path s (objs ps ! s) = Inr o1 \<and> with_path (base @ 95 # decimal s) (objs ps ! s) o1"
    by (auto simp: with_path_def)
qed

lemma open_part_eq:
  assumes "with_path (base @ 95 # decimal s) o1 o2" and "0 \<notin> set base"
  shows "open_part fs o2 = Inr (fs (part_file base s))"
proof -
  have "c_string (st_dst o2) = Inr (base @ 95 # decimal s)"
    using assms by (auto simp: with_path_def intro: holds_path_string)
  then show ?thesis by (simp add: open_part_def part_file_norm)
qed

text \<open>The files that are opened.\<close>

definition part_files :: "files \<Rightarrow> byte list \<Rightarrow> nat \<Rightarrow> byte list option list" where
  "part_files fs base p = map (\<lambda>s. fs (part_file base s)) [0..<p]"

definition same_but_paths :: "img_store \<Rightarrow> img_store \<Rightarrow> bool" where
  "same_but_paths o1 o2 \<longleftrightarrow> (\<exists>dst lp. o2 = o1\<lparr>st_dst := dst, st_logpath := lp\<rparr> \<and> length dst = PATH_MAX \<and> length lp = length (st_logpath o1))"

lemma paths_differ:
  assumes "with_path path1 o1 o2" and "with_path path2 o2 o3"
  shows "same_but_paths o1 o3"
proof -
  obtain dst where "o3 = o1\<lparr>st_dst := dst\<rparr>" "holds_path path2 dst" using assms by (auto simp: with_path_def)
  then show ?thesis
    unfolding same_but_paths_def by (intro exI [of _ dst] exI [of _ "st_logpath o1"]) (simp add: holds_path_def)
qed

text \<open>Everything the two loading functions do before they look at the files.\<close>

lemma open_files_eq:
  assumes "ps \<noteq> []" and p: "length ps < 2 ^ 31" and dst: "\<forall>s<length ps. length (st_dst (objs ps ! s)) = PATH_MAX"
    and head: "holds_path base (st_dst (objs ps ! 0))" and ok: "path_ok base"
  shows "\<exists>qs rs. send_path ps = Inr qs \<and> on_all print_part_path qs = Inr rs \<and> mapE (open_part fs) (objs rs) = Inr (part_files fs base (length ps)) \<and>
    length rs = length ps \<and> (\<forall>s<length ps. same_but_paths (objs ps ! s) (objs rs ! s)) \<and>
    map actor_frame rs = map actor_frame ps \<and> (group_in_step ps \<longrightarrow> group_in_step rs)"
proof -
  have base: "0 \<notin> set base" "length base < PATH_MAX" using ok by (simp_all add: path_ok_def)
  obtain qs where q: "send_path ps = Inr qs" "length qs = length ps" "\<And>s. s < length ps \<Longrightarrow> with_path base (objs ps ! s) (objs qs ! s)"
    "map actor_frame qs = map actor_frame ps" "group_in_step ps \<longrightarrow> group_in_step qs"
    using send_path_eq [OF assms(1) p dst head base] by blast
  have "\<forall>s<length qs. holds_path base (st_dst (objs qs ! s))" using q(2) with_pathD [OF q(3)] by (simp del: nth_map)
  from print_paths_eq [OF ok _ this] q(2) p
  obtain rs where r: "on_all print_part_path qs = Inr rs" "length rs = length ps"
    "\<And>s. s < length ps \<Longrightarrow> with_path (base @ 95 # decimal s) (objs qs ! s) (objs rs ! s)"
    "map step_view rs = map step_view qs" "map actor_frame rs = map actor_frame qs" by auto
  have "objs rs = map (\<lambda>s. objs rs ! s) [0..<length ps]" using r(2) by (intro nth_equalityI) simp_all
  then have "mapE (open_part fs) (objs rs) = mapE (open_part fs \<circ> (\<lambda>s. objs rs ! s)) [0..<length ps]"
    by (simp only: mapE_map [symmetric])
  also have "\<dots> = Inr (part_files fs base (length ps))"
    unfolding part_files_def using open_part_eq [OF r(3) base(1)] by (intro mapE_eq_map) (simp only: comp_def set_upt atLeastLessThan_iff)
  finally have "mapE (open_part fs) (objs rs) = Inr (part_files fs base (length ps))" .
  moreover have "same_but_paths (objs ps ! s) (objs rs ! s)" if s: "s < length ps" for s
    using q(3) [OF s] r(3) [OF s] by (rule paths_differ)
  ultimately show ?thesis using q r in_step_view by (auto simp: in_step_view)
qed

section \<open>Loading\<close>

lemma st_inv_logged: "logged o1 o2 \<Longrightarrow> st_inv p o1 \<Longrightarrow> st_inv p o2"
  by (auto simp: logged_def st_inv_def log_ok_def)

lemma st_inv_paths: "same_but_paths o1 o2 \<Longrightarrow> st_inv p o1 \<Longrightarrow> st_inv p o2"
  by (auto simp: same_but_paths_def st_inv_def log_ok_def)

lemma open_logs:
  assumes grp: "st_group ps" and "length name \<le> 16"
  shows "\<exists>qs. on_all (open_log name) ps = Inr qs \<and> length qs = length ps \<and> (\<forall>s<length ps. logged (objs ps ! s) (objs qs ! s)) \<and>
    map actor_frame qs = map actor_frame ps \<and> st_group qs"
proof -
  have "\<exists>qs. on_all (open_log name) ps = Inr qs \<and> length qs = length ps \<and> (\<forall>s<length ps. logged (objs ps ! s) (objs qs ! s)) \<and>
      map step_view qs = map step_view ps \<and> map actor_frame qs = map actor_frame ps"
  proof (rule on_all_ex)
    fix s assume "s < length ps"
    then show "\<exists>o2. open_log name s (objs ps ! s) = Inr o2 \<and> logged (objs ps ! s) o2"
      using grp assms(2) by (intro open_log_eq) (simp_all add: st_group_def st_inv_def)
  qed
  then obtain qs where q: "on_all (open_log name) ps = Inr qs" "length qs = length ps" "\<And>s. s < length ps \<Longrightarrow> logged (objs ps ! s) (objs qs ! s)"
    "map step_view qs = map step_view ps" "map actor_frame qs = map actor_frame ps" by blast
  have "st_inv (length ps) (objs qs ! s)" if "s < length ps" for s
    using st_inv_logged [OF q(3) [OF that]] grp that by (simp add: st_group_def)
  then have "st_group qs" using grp q(2) in_step_view [OF q(4)] by (simp add: st_group_def del: nth_map)
  then show ?thesis using q by blast
qed

lemma st_group_upd_head:
  assumes "st_group ps" and "length dst = PATH_MAX"
  shows "st_group (upd_head (\<lambda>o1. o1\<lparr>st_dst := dst\<rparr>) ps)"
proof -
  have len: "length (upd_head (\<lambda>o1. o1\<lparr>st_dst := dst\<rparr>) ps) = length ps" by (cases ps) simp_all
  have "st_inv (length ps) (objs (upd_head (\<lambda>o1. o1\<lparr>st_dst := dst\<rparr>) ps) ! s)" if "s < length ps" for s
    unfolding nth_upd_head using assms that by (auto simp: st_group_def st_inv_def log_ok_def simp del: nth_map)
  then show ?thesis using assms(1) len by (simp add: st_group_def del: nth_map objs_upd_head)
qed

lemma takeWhile_path: "0 \<notin> set base \<Longrightarrow> takeWhile (\<lambda>c. c \<noteq> 0) base = base"
  by (induction base) auto

text \<open>What both loading functions do first: the path of the head, and the files of all processes.\<close>

lemma set_path_group:
  assumes grp: "st_group ps" and ok: "path_ok base"
  shows "\<exists>qs. set_path (takeWhile (\<lambda>c. c \<noteq> 0) base @ [0]) ps = Inr qs \<and> st_group qs \<and> length qs = length ps \<and>
    holds_path base (st_dst (objs qs ! 0)) \<and> map actor_frame qs = map actor_frame ps \<and>
    (\<forall>s<length ps. \<exists>dst. objs qs ! s = (objs ps ! s)\<lparr>st_dst := dst\<rparr>)"
proof -
  have p: "ps \<noteq> []" and dst0: "length (st_dst (objs ps ! 0)) = PATH_MAX"
    using grp by (auto simp: st_group_def st_inv_def simp del: nth_map)
  have base: "0 \<notin> set base" "length base < PATH_MAX" using ok by (simp_all add: path_ok_def)
  from set_path_eq [OF p dst0 base(2)]
  obtain dst where d: "set_path (base @ [0]) ps = Inr (upd_head (\<lambda>o1. o1\<lparr>st_dst := dst\<rparr>) ps)" "holds_path base dst" by blast
  let ?qs = "upd_head (\<lambda>o1. o1\<lparr>st_dst := dst\<rparr>) ps"
  have "set_path (takeWhile (\<lambda>c. c \<noteq> 0) base @ [0]) ps = Inr ?qs" unfolding takeWhile_path [OF base(1)] by (rule d(1))
  moreover have "st_group ?qs" using d(2) by (intro st_group_upd_head [OF grp]) (simp add: holds_path_def)
  moreover have "length ?qs = length ps" by (cases ps) simp_all
  moreover have "holds_path base (st_dst (objs ?qs ! 0))" unfolding nth_upd_head using d(2) p by simp
  moreover have "\<exists>dst. objs ?qs ! s = (objs ps ! s)\<lparr>st_dst := dst\<rparr>" if "s < length ps" for s
    unfolding nth_upd_head using p by (intro exI [of _ "if s = 0 then dst else st_dst (objs ps ! s)"]) (simp del: nth_map)
  ultimately show ?thesis using upd_head_frame by blast
qed

lemma open_files_group:
  assumes grp: "st_group ps" and head: "holds_path base (st_dst (objs ps ! 0))" and ok: "path_ok base"
  shows "\<exists>qs rs. send_path ps = Inr qs \<and> on_all print_part_path qs = Inr rs \<and> mapE (open_part fs) (objs rs) = Inr (part_files fs base (length ps)) \<and>
    st_group rs \<and> length rs = length ps \<and> map actor_frame rs = map actor_frame ps \<and> (\<forall>s<length ps. same_but_paths (objs ps ! s) (objs rs ! s))"
proof -
  have n: "ps \<noteq> []" "length ps < 2 ^ 31" "\<forall>s<length ps. length (st_dst (objs ps ! s)) = PATH_MAX"
    using grp by (auto simp: st_group_def st_inv_def simp del: nth_map)
  from open_files_eq [OF n head ok, of fs]
  obtain qs rs where r: "send_path ps = Inr qs" "on_all print_part_path qs = Inr rs" "mapE (open_part fs) (objs rs) = Inr (part_files fs base (length ps))"
    "length rs = length ps" "\<And>s. s < length ps \<Longrightarrow> same_but_paths (objs ps ! s) (objs rs ! s)"
    "map actor_frame rs = map actor_frame ps" "group_in_step ps \<longrightarrow> group_in_step rs" by blast
  have "st_inv (length ps) (objs rs ! s)" if "s < length ps" for s
    using st_inv_paths [OF r(5) [OF that]] grp that by (simp add: st_group_def)
  then have "st_group rs" using grp r(4,7) by (simp add: st_group_def del: nth_map)
  then show ?thesis using r by blast
qed

lemma load_prefix:
  assumes grp: "st_group ps" and ok: "path_ok base" and name: "length name \<le> 16"
  shows "\<exists>ps1 ps2 qs rs. set_path (takeWhile (\<lambda>c. c \<noteq> 0) base @ [0]) ps = Inr ps1 \<and> on_all (open_log name) ps1 = Inr ps2 \<and> send_path ps2 = Inr qs \<and>
    on_all print_part_path qs = Inr rs \<and> mapE (open_part fs) (objs rs) = Inr (part_files fs base (length ps)) \<and>
    length rs = length ps \<and> map actor_frame rs = map actor_frame ps \<and> st_group rs \<and>
    (\<forall>s<length ps. \<exists>dst lp. objs rs ! s = (objs ps ! s)\<lparr>st_dst := dst, st_logpath := lp\<rparr>)"
proof -
  obtain ps1 where p1: "set_path (takeWhile (\<lambda>c. c \<noteq> 0) base @ [0]) ps = Inr ps1" "st_group ps1" "length ps1 = length ps"
    "holds_path base (st_dst (objs ps1 ! 0))" "map actor_frame ps1 = map actor_frame ps"
    "\<And>s. s < length ps \<Longrightarrow> \<exists>dst. objs ps1 ! s = (objs ps ! s)\<lparr>st_dst := dst\<rparr>"
    using set_path_group [OF grp ok] by blast
  from open_logs [OF p1(2) name]
  obtain ps2 where p2: "on_all (open_log name) ps1 = Inr ps2" "length ps2 = length ps" "\<And>s. s < length ps \<Longrightarrow> logged (objs ps1 ! s) (objs ps2 ! s)"
    "map actor_frame ps2 = map actor_frame ps" "st_group ps2"
    unfolding p1(3,5) by auto
  have "0 < length ps" using grp by (simp add: st_group_def)
  then have "holds_path base (st_dst (objs ps2 ! 0))" using p1(4) loggedD(1) [OF p2(3)] by (simp del: nth_map)
  from open_files_group [OF p2(5) this ok, of fs, unfolded p2(2,4)]
  obtain qs rs where r: "send_path ps2 = Inr qs" "on_all print_part_path qs = Inr rs" "mapE (open_part fs) (objs rs) = Inr (part_files fs base (length ps))"
    "st_group rs" "length rs = length ps" "map actor_frame rs = map actor_frame ps" "\<And>s. s < length ps \<Longrightarrow> same_but_paths (objs ps2 ! s) (objs rs ! s)"
    by blast
  have "\<exists>dst lp. objs rs ! s = (objs ps ! s)\<lparr>st_dst := dst, st_logpath := lp\<rparr>" if s: "s < length ps" for s
    using p1(6) [OF s] p2(3) [OF s] r(7) [OF s] unfolding logged_def same_but_paths_def
    by (elim exE conjE) (simp del: nth_map, blast)
  then show ?thesis using p1(1) p2(1) r(1-6) by blast
qed

lemma loadImage_prefix:
  assumes grp: "st_group ps" and ok: "path_ok base"
  shows "\<exists>rs. loadImage blocks addr fs base ps =
      bindE (if list_all (\<lambda>c. c = None) (part_files fs base (length ps)) then Inr rs
             else if list_all (\<lambda>c. c \<noteq> None) (part_files fs base (length ps))
                  then load_blocks blocks addr (map the (part_files fs base (length ps))) rs
             else Inl Deadlock) gather_result \<and>
    length rs = length ps \<and> map actor_frame rs = map actor_frame ps \<and> st_group rs \<and>
    (\<forall>s<length ps. \<exists>dst lp. objs rs ! s = (objs ps ! s)\<lparr>st_dst := dst, st_logpath := lp\<rparr>)"
proof -
  have "length (chars ''_bsp_load_img_p'') \<le> 16" by simp
  from load_prefix [OF assms this, of fs] show ?thesis
    by (elim exE conjE) (intro exI conjI, simp add: loadImage_def bsp_load_img_def, assumption+)
qed

text \<open>All files are there: up to the registration of the blocks.\<close>

definition found_blocks :: "files \<Rightarrow> byte list \<Rightarrow> byte list list \<Rightarrow> bool" where
  "found_blocks fs base cs \<longleftrightarrow> (\<forall>s<length cs. fs (part_file base s) = Some (cs ! s)) \<and> (\<forall>c\<in>set cs. length c < 2 ^ 31 - 28)"

abbreviation load_what :: "byte list list \<Rightarrow> nat \<Rightarrow> img_store \<Rightarrow> byte list \<times> size_t \<times> size_t" where
  "load_what cs s o1 \<equiv> (st_part o1, of_nat (length (cs ! s)), of_nat s * st_max_block_size o1)"

lemma loadImage_found:
  assumes grp: "st_group ps" and ok: "path_ok base" and found: "found_blocks fs base cs" "length cs = length ps"
  shows "\<exists>rs ps2. loadImage blocks addr fs base ps = bindE (register_all_parts 1 blocks addr (load_what cs) ps2) (\<lambda>ps3. gather_result (sync_all ps3)) \<and>
    map actor_frame ps2 = map actor_frame ps \<and> group_in_step ps2 \<and> st_group rs \<and> length rs = length ps \<and>
    (\<forall>s<length ps. \<exists>dst lp. objs rs ! s = (objs ps ! s)\<lparr>st_dst := dst, st_logpath := lp\<rparr>) \<and>
    (\<forall>s<length ps. read_ok cs s (objs rs ! s) (objs ps2 ! s))"
proof -
  have files: "part_files fs base (length ps) = map Some cs"
    using found by (intro nth_equalityI) (simp_all add: part_files_def found_blocks_def)
  have some: "\<not> list_all (\<lambda>c. c = None) (map Some cs)" "list_all (\<lambda>c. c \<noteq> None) (map Some cs)" "map the (map Some cs) = cs"
    using grp found(2) by (auto simp: st_group_def list_all_iff comp_def)
  obtain rs where r: "loadImage blocks addr fs base ps = bindE (load_blocks blocks addr cs rs) gather_result"
    "length rs = length ps" "map actor_frame rs = map actor_frame ps" "st_group rs"
    "\<forall>s<length ps. \<exists>dst lp. objs rs ! s = (objs ps ! s)\<lparr>st_dst := dst, st_logpath := lp\<rparr>"
    using loadImage_prefix [OF grp ok, of blocks addr fs] some unfolding files by (auto simp del: map_map nth_map)
  have "\<forall>c\<in>set cs. length c < 2 ^ 31" "\<forall>s<length rs. length (st_proc_ints_buffer (objs rs ! s)) = length rs" "group_in_step rs"
    using found(1) r(4) by (auto simp: found_blocks_def st_group_def st_inv_def simp del: nth_map)
  with found(2) r(2) obtain ps2 where p2: "load_read cs rs = Inr ps2" "\<forall>s<length ps. read_ok cs s (objs rs ! s) (objs ps2 ! s)"
    "map actor_frame ps2 = map actor_frame rs" "group_in_step ps2"
    using load_read_eq [of cs rs] by auto
  have "loadImage blocks addr fs base ps = bindE (register_all_parts 1 blocks addr (load_what cs) ps2) (\<lambda>ps3. gather_result (sync_all ps3))"
    unfolding r(1) load_blocks_split p2(1) bindE_Inr by (simp add: bindE_def split: sum.split)
  then show ?thesis using p2(2-4) r(2,4,5) unfolding r(3) by (intro exI [of _ rs] exI [of _ ps2] conjI)
qed

lemma read_okD:
  assumes "read_ok cs s o1 o2"
  shows "st_max_block_size o2 = of_nat (max_size (map length cs)) \<and> length (st_part o2) = max_size (map length cs) \<and>
    take (length (cs ! s)) (st_part o2) = cs ! s"
  using assms by (auto simp: read_ok_def)

section \<open>Where the blocks are put\<close>

lemma max_block_size:
  assumes "0 < p"
  shows "max_size (map (block_size n p) [0..<p]) = block_size n p 0"
proof (rule antisym)
  have "block_size n p 0 \<in> set (map (block_size n p) [0..<p])" using assms by (auto simp: image_iff)
  then show "block_size n p 0 \<le> max_size (map (block_size n p) [0..<p])" by (rule max_size_ge)
  have "max_size (map (block_size n p) [0..<p]) < Suc (block_size n p 0)" by (intro max_size_less) (auto simp: block_size_def)
  then show "max_size (map (block_size n p) [0..<p]) \<le> block_size n p 0" by simp
qed

text \<open>The loaded blocks start at multiples of the largest; when that is where they started before.\<close>

definition gapless :: "nat \<Rightarrow> nat \<Rightarrow> bool" where
  "gapless n p \<longleftrightarrow> n mod p = 0 \<or> n mod p = p - 1"

lemma gapless_begin: "gapless n p \<Longrightarrow> s < p \<Longrightarrow> s * block_size n p 0 = block_begin n p s"
  by (auto simp: gapless_def block_size_def block_begin_def min_def)

lemma loaded_end: "s < p \<Longrightarrow> s * block_size n p 0 + block_size n p s \<le> (p - 1) * block_size n p 0 + block_size n p (p - 1)"
proof -
  assume s: "s < p"
  show ?thesis
  proof (cases "s = p - 1")
    case False
    then have "Suc s * block_size n p 0 \<le> (p - 1) * block_size n p 0" using s by (intro mult_le_mono1) simp
    moreover have "block_size n p s \<le> block_size n p 0" by (simp add: block_size_def)
    ultimately show ?thesis by simp
  qed simp
qed

text \<open>The size of the vector that is loaded.\<close>

definition loaded_size :: "nat \<Rightarrow> nat \<Rightarrow> nat" where
  "loaded_size n p = (if n mod p = 0 then n else n - n mod p + (p - 1))"

lemma loaded_size_eq: "0 < p \<Longrightarrow> (p - 1) * block_size n p 0 + block_size n p (p - 1) = loaded_size n p"
proof -
  assume p: "0 < p"
  have "n - n mod p = p * (n div p)" by (simp add: minus_mod_eq_mult_div)
  moreover have "\<not> p - 1 < n mod p" using p mod_less_divisor [OF p, of n] by linarith
  ultimately show ?thesis using p by (cases p) (auto simp: loaded_size_def block_size_def algebra_simps)
qed

lemma loaded_size_same: "0 < p \<Longrightarrow> loaded_size n p = n \<longleftrightarrow> gapless n p"
proof -
  assume p: "0 < p"
  have "n mod p \<le> n" "n mod p < p" using p by (simp_all add: mod_less_eq_dividend)
  then show ?thesis by (auto simp: loaded_size_def gapless_def)
qed

section \<open>Storing and loading\<close>

lemma stored_found:
  assumes "stored base p v fs fs'" and "length v < 2 ^ 31 - 28"
  shows "found_blocks fs' base (map (block_of v p) [0..<p])" and "map length (map (block_of v p) [0..<p]) = map (block_size (length v) p) [0..<p]"
proof -
  have len: "length (block_of v p s) = block_size (length v) p s" if "s < p" for s
    using block_size_le [OF that, of "length v"] by (simp add: length_peek)
  then show "map length (map (block_of v p) [0..<p]) = map (block_size (length v) p) [0..<p]" by simp
  have "length (block_of v p s) < 2 ^ 31 - 28" if "s < p" for s
    using block_size_le [OF that, of "length v"] len [OF that] assms(2) by linarith
  then show "found_blocks fs' base (map (block_of v p) [0..<p])" using assms(1) by (auto simp: found_blocks_def stored_def)
qed

text \<open>The processes that loaded the blocks of \<open>v\<close> make up \<open>v\<close>, if there are no gaps.\<close>

lemma blocks_make:
  assumes p: "ps \<noteq> []" "vd_small (length ps)" and gap: "gapless (length v) (length ps)" and v: "length v < 2 ^ 31 - 28"
    and data: "\<forall>s<length ps. block_size (length v) (length ps) s \<le> length (data s) \<and> take (block_size (length v) (length ps) s) (data s) = block_of v (length ps) s"
  shows "parts_make ps (block_size (length v) (length ps)) (\<lambda>s. of_nat (s * block_size (length v) (length ps) 0)) data v"
proof -
  let ?p = "length ps" and ?n = "length v"
  let ?parts = "group_parts ps (block_size ?n ?p) (\<lambda>s. of_nat (s * block_size ?n ?p 0))"
  have le: "block_begin ?n ?p s + block_size ?n ?p s \<le> ?n" if "s < ?p" for s using block_size_le [OF that] by simp
  have begin_eq: "s * block_size ?n ?p 0 = block_begin ?n ?p s" if "s < ?p" for s using gapless_begin [OF gap that] .
  have size: "unat (of_nat (block_begin ?n ?p s) :: size_t) = block_begin ?n ?p s" "unat (of_nat (block_size ?n ?p s) :: size_t) = block_size ?n ?p s"
    if "s < ?p" for s
    using le [OF that] v by (simp_all add: unat_size_of_nat)
  have parts: "?parts = map (\<lambda>s. own_part (ps ! s) (block_size ?n ?p s) (of_nat (block_begin ?n ?p s))) [0..<?p]"
    unfolding group_parts_def using begin_eq by (intro map_cong) (simp_all del: of_nat_mult)
  have "describes ?parts v"
    unfolding describes_def
  proof (intro conjI ballI allI impI)
    show "vd_small (length ?parts)" using p(2) by simp
    show "length v < 2 ^ 31" using v by simp
    show "unat (vp_offset part) + unat (vp_size part) \<le> length v" if "part \<in> set ?parts" for part
      using that le size unfolding parts by auto
    fix j assume "j < length v"
    then obtain s where "s < ?p" "block_begin ?n ?p s \<le> j" "j < block_begin ?n ?p s + block_size ?n ?p s"
      using blk.owner_exists [of ?p j ?n] p(1) by auto
    then show "\<exists>part\<in>set ?parts. unat (vp_offset part) \<le> j \<and> j < unat (vp_offset part) + unat (vp_size part)"
      unfolding parts using size by (intro bexI [of _ "own_part (ps ! s) (block_size ?n ?p s) (of_nat (block_begin ?n ?p s))"]) auto
  qed
  moreover have "block_size ?n ?p s \<le> length (data s) \<and> block_size ?n ?p s < 2 ^ 64 \<and>
      peek (unat (of_nat (s * block_size ?n ?p 0) :: size_t)) (block_size ?n ?p s) v = take (block_size ?n ?p s) (data s)" if s: "s < ?p" for s
    using data [rule_format, OF s] le [OF s] v size(1) [OF s] unfolding begin_eq [OF s] by simp
  ultimately show ?thesis using v by (simp add: parts_make_def)
qed

lemma st_inv_read: "read_ok cs s o1 o2 \<Longrightarrow> st_inv p o1 \<Longrightarrow> length cs = p \<Longrightarrow> st_inv p o2"
  by (auto simp: read_ok_def st_inv_def log_ok_def)

lemma load_stored:
  assumes grp: "st_group qs" and ok: "path_ok base" and st: "stored base (length qs) v fs fs'" and v: "length v < 2 ^ 31 - 28"
  shows "\<exists>ps2 data. loadImage blocks addr fs' base qs =
      bindE (register_all_parts 1 blocks addr (load_what (map (block_of v (length qs)) [0..<length qs])) ps2) (\<lambda>ps3. gather_result (sync_all ps3)) \<and>
    map actor_frame ps2 = map actor_frame qs \<and> st_group ps2 \<and>
    (\<forall>s<length qs. load_what (map (block_of v (length qs)) [0..<length qs]) s (ab_obj (ps2 ! s)) =
        (data s, of_nat (block_size (length v) (length qs) s), of_nat (s * block_size (length v) (length qs) 0)) \<and>
      block_size (length v) (length qs) s \<le> length (data s) \<and> take (block_size (length v) (length qs) s) (data s) = block_of v (length qs) s)"
proof -
  let ?p = "length qs" and ?n = "length v" and ?cs = "map (block_of v (length qs)) [0..<length qs]"
  have p: "0 < ?p" using grp by (simp add: st_group_def)
  note found = stored_found [OF st v]
  have max: "max_size (map length ?cs) = block_size ?n ?p 0" unfolding found(2) using p by (rule max_block_size)
  have len: "length ?cs = ?p" by simp
  obtain rs ps2 where ps2: "loadImage blocks addr fs' base qs = bindE (register_all_parts 1 blocks addr (load_what ?cs) ps2) (\<lambda>ps3. gather_result (sync_all ps3))"
    "map actor_frame ps2 = map actor_frame qs" "\<And>s. s < ?p \<Longrightarrow> read_ok ?cs s (objs rs ! s) (objs ps2 ! s)" "group_in_step ps2"
    "st_group rs" "length rs = ?p"
    using loadImage_found [OF grp ok found(1) len, of blocks addr] by blast
  note read = read_okD [OF ps2(3), unfolded max]
  have l2: "length ps2 = ?p" using ps2(2) by (metis length_map)
  have "st_inv ?p (objs ps2 ! s)" if "s < ?p" for s
    using st_inv_read [OF ps2(3) [OF that]] ps2(5,6) that by (simp add: st_group_def del: nth_map)
  then have group: "st_group ps2" using ps2(4-6) l2 by (simp add: st_group_def del: nth_map)
  have cs: "?cs ! s = block_of v ?p s" "length (block_of v ?p s) = block_size ?n ?p s" if "s < ?p" for s
    using that block_size_le [OF that, of ?n] by (simp_all add: length_peek)
  let ?data = "\<lambda>s. st_part (ab_obj (ps2 ! s))"
  have "load_what ?cs s (ab_obj (ps2 ! s)) = (?data s, of_nat (block_size ?n ?p s), of_nat (s * block_size ?n ?p 0)) \<and>
      block_size ?n ?p s \<le> length (?data s) \<and> take (block_size ?n ?p s) (?data s) = block_of v ?p s" if s: "s < ?p" for s
  proof -
    have "objs ps2 ! s = ab_obj (ps2 ! s)" using s l2 by simp
    moreover have "block_size ?n ?p s \<le> block_size ?n ?p 0" by (simp add: block_size_def)
    ultimately show ?thesis using read [OF s] cs [OF s] by simp
  qed
  then show ?thesis using ps2(1,2) group by (intro exI [of _ ps2] exI [of _ ?data]) simp
qed

lemma result_group_small: "result_group servers ps \<Longrightarrow> ps \<noteq> [] \<and> vd_small (length ps)"
  by (simp add: result_group_def vd_small_def)

text \<open>The size the description of the loaded blocks claims.\<close>

lemma loaded_vec_end:
  assumes ne: "ps \<noteq> []" and len: "n < 2 ^ 31" "length ps < 2 ^ 31"
  shows "vec_end (group_parts ps (block_size n (length ps)) (\<lambda>s. of_nat (s * block_size n (length ps) 0))) = of_nat (loaded_size n (length ps))"
proof -
  let ?p = "length ps" and ?m = "block_size n (length ps) 0"
  let ?parts = "group_parts ps (block_size n ?p) (\<lambda>s. of_nat (s * ?m))"
  have p: "0 < ?p" using ne by simp
  have "n - n mod ?p \<le> n" by simp
  then have "loaded_size n ?p \<le> n + ?p" unfolding loaded_size_def by (simp split: if_split, linarith)
  then have big: "loaded_size n ?p < 2 ^ 32" using len by simp
  have "part_end (own_part (ps ! s) (block_size n ?p s) (of_nat (s * ?m))) = of_nat (s * ?m + block_size n ?p s)" for s
    by (simp add: part_end_def)
  then have ends: "part_end ` set ?parts = (\<lambda>s. of_nat (s * ?m + block_size n ?p s)) ` {..<?p}"
    by (simp add: group_parts_def image_image atLeast0LessThan)
  have le: "s * ?m + block_size n ?p s \<le> loaded_size n ?p" if "s < ?p" for s
    using loaded_end [OF that, of n] loaded_size_eq [OF p, of n] by simp
  show ?thesis
    unfolding vec_end_def ends
  proof (rule Max_eqI)
    show "x \<le> of_nat (loaded_size n ?p)" if "x \<in> insert 0 ((\<lambda>s. of_nat (s * ?m + block_size n ?p s) :: size_t) ` {..<?p})" for x
    proof -
      consider "x = 0" | s where "s < ?p" "x = of_nat (s * ?m + block_size n ?p s)" using \<open>x \<in> _\<close> by blast
      then show ?thesis
      proof cases
        case 2
        then show ?thesis using le [OF 2(1)] big by (simp add: of_nat_size_le del: of_nat_add of_nat_mult)
      qed simp
    qed
    have "of_nat (loaded_size n ?p) = (of_nat ((?p - 1) * ?m + block_size n ?p (?p - 1)) :: size_t)"
      by (simp only: loaded_size_eq [OF p])
    then have "of_nat (loaded_size n ?p) \<in> (\<lambda>s. of_nat (s * ?m + block_size n ?p s) :: size_t) ` {..<?p}"
      by (rule image_eqI) (use p in simp)
    then show "of_nat (loaded_size n ?p) \<in> insert 0 ((\<lambda>s. of_nat (s * ?m + block_size n ?p s) :: size_t) ` {..<?p})"
      by (rule insertI2)
  qed simp
qed

lemma load_stored_returns:
  assumes st_grp: "st_group qs" and ok: "path_ok base" and st: "stored base (length qs) v fs fs'" and v: "length v < 2 ^ 31 - 28"
    and res: "result_group servers qs"
  shows "\<exists>dv qs'. loadImage blocks addr fs' base qs = Inr (dv, qs') \<and> getVecSize dv = Inr (of_nat (loaded_size (length v) (length qs)))"
proof -
  let ?p = "length qs" and ?n = "block_size (length v) (length qs)" and ?off = "\<lambda>s. of_nat (s * block_size (length v) (length qs) 0) :: size_t"
  let ?what = "load_what (map (block_of v ?p) [0..<?p])"
  obtain ps2 data where l: "loadImage blocks addr fs' base qs = bindE (register_all_parts 1 blocks addr ?what ps2) (\<lambda>ps3. gather_result (sync_all ps3))"
    "map actor_frame ps2 = map actor_frame qs" "\<And>s. s < ?p \<Longrightarrow> ?what s (ab_obj (ps2 ! s)) = (data s, of_nat (?n s), ?off s) \<and>
      ?n s \<le> length (data s) \<and> take (?n s) (data s) = block_of v ?p s"
    using load_stored [OF assms(1-4), of blocks addr] by blast
  have l2: "length ps2 = ?p" using l(2) by (metis length_map)
  have grp: "result_group servers ps2" using result_group_frame [OF l(2)] res by simp
  have ready: "result_ready (ps2 ! s)" "ab_nprocs (ps2 ! s) = of_nat ?p" if "s < ?p" for s
    using grp that l2 by (simp_all add: result_group_nth)
  have small: "28 + ?n s < 2 ^ 31" "s * block_size (length v) ?p 0 < 2 ^ 32" if s: "s < ?p" for s
  proof -
    have p: "?p < 2 ^ 31" "0 < ?p" using st_grp by (simp_all add: st_group_def)
    show "28 + ?n s < 2 ^ 31" using block_size_le [OF s, of "length v"] v by simp
    have "length v - length v mod ?p \<le> length v" by simp
    then have "loaded_size (length v) ?p \<le> length v + ?p" unfolding loaded_size_def by (simp split: if_split, linarith)
    then show "s * block_size (length v) ?p 0 < 2 ^ 32"
      using loaded_end [OF s, of "length v"] p v unfolding loaded_size_eq [OF p(2)] by simp
  qed
  obtain rs where r: "register_all_parts 1 blocks addr ?what ps2 = Inr rs" "length rs = length ps2"
    "\<forall>s<length ps2. registered_part (?n s) (?off s) (take (?n s) (data s)) (ps2 ! s) (rs ! s)"
    using register_all_parts_sent [of ps2 ?what data ?n ?off blocks addr] ready(1) l(3) small(1) unfolding l2 by blast
  have "?off s < 2 ^ 32" if "s < ?p" for s
    using small(2) [OF that] by (simp add: word_less_nat_alt unat_of_nat take_bit_nat_eq_self_iff del: of_nat_mult)
  then have "\<forall>s<length ps2. ?off s < 2 ^ 32" unfolding l2 by blast
  then have "gather_result (sync_all rs) = Inr (vd_bytes (group_parts ps2 ?n ?off), sync_all (sync_all rs))"
    using r(2,3) ready(2) result_group_small [OF grp] l2 by (intro group_parts_gathered) (auto simp: registered_part_def)
  moreover have "getVecSize (vd_bytes (group_parts ps2 ?n ?off)) = Inr (of_nat (loaded_size (length v) ?p))"
    using loaded_vec_end [of ps2 "length v"] result_group_small [OF grp] st_grp v l2 by (simp add: getVecSize_eq st_group_def)
  ultimately show ?thesis using l(1) r(1) by simp
qed

text \<open>The actor loads one image after another.\<close>

lemma load_step:
  assumes grp: "st_group qs" and ok: "path_ok base" and st: "stored base (length qs) v fs fs'" and gap: "gapless (length v) (length qs)"
    and v: "length v < 2 ^ 31 - 28" and res: "results_group (Suc m) servers qs"
  shows "\<exists>dv qs' servers'. loadImage blocks addr fs' base qs = Inr (dv, qs') \<and> returned m envs servers qs v dv qs' servers' \<and>
    st_group qs' \<and> length qs' = length qs"
proof -
  let ?p = "length qs" and ?n = "block_size (length v) (length qs)" and ?off = "\<lambda>s. of_nat (s * block_size (length v) (length qs) 0) :: size_t"
  let ?what = "load_what (map (block_of v ?p) [0..<?p])"
  obtain ps2 data where l: "loadImage blocks addr fs' base qs = bindE (register_all_parts 1 blocks addr ?what ps2) (\<lambda>ps3. gather_result (sync_all ps3))"
    "map actor_frame ps2 = map actor_frame qs" "st_group ps2" "\<forall>s<?p. ?what s (ab_obj (ps2 ! s)) = (data s, of_nat (?n s), ?off s) \<and>
      ?n s \<le> length (data s) \<and> take (?n s) (data s) = block_of v ?p s"
    using load_stored [OF grp ok st v, of blocks addr] by blast
  have l2: "length ps2 = ?p" using l(2) by (metis length_map)
  note view = frame_view [OF l(2)]
  have res2: "results_group (Suc m) servers ps2" using results_group_view(1) [OF view] res by simp
  have make: "parts_make ps2 ?n ?off data v"
    using blocks_make [of ps2 v data] result_group_small [OF results_groupD [OF res2]] gap v l(4) l2 by simp
  have what: "\<forall>s<length ps2. ?what s (ab_obj (ps2 ! s)) = (data s, of_nat (?n s), ?off s)"
    unfolding l2 using l(4) by (intro allI impI) (rule conjunct1, blast)
  have "group_in_step ps2" using l(3) by (simp add: st_group_def)
  from group_result_step [where what = ?what, OF res2 this what make, of blocks addr envs]
  obtain rs dv servers' where r: "register_all_parts 1 blocks addr ?what ps2 = Inr rs" "length rs = length ps2" "objs rs = objs ps2"
    "gather_result (sync_all rs) = Inr (dv, sync_all (sync_all rs))" "returned m envs servers ps2 v dv (sync_all (sync_all rs)) servers'" by blast
  have "st_group (sync_all (sync_all rs))" using l(3) r(2,3,5) by (simp add: st_group_def returned_def)
  then show ?thesis using l(1) r(1,2,4,5) returned_view [OF view] l2 by auto
qed

section \<open>Properties\<close>

text \<open>
  Property C24: an image that one actor stores and another one with as many processes loads is the same,
  when the number of processes divides its size or is one more than the remainder: what any process outside
  the actor reads through the loaded description, once the management threads have stored the blocks,
  is what the client had distributed.
\<close>

theorem store_load_image:
  assumes "st_group ps" and "describes parts v" and "\<forall>s<length ps. reads_vector (reads s) (vd_bytes parts) v" and "path_ok base"
    and "st_group qs" and "length qs = length ps" and "result_group servers qs" and "self \<notin> ab_node ` set qs"
    and "gapless (length v) (length ps)" and "length v < 2 ^ 31 - 28"
  shows "\<exists>ps' fs' dv qs' servers'. storeImage reads (vd_bytes parts) base ps fs = Inr (1, ps', fs') \<and>
    loadImage blocks addr fs' base qs = Inr (dv, qs') \<and> deliver_own envs (new_messages qs qs') servers = Inr servers' \<and>
    (\<forall>from m out. from + m \<le> length v \<longrightarrow> length out = m \<longrightarrow> (\<exists>sent.
      absp_dv_get_part blocks self at stores (Vector_Access.served envs' servers' self) dv (of_nat from) (of_nat m) out =
        Inr (sent, peek from m v)))"
proof -
  obtain ps' fs' where s: "storeImage reads (vd_bytes parts) base ps fs = Inr (1, ps', fs')" "stored base (length qs) v fs fs'"
    using store_group [OF assms(1) describes_end(2,1) [OF assms(2)] assms(3,4), of fs] assms(6) by auto
  let ?p = "length qs" and ?n = "block_size (length v) (length qs)" and ?off = "\<lambda>s. of_nat (s * block_size (length v) (length qs) 0) :: size_t"
  let ?what = "load_what (map (block_of v ?p) [0..<?p])"
  obtain ps2 data where l: "loadImage blocks addr fs' base qs = bindE (register_all_parts 1 blocks addr ?what ps2) (\<lambda>ps3. gather_result (sync_all ps3))"
    "map actor_frame ps2 = map actor_frame qs" "\<forall>s<?p. ?what s (ab_obj (ps2 ! s)) = (data s, of_nat (?n s), ?off s) \<and>
      ?n s \<le> length (data s) \<and> take (?n s) (data s) = block_of v ?p s"
    using load_stored [OF assms(5,4) s(2) assms(10), of blocks addr] by blast
  have l2: "length ps2 = ?p" using l(2) by (metis length_map)
  have grp: "result_group servers ps2" "self \<notin> ab_node ` set ps2" using result_group_frame [OF l(2)] assms(7,8) by simp_all
  have make: "parts_make ps2 ?n ?off data v"
    using blocks_make [of ps2 v data] result_group_small [OF grp(1)] assms(6,9,10) l(3) l2 by simp
  have what: "\<forall>s<length ps2. ?what s (ab_obj (ps2 ! s)) = (data s, of_nat (?n s), ?off s)"
    unfolding l2 using l(3) by (intro allI impI) (rule conjunct1, blast)
  obtain rs servers' where r: "register_all_parts 1 blocks addr ?what ps2 = Inr rs" "length rs = length ps2"
    "gather_result (sync_all rs) = Inr (vd_bytes (group_parts ps2 ?n ?off), sync_all (sync_all rs))"
    "deliver_own envs (new_messages ps2 rs) servers = Inr servers'"
    "vector_held servers' self stores (vd_bytes (group_parts ps2 ?n ?off)) v"
    using group_result_held [where ps = ps2 and what = ?what, OF grp(1) what make grp(2), of blocks addr envs stores] by blast
  have "new_messages qs (sync_all (sync_all rs)) = new_messages ps2 rs"
    using new_messages_frame [OF refl, of "sync_all rs" qs] new_messages_frame [OF l(2) [symmetric], of rs] r(2) l2 by simp
  then show ?thesis using s(1) l(1) r absp.read_range [OF r(5)] by fastforce
qed

text \<open>Two new actors of two processes; the image 1, 2, 3, 4 is one part of another process.\<close>

lemma ImgStore_ok:
  assumes "p < 2 ^ 31"
  shows "\<exists>o1. ImgStore mem (of_nat p) = Inr o1 \<and> st_inv p o1 \<and> st_max_block_size o1 = 0 \<and> \<not> st_res_registered o1 \<and>
    st_proc_ints_buffer o1 = replicate p 0"
proof -
  have "vector_distribution_base 1 = Inr (vd_bytes [zero_part])"
    using vector_distribution_base_eq [of 1] by (simp add: vd_small_def)
  then show ?thesis using assms by (simp add: ImgStore_def st_inv_def log_ok_def)
qed

definition empty_store :: img_store where
  "empty_store = \<lparr>st_logpath = [], st_log_base_len = 0, st_dv = [], st_part = [], st_res = [], st_res_registered = False,
     st_dst = [], st_max_block_size = 0, st_proc_ints_buffer = []\<rparr>"

definition new_stores :: "nat \<Rightarrow> img_store actor_base list" where
  "new_stores k = new_group (map (\<lambda>s. projr (ImgStore empty_store (of_nat k))) [0..<k])"

lemma new_stores_ok:
  assumes "0 < k" and "12 + 32 * k < 2 ^ 31"
  shows "st_group (new_stores k)" "length (new_stores k) = k" "result_group ActorServer (new_stores k)"
    "ab_node ` set (new_stores k) = of_nat ` {..<k}"
    "s < k \<Longrightarrow> objs (new_stores k) ! s = projr (ImgStore empty_store (of_nat k))"
proof -
  let ?os = "map (\<lambda>s. projr (ImgStore empty_store (of_nat k))) [0..<k]"
  note g = new_group_ok [of ?os, folded new_stores_def]
  show l: "length (new_stores k) = k" using g(3) by simp
  obtain o1 where o1: "ImgStore empty_store (of_nat k) = Inr o1" "st_inv k o1" using ImgStore_ok [of k empty_store] assms(2) by auto
  show nth: "objs (new_stores k) ! s = projr (ImgStore empty_store (of_nat k))" if "s < k" for s unfolding g(1) using that by simp
  then show "st_group (new_stores k)" using g(2) l o1 assms by (simp add: st_group_def del: nth_map)
  have "?os \<noteq> []" "12 + 32 * length ?os < 2 ^ 31" using assms by simp_all
  note r = result_group_new [OF this, folded new_stores_def]
  show "result_group ActorServer (new_stores k)" by (rule r(1))
  show "ab_node ` set (new_stores k) = of_nat ` {..<k}" unfolding r(2) by simp
qed

lemma two_stores_ok:
  "st_group (new_stores 2)" "length (new_stores 2) = 2" "result_group ActorServer (new_stores 2)" "5 \<notin> ab_node ` set (new_stores 2)"
  using new_stores_ok [of 2] by (auto simp: less_2_cases_iff)

definition four_part :: vector_distribution_part where
  "four_part = \<lparr>vp_pid = 9, vp_resid = 0, vp_size = 4, vp_offset = 0\<rparr>"

lemma four_part_describes: "length v = 4 \<Longrightarrow> describes [four_part] v"
  by (auto simp: describes_def vd_small_def four_part_def)

theorem store_load_image_witness:
  "\<exists>ps' fs' dv qs' servers' sent. storeImage (\<lambda>s. direct_reader (\<lambda>dv. [1, 2, 3, 4])) (vd_bytes [four_part]) [47, 97] (new_stores 2) Map.empty = Inr (1, ps', fs') \<and>
    loadImage (\<lambda>_. \<lparr>bl_addr = 1, bl_mem = \<lambda>_. 0\<rparr>) 0 fs' [47, 97] (new_stores 2) = Inr (dv, qs') \<and>
    deliver_own (\<lambda>_. plain_env) (new_messages (new_stores 2) qs') ActorServer = Inr servers' \<and>
    absp_dv_get_part (\<lambda>_. \<lparr>bl_addr = 1, bl_mem = \<lambda>_. 0\<rparr>) 5 100 (\<lambda>_. []) (Vector_Access.served (\<lambda>_. plain_env) servers' 5)
      dv 1 2 [0, 0] = Inr (sent, [2, 3])"
proof -
  let ?v = "[1, 2, 3, 4] :: byte list" and ?reads = "\<lambda>s :: nat. direct_reader (\<lambda>dv. [1, 2, 3, 4])" and ?b = "\<lambda>_ :: nat. \<lparr>bl_addr = 1, bl_mem = \<lambda>_. 0\<rparr>"
  have reads: "\<forall>s<length (new_stores 2). reads_vector (?reads s) (vd_bytes [four_part]) ?v" by (simp add: direct_reader_reads)
  have ok: "path_ok [47, 97]" by (simp add: path_ok_def PATH_MAX_def)
  have desc: "describes [four_part] ?v" by (rule four_part_describes) simp
  have rest: "gapless (length ?v) (length (new_stores 2))" "length ?v < 2 ^ 31 - 28" by (simp_all add: gapless_def two_stores_ok)
  obtain ps' fs' dv qs' servers' where r: "storeImage ?reads (vd_bytes [four_part]) [47, 97] (new_stores 2) Map.empty = Inr (1, ps', fs')"
    "loadImage ?b 0 fs' [47, 97] (new_stores 2) = Inr (dv, qs')" "deliver_own (\<lambda>_. plain_env) (new_messages (new_stores 2) qs') ActorServer = Inr servers'"
    "\<forall>from m out. from + m \<le> length ?v \<longrightarrow> length out = m \<longrightarrow> (\<exists>sent.
      absp_dv_get_part ?b 5 100 (\<lambda>_. []) (Vector_Access.served (\<lambda>_. plain_env) servers' 5) dv (of_nat from) (of_nat m) out =
        Inr (sent, peek from m ?v))"
    using store_load_image [OF two_stores_ok(1) desc reads ok two_stores_ok(1) refl two_stores_ok(3,4) rest,
      of Map.empty ?b 0 "\<lambda>_. plain_env" 100 "\<lambda>_. []" "\<lambda>_. plain_env"] by blast
  have "1 + 2 \<le> length ?v" "length [0, 0 :: byte] = 2" by simp_all
  then obtain sent where "absp_dv_get_part ?b 5 100 (\<lambda>_. []) (Vector_Access.served (\<lambda>_. plain_env) servers' 5) dv (of_nat 1) (of_nat 2) [0, 0] =
      Inr (sent, peek 1 2 ?v)"
    using r(4) by blast
  then show ?thesis using r(1-3)
    by (intro exI [of _ ps'] exI [of _ fs'] exI [of _ dv] exI [of _ qs'] exI [of _ servers'] exI [of _ sent]) (simp add: peek_def)
qed

text \<open>
  Property C34: otherwise the loaded image has gaps: the blocks are put at multiples of the largest block, and
  the description claims a size that is too large, namely as if every process but the last had the largest block.
\<close>

theorem load_leaves_gaps:
  assumes "st_group ps" and "describes parts v" and "\<forall>s<length ps. reads_vector (reads s) (vd_bytes parts) v" and "path_ok base"
    and "st_group qs" and "length qs = length ps" and "result_group servers qs" and "length v < 2 ^ 31 - 28"
  shows "\<exists>ps' fs' dv qs'. storeImage reads (vd_bytes parts) base ps fs = Inr (1, ps', fs') \<and> loadImage blocks addr fs' base qs = Inr (dv, qs') \<and>
    getVecSize dv = Inr (of_nat (loaded_size (length v) (length qs))) \<and>
    (loaded_size (length v) (length qs) = length v \<longleftrightarrow> length v mod length qs = 0 \<or> length v mod length qs = length qs - 1)"
proof -
  obtain ps' fs' where s: "storeImage reads (vd_bytes parts) base ps fs = Inr (1, ps', fs')" "stored base (length qs) v fs fs'"
    using store_group [OF assms(1) describes_end(2,1) [OF assms(2)] assms(3,4), of fs] assms(6) by auto
  have "loaded_size (length v) (length qs) = length v \<longleftrightarrow> length v mod length qs = 0 \<or> length v mod length qs = length qs - 1"
    using assms(5) loaded_size_same [of "length qs" "length v"] by (simp add: st_group_def gapless_def)
  moreover obtain dv qs' where "loadImage blocks addr fs' base qs = Inr (dv, qs')" "getVecSize dv = Inr (of_nat (loaded_size (length v) (length qs)))"
    using load_stored_returns [OF assms(5,4) s(2) assms(8,7), of blocks addr] by auto
  ultimately show ?thesis using s(1) by (intro exI conjI)
qed

theorem load_leaves_gaps_witness:
  "\<exists>ps' fs' dv qs'. storeImage (\<lambda>s. direct_reader (\<lambda>dv. [1, 2, 3, 4])) (vd_bytes [four_part]) [97] (new_stores 3) Map.empty = Inr (1, ps', fs') \<and>
    loadImage (\<lambda>_. \<lparr>bl_addr = 1, bl_mem = \<lambda>_. 0\<rparr>) 0 fs' [97] (new_stores 3) = Inr (dv, qs') \<and> getVecSize dv = Inr 5"
proof -
  let ?v = "[1, 2, 3, 4] :: byte list" and ?reads = "\<lambda>s :: nat. direct_reader (\<lambda>dv. [1, 2, 3, 4])"
  have small: "(0 :: nat) < 3" "12 + 32 * 3 < (2 ^ 31 :: nat)" by simp_all
  note three = new_stores_ok [OF small]
  have reads: "\<forall>s<length (new_stores 3). reads_vector (?reads s) (vd_bytes [four_part]) ?v" by (simp add: direct_reader_reads)
  have ok: "path_ok [97]" by (simp add: path_ok_def PATH_MAX_def)
  have desc: "describes [four_part] ?v" by (rule four_part_describes) simp
  have v: "length ?v < 2 ^ 31 - 28" by simp
  have "loaded_size (length ?v) (length (new_stores 3)) = 5" by (simp add: loaded_size_def three(2))
  then show ?thesis
    using load_leaves_gaps [OF three(1) desc reads ok three(1) refl three(3) v,
      of Map.empty "\<lambda>_. \<lparr>bl_addr = 1, bl_mem = \<lambda>_. 0\<rparr>" 0] by (elim exE conjE) (intro exI conjI; simp)
qed

text \<open>
  Loading an image that is not there is not reported: when no process finds its file, the client
  gets the description of the previous result of the actor (for a new actor, a description of empty parts of
  process 0).
\<close>

theorem load_missing_image:
  assumes "st_group ps" and "path_ok base" and "result_group servers ps"
    and old: "\<forall>s<length ps. ab_cur_vector_distribution (ps ! s) = vd_bytes [old s] \<and> vp_offset (old s) < 2 ^ 32"
    and "\<forall>s<length ps. fs (part_file base s) = None"
  shows "\<exists>qs. loadImage blocks addr fs base ps = Inr (vd_bytes (map old [0..<length ps]), qs)"
proof -
  let ?files = "part_files fs base (length ps)"
  obtain rs where r: "loadImage blocks addr fs base ps = bindE (if list_all (\<lambda>c. c = None) ?files then Inr rs
      else if list_all (\<lambda>c. c \<noteq> None) ?files then load_blocks blocks addr (map the ?files) rs else Inl Deadlock) gather_result"
    "length rs = length ps" "map actor_frame rs = map actor_frame ps"
    using loadImage_prefix [OF assms(1,2), of blocks addr fs] by blast
  have files: "list_all (\<lambda>c. c = None) ?files"
    using assms(5) by (auto simp: part_files_def list_all_iff)
  have "gather_result rs = Inr (vd_bytes (map old [0..<length rs]), sync_all rs)"
  proof (rule single_parts_gathered)
    show "\<forall>s<length rs. ab_cur_vector_distribution (rs ! s) = vd_bytes [old s] \<and> ab_nprocs (rs ! s) = of_nat (length rs)"
      using old assms(3) unfolding r(2) by (simp add: result_group_nth actor_frame_nth [OF r(3)])
    show "rs \<noteq> []" "vd_small (length rs)" using result_group_small [OF assms(3)] r(2) by auto
  qed (use old r(2) in simp)
  then show ?thesis unfolding r(1) r(2) using files by simp
qed

theorem load_missing_image_witness:
  "\<exists>qs. loadImage (\<lambda>_. \<lparr>bl_addr = 1, bl_mem = \<lambda>_. 0\<rparr>) 0 Map.empty [97] (new_stores 2) = Inr (vd_bytes [zero_part, zero_part], qs)"
proof -
  have ok: "path_ok [97]" by (simp add: path_ok_def PATH_MAX_def)
  have "ab_cur_vector_distribution (new_stores 2 ! s) = vd_bytes [zero_part]" if "s < 2" for s
    unfolding new_stores_def using that by (intro new_group_description) simp
  then have old: "\<forall>s<length (new_stores 2). ab_cur_vector_distribution (new_stores 2 ! s) = vd_bytes [zero_part] \<and> vp_offset zero_part < 2 ^ 32"
    unfolding two_stores_ok(2) by (simp add: zero_part_def)
  have "map (\<lambda>s. zero_part) [0..<length (new_stores 2)] = [zero_part, zero_part]" unfolding two_stores_ok(2) by (simp add: upt_conv_Cons)
  then show ?thesis
    using load_missing_image [OF two_stores_ok(1) ok two_stores_ok(3) old, of Map.empty "\<lambda>_. \<lparr>bl_addr = 1, bl_mem = \<lambda>_. 0\<rparr>" 0] by simp
qed

end
