(* ===== verification/Image_Store_Seq.thy ===== *)
theory Image_Store_Seq
  imports Image_Store
begin

text \<open>
  Loading an image to the head of \<^verbatim>\<open>ImgStore\<close> (\<^verbatim>\<open>loadImageSeq\<close>): when it works, and when it does not,
  because a process learns the size of only one block, or because the two loading functions share the
  member that remembers whether the buffer for the result is registered.
\<close>

section \<open>The invariant between calls\<close>

text \<open>All images loaded so far had blocks of \<open>b\<close> bytes; either none was loaded, or the buffers are ready.\<close>

definition seq_ready :: "nat \<Rightarrow> nat \<Rightarrow> nat \<Rightarrow> img_store \<Rightarrow> bool" where
  "seq_ready b p s o1 \<longleftrightarrow> set (st_proc_ints_buffer o1) \<subseteq> {0, of_nat b} \<and>
     (st_max_block_size o1 = 0 \<or> st_max_block_size o1 = of_nat b \<and> st_res_registered o1 \<and> (s = 0 \<longrightarrow> length (st_res o1) = p * b))"

definition seq_group :: "nat \<Rightarrow> img_store actor_base list \<Rightarrow> bool" where
  "seq_group b ps \<longleftrightarrow> st_group ps \<and> (\<forall>s<length ps. seq_ready b (length ps) s (objs ps ! s)) \<and>
     (\<forall>s<length ps. st_max_block_size (objs ps ! s) = st_max_block_size (objs ps ! 0))"

lemma seq_groupD: "seq_group b ps \<Longrightarrow> s < length ps \<Longrightarrow> seq_ready b (length ps) s (objs ps ! s)"
  unfolding seq_group_def by blast

lemma seq_ready_paths: "same_but_paths o1 o2 \<Longrightarrow> seq_ready b p s o2 = seq_ready b p s o1"
  by (auto simp: same_but_paths_def seq_ready_def)

section \<open>The size a process learns\<close>

lemma max_size_const:
  assumes "set ns \<subseteq> {0, b}" and "b \<in> set ns"
  shows "max_size ns = b"
  using max_size_ge [OF assms(2)] max_size_less [of ns "Suc b"] assms(1) by fastforce

lemma max_block_const:
  assumes "set (st_proc_ints_buffer o1) \<subseteq> {0, of_nat b}" and "of_nat b \<in> set (st_proc_ints_buffer o1)" and "b < 2 ^ 31"
  shows "max_block o1 = of_nat b"
proof -
  let ?ns = "map unat (st_proc_ints_buffer o1)"
  have u: "unat (of_nat b :: c_int) = b" using assms(3) by simp
  have "max_size ?ns = b" using assms(1,2) u by (intro max_size_const) (force simp: image_iff)+
  moreover have "st_proc_ints_buffer o1 = map of_nat ?ns" by (simp add: comp_def)
  moreover have "\<forall>n\<in>set ?ns. n < 2 ^ 31" using assms(1,3) u by auto
  ultimately show ?thesis using max_block_eq [of o1 ?ns] by simp
qed

text \<open>With blocks of equal size it does not matter which put comes last.\<close>

lemma seq_sizes_eq:
  assumes "\<forall>c\<in>set cs. length c = b" and "cs \<noteq> []" and "s < length (st_proc_ints_buffer o1)"
  shows "seq_sizes winner cs s o1 = Inr (o1\<lparr>st_proc_ints_buffer := (st_proc_ints_buffer o1)[s := of_nat b]\<rparr>)"
proof -
  have "cs ! (winner s mod length cs) \<in> set cs" using assms(2) by (intro nth_mem) simp
  then show ?thesis using assms by (simp add: seq_sizes_def)
qed

definition seq_read :: "nat \<Rightarrow> byte list list \<Rightarrow> nat \<Rightarrow> img_store \<Rightarrow> img_store \<Rightarrow> bool" where
  "seq_read b cs s o1 o2 \<longleftrightarrow> o2 = o1\<lparr>st_proc_ints_buffer := (st_proc_ints_buffer o1)[s := of_nat b],
     st_max_block_size := of_nat b, st_part := cs ! s\<rparr>"

lemma seq_read_eq:
  assumes len: "length cs = length ps" and b: "\<forall>c\<in>set cs. length c = b" "b < 2 ^ 31"
    and ready: "\<forall>s<length ps. set (st_proc_ints_buffer (objs ps ! s)) \<subseteq> {0, of_nat b} \<and> length (st_proc_ints_buffer (objs ps ! s)) = length ps"
  shows "\<exists>ps1 ps2. on_all (seq_sizes winner cs) ps = Inr ps1 \<and> on_all (\<lambda>s. read_part_file (cs ! s)) (sync_all ps1) = Inr ps2 \<and>
    length ps1 = length ps \<and> length ps2 = length ps \<and> (\<forall>s<length ps. st_max_block_size (objs ps1 ! s) = st_max_block_size (objs ps ! s)) \<and>
    (\<forall>s<length ps. seq_read b cs s (objs ps ! s) (objs ps2 ! s)) \<and> (group_in_step ps \<longrightarrow> group_in_step ps2)"
proof -
  let ?put = "\<lambda>s o1. o1\<lparr>st_proc_ints_buffer := (st_proc_ints_buffer o1)[s := of_nat b]\<rparr>"
  have "\<exists>ps1. on_all (seq_sizes winner cs) ps = Inr ps1 \<and> length ps1 = length ps \<and> (\<forall>s<length ps. objs ps1 ! s = ?put s (objs ps ! s)) \<and>
      map step_view ps1 = map step_view ps \<and> map actor_frame ps1 = map actor_frame ps"
  proof (rule on_all_ex)
    fix s assume s: "s < length ps"
    then have "cs \<noteq> []" using len by auto
    from seq_sizes_eq [OF b(1) this, of s "objs ps ! s"] ready s
    show "\<exists>o1. seq_sizes winner cs s (objs ps ! s) = Inr o1 \<and> o1 = ?put s (objs ps ! s)" by (simp del: nth_map)
  qed
  then obtain ps1 where p1: "on_all (seq_sizes winner cs) ps = Inr ps1" "length ps1 = length ps"
    "\<And>s. s < length ps \<Longrightarrow> objs ps1 ! s = ?put s (objs ps ! s)" "map step_view ps1 = map step_view ps" by blast
  have "\<exists>ps2. on_all (\<lambda>s. read_part_file (cs ! s)) (sync_all ps1) = Inr ps2 \<and> length ps2 = length (sync_all ps1) \<and>
      (\<forall>s<length (sync_all ps1). seq_read b cs s (objs ps ! s) (objs ps2 ! s)) \<and>
      map step_view ps2 = map step_view (sync_all ps1) \<and> map actor_frame ps2 = map actor_frame (sync_all ps1)"
  proof (rule on_all_ex)
    fix s assume "s < length (sync_all ps1)"
    then have s: "s < length ps" using p1(2) by simp
    let ?buf = "(st_proc_ints_buffer (objs ps ! s))[s := of_nat b]"
    have nth: "objs (sync_all ps1) ! s = (objs ps ! s)\<lparr>st_proc_ints_buffer := ?buf\<rparr>" using p1(3) [OF s] by (simp only: objs_sync_all)
    have "set ?buf \<subseteq> {0, of_nat b}" using ready [rule_format, OF s] set_update_subset_insert [of "st_proc_ints_buffer (objs ps ! s)" s "of_nat b"] by blast
    moreover have "of_nat b \<in> set ?buf" using ready [rule_format, OF s] s by (intro set_update_memI) simp
    ultimately have block: "max_block ((objs ps ! s)\<lparr>st_proc_ints_buffer := ?buf\<rparr>) = of_nat b" using b(2) by (intro max_block_const) simp_all
    have c: "length (cs ! s) = b" using b(1) s len by simp
    from read_part_file_eq [OF block b(2), of "cs ! s"] c
    show "\<exists>o1. read_part_file (cs ! s) (objs (sync_all ps1) ! s) = Inr o1 \<and> seq_read b cs s (objs ps ! s) o1"
      unfolding nth seq_read_def by auto
  qed
  then obtain ps2 where p2: "on_all (\<lambda>s. read_part_file (cs ! s)) (sync_all ps1) = Inr ps2" "length ps2 = length ps"
    "\<And>s. s < length ps \<Longrightarrow> seq_read b cs s (objs ps ! s) (objs ps2 ! s)" "map step_view ps2 = map step_view (sync_all ps1)"
    using p1(2) by auto
  have "group_in_step ps \<longrightarrow> group_in_step ps2"
    using in_step_view [OF p2(4)] in_step_view [OF p1(4)] by simp
  moreover have "st_max_block_size (objs ps1 ! s) = st_max_block_size (objs ps ! s)" if "s < length ps" for s
    unfolding p1(3) [OF that] by (simp del: nth_map)
  ultimately show ?thesis using p1(1,2) p2(1-3) by blast
qed

section \<open>The result on the head\<close>

text \<open>The buffers are made when the size changes.\<close>

definition res_ready :: "nat \<Rightarrow> nat \<Rightarrow> img_store \<Rightarrow> img_store \<Rightarrow> bool" where
  "res_ready n s o1 o2 \<longleftrightarrow> (\<exists>res. o2 = o1\<lparr>st_res := res, st_res_registered := True\<rparr> \<and> (s = 0 \<longrightarrow> length res = n))"

lemma renew_res_eq:
  assumes "st_max_block_size o1 = of_nat b" and "p * b < 2 ^ 31"
  shows "\<exists>o2. renew_res p 0 s o1 = Inr o2 \<and> res_ready (p * b) s o1 o2"
proof -
  have n: "unat (of_nat p * of_nat b :: size_t) = p * b" using assms(2) unat_size_of_nat [of "p * b"] by simp
  then show ?thesis using assms by (auto simp: renew_res_def res_ready_def Let_def)
qed

lemma renew_all_same:
  assumes "ps \<noteq> []" and "length prevs = length ps" and "\<forall>s<length ps. prevs ! s = st_max_block_size (objs ps ! s)"
  shows "renew_all prevs ps = Inr ps"
proof -
  have changed: "map (\<lambda>(prev, o1). prev \<noteq> st_max_block_size o1) (zip prevs (objs ps)) = replicate (length ps) False"
    using assms(2,3) by (intro nth_equalityI) simp_all
  show ?thesis using assms(1) unfolding renew_all_def changed by (simp add: list_all_iff)
qed

lemma renew_all_eq:
  assumes p: "ps \<noteq> []" and b: "0 < b" "length ps * b < 2 ^ 31" and max: "\<forall>s<length ps. st_max_block_size (objs ps ! s) = of_nat b"
    and prevs: "length prevs = length ps" "\<forall>s<length ps. prevs ! s = prev"
    and prev: "prev = 0 \<or> prev = of_nat b \<and> (\<forall>s<length ps. st_res_registered (objs ps ! s)) \<and> length (st_res (objs ps ! 0)) = length ps * b"
  shows "\<exists>qs. renew_all prevs ps = Inr qs \<and> length qs = length ps \<and> (\<forall>s<length ps. res_ready (length ps * b) s (objs ps ! s) (objs qs ! s)) \<and>
    (group_in_step ps \<longrightarrow> group_in_step qs)"
proof -
  let ?p = "length ps"
  have "b \<le> ?p * b" using p by (cases ps) simp_all
  then have "b < 2 ^ 31" using b(2) by (rule le_less_trans)
  then have "0 < b \<and> b < 2 ^ 64" using b(1) by simp
  then have nz: "(of_nat b :: size_t) \<noteq> 0" by (metis unat_0 unat_size_of_nat less_irrefl)
  have changed: "map (\<lambda>(prev, o1). prev \<noteq> st_max_block_size o1) (zip prevs (objs ps)) = replicate ?p (prev \<noteq> of_nat b)"
    using prevs max by (intro nth_equalityI) (simp_all del: nth_map add: nth_map [of _ "zip prevs (objs ps)"])
  show ?thesis
  proof (cases "prev = 0")
    case True
    have "\<exists>qs. on_all (\<lambda>s. renew_res ?p (prevs ! s) s) ps = Inr qs \<and> length qs = ?p \<and> (\<forall>s<?p. res_ready (?p * b) s (objs ps ! s) (objs qs ! s)) \<and>
        map step_view qs = map step_view ps \<and> map actor_frame qs = map actor_frame ps"
      using prevs(2) True renew_res_eq [OF max [rule_format] b(2)] by (intro on_all_ex) (simp del: nth_map)
    then obtain qs where q: "on_all (\<lambda>s. renew_res ?p (prevs ! s) s) ps = Inr qs" "length qs = ?p"
      "\<forall>s<?p. res_ready (?p * b) s (objs ps ! s) (objs qs ! s)" "map step_view qs = map step_view ps" by blast
    have "renew_all prevs ps = Inr (sync_all qs)"
      using True nz q(1) unfolding renew_all_def changed by (simp add: list_all_length)
    then show ?thesis using q in_step_view by (auto simp: in_step_view simp del: nth_map)
  next
    case False
    then have pr: "prev = of_nat b" "\<forall>s<?p. st_res_registered (objs ps ! s)" "length (st_res (objs ps ! 0)) = ?p * b" using prev by auto
    have "renew_all prevs ps = Inr ps" using pr(1) p prevs max by (intro renew_all_same) (simp_all del: nth_map)
    moreover have "res_ready (?p * b) s (objs ps ! s) (objs ps ! s)" if "s < ?p" for s
      using pr(2) [rule_format, OF that] pr(3) unfolding res_ready_def by (intro exI [of _ "st_res (objs ps ! s)"]) (auto simp del: nth_map)
    ultimately show ?thesis by blast
  qed
qed

text \<open>The puts fill the result.\<close>

lemma tiles_const:
  assumes "\<forall>s<k. length (bs s) = b"
  shows "tiles 0 (map (\<lambda>s. (s * b, bs s)) [0..<k]) \<and> length (concat (map bs [0..<k])) = k * b"
  using assms
proof (induction k)
  case 0
  then show ?case by simp
next
  case (Suc k)
  have "map snd (map (\<lambda>s. (s * b, bs s)) [0..<k]) = map bs [0..<k]" by simp
  with Suc show ?case by (simp add: tiles_snoc comp_def algebra_simps)
qed

lemma res_put_eq:
  assumes "st_res_registered o1" and "st_max_block_size o1 = of_nat b" and "st_part o1 = c" and "length c = b" and "s * b < 2 ^ 31"
  shows "res_put s c o1 = Inr (0, s * b, c)"
proof -
  have "unat (of_nat s * of_nat b :: size_t) = s * b" using assms(5) unat_size_of_nat [of "s * b"] by simp
  moreover have "mem_read c 0 b = Inr c" using mem_read_all [of c] assms(4) by simp
  ultimately show ?thesis using assms by (simp add: res_put_def)
qed

lemma puts_eq:
  assumes p: "ps \<noteq> []" "length ps < 2 ^ 31" and cs: "length cs = length ps" "\<forall>c\<in>set cs. length c = b" and small: "length ps * b < 2 ^ 31"
    and objs: "\<forall>s<length ps. st_res_registered (objs ps ! s) \<and> st_max_block_size (objs ps ! s) = of_nat b \<and> st_part (objs ps ! s) = cs ! s"
    and res: "length (st_res (objs ps ! 0)) = length ps * b"
  shows "\<exists>puts. mapE (\<lambda>(s, o1). res_put s (cs ! s) o1) (enumerate 0 (objs ps)) = Inr puts \<and>
    bsp_deliver puts (map st_res (objs ps)) = Inr ((map st_res (objs ps))[0 := concat cs])"
proof -
  let ?p = "length ps" and ?ws = "map (\<lambda>s. (s * b, cs ! s)) [0..<length ps]"
  have put: "res_put s (cs ! s) (objs ps ! s) = Inr (0, s * b, cs ! s)" if s: "s < ?p" for s
  proof (rule res_put_eq)
    have "s * b \<le> ?p * b" using s by (intro mult_le_mono1) simp
    then show "s * b < 2 ^ 31" using small by (rule le_less_trans)
  qed (use objs s cs in \<open>simp_all del: nth_map\<close>)
  have "mapE (\<lambda>(s, o1). res_put s (cs ! s) o1) (enumerate 0 (objs ps)) = mapE ((\<lambda>(s, o1). res_put s (cs ! s) o1) \<circ> (\<lambda>s. (s, objs ps ! s))) [0..<?p]"
    by (simp only: enumerate_upt mapE_map length_map)
  also have "\<dots> = Inr (map (\<lambda>s. (0, s * b, cs ! s)) [0..<?p])"
    using put by (intro mapE_eq_map) (simp only: comp_def prod.case set_upt atLeastLessThan_iff)
  finally have puts: "mapE (\<lambda>(s, o1). res_put s (cs ! s) o1) (enumerate 0 (objs ps)) = Inr (map (Pair (of_nat 0)) ?ws)"
    by (simp add: comp_def)
  have "\<forall>s<?p. length (cs ! s) = b" using cs by simp
  note t = tiles_const [OF this]
  have all: "map snd ?ws = map (\<lambda>s. cs ! s) [0..<?p]" by (simp add: comp_def)
  have cat: "map (\<lambda>s. cs ! s) [0..<?p] = cs" using cs(1) by (intro nth_equalityI) simp_all
  have "bsp_deliver (map (Pair (of_nat 0)) ?ws) (map st_res (objs ps)) = Inr ((map st_res (objs ps))[0 := concat (map snd ?ws)])"
    using t p res by (intro bsp_deliver_tiles) (simp_all add: comp_def)
  then show ?thesis using puts unfolding all cat by blast
qed

section \<open>Loading\<close>

lemma loadImageSeq_prefix:
  assumes grp: "st_group ps" and ok: "path_ok base" and found: "found_blocks fs base cs" "length cs = length ps"
  shows "\<exists>rs. loadImageSeq winner fs base ps = bindE (load_blocks_seq winner cs rs) (\<lambda>ps2.
      case objs ps2 of [] \<Rightarrow> Inl Out_of_bounds | head # _ \<Rightarrow> Inr (st_res head, ps2)) \<and>
    length rs = length ps \<and> st_group rs \<and> (\<forall>s<length ps. \<exists>dst lp. objs rs ! s = (objs ps ! s)\<lparr>st_dst := dst, st_logpath := lp\<rparr>)"
proof -
  have files: "part_files fs base (length ps) = map Some cs"
    using found by (intro nth_equalityI) (simp_all add: part_files_def found_blocks_def)
  have some: "\<not> list_all (\<lambda>c. c = None) (map Some cs)" "list_all (\<lambda>c. c \<noteq> None) (map Some cs)" "map the (map Some cs) = cs"
    using grp found(2) by (auto simp: st_group_def list_all_iff comp_def)
  obtain ps1 where p1: "set_path (takeWhile (\<lambda>c. c \<noteq> 0) base @ [0]) ps = Inr ps1" "st_group ps1" "length ps1 = length ps"
    "holds_path base (st_dst (objs ps1 ! 0))" "\<And>s. s < length ps \<Longrightarrow> \<exists>dst. objs ps1 ! s = (objs ps ! s)\<lparr>st_dst := dst\<rparr>"
    using set_path_group [OF grp ok] by blast
  from open_files_group [OF p1(2,4) ok, of fs, unfolded p1(3) files]
  obtain qs rs where r: "send_path ps1 = Inr qs" "on_all print_part_path qs = Inr rs" "mapE (open_part fs) (objs rs) = Inr (map Some cs)"
    "st_group rs" "length rs = length ps" "\<And>s. s < length ps \<Longrightarrow> same_but_paths (objs ps1 ! s) (objs rs ! s)" by blast
  have "loadImageSeq winner fs base ps = bindE (load_blocks_seq winner cs rs) (\<lambda>ps2.
      case objs ps2 of [] \<Rightarrow> Inl Out_of_bounds | head # _ \<Rightarrow> Inr (st_res head, ps2))"
    unfolding loadImageSeq_def bsp_load_img_seq_def p1(1) r(1-3) bindE_Inr using some by simp
  moreover have "\<exists>dst lp. objs rs ! s = (objs ps ! s)\<lparr>st_dst := dst, st_logpath := lp\<rparr>" if s: "s < length ps" for s
    using p1(5) [OF s] r(6) [OF s] unfolding same_but_paths_def by (elim exE conjE) (simp del: nth_map, blast)
  ultimately show ?thesis using r(4,5) by blast
qed

lemma load_blocks_seq_eq:
  assumes grp: "seq_group b rs" and cs: "length cs = length rs" "\<forall>c\<in>set cs. length c = b" and b: "0 < b" "length rs * b < 2 ^ 31"
  shows "\<exists>qs. load_blocks_seq winner cs rs = Inr qs \<and> seq_group b qs \<and> length qs = length rs \<and> st_res (objs qs ! 0) = concat cs"
proof -
  let ?p = "length rs"
  have st: "st_group rs" "rs \<noteq> []" "0 < ?p" "?p < 2 ^ 31" "group_in_step rs" using grp by (auto simp: seq_group_def st_group_def)
  have inv: "st_inv ?p (objs rs ! s)" "seq_ready b ?p s (objs rs ! s)" "st_max_block_size (objs rs ! s) = st_max_block_size (objs rs ! 0)"
    if "s < ?p" for s using grp that unfolding seq_group_def st_group_def by blast+
  have "b \<le> ?p * b" using st(3) by (cases ?p) simp_all
  then have b31: "b < 2 ^ 31" using b(2) by (rule le_less_trans)
  have "\<forall>s<?p. set (st_proc_ints_buffer (objs rs ! s)) \<subseteq> {0, of_nat b} \<and> length (st_proc_ints_buffer (objs rs ! s)) = ?p"
    using inv(1,2) by (auto simp: seq_ready_def st_inv_def simp del: nth_map)
  from seq_read_eq [OF cs b31 this, of winner]
  obtain ps1 ps2 where r: "on_all (seq_sizes winner cs) rs = Inr ps1" "on_all (\<lambda>s. read_part_file (cs ! s)) (sync_all ps1) = Inr ps2"
    "length ps1 = ?p" "length ps2 = ?p" "\<forall>s<?p. st_max_block_size (objs ps1 ! s) = st_max_block_size (objs rs ! s)"
    "\<And>s. s < ?p \<Longrightarrow> seq_read b cs s (objs rs ! s) (objs ps2 ! s)" "group_in_step ps2"
    using st(5) by blast
  note read = r(6) [unfolded seq_read_def]
  let ?prevs = "map st_max_block_size (objs ps1)"
  have prevs: "length ?prevs = length ps2" "\<forall>s<length ps2. ?prevs ! s = st_max_block_size (objs rs ! 0)"
    using r(3,4,5) inv(3) by simp_all
  have max: "\<forall>s<length ps2. st_max_block_size (objs ps2 ! s) = of_nat b" using read r(4) by (simp del: nth_map)
  have first: "st_max_block_size (objs rs ! 0) = 0 \<or> st_max_block_size (objs rs ! 0) = of_nat b \<and>
      (\<forall>s<length ps2. st_res_registered (objs ps2 ! s)) \<and> length (st_res (objs ps2 ! 0)) = length ps2 * b"
  proof (cases "st_max_block_size (objs rs ! 0) = 0")
    case False
    have "st_max_block_size (objs rs ! s) = of_nat b \<and> st_res_registered (objs rs ! s) \<and> (s = 0 \<longrightarrow> length (st_res (objs rs ! s)) = ?p * b)"
      if "s < ?p" for s using inv(2,3) [OF that] False by (simp add: seq_ready_def del: nth_map)
    then show ?thesis using st(3) read r(4) by (auto simp del: nth_map)
  qed simp
  have ne: "ps2 \<noteq> []" "length ps2 * b < 2 ^ 31" using r(4) st(2) b(2) by auto
  obtain ps3 where n: "renew_all ?prevs ps2 = Inr ps3" "length ps3 = ?p" "\<And>s. s < ?p \<Longrightarrow> res_ready (?p * b) s (objs ps2 ! s) (objs ps3 ! s)"
    "group_in_step ps3"
    using renew_all_eq [OF ne(1) b(1) ne(2) max prevs first] r(4,7) by auto
  have objs3: "st_res_registered (objs ps3 ! s)" "st_max_block_size (objs ps3 ! s) = of_nat b" "st_part (objs ps3 ! s) = cs ! s"
    "s = 0 \<longrightarrow> length (st_res (objs ps3 ! s)) = ?p * b" "st_inv ?p (objs ps3 ! s)"
    "set (st_proc_ints_buffer (objs ps3 ! s)) \<subseteq> {0, of_nat b}" if s: "s < ?p" for s
  proof -
    let ?buf = "(st_proc_ints_buffer (objs rs ! s))[s := of_nat b]"
    obtain res where res: "objs ps3 ! s = (objs rs ! s)\<lparr>st_proc_ints_buffer := ?buf, st_max_block_size := of_nat b,
        st_part := cs ! s, st_res := res, st_res_registered := True\<rparr>" "s = 0 \<longrightarrow> length res = ?p * b"
      using n(3) [OF s] read [OF s] by (auto simp: res_ready_def simp del: nth_map)
    have "set ?buf \<subseteq> {0, of_nat b}"
      using inv(2) [OF s] set_update_subset_insert [of "st_proc_ints_buffer (objs rs ! s)" s "of_nat b"] unfolding seq_ready_def by blast
    then show "st_res_registered (objs ps3 ! s)" "st_max_block_size (objs ps3 ! s) = of_nat b" "st_part (objs ps3 ! s) = cs ! s"
      "s = 0 \<longrightarrow> length (st_res (objs ps3 ! s)) = ?p * b" "st_inv ?p (objs ps3 ! s)" "set (st_proc_ints_buffer (objs ps3 ! s)) \<subseteq> {0, of_nat b}"
      using inv(1) [OF s] res(2) unfolding res(1) by (simp_all add: st_inv_def log_ok_def del: nth_map)
  qed
  have "\<exists>puts. mapE (\<lambda>(s, o1). res_put s (cs ! s) o1) (enumerate 0 (objs ps3)) = Inr puts \<and>
      bsp_deliver puts (map st_res (objs ps3)) = Inr ((map st_res (objs ps3))[0 := concat cs])"
  proof (rule puts_eq)
    show "length (st_res (objs ps3 ! 0)) = length ps3 * b" using objs3(4) [OF st(3)] n(2) by (simp del: nth_map)
    show "\<forall>s<length ps3. st_res_registered (objs ps3 ! s) \<and> st_max_block_size (objs ps3 ! s) = of_nat b \<and> st_part (objs ps3 ! s) = cs ! s"
      unfolding n(2) using objs3(1-3) by blast
  qed (use st(2,4) n(2) cs b(2) in auto)
  then obtain puts where puts: "mapE (\<lambda>(s, o1). res_put s (cs ! s) o1) (enumerate 0 (objs ps3)) = Inr puts"
    "bsp_deliver puts (map st_res (objs ps3)) = Inr ((map st_res (objs ps3))[0 := concat cs])" by blast
  let ?regs = "(map st_res (objs ps3))[0 := concat cs]"
  have "\<exists>ps4. on_all (\<lambda>s o1. Inr (o1\<lparr>st_res := ?regs ! s\<rparr>)) ps3 = Inr ps4 \<and> length ps4 = length ps3 \<and>
      (\<forall>s<length ps3. objs ps4 ! s = (objs ps3 ! s)\<lparr>st_res := ?regs ! s\<rparr>) \<and>
      map step_view ps4 = map step_view ps3 \<and> map actor_frame ps4 = map actor_frame ps3"
    by (rule on_all_ex) simp
  then obtain ps4 where p4: "on_all (\<lambda>s o1. Inr (o1\<lparr>st_res := ?regs ! s\<rparr>)) ps3 = Inr ps4" "length ps4 = ?p"
    "\<And>s. s < ?p \<Longrightarrow> objs ps4 ! s = (objs ps3 ! s)\<lparr>st_res := ?regs ! s\<rparr>" "map step_view ps4 = map step_view ps3"
    unfolding n(2) by blast
  have head: "?regs ! 0 = concat cs" using n(2) st(3) by simp
  have "length (concat cs) = length cs * b" using cs(2) by (induction cs) simp_all
  then have "length (concat cs) = ?p * b" by (simp only: cs(1))
  then have "st_group (sync_all ps4) \<and> (\<forall>s<?p. seq_ready b ?p s (objs ps4 ! s)) \<and> (\<forall>s<?p. st_max_block_size (objs ps4 ! s) = of_nat b)"
    using p4(2,3) objs3 head st(3,4) in_step_view [OF p4(4) n(4)]
    by (simp add: st_group_def seq_ready_def st_inv_def log_ok_def del: nth_map)
  then have "seq_group b (sync_all ps4)" using st(3) p4(2) by (simp add: seq_group_def del: nth_map)
  moreover have "st_res (objs (sync_all ps4) ! 0) = concat cs" unfolding objs_sync_all p4(3) [OF st(3)] head by simp
  moreover have "load_blocks_seq winner cs rs = Inr (sync_all ps4)"
    unfolding load_blocks_seq_def r(1) bindE_Inr r(2) n(1) puts(1) puts(2) p4(1) by simp
  ultimately show ?thesis using p4(2) by (intro exI [of _ "sync_all ps4"]) simp
qed

lemma on_all_fails:
  assumes "\<And>s. s < length ps \<Longrightarrow> (\<exists>o1. f s (objs ps ! s) = Inr o1) \<or> f s (objs ps ! s) = Inl e"
    and "s < length ps" and "f s (objs ps ! s) = Inl e"
  shows "on_all f ps = Inl e"
proof -
  have "mapE (\<lambda>(s, a). bindE (f s (ab_obj a)) (\<lambda>obj. Inr (a\<lparr>ab_obj := obj\<rparr>))) (enumerate k ps) = Inl e"
    if "\<And>s. s < length ps \<Longrightarrow> (\<exists>o1. f (k + s) (objs ps ! s) = Inr o1) \<or> f (k + s) (objs ps ! s) = Inl e"
      and "\<exists>s<length ps. f (k + s) (objs ps ! s) = Inl e" for k and ps :: "'a actor_base list"
    using that
  proof (induction ps arbitrary: k)
    case Nil
    then show ?case by simp
  next
    case (Cons a ps)
    show ?case
    proof (cases "f k (ab_obj a)")
      case (Inl e')
      then show ?thesis using Cons.prems(1) [of 0] by simp
    next
      case (Inr o1)
      have "(\<exists>o1. f (Suc k + s) (objs ps ! s) = Inr o1) \<or> f (Suc k + s) (objs ps ! s) = Inl e" if "s < length ps" for s
        using Cons.prems(1) [of "Suc s"] that by simp
      moreover obtain s where s: "s < length (a # ps)" "f (k + s) (objs (a # ps) ! s) = Inl e" using Cons.prems(2) by blast
      moreover have "s \<noteq> 0" using s Inr by (cases s) auto
      ultimately have "mapE (\<lambda>(s, a). bindE (f s (ab_obj a)) (\<lambda>obj. Inr (a\<lparr>ab_obj := obj\<rparr>))) (enumerate (Suc k) ps) = Inl e"
        by (intro Cons.IH) (auto intro!: exI [of _ "s - 1"] simp: gr0_conv_Suc)
      then show ?thesis using Inr by (simp add: enumerate_simps)
    qed
  qed
  moreover have "\<exists>s<length ps. f s (objs ps ! s) = Inl e" using assms(2,3) by blast
  ultimately show ?thesis using assms(1) unfolding on_all_def by simp
qed

section \<open>Properties\<close>

text \<open>
  Property C26: images whose files are all of the same size are loaded completely to the head, in the order of
  the processes, no matter which of the puts comes last, and any number of times.
\<close>

theorem loadImageSeq_equal_blocks:
  assumes "seq_group b ps" and "path_ok base" and "found_blocks fs base cs" "length cs = length ps" "\<forall>c\<in>set cs. length c = b"
    and "0 < b" "length ps * b < 2 ^ 31"
  shows "\<exists>qs. loadImageSeq winner fs base ps = Inr (concat cs, qs) \<and> seq_group b qs \<and> length qs = length ps"
proof -
  have grp: "st_group ps" using assms(1) by (simp add: seq_group_def)
  obtain rs where r: "loadImageSeq winner fs base ps = bindE (load_blocks_seq winner cs rs) (\<lambda>ps2.
      case objs ps2 of [] \<Rightarrow> Inl Out_of_bounds | head # _ \<Rightarrow> Inr (st_res head, ps2))" "length rs = length ps" "st_group rs"
    "\<And>s. s < length ps \<Longrightarrow> \<exists>dst lp. objs rs ! s = (objs ps ! s)\<lparr>st_dst := dst, st_logpath := lp\<rparr>"
    using loadImageSeq_prefix [OF grp assms(2-4), of winner] by blast
  have "seq_ready b (length ps) s (objs rs ! s) \<and> st_max_block_size (objs rs ! s) = st_max_block_size (objs ps ! s)" if s: "s < length ps" for s
  proof -
    obtain dst lp where "objs rs ! s = (objs ps ! s)\<lparr>st_dst := dst, st_logpath := lp\<rparr>" using r(4) [OF s] by blast
    then show ?thesis using seq_groupD [OF assms(1) s] by (simp add: seq_ready_def del: nth_map)
  qed
  moreover have "0 < length ps" using grp by (simp add: st_group_def)
  ultimately have "seq_group b rs" using assms(1) r(2,3) unfolding seq_group_def by metis
  from load_blocks_seq_eq [OF this, of cs winner] assms(4-7) r(2)
  obtain qs where q: "load_blocks_seq winner cs rs = Inr qs" "seq_group b qs" "length qs = length ps" "st_res (objs qs ! 0) = concat cs" by auto
  have "qs \<noteq> []" using q(3) \<open>0 < length ps\<close> by auto
  then show ?thesis using r(1) q by (cases qs) auto
qed

text \<open>The files of a small image.\<close>

definition part_map :: "byte list \<Rightarrow> byte list list \<Rightarrow> files" where
  "part_map base cs = map_of (map (\<lambda>s. (part_file base s, cs ! s)) [0..<length cs])"

lemma part_map_found: "\<forall>c\<in>set cs. length c < 2 ^ 31 - 28 \<Longrightarrow> found_blocks (part_map base cs) base cs"
  by (auto simp: found_blocks_def part_map_def map_of_eq_Some_iff distinct_map inj_on_def comp_def)

lemma new_stores_fresh:
  assumes "0 < k" and "12 + 32 * k < 2 ^ 31" and "s < k"
  shows "st_proc_ints_buffer (objs (new_stores k) ! s) = replicate k 0 \<and> st_max_block_size (objs (new_stores k) ! s) = 0 \<and>
    \<not> st_res_registered (objs (new_stores k) ! s)"
proof -
  obtain o1 where "ImgStore empty_store (of_nat k) = Inr o1" "st_max_block_size o1 = 0" "\<not> st_res_registered o1" "st_proc_ints_buffer o1 = replicate k 0"
    using ImgStore_ok [of k empty_store] assms(2) by auto
  then show ?thesis unfolding new_stores_ok(5) [OF assms] by simp
qed

lemma new_stores_seq: "0 < k \<Longrightarrow> 12 + 32 * k < 2 ^ 31 \<Longrightarrow> seq_group b (new_stores k)"
  using new_stores_ok(1,2) new_stores_fresh by (simp add: seq_group_def seq_ready_def del: nth_map)

theorem loadImageSeq_equal_blocks_witness:
  "\<exists>ps qs. loadImageSeq id (part_map [97] [[1, 2], [3, 4]]) [97] (new_stores 2) = Inr ([1, 2, 3, 4], ps) \<and>
    loadImageSeq (\<lambda>s. 0) (part_map [98] [[5, 6], [7, 8]]) [98] ps = Inr ([5, 6, 7, 8], qs)"
proof -
  have ok: "path_ok [97]" "path_ok [98]" by (simp_all add: path_ok_def PATH_MAX_def)
  have grp: "seq_group 2 (new_stores 2)" by (rule new_stores_seq) simp_all
  have f: "found_blocks (part_map [97] [[1, 2], [3, 4]]) [97] [[1, 2], [3, 4]]" "found_blocks (part_map [98] [[5, 6], [7, 8]]) [98] [[5, 6], [7, 8]]"
    by (simp_all add: part_map_found)
  obtain ps where ps: "loadImageSeq id (part_map [97] [[1, 2], [3, 4]]) [97] (new_stores 2) = Inr ([1, 2, 3, 4], ps)" "seq_group 2 ps" "length ps = 2"
    using loadImageSeq_equal_blocks [OF grp ok(1) f(1), of id] two_stores_ok(2) by auto
  obtain qs where "loadImageSeq (\<lambda>s. 0) (part_map [98] [[5, 6], [7, 8]]) [98] ps = Inr ([5, 6, 7, 8], qs)"
    using loadImageSeq_equal_blocks [OF ps(2) ok(2) f(2), of "\<lambda>s. 0"] ps(3) by auto
  then show ?thesis using ps(1) by blast
qed

text \<open>
  With files of different sizes a new actor may write past the end of a buffer: a process whose file is
  larger than the one whose size it was told reads it into a buffer of that size.
\<close>

theorem loadImageSeq_unequal_blocks:
  assumes grp: "st_group ps" and fresh: "\<forall>s<length ps. st_proc_ints_buffer (objs ps ! s) = replicate (length ps) 0"
    and ok: "path_ok base" and found: "found_blocks fs base cs" "length cs = length ps"
    and larger: "s < length ps" "length (cs ! (winner s mod length ps)) < length (cs ! s)"
  shows "loadImageSeq winner fs base ps = Inl Out_of_bounds"
proof -
  let ?p = "length ps" and ?b = "\<lambda>s. length (cs ! (winner s mod length ps))"
  let ?put = "\<lambda>s o1. o1\<lparr>st_proc_ints_buffer := (st_proc_ints_buffer o1)[s := of_nat (?b s)]\<rparr>"
  obtain rs where r: "loadImageSeq winner fs base ps = bindE (load_blocks_seq winner cs rs) (\<lambda>ps2.
      case objs ps2 of [] \<Rightarrow> Inl Out_of_bounds | head # _ \<Rightarrow> Inr (st_res head, ps2))" "length rs = ?p"
    "\<And>s. s < ?p \<Longrightarrow> \<exists>dst lp. objs rs ! s = (objs ps ! s)\<lparr>st_dst := dst, st_logpath := lp\<rparr>"
    using loadImageSeq_prefix [OF grp ok found, of winner] by blast
  have buf: "st_proc_ints_buffer (objs rs ! t) = replicate ?p 0" if t: "t < ?p" for t
  proof -
    obtain dst lp where "objs rs ! t = (objs ps ! t)\<lparr>st_dst := dst, st_logpath := lp\<rparr>" using r(3) [OF t] by blast
    then show ?thesis using fresh [rule_format, OF t] by (simp del: nth_map)
  qed
  have "\<exists>ps1. on_all (seq_sizes winner cs) rs = Inr ps1 \<and> length ps1 = length rs \<and> (\<forall>t<length rs. objs ps1 ! t = ?put t (objs rs ! t)) \<and>
      map step_view ps1 = map step_view rs \<and> map actor_frame ps1 = map actor_frame rs"
    using buf r(2) found(2) by (intro on_all_ex) (simp add: seq_sizes_def del: nth_map)
  then obtain ps1 where p1: "on_all (seq_sizes winner cs) rs = Inr ps1" "length ps1 = ?p" "\<And>t. t < ?p \<Longrightarrow> objs ps1 ! t = ?put t (objs rs ! t)"
    unfolding r(2) by blast
  have read: "read_part_file (cs ! t) (objs (sync_all ps1) ! t) =
      bindE (mem_write 0 (cs ! t) (vec_resize (?b t) 0 (st_part (objs (sync_all ps1) ! t)))) (\<lambda>buf.
        Inr ((objs (sync_all ps1) ! t)\<lparr>st_max_block_size := of_nat (?b t), st_part := buf\<rparr>))" if t: "t < ?p" for t
  proof -
    have "0 < ?p" using t by linarith
    then have "winner t mod ?p < length cs" unfolding found(2) by (rule mod_less_divisor)
    then have "cs ! (winner t mod ?p) \<in> set cs" by (rule nth_mem)
    then have b: "?b t < 2 ^ 31" using found(1) by (auto simp: found_blocks_def)
    have obj: "objs (sync_all ps1) ! t = (objs rs ! t)\<lparr>st_proc_ints_buffer := (replicate ?p 0)[t := of_nat (?b t)]\<rparr>"
      unfolding objs_sync_all p1(3) [OF t] buf [OF t] ..
    have "set ((replicate ?p 0)[t := of_nat (?b t)]) \<subseteq> {0, of_nat (?b t) :: c_int}"
      using set_update_subset_insert [of "replicate ?p 0" t "of_nat (?b t) :: c_int"] by auto
    moreover have "of_nat (?b t) \<in> set ((replicate ?p 0)[t := of_nat (?b t) :: c_int])" using t by (intro set_update_memI) simp
    ultimately have "max_block (objs (sync_all ps1) ! t) = of_nat (?b t)" using b unfolding obj by (intro max_block_const) simp_all
    then show ?thesis using b by (simp add: read_part_file_def Let_def del: nth_map objs_sync_all)
  qed
  have "on_all (\<lambda>s. read_part_file (cs ! s)) (sync_all ps1) = Inl Out_of_bounds"
  proof (rule on_all_fails)
    show "s < length (sync_all ps1)" using larger(1) p1(2) by simp
    show "read_part_file (cs ! s) (objs (sync_all ps1) ! s) = Inl Out_of_bounds"
      unfolding read [OF larger(1)] using larger(2) by (simp add: mem_write_def del: nth_map objs_sync_all)
    show "(\<exists>o1. read_part_file (cs ! t) (objs (sync_all ps1) ! t) = Inr o1) \<or> read_part_file (cs ! t) (objs (sync_all ps1) ! t) = Inl Out_of_bounds"
      if "t < length (sync_all ps1)" for t
    proof -
      from that have t: "t < ?p" using p1(2) by simp
      show ?thesis unfolding read [OF t] by (simp add: mem_write_def del: nth_map objs_sync_all)
    qed
  qed
  then show ?thesis unfolding r(1) load_blocks_seq_def p1(1) by simp
qed

theorem loadImageSeq_unequal_blocks_witness:
  "loadImageSeq (\<lambda>s. 1) (part_map [97] [[1, 2], [3]]) [97] (new_stores 2) = Inl Out_of_bounds"
proof -
  have ok: "path_ok [97]" by (simp add: path_ok_def PATH_MAX_def)
  have f: "found_blocks (part_map [97] [[1, 2], [3]]) [97] [[1, 2], [3]]" by (simp add: part_map_found)
  have fresh: "\<forall>s<length (new_stores 2). st_proc_ints_buffer (objs (new_stores 2) ! s) = replicate (length (new_stores 2)) 0"
    using new_stores_fresh [of 2] two_stores_ok(2) by (simp del: nth_map)
  show ?thesis
    using loadImageSeq_unequal_blocks [OF two_stores_ok(1) fresh ok f, of 0 "\<lambda>s. 1"] two_stores_ok(2) by simp
qed

text \<open>After \<^verbatim>\<open>loadImage\<close> of blocks of equal size.\<close>

lemma registered_group:
  assumes reg: "\<forall>s<length ps. registered_part (n s) (off s) (d s) (ps ! s) (qs ! s)" and len: "length qs = length ps" and step: "group_in_step ps"
  shows "objs qs = objs ps" and "group_in_step qs"
proof -
  show "objs qs = objs ps" using reg len by (intro nth_equalityI) (simp_all add: registered_part_def)
  obtain l k where a: "l < 2 ^ 31" "\<forall>a\<in>set ps. step_view a = (l, l, k)" using step by (auto simp: group_in_step_def)
  have "step_view (qs ! s) = (l, l, k + 1)" if "s < length ps" for s
    using reg [rule_format, OF that] a(2) that by (simp add: registered_part_def step_view_def)
  then show "group_in_step qs" using a(1) len unfolding group_in_step_def by (metis in_set_conv_nth)
qed

lemma loaded_image_state:
  assumes grp: "st_group ps" and ok: "path_ok base" and found: "found_blocks fs base cs" "length cs = length ps"
    and res: "result_group servers ps" and load: "loadImage blocks addr fs base ps = Inr (dv, qs)"
  shows "length qs = length ps \<and> st_group qs \<and> (\<forall>s<length ps. st_res_registered (objs qs ! s) = st_res_registered (objs ps ! s) \<and>
    st_max_block_size (objs qs ! s) = of_nat (max_size (map length cs)) \<and> st_proc_ints_buffer (objs qs ! s) = map (\<lambda>c. of_nat (length c)) cs)"
proof -
  let ?p = "length ps" and ?m = "max_size (map length cs)"
  obtain rs ps2 where l: "loadImage blocks addr fs base ps = bindE (register_all_parts 1 blocks addr (load_what cs) ps2) (\<lambda>ps3. gather_result (sync_all ps3))"
    "map actor_frame ps2 = map actor_frame ps" "group_in_step ps2" "st_group rs" "length rs = ?p"
    "\<And>s. s < ?p \<Longrightarrow> \<exists>dst lp. objs rs ! s = (objs ps ! s)\<lparr>st_dst := dst, st_logpath := lp\<rparr>"
    "\<And>s. s < ?p \<Longrightarrow> read_ok cs s (objs rs ! s) (objs ps2 ! s)"
    using loadImage_found [OF grp ok found, of blocks addr] by blast
  have l2: "length ps2 = ?p" using l(2) by (metis length_map)
  have ready: "result_ready (ps2 ! s)" if "s < ?p" for s
    using result_group_frame(1) [OF l(2), of servers] res that l2 by (simp add: result_group_nth)
  have what: "load_what cs s (ab_obj (ps2 ! s)) = (st_part (objs ps2 ! s), of_nat (length (cs ! s)), of_nat s * of_nat ?m) \<and>
      28 + length (cs ! s) < 2 ^ 31 \<and> length (cs ! s) \<le> length (st_part (objs ps2 ! s))" if s: "s < ?p" for s
  proof -
    have "objs ps2 ! s = ab_obj (ps2 ! s)" using s l2 by simp
    moreover have "cs ! s \<in> set cs" using s found(2) by simp
    then have "length (cs ! s) < 2 ^ 31 - 28" "length (cs ! s) \<le> ?m" using found(1) by (auto simp: found_blocks_def intro: max_size_ge)
    ultimately show ?thesis using read_okD [OF l(7) [OF s]] by simp
  qed
  obtain ps3 where r: "register_all_parts 1 blocks addr (load_what cs) ps2 = Inr ps3" "length ps3 = ?p"
    "\<forall>s<?p. registered_part (length (cs ! s)) (of_nat s * of_nat ?m) (take (length (cs ! s)) (st_part (objs ps2 ! s))) (ps2 ! s) (ps3 ! s)"
    using register_all_parts_sent [of ps2 "load_what cs" "\<lambda>s. st_part (objs ps2 ! s)" "\<lambda>s. length (cs ! s)" "\<lambda>s. of_nat s * of_nat ?m" blocks addr]
      ready what unfolding l2 by blast
  note reg = registered_group [of ps2, unfolded l2, OF r(3,2) l(3)]
  have "gather_result (sync_all ps3) = Inr (dv, qs)" using load unfolding l(1) r(1) by simp
  then have qs: "qs = sync_all (sync_all ps3)" by (auto simp: gather_result_def result_simps split: list.splits)
  have objs: "objs qs = objs ps2" using reg(1) by (simp add: qs)
  have inv: "st_inv ?p (objs ps2 ! s) \<and> st_res_registered (objs ps2 ! s) = st_res_registered (objs ps ! s) \<and>
      st_max_block_size (objs ps2 ! s) = of_nat ?m \<and> st_proc_ints_buffer (objs ps2 ! s) = map (\<lambda>c. of_nat (length c)) cs" if s: "s < ?p" for s
  proof -
    obtain dst lp where a: "objs rs ! s = (objs ps ! s)\<lparr>st_dst := dst, st_logpath := lp\<rparr>" using l(6) [OF s] by blast
    obtain buf where b: "objs ps2 ! s = (objs rs ! s)\<lparr>st_proc_ints_buffer := map (\<lambda>c. of_nat (length c)) cs, st_max_block_size := of_nat ?m, st_part := buf\<rparr>"
      using l(7) [OF s] unfolding read_ok_def by blast
    have "st_inv ?p (objs rs ! s)" using l(4,5) s unfolding st_group_def by metis
    then have "st_inv ?p (objs ps2 ! s)" unfolding b using found(2) by (simp add: st_inv_def log_ok_def del: nth_map)
    moreover have "st_res_registered (objs ps2 ! s) = st_res_registered (objs ps ! s)" unfolding b a by simp
    ultimately show ?thesis unfolding b by simp
  qed
  have "length qs = ?p" using r(2) by (simp add: qs)
  moreover have "group_in_step qs" unfolding qs using reg(2) by simp
  ultimately show ?thesis using inv grp unfolding st_group_def objs by simp
qed

text \<open>
  An image can not be loaded to the head after an image with blocks of the same size has been loaded as a
  distributed vector: both functions remember the size in the same member, so the buffer for the result seems to be there
  and is never registered.
\<close>

theorem loadImageSeq_after_loadImage:
  assumes grp: "st_group ps" and res: "result_group servers ps" and new: "\<forall>s<length ps. \<not> st_res_registered (objs ps ! s)"
    and ok: "path_ok base" and found: "found_blocks fs base cs" "length cs = length ps" "\<forall>c\<in>set cs. length c = b"
    and load: "loadImage blocks addr fs base ps = Inr (dv, qs)"
  shows "loadImageSeq winner fs base qs = Inl Out_of_bounds"
proof -
  let ?p = "length ps"
  have p: "0 < ?p" using grp by (simp add: st_group_def)
  then have cs: "cs \<noteq> []" using found(2) by auto
  have "max_size (map length cs) = b" using found(3) cs by (intro max_size_const) (auto simp: image_iff neq_Nil_conv)
  with loaded_image_state [OF grp ok found(1,2) res load]
  have q: "length qs = ?p" "st_group qs" "\<And>s. s < ?p \<Longrightarrow> \<not> st_res_registered (objs qs ! s) \<and> st_max_block_size (objs qs ! s) = of_nat b \<and>
      st_proc_ints_buffer (objs qs ! s) = map (\<lambda>c. of_nat (length c)) cs"
    using new by (simp_all del: nth_map)
  obtain rs where r: "loadImageSeq winner fs base qs = bindE (load_blocks_seq winner cs rs) (\<lambda>ps2.
      case objs ps2 of [] \<Rightarrow> Inl Out_of_bounds | head # _ \<Rightarrow> Inr (st_res head, ps2))" "length rs = ?p" "st_group rs"
    "\<And>s. s < ?p \<Longrightarrow> \<exists>dst lp. objs rs ! s = (objs qs ! s)\<lparr>st_dst := dst, st_logpath := lp\<rparr>"
    using loadImageSeq_prefix [OF q(2) ok found(1), of winner] found(2) unfolding q(1) by blast
  have rq: "\<not> st_res_registered (objs rs ! s) \<and> st_max_block_size (objs rs ! s) = of_nat b \<and>
      st_proc_ints_buffer (objs rs ! s) = map (\<lambda>c. of_nat (length c)) cs" if s: "s < ?p" for s
  proof -
    obtain dst lp where "objs rs ! s = (objs qs ! s)\<lparr>st_dst := dst, st_logpath := lp\<rparr>" using r(4) [OF s] by blast
    then show ?thesis using q(3) [OF s] by (simp del: nth_map)
  qed
  have b: "b < 2 ^ 31" using found(1,3) cs by (auto simp: found_blocks_def neq_Nil_conv)
  have "\<forall>s<length rs. set (st_proc_ints_buffer (objs rs ! s)) \<subseteq> {0, of_nat b} \<and> length (st_proc_ints_buffer (objs rs ! s)) = length rs"
    using rq found(2,3) r(2) by (auto simp del: nth_map)
  from seq_read_eq [OF _ found(3) b this, of winner] found(2) r(2)
  obtain ps1 ps2 where s: "on_all (seq_sizes winner cs) rs = Inr ps1" "on_all (\<lambda>s. read_part_file (cs ! s)) (sync_all ps1) = Inr ps2"
    "length ps1 = ?p" "length ps2 = ?p" "\<forall>s<?p. st_max_block_size (objs ps1 ! s) = st_max_block_size (objs rs ! s)"
    "\<And>s. s < ?p \<Longrightarrow> seq_read b cs s (objs rs ! s) (objs ps2 ! s)" by auto
  have ps2: "st_max_block_size (objs ps2 ! s) = of_nat b \<and> \<not> st_res_registered (objs ps2 ! s)" if "s < ?p" for s
    using s(6) [OF that] rq [OF that] by (simp add: seq_read_def del: nth_map)
  have renew: "renew_all (map st_max_block_size (objs ps1)) ps2 = Inr ps2"
  proof (rule renew_all_same)
    show "\<forall>t<length ps2. map st_max_block_size (objs ps1) ! t = st_max_block_size (objs ps2 ! t)"
    proof (intro allI impI)
      fix t assume "t < length ps2"
      then have t: "t < ?p" using s(4) by simp
      have "map st_max_block_size (objs ps1) ! t = st_max_block_size (objs ps1 ! t)" using t s(3) by simp
      then show "map st_max_block_size (objs ps1) ! t = st_max_block_size (objs ps2 ! t)" using s(5) rq [OF t] ps2 [OF t] t by simp
    qed
  qed (use s(3,4) p in auto)
  obtain a rest where a: "ps2 = a # rest" using s(4) p by (cases ps2) auto
  have "\<not> st_res_registered (ab_obj a)" using ps2 [OF p] by (simp add: a)
  then have "mapE (\<lambda>(s, o1). res_put s (cs ! s) o1) (enumerate 0 (objs ps2)) = Inl Out_of_bounds"
    by (simp add: a res_put_def enumerate_simps)
  then show ?thesis unfolding r(1) load_blocks_seq_def s(1) bindE_Inr s(2) renew by simp
qed

theorem loadImageSeq_after_loadImage_witness:
  "\<exists>dv qs. loadImage (\<lambda>_. \<lparr>bl_addr = 1, bl_mem = \<lambda>_. 0\<rparr>) 0 (part_map [97] [[1, 2], [3, 4]]) [97] (new_stores 2) = Inr (dv, qs) \<and>
    loadImageSeq id (part_map [97] [[1, 2], [3, 4]]) [97] qs = Inl Out_of_bounds"
proof -
  let ?cs = "[[1, 2], [3, 4]] :: byte list list" and ?b = "\<lambda>_ :: nat. \<lparr>bl_addr = 1, bl_mem = \<lambda>_. 0\<rparr>"
  have ok: "path_ok [97]" by (simp add: path_ok_def PATH_MAX_def)
  have v: "block_of [1, 2, 3, 4] 2 0 = [1, 2]" "block_of [1, 2, 3, 4] 2 1 = [3, 4]"
    by (simp_all add: block_begin_def block_size_def peek_def)
  then have st: "stored [97] (length (new_stores 2)) [1, 2, 3, 4] (part_map [97] ?cs) (part_map [97] ?cs)"
    unfolding two_stores_ok(2) by (auto simp: stored_def part_map_def less_2_cases_iff upt_conv_Cons)
  have f: "found_blocks (part_map [97] ?cs) [97] ?cs" by (simp add: part_map_found)
  obtain dv qs where l: "loadImage ?b 0 (part_map [97] ?cs) [97] (new_stores 2) = Inr (dv, qs)"
    using load_stored_returns [OF two_stores_ok(1) ok st _ two_stores_ok(3), of ?b 0] by auto
  have "\<forall>s<length (new_stores 2). \<not> st_res_registered (objs (new_stores 2) ! s)"
    using new_stores_fresh [of 2] two_stores_ok(2) by (simp del: nth_map)
  from loadImageSeq_after_loadImage [OF two_stores_ok(1,3) this ok f _ _ l, of 2 id] l show ?thesis
    by (simp add: two_stores_ok(2))
qed

end
