(* ===== verification/Double_Arith.thy ===== *)
theory Double_Arith
  imports Spmd_Group "HOL-Library.Log_Nat"
begin

text \<open>
  The type \<^verbatim>\<open>double\<close> as the image code uses it: a double is a rational number, and an operation on doubles
  rounds its exact result to the nearest number with 53 binary digits, ties to even. The numbers of the
  program lie between \<open>2 ^ - 40\<close> and \<open>2 ^ 64\<close> in size, far from the ends of the exponent range; infinities
  and not-a-number come from divisions by zero only, which are failures here.
\<close>

section \<open>Rounding\<close>

text \<open>The largest power of two that is at most \<open>x\<close>, for \<open>x > 0\<close>.\<close>

definition binade :: "rat \<Rightarrow> int" where
  "binade x = (case quotient_of x of (n, d) \<Rightarrow>
     let e = bitlen n - bitlen d in if 2 powi e \<le> x then e else e - 1)"

definition round_half_even :: "rat \<Rightarrow> int" where
  "round_half_even x = (let f = \<lfloor>x\<rfloor>; r = x - of_int f in
     if r < 1 / 2 \<or> r = 1 / 2 \<and> even f then f else f + 1)"

definition double :: "rat \<Rightarrow> rat" where
  "double x = (if x = 0 then 0
     else let u = 2 powi (binade \<bar>x\<bar> - 52) in sgn x * of_int (round_half_even (\<bar>x\<bar> / u)) * u)"

lemma binade_bounds:
  assumes "0 < x"
  shows "2 powi (binade x) \<le> x" and "x < 2 powi (binade x + 1)"
proof -
  obtain n d where q: "quotient_of x = (n, d)" by (cases "quotient_of x")
  then have x: "x = of_int n / of_int d" and d: "0 < d" by (auto simp: quotient_of_div quotient_of_denom_pos)
  with assms have n: "0 < n" by (simp add: zero_less_divide_iff)
  let ?e = "bitlen n - bitlen d"
  have pow: "(2 :: rat) powi (bitlen k - 1) \<le> of_int k" "of_int k < (2 :: rat) powi (bitlen k)" if "0 < k" for k
  proof -
    have b: "1 \<le> bitlen k" using that by (simp add: bitlen_alt_def)
    have "(2 :: rat) ^ nat (bitlen k - 1) \<le> of_int k" "of_int k < (2 :: rat) ^ nat (bitlen k)"
      using bitlen_bounds [OF that] by (metis of_int_le_iff of_int_less_iff of_int_numeral of_int_power)+
    then show "(2 :: rat) powi (bitlen k - 1) \<le> of_int k" "of_int k < (2 :: rat) powi (bitlen k)"
      using b by (simp_all add: power_int_def)
  qed
  have "(2 :: rat) powi (?e - 1) = 2 powi (bitlen n - 1) / 2 powi (bitlen d)"
    by (simp add: power_int_diff)
  also have "\<dots> \<le> x" unfolding x using pow(1) [OF n] pow(2) [OF d] n d by (intro frac_le) simp_all
  finally have low: "(2 :: rat) powi (?e - 1) \<le> x" .
  have "x < 2 powi (bitlen n) / 2 powi (bitlen d - 1)"
    unfolding x using pow(2) [OF n] pow(1) [OF d] n d by (intro frac_less) simp_all
  also have "\<dots> = 2 powi (?e + 1)" by (simp add: power_int_diff power_int_add)
  finally have high: "x < 2 powi (?e + 1)" .
  show "2 powi (binade x) \<le> x" "x < 2 powi (binade x + 1)"
    using low high by (auto simp: binade_def q Let_def)
qed

lemma round_half_even_error: "\<bar>of_int (round_half_even x) - x\<bar> \<le> 1 / 2"
proof -
  have "of_int \<lfloor>x\<rfloor> \<le> x" "x < of_int \<lfloor>x\<rfloor> + 1" by linarith+
  then show ?thesis by (auto simp: round_half_even_def Let_def abs_le_iff)
qed

lemma round_half_even_of_int [simp]: "round_half_even (of_int k) = k"
  by (simp add: round_half_even_def)

lemma double_0 [simp]: "double 0 = 0"
  by (simp add: double_def)

lemma double_error: "\<bar>double x - x\<bar> \<le> \<bar>x\<bar> / 2 ^ 53"
proof (cases "x = 0")
  case False
  let ?b = "binade \<bar>x\<bar>"
  define u :: rat where "u = 2 powi (?b - 52)"
  define r where "r = round_half_even (\<bar>x\<bar> / u)"
  have u: "0 < u" by (simp add: u_def)
  have "double x = sgn x * (of_int r * u)" using False by (simp add: double_def u_def r_def Let_def)
  moreover have "x = sgn x * \<bar>x\<bar>" by (simp add: sgn_mult_abs)
  ultimately have "double x - x = sgn x * (of_int r * u - \<bar>x\<bar>)" by (simp add: right_diff_distrib)
  then have "\<bar>double x - x\<bar> = \<bar>of_int r * u - \<bar>x\<bar>\<bar>" using False by (simp add: abs_mult abs_sgn_eq)
  also have "of_int r * u - \<bar>x\<bar> = (of_int r - \<bar>x\<bar> / u) * u" using u by (simp add: left_diff_distrib)
  also have "\<bar>(of_int r - \<bar>x\<bar> / u) * u\<bar> = \<bar>of_int r - \<bar>x\<bar> / u\<bar> * u" using u by (simp add: abs_mult)
  also have "\<dots> \<le> 1 / 2 * u" using round_half_even_error [of "\<bar>x\<bar> / u"] u unfolding r_def by (intro mult_right_mono) auto
  also have "\<dots> = 2 powi ?b / 2 ^ 53" by (simp add: u_def power_int_diff)
  also have "\<dots> \<le> \<bar>x\<bar> / 2 ^ 53" using binade_bounds(1) [of "\<bar>x\<bar>"] False by (intro divide_right_mono) simp_all
  finally show ?thesis .
qed simp

lemma double_nonneg: "0 \<le> x \<Longrightarrow> 0 \<le> double x"
proof -
  assume "0 \<le> x"
  moreover have "x / 2 ^ 53 \<le> x" using \<open>0 \<le> x\<close> by (simp add: divide_le_eq)
  ultimately show ?thesis using double_error [of x] by linarith
qed

lemma double_of_nat: "k < 2 ^ 53 \<Longrightarrow> double (of_nat k) = of_nat k"
proof (cases "k = 0")
  case False
  let ?b = "binade (of_nat k)"
  assume k: "k < 2 ^ 53"
  then have "(of_nat k :: rat) < of_nat (2 ^ 53)" by (simp only: of_nat_less_iff)
  then have "(2 :: rat) powi ?b < 2 powi 53" using binade_bounds(1) [of "of_nat k"] False by simp
  then have "?b < 53" using power_int_increasing [of 53 ?b "2 :: rat"] by force
  define m where "m = nat (52 - ?b)"
  have "?b - 52 = - int m" using \<open>?b < 53\<close> by (simp add: m_def)
  then have u: "(2 :: rat) powi (?b - 52) = inverse (2 ^ m)" by (simp only: power_int_minus power_int_of_nat)
  have "(of_nat k :: rat) / inverse (2 ^ m) = of_int (int k * 2 ^ m)" by (simp add: divide_inverse)
  then have "round_half_even (of_nat k / inverse (2 ^ m)) = int k * 2 ^ m" by (simp only: round_half_even_of_int)
  then show ?thesis using False by (simp add: double_def u Let_def)
qed simp

section \<open>Rounding up a quotient\<close>

text \<open>\<^verbatim>\<open>std::ceil((double) a / (double) b)\<close>: the quotient of two integers below \<open>2 ^ 31\<close> is never rounded across an integer.\<close>

definition div_up :: "nat \<Rightarrow> nat \<Rightarrow> nat" where
  "div_up a b = (a + b - 1) div b"

lemma div_up_bounds: "0 < b \<Longrightarrow> a \<le> div_up a b * b \<and> div_up a b * b < a + b"
proof -
  assume b: "0 < b"
  have "(a + b - 1) div b * b + (a + b - 1) mod b = a + b - 1" by simp
  moreover have "(a + b - 1) mod b < b" using b by simp
  ultimately show ?thesis using b unfolding div_up_def by linarith
qed

lemma div_up_pos: "0 < a \<Longrightarrow> 0 < b \<Longrightarrow> 0 < div_up a b"
  using div_up_bounds [of b a] by (cases "div_up a b") auto

lemma div_up_le: "0 < b \<Longrightarrow> div_up a b \<le> a"
proof -
  assume b: "0 < b"
  show ?thesis
  proof (cases "div_up a b")
    case (Suc k)
    then have "k * b < a" using div_up_bounds [OF b, of a] by simp
    moreover have "k * 1 \<le> k * b" using b by (intro mult_le_mono2) simp
    ultimately show ?thesis using Suc by linarith
  qed simp
qed

lemma ceil_double_div:
  assumes b: "0 < b" and a: "a < 2 ^ 31"
  shows "\<lceil>double (of_nat a / of_nat b)\<rceil> = int (div_up a b)"
proof -
  let ?x = "of_nat a / of_nat b :: rat" and ?k = "div_up a b" and ?B = "of_nat b :: rat"
  have B: "0 < ?B" using b by simp
  have err: "\<bar>double ?x - ?x\<bar> \<le> ?x / 2 ^ 53" using double_error [of ?x] by simp
  have le: "of_nat a \<le> of_nat ?k * ?B" "of_nat ?k * ?B \<le> of_nat a + ?B - 1"
    using div_up_bounds [OF b, of a]
    by (metis of_nat_le_iff of_nat_mult) (use div_up_bounds [OF b, of a] in \<open>simp flip: of_nat_mult of_nat_add of_nat_Suc add: less_Suc_eq_le\<close>)
  have small: "(of_nat a :: rat) < 2 ^ 31" using a by (metis of_nat_less_iff of_nat_numeral of_nat_power)
  show ?thesis
  proof (rule ceiling_unique)
    have "?x * ?B = of_nat a" using B by simp
    have "(of_nat ?k - 1) * ?B \<le> of_nat a - 1" using le(2) by (simp add: left_diff_distrib)
    also have "\<dots> < of_nat a - of_nat a / 2 ^ 53" using small by simp
    also have "\<dots> = (?x - ?x / 2 ^ 53) * ?B" using B by (simp add: left_diff_distrib)
    finally have "of_nat ?k - 1 < ?x - ?x / 2 ^ 53" using B by (simp only: mult_less_cancel_right_pos)
    then show "of_int (int ?k) - 1 < double ?x" using err by linarith
  next
    show "double ?x \<le> of_int (int ?k)"
    proof (cases "of_nat a = of_nat ?k * ?B")
      case True
      have "?k \<le> a" by (rule div_up_le [OF b])
      then have "?k < 2 ^ 53" using a by simp
      then have "double (of_nat ?k) = of_nat ?k" by (rule double_of_nat)
      moreover have "?x = of_nat ?k" using True B by (simp add: field_simps)
      ultimately show ?thesis by simp
    next
      case False
      then have "a \<noteq> ?k * b" by (metis of_nat_mult)
      then have "a + 1 \<le> ?k * b" using div_up_bounds [OF b, of a] by simp
      then have "(of_nat (a + 1) :: rat) \<le> of_nat (?k * b)" by (simp only: of_nat_le_iff)
      then have "of_nat a + of_nat a / 2 ^ 53 \<le> of_nat ?k * ?B" using small by simp
      moreover have "(?x + ?x / 2 ^ 53) * ?B = of_nat a + of_nat a / 2 ^ 53" using B by (simp add: distrib_right)
      ultimately have "?x + ?x / 2 ^ 53 \<le> of_nat ?k" using B by (metis mult_le_cancel_right_pos)
      then show ?thesis using err by simp
    qed
  qed
qed

section \<open>Relative errors\<close>

text \<open>\<open>near k x y\<close>: \<open>x\<close> is what is left of the nonnegative number \<open>y\<close> after at most \<open>k\<close> roundings.\<close>

abbreviation eps :: rat where
  "eps \<equiv> 1 / 2 ^ 53"

definition near :: "nat \<Rightarrow> rat \<Rightarrow> rat \<Rightarrow> bool" where
  "near k x y \<longleftrightarrow> 0 \<le> y \<and> y * (1 - eps) ^ k \<le> x \<and> x \<le> y * (1 + eps) ^ k"

lemma near_refl: "0 \<le> y \<Longrightarrow> near 0 y y"
  by (simp add: near_def)

lemma near_nonneg: "near k x y \<Longrightarrow> 0 \<le> x"
  by (rule order_trans [of _ "y * (1 - eps) ^ k"]) (simp_all add: near_def)

lemma near_mono: "near k x y \<Longrightarrow> k \<le> l \<Longrightarrow> near l x y"
proof -
  assume n: "near k x y" and le: "k \<le> l"
  have "y * (1 - eps) ^ l \<le> y * (1 - eps) ^ k" "y * (1 + eps) ^ k \<le> y * (1 + eps) ^ l"
    using n le by (intro mult_left_mono power_decreasing power_increasing; simp add: near_def)+
  then show ?thesis using n by (simp add: near_def)
qed

lemma near_double: "near k x y \<Longrightarrow> near (Suc k) (double x) y"
proof -
  assume n: "near k x y"
  have x: "0 \<le> x" using n by (rule near_nonneg)
  have "\<bar>double x - x\<bar> \<le> x * eps" using double_error [of x] x by simp
  then have d: "x * (1 - eps) \<le> double x" "double x \<le> x * (1 + eps)"
    unfolding abs_le_iff right_diff_distrib distrib_left by linarith+
  have "y * (1 - eps) ^ k * (1 - eps) \<le> x * (1 - eps)" "x * (1 + eps) \<le> y * (1 + eps) ^ k * (1 + eps)"
    using n by (intro mult_right_mono; simp add: near_def)+
  then show ?thesis using d n unfolding near_def power_Suc2 mult.assoc [symmetric] by (meson order_trans)
qed

lemma near_add: "near k x y \<Longrightarrow> near k x' y' \<Longrightarrow> near k (x + x') (y + y')"
  unfolding near_def distrib_right by (intro conjI add_mono add_nonneg_nonneg) simp_all

lemma near_scale: "near k x y \<Longrightarrow> 0 \<le> c \<Longrightarrow> near k (x * c) (y * c)"
proof -
  assume n: "near k x y" and c: "0 \<le> c"
  then have "y * (1 - eps) ^ k * c \<le> x * c" "x * c \<le> y * (1 + eps) ^ k * c"
    by (intro mult_right_mono; simp add: near_def)+
  then show ?thesis using n c by (simp add: near_def mult.commute mult.left_commute)
qed

lemma bernoulli_below: "0 \<le> e \<Longrightarrow> e \<le> 1 \<Longrightarrow> 1 - of_nat k * e \<le> (1 - e :: rat) ^ k"
proof (induction k)
  case (Suc k)
  have "1 - of_nat (Suc k) * e \<le> (1 - of_nat k * e) * (1 - e)" using Suc.prems by (simp add: algebra_simps)
  also have "\<dots> \<le> (1 - e) ^ k * (1 - e)" using Suc by (intro mult_right_mono) simp_all
  finally show ?case by (simp add: mult.commute)
qed simp

text \<open>Even \<open>2 ^ 32\<close> roundings change a number by less than a millionth of it.\<close>

lemma near_error:
  assumes "near k x y" and "k \<le> 2 ^ 32"
  shows "y * (1 - 1 / 2 ^ 20) \<le> x" and "x \<le> y * (1 + 1 / 2 ^ 20)"
proof -
  have "of_nat k * eps \<le> 1 / 2 ^ 21"
  proof -
    have "(of_nat k :: rat) \<le> 2 ^ 32" using assms(2) by (metis of_nat_le_iff of_nat_numeral of_nat_power)
    then show ?thesis by simp
  qed
  then have low: "1 - 1 / 2 ^ 21 \<le> (1 - eps) ^ k" using bernoulli_below [of eps k] by simp
  have "(1 + eps) ^ k * (1 - 1 / 2 ^ 21) \<le> (1 + eps) ^ k * (1 - eps) ^ k" using low by (intro mult_left_mono) simp_all
  also have "\<dots> = ((1 + eps) * (1 - eps)) ^ k" by (simp only: power_mult_distrib)
  also have "\<dots> \<le> 1" by (intro power_le_one) (simp_all add: algebra_simps)
  finally have high: "(1 + eps) ^ k \<le> 1 + 1 / 2 ^ 20" by simp
  have "y * (1 - 1 / 2 ^ 20) \<le> y * (1 - eps) ^ k" using low assms(1) by (intro mult_left_mono) (simp_all add: near_def)
  then show "y * (1 - 1 / 2 ^ 20) \<le> x" using assms(1) by (simp add: near_def)
  have "y * (1 + eps) ^ k \<le> y * (1 + 1 / 2 ^ 20)" using high assms(1) by (intro mult_left_mono) (simp_all add: near_def)
  then show "x \<le> y * (1 + 1 / 2 ^ 20)" using assms(1) by (simp add: near_def)
qed

end
