(* ===== verification/Compress_Kernel.thy ===== *)
theory Compress_Kernel
  imports Double_Arith
begin

text \<open>
  The inner loop of the actor \<^verbatim>\<open>MonochromeCompressor\<close> (src/src/examples/imgproc/src/MonochromeCompressor.cpp),
  the same in \<^verbatim>\<open>bsp_compress\<close> and \<^verbatim>\<open>bsp_compress_seq\<close>: every square of an image with three bytes per pixel
  becomes one gray byte. The gray bytes are written to the buffer the pixels are read from, from its start
  on. A local \<^verbatim>\<open>int\<close> is an integer here and \<open>check_int\<close> the overflow of an operation on it.
\<close>

section \<open>The code\<close>

definition check_int :: "int \<Rightarrow> int result" where
  "check_int z = (if int_fits z then Inr z else Inl Int_overflow)"

text \<open>\<open>base\<close>: where the pixels start in the buffer. \<^verbatim>\<open>(pix->r + pix->g + pix->b) / 3\<close> is a division of integers.\<close>

definition pixel_avg :: "byte list \<Rightarrow> nat \<Rightarrow> int \<Rightarrow> int \<Rightarrow> int \<Rightarrow> int result" where
  "pixel_avg buf base width y x =
     bindE (check_int (y * width)) (\<lambda>row.
       let off = int base + 3 * (row + x)
       in if off < 0 then Inl Out_of_bounds
          else bindE (mem_read buf (nat off) 3) (\<lambda>bs. Inr (sum_list (map (\<lambda>b. int (unat b)) bs) div 3)))"

definition square_avg :: "byte list \<Rightarrow> nat \<Rightarrow> int \<Rightarrow> int \<Rightarrow> int \<Rightarrow> int \<Rightarrow> int \<Rightarrow> rat result" where
  "square_avg buf base width x1 x2 y1 y2 =
     bindE (check_int (y2 - y1)) (\<lambda>dy.
     bindE (check_int (x2 - x1)) (\<lambda>dx.
     bindE (check_int (dy * dx)) (\<lambda>square_npix.
       foldE (\<lambda>y. foldE (\<lambda>x avg. bindE (pixel_avg buf base width y x) (\<lambda>a.
           Inr (double (avg + double (of_int a / of_int square_npix))))) [x1..x2 - 1]) [y1..y2 - 1] 0)))"

text \<open>A number outside of the range of \<^verbatim>\<open>unsigned char\<close> must not be converted to it.\<close>

definition gray_level :: "int \<Rightarrow> rat \<Rightarrow> byte result" where
  "gray_level maxval avg =
     (let v = \<lfloor>double (double (avg / 256) * of_int maxval)\<rfloor>
      in if 0 \<le> v \<and> v < 256 then Inr (of_int v) else Inl Int_overflow)"

definition compress_square ::
  "nat \<Rightarrow> int \<Rightarrow> int \<Rightarrow> int \<Rightarrow> int \<Rightarrow> int \<Rightarrow> int \<Rightarrow> int \<Rightarrow> byte list \<times> nat \<Rightarrow> (byte list \<times> nat) result"
where
  "compress_square base width part_height ncols nrows maxval iheight iwidth = (\<lambda>(buf, out).
     bindE (check_int (iwidth * ncols)) (\<lambda>x1.
     bindE (check_int (x1 + ncols)) (\<lambda>x_end.
     bindE (check_int (iheight * nrows)) (\<lambda>y1.
     bindE (check_int (y1 + nrows)) (\<lambda>y_end.
     bindE (square_avg buf base width x1 (min x_end width) y1 (min y_end part_height)) (\<lambda>avg.
     bindE (gray_level maxval avg) (\<lambda>g.
     bindE (mem_write out [g] buf) (\<lambda>buf'. Inr (buf', out + 1)))))))))"

definition compress_loop ::
  "nat \<Rightarrow> int \<Rightarrow> int \<Rightarrow> int \<Rightarrow> int \<Rightarrow> int \<Rightarrow> int \<Rightarrow> int \<Rightarrow> byte list \<Rightarrow> byte list result"
where
  "compress_loop base width part_height ncols nrows maxval cheight cwidth buf =
     bindE (foldE (\<lambda>iheight. foldE (compress_square base width part_height ncols nrows maxval iheight) [0..cwidth - 1])
       [0..cheight - 1] (buf, base)) (\<lambda>(buf', out). Inr buf')"

section \<open>The gray level of a square\<close>

text \<open>The pixels of a square of an image \<open>px\<close> that is \<open>w\<close> pixels wide.\<close>

definition pixel_mean :: "byte list \<Rightarrow> nat \<Rightarrow> nat \<times> nat \<Rightarrow> nat" where
  "pixel_mean px w = (\<lambda>(y, x). let i = 3 * (y * w + x) in (unat (px ! i) + unat (px ! (i + 1)) + unat (px ! (i + 2))) div 3)"

definition square :: "nat \<Rightarrow> nat \<Rightarrow> nat \<Rightarrow> nat \<Rightarrow> (nat \<times> nat) list" where
  "square y1 y2 x1 x2 = concat (map (\<lambda>y. map (\<lambda>x. (y, x)) [x1..<x2]) [y1..<y2])"

definition mean_level :: "nat list \<Rightarrow> rat" where
  "mean_level vals = foldl (\<lambda>avg a. double (avg + double (of_nat a / of_nat (length vals)))) 0 vals"

definition level :: "nat \<Rightarrow> nat list \<Rightarrow> int" where
  "level maxval vals = \<lfloor>double (double (mean_level vals / 256) * of_nat maxval)\<rfloor>"

text \<open>The square \<open>(r, c)\<close> of an image of \<open>w\<close> times \<open>h\<close> pixels.\<close>

definition square_at :: "nat \<Rightarrow> nat \<Rightarrow> nat \<Rightarrow> nat \<Rightarrow> nat \<Rightarrow> nat \<Rightarrow> (nat \<times> nat) list" where
  "square_at w h nrows ncols r c =
     square (r * nrows) (min (r * nrows + nrows) h) (c * ncols) (min (c * ncols + ncols) w)"

definition gray :: "byte list \<Rightarrow> nat \<Rightarrow> nat \<Rightarrow> nat \<Rightarrow> nat \<Rightarrow> nat \<Rightarrow> nat \<Rightarrow> nat \<Rightarrow> byte" where
  "gray px w h nrows ncols maxval r c = of_int (level maxval (map (pixel_mean px w) (square_at w h nrows ncols r c)))"

text \<open>The gray image, row by row.\<close>

definition gray_image :: "byte list \<Rightarrow> nat \<Rightarrow> nat \<Rightarrow> nat \<Rightarrow> nat \<Rightarrow> nat \<Rightarrow> nat \<Rightarrow> nat \<Rightarrow> byte list" where
  "gray_image px w h nrows ncols maxval cheight cwidth =
     concat (map (\<lambda>r. map (gray px w h nrows ncols maxval r) [0..<cwidth]) [0..<cheight])"

lemma length_square: "length (square y1 y2 x1 x2) = (y2 - y1) * (x2 - x1)"
  by (simp add: square_def length_concat comp_def sum_list_triv)

lemma pixel_mean_le: "pixel_mean px w yx \<le> 255"
proof -
  have b: "unat (b :: byte) \<le> 255" for b using unsigned_less [of b, where 'a = nat] by simp
  have "(unat (px ! i) + unat (px ! j) + unat (px ! k)) div 3 \<le> (255 + 255 + 255) div 3" for i j k
    by (intro div_le_mono add_mono b)
  then show ?thesis by (simp add: pixel_mean_def Let_def split: prod.split)
qed

lemma mean_near: "near (Suc (length vals)) (mean_level vals) (of_nat (sum_list vals) / of_nat (length vals))"
proof -
  let ?n = "length vals"
  have "near (Suc (length as)) (foldl (\<lambda>avg a. double (avg + double (of_nat a / of_nat ?n))) 0 as) (of_nat (sum_list as) / of_nat ?n)" for as
  proof (induction as rule: rev_induct)
    case Nil
    then show ?case by (simp add: near_def)
  next
    case (snoc a as)
    have "near 1 (double (of_nat a / of_nat ?n)) (of_nat a / of_nat ?n)"
      using near_double [OF near_refl] by simp
    then have "near (Suc (length as)) (double (of_nat a / of_nat ?n)) (of_nat a / of_nat ?n)"
      by (rule near_mono) simp
    from near_double [OF near_add [OF snoc this]] show ?case by (simp add: add_divide_distrib)
  qed
  then show ?thesis by (simp add: mean_level_def)
qed

lemma level_near: "near (length vals + 3) (double (double (mean_level vals / 256) * of_nat maxval))
    (of_nat (sum_list vals) / of_nat (length vals) / 256 * of_nat maxval)"
proof -
  have "near (Suc (length vals)) (mean_level vals / 256) (of_nat (sum_list vals) / of_nat (length vals) / 256)"
    using near_scale [OF mean_near, of "1 / 256" vals] by simp
  from near_double [OF near_scale [OF near_double [OF this], of "of_nat maxval"]]
  show ?thesis by (simp add: numeral_3_eq_3)
qed

lemma exact_level:
  assumes "\<forall>a\<in>set vals. a \<le> 255"
  shows "(of_nat (sum_list vals) / of_nat (length vals) / 256 * of_nat maxval :: rat) \<le> 255 / 256 * of_nat maxval"
proof (cases "vals = []")
  case False
  have "sum_list vals \<le> length vals * 255" using assms by (induction vals) auto
  then have "(of_nat (sum_list vals) :: rat) \<le> of_nat (length vals * 255)" by (simp only: of_nat_le_iff)
  then have "(of_nat (sum_list vals) :: rat) / of_nat (length vals) \<le> 255" using False by (simp add: divide_le_eq mult.commute)
  then show ?thesis by (intro mult_right_mono) simp_all
qed simp

lemma level_bounds:
  assumes "\<forall>a\<in>set vals. a \<le> 255" and "length vals < 2 ^ 31" and "maxval \<le> 255"
  shows "0 \<le> level maxval vals" and "level maxval vals \<le> int (maxval - 1)"
proof -
  let ?r = "double (double (mean_level vals / 256) * of_nat maxval)"
  let ?y = "of_nat (sum_list vals) / of_nat (length vals) / 256 * of_nat maxval :: rat"
  have "0 \<le> ?r" using near_nonneg [OF level_near] .
  then show "0 \<le> level maxval vals" by (simp add: level_def)
  have m: "(of_nat maxval :: rat) \<le> 255" using assms(3) by (metis of_nat_le_iff of_nat_numeral)
  have "?r \<le> ?y * (1 + 1 / 2 ^ 20)" using near_error(2) [OF level_near] assms(2) by simp
  also have "\<dots> \<le> 255 / 256 * of_nat maxval * (1 + 1 / 2 ^ 20)" by (intro mult_right_mono exact_level assms(1)) simp
  finally have r: "?r \<le> 255 / 256 * of_nat maxval * (1 + 1 / 2 ^ 20)" .
  show "level maxval vals \<le> int (maxval - 1)"
  proof (cases "maxval = 0")
    case True
    then show ?thesis by (simp add: level_def)
  next
    case False
    then have "?r < of_nat maxval" using r by (simp add: less_le_trans)
    then have "\<lfloor>?r\<rfloor> < int maxval" by (simp add: floor_less_iff)
    then show ?thesis using False by (simp add: level_def of_nat_diff)
  qed
qed

section \<open>The loop computes the gray image in place\<close>

lemma check_int_fits [simp]: "int_fits z \<Longrightarrow> check_int z = Inr z"
  by (simp add: check_int_def)

lemma int_fits_small: "- (2 ^ 31) \<le> z \<Longrightarrow> z < 2 ^ 31 \<Longrightarrow> int_fits z"
  by (simp add: int_fits_def)

lemma upto_int: "[int i..int j - 1] = map int [i..<j]"
  by (rule nth_equalityI) simp_all

text \<open>A loop that takes \<open>S j\<close> to \<open>S (j + 1)\<close> in step \<open>j\<close>.\<close>

lemma foldE_steps:
  assumes "\<And>j. j < n \<Longrightarrow> f (int j) (S j) = Inr (S (Suc j))"
  shows "foldE f [0..int n - 1] (S 0) = Inr (S n)"
proof -
  have "foldE f (map int [0..<k]) (S 0) = Inr (S k)" if "k \<le> n" for k
    using that assms by (induction k) (simp_all add: foldE_append)
  then show ?thesis using upto_int [of 0 n] by simp
qed

lemma foldE_foldl: "(\<And>x s. x \<in> set xs \<Longrightarrow> f x s = Inr (g s x)) \<Longrightarrow> foldE f xs s = Inr (foldl g s xs)"
  by (induction xs arbitrary: s) simp_all

lemma pixel_avg_eq:
  assumes "base + 3 * (y * w + x) + 3 \<le> length buf" and "y * w < 2 ^ 31"
  shows "pixel_avg buf base (int w) (int y) (int x) = Inr (int (pixel_mean (drop base buf) w (y, x)))"
proof -
  let ?i = "3 * (y * w + x)"
  have fits: "int_fits (int y * int w)" using int_fits_of_nat [OF assms(2)] by simp
  have "int base + 3 * (int y * int w + int x) = int (base + ?i)" by simp
  moreover have "peek (base + ?i) 3 buf = [buf ! (base + ?i), buf ! (base + (?i + 1)), buf ! (base + (?i + 2))]"
    using assms(1) by (intro nth_equalityI) (auto simp: peek_def less_Suc_eq numeral_3_eq_3 add.assoc)
  ultimately show ?thesis using fits assms(1)
    by (simp add: pixel_avg_def Let_def mem_read_def pixel_mean_def zdiv_int del: of_nat_add of_nat_mult) simp
qed

lemma square_mem: "(y, x) \<in> set (square y1 y2 x1 x2) \<longleftrightarrow> y1 \<le> y \<and> y < y2 \<and> x1 \<le> x \<and> x < x2"
  by (force simp: square_def)

lemma foldE_square:
  assumes "\<And>y x s. (y, x) \<in> set (square y1 y2 x1 x2) \<Longrightarrow> f (int y) (int x) s = Inr (g s (v (y, x)))"
  shows "foldE (\<lambda>y. foldE (f y) [int x1..int x2 - 1]) [int y1..int y2 - 1] s = Inr (foldl g s (map v (square y1 y2 x1 x2)))"
proof -
  have inner: "foldE (f (int y)) [int x1..int x2 - 1] s = Inr (foldl (\<lambda>s x. g s (v (y, x))) s [x1..<x2])"
    if "y \<in> set [y1..<y2]" for y s
    unfolding upto_int foldE_map using that assms by (intro foldE_foldl) (simp add: square_mem)
  have "foldE (\<lambda>y. foldE (f y) [int x1..int x2 - 1]) [int y1..int y2 - 1] s =
      Inr (foldl (\<lambda>s y. foldl (\<lambda>s x. g s (v (y, x))) s [x1..<x2]) s [y1..<y2])"
    unfolding upto_int [of y1] foldE_map using inner by (intro foldE_foldl) simp
  moreover have "foldl g s (map v (concat (map (\<lambda>y. map (\<lambda>x. (y, x)) [x1..<x2]) ys))) =
      foldl (\<lambda>s y. foldl (\<lambda>s x. g s (v (y, x))) s [x1..<x2]) s ys" for ys
    by (induction ys arbitrary: s) (simp_all add: foldl_map)
  ultimately show ?thesis by (simp add: square_def)
qed

lemma square_avg_eq:
  assumes fits: "int_fits (int y2 - int y1)" "int_fits (int x2 - int x1)" "int_fits ((int y2 - int y1) * (int x2 - int x1))"
    and read: "\<And>y x. (y, x) \<in> set (square y1 y2 x1 x2) \<Longrightarrow> pixel_avg buf base (int w) (int y) (int x) = Inr (int (v (y, x)))"
  shows "square_avg buf base (int w) (int x1) (int x2) (int y1) (int y2) = Inr (mean_level (map v (square y1 y2 x1 x2)))"
proof -
  let ?n = "(int y2 - int y1) * (int x2 - int x1)"
  have step: "bindE (pixel_avg buf base (int w) (int y) (int x)) (\<lambda>a. Inr (double (avg + double (of_int a / of_int ?n)))) =
      Inr (double (avg + double (of_nat (v (y, x)) / of_nat ((y2 - y1) * (x2 - x1)))))"
    if m: "(y, x) \<in> set (square y1 y2 x1 x2)" for y x avg
  proof -
    have "int ((y2 - y1) * (x2 - x1)) = ?n" using m by (simp add: square_mem of_nat_diff)
    then have "(of_int ?n :: rat) = of_nat ((y2 - y1) * (x2 - x1))" by (metis of_int_of_nat_eq)
    then show ?thesis by (simp only: read [OF m] bindE_Inr of_int_of_nat_eq)
  qed
  let ?f = "\<lambda>y x avg. bindE (pixel_avg buf base (int w) y x) (\<lambda>a. Inr (double (avg + double (of_int a / of_int ?n))))"
  let ?g = "\<lambda>avg a. double (avg + double (of_nat a / of_nat ((y2 - y1) * (x2 - x1))))"
  have "foldE (\<lambda>y. foldE (?f y) [int x1..int x2 - 1]) [int y1..int y2 - 1] 0 = Inr (foldl ?g 0 (map v (square y1 y2 x1 x2)))"
    by (rule foldE_square) (rule step)
  then show ?thesis unfolding square_avg_def mean_level_def length_map length_square
    by (simp only: check_int_fits [OF fits(1)] check_int_fits [OF fits(2)] check_int_fits [OF fits(3)] bindE_Inr)
qed

text \<open>
  When the loop is safe: \<open>w\<close> times \<open>ph\<close> pixels and \<open>ch\<close> times \<open>cw\<close> gray bytes fit into the buffer,
  the squares reach at most \<open>w\<close> columns and \<open>h\<close> rows beyond the pixels, and no gray byte is
  written behind the first pixel of its square.
\<close>

definition kernel_fits :: "nat \<Rightarrow> nat \<Rightarrow> nat \<Rightarrow> nat \<Rightarrow> nat \<Rightarrow> nat \<Rightarrow> nat \<Rightarrow> nat \<Rightarrow> byte list \<Rightarrow> bool" where
  "kernel_fits base w h ph ncols nrows ch cw buf \<longleftrightarrow>
     base + 3 * (w * ph) \<le> length buf \<and> base + ch * cw \<le> length buf \<and> cw \<le> 3 * (nrows * w) \<and> 0 < ncols \<and>
     cw * ncols \<le> 2 * w \<and> ch * nrows \<le> ph + h \<and> ph \<le> h \<and> w * h < 2 ^ 31 \<and> 2 * w < 2 ^ 31 \<and> 2 * h < 2 ^ 31"

lemma length_gray_image [simp]: "length (gray_image px w h nrows ncols maxval ch cw) = ch * cw"
  by (simp add: gray_image_def length_concat comp_def sum_list_triv)

lemma row_index:
  assumes "r < k" and "c < n"
  shows "r * n + c < k * (n :: nat)"
proof -
  have "Suc r * n \<le> k * n" using assms(1) by (intro mult_le_mono1) simp
  then show ?thesis using assms(2) by simp
qed

lemma nth_rows:
  assumes "r < k" and "c < n"
  shows "concat (map (\<lambda>r. map (f r) [0..<n]) [0..<k]) ! (r * n + c) = f r c"
proof -
  have "concat (map (\<lambda>r. map (f r) [0..<n]) [0..<k]) ! (r * n + c) = f r c" if "r < k" for k
    using that
  proof (induction k)
    case (Suc k)
    have l: "length (concat (map (\<lambda>r. map (f r) [0..<n]) [0..<k])) = k * n" by (simp add: length_concat comp_def sum_list_triv)
    show ?case
    proof (cases "r = k")
      case True
      then show ?thesis using assms(2) l by (simp add: nth_append)
    next
      case False
      then have r: "r < k" using Suc.prems by simp
      then have "r * n + c < k * n" using assms(2) by (rule row_index)
      then show ?thesis using Suc.IH [OF r] l by (simp add: nth_append)
    qed
  qed simp
  then show ?thesis using assms(1) .
qed

lemma nth_gray_image: "r < ch \<Longrightarrow> c < cw \<Longrightarrow> gray_image px w h nrows ncols maxval ch cw ! (r * cw + c) = gray px w h nrows ncols maxval r c"
  unfolding gray_image_def by (rule nth_rows)

lemma pixel_mean_behind:
  assumes "base + length bs \<le> length buf" and "length bs \<le> 3 * (y * w + x)" and "base + 3 * (y * w + x) + 3 \<le> length buf"
  shows "pixel_mean (drop base (poke base bs buf)) w (y, x) = pixel_mean (drop base buf) w (y, x)"
proof -
  let ?i = "3 * (y * w + x)"
  have "poke base bs buf ! (base + (?i + k)) = buf ! (base + (?i + k))" if "k < 3" for k
    using assms that by (subst nth_poke) simp_all
  from this [of 0] this [of 1] this [of 2] show ?thesis
    using assms by (simp add: pixel_mean_def Let_def length_poke)
qed

lemma square_bounds:
  assumes "(y, x) \<in> set (square (r * nrows) (min (r * nrows + nrows) ph) (c * ncols) (min (c * ncols + ncols) w))"
    and "cw \<le> 3 * (nrows * w)" and "0 < ncols"
  shows "r * cw + c \<le> 3 * (y * w + x)" and "3 * (y * w + x) + 3 \<le> 3 * (w * ph)" and "y < ph"
proof -
  have m: "r * nrows \<le> y" "y < ph" "c * ncols \<le> x" "x < w" using assms(1) by (simp_all add: square_mem)
  have "r * cw \<le> r * (3 * (nrows * w))" using assms(2) by (rule mult_le_mono2)
  also have "\<dots> = 3 * (r * nrows * w)" by simp
  also have "\<dots> \<le> 3 * (y * w)" using m(1) by (intro mult_le_mono mult_le_mono1) simp_all
  finally have "r * cw \<le> 3 * (y * w)" .
  moreover have "c * 1 \<le> c * ncols" using assms(3) by (intro mult_le_mono2) simp
  then have "c \<le> x" using m(3) by (metis le_trans mult.right_neutral)
  then have "c \<le> 3 * x" by simp
  ultimately show "r * cw + c \<le> 3 * (y * w + x)" unfolding distrib_left by (rule add_mono)
  have "Suc y * w \<le> ph * w" using m(2) by (intro mult_le_mono1) simp
  then show "3 * (y * w + x) + 3 \<le> 3 * (w * ph)" using m(4) by (simp add: mult.commute)
qed (use assms(1) in \<open>simp add: square_mem\<close>)

lemma gray_level_eq:
  assumes "\<forall>a\<in>set vals. a \<le> 255" and "length vals < 2 ^ 31" and "maxval \<le> 255"
  shows "gray_level (int maxval) (mean_level vals) = Inr (of_int (level maxval vals))"
proof -
  have "0 \<le> level maxval vals" "level maxval vals < 256" using level_bounds [OF assms] assms(3) by linarith+
  then show ?thesis by (simp add: gray_level_def level_def)
qed

lemma extent_le: "a + n \<le> p + h \<Longrightarrow> p \<le> h \<Longrightarrow> \<bar>int (min (a + n) p) - int a\<bar> \<le> int h"
  by linarith

lemma extent_fits:
  assumes "w * h < 2 ^ 31" and "\<bar>dx\<bar> \<le> int w" and "\<bar>dy\<bar> \<le> int h"
  shows "int_fits (dy * dx)"
proof -
  have "\<bar>dy * dx\<bar> \<le> int h * int w" unfolding abs_mult using assms(2,3) by (intro mult_mono) simp_all
  also have "\<dots> < 2 ^ 31" using assms(1) by (metis mult.commute of_nat_less_iff of_nat_mult of_nat_numeral of_nat_power)
  finally show ?thesis by (simp add: int_fits_def abs_less_iff)
qed

lemma compress_square_step:
  assumes k: "kernel_fits base w h ph ncols nrows ch cw buf" and max: "maxval \<le> 255" and rc: "r < ch" "c < cw"
    and bs: "length bs = r * cw + c"
  shows "compress_square base (int w) (int ph) (int ncols) (int nrows) (int maxval) (int r) (int c) (poke base bs buf, base + length bs) =
    Inr (poke base (bs @ [gray (drop base buf) w ph nrows ncols maxval r c]) buf, base + length bs + 1)"
proof -
  note fits = k [unfolded kernel_fits_def]
  let ?buf = "poke base bs buf" and ?g = "gray (drop base buf) w ph nrows ncols maxval r c"
  let ?x1 = "c * ncols" and ?y1 = "r * nrows" let ?x2 = "min (?x1 + ncols) w" and ?y2 = "min (?y1 + nrows) ph"
  let ?sq = "square ?y1 ?y2 ?x1 ?x2" and ?vals = "map (pixel_mean (drop base buf) w) (square_at w ph nrows ncols r c)"
  have "r * cw + c < ch * cw" using rc by (rule row_index)
  then have room: "base + length bs + 1 \<le> length buf" using fits bs by linarith
  have "Suc c * ncols \<le> cw * ncols" "Suc r * nrows \<le> ch * nrows" using rc by (intro mult_le_mono1; simp)+
  then have ends: "?x1 + ncols \<le> 2 * w" "?y1 + nrows \<le> ph + h" using fits by simp_all
  then have ints: "int_fits (int ?x1)" "int_fits (int (?x1 + ncols))" "int_fits (int ?y1)" "int_fits (int (?y1 + nrows))"
    using fits by (intro int_fits_of_nat; linarith)+
  have d: "\<bar>int ?x2 - int ?x1\<bar> \<le> int w" "\<bar>int ?y2 - int ?y1\<bar> \<le> int h" 
    using ends fits by (intro extent_le; linarith)+
  then have diffs: "int_fits (int ?y2 - int ?y1)" "int_fits (int ?x2 - int ?x1)" using fits by (simp_all add: int_fits_def abs_le_iff)
  have area: "int_fits ((int ?y2 - int ?y1) * (int ?x2 - int ?x1))" using fits d by (intro extent_fits [of w h]) simp_all
  have read: "pixel_avg ?buf base (int w) (int y) (int x) = Inr (int (pixel_mean (drop base buf) w (y, x)))"
    if m: "(y, x) \<in> set ?sq" for y x
  proof -
    note sq = square_bounds [OF m _ _, of cw]
    have b: "length bs \<le> 3 * (y * w + x)" "base + 3 * (y * w + x) + 3 \<le> length buf" using sq(1,2) fits bs by simp_all
    have "y * w \<le> w * h" using sq(3) fits by (simp add: mult.commute mult_le_mono2)
    then have "y * w < 2 ^ 31" using fits by linarith
    then show ?thesis using pixel_avg_eq [of base y w x ?buf] pixel_mean_behind [OF _ b(1,2)] b room by (simp add: length_poke)
  qed
  have avg: "square_avg ?buf base (int w) (int ?x1) (int ?x2) (int ?y1) (int ?y2) = Inr (mean_level ?vals)"
    using square_avg_eq [OF diffs area, of ?buf base w, OF read] by (simp only: square_at_def)
  have vals: "\<forall>a\<in>set ?vals. a \<le> 255" by (auto simp: pixel_mean_le)
  have "length ?vals \<le> h * w"
    using d unfolding length_map square_at_def length_square by (intro mult_le_mono; linarith)
  then have n: "length ?vals < 2 ^ 31" using fits by (simp add: mult.commute)
  have g: "gray_level (int maxval) (mean_level ?vals) = Inr ?g" using gray_level_eq [OF vals n max] by (simp only: gray_def)
  have wr: "mem_write (base + length bs) [?g] ?buf = Inr (poke base (bs @ [?g]) buf)"
    using room by (simp add: mem_write_def length_poke poke_def min_def)
  have ge: "int c * int ncols = int ?x1" "int ?x1 + int ncols = int (?x1 + ncols)" "int r * int nrows = int ?y1" "int ?y1 + int nrows = int (?y1 + nrows)"
    "min (int (?x1 + ncols)) (int w) = int ?x2" "min (int (?y1 + nrows)) (int ph) = int ?y2"
    by (simp_all add: of_nat_min)
  show ?thesis
    unfolding compress_square_def prod.case ge ints [THEN check_int_fits] bindE_Inr avg g wr ..
qed

lemma compress_loop_eq:
  assumes k: "kernel_fits base w h ph ncols nrows ch cw buf" and max: "maxval \<le> 255"
  shows "compress_loop base (int w) (int ph) (int ncols) (int nrows) (int maxval) (int ch) (int cw) buf =
    Inr (poke base (gray_image (drop base buf) w ph nrows ncols maxval ch cw) buf)"
proof -
  let ?img = "gray_image (drop base buf) w ph nrows ncols maxval ch cw"
  let ?f = "compress_square base (int w) (int ph) (int ncols) (int nrows) (int maxval)"
  define S where "S n = (poke base (take n ?img) buf, base + n)" for n
  have pixel: "?f (int r) (int c) (S (r * cw + c)) = Inr (S (Suc (r * cw + c)))" if "r < ch" "c < cw" for r c
  proof -
    have "r * cw + c < ch * cw" using that by (rule row_index)
    then have "take (Suc (r * cw + c)) ?img = take (r * cw + c) ?img @ [gray (drop base buf) w ph nrows ncols maxval r c]"
      and len: "length (take (r * cw + c) ?img) = r * cw + c"
      using nth_gray_image [OF that] by (simp_all add: take_Suc_conv_app_nth)
    then show ?thesis using compress_square_step [OF k max that, of "take (r * cw + c) ?img"] by (simp add: S_def)
  qed
  have row: "foldE (?f (int r)) [0..int cw - 1] (S (r * cw)) = Inr (S (Suc r * cw))" if "r < ch" for r
    using foldE_steps [of cw "?f (int r)" "\<lambda>c. S (r * cw + c)"] pixel [OF that] by (simp add: add.commute)
  have "foldE (\<lambda>r. foldE (?f r) [0..int cw - 1]) [0..int ch - 1] (S 0) = Inr (S (ch * cw))"
    using foldE_steps [of ch "\<lambda>r. foldE (?f r) [0..int cw - 1]" "\<lambda>r. S (r * cw)"] row by simp
  moreover have "S 0 = (buf, base)" using k by (simp add: S_def kernel_fits_def)
  ultimately show ?thesis by (simp add: compress_loop_def S_def)
qed

section \<open>Properties\<close>

text \<open>
  Property C28: compressing in place is as good as compressing to a buffer of its own. If the pixels and the gray
  bytes fit and there are at most three times as many gray bytes in a row as pixels in its squares, no pixel is
  overwritten before it has been used, and the buffer holds the gray image of the pixels it held before.
\<close>

theorem compress_in_place:
  assumes "kernel_fits base w h ph ncols nrows ch cw buf" and "maxval \<le> 255"
  shows "\<exists>buf'. compress_loop base (int w) (int ph) (int ncols) (int nrows) (int maxval) (int ch) (int cw) buf = Inr buf' \<and>
    length buf' = length buf \<and> take base buf' = take base buf \<and>
    (\<forall>r<ch. \<forall>c<cw. buf' ! (base + r * cw + c) = gray (drop base buf) w ph nrows ncols maxval r c)"
proof -
  let ?img = "gray_image (drop base buf) w ph nrows ncols maxval ch cw"
  have room: "base + ch * cw \<le> length buf" using assms(1) by (simp add: kernel_fits_def)
  have "poke base ?img buf ! (base + r * cw + c) = gray (drop base buf) w ph nrows ncols maxval r c" if "r < ch" "c < cw" for r c
  proof -
    have "r * cw + c < ch * cw" using that by (rule row_index)
    then show ?thesis using nth_poke [of base ?img buf "base + r * cw + c"] nth_gray_image [OF that] room by (simp add: add.assoc)
  qed
  moreover have "take base (poke base ?img buf) = take base buf" using room by (simp add: poke_def)
  ultimately show ?thesis using compress_loop_eq [OF assms] room by (simp add: length_poke)
qed

theorem compress_in_place_witness:
  "\<exists>buf'. compress_loop 1 2 2 1 2 255 1 2 [7, 255, 255, 255, 0, 0, 0, 9, 9, 9, 1, 2, 3] = Inr buf' \<and> length buf' = 13 \<and> hd buf' = 7 \<and>
    buf' ! 2 = gray [255, 255, 255, 0, 0, 0, 9, 9, 9, 1, 2, 3] 2 2 2 1 255 0 1"
proof -
  let ?buf = "[7, 255, 255, 255, 0, 0, 0, 9, 9, 9, 1, 2, 3] :: byte list"
  have "kernel_fits 1 2 2 2 1 2 1 2 ?buf" by (simp add: kernel_fits_def)
  from compress_in_place [OF this, of 255] obtain buf' where b: "compress_loop 1 2 2 1 2 255 1 2 ?buf = Inr buf'" "length buf' = 13"
    "take 1 buf' = take 1 ?buf" "\<forall>r<1. \<forall>c<2. buf' ! (1 + r * 2 + c) = gray (drop 1 ?buf) 2 2 2 1 255 r c"
    by auto
  have "hd buf' = 7" using b(2,3) by (cases buf') simp_all
  moreover have "buf' ! (1 + 0 * 2 + 1) = gray (drop 1 ?buf) 2 2 2 1 255 0 1" using b(4) by (metis one_less_numeral_iff semiring_norm(76) zero_less_one)
  ultimately show ?thesis using b(1,2) by (intro exI [of _ buf']) (simp add: numeral_2_eq_2)
qed

lemma level_accurate:
  assumes le: "\<forall>a\<in>set vals. a \<le> 255" and n: "length vals < 2 ^ 31" and max: "0 < maxval" "maxval \<le> 255"
    and exact: "exact = (of_nat (sum_list vals) / of_nat (length vals) / 256 * of_nat maxval :: rat)"
  shows "\<exists>g. gray_level (int maxval) (mean_level vals) = Inr g \<and>
    \<lfloor>exact * (1 - 1 / 2 ^ 20)\<rfloor> \<le> int (unat g) \<and> int (unat g) \<le> \<lfloor>exact * (1 + 1 / 2 ^ 20)\<rfloor> \<and> unat g < maxval"
proof -
  let ?r = "double (double (mean_level vals / 256) * of_nat maxval)" and ?g = "of_int (level maxval vals) :: byte"
  have b: "0 \<le> level maxval vals" "level maxval vals < int maxval" using level_bounds [OF le n max(2)] max(1) by simp_all
  then have "level maxval vals < 256" using max(2) by simp
  then have eq: "int (unat ?g) = level maxval vals"
    using b(1) by (simp add: unsigned_of_int take_bit_int_eq_self_iff)
  have "exact * (1 - 1 / 2 ^ 20) \<le> ?r" "?r \<le> exact * (1 + 1 / 2 ^ 20)"
    using near_error [OF level_near, of vals maxval] n by (simp_all add: exact)
  then have "\<lfloor>exact * (1 - 1 / 2 ^ 20)\<rfloor> \<le> level maxval vals" "level maxval vals \<le> \<lfloor>exact * (1 + 1 / 2 ^ 20)\<rfloor>"
    unfolding level_def by (simp_all only: floor_mono)
  then show ?thesis using b(2) eq gray_level_eq [OF le n max(2)] by (intro exI [of _ ?g]) linarith
qed

lemma sum_square: "sum_list (map f (square y1 y2 x1 x2)) = (\<Sum>y = y1..<y2. \<Sum>x = x1..<x2. f (y, x))" for f :: "nat \<times> nat \<Rightarrow> nat"
proof -
  have "sum_list (map f (concat (map (\<lambda>y. map (Pair y) [x1..<x2]) ys))) = sum_list (map (\<lambda>y. \<Sum>x = x1..<x2. f (y, x)) ys)" for ys
    by (induction ys) (simp_all add: comp_def interv_sum_list_conv_sum_set_nat)
  then show ?thesis by (simp add: square_def interv_sum_list_conv_sum_set_nat)
qed

lemma poke_byte: "i < length buf \<Longrightarrow> poke i [g] buf = buf[i := g]"
  by (simp add: poke_def upd_conv_take_nth_drop)

text \<open>
  Property C29: rounding hardly matters. For a square that lies at least partly in the image, the code
  writes one gray byte and advances by one: the exact mean over the pixels of the square inside the image,
  each pixel being the mean of its three colours rounded down, scaled from 256 to \<open>maxval\<close> and rounded
  down, up to a millionth of it. The byte is always below \<open>maxval\<close>, so that white does not stay white.
\<close>

theorem gray_accurate:
  assumes buf: "base + 3 * (w * ph) \<le> length buf" "out < length buf" and area: "w * ph < 2 ^ 31"
    and inside: "r * nrows < ph" "c * ncols < w" and ends: "r * nrows + nrows < 2 ^ 31" "c * ncols + ncols < 2 ^ 31"
    and max: "0 < maxval" "maxval \<le> 255" and rows: "y1 = r * nrows" "y2 = min (r * nrows + nrows) ph"
    and cols: "x1 = c * ncols" "x2 = min (c * ncols + ncols) w"
    and exact: "exact = (of_nat (\<Sum>y = y1..<y2. \<Sum>x = x1..<x2. (unat (buf ! (base + 3 * (y * w + x))) +
        unat (buf ! (base + 3 * (y * w + x) + 1)) + unat (buf ! (base + 3 * (y * w + x) + 2))) div 3) /
      of_nat ((y2 - y1) * (x2 - x1)) / 256 * of_nat maxval :: rat)"
  shows "\<exists>g. compress_square base (int w) (int ph) (int ncols) (int nrows) (int maxval) (int r) (int c) (buf, out) =
      Inr (buf[out := g], out + 1) \<and>
    \<lfloor>exact * (1 - 1 / 2 ^ 20)\<rfloor> \<le> int (unat g) \<and> int (unat g) \<le> \<lfloor>exact * (1 + 1 / 2 ^ 20)\<rfloor> \<and> unat g < maxval"
proof -
  let ?sq = "square y1 y2 x1 x2" and ?v = "pixel_mean (drop base buf) w"
  have le1: "y1 \<le> y2" "y2 \<le> ph" "x1 \<le> x2" "x2 \<le> w" using inside by (simp_all add: rows cols)
  have dims: "(y2 - y1) * (x2 - x1) \<le> ph * w" using le1 by (intro mult_le_mono; linarith)
  have wph: "w \<le> w * ph" "ph \<le> w * ph" using inside by simp_all
  then have ints: "int_fits (int x1)" "int_fits (int (x1 + ncols))" "int_fits (int y1)" "int_fits (int (y1 + nrows))"
    using ends rows cols by (intro int_fits_of_nat; linarith)+
  have "y2 - y1 < 2 ^ 31" "x2 - x1 < 2 ^ 31" "(y2 - y1) * (x2 - x1) < 2 ^ 31"
    using le1 wph area dims unfolding mult.commute [of ph] by linarith+
  then have diffs: "int_fits (int y2 - int y1)" "int_fits (int x2 - int x1)" "int_fits ((int y2 - int y1) * (int x2 - int x1))"
    using le1 by (metis int_fits_of_nat of_nat_diff of_nat_mult)+
  have at: "base + 3 * (y * w + x) + 3 \<le> length buf \<and> y * w < 2 ^ 31" if m: "(y, x) \<in> set ?sq" for y x
  proof -
    have yx: "y < ph" "x < w" using m le1 by (auto simp: square_mem)
    then have "Suc y * w \<le> ph * w" by (intro mult_le_mono1) simp
    then show ?thesis using yx(2) buf(1) area by (simp add: mult.commute)
  qed
  then have read: "pixel_avg buf base (int w) (int y) (int x) = Inr (int (?v (y, x)))" if "(y, x) \<in> set ?sq" for y x
    using that pixel_avg_eq by blast
  have "sum_list (map ?v ?sq) = (\<Sum>y = y1..<y2. \<Sum>x = x1..<x2. (unat (buf ! (base + 3 * (y * w + x))) +
        unat (buf ! (base + 3 * (y * w + x) + 1)) + unat (buf ! (base + 3 * (y * w + x) + 2))) div 3)"
    unfolding sum_square using buf(1) by (intro sum.cong refl) (simp add: pixel_mean_def Let_def square_mem add.assoc)
  then have ex: "exact = of_nat (sum_list (map ?v ?sq)) / of_nat (length (map ?v ?sq)) / 256 * of_nat maxval"
    by (simp add: exact length_square)
  have "\<forall>a\<in>set (map ?v ?sq). a \<le> 255" by (auto simp: pixel_mean_le)
  moreover have "length (map ?v ?sq) < 2 ^ 31" using dims area by (simp add: length_square mult.commute)
  ultimately obtain g where g: "gray_level (int maxval) (mean_level (map ?v ?sq)) = Inr g"
    "\<lfloor>exact * (1 - 1 / 2 ^ 20)\<rfloor> \<le> int (unat g)" "int (unat g) \<le> \<lfloor>exact * (1 + 1 / 2 ^ 20)\<rfloor>" "unat g < maxval"
    using level_accurate [OF _ _ max ex] by blast
  have avg: "square_avg buf base (int w) (int x1) (int x2) (int y1) (int y2) = Inr (mean_level (map ?v ?sq))"
    using square_avg_eq [OF diffs, of buf base w ?v, OF read] .
  have wr: "mem_write out [g] buf = Inr (buf[out := g])" using buf(2) by (simp add: mem_write_def poke_byte)
  have ge: "int c * int ncols = int x1" "int x1 + int ncols = int (x1 + ncols)" "int r * int nrows = int y1"
    "int y1 + int nrows = int (y1 + nrows)" "min (int (x1 + ncols)) (int w) = int x2" "min (int (y1 + nrows)) (int ph) = int y2"
    by (simp_all add: rows cols of_nat_min)
  have "compress_square base (int w) (int ph) (int ncols) (int nrows) (int maxval) (int r) (int c) (buf, out) = Inr (buf[out := g], out + 1)"
    unfolding compress_square_def prod.case ge ints [THEN check_int_fits] bindE_Inr avg g(1) wr ..
  then show ?thesis using g(2-4) by blast
qed

text \<open>Two pixels, a white and a black one: the mean is 127.5, and the gray byte 127.\<close>

theorem gray_accurate_witness:
  "\<exists>g. compress_square 0 2 1 2 1 255 0 0 ([255, 255, 255, 0, 0, 0], 0) = Inr ([255, 255, 255, 0, 0, 0][0 := g], 0 + 1) \<and>
    unat g = 127"
proof -
  let ?buf = "[255, 255, 255, 0, 0, 0] :: byte list"
  have two: "{0..<2} = {0, 1 :: nat}" by auto
  let ?exact = "255 / 2 / 256 * 255 :: rat"
  have "\<exists>g. compress_square 0 (int 2) (int 1) (int 2) (int 1) (int 255) (int 0) (int 0) (?buf, 0) = Inr (?buf[0 := g], 0 + 1) \<and>
      \<lfloor>?exact * (1 - 1 / 2 ^ 20)\<rfloor> \<le> int (unat g) \<and> int (unat g) \<le> \<lfloor>?exact * (1 + 1 / 2 ^ 20)\<rfloor> \<and> unat g < 255"
    by (rule gray_accurate [of _ _ _ _ _ _ _ _ _ _ 0 1 0 2]) (simp_all add: two)
  moreover have "\<lfloor>?exact * (1 - 1 / 2 ^ 20)\<rfloor> = 127" "\<lfloor>?exact * (1 + 1 / 2 ^ 20)\<rfloor> = 127" by (intro floor_unique; simp)+
  ultimately obtain g where "compress_square 0 2 1 2 1 255 0 0 (?buf, 0) = Inr (?buf[0 := g], 0 + 1)" "127 \<le> int (unat g)" "int (unat g) \<le> 127"
    by (simp only: of_nat_numeral semiring_1_class.of_nat_0 of_nat_1) blast
  moreover from this(2,3) have "unat g = 127" by linarith
  ultimately show ?thesis by blast
qed

end
