(* ===== verification/Image_Compressor.thy ===== *)
theory Image_Compressor
  imports Compress_Kernel Group_Result Image_Files
begin

text \<open>
  The actor \<^verbatim>\<open>MonochromeCompressor\<close> (src/src/examples/imgproc/src/MonochromeCompressor.cpp, .h) on distributed
  images: each process reads the rows of its squares, compresses them in place and registers its gray bytes as
  its part of the result; the head also parses the header of the image and prints the new one. The measured
  times and the contents of the logs are left out.
\<close>

section \<open>State\<close>

text \<open>Local variables of the SPMD functions that live across supersteps.\<close>

record part_locals =
  pl_nrows :: c_int
  pl_ncols :: c_int
  pl_cpart_y1 :: size_t
  pl_cpart_height :: c_int
  pl_part_y1 :: c_int
  pl_part_height :: c_int
  pl_part_size :: c_int
  pl_maxval :: c_int
  pl_header :: nat
  pl_data_size :: c_int
  pl_data_offset :: c_int

record compressor =
  mc_dv :: vector_distribution
  mc_part :: "byte list"
  mc_img :: "byte list"
  mc_compressed :: "byte list"
  mc_width :: c_int
  mc_height :: c_int
  mc_compress_width :: c_int
  mc_compress_height :: c_int
  mc_header_offset :: c_int
  mc_qraw :: bool
  mc_bitsperPixel :: c_int
  mc_logpath :: "byte list"
  mc_log_base_len :: size_t
  mc_locals :: part_locals

text \<open>\<open>mem\<close> is what the members the constructor does not initialise hold.\<close>

definition MonochromeCompressor :: "compressor \<Rightarrow> compressor result" where
  "MonochromeCompressor mem =
     bindE (vector_distribution_base 1) (\<lambda>dv.
       Inr (mem\<lparr>mc_dv := dv, mc_part := [], mc_img := [], mc_compressed := [], mc_log_base_len := 0\<rparr>))"

definition compressor_setLogPathBase :: "byte list \<Rightarrow> compressor actor_base list \<Rightarrow> (c_int \<times> compressor actor_base list) result" where
  "compressor_setLogPathBase path ps = (case objs ps of [] \<Rightarrow> Inl Out_of_bounds
     | head # _ \<Rightarrow>
         bindE (mem_write 0 (strncpy (PATH_MAX - 1) path) (mc_logpath head)) (\<lambda>logpath.
         bindE (mem_read logpath 0 (length path + 1)) (\<lambda>bs.
         bindE (on_all (\<lambda>s o1. bindE (mem_write 0 bs (mc_logpath o1)) (\<lambda>lp.
                  Inr (o1\<lparr>mc_logpath := lp, mc_log_base_len := low_int (of_nat (length path)) (mc_log_base_len o1)\<rparr>)))
             (upd_head (\<lambda>o1. o1\<lparr>mc_logpath := logpath, mc_log_base_len := of_nat (length path)\<rparr>) ps)) (\<lambda>qs.
           Inr (1, sync_all qs)))))"

definition compressor_open_log :: "nat \<Rightarrow> compressor \<Rightarrow> compressor result" where
  "compressor_open_log s o1 =
     (if mc_log_base_len o1 \<noteq> 0
      then bindE (mem_write (unat (mc_log_base_len o1)) (chars ''_bsp_compress_p'' @ decimal s @ [0]) (mc_logpath o1)) (\<lambda>lp.
        Inr (o1\<lparr>mc_logpath := lp\<rparr>))
      else Inr o1)"

section \<open>The header of an image\<close>

text \<open>
  \<^verbatim>\<open>sscanf(buf, "P6 %d %d 255\n", &w, &h)\<close>: the two numbers, or what was there before when the input does not
  match. It looks no further than it needs; that the end of the buffer is not reached is checked.
\<close>

definition is_space :: "byte \<Rightarrow> bool" where
  "is_space b \<longleftrightarrow> b = 32 \<or> 9 \<le> unat b \<and> unat b \<le> 13"

definition scan_int :: "byte list \<Rightarrow> (c_int \<times> byte list) option result" where
  "scan_int bs0 = (case dropWhile is_space bs0 of [] \<Rightarrow> Inl Out_of_bounds
     | b # bs \<Rightarrow>
         let ds = (if b = 43 \<or> b = 45 then bs else b # bs); digits = takeWhile is_digit ds; rest = dropWhile is_digit ds;
             v = (if b = 45 then - int (undecimal digits) else int (undecimal digits))
         in if rest = [] then Inl Out_of_bounds
            else if digits = [] then Inr None
            else if int_fits v then Inr (Some (of_int v, rest)) else Inl Int_overflow)"

definition scan_sizes :: "byte list \<Rightarrow> c_int \<Rightarrow> c_int \<Rightarrow> (c_int \<times> c_int) result" where
  "scan_sizes bs w h = bindE (scan_int bs) (\<lambda>r1. case r1 of None \<Rightarrow> Inr (w, h)
     | Some (w', bs') \<Rightarrow> bindE (scan_int bs') (\<lambda>r2. case r2 of None \<Rightarrow> Inr (w', h) | Some (h', _) \<Rightarrow> Inr (w', h')))"

fun scan_header :: "byte list \<Rightarrow> c_int \<Rightarrow> c_int \<Rightarrow> (c_int \<times> c_int) result" where
  "scan_header (a # b # bs) w h = (if [a, b] = chars ''P6'' then scan_sizes bs w h else Inr (w, h))"
| "scan_header _ w h = Inl Out_of_bounds"

text \<open>\<^verbatim>\<open>strchr(buf, c) - buf\<close>; when there is no such character, the difference with a null pointer is undefined.\<close>

fun strchr :: "byte \<Rightarrow> byte list \<Rightarrow> nat result" where
  "strchr c [] = Inl Out_of_bounds"
| "strchr c (b # bs) = (if b = c then Inr 0 else if b = 0 then Inl Null_deref else bindE (strchr c bs) (\<lambda>n. Inr (n + 1)))"

text \<open>\<^verbatim>\<open>"P5 %d %d %d\n"\<close>.\<close>

definition compressed_header :: "c_int \<Rightarrow> c_int \<Rightarrow> c_int \<Rightarrow> byte list" where
  "compressed_header cw ch maxval = chars ''P5 '' @ format_int cw @ chars '' '' @ format_int ch @ chars '' '' @ format_int maxval @ [10]"

section \<open>The part of a process\<close>

text \<open>\<^verbatim>\<open>int n = std::ceil((double) a / (double) b)\<close>: infinity and not-a-number have no integer value.\<close>

definition ceil_quotient :: "c_int \<Rightarrow> c_int \<Rightarrow> c_int result" where
  "ceil_quotient a b =
     (if b = 0 then Inl Int_overflow
      else let c = \<lceil>double (of_int (sint a) / of_int (sint b))\<rceil> in if int_fits c then Inr (of_int c) else Inl Int_overflow)"

text \<open>The rows of the gray image of process \<open>i\<close> of \<open>p\<close>, and the rows of pixels they are made of.\<close>

definition part_rows :: "nat \<Rightarrow> nat \<Rightarrow> c_int \<Rightarrow> c_int \<Rightarrow> c_int \<Rightarrow> (size_t \<times> c_int \<times> c_int \<times> c_int) result" where
  "part_rows p i height cheight nrows =
     bindE (div_range (scast cheight) (of_nat i) (of_nat p)) (\<lambda>(y1, y2).
       let part_y1 = ucast (y1 * scast nrows) :: c_int; part_y2 = ucast (min (y2 * scast nrows) (scast height :: size_t)) :: c_int
       in bindE (sub_int part_y2 part_y1) (\<lambda>part_height. Inr (y1, ucast (y2 - y1), part_y1, part_height)))"

text \<open>\<^verbatim>\<open>int n = _width * rows * sizeof(pixel_t)\<close>.\<close>

definition pixel_bytes :: "c_int \<Rightarrow> c_int \<Rightarrow> c_int result" where
  "pixel_bytes width rows = bindE (mul_int width rows) (\<lambda>n. Inr (ucast (scast n * 3 :: size_t)))"

text \<open>\<^verbatim>\<open>(1 << bits) - 1\<close>.\<close>

definition max_value :: "c_int \<Rightarrow> c_int result" where
  "max_value bits = (if 0 \<le> sint bits \<and> sint bits < 31 then Inr (of_nat (2 ^ nat (sint bits) - 1)) else Inl Int_overflow)"

text \<open>The sizes, the buffer and, on the head, the header in front of the pixels.\<close>

definition prepare_part :: "nat \<Rightarrow> nat \<Rightarrow> compressor \<Rightarrow> compressor result" where
  "prepare_part p s o1 =
     bindE (ceil_quotient (mc_height o1) (mc_compress_height o1)) (\<lambda>nrows.
     bindE (ceil_quotient (mc_width o1) (mc_compress_width o1)) (\<lambda>ncols.
     bindE (part_rows p s (mc_height o1) (mc_compress_height o1) nrows) (\<lambda>(y1, cheight, part_y1, part_height).
     bindE (pixel_bytes (mc_width o1) part_height) (\<lambda>part_size.
     bindE (max_value (mc_bitsperPixel o1)) (\<lambda>maxval.
       let buf_size = scast part_size + (if s = 0 then scast (mc_header_offset o1) else 0) :: size_t;
           part = vec_resize (unat buf_size) 0 (mc_part o1);
           prints = (\<not> mc_qraw o1 \<and> s = 0);
           header = (if prints then compressed_header (mc_compress_width o1) (mc_compress_height o1) maxval else [])
       in if 2 ^ 63 \<le> unat buf_size then Inl Bad_alloc
          else bindE (if prints then mem_write 0 (header @ [0]) part else Inr part) (\<lambda>part'.
            Inr (o1\<lparr>mc_part := part',
              mc_locals := \<lparr>pl_nrows = nrows, pl_ncols = ncols, pl_cpart_y1 = y1, pl_cpart_height = cheight,
                pl_part_y1 = part_y1, pl_part_height = part_height, pl_part_size = part_size, pl_maxval = maxval,
                pl_header = length header, pl_data_size = 0, pl_data_offset = 0\<rparr>\<rparr>)))))))"

text \<open>\<^verbatim>\<open>dv_get_part(_dv, part_offset + _header_offset, data_start, part_size)\<close>.\<close>

definition pixels_to_read :: "nat \<Rightarrow> compressor \<Rightarrow> (vector_distribution \<times> size_t \<times> size_t \<times> byte list) result" where
  "pixels_to_read s o1 =
     (let l = mc_locals o1; n = unat (scast (pl_part_size l) :: size_t) in
      bindE (pixel_bytes (mc_width o1) (pl_part_y1 l)) (\<lambda>part_offset.
      bindE (add_int part_offset (mc_header_offset o1)) (\<lambda>off.
      bindE (mem_read (mc_part o1) (pl_header l) n) (\<lambda>buf. Inr (mc_dv o1, scast off, scast (pl_part_size l), buf)))))"

definition put_pixels :: "byte list \<Rightarrow> compressor \<Rightarrow> compressor" where
  "put_pixels buf o1 = o1\<lparr>mc_part := poke (pl_header (mc_locals o1)) buf (mc_part o1)\<rparr>"

definition set_header_offset :: "nat \<Rightarrow> compressor \<Rightarrow> compressor result" where
  "set_header_offset s o1 = Inr (o1\<lparr>mc_header_offset := (if mc_qraw o1 then 0 else of_nat (pl_header (mc_locals o1)))\<rparr>)"

definition compress_part :: "nat \<Rightarrow> compressor \<Rightarrow> compressor result" where
  "compress_part s o1 =
     (let l = mc_locals o1 in
      bindE (compress_loop (pl_header l) (sint (mc_width o1)) (sint (pl_part_height l)) (sint (pl_ncols l)) (sint (pl_nrows l))
        (sint (pl_maxval l)) (sint (pl_cpart_height l)) (sint (mc_compress_width o1)) (mc_part o1)) (\<lambda>part.
        Inr (o1\<lparr>mc_part := part\<rparr>)))"

text \<open>The size and the offset of what the process registers.\<close>

definition result_range :: "nat \<Rightarrow> compressor \<Rightarrow> compressor result" where
  "result_range s o1 =
     (let l = mc_locals o1; offset = ucast (pl_cpart_y1 l * scast (mc_compress_width o1)) :: c_int in
      bindE (mul_int (mc_compress_width o1) (pl_cpart_height l)) (\<lambda>data_size.
      bindE (if s = 0 then add_int (mc_header_offset o1) data_size else Inr data_size) (\<lambda>n.
      bindE (if s = 0 then Inr offset else add_int (mc_header_offset o1) offset) (\<lambda>off.
        Inr (o1\<lparr>mc_locals := l\<lparr>pl_data_size := n, pl_data_offset := off\<rparr>\<rparr>)))))"

definition registered_range :: "nat \<Rightarrow> compressor \<Rightarrow> byte list \<times> size_t \<times> size_t" where
  "registered_range s o1 = (mc_part o1, scast (pl_data_size (mc_locals o1)), scast (pl_data_offset (mc_locals o1)))"

section \<open>The operations\<close>

definition copy_params :: "compressor \<Rightarrow> compressor \<Rightarrow> compressor" where
  "copy_params head o1 = o1\<lparr>mc_width := mc_width head, mc_height := mc_height head, mc_compress_height := mc_compress_height head,
     mc_compress_width := mc_compress_width head, mc_header_offset := mc_header_offset head, mc_qraw := mc_qraw head,
     mc_bitsperPixel := mc_bitsperPixel head\<rparr>"

text \<open>The flag is the same on all processes, who have just copied it.\<close>

definition share_header_offset :: "compressor actor_base list \<Rightarrow> compressor actor_base list result" where
  "share_header_offset ps = bindE (on_all set_header_offset ps) (\<lambda>qs.
     Inr (if list_all mc_qraw (objs qs) then qs else get_from_head (\<lambda>head o1. o1\<lparr>mc_header_offset := mc_header_offset head\<rparr>) qs))"

definition bsp_compress ::
  "(nat \<Rightarrow> block) \<Rightarrow> size_t \<Rightarrow> (nat \<Rightarrow> reader) \<Rightarrow> compressor actor_base list \<Rightarrow> compressor actor_base list result"
where
  "bsp_compress blocks addr reads ps =
     bindE (on_all compressor_open_log ps) (\<lambda>ps1.
     bindE (broadcast_member mc_dv (\<lambda>dv o1. o1\<lparr>mc_dv := dv\<rparr>) ps1) (\<lambda>ps2.
     bindE (on_all (prepare_part (length ps)) (get_from_head copy_params ps2)) (\<lambda>ps3.
     bindE (read_all_parts reads pixels_to_read put_pixels ps3) (\<lambda>ps4.
     bindE (share_header_offset ps4) (\<lambda>ps5.
     bindE (on_all compress_part ps5) (\<lambda>ps6.
     bindE (on_all result_range ps6) (\<lambda>ps7.
     bindE (register_all_parts 1 blocks addr registered_range ps7) (\<lambda>ps8. Inr (sync_all ps8)))))))))"

text \<open>\<open>header_buf\<close>: the 100 bytes on the stack of the head before it reads the start of the image into them.\<close>

definition compressDv ::
  "(nat \<Rightarrow> block) \<Rightarrow> size_t \<Rightarrow> (nat \<Rightarrow> reader) \<Rightarrow> byte list \<Rightarrow> vector_distribution \<Rightarrow> c_int \<Rightarrow> c_int \<Rightarrow> bool \<Rightarrow> c_int \<Rightarrow>
    compressor actor_base list \<Rightarrow> (vector_distribution \<times> compressor actor_base list) result"
where
  "compressDv blocks addr reads header_buf dv width height raw bitsPerPixel ps = (case ps of [] \<Rightarrow> Inl Out_of_bounds
     | a # rest \<Rightarrow>
         bindE (reads 0 dv 0 100 header_buf) (\<lambda>(sent, buf).
         bindE (scan_header buf (mc_width (ab_obj a)) (mc_height (ab_obj a))) (\<lambda>(w, h).
         bindE (strchr 10 buf) (\<lambda>newline.
           let o1 = (ab_obj a)\<lparr>mc_dv := dv, mc_qraw := raw, mc_bitsperPixel := bitsPerPixel, mc_width := w, mc_height := h,
                 mc_header_offset := of_nat (newline + 1), mc_compress_width := width, mc_compress_height := height\<rparr>
           in bindE (bsp_compress blocks addr reads (a\<lparr>ab_obj := o1, ab_sent := ab_sent a @ sent\<rparr> # rest)) gather_result))))"

text \<open>\<open>dv\<close> is the value of the future \<open>img\<close>; the messages that release the vector and the future are the head's.\<close>

definition compress ::
  "(nat \<Rightarrow> block) \<Rightarrow> size_t \<Rightarrow> (nat \<Rightarrow> block) \<Rightarrow> block \<Rightarrow> (nat \<Rightarrow> reader) \<Rightarrow> byte list \<Rightarrow> vector_distribution \<Rightarrow> future \<Rightarrow> c_int \<Rightarrow> c_int \<Rightarrow> bool \<Rightarrow>
    c_int \<Rightarrow> compressor actor_base list \<Rightarrow> (vector_distribution \<times> mpi_message list \<times> compressor actor_base list) result"
where
  "compress blocks addr rblocks b reads header_buf dv img width height raw bitsPerPixel ps =
     bindE (compressDv blocks addr reads header_buf dv width height raw bitsPerPixel ps) (\<lambda>(dv_out, qs).
     bindE (dv_release rblocks dv) (\<lambda>sent.
     bindE (future_release b img) (\<lambda>mm. Inr (dv_out, sent @ [mm], qs))))"

end
