(* ===== verification/Compressor_Part.thy ===== *)
theory Compressor_Part
  imports Image_Compressor
begin

text \<open>
  What one process of \<^verbatim>\<open>bsp_compress\<close> does, on images for which nothing overflows: its rows, its buffer and
  its gray bytes, which are those of the whole gray image.
\<close>

section \<open>Images\<close>

text \<open>
  Which images are compressed without failure on \<open>p\<close> processes: \<open>w\<close> times \<open>h\<close> pixels become \<open>cw\<close> times \<open>ch\<close> gray levels, and every process has at least as many rows of pixels as of gray
  levels. The last is so if \<open>ch\<close> divides \<open>h\<close>, but not in general, since all squares but the last are of the
  same height, rounded up.
\<close>

abbreviation rows_of :: "nat \<Rightarrow> nat \<Rightarrow> nat" where
  "rows_of h ch \<equiv> div_up h ch"

definition compress_ok :: "nat \<Rightarrow> nat \<Rightarrow> nat \<Rightarrow> nat \<Rightarrow> nat \<Rightarrow> nat \<Rightarrow> bool" where
  "compress_ok p w h cw ch bits \<longleftrightarrow> 0 < w \<and> 0 < cw \<and> cw \<le> w \<and> 0 < ch \<and> ch \<le> h \<and> bits \<le> 8 \<and>
     3 * (w * h) + 228 < 2 ^ 31 \<and> 0 < p \<and> p < 2 ^ 31 \<and>
     (\<forall>s<p. block_begin ch p s * rows_of h ch + block_size ch p s \<le> h)"

lemma compress_okD:
  assumes "compress_ok p w h cw ch bits"
  shows "0 < w" "0 < cw" "cw \<le> w" "0 < ch" "ch \<le> h" "bits \<le> 8" "3 * (w * h) + 228 < 2 ^ 31" "0 < p" "p < 2 ^ 31"
    "w * h < 2 ^ 31" "3 * w < 2 ^ 31" "3 * h < 2 ^ 31" "0 < h"
proof -
  have h: "0 < h" using assms by (auto simp: compress_ok_def)
  have w: "0 < w" and m: "3 * (w * h) + 228 < 2 ^ 31" using assms by (simp_all add: compress_ok_def)
  have "w * 1 \<le> w * h" "1 * h \<le> w * h" using h w by (intro mult_le_mono; simp)+
  then show "3 * w < 2 ^ 31" "3 * h < 2 ^ 31" "w * h < 2 ^ 31" using m by linarith+
qed (use assms in \<open>auto simp: compress_ok_def\<close>)

lemma rows_divide: "0 < ch \<Longrightarrow> ch dvd h \<Longrightarrow> s < p \<Longrightarrow> 0 < h \<Longrightarrow> block_begin ch p s * rows_of h ch + block_size ch p s \<le> h"
proof -
  assume a: "0 < ch" "ch dvd h" "s < p" "0 < h"
  then obtain k where k: "h = ch * k" by blast
  have "ch * k + ch - 1 = (ch - 1) + ch * k" using a(1) by simp
  moreover have "((ch - 1) + ch * k) div ch = k" by (subst div_mult_self2) (use a(1) in simp_all)
  ultimately have n: "rows_of h ch = k" by (simp only: div_up_def k)
  have "block_size ch p s * 1 \<le> block_size ch p s * k" using a(4) k by (intro mult_le_mono2) (simp add: Suc_leI)
  then have "block_begin ch p s * k + block_size ch p s \<le> (block_begin ch p s + block_size ch p s) * k" by (simp add: add_mult_distrib)
  also have "\<dots> \<le> ch * k" using block_size_le [OF a(3)] by (rule mult_le_mono1)
  finally show ?thesis using n by (simp add: k)
qed

text \<open>The rows of pixels of a process.\<close>

definition pixel_begin :: "nat \<Rightarrow> nat \<Rightarrow> nat \<Rightarrow> nat \<Rightarrow> nat" where
  "pixel_begin p h ch s = block_begin ch p s * rows_of h ch"

definition pixel_rows :: "nat \<Rightarrow> nat \<Rightarrow> nat \<Rightarrow> nat \<Rightarrow> nat" where
  "pixel_rows p h ch s = min ((block_begin ch p s + block_size ch p s) * rows_of h ch) h - pixel_begin p h ch s"

lemma row_bounds:
  assumes ok: "compress_ok p w h cw ch bits" and s: "s < p"
  shows "pixel_begin p h ch s + pixel_rows p h ch s \<le> h" "block_size ch p s \<le> pixel_rows p h ch s"
    "block_size ch p s * rows_of h ch \<le> pixel_rows p h ch s + h"
    "(block_begin ch p s + block_size ch p s) * rows_of h ch < 2 ^ 31" "pixel_begin p h ch s \<le> h"
    "block_begin ch p s + block_size ch p s \<le> ch" "block_size ch p s = 0 \<Longrightarrow> pixel_rows p h ch s = 0"
proof -
  note o = compress_okD [OF ok]
  let ?b = "block_begin ch p s" and ?n = "block_size ch p s" and ?r = "rows_of h ch"
  have fit: "?b * ?r + ?n \<le> h" using ok s by (simp add: compress_ok_def)
  show le: "?b + ?n \<le> ch" using block_size_le [OF s] .
  have r: "0 < ?r" "?r * ch < h + ch" using div_up_pos [OF o(13,4)] div_up_bounds [OF o(4), of h] by simp_all
  have "(?b + ?n) * ?r \<le> ?r * ch" using mult_le_mono1 [OF le, of ?r] by (simp add: mult.commute)
  then have top: "(?b + ?n) * ?r < h + h" using r(2) o(5) by linarith
  then show "(?b + ?n) * ?r < 2 ^ 31" using o(12) by linarith
  have nr: "?n * 1 \<le> ?n * ?r" using r(1) by (intro mult_le_mono2) simp
  show "pixel_begin p h ch s \<le> h" using fit by (simp add: pixel_begin_def)
  then show "pixel_begin p h ch s + pixel_rows p h ch s \<le> h" by (simp add: pixel_rows_def)
  show "?n \<le> pixel_rows p h ch s" using fit nr unfolding pixel_rows_def pixel_begin_def add_mult_distrib by linarith
  show "?n * ?r \<le> pixel_rows p h ch s + h" using fit top unfolding pixel_rows_def pixel_begin_def add_mult_distrib by linarith
  show "?n = 0 \<Longrightarrow> pixel_rows p h ch s = 0" by (simp add: pixel_rows_def pixel_begin_def)
qed

lemma ceil_quotient_eq: "0 < b \<Longrightarrow> a < 2 ^ 31 \<Longrightarrow> b < 2 ^ 31 \<Longrightarrow> ceil_quotient (of_nat a) (of_nat b) = Inr (of_nat (div_up a b))"
proof -
  assume h: "0 < b" "a < 2 ^ 31" "b < 2 ^ 31"
  then have "sint (of_nat b :: c_int) \<noteq> 0" by simp
  then have "(of_nat b :: c_int) \<noteq> 0" by (metis signed_0)
  moreover have "div_up a b < 2 ^ 31" using div_up_le [OF h(1), of a] h(2) by simp
  ultimately show ?thesis using h ceil_double_div [OF h(1,2)] by (simp add: ceil_quotient_def int_fits_of_nat)
qed

lemma part_rows_eq:
  assumes ok: "compress_ok p w h cw ch bits" and s: "s < p"
  shows "part_rows p s (of_nat h) (of_nat ch) (of_nat (rows_of h ch)) =
    Inr (of_nat (block_begin ch p s), of_nat (block_size ch p s), of_nat (pixel_begin p h ch s), of_nat (pixel_rows p h ch s))"
proof -
  note o = compress_okD [OF ok]
  let ?b = "block_begin ch p s" and ?n = "block_size ch p s" and ?r = "rows_of h ch"
  have ch: "ch < 2 ^ 31" and h: "h < 2 ^ 31" and r: "?r < 2 ^ 31" using o(4,5,12) div_up_le [OF o(4), of h] by simp_all
  have top: "(?b + ?n) * ?r < 2 ^ 31" "?b * ?r \<le> (?b + ?n) * ?r" using row_bounds(4) [OF ok s] by (simp_all add: mult_le_mono1)
  then have y1: "?b * ?r < 2 ^ 31" by linarith
  have m: "min (of_nat ((?b + ?n) * ?r)) (of_nat h) = (of_nat (min ((?b + ?n) * ?r) h) :: size_t)"
    using top(1) h by (simp add: min_def of_nat_size_le del: of_nat_mult of_nat_add)
  have e: "(of_nat ?b :: size_t) * of_nat ?r = of_nat (?b * ?r)" "(of_nat (?b + ?n) :: size_t) * of_nat ?r = of_nat ((?b + ?n) * ?r)" by simp_all
  have d: "(of_nat (?b + ?n) - of_nat ?b :: size_t) = of_nat ?n" by simp
  have n: "?n < 2 ^ 31" using row_bounds(6) [OF ok s] ch by simp
  have sub: "sub_int (of_nat (min ((?b + ?n) * ?r) h)) (of_nat (?b * ?r)) = Inr (of_nat (pixel_rows p h ch s))"
    unfolding pixel_rows_def pixel_begin_def using top row_bounds(5) [OF ok s] h by (intro sub_int_of_nat) (simp_all add: pixel_begin_def)
  show ?thesis
    unfolding part_rows_def Let_def scast_int_size [OF ch] scast_int_size [OF h] scast_int_size [OF r]
      div_range_eq [OF ch s o(9)] bindE_Inr prod.case e m d
    using y1 n top h sub by (simp add: pixel_begin_def min_less_iff_disj del: of_nat_mult of_nat_add)
qed

lemma pixel_bytes_eq:
  assumes "w < 2 ^ 31" "r < 2 ^ 31" "3 * (w * r) < 2 ^ 31"
  shows "pixel_bytes (of_nat w) (of_nat r) = Inr (of_nat (3 * (w * r)))"
proof -
  have "w * r < 2 ^ 31" using assms(3) by simp
  then have "mul_int (of_nat w) (of_nat r) = Inr (of_nat (w * r))" "(scast (of_nat (w * r) :: c_int) :: size_t) = of_nat (w * r)"
    using assms by (simp_all add: mul_int_of_nat del: of_nat_mult)
  moreover have "(of_nat (w * r) * 3 :: size_t) = of_nat (3 * (w * r))" by simp
  moreover have "(ucast (of_nat (3 * (w * r)) :: size_t) :: c_int) = of_nat (3 * (w * r))"
    using assms(3) by (intro ucast_size_int) simp
  ultimately show ?thesis unfolding pixel_bytes_def by (simp del: of_nat_mult)
qed

section \<open>Headers\<close>

definition ppm_header :: "nat \<Rightarrow> nat \<Rightarrow> byte list" where
  "ppm_header w h = chars ''P6 '' @ decimal w @ chars '' '' @ decimal h @ chars '' 255'' @ [10]"

definition pgm_header :: "nat \<Rightarrow> nat \<Rightarrow> nat \<Rightarrow> byte list" where
  "pgm_header cw ch bits = chars ''P5 '' @ decimal cw @ chars '' '' @ decimal ch @ chars '' '' @ decimal (2 ^ bits - 1) @ [10]"

lemma decimal_length_mono: "m \<le> n \<Longrightarrow> length (decimal m) \<le> length (decimal n)"
proof (induction n arbitrary: m rule: decimal.induct)
  case (1 n)
  show ?case
  proof (cases "m < 10")
    case True
    then have "length (decimal m) = 1" by (subst decimal.simps) simp
    then show ?thesis using decimal_not_Nil [of n] by (simp add: Suc_leI)
  next
    case False
    then have "length (decimal (m div 10)) \<le> length (decimal (n div 10))" using "1.prems" by (intro "1.IH") (simp_all add: div_le_mono)
    moreover have "length (decimal k) = Suc (length (decimal (k div 10)))" if "\<not> k < 10" for k using that by (subst decimal.simps) simp
    ultimately show ?thesis using False "1.prems" by simp
  qed
qed

lemma header_le:
  assumes "cw \<le> w" and "ch \<le> h" and "bits \<le> 8"
  shows "length (pgm_header cw ch bits) \<le> length (ppm_header w h)"
proof -
  have "(2 :: nat) ^ bits \<le> 2 ^ 8" using assms(3) by (rule power_increasing) simp
  then have "length (decimal (2 ^ bits - 1)) \<le> length (decimal 255)" by (intro decimal_length_mono) simp
  also have "\<dots> \<le> 3" by (intro length_decimal) simp_all
  finally show ?thesis
    using decimal_length_mono [OF assms(1)] decimal_length_mono [OF assms(2)] by (simp add: pgm_header_def ppm_header_def)
qed

lemma ppm_header_length: "w < 2 ^ 31 \<Longrightarrow> h < 2 ^ 31 \<Longrightarrow> length (ppm_header w h) \<le> 29"
  using length_decimal [of w 10] length_decimal [of h 10] by (simp add: ppm_header_def)

lemma compressed_header_eq:
  assumes "cw < 2 ^ 31" and "ch < 2 ^ 31" and "bits \<le> 8"
  shows "compressed_header (of_nat cw) (of_nat ch) (of_nat (2 ^ bits - 1)) = pgm_header cw ch bits"
proof -
  have "(2 :: nat) ^ bits \<le> 2 ^ 8" using assms(3) by (rule power_increasing) simp
  then have "(2 :: nat) ^ bits - 1 < 2 ^ 31" by simp
  then show ?thesis using assms(1,2) by (simp add: compressed_header_def pgm_header_def format_int_def del: of_nat_diff)
qed

lemma max_value_eq: "bits \<le> 8 \<Longrightarrow> max_value (of_nat bits) = Inr (of_nat (2 ^ bits - 1))"
  by (simp add: max_value_def)

section \<open>Preparing the buffer\<close>

definition has_params :: "nat \<Rightarrow> nat \<Rightarrow> nat \<Rightarrow> nat \<Rightarrow> bool \<Rightarrow> nat \<Rightarrow> compressor \<Rightarrow> bool" where
  "has_params w h cw ch raw bits o1 \<longleftrightarrow> mc_width o1 = of_nat w \<and> mc_height o1 = of_nat h \<and> mc_compress_width o1 = of_nat cw \<and>
     mc_compress_height o1 = of_nat ch \<and> mc_header_offset o1 = of_nat (length (ppm_header w h)) \<and> mc_qraw o1 = raw \<and>
     mc_bitsperPixel o1 = of_nat bits"

definition own_header :: "nat \<Rightarrow> nat \<Rightarrow> nat \<Rightarrow> bool \<Rightarrow> nat \<Rightarrow> byte list" where
  "own_header s cw ch raw bits = (if raw \<or> s \<noteq> 0 then [] else pgm_header cw ch bits)"

definition locals_of :: "nat \<Rightarrow> nat \<Rightarrow> nat \<Rightarrow> nat \<Rightarrow> nat \<Rightarrow> bool \<Rightarrow> nat \<Rightarrow> nat \<Rightarrow> part_locals" where
  "locals_of p w h cw ch raw bits s = \<lparr>pl_nrows = of_nat (rows_of h ch), pl_ncols = of_nat (rows_of w cw),
     pl_cpart_y1 = of_nat (block_begin ch p s), pl_cpart_height = of_nat (block_size ch p s),
     pl_part_y1 = of_nat (pixel_begin p h ch s), pl_part_height = of_nat (pixel_rows p h ch s),
     pl_part_size = of_nat (3 * (w * pixel_rows p h ch s)), pl_maxval = of_nat (2 ^ bits - 1),
     pl_header = length (own_header s cw ch raw bits), pl_data_size = 0, pl_data_offset = 0\<rparr>"

lemma part_size_bounds:
  assumes ok: "compress_ok p w h cw ch bits" and s: "s < p"
  shows "3 * (w * pixel_rows p h ch s) \<le> 3 * (w * h)" "pixel_rows p h ch s < 2 ^ 31"
    "length (own_header s cw ch raw bits) \<le> (if s = 0 then length (ppm_header w h) else 0)" "length (ppm_header w h) \<le> 29"
    "s = 0 \<Longrightarrow> 0 < pixel_rows p h ch s"
proof -
  note o = compress_okD [OF ok] and r = row_bounds [OF ok s]
  have "pixel_rows p h ch s \<le> h" using r(1) by simp
  then show "3 * (w * pixel_rows p h ch s) \<le> 3 * (w * h)" "pixel_rows p h ch s < 2 ^ 31" using o(12) by simp_all
  show "length (own_header s cw ch raw bits) \<le> (if s = 0 then length (ppm_header w h) else 0)"
    using header_le [OF o(3,5,6)] by (simp add: own_header_def)
  show "length (ppm_header w h) \<le> 29" using o(11,12) by (intro ppm_header_length) simp_all
  assume "s = 0"
  then have "0 < block_size ch p s" using o(4) by (cases "ch div p") (auto simp: block_size_def div_eq_0_iff)
  then show "0 < pixel_rows p h ch s" using r(2) by simp
qed

lemma prepare_part_eq:
  assumes ok: "compress_ok p w h cw ch bits" and s: "s < p" and pr: "has_params w h cw ch raw bits o1"
  shows "\<exists>part. prepare_part p s o1 = Inr (o1\<lparr>mc_part := part, mc_locals := locals_of p w h cw ch raw bits s\<rparr>) \<and>
    length part = 3 * (w * pixel_rows p h ch s) + (if s = 0 then length (ppm_header w h) else 0) \<and>
    take (length (own_header s cw ch raw bits)) part = own_header s cw ch raw bits"
proof -
  note o = compress_okD [OF ok] and b = part_size_bounds [OF ok s]
  let ?size = "3 * (w * pixel_rows p h ch s)" and ?hofs = "length (ppm_header w h)" and ?hdr = "own_header s cw ch raw bits"
  let ?n = "?size + (if s = 0 then ?hofs else 0)" and ?part = "vec_resize (?size + (if s = 0 then ?hofs else 0)) 0 (mc_part o1)"
  let ?prints = "\<not> raw \<and> s = 0"
  have lt: "w < 2 ^ 31" "h < 2 ^ 31" "cw < 2 ^ 31" "ch < 2 ^ 31" using o(3,5,11,12) by simp_all
  have "(if s = 0 then ?hofs else 0) \<le> 29" using b(4) by simp
  then have size: "?size < 2 ^ 31" "?n < 2 ^ 31" using b(1) o(7) by linarith+
  have q: "ceil_quotient (of_nat h) (of_nat ch) = Inr (of_nat (rows_of h ch))" "ceil_quotient (of_nat w) (of_nat cw) = Inr (of_nat (rows_of w cw))"
    using o(2,4) lt by (intro ceil_quotient_eq; simp)+
  have bytes: "pixel_bytes (of_nat w) (of_nat (pixel_rows p h ch s)) = Inr (of_nat ?size)" using lt b(2) size by (intro pixel_bytes_eq)
  have n: "(scast (of_nat ?size :: c_int) + (if s = 0 then scast (of_nat ?hofs :: c_int) else 0) :: size_t) = of_nat ?n"
    using scast_int_size [OF size(1)] scast_int_size [of ?hofs] b(4) by (cases "s = 0") (simp_all del: of_nat_mult)
  have hdr: "(if ?prints then compressed_header (of_nat cw) (of_nat ch) (of_nat (2 ^ bits - 1)) else []) = ?hdr"
    using compressed_header_eq [OF lt(3,4) o(6)] by (simp add: own_header_def)
  obtain part where part: "(if ?prints then mem_write 0 (?hdr @ [0]) ?part else Inr ?part) = Inr part" "length part = ?n" "take (length ?hdr) part = ?hdr"
  proof (cases ?prints)
    case True
    have "0 < 3 * (w * pixel_rows p h ch s)" using b(5) True o(1) by simp
    moreover have "length ?hdr \<le> ?hofs" "length ?part = ?size + ?hofs" using b(3) True by simp_all
    moreover have "length (?hdr @ [0]) = length ?hdr + 1" by simp
    ultimately have "length (?hdr @ [0]) \<le> length ?part" by linarith
    then show ?thesis using True that [of "poke 0 (?hdr @ [0]) ?part"] by (simp add: mem_write_def poke_def)
  next
    case False
    then have "?hdr = []" by (auto simp: own_header_def)
    then show ?thesis using that [of ?part] unfolding if_not_P [OF False] by simp
  qed
  have big: "?n < 2 ^ 64" "?n < 2 ^ 63" by (rule less_trans [OF size(2)], simp)+
  note small = unat_size_of_nat [OF big(1)] and le = big(2) [unfolded not_le [symmetric]]
  have "prepare_part p s o1 = Inr (o1\<lparr>mc_part := part, mc_locals := locals_of p w h cw ch raw bits s\<rparr>)"
    using pr unfolding prepare_part_def has_params_def locals_of_def
    by (simp only: q bindE_Inr part_rows_eq [OF ok s] prod.case bytes max_value_eq [OF o(6)] Let_def n small le hdr if_False simp_thms part(1))
  then show ?thesis using part(2,3) by blast
qed

section \<open>Reading the pixels\<close>

definition has_part :: "nat \<Rightarrow> nat \<Rightarrow> nat \<Rightarrow> nat \<Rightarrow> nat \<Rightarrow> bool \<Rightarrow> nat \<Rightarrow> nat \<Rightarrow> compressor \<Rightarrow> bool" where
  "has_part p w h cw ch raw bits s o1 \<longleftrightarrow> mc_width o1 = of_nat w \<and> mc_compress_width o1 = of_nat cw \<and> mc_qraw o1 = raw \<and>
     mc_locals o1 = locals_of p w h cw ch raw bits s \<and>
     length (mc_part o1) = 3 * (w * pixel_rows p h ch s) + (if s = 0 then length (ppm_header w h) else 0)"

definition has_pixels :: "nat \<Rightarrow> nat \<Rightarrow> nat \<Rightarrow> nat \<Rightarrow> nat \<Rightarrow> bool \<Rightarrow> nat \<Rightarrow> byte list \<Rightarrow> nat \<Rightarrow> compressor \<Rightarrow> bool" where
  "has_pixels p w h cw ch raw bits px s o1 \<longleftrightarrow> has_part p w h cw ch raw bits s o1 \<and>
     take (length (own_header s cw ch raw bits)) (mc_part o1) = own_header s cw ch raw bits \<and>
     peek (length (own_header s cw ch raw bits)) (3 * (w * pixel_rows p h ch s)) (mc_part o1) =
       peek (3 * (w * pixel_begin p h ch s)) (3 * (w * pixel_rows p h ch s)) px"

lemma pixel_range:
  assumes ok: "compress_ok p w h cw ch bits" and s: "s < p"
  shows "3 * (w * pixel_begin p h ch s) + 3 * (w * pixel_rows p h ch s) \<le> 3 * (w * h)"
    "length (ppm_header w h) + 3 * (w * pixel_begin p h ch s) < 2 ^ 31" "3 * (w * pixel_rows p h ch s) < 2 ^ 31"
    "pixel_begin p h ch s < 2 ^ 31" "w < 2 ^ 31" "pixel_rows p h ch s < 2 ^ 31"
proof -
  note o = compress_okD [OF ok] and r = row_bounds [OF ok s] and b = part_size_bounds [OF ok s]
  have "w * (pixel_begin p h ch s + pixel_rows p h ch s) \<le> w * h" using r(1) by (rule mult_le_mono2)
  then show "3 * (w * pixel_begin p h ch s) + 3 * (w * pixel_rows p h ch s) \<le> 3 * (w * h)" by (simp only: add_mult_distrib2)
  then show "length (ppm_header w h) + 3 * (w * pixel_begin p h ch s) < 2 ^ 31" "3 * (w * pixel_rows p h ch s) < 2 ^ 31"
    using o(7) b(4) by linarith+
  show "pixel_begin p h ch s < 2 ^ 31" "w < 2 ^ 31" using r(5) o(11,12) by linarith+
  show "pixel_rows p h ch s < 2 ^ 31" by (rule b(2))
qed

lemma pixels_to_read_eq:
  assumes ok: "compress_ok p w h cw ch bits" and s: "s < p" and dv: "mc_dv o1 = dv" "has_params w h cw ch raw bits o1"
    and part: "mc_locals o1 = locals_of p w h cw ch raw bits s"
      "length (mc_part o1) = 3 * (w * pixel_rows p h ch s) + (if s = 0 then length (ppm_header w h) else 0)"
  shows "\<exists>buf. pixels_to_read s o1 = Inr (dv, of_nat (length (ppm_header w h) + 3 * (w * pixel_begin p h ch s)),
    of_nat (3 * (w * pixel_rows p h ch s)), buf) \<and> length buf = 3 * (w * pixel_rows p h ch s)"
proof -
  note o = compress_okD [OF ok] and r = pixel_range [OF ok s] and b = part_size_bounds [OF ok s]
  let ?Y = "pixel_begin p h ch s" and ?n = "3 * (w * pixel_rows p h ch s)" and ?hdr = "own_header s cw ch raw bits"
  let ?buf = "peek (length ?hdr) ?n (mc_part o1)"
  have room: "length ?hdr + ?n \<le> length (mc_part o1)" using part(2) b(3) [of raw] by linarith
  then have read: "mem_read (mc_part o1) (length ?hdr) ?n = Inr ?buf" "length ?buf = ?n" by (simp_all add: mem_read_def length_peek)
  have y: "3 * (w * ?Y) < 2 ^ 31" using r(2) by linarith
  have off: "pixel_bytes (of_nat w) (of_nat ?Y) = Inr (of_nat (3 * (w * ?Y)))" by (rule pixel_bytes_eq [OF r(5,4) y])
  have "3 * (w * ?Y) + length (ppm_header w h) < 2 ^ 31" using r(2) by linarith
  note add = add_int_of_nat [OF this] and sc = scast_int_size [OF this]
  have n: "unat (of_nat ?n :: size_t) = ?n" using less_trans [OF r(3), of "2 ^ 64"] by (intro unat_size_of_nat) simp
  have "pixels_to_read s o1 = Inr (dv, of_nat (3 * (w * ?Y) + length (ppm_header w h)), of_nat ?n, ?buf)"
    using dv part(1) unfolding pixels_to_read_def has_params_def locals_of_def
    by (simp only: Let_def part_locals.select_convs scast_int_size [OF r(3)] n off bindE_Inr add read sc)
  then show ?thesis using read(2) by (simp only: add.commute) blast
qed

lemma put_pixels_eq:
  assumes ok: "compress_ok p w h cw ch bits" and s: "s < p" and pr: "has_params w h cw ch raw bits o1"
    and part: "mc_locals o1 = locals_of p w h cw ch raw bits s"
      "length (mc_part o1) = 3 * (w * pixel_rows p h ch s) + (if s = 0 then length (ppm_header w h) else 0)"
      "take (length (own_header s cw ch raw bits)) (mc_part o1) = own_header s cw ch raw bits"
    and px: "length px = 3 * (w * h)"
  shows "has_pixels p w h cw ch raw bits px s
    (put_pixels (peek (length (ppm_header w h) + 3 * (w * pixel_begin p h ch s)) (3 * (w * pixel_rows p h ch s)) (ppm_header w h @ px)) o1)"
proof -
  note r = pixel_range [OF ok s] and b = part_size_bounds [OF ok s]
  let ?n = "3 * (w * pixel_rows p h ch s)" and ?hdr = "own_header s cw ch raw bits"
  let ?bs = "peek (3 * (w * pixel_begin p h ch s)) ?n px"
  have bs: "length ?bs = ?n" using r(1) px by (simp add: length_peek)
  have room: "length ?hdr + ?n \<le> length (mc_part o1)" using part(2) b(3) [of raw] by linarith
  have "take (length ?hdr) (poke (length ?hdr) ?bs (mc_part o1)) = ?hdr" using room part(3) by (simp add: poke_def)
  moreover have "peek (length ?hdr) ?n (poke (length ?hdr) ?bs (mc_part o1)) = ?bs" using room bs by (simp add: peek_def poke_def)
  moreover have "length (poke (length ?hdr) ?bs (mc_part o1)) = length (mc_part o1)" using room bs by (simp add: length_poke)
  ultimately show ?thesis
    using pr part(1,2) by (simp add: has_pixels_def has_part_def put_pixels_def has_params_def peek_append_right locals_of_def)
qed

section \<open>The gray bytes\<close>

text \<open>The square of a part is a square of the whole image.\<close>

lemma gray_part:
  assumes Y: "Y = y1 * nrows" "Y \<le> h" and ph: "ph = min ((y1 + n) * nrows) h - Y" and r: "r < n"
    and sub: "\<And>i. i < 3 * (w * ph) \<Longrightarrow> sub ! i = px ! (3 * (w * Y) + i)"
  shows "gray sub w ph nrows ncols maxval r c = gray px w h nrows ncols maxval (y1 + r) c"
proof -
  have "(r + 1) * nrows \<le> n * nrows" using r by (intro mult_le_mono1) simp
  then have e: "min (r * nrows + nrows) ph = min (Y + r * nrows + nrows) h - Y" unfolding ph Y(1) by (simp add: add_mult_distrib)
  have mean: "pixel_mean sub w (y, x) = pixel_mean px w (Y + y, x)" if "y < ph" "x < w" for y x
  proof -
    have "y * w + x < ph * w" using that by (rule row_index)
    then have i: "3 * (y * w + x) + 2 < 3 * (w * ph)" by (simp add: mult.commute)
    have "3 * ((Y + y) * w + x) = 3 * (w * Y) + 3 * (y * w + x)" by (simp add: add_mult_distrib distrib_left mult.commute)
    then show ?thesis using sub [of "3 * (y * w + x)"] sub [of "3 * (y * w + x) + 1"] sub [of "3 * (y * w + x) + 2"] i
      by (simp add: pixel_mean_def Let_def add.assoc)
  qed
  let ?x1 = "c * ncols" and ?x2 = "min (c * ncols + ncols) w" let ?k = "Y + r * nrows" and ?l = "min (Y + r * nrows + nrows) h"
  have "map (\<lambda>y. Y + y) [a..<m - Y] = [Y + a..<m]" for a m by (rule nth_equalityI) auto
  then have rows: "map (\<lambda>y. Y + y) [r * nrows..<?l - Y] = [?k..<?l]" .
  have "map (pixel_mean sub w) (square_at w ph nrows ncols r c) =
      concat (map (\<lambda>y. map (\<lambda>x. pixel_mean px w (Y + y, x)) [?x1..<?x2]) [r * nrows..<?l - Y])"
    unfolding square_at_def square_def e map_concat map_map comp_def using mean e by (intro arg_cong [of _ _ concat] map_cong) auto
  also have "\<dots> = concat (map (\<lambda>y. map (\<lambda>x. pixel_mean px w (y, x)) [?x1..<?x2]) (map (\<lambda>y. Y + y) [r * nrows..<?l - Y]))"
    by (simp add: comp_def)
  also have "\<dots> = concat (map (\<lambda>y. map (\<lambda>x. pixel_mean px w (y, x)) [?x1..<?x2]) [?k..<?l])" by (simp only: rows)
  also have "\<dots> = map (pixel_mean px w) (square_at w h nrows ncols (y1 + r) c)"
    by (simp add: square_at_def square_def map_concat comp_def Y(1) add_mult_distrib)
  finally show ?thesis by (simp add: gray_def)
qed

definition compressed_pixels :: "nat \<Rightarrow> nat \<Rightarrow> nat \<Rightarrow> nat \<Rightarrow> nat \<Rightarrow> byte list \<Rightarrow> byte list" where
  "compressed_pixels w h cw ch bits px = gray_image px w h (rows_of h ch) (rows_of w cw) (2 ^ bits - 1) ch cw"

lemma length_compressed_pixels [simp]: "length (compressed_pixels w h cw ch bits px) = ch * cw"
  by (simp add: compressed_pixels_def)

lemma peek_rows:
  assumes "\<And>r. length (f r) = cw" and "y + n \<le> ch"
  shows "peek (y * cw) (n * cw) (concat (map f [0..<ch])) = concat (map f [y..<y + n])"
proof -
  have "drop (y * cw) (concat (map f [0..<ch])) = concat (map f [y..<ch])"
    using drop_concat_fixed [of f cw y "[0..<ch]"] assms by (simp add: mult.commute drop_upt)
  moreover have "take (n * cw) (concat (map f [y..<ch])) = concat (map f [y..<y + n])"
    using take_concat_fixed [of f cw n "[y..<ch]"] assms by (simp add: mult.commute take_upt)
  ultimately show ?thesis by (simp add: peek_def)
qed

lemma part_kernel_fits:
  assumes ok: "compress_ok p w h cw ch bits" and s: "s < p"
    and len: "length part = 3 * (w * pixel_rows p h ch s) + (if s = 0 then length (ppm_header w h) else 0)"
  shows "kernel_fits (length (own_header s cw ch raw bits)) w h (pixel_rows p h ch s) (rows_of w cw) (rows_of h ch) (block_size ch p s) cw part"
proof -
  note o = compress_okD [OF ok] and r = row_bounds [OF ok s] and b = part_size_bounds [OF ok s]
  let ?ph = "pixel_rows p h ch s" and ?n = "block_size ch p s"
  have room: "length (own_header s cw ch raw bits) + 3 * (w * ?ph) \<le> length part" using len b(3) [of raw] by linarith
  have "?n * cw \<le> ?ph * w" using r(2) o(3) by (rule mult_le_mono)
  then have gray: "length (own_header s cw ch raw bits) + ?n * cw \<le> length part" using room by (simp add: mult.commute)
  have n: "0 < rows_of h ch" "0 < rows_of w cw" using o(1,2,4,13) by (simp_all add: div_up_pos)
  have "1 * w \<le> rows_of h ch * w" using n(1) by (intro mult_le_mono1) simp
  then have "cw \<le> 3 * (rows_of h ch * w)" using o(3) by linarith
  moreover have "cw * rows_of w cw \<le> 2 * w" using div_up_bounds [OF o(2), of w] o(3) by (simp add: mult.commute)
  moreover have "?ph \<le> h" using r(1) by linarith
  ultimately show ?thesis using room gray n(2) r(3) o(10,11,12) by (simp add: kernel_fits_def)
qed

lemma compress_part_runs:
  assumes ok: "compress_ok p w h cw ch bits" and s: "s < p" and part: "has_part p w h cw ch raw bits s o1"
  shows "compress_part s o1 = Inr (o1\<lparr>mc_part := poke (length (own_header s cw ch raw bits))
    (gray_image (drop (length (own_header s cw ch raw bits)) (mc_part o1)) w (pixel_rows p h ch s) (rows_of h ch) (rows_of w cw) (2 ^ bits - 1)
      (block_size ch p s) cw) (mc_part o1)\<rparr>)"
    and "length (own_header s cw ch raw bits) + block_size ch p s * cw \<le> length (mc_part o1)"
    and "length (own_header s cw ch raw bits) + 3 * (w * pixel_rows p h ch s) \<le> length (mc_part o1)"
proof -
  note o = compress_okD [OF ok] and r = row_bounds [OF ok s] and rng = pixel_range [OF ok s]
  let ?hdr = "own_header s cw ch raw bits" and ?ph = "pixel_rows p h ch s" and ?n = "block_size ch p s"
  let ?nr = "rows_of h ch" and ?nc = "rows_of w cw" and ?max = "2 ^ bits - 1 :: nat"
  have len: "length (mc_part o1) = 3 * (w * ?ph) + (if s = 0 then length (ppm_header w h) else 0)"
    and loc: "mc_locals o1 = locals_of p w h cw ch raw bits s" "mc_width o1 = of_nat w" "mc_compress_width o1 = of_nat cw"
    using part by (simp_all add: has_part_def)
  have fits: "kernel_fits (length ?hdr) w h ?ph ?nc ?nr ?n cw (mc_part o1)" by (rule part_kernel_fits [OF ok s len])
  then show "length ?hdr + ?n * cw \<le> length (mc_part o1)" "length ?hdr + 3 * (w * ?ph) \<le> length (mc_part o1)" by (simp_all add: kernel_fits_def)
  have "(2 :: nat) ^ bits \<le> 2 ^ 8" using o(6) by (rule power_increasing) simp
  then have max: "?max \<le> 255" by simp
  have small: "w < 2 ^ 31" "?ph < 2 ^ 31" "?nc < 2 ^ 31" "?nr < 2 ^ 31" "?n < 2 ^ 31" "cw < 2 ^ 31"
    using rng(5,6) div_up_le [OF o(2), of w] div_up_le [OF o(4), of h] r(6) o(3,5,11,12) by linarith+
  have max_small: "?max < 2 ^ 31" by (rule le_less_trans [OF max]) simp
  show "compress_part s o1 = Inr (o1\<lparr>mc_part := poke (length ?hdr) (gray_image (drop (length ?hdr) (mc_part o1)) w ?ph ?nr ?nc ?max ?n cw) (mc_part o1)\<rparr>)"
    unfolding compress_part_def loc locals_of_def
    by (simp only: Let_def part_locals.select_convs sint_of_nat_small [OF small(1)] sint_of_nat_small [OF small(2)] sint_of_nat_small [OF small(3)]
        sint_of_nat_small [OF small(4)] sint_of_nat_small [OF small(5)] sint_of_nat_small [OF small(6)] sint_of_nat_small [OF max_small]
        compress_loop_eq [OF fits max] bindE_Inr)
qed

lemma compress_part_eq:
  assumes ok: "compress_ok p w h cw ch bits" and s: "s < p" and pix: "has_pixels p w h cw ch raw bits px s o1" and px: "length px = 3 * (w * h)"
  shows "\<exists>part. compress_part s o1 = Inr (o1\<lparr>mc_part := part\<rparr>) \<and>
    length (own_header s cw ch raw bits) + block_size ch p s * cw \<le> length part \<and>
    take (length (own_header s cw ch raw bits) + block_size ch p s * cw) part = own_header s cw ch raw bits @
      peek (block_begin ch p s * cw) (block_size ch p s * cw) (compressed_pixels w h cw ch bits px)"
proof -
  note r = row_bounds [OF ok s] and rng = pixel_range [OF ok s]
  let ?hdr = "own_header s cw ch raw bits" and ?ph = "pixel_rows p h ch s" and ?n = "block_size ch p s" and ?y1 = "block_begin ch p s"
  let ?nr = "rows_of h ch" and ?nc = "rows_of w cw" and ?max = "2 ^ bits - 1 :: nat" and ?part = "mc_part o1" and ?Y = "pixel_begin p h ch s"
  have part: "has_part p w h cw ch raw bits s o1" and hdr: "take (length ?hdr) ?part = ?hdr"
    and peek: "peek (length ?hdr) (3 * (w * ?ph)) ?part = peek (3 * (w * ?Y)) (3 * (w * ?ph)) px"
    using pix by (simp_all add: has_pixels_def)
  note run = compress_part_runs [OF ok s part]
  have sub: "drop (length ?hdr) ?part ! i = px ! (3 * (w * ?Y) + i)" if i: "i < 3 * (w * ?ph)" for i
  proof -
    have "peek (length ?hdr) (3 * (w * ?ph)) ?part ! i = drop (length ?hdr) ?part ! i" using i run(3) by (simp add: peek_def)
    moreover have "peek (3 * (w * ?Y)) (3 * (w * ?ph)) px ! i = px ! (3 * (w * ?Y) + i)" using i rng(1) px by (intro nth_peek) simp_all
    ultimately show ?thesis using peek by simp
  qed
  have "gray (drop (length ?hdr) ?part) w ?ph ?nr ?nc ?max q c = gray px w h ?nr ?nc ?max (?y1 + q) c" if "q < ?n" for q c
    using r(5) that sub by (intro gray_part [where Y = ?Y and n = ?n]) (simp_all add: pixel_begin_def pixel_rows_def)
  then have "gray_image (drop (length ?hdr) ?part) w ?ph ?nr ?nc ?max ?n cw =
      concat (map (\<lambda>q. map (gray px w h ?nr ?nc ?max (?y1 + q)) [0..<cw]) [0..<?n])"
    unfolding gray_image_def by (intro arg_cong [of _ _ concat] map_cong) auto
  also have "\<dots> = concat (map (\<lambda>q. map (gray px w h ?nr ?nc ?max q) [0..<cw]) [?y1..<?y1 + ?n])"
    by (intro arg_cong [of _ _ concat] nth_equalityI) auto
  also have "\<dots> = peek (?y1 * cw) (?n * cw) (compressed_pixels w h cw ch bits px)"
    unfolding compressed_pixels_def gray_image_def using r(6) by (intro peek_rows [symmetric]) simp_all
  finally have gray: "gray_image (drop (length ?hdr) ?part) w ?ph ?nr ?nc ?max ?n cw = peek (?y1 * cw) (?n * cw) (compressed_pixels w h cw ch bits px)" .
  let ?out = "poke (length ?hdr) (gray_image (drop (length ?hdr) ?part) w ?ph ?nr ?nc ?max ?n cw) ?part"
  have "take (length ?hdr + ?n * cw) ?out = ?hdr @ peek (?y1 * cw) (?n * cw) (compressed_pixels w h cw ch bits px)"
    using run(2) hdr gray by (simp add: poke_def) (simp flip: gray)
  moreover have "length ?hdr + ?n * cw \<le> length ?out" using run(2) by (simp add: length_poke)
  ultimately show ?thesis using run(1) by blast
qed

text \<open>The products and sums with which the code computes sizes and offsets of gray levels.\<close>

lemma range_arith:
  assumes ok: "compress_ok p w h cw ch bits" and s: "s < p" and H: "H \<le> 29"
  shows "mul_int (of_nat cw) (of_nat (block_size ch p s)) = Inr (of_nat (block_size ch p s * cw))"
    and "(ucast (of_nat (block_begin ch p s) * scast (of_nat cw :: c_int) :: size_t) :: c_int) = of_nat (block_begin ch p s * cw)"
    and "add_int (of_nat H) (of_nat (block_size ch p s * cw)) = Inr (of_nat (H + block_size ch p s * cw))"
    and "add_int (of_nat H) (of_nat (block_begin ch p s * cw)) = Inr (of_nat (H + block_begin ch p s * cw))"
    and "H + block_begin ch p s * cw < 2 ^ 31" and "H + block_size ch p s * cw < 2 ^ 31"
proof -
  note o = compress_okD [OF ok] and r = row_bounds [OF ok s]
  let ?n = "block_size ch p s" and ?b = "block_begin ch p s"
  have "ch * cw \<le> h * w" using o(3,5) by (intro mult_le_mono)
  then have img: "ch * cw + H < 2 ^ 31" using o(7) H by (simp add: mult.commute)
  have "(?b + ?n) * cw \<le> ch * cw" using r(6) by (rule mult_le_mono1)
  then show le: "H + ?b * cw < 2 ^ 31" "H + ?n * cw < 2 ^ 31" using img unfolding add_mult_distrib by linarith+
  then have cw: "cw < 2 ^ 31" "?n < 2 ^ 31" "?n * cw < 2 ^ 31" "?b * cw < 2 ^ 32" using o(3,5,11,12) r(6) by simp_all
  show "mul_int (of_nat cw) (of_nat ?n) = Inr (of_nat (?n * cw))" using cw by (subst mult.commute) (intro mul_int_of_nat; simp add: mult.commute)
  have "(of_nat ?b * scast (of_nat cw :: c_int) :: size_t) = of_nat (?b * cw)" using cw by simp
  then show "(ucast (of_nat ?b * scast (of_nat cw :: c_int) :: size_t) :: c_int) = of_nat (?b * cw)" using cw(4) by (simp only: ucast_size_int)
  show "add_int (of_nat H) (of_nat (?n * cw)) = Inr (of_nat (H + ?n * cw))" "add_int (of_nat H) (of_nat (?b * cw)) = Inr (of_nat (H + ?b * cw))"
    using le by (intro add_int_of_nat; simp)+
qed

lemma result_range_eq:
  assumes ok: "compress_ok p w h cw ch bits" and s: "s < p" and o1: "mc_compress_width o1 = of_nat cw" "mc_header_offset o1 = of_nat H" "H \<le> 29"
    "mc_locals o1 = locals_of p w h cw ch raw bits s"
  shows "result_range s o1 = Inr (o1\<lparr>mc_locals := (locals_of p w h cw ch raw bits s)\<lparr>
    pl_data_size := of_nat ((if s = 0 then H else 0) + block_size ch p s * cw),
    pl_data_offset := of_nat ((if s = 0 then 0 else H) + block_begin ch p s * cw)\<rparr>\<rparr>)"
  unfolding result_range_def o1 Let_def locals_of_def
  using range_arith(1-4) [OF ok s o1(3)] by (cases "s = 0") (simp_all del: of_nat_mult of_nat_add)

end
