(* ===== verification/Compressed_Image.thy ===== *)
theory Compressed_Image
  imports Compressor_Part
begin

text \<open>
  \<^verbatim>\<open>compressDv\<close> on all processes: the header is parsed, every process compresses its rows, and the description
  of the result is that of the compressed image, which does not depend on the number of processes, as long as
  each of them has rows to compress.
\<close>

section \<open>Parsing the header\<close>

lemma is_digit_bounds: "is_digit b \<Longrightarrow> b \<noteq> 0 \<and> b \<noteq> 10 \<and> b \<noteq> 43 \<and> b \<noteq> 45 \<and> \<not> is_space b"
  by (auto simp: is_digit_def is_space_def)

lemma decimal_head: "\<exists>d ds. decimal n = d # ds \<and> is_digit d"
  using decimal_digits [of "hd (decimal n)" n] by (cases "decimal n") auto

lemma scan_int_decimal:
  assumes "n < 2 ^ 31" and "\<not> is_digit c"
  shows "scan_int (32 # decimal n @ c # rest) = Inr (Some (of_nat n, c # rest))" "scan_int (decimal n @ c # rest) = Inr (Some (of_nat n, c # rest))"
proof -
  obtain d ds where d: "decimal n = d # ds" "is_digit d" using decimal_head by blast
  have tw: "takeWhile is_digit (decimal n @ c # rest) = decimal n" "dropWhile is_digit (decimal n @ c # rest) = c # rest"
    using assms(2) decimal_digits [of _ n] by (simp_all add: takeWhile_append2 dropWhile_append2)
  have dw: "dropWhile is_space (decimal n @ c # rest) = decimal n @ c # rest" using is_digit_bounds [OF d(2)] by (simp add: d(1))
  have hd: "decimal n @ c # rest = d # (ds @ c # rest)" by (simp add: d(1))
  have "int_fits (int n)" using assms(1) by (rule int_fits_of_nat)
  moreover have nd: "(d = 43) = False" "(d = 45) = False" using is_digit_bounds [OF d(2)] by simp_all
  have "scan_int (decimal n @ c # rest) = (if int_fits (int n) then Inr (Some (of_int (int n), c # rest)) else Inl Int_overflow)"
    unfolding hd scan_int_def dw [unfolded hd] by (simp only: list.case Let_def nd simp_thms if_False tw [unfolded hd] undecimal_decimal decimal_not_Nil list.distinct hd)
  ultimately show "scan_int (decimal n @ c # rest) = Inr (Some (of_nat n, c # rest))" by simp
  moreover have "is_space 32" by (simp add: is_space_def)
  ultimately show "scan_int (32 # decimal n @ c # rest) = Inr (Some (of_nat n, c # rest))" by (simp add: scan_int_def)
qed

lemma strchr_eq: "c \<notin> set xs \<Longrightarrow> 0 \<notin> set xs \<Longrightarrow> strchr c (xs @ c # ys) = Inr (length xs)"
  by (induction xs) auto

lemma header_parsed:
  assumes "w < 2 ^ 31" and "h < 2 ^ 31"
  shows "scan_header (ppm_header w h @ rest) w0 h0 = Inr (of_nat w, of_nat h)"
    and "strchr 10 (ppm_header w h @ rest) = Inr (length (ppm_header w h) - 1)"
proof -
  let ?a = "chars ''P6 '' @ decimal w @ chars '' '' @ decimal h @ chars '' 255''"
  have "\<not> is_digit 32" by (simp add: is_digit_def)
  note scan = scan_int_decimal [OF assms(1) this] scan_int_decimal [OF assms(2) this]
  have eq: "ppm_header w h @ rest = 80 # 54 # 32 # decimal w @ 32 # decimal h @ 32 # 50 # 53 # 53 # 10 # rest"
    by (simp add: ppm_header_def)
  show "scan_header (ppm_header w h @ rest) w0 h0 = Inr (of_nat w, of_nat h)"
    unfolding eq by (simp add: scan_sizes_def scan)
  have "10 \<notin> set (decimal k) \<and> 0 \<notin> set (decimal k)" for k using decimal_digits [of _ k] is_digit_bounds by blast
  then have "10 \<notin> set ?a" "0 \<notin> set ?a" by simp_all
  then have "strchr 10 (?a @ 10 # rest) = Inr (length ?a)" by (rule strchr_eq)
  then show "strchr 10 (ppm_header w h @ rest) = Inr (length (ppm_header w h) - 1)" by (simp add: ppm_header_def)
qed

section \<open>The invariant\<close>

definition mc_inv :: "compressor \<Rightarrow> bool" where
  "mc_inv o1 \<longleftrightarrow> (\<exists>m. nparts (mc_dv o1) = Inr m) \<and>
     (mc_log_base_len o1 = 0 \<or> unat (mc_log_base_len o1) + 26 \<le> length (mc_logpath o1))"

definition mc_group :: "compressor actor_base list \<Rightarrow> bool" where
  "mc_group ps \<longleftrightarrow> group_in_step ps \<and> 0 < length ps \<and> length ps < 2 ^ 31 \<and> (\<forall>s<length ps. mc_inv (objs ps ! s))"

text \<open>What the steps of \<^verbatim>\<open>bsp_compress\<close> leave alone.\<close>

definition mc_same :: "compressor \<Rightarrow> compressor \<Rightarrow> bool" where
  "mc_same o1 o2 \<longleftrightarrow> mc_dv o2 = mc_dv o1 \<and> mc_log_base_len o2 = mc_log_base_len o1 \<and> length (mc_logpath o2) = length (mc_logpath o1)"

lemma mc_same_inv: "mc_same o1 o2 \<Longrightarrow> mc_inv o1 \<Longrightarrow> mc_inv o2"
  by (auto simp: mc_same_def mc_inv_def)

lemma steps_same:
  "prepare_part p s o1 = Inr o2 \<Longrightarrow> mc_same o1 o2" "mc_same o1 (put_pixels buf o1)" "mc_same o1 (o1\<lparr>mc_header_offset := k\<rparr>)"
  "compress_part s o1 = Inr o2 \<Longrightarrow> mc_same o1 o2" "result_range s o1 = Inr o2 \<Longrightarrow> mc_same o1 o2"
  by (auto simp: mc_same_def prepare_part_def put_pixels_def compress_part_def result_range_def Let_def bindE_def split: sum.splits if_splits)

lemma compressor_open_log_eq:
  assumes "mc_inv o1" and "s < 2 ^ 31"
  shows "\<exists>lp. compressor_open_log s o1 = Inr (o1\<lparr>mc_logpath := lp\<rparr>) \<and> length lp = length (mc_logpath o1)"
proof -
  let ?bs = "chars ''_bsp_compress_p'' @ decimal s @ [0]"
  have "length ?bs \<le> 26" using length_decimal [of s 10] assms(2) by simp
  then have "mc_log_base_len o1 \<noteq> 0 \<Longrightarrow> unat (mc_log_base_len o1) + length ?bs \<le> length (mc_logpath o1)"
    using assms(1) by (auto simp: mc_inv_def)
  then show ?thesis
    by (cases "mc_log_base_len o1 = 0") (auto simp: compressor_open_log_def mem_write_def poke_def intro: exI [of _ "mc_logpath o1"])
qed

section \<open>Up to the reading of the pixels\<close>

definition compress_front :: "(nat \<Rightarrow> reader) \<Rightarrow> compressor actor_base list \<Rightarrow> compressor actor_base list result" where
  "compress_front reads ps =
     bindE (on_all compressor_open_log ps) (\<lambda>ps1.
     bindE (broadcast_member mc_dv (\<lambda>dv o1. o1\<lparr>mc_dv := dv\<rparr>) ps1) (\<lambda>ps2.
     bindE (on_all (prepare_part (length ps)) (get_from_head copy_params ps2)) (read_all_parts reads pixels_to_read put_pixels)))"

lemma bsp_compress_split:
  "bsp_compress blocks addr reads ps = bindE (compress_front reads ps) (\<lambda>ps4.
     bindE (share_header_offset ps4) (\<lambda>ps5.
     bindE (on_all compress_part ps5) (\<lambda>ps6.
     bindE (on_all result_range ps6) (\<lambda>ps7.
     bindE (register_all_parts 1 blocks addr registered_range ps7) (\<lambda>ps8. Inr (sync_all ps8))))))"
  by (simp add: bsp_compress_def compress_front_def)

text \<open>Before the processes prepare their parts.\<close>

lemma compress_shared:
  assumes grp: "mc_group ps" and head: "mc_dv (objs ps ! 0) = vd_bytes parts" "has_params w h cw ch raw bits (objs ps ! 0)"
    and small: "vd_small (length parts)"
  shows "\<exists>ps1 ps2. on_all compressor_open_log ps = Inr ps1 \<and> broadcast_member mc_dv (\<lambda>dv o1. o1\<lparr>mc_dv := dv\<rparr>) ps1 = Inr ps2 \<and>
    length (get_from_head copy_params ps2) = length ps \<and> map actor_frame (get_from_head copy_params ps2) = map actor_frame ps \<and>
    group_in_step (get_from_head copy_params ps2) \<and>
    (\<forall>s<length ps. mc_dv (objs (get_from_head copy_params ps2) ! s) = vd_bytes parts \<and>
      has_params w h cw ch raw bits (objs (get_from_head copy_params ps2) ! s) \<and> mc_inv (objs (get_from_head copy_params ps2) ! s))"
proof -
  let ?p = "length ps" and ?put = "\<lambda>dv o1. o1\<lparr>mc_dv := dv\<rparr>"
  have p: "0 < ?p" "?p < 2 ^ 31" and step: "group_in_step ps" and inv: "\<And>s. s < ?p \<Longrightarrow> mc_inv (objs ps ! s)"
    using grp by (simp_all add: mc_group_def)
  have "\<exists>ps1. on_all compressor_open_log ps = Inr ps1 \<and> length ps1 = ?p \<and> (\<forall>s<?p. \<exists>lp. objs ps1 ! s = (objs ps ! s)\<lparr>mc_logpath := lp\<rparr> \<and> length lp = length (mc_logpath (objs ps ! s))) \<and>
      map step_view ps1 = map step_view ps \<and> map actor_frame ps1 = map actor_frame ps"
  proof (rule on_all_ex)
    fix s assume "s < ?p"
    then show "\<exists>o2. compressor_open_log s (objs ps ! s) = Inr o2 \<and>
        (\<exists>lp. o2 = (objs ps ! s)\<lparr>mc_logpath := lp\<rparr> \<and> length lp = length (mc_logpath (objs ps ! s)))"
      using compressor_open_log_eq [OF inv, of s s] p(2) by fastforce
  qed
  then obtain ps1 where p1: "on_all compressor_open_log ps = Inr ps1" "length ps1 = ?p"
    "\<And>s. s < ?p \<Longrightarrow> \<exists>lp. objs ps1 ! s = (objs ps ! s)\<lparr>mc_logpath := lp\<rparr> \<and> length lp = length (mc_logpath (objs ps ! s))"
    "map step_view ps1 = map step_view ps" "map actor_frame ps1 = map actor_frame ps" by blast
  have dv1: "mc_dv (objs ps1 ! s) = mc_dv (objs ps ! s)" if "s < ?p" for s using p1(3) [OF that] by auto
  obtain a rest where ps1: "ps1 = a # rest" using p(1) p1(2) by (cases ps1) auto
  have a: "mc_dv (ab_obj a) = vd_bytes parts" using dv1 [OF p(1)] head(1) by (simp add: ps1)
  have "\<exists>n. nparts (mc_dv (objs ps1 ! s)) = Inr n" if "s < ?p" for s using inv [OF that] dv1 [OF that] by (simp add: mc_inv_def)
  then have defined: "\<forall>b\<in>set ps1. \<exists>n. nparts (mc_dv (ab_obj b)) = Inr n" using p1(2) by (auto simp: in_set_conv_nth)
  have step1: "group_in_step ps1" using in_step_view [OF p1(4) step] .
  obtain ps2 where p2: "broadcast_member mc_dv ?put ps1 = Inr ps2" "map actor_frame ps2 = map actor_frame ps1" "group_in_step ps2"
    "objs ps2 = map (\<lambda>b. ?put (vd_bytes parts) (ab_obj b)) ps1"
    using broadcast_member_eq [where put_dv = ?put, OF step1 ps1 a small defined] by auto
  let ?ps3 = "get_from_head copy_params ps2"
  have l2: "length ps2 = ?p" using arg_cong [OF p2(4), of length] p1(2) by simp
  then have l3: "length ?ps3 = ?p" using arg_cong [OF objs_get_from_head [of copy_params ps2], of length] by simp
  have nth2: "objs ps2 ! s = ?put (vd_bytes parts) (objs ps1 ! s)" if "s < ?p" for s using that p1(2) p2(4) by simp
  obtain lp where lp: "objs ps1 ! 0 = (objs ps ! 0)\<lparr>mc_logpath := lp\<rparr>" using p1(3) [OF p(1)] by blast
  have "mc_dv (objs ?ps3 ! s) = vd_bytes parts \<and> has_params w h cw ch raw bits (objs ?ps3 ! s)" if s: "s < ?p" for s
    unfolding objs_get_from_head using s l2 nth2 [OF s] nth2 [OF p(1)] lp head(2) by (auto simp: copy_params_def has_params_def)
  moreover have "mc_inv (objs ?ps3 ! s)" if s: "s < ?p" for s
  proof -
    have "mc_inv (objs ps2 ! s)" unfolding nth2 [OF s] using p1(3) [OF s] inv [OF s] small by (auto simp: mc_inv_def nparts_eq)
    then show ?thesis unfolding objs_get_from_head using s l2 by (auto simp: copy_params_def mc_inv_def)
  qed
  moreover have "map actor_frame ?ps3 = map actor_frame ps" using p2(2) p1(5) by simp
  ultimately show ?thesis using p1(1) p2(1) l3 in_step_get_from_head [OF p2(3), of copy_params] by blast
qed

lemma compress_front_eq:
  assumes grp: "mc_group ps" and head: "mc_dv (objs ps ! 0) = vd_bytes parts" "has_params w h cw ch raw bits (objs ps ! 0)"
    and small: "vd_small (length parts)" and reads: "\<forall>s<length ps. reads_vector (reads s) (vd_bytes parts) (ppm_header w h @ px)"
    and ok: "compress_ok (length ps) w h cw ch bits" and px: "length px = 3 * (w * h)"
  shows "\<exists>qs. compress_front reads ps = Inr qs \<and> length qs = length ps \<and> map result_view qs = map result_view ps \<and> group_in_step qs \<and>
    (\<forall>s<length ps. has_pixels (length ps) w h cw ch raw bits px s (objs qs ! s) \<and> mc_inv (objs qs ! s))"
proof -
  let ?p = "length ps" and ?v = "ppm_header w h @ px"
  obtain ps1 ps2 where p2: "on_all compressor_open_log ps = Inr ps1" "broadcast_member mc_dv (\<lambda>dv o1. o1\<lparr>mc_dv := dv\<rparr>) ps1 = Inr ps2"
    "length (get_from_head copy_params ps2) = ?p" "map actor_frame (get_from_head copy_params ps2) = map actor_frame ps"
    "group_in_step (get_from_head copy_params ps2)"
    "\<And>s. s < ?p \<Longrightarrow> mc_dv (objs (get_from_head copy_params ps2) ! s) = vd_bytes parts \<and>
      has_params w h cw ch raw bits (objs (get_from_head copy_params ps2) ! s) \<and> mc_inv (objs (get_from_head copy_params ps2) ! s)"
    using compress_shared [OF grp head small] by blast
  let ?ps3 = "get_from_head copy_params ps2"
  define ready where "ready s o1 \<longleftrightarrow> mc_dv o1 = vd_bytes parts \<and> has_params w h cw ch raw bits o1 \<and> mc_locals o1 = locals_of ?p w h cw ch raw bits s \<and>
      length (mc_part o1) = 3 * (w * pixel_rows ?p h ch s) + (if s = 0 then length (ppm_header w h) else 0) \<and>
      take (length (own_header s cw ch raw bits)) (mc_part o1) = own_header s cw ch raw bits \<and> mc_inv o1" for s o1
  have "\<exists>ps3. on_all (prepare_part ?p) ?ps3 = Inr ps3 \<and> length ps3 = length ?ps3 \<and> (\<forall>s<length ?ps3. ready s (objs ps3 ! s)) \<and>
      map step_view ps3 = map step_view ?ps3 \<and> map actor_frame ps3 = map actor_frame ?ps3"
  proof (rule on_all_ex)
    fix s assume "s < length ?ps3"
    then have s: "s < ?p" using p2(3) by simp
    have "has_params w h cw ch raw bits (objs ?ps3 ! s)" using p2(6) [OF s] by blast
    from prepare_part_eq [OF ok s this] p2(6) [OF s] mc_same_inv [OF steps_same(1)]
    show "\<exists>o2. prepare_part ?p s (objs ?ps3 ! s) = Inr o2 \<and> ready s o2" unfolding ready_def by (fastforce simp: has_params_def)
  qed
  then obtain ps3 where p3: "on_all (prepare_part ?p) ?ps3 = Inr ps3" "length ps3 = ?p" "\<And>s. s < ?p \<Longrightarrow> ready s (objs ps3 ! s)"
    "map actor_frame ps3 = map actor_frame ps" "map step_view ps3 = map step_view ?ps3"
    using p2(3,4) by auto
  have "\<exists>qs. read_all_parts reads pixels_to_read put_pixels ps3 = Inr qs \<and> length qs = length ps3 \<and>
      (\<forall>s<length ps3. has_pixels ?p w h cw ch raw bits px s (objs qs ! s) \<and> mc_inv (objs qs ! s)) \<and>
      map step_view qs = map step_view ps3 \<and> map result_view qs = map result_view ps3"
  proof (rule read_all_parts_ex)
    fix s assume "s < length ps3"
    then have s: "s < ?p" using p3(2) by simp
    let ?off = "length (ppm_header w h) + 3 * (w * pixel_begin ?p h ch s)" and ?n = "3 * (w * pixel_rows ?p h ch s)"
    have r: "mc_dv (objs ps3 ! s) = vd_bytes parts" "has_params w h cw ch raw bits (objs ps3 ! s)" "mc_locals (objs ps3 ! s) = locals_of ?p w h cw ch raw bits s"
      "length (mc_part (objs ps3 ! s)) = ?n + (if s = 0 then length (ppm_header w h) else 0)"
      "take (length (own_header s cw ch raw bits)) (mc_part (objs ps3 ! s)) = own_header s cw ch raw bits" "mc_inv (objs ps3 ! s)"
      using p3(3) [OF s] by (simp_all only: ready_def)
    obtain buf where buf: "pixels_to_read s (objs ps3 ! s) = Inr (vd_bytes parts, of_nat ?off, of_nat ?n, buf)" "length buf = ?n"
      using pixels_to_read_eq [OF ok s r(1,2,3,4)] by blast
    have "?off + ?n \<le> length ?v" using pixel_range(1) [OF ok s] px by simp
    then obtain sent where "reads s (vd_bytes parts) (of_nat ?off) (of_nat ?n) buf = Inr (sent, peek ?off ?n ?v)"
      using reads s buf(2) unfolding reads_vector_def by blast
    then show "\<exists>dv off sz buf sent out. pixels_to_read s (objs ps3 ! s) = Inr (dv, off, sz, buf) \<and> reads s dv off sz buf = Inr (sent, out) \<and>
        has_pixels ?p w h cw ch raw bits px s (put_pixels out (objs ps3 ! s)) \<and> mc_inv (put_pixels out (objs ps3 ! s))"
      using buf(1) put_pixels_eq [OF ok s r(2,3,4,5) px] mc_same_inv [OF steps_same(2) r(6)] by blast
  qed
  then obtain qs where q: "read_all_parts reads pixels_to_read put_pixels ps3 = Inr qs" "length qs = ?p"
    "\<forall>s<?p. has_pixels ?p w h cw ch raw bits px s (objs qs ! s) \<and> mc_inv (objs qs ! s)" "map result_view qs = map result_view ps3"
    "map step_view qs = map step_view ps3"
    unfolding p3(2) by blast
  have "group_in_step qs" using in_step_view [OF q(5)] in_step_view [OF p3(5) p2(5)] by blast
  then show ?thesis using q frame_view [OF p3(4)] p2(1,2) p3(1) by (simp add: compress_front_def)
qed

section \<open>From the pixels to the registered parts\<close>

definition header_length :: "nat \<Rightarrow> nat \<Rightarrow> bool \<Rightarrow> nat \<Rightarrow> nat" where
  "header_length cw ch raw bits = length (own_header 0 cw ch raw bits)"

lemma length_own_header: "length (own_header s cw ch raw bits) = (if s = 0 then header_length cw ch raw bits else 0)"
  by (simp add: header_length_def own_header_def)

lemma header_length_le: "compress_ok p w h cw ch bits \<Longrightarrow> header_length cw ch raw bits \<le> 29"
  using part_size_bounds(3) [of p w h cw ch bits 0 raw] part_size_bounds(4) [of p w h cw ch bits 0] compress_okD(8) [of p w h cw ch bits]
  by (simp add: header_length_def)

lemma share_header_eq:
  assumes pix: "\<And>s. s < length ps \<Longrightarrow> has_part p w h cw ch raw bits s (objs ps ! s)" and p: "0 < length ps"
  shows "\<exists>qs. share_header_offset ps = Inr qs \<and> length qs = length ps \<and> map actor_frame qs = map actor_frame ps \<and>
    (group_in_step ps \<longrightarrow> group_in_step qs) \<and> (\<forall>s<length ps. objs qs ! s = (objs ps ! s)\<lparr>mc_header_offset := of_nat (header_length cw ch raw bits)\<rparr>)"
proof -
  let ?H = "header_length cw ch raw bits" and ?own = "\<lambda>s. length (own_header s cw ch raw bits)"
  have "\<exists>qs. on_all set_header_offset ps = Inr qs \<and> length qs = length ps \<and>
      (\<forall>s<length ps. objs qs ! s = (objs ps ! s)\<lparr>mc_header_offset := (if raw then 0 else of_nat (?own s))\<rparr>) \<and>
      map step_view qs = map step_view ps \<and> map actor_frame qs = map actor_frame ps"
    using pix by (intro on_all_ex) (simp add: set_header_offset_def has_part_def locals_of_def)
  then obtain qs where q: "on_all set_header_offset ps = Inr qs" "length qs = length ps" "map actor_frame qs = map actor_frame ps"
    "map step_view qs = map step_view ps" "\<And>s. s < length ps \<Longrightarrow> objs qs ! s = (objs ps ! s)\<lparr>mc_header_offset := (if raw then 0 else of_nat (?own s))\<rparr>" by blast
  have raws: "mc_qraw (objs qs ! s) = raw" if "s < length ps" for s using q(5) [OF that] pix [OF that] by (simp add: has_part_def)
  show ?thesis
  proof (cases raw)
    case True
    then have "list_all mc_qraw (objs qs)" using raws q(2) by (simp add: list_all_length)
    moreover have "?H = 0" using True by (simp add: header_length_def own_header_def)
    ultimately show ?thesis using q True in_step_view [OF q(4)] by (simp add: share_header_offset_def)
  next
    case False
    let ?rs = "get_from_head (\<lambda>head o1. o1\<lparr>mc_header_offset := mc_header_offset head\<rparr>) qs"
    have "\<not> mc_qraw (objs qs ! 0)" using False raws [OF p] by simp
    then have "\<not> list_all mc_qraw (objs qs)" using p q(2) by (auto simp: list_all_length)
    then have share: "share_header_offset ps = Inr ?rs" using q(1) by (simp add: share_header_offset_def)
    have "length ?rs = length ps" using arg_cong [OF objs_get_from_head, of length] q(2) by (metis diff_zero length_map length_upt)
    moreover have "objs ?rs ! s = (objs ps ! s)\<lparr>mc_header_offset := of_nat ?H\<rparr>" if s: "s < length ps" for s
      unfolding objs_get_from_head using s q(2) q(5) [OF s] q(5) [OF p] False by (cases "s = 0") (simp_all add: header_length_def)
    moreover have "group_in_step ps \<longrightarrow> group_in_step ?rs" using in_step_view [OF q(4)] by simp
    ultimately show ?thesis using share q(3) by auto
  qed
qed

lemma compress_back_eq:
  assumes ok: "compress_ok (length ps) w h cw ch bits" and px: "length px = 3 * (w * h)"
    and pix: "\<And>s. s < length ps \<Longrightarrow> has_pixels (length ps) w h cw ch raw bits px s (objs ps ! s) \<and> mc_inv (objs ps ! s)" and step: "group_in_step ps"
  shows "\<exists>ps5 ps6 ps7 data. share_header_offset ps = Inr ps5 \<and> on_all compress_part ps5 = Inr ps6 \<and> on_all result_range ps6 = Inr ps7 \<and>
    length ps7 = length ps \<and> map actor_frame ps7 = map actor_frame ps \<and> group_in_step ps7 \<and> (\<forall>s<length ps. mc_inv (objs ps7 ! s)) \<and>
    (\<forall>s<length ps. registered_range s (ab_obj (ps7 ! s)) = (data s,
        of_nat ((if s = 0 then header_length cw ch raw bits else 0) + block_size ch (length ps) s * cw),
        of_nat ((if s = 0 then 0 else header_length cw ch raw bits) + block_begin ch (length ps) s * cw)) \<and>
      (if s = 0 then header_length cw ch raw bits else 0) + block_size ch (length ps) s * cw \<le> length (data s) \<and>
      take ((if s = 0 then header_length cw ch raw bits else 0) + block_size ch (length ps) s * cw) (data s) = own_header s cw ch raw bits @
        peek (block_begin ch (length ps) s * cw) (block_size ch (length ps) s * cw) (compressed_pixels w h cw ch bits px))"
proof -
  let ?p = "length ps" and ?H = "header_length cw ch raw bits"
  let ?n = "\<lambda>s. (if s = 0 then ?H else 0) + block_size ch ?p s * cw" and ?b = "\<lambda>s. (if s = 0 then 0 else ?H) + block_begin ch ?p s * cw"
  define gray_ready where "gray_ready s o1 \<longleftrightarrow> mc_compress_width o1 = of_nat cw \<and> mc_header_offset o1 = of_nat ?H \<and>
      mc_locals o1 = locals_of ?p w h cw ch raw bits s \<and> ?n s \<le> length (mc_part o1) \<and>
      take (?n s) (mc_part o1) = own_header s cw ch raw bits @ peek (block_begin ch ?p s * cw) (block_size ch ?p s * cw) (compressed_pixels w h cw ch bits px) \<and> mc_inv o1"
    for s and o1 :: compressor
  have p: "0 < ?p" using compress_okD(8) [OF ok] .
  obtain ps5 where p5: "share_header_offset ps = Inr ps5" "length ps5 = ?p" "map actor_frame ps5 = map actor_frame ps" "group_in_step ps5"
    "\<And>s. s < ?p \<Longrightarrow> objs ps5 ! s = (objs ps ! s)\<lparr>mc_header_offset := of_nat ?H\<rparr>"
    using share_header_eq [OF _ p, of ?p w h cw ch raw bits] pix step unfolding has_pixels_def by blast
  have pix5: "has_pixels ?p w h cw ch raw bits px s (objs ps5 ! s)" "mc_inv (objs ps5 ! s)" if "s < ?p" for s
    using pix [OF that] mc_same_inv [OF steps_same(3)] unfolding p5(5) [OF that] by (simp_all add: has_pixels_def has_part_def)
  have "\<exists>ps6. on_all compress_part ps5 = Inr ps6 \<and> length ps6 = length ps5 \<and> (\<forall>s<length ps5. gray_ready s (objs ps6 ! s)) \<and>
      map step_view ps6 = map step_view ps5 \<and> map actor_frame ps6 = map actor_frame ps5"
  proof (rule on_all_ex)
    fix s assume "s < length ps5"
    then have s: "s < ?p" using p5(2) by simp
    have "mc_header_offset (objs ps5 ! s) = of_nat ?H" unfolding p5(5) [OF s] by simp
    then show "\<exists>o2. compress_part s (objs ps5 ! s) = Inr o2 \<and> gray_ready s o2"
      using compress_part_eq [OF ok s pix5(1) [OF s] px] pix5 [OF s] mc_same_inv [OF steps_same(4) pix5(2) [OF s]]
      by (auto simp: gray_ready_def has_pixels_def has_part_def length_own_header)
  qed
  then obtain ps6 where p6: "on_all compress_part ps5 = Inr ps6" "length ps6 = ?p" "\<And>s. s < ?p \<Longrightarrow> gray_ready s (objs ps6 ! s)"
    "map actor_frame ps6 = map actor_frame ps" "map step_view ps6 = map step_view ps5" unfolding p5(2,3) by blast
  have "\<exists>ps7. on_all result_range ps6 = Inr ps7 \<and> length ps7 = length ps6 \<and>
      (\<forall>s<length ps6. registered_range s (objs ps7 ! s) = (mc_part (objs ps6 ! s), of_nat (?n s), of_nat (?b s)) \<and> mc_inv (objs ps7 ! s)) \<and>
      map step_view ps7 = map step_view ps6 \<and> map actor_frame ps7 = map actor_frame ps6"
  proof (rule on_all_ex)
    fix s assume "s < length ps6"
    then have s: "s < ?p" using p6(2) by simp
    note d = p6(3) [OF s, unfolded gray_ready_def]
    have "?n s < 2 ^ 31" "?b s < 2 ^ 31" using range_arith(5,6) [OF ok s header_length_le [OF ok, of raw]] by (cases "s = 0"; simp)+
    note sc = this [THEN scast_int_size]
    show "\<exists>o2. result_range s (objs ps6 ! s) = Inr o2 \<and> registered_range s o2 = (mc_part (objs ps6 ! s), of_nat (?n s), of_nat (?b s)) \<and> mc_inv o2"
      using result_range_eq [OF ok s _ _ header_length_le [OF ok]] d sc by (auto simp: registered_range_def mc_inv_def simp del: of_nat_add of_nat_mult)
  qed
  then obtain ps7 where p7: "on_all result_range ps6 = Inr ps7" "length ps7 = ?p" "map actor_frame ps7 = map actor_frame ps"
    "\<And>s. s < ?p \<Longrightarrow> registered_range s (objs ps7 ! s) = (mc_part (objs ps6 ! s), of_nat (?n s), of_nat (?b s)) \<and> mc_inv (objs ps7 ! s)"
    "map step_view ps7 = map step_view ps6"
    unfolding p6(2,4) by blast
  have fin: "registered_range s (ab_obj (ps7 ! s)) = (mc_part (objs ps6 ! s), of_nat (?n s), of_nat (?b s)) \<and> ?n s \<le> length (mc_part (objs ps6 ! s)) \<and>
      take (?n s) (mc_part (objs ps6 ! s)) = own_header s cw ch raw bits @
        peek (block_begin ch ?p s * cw) (block_size ch ?p s * cw) (compressed_pixels w h cw ch bits px)" if s: "s < ?p" for s
  proof -
    have "objs ps7 ! s = ab_obj (ps7 ! s)" using s p7(2) by simp
    then show ?thesis using p7(4) [OF s] p6(3) [OF s] unfolding gray_ready_def by (simp only: simp_thms)
  qed
  have step7: "group_in_step ps7" using in_step_view [OF p7(5)] in_step_view [OF p6(5) p5(4)] by blast
  have inv7: "\<forall>s<?p. mc_inv (objs ps7 ! s)" using p7(4) by blast
  show ?thesis
    by (intro exI [of _ ps5] exI [of _ ps6] exI [of _ ps7] exI [of _ "\<lambda>s. mc_part (objs ps6 ! s)"] conjI p5(1) p6(1) p7(1,2,3) step7 inv7) (intro allI impI fin)
qed

section \<open>The whole image\<close>

text \<open>What a client gets: the new header, unless it asked for raw gray levels, and the gray image.\<close>

definition compressed_image :: "nat \<Rightarrow> nat \<Rightarrow> nat \<Rightarrow> nat \<Rightarrow> bool \<Rightarrow> nat \<Rightarrow> byte list \<Rightarrow> byte list" where
  "compressed_image w h cw ch raw bits px = own_header 0 cw ch raw bits @ compressed_pixels w h cw ch bits px"

lemma compressed_parts_make:
  assumes ps: "ps \<noteq> []" "vd_small (length ps)" and ok: "compress_ok (length ps) w h cw ch bits"
    and data: "\<And>s. s < length ps \<Longrightarrow> (if s = 0 then header_length cw ch raw bits else 0) + block_size ch (length ps) s * cw \<le> length (data s) \<and>
      take ((if s = 0 then header_length cw ch raw bits else 0) + block_size ch (length ps) s * cw) (data s) = own_header s cw ch raw bits @
        peek (block_begin ch (length ps) s * cw) (block_size ch (length ps) s * cw) (compressed_pixels w h cw ch bits px)"
  shows "parts_make ps (\<lambda>s. (if s = 0 then header_length cw ch raw bits else 0) + block_size ch (length ps) s * cw)
    (\<lambda>s. of_nat ((if s = 0 then 0 else header_length cw ch raw bits) + block_begin ch (length ps) s * cw)) data (compressed_image w h cw ch raw bits px)"
proof -
  let ?p = "length ps" and ?H = "header_length cw ch raw bits" and ?v = "compressed_image w h cw ch raw bits px"
  let ?n = "\<lambda>s. (if s = 0 then ?H else 0) + block_size ch ?p s * cw" and ?b = "\<lambda>s. (if s = 0 then 0 else ?H) + block_begin ch ?p s * cw"
  have len: "length ?v = ?H + ch * cw" by (simp add: compressed_image_def header_length_def)
  have "ch * cw \<le> h * w" using compress_okD(3,5) [OF ok] by (intro mult_le_mono)
  then have "length ?v < 2 ^ 31 - 28" unfolding len using compress_okD(7) [OF ok] header_length_le [OF ok, of raw] by (simp add: mult.commute)
  moreover have "?b (Suc s) = ?b s + ?n s" for s by (simp add: block_begin_Suc add_mult_distrib)
  moreover have "?b ?p = length ?v" unfolding len using ps(1) by (simp add: block_begin_all)
  moreover have "own_header s cw ch raw bits @ peek (block_begin ch ?p s * cw) (block_size ch ?p s * cw) (compressed_pixels w h cw ch bits px) =
      peek (?b s) (?n s) ?v" for s
  proof (cases "s = 0")
    case True
    then show ?thesis by (simp add: compressed_image_def header_length_def peek_def)
  next
    case False
    then show ?thesis
      using peek_append_right [of "own_header 0 cw ch raw bits" "block_begin ch ?p s * cw" "block_size ch ?p s * cw" "compressed_pixels w h cw ch bits px"]
      by (simp add: compressed_image_def header_length_def own_header_def)
  qed
  ultimately show ?thesis using data by (intro tiles_make [OF ps]) simp_all
qed

text \<open>Up to the registration of the parts.\<close>

lemma compress_parts:
  assumes grp: "mc_group ps" and small_p: "12 + 32 * length ps < 2 ^ 31"
    and head: "mc_dv (objs ps ! 0) = vd_bytes parts" "has_params w h cw ch raw bits (objs ps ! 0)"
    and small: "vd_small (length parts)" and reads: "\<forall>s<length ps. reads_vector (reads s) (vd_bytes parts) (ppm_header w h @ px)"
    and ok: "compress_ok (length ps) w h cw ch bits" and px: "length px = 3 * (w * h)"
  shows "\<exists>qs n off data. bsp_compress blocks addr reads ps = bindE (register_all_parts 1 blocks addr registered_range qs) (\<lambda>rs. Inr (sync_all rs)) \<and>
    mc_group qs \<and> map result_view qs = map result_view ps \<and>
    (\<forall>s<length qs. registered_range s (ab_obj (qs ! s)) = (data s, of_nat (n s), off s)) \<and>
    parts_make qs n off data (compressed_image w h cw ch raw bits px)"
proof -
  let ?p = "length ps" and ?H = "header_length cw ch raw bits"
  let ?n = "\<lambda>s. (if s = 0 then ?H else 0) + block_size ch ?p s * cw" and ?b = "\<lambda>s. (if s = 0 then 0 else ?H) + block_begin ch ?p s * cw"
  obtain ps4 where p4: "compress_front reads ps = Inr ps4" "length ps4 = ?p" "map result_view ps4 = map result_view ps" "group_in_step ps4"
    "\<And>s. s < ?p \<Longrightarrow> has_pixels ?p w h cw ch raw bits px s (objs ps4 ! s) \<and> mc_inv (objs ps4 ! s)"
    using compress_front_eq [OF grp head small reads ok px] by blast
  obtain ps5 ps6 ps7 data where p7: "share_header_offset ps4 = Inr ps5" "on_all compress_part ps5 = Inr ps6" "on_all result_range ps6 = Inr ps7"
    "length ps7 = ?p" "map actor_frame ps7 = map actor_frame ps4" "group_in_step ps7" "\<forall>s<?p. mc_inv (objs ps7 ! s)"
    and d: "\<And>s. s < ?p \<Longrightarrow> registered_range s (ab_obj (ps7 ! s)) = (data s, of_nat (?n s), of_nat (?b s)) \<and> ?n s \<le> length (data s) \<and>
      take (?n s) (data s) = own_header s cw ch raw bits @ peek (block_begin ch ?p s * cw) (block_size ch ?p s * cw) (compressed_pixels w h cw ch bits px)"
    using compress_back_eq [of ps4 w h cw ch bits px raw, unfolded p4(2), OF ok px p4(5,4)] by blast
  have view: "map result_view ps7 = map result_view ps" using frame_view [OF p7(5)] p4(3) by simp
  have ne: "ps7 \<noteq> []" "vd_small (length ps7)" using grp small_p p7(4) by (auto simp: mc_group_def vd_small_def)
  have make: "parts_make ps7 ?n (\<lambda>s. of_nat (?b s)) data (compressed_image w h cw ch raw bits px)"
    using compressed_parts_make [of ps7 w h cw ch bits raw data px, OF ne, unfolded p7(4), OF ok] d by blast
  have what: "\<forall>s<length ps7. registered_range s (ab_obj (ps7 ! s)) = (data s, of_nat (?n s), of_nat (?b s))" unfolding p7(4) using d by blast
  have "bsp_compress blocks addr reads ps = bindE (register_all_parts 1 blocks addr registered_range ps7) (\<lambda>rs. Inr (sync_all rs))"
    unfolding bsp_compress_split p4(1) bindE_Inr p7(1,2,3) ..
  moreover have "mc_group ps7" using p7(4,6,7) grp by (simp add: mc_group_def)
  ultimately show ?thesis using view make what by (intro exI [of _ ps7] exI [of _ ?n] exI [of _ "\<lambda>s. of_nat (?b s)"] exI [of _ data] conjI)
qed

lemma compress_group:
  assumes grp: "mc_group ps" and res: "result_group servers ps" and self: "self \<notin> ab_node ` set ps"
    and head: "mc_dv (objs ps ! 0) = vd_bytes parts" "has_params w h cw ch raw bits (objs ps ! 0)"
    and small: "vd_small (length parts)" and reads: "\<forall>s<length ps. reads_vector (reads s) (vd_bytes parts) (ppm_header w h @ px)"
    and ok: "compress_ok (length ps) w h cw ch bits" and px: "length px = 3 * (w * h)"
  shows "\<exists>rs dv servers'. bsp_compress blocks addr reads ps = Inr (sync_all rs) \<and> gather_result (sync_all rs) = Inr (dv, sync_all (sync_all rs)) \<and>
    deliver_own envs (last_messages (sync_all (sync_all rs))) servers = Inr servers' \<and>
    vector_held servers' self stores dv (compressed_image w h cw ch raw bits px)"
proof -
  have "12 + 32 * length ps < 2 ^ 31" using res by (simp add: result_group_def)
  from compress_parts [OF grp this head small reads ok px, of blocks addr]
  obtain qs n off data where q: "bsp_compress blocks addr reads ps = bindE (register_all_parts 1 blocks addr registered_range qs) (\<lambda>rs. Inr (sync_all rs))"
    "map result_view qs = map result_view ps" "\<forall>s<length qs. registered_range s (ab_obj (qs ! s)) = (data s, of_nat (n s), off s)"
    "parts_make qs n off data (compressed_image w h cw ch raw bits px)" by blast
  have grp': "result_group servers qs" and self': "self \<notin> ab_node ` set qs" using result_group_view [OF q(2)] res self by simp_all
  obtain rs servers' where r: "register_all_parts 1 blocks addr registered_range qs = Inr rs" "length rs = length qs"
    "gather_result (sync_all rs) = Inr (vd_bytes (group_parts qs n off), sync_all (sync_all rs))"
    "deliver_own envs (new_messages qs rs) servers = Inr servers'"
    "vector_held servers' self stores (vd_bytes (group_parts qs n off)) (compressed_image w h cw ch raw bits px)"
    using group_result_held [where ps = qs and what = registered_range, OF grp' q(3,4) self', of blocks addr envs stores] by blast
  have "result_ready (qs ! s) \<and> registered_range s (ab_obj (qs ! s)) = (data s, of_nat (n s), off s) \<and> 28 + n s < 2 ^ 31 \<and> n s \<le> length (data s)"
    if s: "s < length qs" for s
    using grp' s q(3) parts_make_bounds(2,4) [OF q(4) s] by (simp add: result_group_nth)
  from register_all_parts_sent [of qs registered_range data n off blocks addr, OF this]
  have "\<forall>s<length qs. registered_part (n s) (off s) (take (n s) (data s)) (qs ! s) (rs ! s)" using r(1) by auto
  from last_messages_new [OF r(2) this] have "last_messages (sync_all (sync_all rs)) = new_messages qs rs" .
  then show ?thesis using q(1) r(1,3-5) by auto
qed

text \<open>What the head does before all processes start.\<close>

lemma compressDv_start:
  assumes grp: "mc_group ps"
    and image: "describes parts v" "v = ppm_header w h @ px" "100 \<le> length v"
    and reads: "\<forall>s<length ps. reads_vector (reads s) (vd_bytes parts) v" and buf: "length header_buf = 100"
    and ok: "compress_ok (length ps) w h cw ch bits"
  shows "\<exists>qs. compressDv blocks addr reads header_buf (vd_bytes parts) (of_nat cw) (of_nat ch) raw (of_nat bits) ps =
      bindE (bsp_compress blocks addr reads qs) gather_result \<and>
    length qs = length ps \<and> mc_group qs \<and> map result_view qs = map result_view ps \<and>
    mc_dv (objs qs ! 0) = vd_bytes parts \<and> has_params w h cw ch raw bits (objs qs ! 0)"
proof -
  note o = compress_okD [OF ok]
  obtain a rest where ps: "ps = a # rest" using o(8) by (cases ps) auto
  have small: "vd_small (length parts)" using image(1) by (simp add: describes_def)
  have wh: "w < 2 ^ 31" "h < 2 ^ 31" using o(11,12) by linarith+
  have hlen: "length (ppm_header w h) \<le> 29" "0 < length (ppm_header w h)" using ppm_header_length [OF wh] by (simp_all add: ppm_header_def)
  have "peek 0 100 v = ppm_header w h @ take (100 - length (ppm_header w h)) px" using hlen(1) by (simp add: peek_def image(2))
  moreover obtain sent where "reads 0 (vd_bytes parts) (of_nat 0) (of_nat 100) header_buf = Inr (sent, peek 0 100 v)"
    using reads o(8) image(3) buf unfolding reads_vector_def by (metis add_0)
  ultimately have read: "reads 0 (vd_bytes parts) 0 100 header_buf = Inr (sent, ppm_header w h @ take (100 - length (ppm_header w h)) px)" by simp
  let ?o1 = "(ab_obj a)\<lparr>mc_dv := vd_bytes parts, mc_qraw := raw, mc_bitsperPixel := of_nat bits, mc_width := of_nat w, mc_height := of_nat h,
      mc_header_offset := of_nat (length (ppm_header w h) - 1 + 1), mc_compress_width := of_nat cw, mc_compress_height := of_nat ch\<rparr>"
  let ?ps = "a\<lparr>ab_obj := ?o1, ab_sent := ab_sent a @ sent\<rparr> # rest"
  have run: "compressDv blocks addr reads header_buf (vd_bytes parts) (of_nat cw) (of_nat ch) raw (of_nat bits) ps =
      bindE (bsp_compress blocks addr reads ?ps) gather_result"
    by (simp add: compressDv_def ps read header_parsed [OF wh] del: of_nat_diff of_nat_add One_nat_def)
  have len: "length ?ps = length ps" by (simp add: ps)
  have "map step_view ?ps = map step_view ps" and view: "map result_view ?ps = map result_view ps" by (simp_all add: ps result_view_def)
  then have step: "group_in_step ?ps" using in_step_view [of ?ps ps] grp by (simp add: mc_group_def)
  have "mc_inv (objs ps ! s)" if "s < length ps" for s using grp that by (simp add: mc_group_def)
  then have "mc_inv (ab_obj a)" "\<And>s. s < length rest \<Longrightarrow> mc_inv (ab_obj (rest ! s))" by (force simp: ps)+
  then have "mc_inv (objs ?ps ! s)" if "s < length ?ps" for s
    using that small by (cases s) (simp_all add: mc_inv_def nparts_eq)
  then have "mc_group ?ps" using grp step len by (simp add: mc_group_def)
  moreover have "mc_dv (objs ?ps ! 0) = vd_bytes parts" "has_params w h cw ch raw bits (objs ?ps ! 0)" using hlen(2) by (simp_all add: has_params_def)
  ultimately show ?thesis using run len view by (intro exI [of _ ?ps] conjI)
qed

text \<open>The actor returns one image after another.\<close>

lemma compress_step:
  assumes grp: "mc_group ps" and res: "results_group (Suc m) servers ps"
    and image: "describes parts v" "v = ppm_header w h @ px" "length px = 3 * (w * h)" "100 \<le> length v"
    and reads: "\<forall>s<length ps. reads_vector (reads s) (vd_bytes parts) v" and buf: "length header_buf = 100"
    and ok: "compress_ok (length ps) w h cw ch bits"
  shows "\<exists>dv qs servers'. compressDv blocks addr reads header_buf (vd_bytes parts) (of_nat cw) (of_nat ch) raw (of_nat bits) ps = Inr (dv, qs) \<and>
    returned m envs servers ps (compressed_image w h cw ch raw bits px) dv qs servers' \<and> mc_group qs \<and> length qs = length ps"
proof -
  have small: "vd_small (length parts)" using image(1) by (simp add: describes_def)
  obtain ps1 where p1: "compressDv blocks addr reads header_buf (vd_bytes parts) (of_nat cw) (of_nat ch) raw (of_nat bits) ps =
      bindE (bsp_compress blocks addr reads ps1) gather_result" "length ps1 = length ps" "mc_group ps1" "map result_view ps1 = map result_view ps"
    "mc_dv (objs ps1 ! 0) = vd_bytes parts" "has_params w h cw ch raw bits (objs ps1 ! 0)"
    using compressDv_start [OF grp image(1,2,4) reads buf ok] by blast
  have "12 + 32 * length ps1 < 2 ^ 31" "\<forall>s<length ps1. reads_vector (reads s) (vd_bytes parts) (ppm_header w h @ px)"
    using res reads image(2) unfolding p1(2) by (simp_all add: results_group_def)
  from compress_parts [OF p1(3) this(1) p1(5,6) small this(2) ok [folded p1(2)] image(3), of blocks addr]
  obtain qs n off data where q: "bsp_compress blocks addr reads ps1 = bindE (register_all_parts 1 blocks addr registered_range qs) (\<lambda>rs. Inr (sync_all rs))"
    "mc_group qs" "map result_view qs = map result_view ps1" "\<forall>s<length qs. registered_range s (ab_obj (qs ! s)) = (data s, of_nat (n s), off s)"
    "parts_make qs n off data (compressed_image w h cw ch raw bits px)" by blast
  have view: "map result_view qs = map result_view ps" using q(3) p1(4) by simp
  then have len: "length qs = length ps" by (metis length_map)
  have res': "results_group (Suc m) servers qs" using results_group_view(1) [OF view] res by simp
  have "group_in_step qs" using q(2) by (simp add: mc_group_def)
  from group_result_step [where what = registered_range, OF res' this q(4,5), of blocks addr envs]
  obtain rs dv servers' where r: "register_all_parts 1 blocks addr registered_range qs = Inr rs" "length rs = length qs" "objs rs = objs qs"
    "gather_result (sync_all rs) = Inr (dv, sync_all (sync_all rs))"
    "returned m envs servers qs (compressed_image w h cw ch raw bits px) dv (sync_all (sync_all rs)) servers'" by blast
  have "mc_group (sync_all (sync_all rs))"
    using q(2) r(2,3) r(5) by (simp add: mc_group_def returned_def)
  then show ?thesis using p1(1) q(1) r returned_view [OF view] len by auto
qed

text \<open>The result of \<^verbatim>\<open>compressDv\<close>, once it is stored, holds the compressed image.\<close>

lemma compressDv_held:
  assumes grp: "mc_group ps" and res: "result_group servers ps" and self: "self \<notin> ab_node ` set ps"
    and image: "describes parts v" "v = ppm_header w h @ px" "length px = 3 * (w * h)" "100 \<le> length v"
    and reads: "\<forall>s<length ps. reads_vector (reads s) (vd_bytes parts) v" and buf: "length header_buf = 100"
    and ok: "compress_ok (length ps) w h cw ch bits"
  shows "\<exists>dv qs servers'. compressDv blocks addr reads header_buf (vd_bytes parts) (of_nat cw) (of_nat ch) raw (of_nat bits) ps = Inr (dv, qs) \<and>
    deliver_own envs (last_messages qs) servers = Inr servers' \<and> vector_held servers' self stores dv (compressed_image w h cw ch raw bits px)"
proof -
  have small: "vd_small (length parts)" using image(1) by (simp add: describes_def)
  obtain ps1 where p1: "compressDv blocks addr reads header_buf (vd_bytes parts) (of_nat cw) (of_nat ch) raw (of_nat bits) ps =
      bindE (bsp_compress blocks addr reads ps1) gather_result" "length ps1 = length ps" "mc_group ps1" "map result_view ps1 = map result_view ps"
    "mc_dv (objs ps1 ! 0) = vd_bytes parts" "has_params w h cw ch raw bits (objs ps1 ! 0)"
    using compressDv_start [OF grp image(1,2,4) reads buf ok] by blast
  have views: "result_group servers ps1" "self \<notin> ab_node ` set ps1" using result_group_view [OF p1(4)] res self by simp_all
  have "\<forall>s<length ps1. reads_vector (reads s) (vd_bytes parts) (ppm_header w h @ px)" unfolding p1(2) using reads image(2) by simp
  from compress_group [OF p1(3) views p1(5,6) small this ok [folded p1(2)] image(3), of blocks addr envs stores]
  obtain rs dv servers' where r: "bsp_compress blocks addr reads ps1 = Inr (sync_all rs)" "gather_result (sync_all rs) = Inr (dv, sync_all (sync_all rs))"
    "deliver_own envs (last_messages (sync_all (sync_all rs))) servers = Inr servers'"
    "vector_held servers' self stores dv (compressed_image w h cw ch raw bits px)" by blast
  then show ?thesis unfolding p1(1) r(1) bindE_Inr by blast
qed

section \<open>Properties\<close>

text \<open>
  Property C27: compressing a distributed image gives the gray image. Any process outside of the actor that reads
  through the description it gets, once the management threads have stored the parts, reads the new header and the
  gray levels of the squares of the image, however the image was distributed and for every number of processes that
  leaves each of them rows to compress. \<^const>\<open>compress_ok\<close> says when that is, and that the sizes are \<^verbatim>\<open>int\<close>s:
  it always holds when the height of the result divides that of the image (\<open>compress_ok_dividing\<close>), and when
  it fails because a process is left without rows the code fails (\<open>no_rows_left\<close>). The image has at least the 100
  bytes that are read to find its header.
\<close>

theorem compressDv_gray_image:
  assumes grp: "mc_group ps" and res: "result_group servers ps" and self: "self \<notin> ab_node ` set ps"
    and image: "describes parts v" "v = ppm_header w h @ px" "length px = 3 * (w * h)" "100 \<le> length v"
    and reads: "\<forall>s<length ps. reads_vector (reads s) (vd_bytes parts) v" and buf: "length header_buf = 100"
    and ok: "compress_ok (length ps) w h cw ch bits"
  shows "\<exists>dv qs servers'. compressDv blocks addr reads header_buf (vd_bytes parts) (of_nat cw) (of_nat ch) raw (of_nat bits) ps = Inr (dv, qs) \<and>
    deliver_own envs (last_messages qs) servers = Inr servers' \<and>
    (\<forall>from m out. from + m \<le> length (compressed_image w h cw ch raw bits px) \<longrightarrow> length out = m \<longrightarrow> (\<exists>sent.
      absp_dv_get_part rblocks self place stores (Vector_Access.served envs' servers' self) dv (of_nat from) (of_nat m) out =
        Inr (sent, peek from m (compressed_image w h cw ch raw bits px))))"
proof -
  obtain dv qs servers' where r: "compressDv blocks addr reads header_buf (vd_bytes parts) (of_nat cw) (of_nat ch) raw (of_nat bits) ps = Inr (dv, qs)"
    "deliver_own envs (last_messages qs) servers = Inr servers'" "vector_held servers' self stores dv (compressed_image w h cw ch raw bits px)"
    using compressDv_held [OF assms] by blast
  from absp.read_range [OF r(3)] show ?thesis
    by (intro exI [of _ dv] exI [of _ qs] exI [of _ servers'] conjI r(1,2) allI impI) assumption
qed

text \<open>A new actor of two processes; a black image of 4 times 8 pixels is one part of another process.\<close>

definition empty_compressor :: compressor where
  "empty_compressor = \<lparr>mc_dv = [], mc_part = [], mc_img = [], mc_compressed = [], mc_width = 0, mc_height = 0, mc_compress_width = 0,
     mc_compress_height = 0, mc_header_offset = 0, mc_qraw = False, mc_bitsperPixel = 0, mc_logpath = [], mc_log_base_len = 0,
     mc_locals = \<lparr>pl_nrows = 0, pl_ncols = 0, pl_cpart_y1 = 0, pl_cpart_height = 0, pl_part_y1 = 0, pl_part_height = 0, pl_part_size = 0,
       pl_maxval = 0, pl_header = 0, pl_data_size = 0, pl_data_offset = 0\<rparr>\<rparr>"

lemma MonochromeCompressor_ok: "\<exists>o1. MonochromeCompressor mem = Inr o1 \<and> mc_inv o1"
proof -
  have "vector_distribution_base 1 = Inr (vd_bytes [zero_part])"
    using vector_distribution_base_eq [of 1] by (simp add: vd_small_def)
  then show ?thesis by (simp add: MonochromeCompressor_def mc_inv_def)
qed

definition new_compressors :: "nat \<Rightarrow> compressor actor_base list" where
  "new_compressors k = new_group (replicate k (projr (MonochromeCompressor empty_compressor)))"

lemma new_compressors_ok:
  assumes "0 < k" and "12 + 32 * k < 2 ^ 31"
  shows "mc_group (new_compressors k)" "length (new_compressors k) = k" "result_group ActorServer (new_compressors k)"
    "ab_node ` set (new_compressors k) = of_nat ` {..<k}"
proof -
  let ?os = "replicate k (projr (MonochromeCompressor empty_compressor))"
  note g = new_group_ok [of ?os, folded new_compressors_def]
  show l: "length (new_compressors k) = k" using g(3) by simp
  have "mc_inv (projr (MonochromeCompressor empty_compressor))" using MonochromeCompressor_ok [of empty_compressor] by auto
  then show "mc_group (new_compressors k)" using g(1,2) l assms by (simp add: mc_group_def)
  have "?os \<noteq> []" "12 + 32 * length ?os < 2 ^ 31" using assms by simp_all
  note r = result_group_new [OF this, folded new_compressors_def]
  show "result_group ActorServer (new_compressors k)" by (rule r(1))
  show "ab_node ` set (new_compressors k) = of_nat ` {..<k}" unfolding r(2) by simp
qed

lemma two_compressors_ok:
  "mc_group (new_compressors 2)" "length (new_compressors 2) = 2" "result_group ActorServer (new_compressors 2)" "5 \<notin> ab_node ` set (new_compressors 2)"
  using new_compressors_ok [of 2] by (auto simp: less_2_cases_iff)

lemma compress_ok_dividing:
  assumes "0 < w" "0 < cw" "cw \<le> w" "0 < ch" "0 < h" "ch dvd h" "bits \<le> 8" "3 * (w * h) + 228 < 2 ^ 31" "0 < p" "p < 2 ^ 31"
  shows "compress_ok p w h cw ch bits"
  using assms rows_divide [of ch h] dvd_imp_le [of ch h] by (simp add: compress_ok_def)

lemma small_image_ok: "compress_ok 2 4 8 2 2 8"
  by (rule compress_ok_dividing) simp_all

lemma pgm_header_small: "pgm_header 2 2 8 = [80, 53, 32, 50, 32, 50, 32, 50, 53, 53, 10]"
  by (simp add: pgm_header_def decimal.simps [of 2] decimal.simps [of 255] decimal.simps [of 25])

lemma ppm_header_small: "length (ppm_header 4 8) = 11"
  by (simp add: ppm_header_def decimal.simps [of 4] decimal.simps [of 8])

theorem compressDv_gray_image_witness:
  "\<exists>dv qs servers' sent. compressDv (\<lambda>_. \<lparr>bl_addr = 1, bl_mem = \<lambda>_. 0\<rparr>) 0 (\<lambda>s. direct_reader (\<lambda>dv. ppm_header 4 8 @ replicate 96 0)) (replicate 100 0)
      (vd_bytes [\<lparr>vp_pid = 9, vp_resid = 0, vp_size = 107, vp_offset = 0\<rparr>]) 2 2 False 8 (new_compressors 2) = Inr (dv, qs) \<and>
    deliver_own (\<lambda>_. plain_env) (last_messages qs) ActorServer = Inr servers' \<and>
    absp_dv_get_part (\<lambda>_. \<lparr>bl_addr = 1, bl_mem = \<lambda>_. 0\<rparr>) 5 100 (\<lambda>_. []) (Vector_Access.served (\<lambda>_. plain_env) servers' 5)
      dv 0 4 [0, 0, 0, 0] = Inr (sent, [80, 53, 32, 50])"
proof -
  let ?px = "replicate 96 0 :: byte list" let ?v = "ppm_header 4 8 @ ?px" and ?ps = "new_compressors 2"
  let ?reads = "\<lambda>s :: nat. direct_reader (\<lambda>dv. ?v)" and ?b = "\<lambda>_ :: nat. \<lparr>bl_addr = 1, bl_mem = \<lambda>_. 0\<rparr>"
  let ?part = "\<lparr>vp_pid = 9, vp_resid = 0, vp_size = 107, vp_offset = 0\<rparr>" and ?img = "compressed_image 4 8 2 2 False 8 ?px"
  have len: "length ?v = 107" by (simp add: ppm_header_small)
  have desc: "describes [?part] ?v" using len by (auto simp: describes_def vd_small_def)
  have px: "length ?px = 3 * (4 * 8)" "100 \<le> length ?v" "length (replicate 100 (0 :: byte)) = 100" using len by simp_all
  have reads: "\<forall>s<length ?ps. reads_vector (?reads s) (vd_bytes [?part]) ?v" using len by (simp add: direct_reader_reads)
  have ok: "compress_ok (length ?ps) 4 8 2 2 8" by (simp only: two_compressors_ok(2) small_image_ok)
  obtain dv qs servers' where r: "compressDv ?b 0 ?reads (replicate 100 0) (vd_bytes [?part]) (of_nat 2) (of_nat 2) False (of_nat 8) ?ps = Inr (dv, qs)"
    "deliver_own (\<lambda>_. plain_env) (last_messages qs) ActorServer = Inr servers'"
    "\<forall>from m out. from + m \<le> length ?img \<longrightarrow> length out = m \<longrightarrow> (\<exists>sent.
      absp_dv_get_part ?b 5 100 (\<lambda>_. []) (Vector_Access.served (\<lambda>_. plain_env) servers' 5) dv (of_nat from) (of_nat m) out = Inr (sent, peek from m ?img))"
    using compressDv_gray_image [OF two_compressors_ok(1,3,4) desc refl px(1,2) reads px(3) ok,
      of ?b 0 False "\<lambda>_. plain_env" ?b 100 "\<lambda>_. []" "\<lambda>_. plain_env"] by blast
  have "0 + 4 \<le> length ?img" "length [0, 0, 0, 0 :: byte] = 4" by (simp_all add: compressed_image_def)
  then obtain sent where "absp_dv_get_part ?b 5 100 (\<lambda>_. []) (Vector_Access.served (\<lambda>_. plain_env) servers' 5) dv (of_nat 0) (of_nat 4) [0, 0, 0, 0] =
      Inr (sent, peek 0 4 ?img)"
    using r(3) by blast
  moreover have "peek 0 4 ?img = [80, 53, 32, 50]" by (simp add: compressed_image_def own_header_def pgm_header_small peek_def)
  ultimately show ?thesis using r(1,2)
    by (intro exI [of _ dv] exI [of _ qs] exI [of _ servers'] exI [of _ sent]) simp
qed

section \<open>Too few rows\<close>

lemma scast_of_int: "int_fits z \<Longrightarrow> (scast (of_int z :: c_int) :: size_t) = of_int z"
  by (simp add: scast_eq sint_of_fits)

lemma ucast_of_int: "(ucast (of_int z :: size_t) :: c_int) = of_int z"
  by (rule bit_word_eqI) (simp add: bit_simps)

lemma unat_negative: "z < 0 \<Longrightarrow> - (2 ^ 31) \<le> z \<Longrightarrow> unat (of_int z :: size_t) = nat (2 ^ 64 + z)"
proof -
  assume z: "z < 0" "- (2 ^ 31) \<le> z"
  have "(2 ^ 64 + z) mod 2 ^ 64 = 2 ^ 64 + z" using z by (intro mod_pos_pos_trivial) simp_all
  then have "z mod 2 ^ 64 = 2 ^ 64 + z" by simp
  then show ?thesis by (simp add: unsigned_of_int take_bit_eq_mod)
qed

text \<open>
  Compressing fails if the squares, whose height is rounded up, use up all rows before a process has its turn.
  Its number of rows is negative, and so many bytes, as a number without sign, cannot be allocated. Four processes
  that compress five rows to four do that.
\<close>

theorem no_rows_left:
  assumes pr: "has_params w h cw ch raw bits o1" and s: "0 < s" "s < p" "p < 2 ^ 31" and none: "h < pixel_begin p h ch s"
    and small: "0 < w" "3 * (w * h) < 2 ^ 31" "0 < cw" "cw < 2 ^ 31" "0 < ch" "ch \<le> h" "bits \<le> 8"
  shows "prepare_part p s o1 = Inl Bad_alloc"
proof -
  let ?Y = "pixel_begin p h ch s" and ?b = "block_begin ch p s" and ?n = "block_size ch p s" and ?nr = "rows_of h ch"
  have h: "0 < h" using small(5,6) by simp
  have "1 * h \<le> w * h" "w * 1 \<le> w * h" using small(1) h by (intro mult_le_mono; simp)+
  then have wh: "3 * h < 2 ^ 31" "3 * w < 2 ^ 31" using small(2) by linarith+
  have hs: "h < 2 ^ 31" "w < 2 ^ 31" "ch < 2 ^ 31" "?nr < 2 ^ 31" using wh small(6) div_up_le [OF small(5), of h] by linarith+
  have "(?b + ?n) * ?nr \<le> ch * ?nr" using block_size_le [OF s(2)] by (rule mult_le_mono1)
  moreover have "ch * ?nr < h + ch" using div_up_bounds [OF small(5), of h] by (simp add: mult.commute)
  ultimately have top: "(?b + ?n) * ?nr < h + h" "?Y \<le> (?b + ?n) * ?nr" using small(6) by (linarith, simp add: pixel_begin_def)
  then have Y: "?Y < 2 ^ 31" "?Y - h < h" "(?b + ?n) * ?nr < 2 ^ 31" using wh none by linarith+
  let ?d = "int h - int ?Y"
  have "(of_nat ?b :: size_t) * of_nat ?nr = of_nat ?Y" "(of_nat (?b + ?n) :: size_t) * of_nat ?nr = of_nat ((?b + ?n) * ?nr)"
    by (simp_all add: pixel_begin_def)
  moreover have "min (of_nat ((?b + ?n) * ?nr)) (of_nat h) = (of_nat h :: size_t)"
    using top(2) none Y(3) hs(1) by (simp add: min_def of_nat_size_le del: of_nat_mult of_nat_add)
  moreover have "sub_int (of_nat h) (of_nat ?Y) = Inr (of_int ?d)" using hs(1) Y(1) by (simp add: sub_int_def int_fits_def)
  ultimately have rows: "part_rows p s (of_nat h) (of_nat ch) (of_nat ?nr) = Inr (of_nat ?b, ucast (of_nat (?b + ?n) - of_nat ?b :: size_t), of_nat ?Y, of_int ?d)"
    using hs(1) Y(1)
    unfolding part_rows_def Let_def scast_int_size [OF hs(3)] scast_int_size [OF hs(1)] scast_int_size [OF hs(4)] div_range_eq [OF hs(3) s(2,3)] bindE_Inr prod.case
    by (simp del: of_nat_mult of_nat_add)
  let ?z = "3 * (int w * ?d)"
  have z: "?z < 0" "- (2 ^ 31) \<le> ?z" and fits: "int_fits ?d" "int_fits (int w * ?d)"
  proof -
    have neg: "int w * ?d \<le> int w * (- 1)" "int w * (- int h) \<le> int w * ?d" using none Y(2) by (intro mult_left_mono; simp)+
    then show "?z < 0" using small(1) by simp
    have "int (3 * (w * h)) < 2 ^ 31" using small(2) by (metis of_nat_less_iff of_nat_numeral of_nat_power)
    then have lo: "- (2 ^ 31) < 3 * (int w * (- int h))" by simp
    then show "- (2 ^ 31) \<le> ?z" using neg(2) by linarith
    show "int_fits (int w * ?d)" using neg lo small(1) by (simp add: int_fits_def)
    show "int_fits ?d" using none Y hs(1) by (simp add: int_fits_def)
  qed
  have "mul_int (of_nat w) (of_int ?d) = Inr (of_int (int w * ?d))"
    using fits hs(2) sint_of_fits [OF fits(1)] by (simp add: mul_int_def)
  moreover have "(of_int (int w * ?d) * 3 :: size_t) = of_int ?z" by simp
  ultimately have bytes: "pixel_bytes (of_nat w) (of_int ?d) = Inr (of_int ?z)"
    by (simp only: pixel_bytes_def bindE_Inr scast_of_int [OF fits(2)] ucast_of_int)
  have "int_fits ?z" using z by (simp add: int_fits_def)
  then have "(scast (of_int ?z :: c_int) :: size_t) = of_int ?z" by (rule scast_of_int)
  then have big: "2 ^ 63 \<le> unat (scast (of_int ?z :: c_int) + 0 :: size_t)" using unat_negative [OF z] z(2) by simp
  have q: "ceil_quotient (of_nat h) (of_nat ch) = Inr (of_nat ?nr)" "ceil_quotient (of_nat w) (of_nat cw) = Inr (of_nat (rows_of w cw))"
    using small(3,4,5) hs by (intro ceil_quotient_eq; simp)+
  have no_head: "(s = 0) = False" using s(1) by simp
  show ?thesis
    using pr unfolding prepare_part_def has_params_def
    by (simp only: q bindE_Inr rows prod.case bytes max_value_eq [OF small(7)] Let_def no_head if_False big if_True)
qed

theorem no_rows_left_witness:
  "prepare_part 4 3 (empty_compressor\<lparr>mc_width := 4, mc_height := 5, mc_compress_width := 4, mc_compress_height := 4,
    mc_header_offset := of_nat (length (ppm_header 4 5)), mc_bitsperPixel := 8\<rparr>) = Inl Bad_alloc"
proof -
  have "5 < pixel_begin 4 5 4 3" by (simp add: pixel_begin_def block_begin_def div_up_def)
  then show ?thesis by (intro no_rows_left [of 4 5 4 4 False 8]) (simp_all add: has_params_def empty_compressor_def)
qed

end
