(* ===== verification/Compressor_Seq.thy ===== *)
theory Compressor_Seq
  imports Compressed_Image
begin

text \<open>
  \<^verbatim>\<open>compressSeq\<close> (src/src/examples/imgproc/src/MonochromeCompressor.cpp): the image is a vector on the head, which
  puts the pixels of every process to it and gets its gray levels. For raw output it returns the same gray image as
  \<^verbatim>\<open>compressDv\<close>; with a header it writes past the end of its result.
\<close>

section \<open>The code\<close>

definition copy_params_seq :: "compressor \<Rightarrow> compressor \<Rightarrow> compressor" where
  "copy_params_seq head o1 = (copy_params head o1)\<lparr>mc_img := vec_resize 1 0 (mc_img o1), mc_compressed := vec_resize 1 0 (mc_compressed o1)\<rparr>"

text \<open>\<^verbatim>\<open>bsp_put(i, &_img[i_part_offset + _header_offset], &_part[0], 0, i_part_size)\<close>.\<close>

definition scatter_put :: "nat \<Rightarrow> compressor \<Rightarrow> nat \<Rightarrow> bsp_put result" where
  "scatter_put p head i =
     bindE (part_rows p i (mc_height head) (mc_compress_height head) (pl_nrows (mc_locals head))) (\<lambda>(_, _, part_y1, part_height).
     bindE (pixel_bytes (mc_width head) part_y1) (\<lambda>part_offset.
     bindE (pixel_bytes (mc_width head) part_height) (\<lambda>part_size.
     bindE (add_int part_offset (mc_header_offset head)) (\<lambda>pos.
     bindE (mem_read (mc_img head) (unat (scast pos :: size_t)) (unat (scast part_size :: size_t))) (\<lambda>bs. Inr (of_nat i, 0, bs))))))"

definition scatter_pixels :: "compressor actor_base list \<Rightarrow> compressor actor_base list result" where
  "scatter_pixels ps = (case objs ps of [] \<Rightarrow> Inl Out_of_bounds
     | head # _ \<Rightarrow>
         bindE (mapE (scatter_put (length ps) head) [0..<length ps]) (\<lambda>puts.
         bindE (bsp_deliver puts (map mc_part (objs ps))) (\<lambda>regs.
         bindE (on_all (\<lambda>s o1. Inr (o1\<lparr>mc_part := regs ! s\<rparr>)) ps) (\<lambda>qs. Inr (sync_all qs)))))"

text \<open>Where the gray levels of process \<open>i\<close> go in \<^verbatim>\<open>_compressed\<close>, and how many bytes they are.\<close>

definition gather_range :: "nat \<Rightarrow> compressor \<Rightarrow> nat \<Rightarrow> (c_int \<times> c_int) result" where
  "gather_range p head i =
     bindE (div_range (scast (mc_compress_height head)) (of_nat i) (of_nat p)) (\<lambda>(y1, y2).
     bindE (mul_int (mc_compress_width head) (ucast (y2 - y1))) (\<lambda>data_size.
       let offset = ucast (y1 * scast (mc_compress_width head)) :: c_int
       in bindE (if i = 0 then Inr offset else add_int (mc_header_offset head) offset) (\<lambda>dst.
          bindE (if i = 0 then add_int (mc_header_offset head) data_size else Inr data_size) (\<lambda>n. Inr (dst, n)))))"

definition gather_get :: "nat \<Rightarrow> compressor \<Rightarrow> nat \<times> compressor \<Rightarrow> byte list \<Rightarrow> byte list result" where
  "gather_get p head = (\<lambda>(i, o1) compressed.
     bindE (gather_range p head i) (\<lambda>(dst, n).
     bindE (mem_read (mc_part o1) 0 (unat (scast n :: size_t))) (\<lambda>bs. mem_write (unat (scast dst :: size_t)) bs compressed)))"

definition gather_gray :: "compressor actor_base list \<Rightarrow> compressor actor_base list result" where
  "gather_gray ps = (case objs ps of [] \<Rightarrow> Inl Out_of_bounds
     | head # _ \<Rightarrow>
         bindE (foldE (gather_get (length ps) head) (enumerate 0 (objs ps)) (mc_compressed head)) (\<lambda>compressed.
           Inr (sync_all (upd_head (\<lambda>o1. o1\<lparr>mc_compressed := compressed\<rparr>) ps))))"

text \<open>The areas are registered before they are used and not afterwards; registering them only costs a superstep.\<close>

definition bsp_compress_seq :: "compressor actor_base list \<Rightarrow> compressor actor_base list result" where
  "bsp_compress_seq ps =
     bindE (on_all (prepare_part (length ps)) (get_from_head copy_params_seq ps)) (\<lambda>ps1.
     bindE (scatter_pixels (sync_all ps1)) (\<lambda>ps2.
     bindE (share_header_offset ps2) (\<lambda>ps3.
     bindE (on_all compress_part ps3) gather_gray)))"

text \<open>\<open>img\<close> is the value of the future.\<close>

definition compressSeq ::
  "byte list \<Rightarrow> c_int \<Rightarrow> c_int \<Rightarrow> bool \<Rightarrow> c_int \<Rightarrow> compressor actor_base list \<Rightarrow> (byte list \<times> compressor actor_base list) result"
where
  "compressSeq img width height raw bitsPerPixel ps = (case objs ps of [] \<Rightarrow> Inl Out_of_bounds
     | head # _ \<Rightarrow>
         bindE (scan_header img (mc_width head) (mc_height head)) (\<lambda>(w, h).
         bindE (strchr 10 img) (\<lambda>newline.
         bindE (mul_int width height) (\<lambda>size.
           if 2 ^ 63 \<le> unat (scast size :: size_t) then Inl Bad_alloc
           else bindE (bsp_compress_seq (upd_head (\<lambda>o1. o1\<lparr>mc_img := img, mc_qraw := raw, mc_bitsperPixel := bitsPerPixel,
                    mc_width := w, mc_height := h, mc_header_offset := of_nat (newline + 1), mc_compress_width := width,
                    mc_compress_height := height, mc_compressed := vec_resize (unat (scast size :: size_t)) 0 (mc_compressed o1)\<rparr>) ps)) (\<lambda>qs.
                  case objs qs of [] \<Rightarrow> Inl Out_of_bounds | o1 # _ \<Rightarrow> Inr (mc_compressed o1, qs))))))"

section \<open>Scattering the pixels\<close>

lemma unat_scast_int: "k < 2 ^ 31 \<Longrightarrow> unat (scast (of_nat k :: c_int) :: size_t) = k"
  by simp

abbreviation part_pixels :: "nat \<Rightarrow> nat \<Rightarrow> nat \<Rightarrow> nat \<Rightarrow> byte list \<Rightarrow> nat \<Rightarrow> byte list" where
  "part_pixels p w h ch px s \<equiv> peek (3 * (w * pixel_begin p h ch s)) (3 * (w * pixel_rows p h ch s)) px"

lemma scatter_put_eq:
  assumes ok: "compress_ok p w h cw ch bits" and s: "s < p" and head: "has_params w h cw ch raw bits head" "mc_locals head = locals_of p w h cw ch raw bits 0"
    "mc_img head = ppm_header w h @ px" and px: "length px = 3 * (w * h)"
  shows "scatter_put p head s = Inr (of_nat s, 0, part_pixels p w h ch px s)"
proof -
  note r = pixel_range [OF ok s]
  let ?Y = "pixel_begin p h ch s" and ?n = "3 * (w * pixel_rows p h ch s)" and ?hofs = "length (ppm_header w h)"
  have y: "3 * (w * ?Y) < 2 ^ 31" "3 * (w * ?Y) + ?hofs < 2 ^ 31" using r(2) by linarith+
  note pos = unat_scast_int [OF y(2)] and n = unat_scast_int [OF r(3)]
  have "?hofs + 3 * (w * ?Y) + ?n \<le> length (ppm_header w h @ px)" using r(1) px by simp
  then have read: "mem_read (ppm_header w h @ px) (3 * (w * ?Y) + ?hofs) ?n = Inr (part_pixels p w h ch px s)"
    by (simp only: mem_read_def if_True peek_append_right add.commute [of _ ?hofs])
  show ?thesis
    using head unfolding scatter_put_def has_params_def locals_of_def
    by (simp only: part_locals.select_convs part_rows_eq [OF ok s] bindE_Inr prod.case pixel_bytes_eq [OF r(5,4) y(1)]
        pixel_bytes_eq [OF r(5,6,3)] add_int_of_nat [OF y(2)] pos n read)
qed

lemma scatter_pixels_eq:
  assumes ok: "compress_ok (length ps) w h cw ch bits" and px: "length px = 3 * (w * h)"
    and head: "has_params w h cw ch raw bits (objs ps ! 0)" "mc_img (objs ps ! 0) = ppm_header w h @ px"
    and part: "\<And>s. s < length ps \<Longrightarrow> has_part (length ps) w h cw ch raw bits s (objs ps ! s)"
  shows "\<exists>qs. scatter_pixels ps = Inr qs \<and> length qs = length ps \<and>
    (\<forall>s<length ps. objs qs ! s = (objs ps ! s)\<lparr>mc_part := poke 0 (part_pixels (length ps) w h ch px s) (mc_part (objs ps ! s))\<rparr>)"
proof -
  let ?p = "length ps" and ?bs = "part_pixels (length ps) w h ch px"
  have p: "0 < ?p" "?p < 2 ^ 31" using compress_okD(8,9) [OF ok] by simp_all
  obtain head' tl where objs: "objs ps = head' # tl" using p(1) by (cases ps) auto
  then have h0: "objs ps ! 0 = head'" by simp
  have loc: "mc_locals head' = locals_of ?p w h cw ch raw bits 0" using part [OF p(1)] h0 by (simp add: has_part_def)
  have puts: "mapE (scatter_put ?p head') [0..<?p] = Inr (map (\<lambda>s. (of_nat s, 0, ?bs s)) [0..<?p])"
    using scatter_put_eq [OF ok _ head(1) [unfolded h0] loc head(2) [unfolded h0] px] by (intro mapE_eq_map) simp
  have len: "length (?bs s) \<le> length (mc_part (objs ps ! s))" if "s < ?p" for s
    using part [OF that] pixel_range(1) [OF ok that] px by (simp add: has_part_def length_peek)
  let ?regs = "map mc_part (objs ps)"
  have "bsp_deliver (map (\<lambda>s. (of_nat s, 0, ?bs s)) [0..<?p]) ?regs = Inr (map (\<lambda>s. poke 0 (?bs s) (?regs ! s)) [0..<?p] @ drop ?p ?regs)"
    using p(2) len by (intro bsp_deliver_poke) (simp_all)
  then have del: "bsp_deliver (map (\<lambda>s. (of_nat s, 0, ?bs s)) [0..<?p]) ?regs = Inr (map (\<lambda>s. poke 0 (?bs s) (?regs ! s)) [0..<?p])" by simp
  let ?new = "map (\<lambda>s. poke 0 (?bs s) (?regs ! s)) [0..<?p]"
  have "\<exists>qs. on_all (\<lambda>s o1. Inr (o1\<lparr>mc_part := ?new ! s\<rparr>)) ps = Inr qs \<and> length qs = ?p \<and>
      (\<forall>s<?p. objs qs ! s = (objs ps ! s)\<lparr>mc_part := poke 0 (?bs s) (mc_part (objs ps ! s))\<rparr>) \<and>
      map step_view qs = map step_view ps \<and> map actor_frame qs = map actor_frame ps"
    by (rule on_all_ex) simp
  then obtain qs where q: "on_all (\<lambda>s o1. Inr (o1\<lparr>mc_part := ?new ! s\<rparr>)) ps = Inr qs" "length qs = ?p"
    "\<forall>s<?p. objs qs ! s = (objs ps ! s)\<lparr>mc_part := poke 0 (?bs s) (mc_part (objs ps ! s))\<rparr>" by blast
  have "scatter_pixels ps = Inr (sync_all qs)"
    unfolding scatter_pixels_def objs list.case puts bindE_Inr del [unfolded objs] using q(1) [unfolded objs] by simp
  then show ?thesis using q(2,3) by (intro exI [of _ "sync_all qs"]) simp
qed

section \<open>Up to the gray levels\<close>

text \<open>The gray levels of a process are at the start of its buffer, behind the header if it printed one.\<close>

definition has_gray :: "nat \<Rightarrow> nat \<Rightarrow> nat \<Rightarrow> nat \<Rightarrow> nat \<Rightarrow> bool \<Rightarrow> nat \<Rightarrow> byte list \<Rightarrow> nat \<Rightarrow> compressor \<Rightarrow> bool" where
  "has_gray p w h cw ch raw bits px s o1 \<longleftrightarrow>
     (if s = 0 then header_length cw ch raw bits else 0) + block_size ch p s * cw \<le> length (mc_part o1) \<and>
     (raw \<longrightarrow> take (block_size ch p s * cw) (mc_part o1) = peek (block_begin ch p s * cw) (block_size ch p s * cw) (compressed_pixels w h cw ch bits px))"

definition gathers :: "nat \<Rightarrow> nat \<Rightarrow> nat \<Rightarrow> compressor \<Rightarrow> bool" where
  "gathers cw ch H o1 \<longleftrightarrow> mc_compress_width o1 = of_nat cw \<and> mc_compress_height o1 = of_nat ch \<and> mc_header_offset o1 = of_nat H"

lemma compress_gray:
  assumes ok: "compress_ok p w h cw ch bits" and s: "s < p" and px: "length px = 3 * (w * h)" and part: "has_part p w h cw ch raw bits s o1"
    and pix: "raw \<Longrightarrow> peek 0 (3 * (w * pixel_rows p h ch s)) (mc_part o1) = part_pixels p w h ch px s"
  shows "\<exists>part. compress_part s o1 = Inr (o1\<lparr>mc_part := part\<rparr>) \<and> has_gray p w h cw ch raw bits px s (o1\<lparr>mc_part := part\<rparr>)"
proof (cases raw)
  case True
  then have "has_pixels p w h cw ch raw bits px s o1" using part pix by (simp add: has_pixels_def own_header_def)
  from compress_part_eq [OF ok s this px] show ?thesis using True by (auto simp: has_gray_def length_own_header own_header_def header_length_def)
next
  case False
  then show ?thesis using compress_part_runs [OF ok s part] by (auto simp: has_gray_def length_own_header length_poke)
qed

lemma seq_prepared:
  assumes ok: "compress_ok (length ps) w h cw ch bits" and head: "has_params w h cw ch raw bits (objs ps ! 0)"
  shows "\<exists>ps1. on_all (prepare_part (length ps)) (get_from_head copy_params_seq ps) = Inr ps1 \<and> length ps1 = length ps \<and>
    (\<forall>s<length ps. has_part (length ps) w h cw ch raw bits s (objs ps1 ! s) \<and> has_params w h cw ch raw bits (objs ps1 ! s)) \<and>
    mc_img (objs ps1 ! 0) = mc_img (objs ps ! 0) \<and> mc_compressed (objs ps1 ! 0) = mc_compressed (objs ps ! 0)"
proof -
  let ?p = "length ps" and ?ps = "get_from_head copy_params_seq ps"
  have p: "0 < ?p" using compress_okD(8) [OF ok] .
  have len: "length ?ps = ?p" using arg_cong [OF objs_get_from_head [of copy_params_seq ps], of length] by simp
  have nth: "objs ?ps ! s = (if s = 0 then objs ps ! 0 else copy_params_seq (objs ps ! 0) (objs ps ! s))" if "s < ?p" for s
    unfolding objs_get_from_head using that by simp
  have par: "has_params w h cw ch raw bits (objs ?ps ! s)" if "s < ?p" for s
    unfolding nth [OF that] using head by (simp add: has_params_def copy_params_seq_def copy_params_def)
  have "\<exists>ps1. on_all (prepare_part ?p) ?ps = Inr ps1 \<and> length ps1 = length ?ps \<and>
      (\<forall>s<length ?ps. has_part ?p w h cw ch raw bits s (objs ps1 ! s) \<and> has_params w h cw ch raw bits (objs ps1 ! s) \<and>
        mc_img (objs ps1 ! s) = mc_img (objs ?ps ! s) \<and> mc_compressed (objs ps1 ! s) = mc_compressed (objs ?ps ! s)) \<and>
      map step_view ps1 = map step_view ?ps \<and> map actor_frame ps1 = map actor_frame ?ps"
  proof (rule on_all_ex)
    fix s assume "s < length ?ps"
    then have s: "s < ?p" using len by simp
    from prepare_part_eq [OF ok s par [OF s]] par [OF s]
    show "\<exists>o1. prepare_part ?p s (objs ?ps ! s) = Inr o1 \<and> has_part ?p w h cw ch raw bits s o1 \<and> has_params w h cw ch raw bits o1 \<and>
        mc_img o1 = mc_img (objs ?ps ! s) \<and> mc_compressed o1 = mc_compressed (objs ?ps ! s)"
      by (auto simp: has_part_def has_params_def)
  qed
  then obtain ps1 where q: "on_all (prepare_part ?p) ?ps = Inr ps1" "length ps1 = ?p"
    "\<forall>s<?p. has_part ?p w h cw ch raw bits s (objs ps1 ! s) \<and> has_params w h cw ch raw bits (objs ps1 ! s) \<and>
        mc_img (objs ps1 ! s) = mc_img (objs ?ps ! s) \<and> mc_compressed (objs ps1 ! s) = mc_compressed (objs ?ps ! s)"
    unfolding len by blast
  then show ?thesis using p nth [OF p] by auto
qed

lemma seq_gray:
  assumes ok: "compress_ok (length ps) w h cw ch bits" and px: "length px = 3 * (w * h)"
    and head: "has_params w h cw ch raw bits (objs ps ! 0)" "mc_img (objs ps ! 0) = ppm_header w h @ px"
  shows "\<exists>qs. bsp_compress_seq ps = gather_gray qs \<and> length qs = length ps \<and> (\<forall>s<length ps. has_gray (length ps) w h cw ch raw bits px s (objs qs ! s)) \<and>
    gathers cw ch (header_length cw ch raw bits) (objs qs ! 0) \<and> mc_compressed (objs qs ! 0) = mc_compressed (objs ps ! 0)"
proof -
  let ?p = "length ps" and ?H = "header_length cw ch raw bits"
  have p: "0 < ?p" using compress_okD(8) [OF ok] .
  obtain ps1 where p1: "on_all (prepare_part ?p) (get_from_head copy_params_seq ps) = Inr ps1" "length ps1 = ?p"
    "\<And>s. s < ?p \<Longrightarrow> has_part ?p w h cw ch raw bits s (objs ps1 ! s)" "\<And>s. s < ?p \<Longrightarrow> has_params w h cw ch raw bits (objs ps1 ! s)"
    "mc_img (objs ps1 ! 0) = mc_img (objs ps ! 0)" "mc_compressed (objs ps1 ! 0) = mc_compressed (objs ps ! 0)"
    using seq_prepared [OF ok head(1)] by blast
  let ?ps1 = "sync_all ps1"
  have s1: "length ?ps1 = ?p" "objs ?ps1 = objs ps1" using p1(2) by (simp_all del: nth_map)
  obtain ps2 where p2: "scatter_pixels ?ps1 = Inr ps2" "length ps2 = ?p"
    "\<And>s. s < ?p \<Longrightarrow> objs ps2 ! s = (objs ps1 ! s)\<lparr>mc_part := poke 0 (part_pixels ?p w h ch px s) (mc_part (objs ps1 ! s))\<rparr>"
    using scatter_pixels_eq [of ?ps1 w h cw ch bits px raw, unfolded s1] ok px p1(3,4,5) p head(2) by metis
  have len: "length (part_pixels ?p w h ch px s) = 3 * (w * pixel_rows ?p h ch s)" if "s < ?p" for s
    using pixel_range(1) [OF ok that] px by (simp add: length_peek)
  have part2: "has_part ?p w h cw ch raw bits s (objs ps2 ! s)"
    "peek 0 (3 * (w * pixel_rows ?p h ch s)) (mc_part (objs ps2 ! s)) = part_pixels ?p w h ch px s" if "s < ?p" for s
    unfolding p2(3) [OF that] using p1(3) [OF that] len [OF that] by (simp_all add: has_part_def length_poke) (simp add: poke_def peek_def)
  obtain ps3 where p3: "share_header_offset ps2 = Inr ps3" "length ps3 = ?p"
    "\<And>s. s < ?p \<Longrightarrow> objs ps3 ! s = (objs ps2 ! s)\<lparr>mc_header_offset := of_nat ?H\<rparr>"
    using share_header_eq [of ps2 ?p w h cw ch raw bits] part2(1) p p2(2) by auto
  have "\<exists>ps4. on_all compress_part ps3 = Inr ps4 \<and> length ps4 = length ps3 \<and>
      (\<forall>s<length ps3. \<exists>part. objs ps4 ! s = (objs ps3 ! s)\<lparr>mc_part := part\<rparr> \<and> has_gray ?p w h cw ch raw bits px s (objs ps4 ! s)) \<and>
      map step_view ps4 = map step_view ps3 \<and> map actor_frame ps4 = map actor_frame ps3"
  proof (rule on_all_ex)
    fix s assume "s < length ps3"
    then have s: "s < ?p" using p3(2) by simp
    have "has_part ?p w h cw ch raw bits s (objs ps3 ! s)" "mc_part (objs ps3 ! s) = mc_part (objs ps2 ! s)"
      unfolding p3(3) [OF s] using part2(1) [OF s] by (simp_all add: has_part_def)
    then show "\<exists>o2. compress_part s (objs ps3 ! s) = Inr o2 \<and> (\<exists>part. o2 = (objs ps3 ! s)\<lparr>mc_part := part\<rparr> \<and> has_gray ?p w h cw ch raw bits px s o2)"
      using compress_gray [OF ok s px, of raw "objs ps3 ! s"] part2(2) [OF s] by auto
  qed
  then obtain ps4 where p4: "on_all compress_part ps3 = Inr ps4" "length ps4 = ?p" "\<And>s. s < ?p \<Longrightarrow> has_gray ?p w h cw ch raw bits px s (objs ps4 ! s)"
    "\<exists>part. objs ps4 ! 0 = (objs ps3 ! 0)\<lparr>mc_part := part\<rparr>" unfolding p3(2) using p by blast
  have "gathers cw ch ?H (objs ps4 ! 0) \<and> mc_compressed (objs ps4 ! 0) = mc_compressed (objs ps ! 0)"
    using p4(4) p3(3) [OF p] p2(3) [OF p] p1(4) [OF p] p1(6) by (auto simp: gathers_def has_params_def)
  then show ?thesis using p1(1) p2(1) p3(1) p4 by (intro exI [of _ ps4]) (simp add: bsp_compress_seq_def)
qed

section \<open>Gathering the gray levels\<close>

lemma gather_range_eq:
  assumes ok: "compress_ok p w h cw ch bits" and s: "s < p" and head: "gathers cw ch H head" and H: "H \<le> 29"
  shows "\<exists>dst n. gather_range p head s = Inr (dst, n) \<and> unat (scast dst :: size_t) = (if s = 0 then 0 else H) + block_begin ch p s * cw \<and>
    unat (scast n :: size_t) = (if s = 0 then H else 0) + block_size ch p s * cw"
proof -
  note o = compress_okD [OF ok] and a = range_arith [OF ok s H]
  let ?n = "block_size ch p s" and ?b = "block_begin ch p s"
  have ch: "ch < 2 ^ 31" using o(5,12) by linarith
  have n: "?n < 2 ^ 31" using row_bounds(6) [OF ok s] ch by linarith
  have d: "(ucast (of_nat (?b + ?n) - of_nat ?b :: size_t) :: c_int) = of_nat ?n"
  proof -
    have "(of_nat (?b + ?n) - of_nat ?b :: size_t) = of_nat ?n" by simp
    then show ?thesis using n by simp
  qed
  let ?dst = "(if s = 0 then 0 else H) + ?b * cw" and ?m = "(if s = 0 then H else 0) + ?n * cw"
  have w: "mc_compress_width head = of_nat cw" "mc_compress_height head = of_nat ch" "mc_header_offset head = of_nat H"
    using head by (simp_all add: gathers_def)
  have "gather_range p head s = Inr (of_nat ?dst, of_nat ?m)"
    unfolding gather_range_def w scast_int_size [OF ch] div_range_eq [OF ch s o(9)] bindE_Inr prod.case d a(1) Let_def
    using a(2-4) by (cases "s = 0") (simp_all del: of_nat_mult of_nat_add)
  moreover have "?dst < 2 ^ 31" "?m < 2 ^ 31" using a(5,6) by (cases "s = 0"; simp)+
  note small = this [THEN unat_scast_int]
  ultimately show ?thesis using small by blast
qed

lemma foldE_enumerate:
  assumes "\<And>j. j < length xs \<Longrightarrow> f (j, xs ! j) (S j) = Inr (S (Suc j))"
  shows "foldE f (enumerate 0 xs) (S 0) = Inr (S (length xs))"
proof -
  have "foldE f (map (\<lambda>j. (j, xs ! j)) [0..<k]) (S 0) = Inr (S k)" if "k \<le> length xs" for k
    using that assms by (induction k) (simp_all add: foldE_append)
  then show ?thesis by (simp add: enumerate_upt)
qed

lemma poke_next:
  assumes "a + n \<le> length img" and "length c = length img"
  shows "poke a (peek a n img) (take a img @ drop a c) = take (a + n) img @ drop (a + n) c"
  using assms by (simp add: poke_def peek_def take_add add.commute)

lemma gather_all:
  assumes ok: "compress_ok (length ps) w h cw ch bits" and gray: "\<And>s. s < length ps \<Longrightarrow> has_gray (length ps) w h cw ch True bits px s (objs ps ! s)"
    and head: "gathers cw ch 0 head" "length compressed = ch * cw"
  shows "foldE (gather_get (length ps) head) (enumerate 0 (objs ps)) compressed = Inr (compressed_pixels w h cw ch bits px)"
proof -
  let ?p = "length ps" and ?img = "compressed_pixels w h cw ch bits px"
  define S where "S k = take (block_begin ch ?p k * cw) ?img @ drop (block_begin ch ?p k * cw) compressed" for k
  have H: "header_length cw ch True bits = 0" by (simp add: header_length_def own_header_def)
  have step: "gather_get ?p head (s, objs ps ! s) (S s) = Inr (S (Suc s))" if s: "s < ?p" for s
  proof -
    let ?b = "block_begin ch ?p s * cw" and ?n = "block_size ch ?p s * cw"
    obtain dst n where r: "gather_range ?p head s = Inr (dst, n)" "unat (scast dst :: size_t) = ?b" "unat (scast n :: size_t) = ?n"
      using gather_range_eq [OF ok s head(1)] by auto
    have "mem_read (mc_part (objs ps ! s)) 0 ?n = Inr (peek ?b ?n ?img)"
      using gray [OF s] H by (simp add: has_gray_def mem_read_def peek_def)
    moreover have "(block_begin ch ?p s + block_size ch ?p s) * cw \<le> ch * cw" using block_size_le [OF s] by (rule mult_le_mono1)
    then have le: "?b + ?n \<le> ch * cw" by (simp add: add_mult_distrib)
    then have len: "length (peek ?b ?n ?img) = ?n" "length (S s) = ch * cw" using head(2) by (simp_all add: length_peek S_def)
    have "poke ?b (peek ?b ?n ?img) (S s) = S (Suc s)"
      unfolding S_def using poke_next [of ?b ?n ?img compressed] le head(2) by (simp add: block_begin_Suc add_mult_distrib)
    moreover have "?b + length (peek ?b ?n ?img) \<le> length (S s)" using le by (simp only: len)
    ultimately show ?thesis unfolding gather_get_def prod.case r(1) bindE_Inr r(2,3) by (simp only: bindE_Inr mem_write_def if_True)
  qed
  have "foldE (gather_get ?p head) (enumerate 0 (objs ps)) (S 0) = Inr (S ?p)"
    using foldE_enumerate [of "objs ps" "gather_get ?p head" S] step by simp
  moreover have "S 0 = compressed" "S ?p = ?img" using head(2) compress_okD(8) [OF ok] by (simp_all add: S_def block_begin_all)
  ultimately show ?thesis by simp
qed

text \<open>The bytes of the last process do not fit behind a header.\<close>

lemma foldE_fails:
  assumes "x \<in> set xs" and "\<And>c. length c = n \<Longrightarrow> f x c = Inl e" and "length c = n"
    and "\<And>y c. y \<in> set xs \<Longrightarrow> length c = n \<Longrightarrow> f y c = Inl e \<or> (\<exists>c'. f y c = Inr c' \<and> length c' = n)"
  shows "foldE f xs c = Inl e"
  using assms(1,3,4)
proof (induction xs arbitrary: c)
  case (Cons y xs)
  show ?case
  proof (cases "f y c = Inl e")
    case False
    then obtain c' where c: "f y c = Inr c'" "length c' = n" using Cons.prems(2,3) by fastforce
    then have "x \<in> set xs" using Cons.prems(1,2) assms(2) by auto
    then show ?thesis using Cons.IH [OF _ c(2)] Cons.prems(3) c(1) by simp
  qed simp
qed simp

lemma gather_overflows:
  assumes ok: "compress_ok (length ps) w h cw ch bits" and gray: "\<And>s. s < length ps \<Longrightarrow> has_gray (length ps) w h cw ch False bits px s (objs ps ! s)"
    and head: "gathers cw ch (header_length cw ch False bits) head" "length compressed = ch * cw"
  shows "foldE (gather_get (length ps) head) (enumerate 0 (objs ps)) compressed = Inl Out_of_bounds"
proof (rule foldE_fails [OF _ _ head(2)])
  let ?p = "length ps" and ?H = "header_length cw ch False bits"
  have p: "0 < ?p" using compress_okD(8) [OF ok] .
  have H: "?H \<le> 29" "0 < ?H" by (rule header_length_le [OF ok]) (simp add: header_length_def own_header_def pgm_header_def)
  have get: "gather_get ?p head (s, objs ps ! s) c = mem_write ((if s = 0 then 0 else ?H) + block_begin ch ?p s * cw)
      (peek 0 ((if s = 0 then ?H else 0) + block_size ch ?p s * cw) (mc_part (objs ps ! s))) c"
    and room: "(if s = 0 then ?H else 0) + block_size ch ?p s * cw \<le> length (mc_part (objs ps ! s))" if s: "s < ?p" for s c
  proof -
    show room: "(if s = 0 then ?H else 0) + block_size ch ?p s * cw \<le> length (mc_part (objs ps ! s))" using gray [OF s] by (simp add: has_gray_def)
    obtain dst n where r: "gather_range ?p head s = Inr (dst, n)" "unat (scast dst :: size_t) = (if s = 0 then 0 else ?H) + block_begin ch ?p s * cw"
      "unat (scast n :: size_t) = (if s = 0 then ?H else 0) + block_size ch ?p s * cw"
      using gather_range_eq [OF ok s head(1) H(1)] by blast
    show "gather_get ?p head (s, objs ps ! s) c = mem_write ((if s = 0 then 0 else ?H) + block_begin ch ?p s * cw)
        (peek 0 ((if s = 0 then ?H else 0) + block_size ch ?p s * cw) (mc_part (objs ps ! s))) c"
      unfolding gather_get_def prod.case r(1) bindE_Inr r(2,3) using room by (simp only: mem_read_def add_0 if_True bindE_Inr)
  qed
  show "(?p - 1, objs ps ! (?p - 1)) \<in> set (enumerate 0 (objs ps))" using p by (simp add: in_set_enumerate_eq)
  show "gather_get ?p head (?p - 1, objs ps ! (?p - 1)) c = Inl Out_of_bounds" if c: "length c = ch * cw" for c
  proof -
    have s: "?p - 1 < ?p" using p by simp
    have "block_begin ch ?p (?p - 1) + block_size ch ?p (?p - 1) = ch" using p block_begin_Suc [of ch ?p "?p - 1"] by (simp add: block_begin_all)
    then have eq: "block_begin ch ?p (?p - 1) * cw + block_size ch ?p (?p - 1) * cw = ch * cw" by (metis add_mult_distrib)
    let ?d = "(if ?p - 1 = 0 then 0 else ?H) + block_begin ch ?p (?p - 1) * cw" and ?m = "(if ?p - 1 = 0 then ?H else 0) + block_size ch ?p (?p - 1) * cw"
    have "(if P then 0 else k) + b + ((if P then k else 0) + n) = k + (b + n)" for P and k b n :: nat by simp
    then have "?d + ?m = ?H + ch * cw" unfolding eq [symmetric] .
    moreover have "length (peek 0 ?m (mc_part (objs ps ! (?p - 1)))) = ?m" using room [OF s] by (simp only: length_peek min_def diff_zero if_True)
    ultimately have "\<not> ?d + length (peek 0 ?m (mc_part (objs ps ! (?p - 1)))) \<le> length c" using H(2) c by linarith
    then show ?thesis unfolding get [OF s] mem_write_def by (simp only: if_False)
  qed
  show "gather_get ?p head y c = Inl Out_of_bounds \<or> (\<exists>c'. gather_get ?p head y c = Inr c' \<and> length c' = ch * cw)"
    if y: "y \<in> set (enumerate 0 (objs ps))" and c: "length c = ch * cw" for y c
  proof -
    obtain s where "y = (s, objs ps ! s)" "s < ?p" using y by (auto simp: in_set_enumerate_eq prod_eq_iff simp del: nth_map)
    then show ?thesis using c by (simp only: get mem_write_def) (simp add: length_poke)
  qed
qed

section \<open>Properties\<close>

lemma compressSeq_head:
  assumes ok: "compress_ok (length ps) w h cw ch bits" and img: "img = ppm_header w h @ px" "length px = 3 * (w * h)"
  shows "\<exists>qs. length qs = length ps \<and> (\<forall>s<length ps. has_gray (length ps) w h cw ch raw bits px s (objs qs ! s)) \<and>
    gathers cw ch (header_length cw ch raw bits) (objs qs ! 0) \<and> length (mc_compressed (objs qs ! 0)) = ch * cw \<and>
    compressSeq img (of_nat cw) (of_nat ch) raw (of_nat bits) ps = bindE (gather_gray qs) (\<lambda>rs.
      case objs rs of [] \<Rightarrow> Inl Out_of_bounds | o1 # _ \<Rightarrow> Inr (mc_compressed o1, rs))"
proof -
  note o = compress_okD [OF ok]
  obtain a rest where ps: "ps = a # rest" using o(8) by (cases ps) auto
  have wh: "w < 2 ^ 31" "h < 2 ^ 31" "cw < 2 ^ 31" "ch < 2 ^ 31" using o(3,5,11,12) by linarith+
  have "cw * ch \<le> w * h" using o(3,5) by (intro mult_le_mono)
  then have area: "cw * ch < 2 ^ 31" using o(10) by linarith
  have mul: "mul_int (of_nat cw) (of_nat ch) = Inr (of_nat (cw * ch))" by (rule mul_int_of_nat [OF wh(3,4) area])
  note size = unat_scast_int [OF area]
  have big: "(2 ^ 63 \<le> cw * ch) = False" using less_trans [OF area, of "2 ^ 63"] by simp
  have hlen: "0 < length (ppm_header w h)" by (simp add: ppm_header_def)
  let ?upd = "\<lambda>o1. o1\<lparr>mc_img := img, mc_qraw := raw, mc_bitsperPixel := of_nat bits, mc_width := of_nat w, mc_height := of_nat h,
      mc_header_offset := of_nat (length (ppm_header w h) - 1 + 1), mc_compress_width := of_nat cw, mc_compress_height := of_nat ch,
      mc_compressed := vec_resize (cw * ch) 0 (mc_compressed o1)\<rparr>"
  have run: "compressSeq img (of_nat cw) (of_nat ch) raw (of_nat bits) ps = bindE (bsp_compress_seq (upd_head ?upd ps)) (\<lambda>rs.
      case objs rs of [] \<Rightarrow> Inl Out_of_bounds | o1 # _ \<Rightarrow> Inr (mc_compressed o1, rs))"
    unfolding compressSeq_def ps list.map list.case img(1) header_parsed [OF wh(1,2)] bindE_Inr prod.case mul size big if_False ..
  have len: "length (upd_head ?upd ps) = length ps" by (simp add: ps)
  have h0: "objs (upd_head ?upd ps) ! 0 = ?upd (ab_obj a)" by (simp add: ps)
  have params: "has_params w h cw ch raw bits (objs (upd_head ?upd ps) ! 0)" "mc_img (objs (upd_head ?upd ps) ! 0) = ppm_header w h @ px"
    unfolding h0 using hlen img(1) by (simp_all add: has_params_def)
  have comp: "length (mc_compressed (objs (upd_head ?upd ps) ! 0)) = ch * cw" unfolding h0 by (simp add: mult.commute)
  from seq_gray [OF ok [folded len] img(2) params] show ?thesis unfolding run len using comp by (elim exE conjE) (intro exI conjI; simp only: simp_thms)
qed

text \<open>For raw output it returns the compressed image.\<close>

lemma compressSeq_image:
  assumes "compress_ok (length ps) w h cw ch bits" and "length px = 3 * (w * h)"
  shows "\<exists>qs. compressSeq (ppm_header w h @ px) (of_nat cw) (of_nat ch) True (of_nat bits) ps = Inr (compressed_image w h cw ch True bits px, qs)"
proof -
  have H: "header_length cw ch True bits = 0" "own_header 0 cw ch True bits = []" by (simp_all add: header_length_def own_header_def)
  obtain qs where q: "length qs = length ps" "\<And>s. s < length ps \<Longrightarrow> has_gray (length ps) w h cw ch True bits px s (objs qs ! s)"
    "gathers cw ch 0 (objs qs ! 0)" "length (mc_compressed (objs qs ! 0)) = ch * cw"
    "compressSeq (ppm_header w h @ px) (of_nat cw) (of_nat ch) True (of_nat bits) ps = bindE (gather_gray qs) (\<lambda>rs.
      case objs rs of [] \<Rightarrow> Inl Out_of_bounds | o1 # _ \<Rightarrow> Inr (mc_compressed o1, rs))"
    using compressSeq_head [OF assms(1) refl assms(2), of True] unfolding H(1) by blast
  obtain a rest where qs: "qs = a # rest" using q(1) compress_okD(8) [OF assms(1)] by (cases qs) auto
  from gather_all [of qs, unfolded q(1), OF assms(1) q(2,3,4)]
  have "foldE (gather_get (length qs) (ab_obj a)) (enumerate 0 (objs qs)) (mc_compressed (ab_obj a)) = Inr (compressed_pixels w h cw ch bits px)"
    by (simp add: qs q(1) [symmetric])
  then show ?thesis unfolding q(5) by (simp add: gather_gray_def qs compressed_image_def H(2) sync_all_def base_sync_def)
qed

lemma length_compressed_image:
  assumes "compress_ok p w h cw ch bits"
  shows "length (compressed_image w h cw ch True bits px) = ch * cw"
  by (simp add: compressed_image_def compressed_pixels_def own_header_def header_length_def)

text \<open>
  Property C30: for raw output, \<^verbatim>\<open>compressSeq\<close> and \<^verbatim>\<open>compressDv\<close> give the same image. The first runs on the
  whole image on the head of one actor and returns \<open>cw * ch\<close> gray levels; the second runs on the same image,
  distributed in any way, on another actor, of any number of processes. Any process that reads the result of the
  second, once its parts are stored, gets the bytes the first returned. Both numbers of processes leave every
  process rows to compress (\<^const>\<open>compress_ok\<close>), and the image has the 100 bytes \<^verbatim>\<open>compressDv\<close> reads
  for its header.
\<close>

theorem compressSeq_same_image:
  assumes seq: "compress_ok (length ps) w h cw ch bits"
    and grp: "mc_group qs" and res: "result_group servers qs" and self: "self \<notin> ab_node ` set qs"
    and image: "describes parts v" "v = ppm_header w h @ px" "length px = 3 * (w * h)" "100 \<le> length v"
    and reads: "\<forall>s<length qs. reads_vector (reads s) (vd_bytes parts) v" and buf: "length header_buf = 100"
    and ok: "compress_ok (length qs) w h cw ch bits"
  shows "\<exists>img ps' dv qs' servers'. compressSeq v (of_nat cw) (of_nat ch) True (of_nat bits) ps = Inr (img, ps') \<and> length img = cw * ch \<and>
    compressDv blocks addr reads header_buf (vd_bytes parts) (of_nat cw) (of_nat ch) True (of_nat bits) qs = Inr (dv, qs') \<and>
    deliver_own envs (last_messages qs') servers = Inr servers' \<and>
    (\<forall>from m out. from + m \<le> length img \<longrightarrow> length out = m \<longrightarrow> (\<exists>sent.
      absp_dv_get_part rblocks self place stores (Vector_Access.served envs' servers' self) dv (of_nat from) (of_nat m) out =
        Inr (sent, peek from m img)))"
proof -
  let ?img = "compressed_image w h cw ch True bits px"
  obtain ps' where s: "compressSeq v (of_nat cw) (of_nat ch) True (of_nat bits) ps = Inr (?img, ps')"
    using compressSeq_image [OF seq image(3)] unfolding image(2) by blast
  have len: "length ?img = cw * ch" using length_compressed_image [OF ok] by (simp add: mult.commute)
  obtain dv qs' servers' where r: "compressDv blocks addr reads header_buf (vd_bytes parts) (of_nat cw) (of_nat ch) True (of_nat bits) qs = Inr (dv, qs')"
    "deliver_own envs (last_messages qs') servers = Inr servers'" "vector_held servers' self stores dv ?img"
    using compressDv_held [OF grp res self image reads buf ok] by blast
  from absp.read_range [OF r(3)] show ?thesis
    by (intro exI [of _ ?img] exI [of _ ps'] exI [of _ dv] exI [of _ qs'] exI [of _ servers'] conjI s len r(1,2) allI impI) assumption
qed

text \<open>The image on the head of one process, and as a single part of process 9 for an actor of two.\<close>

theorem compressSeq_same_image_witness:
  "\<exists>img ps' dv qs servers' sent. compressSeq (ppm_header 4 8 @ replicate 96 0) 2 2 True 8 (new_compressors 1) = Inr (img, ps') \<and>
    compressDv (\<lambda>_. \<lparr>bl_addr = 1, bl_mem = \<lambda>_. 0\<rparr>) 0 (\<lambda>s. direct_reader (\<lambda>dv. ppm_header 4 8 @ replicate 96 0)) (replicate 100 0)
      (vd_bytes [\<lparr>vp_pid = 9, vp_resid = 0, vp_size = 107, vp_offset = 0\<rparr>]) 2 2 True 8 (new_compressors 2) = Inr (dv, qs) \<and>
    deliver_own (\<lambda>_. plain_env) (last_messages qs) ActorServer = Inr servers' \<and>
    absp_dv_get_part (\<lambda>_. \<lparr>bl_addr = 1, bl_mem = \<lambda>_. 0\<rparr>) 5 100 (\<lambda>_. []) (Vector_Access.served (\<lambda>_. plain_env) servers' 5)
      dv 0 4 [0, 0, 0, 0] = Inr (sent, img)"
proof -
  let ?px = "replicate 96 0 :: byte list" let ?v = "ppm_header 4 8 @ ?px" and ?ps = "new_compressors 2"
  let ?reads = "\<lambda>s :: nat. direct_reader (\<lambda>dv. ?v)" and ?b = "\<lambda>_ :: nat. \<lparr>bl_addr = 1, bl_mem = \<lambda>_. 0\<rparr>"
  let ?part = "\<lparr>vp_pid = 9, vp_resid = 0, vp_size = 107, vp_offset = 0\<rparr>"
  have len: "length ?v = 107" by (simp add: ppm_header_small)
  have desc: "describes [?part] ?v" using len by (auto simp: describes_def vd_small_def)
  have px: "length ?px = 3 * (4 * 8)" "100 \<le> length ?v" "length (replicate 100 (0 :: byte)) = 100" using len by simp_all
  have reads: "\<forall>s<length ?ps. reads_vector (?reads s) (vd_bytes [?part]) ?v" using len by (simp add: direct_reader_reads)
  have ok: "compress_ok (length (new_compressors 1)) 4 8 2 2 8" "compress_ok (length ?ps) 4 8 2 2 8"
    using new_compressors_ok(2) [of 1] two_compressors_ok(2) by (simp_all only:) (rule compress_ok_dividing; simp)+
  obtain img ps' dv qs servers' where r: "compressSeq ?v (of_nat 2) (of_nat 2) True (of_nat 8) (new_compressors 1) = Inr (img, ps')" "length img = 2 * 2"
    "compressDv ?b 0 ?reads (replicate 100 0) (vd_bytes [?part]) (of_nat 2) (of_nat 2) True (of_nat 8) ?ps = Inr (dv, qs)"
    "deliver_own (\<lambda>_. plain_env) (last_messages qs) ActorServer = Inr servers'"
    "\<forall>from m out. from + m \<le> length img \<longrightarrow> length out = m \<longrightarrow> (\<exists>sent.
      absp_dv_get_part ?b 5 100 (\<lambda>_. []) (Vector_Access.served (\<lambda>_. plain_env) servers' 5) dv (of_nat from) (of_nat m) out = Inr (sent, peek from m img))"
    using compressSeq_same_image [OF ok(1) two_compressors_ok(1,3,4) desc refl px(1,2) reads px(3) ok(2),
      of ?b 0 "\<lambda>_. plain_env" ?b 100 "\<lambda>_. []" "\<lambda>_. plain_env"] by blast
  have "0 + 4 \<le> length img" "length [0, 0, 0, 0 :: byte] = 4" using r(2) by simp_all
  then obtain sent where "absp_dv_get_part ?b 5 100 (\<lambda>_. []) (Vector_Access.served (\<lambda>_. plain_env) servers' 5) dv (of_nat 0) (of_nat 4) [0, 0, 0, 0] =
      Inr (sent, peek 0 4 img)"
    using r(5) by blast
  moreover have "peek 0 4 img = img" using r(2) by (simp add: peek_def)
  ultimately show ?thesis using r(1,3,4)
    by (intro exI [of _ img] exI [of _ ps'] exI [of _ dv] exI [of _ qs] exI [of _ servers'] exI [of _ sent]) simp
qed

text \<open>
  Property C35: without raw output \<^verbatim>\<open>compressSeq\<close> always writes past the end of its result, in which there is no room for
  the header.
\<close>

theorem compressSeq_header_overflows:
  assumes "compress_ok (length ps) w h cw ch bits" and "length px = 3 * (w * h)"
  shows "compressSeq (ppm_header w h @ px) (of_nat cw) (of_nat ch) False (of_nat bits) ps = Inl Out_of_bounds"
proof -
  obtain qs where q: "length qs = length ps" "\<And>s. s < length ps \<Longrightarrow> has_gray (length ps) w h cw ch False bits px s (objs qs ! s)"
    "gathers cw ch (header_length cw ch False bits) (objs qs ! 0)" "length (mc_compressed (objs qs ! 0)) = ch * cw"
    "compressSeq (ppm_header w h @ px) (of_nat cw) (of_nat ch) False (of_nat bits) ps = bindE (gather_gray qs) (\<lambda>rs.
      case objs rs of [] \<Rightarrow> Inl Out_of_bounds | o1 # _ \<Rightarrow> Inr (mc_compressed o1, rs))"
    using compressSeq_head [OF assms(1) refl assms(2), of False] by blast
  obtain a rest where qs: "qs = a # rest" using q(1) compress_okD(8) [OF assms(1)] by (cases qs) auto
  from gather_overflows [of qs, unfolded q(1), OF assms(1) q(2,3,4)]
  have "foldE (gather_get (length qs) (ab_obj a)) (enumerate 0 (objs qs)) (mc_compressed (ab_obj a)) = Inl Out_of_bounds"
    by (simp add: qs q(1) [symmetric])
  then show ?thesis unfolding q(5) by (simp add: gather_gray_def qs)
qed

theorem compressSeq_header_overflows_witness:
  "compressSeq (ppm_header 4 8 @ replicate 96 0) 2 2 False 8 (new_compressors 2) = Inl Out_of_bounds"
proof -
  have "compress_ok (length (new_compressors 2)) 4 8 2 2 8" by (simp only: two_compressors_ok(2) small_image_ok)
  from compressSeq_header_overflows [OF this, of "replicate 96 0"] show ?thesis by simp
qed

end
