(* ===== verification/Pipe_Actor.thy ===== *)
theory Pipe_Actor
  imports Group_Result
begin

text \<open>
  The actor \<^verbatim>\<open>PipeActor\<close> and the client of src/src/examples/pipeactor/src/main.cpp: one actor produces a vector of
  integers, others fetch it from each other, the last one adds its elements up. The variant of
  src/src/examples/prefetch/src/main.cpp waits between fetching and returning a vector.
\<close>

section \<open>The actor\<close>

text \<open>\<open>pa_part\<close> and \<open>pa_res\<close> are the local variables \<^verbatim>\<open>part_offset\<close>, \<^verbatim>\<open>part_size\<close> and \<^verbatim>\<open>res\<close> of the SPMD functions.\<close>

record pipe_actor =
  pa_size :: size_t
  pa_v :: "c_int list"
  pa_vd :: vector_distribution
  pa_local_res :: "c_int list"
  pa_part :: "size_t \<times> size_t"
  pa_res :: c_int

text \<open>\<open>mem\<close> is what the members the constructor does not initialise hold.\<close>

definition PipeActor :: "nat \<Rightarrow> 'a pipe_actor_scheme \<Rightarrow> 'a pipe_actor_scheme result" where
  "PipeActor p mem = bindE (vector_distribution_base 1) (\<lambda>vd.
     Inr (mem\<lparr>pa_v := [], pa_vd := vd, pa_local_res := vec_resize p 0 []\<rparr>))"

text \<open>\<^verbatim>\<open>_v.resize(part_size)\<close> for the block of process \<open>s\<close> of \<open>n\<close> elements.\<close>

definition own_block :: "nat \<Rightarrow> nat \<Rightarrow> size_t \<Rightarrow> 'a pipe_actor_scheme \<Rightarrow> 'a pipe_actor_scheme result" where
  "own_block p s n o1 =
     bindE (div_range n (of_nat s) (of_nat p)) (\<lambda>(part_offset, part_end).
       let part_size = part_end - part_offset
       in if 2 ^ 61 \<le> unat part_size then Inl Bad_alloc
          else Inr (o1\<lparr>pa_v := vec_resize (unat part_size) 0 (pa_v o1), pa_part := (part_offset, part_size)\<rparr>))"

definition fill_block :: "nat \<Rightarrow> nat \<Rightarrow> 'a pipe_actor_scheme \<Rightarrow> 'a pipe_actor_scheme result" where
  "fill_block p s o1 =
     bindE (own_block p s (pa_size o1) o1) (\<lambda>o2.
       Inr (o2\<lparr>pa_v := map (\<lambda>i. ucast (of_nat i + fst (pa_part o2) :: size_t)) [0..<length (pa_v o2)]\<rparr>))"

definition block_registered :: "nat \<Rightarrow> 'a pipe_actor_scheme \<Rightarrow> byte list \<times> size_t \<times> size_t" where
  "block_registered s o1 = (ints_bytes (pa_v o1), snd (pa_part o1), fst (pa_part o1))"

definition bsp_produce_dv ::
  "(nat \<Rightarrow> block) \<Rightarrow> size_t \<Rightarrow> 'a pipe_actor_scheme actor_base list \<Rightarrow> 'a pipe_actor_scheme actor_base list result"
where
  "bsp_produce_dv blocks addr ps =
     bindE (on_all (fill_block (length ps)) (get_from_head (\<lambda>head o1. o1\<lparr>pa_size := pa_size head\<rparr>) ps)) (\<lambda>ps1.
     bindE (register_all_parts 4 blocks addr block_registered ps1) (\<lambda>ps2. Inr (sync_all ps2)))"

text \<open>\<^verbatim>\<open>get_part<int>(_vd, part_offset, _v.data(), part_size)\<close> of the block of the process.\<close>

definition block_to_read :: "nat \<Rightarrow> 'a pipe_actor_scheme \<Rightarrow> (vector_distribution \<times> size_t \<times> size_t \<times> byte list) result" where
  "block_to_read s o1 = Inr (pa_vd o1, fst (pa_part o1), snd (pa_part o1), ints_bytes (pa_v o1))"

definition put_block :: "byte list \<Rightarrow> 'a pipe_actor_scheme \<Rightarrow> 'a pipe_actor_scheme" where
  "put_block buf o1 = o1\<lparr>pa_v := bytes_ints (length (pa_v o1)) buf\<rparr>"

definition read_int_blocks ::
  "(nat \<Rightarrow> reader) \<Rightarrow> 'a pipe_actor_scheme actor_base list \<Rightarrow> 'a pipe_actor_scheme actor_base list result"
where
  "read_int_blocks reads ps =
     bindE (on_all (\<lambda>s o1. bindE (typed_getVecSize 4 (pa_vd o1)) (\<lambda>n. own_block (length ps) s n o1)) ps)
       (read_all_parts (\<lambda>s. typed_dv_get_part 4 (reads s)) block_to_read put_block)"

definition bsp_fetch_dv ::
  "(nat \<Rightarrow> block) \<Rightarrow> size_t \<Rightarrow> (nat \<Rightarrow> reader) \<Rightarrow> 'a pipe_actor_scheme actor_base list \<Rightarrow> 'a pipe_actor_scheme actor_base list result"
where
  "bsp_fetch_dv blocks addr reads ps =
     bindE (broadcast_member pa_vd (\<lambda>dv o1. o1\<lparr>pa_vd := dv\<rparr>) ps) (\<lambda>ps1.
     bindE (read_int_blocks reads (sync_all ps1)) (\<lambda>ps2.
     bindE (register_all_parts 4 blocks addr block_registered ps2) (\<lambda>ps3. Inr (sync_all ps3))))"

text \<open>\<^verbatim>\<open>for (i < n) res += x[i]\<close>.\<close>

definition sum_ints :: "c_int list \<Rightarrow> c_int \<Rightarrow> c_int result" where
  "sum_ints = foldE (\<lambda>x res. add_int res x)"

text \<open>Every process puts its sum to the element of its pid of \<^verbatim>\<open>_local_res\<close> of the head.\<close>

definition put_local_res :: "'a pipe_actor_scheme actor_base list \<Rightarrow> 'a pipe_actor_scheme actor_base list result" where
  "put_local_res ps = (case objs ps of [] \<Rightarrow> Inl Out_of_bounds
     | head # _ \<Rightarrow> bindE (all_to_all (map pa_res (objs ps)) (pa_local_res head)) (\<lambda>r.
         Inr (sync_all (upd_head (\<lambda>o1. o1\<lparr>pa_local_res := r\<rparr>) ps))))"

definition bsp_reduce_dv ::
  "(nat \<Rightarrow> reader) \<Rightarrow> 'a pipe_actor_scheme actor_base list \<Rightarrow> 'a pipe_actor_scheme actor_base list result"
where
  "bsp_reduce_dv reads ps =
     bindE (broadcast_member pa_vd (\<lambda>dv o1. o1\<lparr>pa_vd := dv\<rparr>) ps) (\<lambda>ps1.
     bindE (read_int_blocks reads ps1) (\<lambda>ps2.
     bindE (on_all (\<lambda>s o1. bindE (sum_ints (pa_v o1) 0) (\<lambda>res. Inr (o1\<lparr>pa_res := res\<rparr>))) ps2) put_local_res))"

section \<open>Its methods\<close>

definition produce_dv ::
  "(nat \<Rightarrow> block) \<Rightarrow> size_t \<Rightarrow> size_t \<Rightarrow> 'a pipe_actor_scheme actor_base list \<Rightarrow>
    (vector_distribution \<times> 'a pipe_actor_scheme actor_base list) result"
where
  "produce_dv blocks addr n ps = bindE (bsp_produce_dv blocks addr (upd_head (\<lambda>o1. o1\<lparr>pa_size := n\<rparr>) ps)) gather_result"

text \<open>\<open>vd\<close> is the value of the future.\<close>

definition fetch_dv ::
  "(nat \<Rightarrow> block) \<Rightarrow> size_t \<Rightarrow> (nat \<Rightarrow> reader) \<Rightarrow> vector_distribution \<Rightarrow> 'a pipe_actor_scheme actor_base list \<Rightarrow>
    (vector_distribution \<times> 'a pipe_actor_scheme actor_base list) result"
where
  "fetch_dv blocks addr reads vd ps =
     bindE (bsp_fetch_dv blocks addr reads (upd_head (\<lambda>o1. o1\<lparr>pa_vd := vd\<rparr>) ps)) gather_result"

definition reduce_dv ::
  "(nat \<Rightarrow> reader) \<Rightarrow> vector_distribution \<Rightarrow> 'a pipe_actor_scheme actor_base list \<Rightarrow>
    (c_int \<times> 'a pipe_actor_scheme actor_base list) result"
where
  "reduce_dv reads vd ps =
     bindE (bsp_reduce_dv reads (upd_head (\<lambda>o1. o1\<lparr>pa_vd := vd\<rparr>) ps)) (\<lambda>qs. case objs qs of [] \<Rightarrow> Inl Out_of_bounds
       | head # _ \<Rightarrow>
           if length qs \<le> length (pa_local_res head)
           then bindE (sum_ints (take (length qs) (pa_local_res head)) 0) (\<lambda>res. Inr (res, qs)) else Inl Out_of_bounds)"

text \<open>
  The client: the description each method returns is given to the next one, and the management
  threads of a group handle what its processes have sent them before others read from them.
\<close>

definition pipe_main ::
  "(nat \<Rightarrow> block) \<Rightarrow> size_t \<Rightarrow> size_t \<Rightarrow> (c_int \<Rightarrow> server_env) \<Rightarrow> size_t \<Rightarrow> (c_int \<Rightarrow> actor_server) \<Rightarrow>
    pipe_actor actor_base list \<Rightarrow> pipe_actor actor_base list \<Rightarrow> pipe_actor actor_base list \<Rightarrow> c_int result"
where
  "pipe_main blocks addr base envs n servers a b c =
     bindE (produce_dv blocks addr n a) (\<lambda>(f1, a1).
     bindE (deliver_own envs (last_messages a1) servers) (\<lambda>servers1.
     bindE (fetch_dv blocks addr (group_readers blocks base envs servers1 b) f1 b) (\<lambda>(f2, b1).
     bindE (deliver_own envs (last_messages b1) servers1) (\<lambda>servers2.
     bindE (fetch_dv blocks addr (group_readers blocks base envs servers2 c) f2 c) (\<lambda>(f3, c1).
     bindE (deliver_own envs (last_messages c1) servers2) (\<lambda>servers3.
     bindE (reduce_dv (group_readers blocks base envs servers3 c1) f3 c1) (\<lambda>(res, c2). Inr res)))))))"

section \<open>Sums and blocks of integers\<close>

lemma sum_ints_nonneg:
  assumes "\<forall>x\<in>set xs. 0 \<le> sint x" and "0 \<le> sint acc"
  shows "sum_ints xs acc = (if sint acc + sum_list (map sint xs) < 2 ^ 31 then Inr (of_int (sint acc + sum_list (map sint xs))) else Inl Int_overflow)"
  using assms
proof (induction xs arbitrary: acc)
  case Nil
  have "sint acc < 2 ^ 31" using sint_lt [of acc] by simp
  then show ?case by (simp add: sum_ints_def)
next
  case (Cons x xs)
  have rest: "0 \<le> sum_list (map sint xs)" using Cons.prems(1) by (intro sum_list_nonneg) auto
  show ?case
  proof (cases "sint acc + sint x < 2 ^ 31")
    case True
    then have fits: "int_fits (sint acc + sint x)" using Cons.prems by (simp add: int_fits_def)
    then have "sint (acc + x) = sint acc + sint x" using sint_of_fits [OF fits] by simp
    then show ?thesis using fits Cons.IH [of "acc + x"] Cons.prems by (simp add: sum_ints_def add_int_fits add.assoc)
  next
    case False
    then have "add_int acc x = Inl Int_overflow" by (simp add: add_int_def int_fits_def)
    then show ?thesis using False rest by (simp add: sum_ints_def)
  qed
qed

lemma peek_ints: "peek (4 * a) (4 * b) (ints_bytes xs) = ints_bytes (take b (drop a xs))"
  by (simp add: peek_def ints_bytes_def drop_concat_fixed [of int_bytes 4] take_concat_fixed [of int_bytes 4])

abbreviation block_ints :: "c_int list \<Rightarrow> nat \<Rightarrow> nat \<Rightarrow> c_int list" where
  "block_ints xs p s \<equiv> take (block_size (length xs) p s) (drop (block_begin (length xs) p s) xs)"

lemma block_ints_glue: "k \<le> p \<Longrightarrow> 0 < p \<Longrightarrow> concat (map (block_ints xs p) [0..<k]) = take (block_begin (length xs) p k) xs"
proof (induction k)
  case (Suc k)
  then show ?case by (simp add: block_begin_Suc take_add)
qed simp

lemma length_block_ints: "s < p \<Longrightarrow> length (block_ints xs p s) = block_size (length xs) p s"
  using block_size_le [of s p "length xs"] by simp

section \<open>One process\<close>

definition pa_inv :: "nat \<Rightarrow> 'a pipe_actor_scheme \<Rightarrow> bool" where
  "pa_inv p o1 \<longleftrightarrow> (\<exists>m. nparts (pa_vd o1) = Inr m) \<and> length (pa_local_res o1) = p"

definition pa_group :: "'a pipe_actor_scheme actor_base list \<Rightarrow> bool" where
  "pa_group ps \<longleftrightarrow> group_in_step ps \<and> 0 < length ps \<and> length ps < 2 ^ 31 \<and> (\<forall>s<length ps. pa_inv (length ps) (objs ps ! s))"

text \<open>Process \<open>s\<close> has its block of \<open>xs\<close>.\<close>

definition has_block :: "c_int list \<Rightarrow> nat \<Rightarrow> nat \<Rightarrow> 'a pipe_actor_scheme \<Rightarrow> bool" where
  "has_block xs p s o1 \<longleftrightarrow> pa_inv p o1 \<and> pa_v o1 = block_ints xs p s \<and>
     pa_part o1 = (of_nat (block_begin (length xs) p s), of_nat (block_size (length xs) p s))"

lemma own_block_eq:
  assumes "n < 2 ^ 31" and "s < p" and "p < 2 ^ 31"
  shows "own_block p s (of_nat n) o1 =
    Inr (o1\<lparr>pa_v := vec_resize (block_size n p s) 0 (pa_v o1), pa_part := (of_nat (block_begin n p s), of_nat (block_size n p s))\<rparr>)"
proof -
  have "block_size n p s < 2 ^ 61" using block_size_le [OF assms(2), of n] assms(1) by simp
  then show ?thesis by (simp add: own_block_def div_range_eq [OF assms])
qed

abbreviation counting :: "nat \<Rightarrow> c_int list" where
  "counting n \<equiv> map of_nat [0..<n]"

lemma block_counting: "s < p \<Longrightarrow> block_ints (counting n) p s = map (\<lambda>i. of_nat (i + block_begin n p s)) [0..<block_size n p s]"
  using block_size_le [of s p n] by (intro nth_equalityI) (simp_all add: add.commute)

lemma fill_block_eq:
  assumes "n < 2 ^ 31" and "s < p" and "p < 2 ^ 31" and "pa_size o1 = of_nat n" and "pa_inv p o1"
  shows "\<exists>o2. fill_block p s o1 = Inr o2 \<and> has_block (counting n) p s o2"
proof -
  let ?b = "block_begin n p s" and ?k = "block_size n p s"
  have "map (\<lambda>i. ucast (of_nat i + of_nat ?b :: size_t)) [0..<?k] = block_ints (counting n) p s"
    unfolding block_counting [OF assms(2)] using block_size_le [OF assms(2), of n] assms(1)
    by (intro map_cong refl) (simp flip: of_nat_add)
  then show ?thesis
    using assms(4,5) by (simp add: fill_block_def own_block_eq [OF assms(1-3)] has_block_def pa_inv_def)
qed

lemma typed_size_eq:
  assumes "describes parts (ints_bytes xs)"
  shows "typed_getVecSize 4 (vd_bytes parts) = Inr (of_nat (length xs))"
proof -
  have n: "4 * length xs < 2 ^ 31" using assms by (simp add: describes_def)
  have "(of_nat (4 * length xs) div 4 :: size_t) = of_nat (length xs)"
    using n size_div_of_nat [of "4 * length xs" 4] by simp
  then show ?thesis using describes_end [OF assms] by (simp add: typed_getVecSize_def getVecSize_eq)
qed

lemma read_block:
  assumes reads: "reads_vector read dv (ints_bytes xs)" and s: "s < p" and out: "length out = 4 * block_size (length xs) p s"
  shows "\<exists>sent. typed_dv_get_part 4 read dv (of_nat (block_begin (length xs) p s)) (of_nat (block_size (length xs) p s)) out =
    Inr (sent, ints_bytes (block_ints xs p s))"
proof -
  let ?b = "block_begin (length xs) p s" and ?n = "block_size (length xs) p s"
  have "4 * ?b + 4 * ?n \<le> length (ints_bytes xs)" using block_size_le [OF s, of "length xs"] by simp
  then obtain sent where "read dv (of_nat (4 * ?b)) (of_nat (4 * ?n)) out = Inr (sent, peek (4 * ?b) (4 * ?n) (ints_bytes xs))"
    using reads out unfolding reads_vector_def by blast
  then show ?thesis by (simp add: typed_dv_get_part_def peek_ints mult.commute)
qed

section \<open>The whole actor\<close>

lemma register_blocks:
  assumes grp: "results_group (Suc m) servers ps" and step: "group_in_step ps" and p: "0 < length ps" "length ps < 2 ^ 31"
    and blocks: "\<And>s. s < length ps \<Longrightarrow> has_block xs (length ps) s (objs ps ! s)" and small: "4 * length xs < 2 ^ 31 - 28"
  shows "\<exists>qs dv servers'. register_all_parts 4 blocks addr block_registered ps = Inr qs \<and>
    gather_result (sync_all qs) = Inr (dv, sync_all (sync_all qs)) \<and>
    returned m envs servers ps (ints_bytes xs) dv (sync_all (sync_all qs)) servers' \<and> pa_group (sync_all (sync_all qs))"
proof -
  let ?p = "length ps" and ?what = "\<lambda>s o1. case block_registered s o1 of (data, sz, off) \<Rightarrow> (data, sz * 4, off * 4)"
  let ?n = "\<lambda>s. 4 * block_size (length xs) ?p s" and ?b = "\<lambda>s. 4 * block_begin (length xs) ?p s" and ?d = "\<lambda>s. ints_bytes (block_ints xs ?p s)"
  have ne: "ps \<noteq> []" "vd_small ?p" using grp by (simp_all add: results_group_def vd_small_def)
  have "parts_make ps ?n (\<lambda>s. of_nat (?b s)) ?d (ints_bytes xs)"
  proof (rule tiles_make [OF ne])
    fix s assume "s < ?p"
    then have "length (?d s) = ?n s" by (simp only: length_ints_bytes length_block_ints)
    then show "?b (Suc s) = ?b s + ?n s \<and> ?n s \<le> length (?d s) \<and> take (?n s) (?d s) = peek (?b s) (?n s) (ints_bytes xs)"
      by (simp add: block_begin_Suc peek_ints del: length_ints_bytes)
  qed (use small p(1) in \<open>simp_all add: block_begin_all\<close>)
  moreover have "\<forall>s<?p. ?what s (ab_obj (ps ! s)) = (?d s, of_nat (?n s), of_nat (?b s))"
    using blocks by (simp add: has_block_def block_registered_def mult.commute)
  ultimately obtain qs dv servers' where q: "register_all_parts 1 blocks addr ?what ps = Inr qs" "length qs = ?p" "objs qs = objs ps"
    "gather_result (sync_all qs) = Inr (dv, sync_all (sync_all qs))" "returned m envs servers ps (ints_bytes xs) dv (sync_all (sync_all qs)) servers'"
    using group_result_step [where what = ?what, OF grp step, of ?d ?n "\<lambda>s. of_nat (?b s)" "ints_bytes xs" blocks addr envs] by blast
  have "pa_group (sync_all (sync_all qs))" using q(2,3,5) p blocks by (simp add: pa_group_def has_block_def returned_def)
  then show ?thesis using q(1,4,5) unfolding register_all_parts_elem [of 4]
    by (intro exI [of _ qs] exI [of _ dv] exI [of _ servers']) simp
qed

lemma read_int_blocks_eq:
  assumes step: "group_in_step ps" and p: "length ps < 2 ^ 31" and dv: "describes parts (ints_bytes xs)"
    and pre: "\<And>s. s < length ps \<Longrightarrow> pa_inv (length ps) (objs ps ! s) \<and> pa_vd (objs ps ! s) = vd_bytes parts"
    and reads: "\<forall>s<length ps. reads_vector (reads s) (vd_bytes parts) (ints_bytes xs)"
  shows "\<exists>qs. read_int_blocks reads ps = Inr qs \<and> length qs = length ps \<and> group_in_step qs \<and> map result_view qs = map result_view ps \<and>
    (\<forall>s<length ps. has_block xs (length ps) s (objs qs ! s))"
proof -
  let ?p = "length ps" and ?n = "length xs"
  have n: "?n < 2 ^ 31" using dv by (simp add: describes_def)
  define own where "own s o1 \<longleftrightarrow> pa_inv ?p o1 \<and> pa_vd o1 = vd_bytes parts \<and> length (pa_v o1) = block_size ?n ?p s \<and>
      pa_part o1 = (of_nat (block_begin ?n ?p s), of_nat (block_size ?n ?p s))" for s and o1 :: "'a pipe_actor_scheme"
  have "\<exists>ps1. on_all (\<lambda>s o1. bindE (typed_getVecSize 4 (pa_vd o1)) (\<lambda>n. own_block ?p s n o1)) ps = Inr ps1 \<and> length ps1 = ?p \<and>
      (\<forall>s<?p. own s (objs ps1 ! s)) \<and> map step_view ps1 = map step_view ps \<and> map actor_frame ps1 = map actor_frame ps"
  proof (rule on_all_ex)
    fix s assume s: "s < ?p"
    then show "\<exists>o2. bindE (typed_getVecSize 4 (pa_vd (objs ps ! s))) (\<lambda>n. own_block ?p s n (objs ps ! s)) = Inr o2 \<and> own s o2"
      using pre [OF s] by (simp add: typed_size_eq [OF dv] own_block_eq [OF n s p] own_def pa_inv_def)
  qed
  then obtain ps1 where p1: "on_all (\<lambda>s o1. bindE (typed_getVecSize 4 (pa_vd o1)) (\<lambda>n. own_block ?p s n o1)) ps = Inr ps1" "length ps1 = ?p"
    "\<And>s. s < ?p \<Longrightarrow> own s (objs ps1 ! s)" "map step_view ps1 = map step_view ps" "map actor_frame ps1 = map actor_frame ps" by blast
  have "\<exists>qs. read_all_parts (\<lambda>s. typed_dv_get_part 4 (reads s)) block_to_read put_block ps1 = Inr qs \<and> length qs = length ps1 \<and>
      (\<forall>s<length ps1. has_block xs ?p s (objs qs ! s)) \<and> map step_view qs = map step_view ps1 \<and> map result_view qs = map result_view ps1"
  proof (rule read_all_parts_ex)
    fix s assume "s < length ps1"
    then have s: "s < ?p" using p1(2) by simp
    let ?o = "objs ps1 ! s"
    note o = p1(3) [OF s, unfolded own_def]
    obtain sent where "typed_dv_get_part 4 (reads s) (vd_bytes parts) (of_nat (block_begin ?n ?p s)) (of_nat (block_size ?n ?p s)) (ints_bytes (pa_v ?o)) =
        Inr (sent, ints_bytes (block_ints xs ?p s))"
      using read_block [of "reads s" "vd_bytes parts" xs s ?p "ints_bytes (pa_v ?o)"] reads s o by auto
    moreover have "has_block xs ?p s (put_block (ints_bytes (block_ints xs ?p s)) ?o)"
      using o bytes_ints_bytes [of "block_ints xs ?p s"] length_block_ints [OF s, of xs] by (simp add: has_block_def put_block_def pa_inv_def)
    ultimately show "\<exists>dv off sz buf sent out. block_to_read s ?o = Inr (dv, off, sz, buf) \<and>
        typed_dv_get_part 4 (reads s) dv off sz buf = Inr (sent, out) \<and> has_block xs ?p s (put_block out ?o)"
      using o by (simp add: block_to_read_def)
  qed
  then obtain qs where q: "read_all_parts (\<lambda>s. typed_dv_get_part 4 (reads s)) block_to_read put_block ps1 = Inr qs" "length qs = ?p"
    "\<forall>s<?p. has_block xs ?p s (objs qs ! s)" "map step_view qs = map step_view ps1" "map result_view qs = map result_view ps1"
    unfolding p1(2) by blast
  then show ?thesis using p1(1,4) in_step_view [OF _ step, of qs] frame_view [OF p1(5)] by (simp add: read_int_blocks_def)
qed

lemma produce_dv_step:
  assumes grp: "pa_group ps" and res: "results_group (Suc m) servers ps" and n: "4 * n < 2 ^ 31 - 28"
  shows "\<exists>dv qs servers'. produce_dv blocks addr (of_nat n) ps = Inr (dv, qs) \<and>
    returned m envs servers ps (ints_bytes (counting n)) dv qs servers' \<and> pa_group qs"
proof -
  let ?p = "length ps" and ?copy = "\<lambda>head o1. o1\<lparr>pa_size := pa_size head\<rparr>"
  let ?ps = "upd_head (\<lambda>o1. o1\<lparr>pa_size := of_nat n\<rparr>) ps"
  have p: "0 < ?p" "?p < 2 ^ 31" and step: "group_in_step ps" and inv: "\<And>s. s < ?p \<Longrightarrow> pa_inv ?p (objs ps ! s)"
    using grp by (simp_all add: pa_group_def)
  have l: "length ?ps = ?p" by simp
  have o: "objs (get_from_head ?copy ?ps) ! s = (objs ps ! s)\<lparr>pa_size := of_nat n\<rparr>" if "s < ?p" for s
    using that p(1) unfolding objs_get_from_head l by (simp add: upd_head_nth del: objs_upd_head)
  have lg: "length (get_from_head ?copy ?ps) = ?p" using arg_cong [OF objs_get_from_head [of ?copy ?ps], of length] l by simp
  have "\<exists>ps1. on_all (fill_block ?p) (get_from_head ?copy ?ps) = Inr ps1 \<and> length ps1 = length (get_from_head ?copy ?ps) \<and>
      (\<forall>s<length (get_from_head ?copy ?ps). has_block (counting n) ?p s (objs ps1 ! s)) \<and>
      map step_view ps1 = map step_view (get_from_head ?copy ?ps) \<and> map actor_frame ps1 = map actor_frame (get_from_head ?copy ?ps)"
  proof (rule on_all_ex)
    fix s assume "s < length (get_from_head ?copy ?ps)"
    then have s: "s < ?p" using lg by simp
    show "\<exists>o2. fill_block ?p s (objs (get_from_head ?copy ?ps) ! s) = Inr o2 \<and> has_block (counting n) ?p s o2"
      unfolding o [OF s] using n inv [OF s] by (intro fill_block_eq [OF _ s p(2)]) (simp_all add: pa_inv_def)
  qed
  then obtain ps1 where p1: "on_all (fill_block ?p) (get_from_head ?copy ?ps) = Inr ps1" "length ps1 = ?p"
    "\<And>s. s < ?p \<Longrightarrow> has_block (counting n) ?p s (objs ps1 ! s)" "map step_view ps1 = map step_view (get_from_head ?copy ?ps)"
    "map actor_frame ps1 = map actor_frame ps"
    unfolding lg by auto
  note view = frame_view [OF p1(5)]
  have step1: "group_in_step ps1" using in_step_view [OF p1(4)] step by simp
  have "results_group (Suc m) servers ps1" using res results_group_view(1) [OF view] by simp
  from register_blocks [OF this step1, of "counting n" blocks addr envs] p p1(2,3) n
  obtain qs dv servers' where q: "register_all_parts 4 blocks addr block_registered ps1 = Inr qs"
    "gather_result (sync_all qs) = Inr (dv, sync_all (sync_all qs))"
    "returned m envs servers ps1 (ints_bytes (counting n)) dv (sync_all (sync_all qs)) servers'" "pa_group (sync_all (sync_all qs))" by auto
  then show ?thesis using p1(1) returned_view [OF view, of m envs servers]
    by (intro exI [of _ dv] exI [of _ "sync_all (sync_all qs)"] exI [of _ servers']) (simp add: produce_dv_def bsp_produce_dv_def)
qed

lemma share_description:
  assumes grp: "pa_group ps" and small: "vd_small (length parts)"
  shows "\<exists>qs. broadcast_member pa_vd (\<lambda>dv o1. o1\<lparr>pa_vd := dv\<rparr>) (upd_head (\<lambda>o1. o1\<lparr>pa_vd := vd_bytes parts\<rparr>) ps) = Inr qs \<and>
    group_in_step qs \<and> length qs = length ps \<and> map result_view qs = map result_view ps \<and>
    (\<forall>s<length ps. pa_inv (length ps) (objs qs ! s) \<and> pa_vd (objs qs ! s) = vd_bytes parts)"
proof -
  have "\<exists>qs. broadcast_member pa_vd (\<lambda>dv o1. o1\<lparr>pa_vd := dv\<rparr>) (upd_head ((\<lambda>dv o1. o1\<lparr>pa_vd := dv\<rparr>) (vd_bytes parts)) ps) = Inr qs \<and>
    group_in_step qs \<and> length qs = length ps \<and> map result_view qs = map result_view ps \<and>
    (\<forall>s<length ps. objs qs ! s = (objs ps ! s)\<lparr>pa_vd := vd_bytes parts\<rparr>)"
    using grp small by (intro share_member) (simp_all add: pa_group_def pa_inv_def)
  then show ?thesis using grp small by (auto simp: pa_group_def pa_inv_def)
qed

lemma fetch_dv_step:
  assumes grp: "pa_group ps" and res: "results_group (Suc m) servers ps" and dv: "describes parts (ints_bytes xs)"
    and reads: "\<forall>s<length ps. reads_vector (reads s) (vd_bytes parts) (ints_bytes xs)" and n: "4 * length xs < 2 ^ 31 - 28"
  shows "\<exists>dv qs servers'. fetch_dv blocks addr reads (vd_bytes parts) ps = Inr (dv, qs) \<and>
    returned m envs servers ps (ints_bytes xs) dv qs servers' \<and> pa_group qs"
proof -
  let ?p = "length ps" and ?ps = "upd_head (\<lambda>o1. o1\<lparr>pa_vd := vd_bytes parts\<rparr>) ps"
  have p: "0 < ?p" "?p < 2 ^ 31" using grp by (simp_all add: pa_group_def)
  have "vd_small (length parts)" using dv by (simp add: describes_def)
  from share_description [OF grp this]
  obtain ps1 where p1: "broadcast_member pa_vd (\<lambda>dv o1. o1\<lparr>pa_vd := dv\<rparr>) ?ps = Inr ps1" "group_in_step ps1" "length ps1 = ?p"
    "map result_view ps1 = map result_view ps" "\<forall>s<?p. pa_inv ?p (objs ps1 ! s) \<and> pa_vd (objs ps1 ! s) = vd_bytes parts" by blast
  have "group_in_step (sync_all ps1)" "length (sync_all ps1) < 2 ^ 31" using p1(2,3) p(2) by simp_all
  from read_int_blocks_eq [OF this dv, of reads] reads p1(3,5)
  obtain ps2 where p2: "read_int_blocks reads (sync_all ps1) = Inr ps2" "length ps2 = ?p" "group_in_step ps2" "map result_view ps2 = map result_view ps1"
    "\<And>s. s < ?p \<Longrightarrow> has_block xs ?p s (objs ps2 ! s)" by auto
  note view = p2(4) [unfolded p1(4)]
  have "results_group (Suc m) servers ps2" using res results_group_view(1) [OF view] by simp
  from register_blocks [OF this p2(3), of xs blocks addr envs] p p2(2,5) n
  obtain qs dv servers' where q: "register_all_parts 4 blocks addr block_registered ps2 = Inr qs"
    "gather_result (sync_all qs) = Inr (dv, sync_all (sync_all qs))"
    "returned m envs servers ps2 (ints_bytes xs) dv (sync_all (sync_all qs)) servers'" "pa_group (sync_all (sync_all qs))" by auto
  then show ?thesis using p1(1) p2(1) returned_view [OF view, of m envs servers]
    by (intro exI [of _ dv] exI [of _ "sync_all (sync_all qs)"] exI [of _ servers']) (simp add: fetch_dv_def bsp_fetch_dv_def)
qed

text \<open>The sum of non-negative numbers, or the overflow of an \<^verbatim>\<open>int\<close>, wherever it happens.\<close>

definition int_sum :: "c_int list \<Rightarrow> c_int result" where
  "int_sum xs = (let n = sum_list (map sint xs) in if n < 2 ^ 31 then Inr (of_int n) else Inl Int_overflow)"

lemma sum_ints_0: "\<forall>x\<in>set xs. 0 \<le> sint x \<Longrightarrow> sum_ints xs 0 = int_sum xs"
  by (simp add: sum_ints_nonneg int_sum_def Let_def)

lemma sum_tiles: "sum_list (map (\<lambda>s. sum_list (map sint (f s))) ss) = sum_list (map sint (concat (map f ss)))"
  by (induction ss) simp_all

lemma mapE_all_or_one:
  assumes "\<And>x. x \<in> set xs \<Longrightarrow> f x = (if P x then Inr (g x) else Inl e)"
  shows "mapE f xs = (if \<forall>x\<in>set xs. P x then Inr (map g xs) else Inl e)"
  using assms by (induction xs) auto

lemma block_sums:
  assumes nonneg: "\<forall>x\<in>set xs. 0 \<le> sint x" and p: "0 < p"
  shows "(\<forall>s<p. sum_list (map sint (block_ints xs p s)) < 2 ^ 31) \<or> int_sum xs = Inl Int_overflow"
    and "sum_list (map (\<lambda>s. sum_list (map sint (block_ints xs p s))) [0..<p]) = sum_list (map sint xs)"
    and "\<And>s x. s < p \<Longrightarrow> x \<in> set (block_ints xs p s) \<Longrightarrow> 0 \<le> sint x"
proof -
  have glue: "concat (map (block_ints xs p) [0..<p]) = xs" using block_ints_glue [of p p xs] p by (simp add: block_begin_all)
  show total: "sum_list (map (\<lambda>s. sum_list (map sint (block_ints xs p s))) [0..<p]) = sum_list (map sint xs)"
    unfolding sum_tiles glue ..
  show nn: "0 \<le> sint x" if "s < p" "x \<in> set (block_ints xs p s)" for s x
    using nonneg that(2) by (meson in_set_dropD in_set_takeD)
  have "sum_list (map sint (block_ints xs p s)) \<le> sum_list (map sint xs)" if s: "s < p" for s
    unfolding total [symmetric] using s nn by (intro member_le_sum_list) (auto intro!: sum_list_nonneg)
  then show "(\<forall>s<p. sum_list (map sint (block_ints xs p s)) < 2 ^ 31) \<or> int_sum xs = Inl Int_overflow"
    by (cases "sum_list (map sint xs) < 2 ^ 31") (auto simp: int_sum_def Let_def intro: le_less_trans)
qed

text \<open>From the blocks of the processes to the result of the head.\<close>

definition add_up :: "'a pipe_actor_scheme actor_base list \<Rightarrow> 'a pipe_actor_scheme actor_base list result" where
  "add_up ps = bindE (on_all (\<lambda>s o1. bindE (sum_ints (pa_v o1) 0) (\<lambda>res. Inr (o1\<lparr>pa_res := res\<rparr>))) ps) put_local_res"

abbreviation block_sum :: "c_int list \<Rightarrow> nat \<Rightarrow> nat \<Rightarrow> int" where
  "block_sum xs p s \<equiv> sum_list (map sint (block_ints xs p s))"

lemma add_block:
  assumes "\<forall>x\<in>set xs. 0 \<le> sint x" and "s < length ps" and "has_block xs (length ps) s (objs ps ! s)"
  shows "bindE (sum_ints (pa_v (ab_obj (ps ! s))) 0) (\<lambda>res. Inr ((ab_obj (ps ! s))\<lparr>pa_res := res\<rparr>)) =
    (if block_sum xs (length ps) s < 2 ^ 31 then Inr ((ab_obj (ps ! s))\<lparr>pa_res := of_int (block_sum xs (length ps) s)\<rparr>) else Inl Int_overflow)"
proof -
  have p: "0 < length ps" using assms(2) by linarith
  have "pa_v (ab_obj (ps ! s)) = block_ints xs (length ps) s" using assms(2,3) by (simp add: has_block_def)
  then show ?thesis using block_sums(3) [OF assms(1) p assms(2)] by (simp add: sum_ints_0 int_sum_def Let_def)
qed

lemma add_up_eq:
  assumes nonneg: "\<forall>x\<in>set xs. 0 \<le> sint x" and p: "0 < length ps" and blocks: "\<And>s. s < length ps \<Longrightarrow> has_block xs (length ps) s (objs ps ! s)"
    and fits: "\<forall>s<length ps. block_sum xs (length ps) s < 2 ^ 31"
  shows "\<exists>qs. add_up ps = Inr qs \<and> length qs = length ps \<and> qs \<noteq> [] \<and> length (pa_local_res (ab_obj (hd qs))) = length ps \<and>
    sum_ints (pa_local_res (ab_obj (hd qs))) 0 = int_sum xs"
proof -
  let ?p = "length ps" and ?sum = "block_sum xs (length ps)" and ?add = "\<lambda>s o1. bindE (sum_ints (pa_v o1) 0) (\<lambda>res. Inr (o1\<lparr>pa_res := res\<rparr>))"
  note sums = block_sums [OF nonneg p]
  have "\<exists>qs. on_all ?add ps = Inr qs \<and> objs qs = map (\<lambda>s. (objs ps ! s)\<lparr>pa_res := of_int (?sum s)\<rparr>) [0..<?p] \<and>
      map step_view qs = map step_view ps"
    using fits add_block [OF nonneg _ blocks] by (intro on_all_eq) simp
  then obtain qs where q: "on_all ?add ps = Inr qs" "objs qs = map (\<lambda>s. (objs ps ! s)\<lparr>pa_res := of_int (?sum s)\<rparr>) [0..<?p]" by blast
  have l: "length qs = ?p" using arg_cong [OF q(2), of length] by simp
  obtain a rest where qs: "qs = a # rest" using l p by (cases qs) auto
  have "objs qs ! 0 = (objs ps ! 0)\<lparr>pa_res := of_int (?sum 0)\<rparr>" unfolding q(2) using p by simp
  then have room: "length (pa_local_res (ab_obj a)) = ?p" using blocks [OF p] p by (simp add: qs has_block_def pa_inv_def)
  let ?res = "map pa_res (objs qs)"
  have sint_sum: "sint (of_int (?sum s) :: c_int) = ?sum s" "0 \<le> ?sum s" if s: "s < ?p" for s
  proof -
    show "0 \<le> ?sum s" using sums(3) [OF s] by (intro sum_list_nonneg) auto
    then show "sint (of_int (?sum s) :: c_int) = ?sum s" using fits s by (intro sint_of_fits) (simp add: int_fits_def)
  qed
  then have sints: "map sint ?res = map ?sum [0..<?p]" unfolding q(2) by simp
  have "\<forall>x\<in>set ?res. 0 \<le> sint x" unfolding q(2) using sint_sum by auto
  from sum_ints_0 [OF this] have total: "sum_ints ?res 0 = int_sum xs" by (simp only: int_sum_def sints sums(2))
  have "all_to_all ?res (pa_local_res (ab_obj a)) = Inr ?res" using room l by (intro all_to_all_eq) simp
  then have "put_local_res qs = Inr (sync_all (upd_head (\<lambda>o1. o1\<lparr>pa_local_res := ?res\<rparr>) qs))" by (simp add: put_local_res_def qs)
  then have "add_up ps = Inr (sync_all (upd_head (\<lambda>o1. o1\<lparr>pa_local_res := ?res\<rparr>) qs))" unfolding add_up_def q(1) by simp
  moreover have "ab_obj (hd (sync_all (upd_head (\<lambda>o1. o1\<lparr>pa_local_res := ?res\<rparr>) qs))) = (ab_obj a)\<lparr>pa_local_res := ?res\<rparr>"
    by (simp add: qs sync_all_def base_sync_def)
  moreover have "upd_head (\<lambda>o1. o1\<lparr>pa_local_res := ?res\<rparr>) qs \<noteq> []" by (simp add: qs)
  ultimately show ?thesis using l p total by (intro exI [of _ "sync_all (upd_head (\<lambda>o1. o1\<lparr>pa_local_res := ?res\<rparr>) qs)"]) auto
qed

lemma add_up_overflow:
  assumes nonneg: "\<forall>x\<in>set xs. 0 \<le> sint x" and blocks: "\<And>s. s < length ps \<Longrightarrow> has_block xs (length ps) s (objs ps ! s)"
    and no_fit: "\<not> (\<forall>s<length ps. block_sum xs (length ps) s < 2 ^ 31)"
  shows "add_up ps = Inl Int_overflow"
proof -
  let ?add = "\<lambda>s o1. bindE (sum_ints (pa_v o1) 0) (\<lambda>res. Inr (o1\<lparr>pa_res := res\<rparr>))" and ?sum = "block_sum xs (length ps)"
  have "on_all ?add ps = (if \<forall>x\<in>set (enumerate 0 ps). ?sum (fst x) < 2 ^ 31
      then Inr (map (\<lambda>(s, a). a\<lparr>ab_obj := (ab_obj a)\<lparr>pa_res := of_int (?sum s)\<rparr>\<rparr>) (enumerate 0 ps)) else Inl Int_overflow)"
    unfolding on_all_def
  proof (rule mapE_all_or_one)
    fix x assume "x \<in> set (enumerate 0 ps)"
    then obtain s where x: "x = (s, ps ! s)" "s < length ps" by (auto simp: enumerate_upt)
    show "(case x of (s, a) \<Rightarrow> bindE (?add s (ab_obj a)) (\<lambda>obj. Inr (a\<lparr>ab_obj := obj\<rparr>))) = (if ?sum (fst x) < 2 ^ 31
        then Inr (case x of (s, a) \<Rightarrow> a\<lparr>ab_obj := (ab_obj a)\<lparr>pa_res := of_int (?sum s)\<rparr>\<rparr>) else Inl Int_overflow)"
      unfolding x(1) prod.case fst_conv add_block [OF nonneg x(2) blocks [OF x(2)]] by simp
  qed
  moreover have "\<not> (\<forall>x\<in>set (enumerate 0 ps). ?sum (fst x) < 2 ^ 31)" using no_fit by (auto simp: enumerate_upt)
  ultimately show ?thesis unfolding add_up_def by (simp only: if_False bindE_Inl)
qed

lemma reduce_dv_step:
  assumes grp: "pa_group ps" and dv: "describes parts (ints_bytes xs)" and nonneg: "\<forall>x\<in>set xs. 0 \<le> sint x"
    and reads: "\<forall>s<length ps. reads_vector (reads s) (vd_bytes parts) (ints_bytes xs)"
  shows "bindE (reduce_dv reads (vd_bytes parts) ps) (\<lambda>(res, qs). Inr res) = int_sum xs"
proof -
  let ?p = "length ps" and ?ps = "upd_head (\<lambda>o1. o1\<lparr>pa_vd := vd_bytes parts\<rparr>) ps"
  have p: "0 < ?p" "?p < 2 ^ 31" using grp by (simp_all add: pa_group_def)
  have "vd_small (length parts)" using dv by (simp add: describes_def)
  from share_description [OF grp this]
  obtain ps1 where p1: "broadcast_member pa_vd (\<lambda>dv o1. o1\<lparr>pa_vd := dv\<rparr>) ?ps = Inr ps1" "group_in_step ps1" "length ps1 = ?p"
    "\<forall>s<?p. pa_inv ?p (objs ps1 ! s) \<and> pa_vd (objs ps1 ! s) = vd_bytes parts" by blast
  have "length ps1 < 2 ^ 31" using p1(3) p(2) by simp
  from read_int_blocks_eq [OF p1(2) this dv, of reads] reads p1(3,4)
  obtain ps2 where p2: "read_int_blocks reads ps1 = Inr ps2" "length ps2 = ?p" "\<And>s. s < ?p \<Longrightarrow> has_block xs ?p s (objs ps2 ! s)" by auto
  have run: "bsp_reduce_dv reads ?ps = add_up ps2" using p1(1) p2(1) by (simp add: bsp_reduce_dv_def add_up_def)
  show ?thesis
  proof (cases "\<forall>s<?p. block_sum xs ?p s < 2 ^ 31")
    case True
    from add_up_eq [OF nonneg, of ps2] True p p2(2,3)
    obtain qs where q: "add_up ps2 = Inr qs" "length qs = ?p" "qs \<noteq> []" "length (pa_local_res (ab_obj (hd qs))) = ?p"
      "sum_ints (pa_local_res (ab_obj (hd qs))) 0 = int_sum xs" by auto
    obtain a rest where "qs = a # rest" using q(3) by (cases qs) auto
    then show ?thesis using q unfolding reduce_dv_def run q(1) by (cases "int_sum xs") auto
  next
    case False
    have "add_up ps2 = Inl Int_overflow" using add_up_overflow [OF nonneg, of ps2] False p2(2,3) by simp
    moreover have "int_sum xs = Inl Int_overflow" using block_sums(1) [OF nonneg p(1)] False by blast
    ultimately show ?thesis by (simp add: reduce_dv_def run)
  qed
qed

section \<open>Properties\<close>

lemma sum_counting: "n < 2 ^ 31 \<Longrightarrow> sum_list (map sint (counting n)) = int (n * (n - 1) div 2)"
proof (induction n)
  case (Suc n)
  have "sint (of_nat n :: c_int) = int n" using Suc.prems by simp
  moreover have "Suc n * n div 2 = n * (n - 1) div 2 + n"
  proof -
    have "Suc n * n = n * (n - 1) + 2 * n" by (cases n) simp_all
    then show ?thesis by simp
  qed
  ultimately show ?case using Suc by simp
qed simp

lemma int_sum_counting:
  assumes "n < 2 ^ 31"
  shows "int_sum (counting n) = (if n \<le> 65536 then Inr (of_nat (n * (n - 1) div 2)) else Inl Int_overflow)"
proof (cases "n \<le> 65536")
  case True
  then have "n * (n - 1) \<le> 65536 * 65535" by (intro mult_le_mono) simp_all
  then have "int (n * (n - 1) div 2) < 2 ^ 31" by simp
  then show ?thesis using True unfolding int_sum_def sum_counting [OF assms] Let_def by (simp only: if_True of_int_of_nat_eq)
next
  case False
  then have "65537 * 65536 \<le> n * (n - 1)" by (intro mult_le_mono) simp_all
  then have "65537 * 65536 div 2 \<le> n * (n - 1) div 2" by (rule div_le_mono)
  then have "\<not> int (n * (n - 1) div 2) < 2 ^ 31" by simp
  then show ?thesis using False unfolding int_sum_def sum_counting [OF assms] Let_def by (simp only: if_False)
qed

text \<open>
  Property C10: the pipeline. One actor produces the numbers below \<open>n\<close>, a second and a third one fetch the vector from
  each other through the management threads, and the third one adds them up. The client gets \<open>n (n - 1) / 2\<close>, whatever
  the numbers of processes, as long as the sum is an \<^verbatim>\<open>int\<close>: from 65537 elements on the addition overflows.
\<close>

theorem pipeline_sum:
  assumes groups: "pa_group a" "pa_group b" "pa_group c"
    and res: "results_group 1 servers a" "results_group 1 servers b" "results_group 1 servers c"
    and disjoint: "ab_node ` set a \<inter> ab_node ` set b = {}" "ab_node ` set a \<inter> ab_node ` set c = {}" "ab_node ` set b \<inter> ab_node ` set c = {}"
    and n: "4 * n < 2 ^ 31 - 28"
  shows "pipe_main blocks addr base envs (of_nat n) servers a b c =
    (if n \<le> 65536 then Inr (of_nat (n * (n - 1) div 2)) else Inl Int_overflow)"
proof -
  let ?xs = "counting n" and ?v = "ints_bytes (counting n)"
  have small: "4 * length ?xs < 2 ^ 31 - 28" "\<forall>x\<in>set ?xs. 0 \<le> sint x" "n < 2 ^ 31" using n by auto
  obtain dv1 a1 servers1 where r1: "produce_dv blocks addr (of_nat n) a = Inr (dv1, a1)" "returned 0 envs servers a ?v dv1 a1 servers1"
    using produce_dv_step [OF groups(1) res(1) [unfolded One_nat_def] n] by blast
  have "results_group 1 servers1 b" "results_group 1 servers1 c"
    using returned_kept(2) [OF r1(2)] res(2,3) disjoint(1,2) by blast+
  note res1 = this [unfolded One_nat_def]
  obtain parts1 where p1: "dv1 = vd_bytes parts1" "describes parts1 ?v" using r1(2) vector_storedE unfolding returned_def by metis
  have "\<forall>s<length b. reads_vector (group_readers blocks base envs servers1 b s) (vd_bytes parts1) ?v"
    using r1(2) group_readers_read by (auto simp: returned_def p1(1))
  from fetch_dv_step [OF groups(2) res1(1) p1(2) this small(1)]
  obtain dv2 b1 servers2 where r2: "fetch_dv blocks addr (group_readers blocks base envs servers1 b) (vd_bytes parts1) b = Inr (dv2, b1)"
    "returned 0 envs servers1 b ?v dv2 b1 servers2" by blast
  have res2: "results_group (Suc 0) servers2 c" using returned_kept(2) [OF r2(2) res1(2) disjoint(3)] .
  obtain parts2 where p2: "dv2 = vd_bytes parts2" "describes parts2 ?v" using r2(2) vector_storedE unfolding returned_def by metis
  have "\<forall>s<length c. reads_vector (group_readers blocks base envs servers2 c s) (vd_bytes parts2) ?v"
    using r2(2) group_readers_read by (auto simp: returned_def p2(1))
  from fetch_dv_step [OF groups(3) res2 p2(2) this small(1)]
  obtain dv3 c1 servers3 where r3: "fetch_dv blocks addr (group_readers blocks base envs servers2 c) (vd_bytes parts2) c = Inr (dv3, c1)"
    "returned 0 envs servers2 c ?v dv3 c1 servers3" "pa_group c1" by blast
  obtain parts3 where p3: "dv3 = vd_bytes parts3" "describes parts3 ?v" using r3(2) vector_storedE unfolding returned_def by metis
  have "\<forall>s<length c1. reads_vector (group_readers blocks base envs servers3 c1 s) (vd_bytes parts3) ?v"
    using r3(2) group_readers_read by (auto simp: returned_def p3(1))
  from reduce_dv_step [OF r3(3) p3(2) small(2) this]
  have "bindE (reduce_dv (group_readers blocks base envs servers3 c1) dv3 c1) (\<lambda>(res, c2). Inr res) = int_sum ?xs" by (simp only: p3(1))
  then show ?thesis using r1 r2 r3 int_sum_counting [OF small(3)] by (simp add: pipe_main_def returned_def p1(1) p2(1))
qed

text \<open>Three new actors of two processes each.\<close>

definition empty_pipe :: pipe_actor where
  "empty_pipe = \<lparr>pa_size = 0, pa_v = [], pa_vd = [], pa_local_res = [], pa_part = (0, 0), pa_res = 0\<rparr>"

definition new_pipe :: "nat \<Rightarrow> pipe_actor actor_base list" where
  "new_pipe first = placed_group first (replicate 2 (projr (PipeActor 2 empty_pipe)))"

lemma new_pipe_ok:
  assumes "first < 100"
  shows "pa_group (new_pipe first)" "results_group 1 ActorServer (new_pipe first)" "ab_node ` set (new_pipe first) = {of_nat first, of_nat (first + 1)}"
proof -
  let ?os = "replicate 2 (projr (PipeActor 2 empty_pipe))"
  note g = placed_group_ok [where os = ?os and first = first, folded new_pipe_def]
  have "vector_distribution_base 1 = Inr (vd_bytes [zero_part])"
    using vector_distribution_base_eq [of 1] by (simp add: vd_small_def)
  then have "pa_inv 2 (projr (PipeActor 2 empty_pipe))" by (simp add: PipeActor_def pa_inv_def)
  then show "pa_group (new_pipe first)" using g(1-3) by (simp add: pa_group_def)
  show "results_group 1 ActorServer (new_pipe first)" using g(4) assms by simp
  show "ab_node ` set (new_pipe first) = {of_nat first, of_nat (first + 1)}" 
    unfolding g(5) by (simp add: numeral_2_eq_2 lessThan_Suc insert_commute add.commute)
qed

theorem pipeline_sum_witness:
  "pipe_main (\<lambda>_. \<lparr>bl_addr = 1, bl_mem = \<lambda>_. 0\<rparr>) 0 100 (\<lambda>_. plain_env) 10 ActorServer (new_pipe 1) (new_pipe 3) (new_pipe 5) = Inr 45"
proof -
  have n: "(1 :: nat) < 100" "(3 :: nat) < 100" "(5 :: nat) < 100" by simp_all
  note a = new_pipe_ok [OF n(1)] and b = new_pipe_ok [OF n(2)] and c = new_pipe_ok [OF n(3)]
  have "pipe_main (\<lambda>_. \<lparr>bl_addr = 1, bl_mem = \<lambda>_. 0\<rparr>) 0 100 (\<lambda>_. plain_env) (of_nat 10) ActorServer (new_pipe 1) (new_pipe 3) (new_pipe 5) =
    (if (10 :: nat) \<le> 65536 then Inr (of_nat (10 * (10 - 1) div 2)) else Inl Int_overflow)"
    by (rule pipeline_sum [OF a(1) b(1) c(1) a(2) b(2) c(2)]) (simp_all add: a(3) b(3) c(3) del: One_nat_def)
  then show ?thesis by simp
qed

end
