(* ===== verification/Relay_Actor.thy ===== *)
theory Relay_Actor
  imports Group_Result
begin

text \<open>
  The actor \<^verbatim>\<open>RelayActor\<close> (src/src/examples/relayvector/src/relayvector.cpp): it hands a vector back that it has scattered over
  its processes, either a vector on its head or a distributed one. The buffer of a process for a distributed vector is
  too small unless the number of processes divides the size of the vector.
\<close>

section \<open>The actor\<close>

text \<open>\<open>ra_range\<close>: the local variables \<^verbatim>\<open>beg\<close> and \<^verbatim>\<open>size\<close> of \<^verbatim>\<open>bsp_fetch_dv\<close>.\<close>

record relay_actor =
  ra_part :: "byte list"
  ra_size :: c_int
  ra_dv :: vector_distribution
  ra_range :: "size_t \<times> size_t"

definition RelayActor :: "relay_actor \<Rightarrow> relay_actor result" where
  "RelayActor mem = bindE (vector_distribution_base 1) (\<lambda>dv. Inr (mem\<lparr>ra_part := [], ra_dv := dv\<rparr>))"

text \<open>\<^verbatim>\<open>vector<char>(n)\<close> of an \<^verbatim>\<open>int\<close>: a negative size is too large.\<close>

definition new_part :: "c_int \<Rightarrow> relay_actor \<Rightarrow> relay_actor result" where
  "new_part n o1 = (if sint n < 0 then Inl Bad_alloc else Inr (o1\<lparr>ra_part := replicate (nat (sint n)) 0\<rparr>))"

definition init_part :: "nat \<Rightarrow> nat \<Rightarrow> relay_actor \<Rightarrow> relay_actor result" where
  "init_part p s o1 = bindE (div_int (ra_size o1) (of_nat p)) (\<lambda>q. bindE (add_int 1 q) (\<lambda>n. new_part n o1))"

definition init_size :: "relay_actor actor_base list \<Rightarrow> relay_actor actor_base list result" where
  "init_size ps = bindE (on_all (init_part (length ps)) (sync_all ps)) (\<lambda>qs. Inr (sync_all qs))"

text \<open>\<^verbatim>\<open>bsp_put(s, &v[beg], &r_v_part[0], 0, size)\<close> and \<^verbatim>\<open>bsp_get(s, &r_v_part[0], 0, &v[beg], size)\<close>.\<close>

definition relay_put :: "byte list \<Rightarrow> nat \<Rightarrow> nat \<Rightarrow> bsp_put result" where
  "relay_put v p s =
     bindE (div_range (of_nat (length v)) (of_nat s) (of_nat p)) (\<lambda>(b, e).
     bindE (mem_read v (unat b) (unat (e - b))) (\<lambda>bs. Inr (of_nat s, 0, bs)))"

definition relay_get :: "nat \<Rightarrow> nat \<times> relay_actor \<Rightarrow> byte list \<Rightarrow> byte list result" where
  "relay_get p = (\<lambda>(s, o1) v.
     bindE (div_range (of_nat (length v)) (of_nat s) (of_nat p)) (\<lambda>(b, e).
     bindE (mem_read (ra_part o1) 0 (unat (e - b))) (\<lambda>bs. mem_write (unat b) bs v)))"

text \<open>
  \<^verbatim>\<open>fetch\<close>: the size is put to all processes, the blocks are put to their buffers and got back. \<^verbatim>\<open>bsp_fetch\<close>,
  \<^verbatim>\<open>call_sync\<close> and \<^verbatim>\<open>end_sync\<close> are a synchronisation each.
\<close>

definition relay_fetch :: "byte list \<Rightarrow> relay_actor actor_base list \<Rightarrow> (byte list \<times> relay_actor actor_base list) result" where
  "relay_fetch v ps =
     bindE (on_all (\<lambda>s o1. Inr (o1\<lparr>ra_size := ucast (of_nat (length v) :: size_t)\<rparr>)) ps) (\<lambda>ps1.
     bindE (init_size ps1) (\<lambda>ps2.
     bindE (mapE (relay_put v (length ps)) [0..<length ps]) (\<lambda>puts.
     bindE (bsp_deliver puts (map ra_part (objs ps2))) (\<lambda>regs.
     bindE (on_all (\<lambda>s o1. Inr (o1\<lparr>ra_part := regs ! s\<rparr>)) (sync_all ps2)) (\<lambda>ps3.
     bindE (foldE (relay_get (length ps)) (enumerate 0 (objs ps3)) v) (\<lambda>w. Inr (w, sync_all (sync_all ps3))))))))"

text \<open>\<^verbatim>\<open>bsp_fetch_dv\<close> up to the synchronisation, and the range it reads.\<close>

definition prepare_relay :: "nat \<Rightarrow> nat \<Rightarrow> relay_actor \<Rightarrow> relay_actor result" where
  "prepare_relay p s o1 =
     bindE (typed_getVecSize 1 (ra_dv o1)) (\<lambda>n.
     bindE (div_int (ucast n) (of_nat p)) (\<lambda>q. new_part q (o1\<lparr>ra_size := ucast n\<rparr>)))"

definition relay_range :: "nat \<Rightarrow> nat \<Rightarrow> relay_actor \<Rightarrow> relay_actor result" where
  "relay_range p s o1 = bindE (div_range (scast (ra_size o1)) (of_nat s) (of_nat p)) (\<lambda>(b, e). Inr (o1\<lparr>ra_range := (b, e - b)\<rparr>))"

definition relay_to_read :: "nat \<Rightarrow> relay_actor \<Rightarrow> (vector_distribution \<times> size_t \<times> size_t \<times> byte list) result" where
  "relay_to_read s o1 = bindE (mem_read (ra_part o1) 0 (unat (snd (ra_range o1)))) (\<lambda>buf. Inr (ra_dv o1, fst (ra_range o1), snd (ra_range o1), buf))"

definition put_relay :: "byte list \<Rightarrow> relay_actor \<Rightarrow> relay_actor" where
  "put_relay buf o1 = o1\<lparr>ra_part := poke 0 buf (ra_part o1)\<rparr>"

definition relay_registered :: "nat \<Rightarrow> relay_actor \<Rightarrow> byte list \<times> size_t \<times> size_t" where
  "relay_registered s o1 = (ra_part o1, snd (ra_range o1), fst (ra_range o1))"

definition bsp_relay_dv ::
  "(nat \<Rightarrow> block) \<Rightarrow> size_t \<Rightarrow> (nat \<Rightarrow> reader) \<Rightarrow> relay_actor actor_base list \<Rightarrow> relay_actor actor_base list result"
where
  "bsp_relay_dv blocks addr reads ps =
     bindE (broadcast_member ra_dv (\<lambda>dv o1. o1\<lparr>ra_dv := dv\<rparr>) ps) (\<lambda>ps1.
     bindE (on_all (prepare_relay (length ps)) ps1) (\<lambda>ps2.
     bindE (on_all (relay_range (length ps)) (sync_all ps2)) (\<lambda>ps3.
     bindE (read_all_parts (\<lambda>s. typed_dv_get_part 1 (reads s)) relay_to_read put_relay ps3) (\<lambda>ps4.
     bindE (register_all_parts 1 blocks addr relay_registered ps4) (\<lambda>ps5. Inr (sync_all ps5))))))"

definition relay_fetch_dv ::
  "(nat \<Rightarrow> block) \<Rightarrow> size_t \<Rightarrow> (nat \<Rightarrow> reader) \<Rightarrow> vector_distribution \<Rightarrow> relay_actor actor_base list \<Rightarrow>
    (vector_distribution \<times> relay_actor actor_base list) result"
where
  "relay_fetch_dv blocks addr reads dv ps =
     bindE (bsp_relay_dv blocks addr reads (upd_head (\<lambda>o1. o1\<lparr>ra_dv := dv\<rparr>) ps)) gather_result"

section \<open>One process\<close>

definition ra_group :: "relay_actor actor_base list \<Rightarrow> bool" where
  "ra_group ps \<longleftrightarrow> group_in_step ps \<and> 0 < length ps \<and> length ps < 2 ^ 31 \<and> (\<forall>s<length ps. \<exists>m. nparts (ra_dv (objs ps ! s)) = Inr m)"

abbreviation block_at :: "byte list \<Rightarrow> nat \<Rightarrow> nat \<Rightarrow> byte list" where
  "block_at v p s \<equiv> peek (block_begin (length v) p s) (block_size (length v) p s) v"

lemma length_block_at: "s < p \<Longrightarrow> length (block_at v p s) = block_size (length v) p s"
  using block_size_le [of s p "length v"] by (simp add: peek_def)

lemma new_part_eq: "n < 2 ^ 31 \<Longrightarrow> new_part (of_nat n) o1 = Inr (o1\<lparr>ra_part := replicate n 0\<rparr>)"
  by (simp add: new_part_def)

lemma init_part_eq:
  assumes "ra_size o1 = of_nat n" and "n + 1 < 2 ^ 31" and "0 < p" and "p < 2 ^ 31"
  shows "init_part p s o1 = Inr (o1\<lparr>ra_part := replicate (1 + n div p) 0\<rparr>)"
proof -
  have q: "1 + n div p < 2 ^ 31" using assms(2) div_le_dividend [of n p] by linarith
  have "add_int (of_nat 1) (of_nat (n div p)) = Inr (of_nat (1 + n div p))" using q by (rule add_int_of_nat)
  then have "add_int 1 (of_nat (n div p)) = Inr (of_nat (1 + n div p))" by (simp del: of_nat_add)
  moreover have "div_int (of_nat n) (of_nat p) = Inr (of_nat (n div p))" using assms by (intro div_int_of_nat) simp_all
  ultimately show ?thesis using new_part_eq [OF q] unfolding init_part_def assms(1) by (simp only: bindE_Inr)
qed

lemma relay_put_eq:
  assumes "length v < 2 ^ 31" and "s < p" and "p < 2 ^ 31"
  shows "relay_put v p s = Inr (of_nat s, 0, block_at v p s)"
  using assms block_size_le [OF assms(2), of "length v"] by (simp add: relay_put_def div_range_eq mem_read_def)

text \<open>Getting a block that was put there changes nothing.\<close>

lemma relay_get_eq:
  assumes "length v < 2 ^ 31" and "s < p" and "p < 2 ^ 31" and "block_size (length v) p s \<le> length (ra_part o1)"
    and "take (block_size (length v) p s) (ra_part o1) = block_at v p s"
  shows "relay_get p (s, o1) v = Inr v"
proof -
  let ?b = "block_begin (length v) p s" and ?n = "block_size (length v) p s"
  have le: "?b + ?n \<le> length v" using block_size_le [OF assms(2)] .
  have "poke ?b (block_at v p s) v = v" using le by (intro nth_equalityI) (auto simp: nth_poke nth_peek length_poke length_peek)
  then have "mem_write ?b (block_at v p s) v = Inr v" using le by (simp add: mem_write_def length_block_at [OF assms(2)])
  moreover have "mem_read (ra_part o1) 0 ?n = Inr (block_at v p s)" using assms(4,5) by (simp add: mem_read_def peek_def)
  ultimately show ?thesis using assms(1-3) le by (simp add: relay_get_def div_range_eq)
qed

section \<open>A vector on the head\<close>

lemma relay_scatter:
  assumes v: "length v + 1 < 2 ^ 31" and p: "0 < length ps" "length ps < 2 ^ 31"
  shows "\<exists>ps1 ps2 puts regs ps3. on_all (\<lambda>s o1. Inr (o1\<lparr>ra_size := ucast (of_nat (length v) :: size_t)\<rparr>)) ps = Inr ps1 \<and> init_size ps1 = Inr ps2 \<and>
    mapE (relay_put v (length ps)) [0..<length ps] = Inr puts \<and> bsp_deliver puts (map ra_part (objs ps2)) = Inr regs \<and>
    on_all (\<lambda>s o1. Inr (o1\<lparr>ra_part := regs ! s\<rparr>)) (sync_all ps2) = Inr ps3 \<and> length ps3 = length ps \<and> map actor_frame ps3 = map actor_frame ps \<and>
    (\<forall>s<length ps. block_size (length v) (length ps) s \<le> length (ra_part (objs ps3 ! s)) \<and>
      take (block_size (length v) (length ps) s) (ra_part (objs ps3 ! s)) = block_at v (length ps) s \<and> ra_dv (objs ps3 ! s) = ra_dv (objs ps ! s))"
proof -
  let ?p = "length ps" and ?n = "length v" and ?room = "1 + length v div length ps"
  have "\<exists>qs. on_all (\<lambda>s o1. Inr (o1\<lparr>ra_size := ucast (of_nat ?n :: size_t)\<rparr>)) ps = Inr qs \<and> length qs = ?p \<and>
      (\<forall>s<?p. ra_size (objs qs ! s) = of_nat ?n \<and> ra_dv (objs qs ! s) = ra_dv (objs ps ! s)) \<and>
      map step_view qs = map step_view ps \<and> map actor_frame qs = map actor_frame ps"
    using v by (intro on_all_ex) simp
  then obtain ps1 where p1: "on_all (\<lambda>s o1. Inr (o1\<lparr>ra_size := ucast (of_nat ?n :: size_t)\<rparr>)) ps = Inr ps1" "length ps1 = ?p"
    "\<And>s. s < ?p \<Longrightarrow> ra_size (objs ps1 ! s) = of_nat ?n \<and> ra_dv (objs ps1 ! s) = ra_dv (objs ps ! s)" "map actor_frame ps1 = map actor_frame ps" by blast
  have "\<exists>qs. on_all (init_part ?p) (sync_all ps1) = Inr qs \<and> length qs = length (sync_all ps1) \<and>
      (\<forall>s<length (sync_all ps1). length (ra_part (objs qs ! s)) = ?room \<and> ra_dv (objs qs ! s) = ra_dv (objs ps ! s)) \<and>
      map step_view qs = map step_view (sync_all ps1) \<and> map actor_frame qs = map actor_frame (sync_all ps1)"
  proof (rule on_all_ex)
    fix s assume "s < length (sync_all ps1)"
    then have s: "s < ?p" using p1(2) by simp
    show "\<exists>o2. init_part ?p s (objs (sync_all ps1) ! s) = Inr o2 \<and> length (ra_part o2) = ?room \<and> ra_dv o2 = ra_dv (objs ps ! s)"
      unfolding objs_sync_all using init_part_eq [OF conjunct1 [OF p1(3) [OF s]] v p, of s] p1(3) [OF s] by simp
  qed
  then obtain qs where q: "on_all (init_part ?p) (sync_all ps1) = Inr qs" "length qs = ?p"
    "\<And>s. s < ?p \<Longrightarrow> length (ra_part (objs qs ! s)) = ?room \<and> ra_dv (objs qs ! s) = ra_dv (objs ps ! s)" "map actor_frame qs = map actor_frame ps"
    using p1(2,4) by auto
  let ?regs = "map (\<lambda>s. poke 0 (block_at v ?p s) (ra_part (objs qs ! s))) [0..<?p]"
  have fits: "length (block_at v ?p s) \<le> length (ra_part (objs qs ! s))" if "s < ?p" for s
    using q(3) [OF that] length_block_at [OF that, of v] by (simp add: block_size_def)
  have puts: "mapE (relay_put v ?p) [0..<?p] = Inr (map (\<lambda>s. (of_nat s, 0, block_at v ?p s)) [0..<?p])"
    using v p(2) by (intro mapE_eq_map relay_put_eq) simp_all
  have "bsp_deliver (map (\<lambda>s. (of_nat s, 0, block_at v ?p s)) [0..<?p]) (map ra_part (objs qs)) = Inr ?regs"
    using bsp_deliver_poke [of "map ra_part (objs qs)" "block_at v ?p" ?p] fits q(2) p(2) by simp
  moreover have "\<exists>rs. on_all (\<lambda>s o1. Inr (o1\<lparr>ra_part := ?regs ! s\<rparr>)) (sync_all (sync_all qs)) = Inr rs \<and> length rs = length (sync_all (sync_all qs)) \<and>
      (\<forall>s<length (sync_all (sync_all qs)). block_size ?n ?p s \<le> length (ra_part (objs rs ! s)) \<and>
        take (block_size ?n ?p s) (ra_part (objs rs ! s)) = block_at v ?p s \<and> ra_dv (objs rs ! s) = ra_dv (objs ps ! s)) \<and>
      map step_view rs = map step_view (sync_all (sync_all qs)) \<and> map actor_frame rs = map actor_frame (sync_all (sync_all qs))"
  proof (rule on_all_ex)
    fix s assume "s < length (sync_all (sync_all qs))"
    then have s: "s < ?p" using q(2) by simp
    have "length (poke 0 (block_at v ?p s) (ra_part (objs qs ! s))) = ?room"
      using fits [OF s] q(3) [OF s] by (simp add: length_poke)
    then show "\<exists>o2. Inr ((objs (sync_all (sync_all qs)) ! s)\<lparr>ra_part := ?regs ! s\<rparr>) = Inr o2 \<and> block_size ?n ?p s \<le> length (ra_part o2) \<and>
        take (block_size ?n ?p s) (ra_part o2) = block_at v ?p s \<and> ra_dv o2 = ra_dv (objs ps ! s)"
      using s q(3) [OF s] length_block_at [OF s, of v] by (simp add: poke_def block_size_def)
  qed
  then obtain rs where "on_all (\<lambda>s o1. Inr (o1\<lparr>ra_part := ?regs ! s\<rparr>)) (sync_all (sync_all qs)) = Inr rs" "length rs = ?p"
    "\<forall>s<?p. block_size ?n ?p s \<le> length (ra_part (objs rs ! s)) \<and> take (block_size ?n ?p s) (ra_part (objs rs ! s)) = block_at v ?p s \<and>
      ra_dv (objs rs ! s) = ra_dv (objs ps ! s)" "map actor_frame rs = map actor_frame ps"
    using q(2,4) by auto
  ultimately show ?thesis using p1(1) puts q(1) p1(2)
    by (intro exI [of _ ps1] exI [of _ "sync_all qs"] exI [of _ "map (\<lambda>s. (of_nat s, 0, block_at v ?p s)) [0..<?p]"] exI [of _ ?regs] exI [of _ rs])
      (simp add: init_size_def)
qed

lemma relay_fetch_eq:
  assumes grp: "ra_group ps" and v: "length v + 1 < 2 ^ 31"
  shows "\<exists>qs. relay_fetch v ps = Inr (v, qs) \<and> length qs = length ps \<and>
    (\<forall>s<length ps. take (block_size (length v) (length ps) s) (ra_part (objs qs ! s)) = block_at v (length ps) s)"
proof -
  let ?p = "length ps"
  have p: "0 < ?p" "?p < 2 ^ 31" using grp by (simp_all add: ra_group_def)
  from relay_scatter [OF v p] obtain ps1 ps2 puts regs ps3 where r:
    "on_all (\<lambda>s o1. Inr (o1\<lparr>ra_size := ucast (of_nat (length v) :: size_t)\<rparr>)) ps = Inr ps1" "init_size ps1 = Inr ps2"
    "mapE (relay_put v ?p) [0..<?p] = Inr puts" "bsp_deliver puts (map ra_part (objs ps2)) = Inr regs"
    "on_all (\<lambda>s o1. Inr (o1\<lparr>ra_part := regs ! s\<rparr>)) (sync_all ps2) = Inr ps3" "length ps3 = ?p"
    "\<And>s. s < ?p \<Longrightarrow> block_size (length v) ?p s \<le> length (ra_part (objs ps3 ! s)) \<and>
      take (block_size (length v) ?p s) (ra_part (objs ps3 ! s)) = block_at v ?p s" by blast
  have "relay_get ?p (s, o1) v = Inr v" if x: "(s, o1) \<in> set (enumerate 0 (objs ps3))" for s o1
  proof -
    have "s < ?p" "o1 = objs ps3 ! s" using x r(6) by (auto simp: in_set_enumerate_eq)
    then show ?thesis using r(7) v p(2) by (intro relay_get_eq) auto
  qed
  then have "foldE (relay_get ?p) xs v = Inr v" if "set xs \<subseteq> set (enumerate 0 (objs ps3))" for xs
    using that by (induction xs) auto
  then have "foldE (relay_get ?p) (enumerate 0 (objs ps3)) v = Inr v" by blast
  then have "relay_fetch v ps = Inr (v, sync_all (sync_all ps3))" unfolding relay_fetch_def using r(1-5) by simp
  then show ?thesis using r(6,7) by (intro exI [of _ "sync_all (sync_all ps3)"]) (simp add: base_sync_def)
qed

section \<open>A distributed vector\<close>

lemma typed_size_1: "describes parts v \<Longrightarrow> typed_getVecSize 1 (vd_bytes parts) = Inr (of_nat (length v))"
  using describes_end [of parts v] by (simp add: typed_getVecSize_def getVecSize_eq)

lemma prepare_relay_eq:
  assumes "ra_dv o1 = vd_bytes parts" and "describes parts v" and "0 < p" and "p < 2 ^ 31"
  shows "prepare_relay p s o1 = Inr (o1\<lparr>ra_size := of_nat (length v), ra_part := replicate (length v div p) 0\<rparr>)"
proof -
  have n: "length v < 2 ^ 31" using assms(2) by (simp add: describes_def)
  then have q: "length v div p < 2 ^ 31" using div_le_dividend [of "length v" p] by linarith
  have "div_int (of_nat (length v)) (of_nat p) = Inr (of_nat (length v div p))" using n assms(3,4) by (rule div_int_of_nat)
  then show ?thesis using n new_part_eq [OF q] by (simp add: prepare_relay_def assms(1) typed_size_1 [OF assms(2)])
qed

text \<open>Up to the reading of the vector.\<close>

definition relay_ready :: "byte list \<Rightarrow> vector_distribution \<Rightarrow> nat \<Rightarrow> nat \<Rightarrow> relay_actor \<Rightarrow> bool" where
  "relay_ready v dv p s o1 \<longleftrightarrow> ra_dv o1 = dv \<and> length (ra_part o1) = length v div p \<and>
     ra_range o1 = (of_nat (block_begin (length v) p s), of_nat (block_size (length v) p s))"

lemma relay_front:
  assumes grp: "ra_group ps" and dv: "describes parts v"
  shows "\<exists>ps1 ps2 ps3. broadcast_member ra_dv (\<lambda>dv o1. o1\<lparr>ra_dv := dv\<rparr>) (upd_head (\<lambda>o1. o1\<lparr>ra_dv := vd_bytes parts\<rparr>) ps) = Inr ps1 \<and>
    on_all (prepare_relay (length ps)) ps1 = Inr ps2 \<and> on_all (relay_range (length ps)) (sync_all ps2) = Inr ps3 \<and> length ps3 = length ps \<and>
    group_in_step ps3 \<and> map result_view ps3 = map result_view ps \<and> (\<forall>s<length ps. relay_ready v (vd_bytes parts) (length ps) s (objs ps3 ! s))"
proof -
  let ?p = "length ps" and ?n = "length v"
  have p: "0 < ?p" "?p < 2 ^ 31" and n: "?n < 2 ^ 31" using grp dv by (simp_all add: ra_group_def describes_def)
  have "\<exists>ps1. broadcast_member ra_dv (\<lambda>dv o1. o1\<lparr>ra_dv := dv\<rparr>) (upd_head ((\<lambda>dv o1. o1\<lparr>ra_dv := dv\<rparr>) (vd_bytes parts)) ps) = Inr ps1 \<and>
      group_in_step ps1 \<and> length ps1 = ?p \<and> map result_view ps1 = map result_view ps \<and>
      (\<forall>s<?p. objs ps1 ! s = (objs ps ! s)\<lparr>ra_dv := vd_bytes parts\<rparr>)"
    using grp dv by (intro share_member) (auto simp: ra_group_def describes_def)
  then obtain ps1 where p1: "broadcast_member ra_dv (\<lambda>dv o1. o1\<lparr>ra_dv := dv\<rparr>) (upd_head (\<lambda>o1. o1\<lparr>ra_dv := vd_bytes parts\<rparr>) ps) = Inr ps1"
    "group_in_step ps1" "length ps1 = ?p" "map result_view ps1 = map result_view ps" "\<And>s. s < ?p \<Longrightarrow> ra_dv (objs ps1 ! s) = vd_bytes parts" by auto
  have "\<exists>ps2. on_all (prepare_relay ?p) ps1 = Inr ps2 \<and> length ps2 = length ps1 \<and>
      (\<forall>s<length ps1. ra_dv (objs ps2 ! s) = vd_bytes parts \<and> ra_size (objs ps2 ! s) = of_nat ?n \<and> length (ra_part (objs ps2 ! s)) = ?n div ?p) \<and>
      map step_view ps2 = map step_view ps1 \<and> map actor_frame ps2 = map actor_frame ps1"
    using p1(3,5) prepare_relay_eq [OF _ dv p] by (intro on_all_ex) simp
  then obtain ps2 where p2: "on_all (prepare_relay ?p) ps1 = Inr ps2" "length ps2 = ?p" "map step_view ps2 = map step_view ps1"
    "map actor_frame ps2 = map actor_frame ps1"
    "\<And>s. s < ?p \<Longrightarrow> ra_dv (objs ps2 ! s) = vd_bytes parts \<and> ra_size (objs ps2 ! s) = of_nat ?n \<and> length (ra_part (objs ps2 ! s)) = ?n div ?p"
    unfolding p1(3) by blast
  have "\<exists>ps3. on_all (relay_range ?p) (sync_all ps2) = Inr ps3 \<and> length ps3 = length (sync_all ps2) \<and>
      (\<forall>s<length (sync_all ps2). relay_ready v (vd_bytes parts) ?p s (objs ps3 ! s)) \<and>
      map step_view ps3 = map step_view (sync_all ps2) \<and> map actor_frame ps3 = map actor_frame (sync_all ps2)"
  proof (rule on_all_ex)
    fix s assume "s < length (sync_all ps2)"
    then have s: "s < ?p" using p2(2) by simp
    show "\<exists>o2. relay_range ?p s (objs (sync_all ps2) ! s) = Inr o2 \<and> relay_ready v (vd_bytes parts) ?p s o2"
      unfolding objs_sync_all using p2(5) [OF s] n by (simp add: relay_range_def div_range_eq [OF n s p(2)] relay_ready_def)
  qed
  then obtain ps3 where p3: "on_all (relay_range ?p) (sync_all ps2) = Inr ps3" "length ps3 = ?p"
    "\<And>s. s < ?p \<Longrightarrow> relay_ready v (vd_bytes parts) ?p s (objs ps3 ! s)" "map step_view ps3 = map step_view (sync_all ps2)"
    "map actor_frame ps3 = map actor_frame (sync_all ps2)"
    using p2(2) by auto
  have "group_in_step ps2" using in_step_view [OF p2(3) p1(2)] .
  then have "group_in_step ps3" using in_step_view [OF p3(4)] by simp
  moreover have "map result_view ps3 = map result_view ps" using frame_view [OF p3(5)] frame_view [OF p2(4)] p1(4) by simp
  ultimately show ?thesis using p1(1) p2(1) p3(1-3) by blast
qed

lemma relay_dv_eq:
  assumes grp: "ra_group ps" and res: "results_group (Suc m) servers ps" and dv: "describes parts v" and small: "length v < 2 ^ 31 - 28"
    and reads: "\<forall>s<length ps. reads_vector (reads s) (vd_bytes parts) v" and even: "length ps dvd length v"
  shows "\<exists>dv qs servers'. relay_fetch_dv blocks addr reads (vd_bytes parts) ps = Inr (dv, qs) \<and> returned m envs servers ps v dv qs servers'"
proof -
  let ?p = "length ps" and ?n = "\<lambda>s. block_size (length v) (length ps) s" and ?b = "\<lambda>s. block_begin (length v) (length ps) s"
  let ?d = "\<lambda>s. block_at v ?p s"
  have p: "0 < ?p" using grp by (simp add: ra_group_def)
  have size: "?n s = length v div ?p" for s using even by (simp add: block_size_def)
  from relay_front [OF grp dv] obtain ps1 ps2 ps3 where f:
    "broadcast_member ra_dv (\<lambda>dv o1. o1\<lparr>ra_dv := dv\<rparr>) (upd_head (\<lambda>o1. o1\<lparr>ra_dv := vd_bytes parts\<rparr>) ps) = Inr ps1"
    "on_all (prepare_relay ?p) ps1 = Inr ps2" "on_all (relay_range ?p) (sync_all ps2) = Inr ps3" "length ps3 = ?p"
    "group_in_step ps3" "map result_view ps3 = map result_view ps" "\<And>s. s < ?p \<Longrightarrow> relay_ready v (vd_bytes parts) ?p s (objs ps3 ! s)" by blast
  have "\<exists>ps4. read_all_parts (\<lambda>s. typed_dv_get_part 1 (reads s)) relay_to_read put_relay ps3 = Inr ps4 \<and> length ps4 = length ps3 \<and>
      (\<forall>s<length ps3. relay_registered s (objs ps4 ! s) = (?d s, of_nat (?n s), of_nat (?b s))) \<and>
      map step_view ps4 = map step_view ps3 \<and> map result_view ps4 = map result_view ps3"
  proof (rule read_all_parts_ex)
    fix s assume "s < length ps3"
    then have s: "s < ?p" using f(4) by simp
    note o = f(7) [OF s, unfolded relay_ready_def]
    have le: "?b s + ?n s \<le> length v" using block_size_le [OF s] .
    then have "?n s < 2 ^ 64" using small by simp
    then have "relay_to_read s (objs ps3 ! s) = Inr (vd_bytes parts, of_nat (?b s), of_nat (?n s), ra_part (objs ps3 ! s))"
      using o size by (simp add: relay_to_read_def mem_read_def peek_def)
    moreover obtain sent where "reads s (vd_bytes parts) (of_nat (?b s)) (of_nat (?n s)) (ra_part (objs ps3 ! s)) = Inr (sent, ?d s)"
      using reads s le o size unfolding reads_vector_def by metis
    ultimately show "\<exists>dv off sz buf sent out. relay_to_read s (objs ps3 ! s) = Inr (dv, off, sz, buf) \<and>
        typed_dv_get_part 1 (reads s) dv off sz buf = Inr (sent, out) \<and>
        relay_registered s (put_relay out (objs ps3 ! s)) = (?d s, of_nat (?n s), of_nat (?b s))"
      using o size length_block_at [OF s, of v] by (simp add: typed_dv_get_part_def relay_registered_def put_relay_def poke_def)
  qed
  then obtain ps4 where q: "read_all_parts (\<lambda>s. typed_dv_get_part 1 (reads s)) relay_to_read put_relay ps3 = Inr ps4" "length ps4 = ?p"
    "\<And>s. s < ?p \<Longrightarrow> relay_registered s (objs ps4 ! s) = (?d s, of_nat (?n s), of_nat (?b s))" "map step_view ps4 = map step_view ps3"
    "map result_view ps4 = map result_view ps"
    using f(4,6) by auto
  have grp4: "results_group (Suc m) servers ps4" using res results_group_view(1) [OF q(5)] by simp
  have ne: "ps4 \<noteq> []" "vd_small (length ps4)" using grp4 by (simp_all add: results_group_def vd_small_def)
  have "parts_make ps4 ?n (\<lambda>s. of_nat (?b s)) ?d v"
    by (rule tiles_make [OF ne]) (use small p q(2) length_block_at [of _ ?p v] in \<open>simp_all add: block_begin_Suc block_begin_all\<close>)
  moreover have "\<forall>s<length ps4. relay_registered s (ab_obj (ps4 ! s)) = (?d s, of_nat (?n s), of_nat (?b s))" using q(2,3) by simp
  ultimately obtain qs dv servers' where r: "register_all_parts 1 blocks addr relay_registered ps4 = Inr qs"
    "gather_result (sync_all qs) = Inr (dv, sync_all (sync_all qs))" "returned m envs servers ps4 v dv (sync_all (sync_all qs)) servers'"
    using group_result_step [where what = relay_registered, OF grp4 in_step_view [OF q(4) f(5)], of ?d ?n "\<lambda>s. of_nat (?b s)" v blocks addr envs] by blast
  then show ?thesis using f(1-3) q(1) returned_view [OF q(5), of m envs servers]
    by (intro exI [of _ dv] exI [of _ "sync_all (sync_all qs)"] exI [of _ servers']) (simp add: relay_fetch_dv_def bsp_relay_dv_def)
qed

lemma relay_dv_overrun:
  assumes grp: "ra_group ps" and dv: "describes parts v" and odd: "\<not> length ps dvd length v"
  shows "relay_fetch_dv blocks addr reads (vd_bytes parts) ps = Inl Out_of_bounds"
proof -
  let ?p = "length ps"
  have p: "0 < ?p" using grp by (simp add: ra_group_def)
  from relay_front [OF grp dv] obtain ps1 ps2 ps3 where f:
    "broadcast_member ra_dv (\<lambda>dv o1. o1\<lparr>ra_dv := dv\<rparr>) (upd_head (\<lambda>o1. o1\<lparr>ra_dv := vd_bytes parts\<rparr>) ps) = Inr ps1"
    "on_all (prepare_relay ?p) ps1 = Inr ps2" "on_all (relay_range ?p) (sync_all ps2) = Inr ps3" "length ps3 = ?p"
    "\<And>s. s < ?p \<Longrightarrow> relay_ready v (vd_bytes parts) ?p s (objs ps3 ! s)" by blast
  obtain a rest where ps3: "ps3 = a # rest" using f(4) p by (cases ps3) auto
  have size: "block_size (length v) ?p 0 = length v div ?p + 1" using odd by (simp add: block_size_def dvd_eq_mod_eq_0)
  have "length v < 2 ^ 31" using dv by (simp add: describes_def)
  then have "length v div ?p < 2 ^ 31" using div_le_dividend [of "length v" ?p] by (rule le_less_trans [rotated])
  then have "block_size (length v) ?p 0 < 2 ^ 64" unfolding size by simp
  then have "relay_to_read 0 (ab_obj a) = Inl Out_of_bounds"
    using f(5) [OF p] size by (simp add: ps3 relay_ready_def relay_to_read_def mem_read_def del: of_nat_Suc of_nat_add)
  then have "read_all_parts (\<lambda>s. typed_dv_get_part 1 (reads s)) relay_to_read put_relay ps3 = Inl Out_of_bounds"
    by (simp add: read_all_parts_def ps3 enumerate_simps)
  then show ?thesis using f(1-3) by (simp add: relay_fetch_dv_def bsp_relay_dv_def)
qed

section \<open>Properties\<close>

text \<open>
  \<^verbatim>\<open>fetch\<close> returns its argument: the blocks of the vector are put to the processes, where they are
  afterwards, and come back to where they were.
\<close>

theorem relay_fetch_same:
  assumes "ra_group ps" and "length v + 1 < 2 ^ 31"
  shows "\<exists>qs. relay_fetch v ps = Inr (v, qs) \<and> length qs = length ps \<and>
    (\<forall>s<length ps. take (block_size (length v) (length ps) s) (ra_part (objs qs ! s)) = block_at v (length ps) s)"
  using assms by (rule relay_fetch_eq)

text \<open>
  Property C36: \<^verbatim>\<open>fetch_dv\<close> returns the distributed vector it gets if the number of processes divides its size. Otherwise
  the first process reads a block that is one byte longer than its buffer, and writes past its end.
\<close>

theorem relay_fetch_dv_result:
  assumes grp: "ra_group ps" and res: "results_group 1 servers ps" and dv: "describes parts v" and small: "length v < 2 ^ 31 - 28"
    and reads: "\<forall>s<length ps. reads_vector (reads s) (vd_bytes parts) v"
  shows "if length ps dvd length v
    then \<exists>dv qs servers'. relay_fetch_dv blocks addr reads (vd_bytes parts) ps = Inr (dv, qs) \<and>
      deliver_own envs (last_messages qs) servers = Inr servers' \<and>
      (\<forall>self. reads_vector (process_reader rblocks base envs' servers' self) dv v)
    else relay_fetch_dv blocks addr reads (vd_bytes parts) ps = Inl Out_of_bounds"
proof (cases "length ps dvd length v")
  case True
  from relay_dv_eq [OF grp res [unfolded One_nat_def] dv small reads True, of blocks addr envs]
  obtain dv qs servers' where "relay_fetch_dv blocks addr reads (vd_bytes parts) ps = Inr (dv, qs)" "returned 0 envs servers ps v dv qs servers'"
    by blast
  then show ?thesis using True process_reader_reads by (auto simp: returned_def)
next
  case False
  then show ?thesis using relay_dv_overrun [OF grp dv] by simp
qed

text \<open>New actors of two processes; a vector of three bytes of another process.\<close>

definition new_relay :: "relay_actor actor_base list" where
  "new_relay = placed_group 1 (replicate 2 (projr (RelayActor \<lparr>ra_part = [], ra_size = 0, ra_dv = [], ra_range = (0, 0)\<rparr>)))"

lemma new_relay_ok: "ra_group new_relay" "results_group 1 ActorServer new_relay" "length new_relay = 2"
proof -
  let ?os = "replicate 2 (projr (RelayActor \<lparr>ra_part = [], ra_size = 0, ra_dv = [], ra_range = (0, 0)\<rparr>))"
  note g = placed_group_ok [where os = ?os and first = 1, folded new_relay_def]
  have "vector_distribution_base 1 = Inr (vd_bytes [zero_part])"
    using vector_distribution_base_eq [of 1] by (simp add: vd_small_def)
  then have "\<exists>m. nparts (ra_dv (projr (RelayActor \<lparr>ra_part = [], ra_size = 0, ra_dv = [], ra_range = (0, 0)\<rparr>))) = Inr m" by (simp add: RelayActor_def)
  then show "ra_group new_relay" using g(1-3) by (simp add: ra_group_def)
  show "results_group 1 ActorServer new_relay" using g(4) by simp
  show "length new_relay = 2" using g(3) by simp
qed

theorem relay_fetch_same_witness: "\<exists>qs. relay_fetch [7, 8, 9] new_relay = Inr ([7, 8, 9], qs) \<and> take 2 (ra_part (objs qs ! 0)) = [7, 8]"
proof -
  have small: "length [7, 8, 9 :: byte] + 1 < 2 ^ 31" by simp
  obtain qs where q: "relay_fetch [7, 8, 9] new_relay = Inr ([7, 8, 9], qs)"
    "\<forall>s<length new_relay. take (block_size (length [7, 8, 9 :: byte]) (length new_relay) s) (ra_part (objs qs ! s)) = block_at [7, 8, 9] (length new_relay) s"
    using relay_fetch_same [OF new_relay_ok(1) small] by blast
  have "block_size (Suc (Suc (Suc 0))) 2 0 = 2" by (simp add: block_size_def)
  then have "take 2 (ra_part (objs qs ! 0)) = [7, 8]"
    using q(2) [rule_format, of 0] by (simp add: new_relay_ok(3) peek_def)
  then show ?thesis using q(1) by blast
qed

theorem relay_fetch_dv_result_witness:
  "relay_fetch_dv (\<lambda>_. \<lparr>bl_addr = 1, bl_mem = \<lambda>_. 0\<rparr>) 0 (\<lambda>s. direct_reader (\<lambda>dv. [7, 8, 9]))
    (vd_bytes [\<lparr>vp_pid = 9, vp_resid = 0, vp_size = 3, vp_offset = 0\<rparr>]) new_relay = Inl Out_of_bounds"
proof -
  let ?part = "\<lparr>vp_pid = 9, vp_resid = 0, vp_size = 3, vp_offset = 0\<rparr>" and ?b = "\<lambda>_ :: nat. \<lparr>bl_addr = 1, bl_mem = \<lambda>_. 0\<rparr>"
  have d: "describes [?part] [7, 8, 9]" by (auto simp: describes_def vd_small_def)
  have "\<forall>s<length new_relay. reads_vector (direct_reader (\<lambda>dv. [7, 8, 9])) (vd_bytes [?part]) [7, 8, 9]" by (simp add: direct_reader_reads)
  from relay_fetch_dv_result [OF new_relay_ok(1,2) d _ this, of ?b 0 "\<lambda>_. plain_env" ?b 0 "\<lambda>_. plain_env"]
  show ?thesis by (simp add: new_relay_ok(3))
qed

end
