(* ===== verification/Process_Assign.thy ===== *)
theory Process_Assign
  imports Prelude
begin

text \<open>
  The assignment of processes to actors: \<^verbatim>\<open>allocate_contiguous_procs\<close> and
  \<^verbatim>\<open>ContiguousProcessAllocator\<close> (src/src/ActiveBSP/src/procassign/contiguous_assign.cpp).
  Successive allocations hand out disjoint runs of process ids until the processes are used up.
\<close>

section \<open>The code\<close>

definition allocate_contiguous_procs :: "c_int \<Rightarrow> c_int \<Rightarrow> c_int list result" where
  "allocate_contiguous_procs offset p =
     (if sint p < 0 then Inl Bad_alloc
      else mapE (\<lambda>i. add_int offset (of_nat i)) [0..<nat (sint p)])"

record process_allocator =
  pa_offset :: c_int
  pa_cur_offset :: c_int
  pa_p :: c_int
  pa_cur_p :: c_int

definition ContiguousProcessAllocator :: "c_int \<Rightarrow> c_int \<Rightarrow> process_allocator" where
  "ContiguousProcessAllocator offset p =
     \<lparr>pa_offset = offset, pa_cur_offset = offset, pa_p = p, pa_cur_p = p\<rparr>"

definition allocate :: "c_int \<Rightarrow> process_allocator \<Rightarrow> (c_int list \<times> process_allocator) result" where
  "allocate p a =
     (if sint (pa_cur_p a) < sint p then Inr ([], a)
      else bindE (allocate_contiguous_procs (pa_cur_offset a) p) (\<lambda>pids.
           bindE (sub_int (pa_cur_p a) p) (\<lambda>cur_p.
           bindE (add_int (pa_cur_offset a) p) (\<lambda>cur_offset.
             Inr (pids, a\<lparr>pa_cur_p := cur_p, pa_cur_offset := cur_offset\<rparr>)))))"

fun allocate_all :: "c_int list \<Rightarrow> process_allocator \<Rightarrow> (c_int list list \<times> process_allocator) result" where
  "allocate_all [] a = Inr ([], a)"
| "allocate_all (p # ps) a =
     bindE (allocate p a) (\<lambda>(pids, a').
     bindE (allocate_all ps a') (\<lambda>(rest, a''). Inr (pids # rest, a'')))"

section \<open>Its behaviour\<close>

text \<open>The invariant: the remaining processes are the run \<open>cur_offset ..< offset + p\<close>.\<close>

definition pa_state :: "nat \<Rightarrow> nat \<Rightarrow> nat \<Rightarrow> process_allocator" where
  "pa_state offset p used = \<lparr>pa_offset = of_nat offset, pa_cur_offset = of_nat (offset + used),
     pa_p = of_nat p, pa_cur_p = of_nat (p - used)\<rparr>"

lemma allocate_contiguous_procs_eq:
  assumes "offset + p < 2 ^ 31"
  shows "allocate_contiguous_procs (of_nat offset) (of_nat p) = Inr (map of_nat [offset..<offset + p])"
proof -
  have "mapE (\<lambda>i. add_int (of_nat offset) (of_nat i)) [0..<p] = Inr (map (\<lambda>i. of_nat (offset + i)) [0..<p])"
    using assms by (intro mapE_eq_map add_int_of_nat) simp
  moreover have "map (\<lambda>i. of_nat (offset + i)) [0..<p] = map of_nat [offset..<offset + p]"
    by (rule nth_equalityI) simp_all
  ultimately show ?thesis using assms by (simp only: allocate_contiguous_procs_def) simp
qed

lemma allocate_state:
  assumes "used \<le> p" and "offset + p < 2 ^ 31" and "k < 2 ^ 31"
  shows "allocate (of_nat k) (pa_state offset p used) =
    (if p - used < k then Inr ([], pa_state offset p used)
     else Inr (map of_nat [offset + used..<offset + used + k], pa_state offset p (used + k)))"
proof (cases "p - used < k")
  case True
  then show ?thesis using assms by (simp add: allocate_def pa_state_def del: of_nat_diff)
next
  case False
  define r where "r = p - used"
  define o' where "o' = offset + used"
  have r: "k \<le> r" "r < 2 ^ 31" and o': "o' + k < 2 ^ 31" using False assms by (auto simp: r_def o'_def)
  have procs: "allocate_contiguous_procs (of_nat o') (of_nat k) = Inr (map of_nat [o'..<o' + k])"
    using o' by (rule allocate_contiguous_procs_eq)
  have sub: "sub_int (of_nat r) (of_nat k) = Inr (of_nat (r - k))" using r by (rule sub_int_of_nat)
  have add: "add_int (of_nat o') (of_nat k) = Inr (of_nat (o' + k))" using o' by (rule add_int_of_nat)
  have lt: "\<not> sint (of_nat r :: c_int) < sint (of_nat k :: c_int)" using r assms(3) by simp
  have st: "pa_state offset p used = \<lparr>pa_offset = of_nat offset, pa_cur_offset = of_nat o', pa_p = of_nat p, pa_cur_p = of_nat r\<rparr>"
    "pa_state offset p (used + k) = \<lparr>pa_offset = of_nat offset, pa_cur_offset = of_nat (o' + k), pa_p = of_nat p, pa_cur_p = of_nat (r - k)\<rparr>"
    by (simp_all add: pa_state_def r_def o'_def add.assoc)
  show ?thesis
    using False lt procs sub add unfolding st o'_def [symmetric]
    by (simp only: allocate_def process_allocator.simps if_False bindE_Inr)
qed

lemma allocate_all_state:
  assumes "used + sum_list ks \<le> p" and "offset + p < 2 ^ 31"
  shows "\<exists>pidss. allocate_all (map of_nat ks) (pa_state offset p used) =
      Inr (pidss, pa_state offset p (used + sum_list ks)) \<and> map length pidss = ks \<and>
      concat pidss = map of_nat [offset + used..<offset + used + sum_list ks]"
  using assms(1)
proof (induction ks arbitrary: used)
  case Nil
  then show ?case by simp
next
  case (Cons k ks)
  have k: "used \<le> p" "k < 2 ^ 31" "\<not> p - used < k" using Cons.prems assms(2) by simp_all
  obtain pidss where "allocate_all (map of_nat ks) (pa_state offset p (used + k)) =
      Inr (pidss, pa_state offset p (used + k + sum_list ks))" "map length pidss = ks"
    "concat pidss = map of_nat [offset + (used + k)..<offset + (used + k) + sum_list ks]"
    using Cons.IH [of "used + k"] Cons.prems by (auto simp: add.assoc)
  moreover have "[offset + used..<offset + used + (k + sum_list ks)] =
      [offset + used..<offset + used + k] @ [offset + (used + k)..<offset + (used + k) + sum_list ks]"
    using upt_add_eq_append [of "offset + used" "offset + used + k" "sum_list ks"] by (simp add: add.assoc)
  ultimately show ?case
    using allocate_state [OF k(1) assms(2) k(2)] k(3) by (simp add: add.assoc)
qed

section \<open>Properties\<close>

text \<open>
  As long as the requests fit into the processes of the allocator, each request gets as
  many processes as it asks for, no process is handed out twice, and together they are exactly
  the first processes of the allocator in order.
\<close>

theorem allocations_disjoint:
  assumes "sum_list ks \<le> p" and "offset + p < 2 ^ 31"
  shows "\<exists>pidss a. allocate_all (map of_nat ks) (ContiguousProcessAllocator (of_nat offset) (of_nat p)) = Inr (pidss, a) \<and>
    map length pidss = ks \<and> distinct (concat pidss) \<and>
    concat pidss = map of_nat [offset..<offset + sum_list ks]"
proof -
  have init: "ContiguousProcessAllocator (of_nat offset) (of_nat p) = pa_state offset p 0"
    by (simp add: ContiguousProcessAllocator_def pa_state_def)
  have "inj_on (of_nat :: nat \<Rightarrow> c_int) {offset..<offset + sum_list ks}"
    by (rule inj_on_inverseI [where g = unat]) (use assms in simp)
  then show ?thesis
    using allocate_all_state [of 0 ks p offset] assms init by (auto simp: distinct_map)
qed

theorem allocations_disjoint_witness:
  "\<exists>pidss a. allocate_all [2, 1] (ContiguousProcessAllocator 1 4) = Inr (pidss, a) \<and>
    map length pidss = [2, 1] \<and> distinct (concat pidss) \<and> concat pidss = [1, 2, 3 :: c_int]"
  using allocations_disjoint [of "[2, 1]" 4 1] by (simp add: upt_rec)

text \<open>
  A request for more processes than remain gets the empty list and leaves the
  allocator unchanged, so a smaller request can still be served.
\<close>

theorem allocate_exhausted:
  assumes "used \<le> p" and "offset + p < 2 ^ 31" and "k < 2 ^ 31" and "p - used < k"
  shows "allocate (of_nat k) (pa_state offset p used) = Inr ([], pa_state offset p used)"
  using allocate_state [OF assms(1-3)] assms(4) by simp

theorem allocate_exhausted_witness:
  "allocate 4 (pa_state 1 4 1) = Inr ([], pa_state 1 4 1)"
  using allocate_exhausted [of 1 4 1 4] by simp

end
