(* ===== verification/Spec2Isabelle.thy ===== *)
theory Spec2Isabelle
  imports Database_Files Image_Store_Seq Compressor_Seq Pipe_Actor Relay_Actor Process_Assign
begin

text \<open>
  ActiveBSP: active objects on top of BSP and MPI (src/src/ActiveBSP).

  \<^bold>\<open>The program.\<close> An actor is an object that lives on a group of processes. Each process has two
  threads. The management thread (\<^verbatim>\<open>ActorServer\<close>) receives messages and owns the futures and the parts
  of distributed vectors of its process. The worker thread (\<^verbatim>\<open>ActorWorker\<close>) runs the methods of
  the actor: on the head of the group it takes requests from a queue, on the other processes it runs
  the SPMD functions the head asks for. A client has a proxy of the actor and futures of its calls.
  A call goes from the proxy to the management thread of the head, through the request queue to the
  worker thread, and its serialised result comes back as the data of a future. Vectors that are
  arguments or results stay distributed: a description says which process holds which range, and
  a reader asks these processes for the bytes.

  \<^bold>\<open>The theories\<close>, in the order in which they build on each other:

  \<^item> \<^verbatim>\<open>Prelude\<close>: machine integers, byte buffers, failures as values.
  \<^item> \<^verbatim>\<open>Block_Distribution\<close> (src/distributions/block_distribution.cpp, include/Distributor.h):
    \<^verbatim>\<open>div_range\<close>; the ranges of the processes tile the vector below \<open>2 ^ 31\<close> elements, and beyond
    a process gets its block unless the product it is computed from overflows.
  \<^item> \<^verbatim>\<open>Vector_Distribution\<close> (vector_distribution.cpp, .h, .hpp; gather_distr_parts of Actor.hpp):
    descriptions as byte buffers, shown to behave like lists of parts.
  \<^item> \<^verbatim>\<open>Actor_Messages\<close>, \<^verbatim>\<open>Message_Codec\<close> (src/actormsg): the message classes at byte level, the factory
    of the receiver; the locale \<^verbatim>\<open>wire_codec\<close> is the contract of a class (what is built is what is
    read, whatever follows in the receive buffer), interpreted for each of them.
  \<^item> \<^verbatim>\<open>Data_Store\<close> (src/future/DataStore.cpp, LazyFutureDataStore.cpp, FutureKeyManager.cpp): the
    stores of a process, with an abstraction to a map of parts.
  \<^item> \<^verbatim>\<open>Request_Queue\<close> (src/shmem/SharedMemoryRequestQueue.cpp): the queue between the two threads as a
    step relation; FIFO in every interleaving.
  \<^item> \<^verbatim>\<open>Process_Assign\<close> (src/procassign/contiguous_assign.cpp): the allocator of processes.
  \<^item> \<^verbatim>\<open>Communicator\<close> (src/mpi/MPIActorCommunicator.cpp): sends and the receive buffer.
  \<^item> \<^verbatim>\<open>Actor_Server\<close> (src/management/ActorServer.cpp and ThreadedActorWorkerProxy.cpp): the state, every
    handler and the loop of the management thread. \<^verbatim>\<open>Server_Invariant\<close>: its invariant and the errors
    that break it. \<^verbatim>\<open>Server_Parts\<close>: requests for parts, early and late. \<^verbatim>\<open>Server_Futures\<close>: the
    futures refine a specification by slots (locale \<^verbatim>\<open>reactive\<close>). \<^verbatim>\<open>Server_Calls\<close>: distribution,
    the end of the loop, the order of calls. \<^verbatim>\<open>Server_Prefetch\<close>: fetching parts in pieces.
  \<^item> \<^verbatim>\<open>Vector_Access\<close>, \<^verbatim>\<open>Vector_Store\<close> (MPIActorCommunicator.cpp, SharedMemoryMasterProxy.cpp): reading
    a range of a distributed vector, distributing, storing and releasing one; what is stored is
    read back through the servers of all processes.
  \<^item> \<^verbatim>\<open>Actor_Base\<close> (src/Actor.cpp, include/Actor.h, Actor.hpp): the table of SPMD functions, the results
    of an actor, the broadcast of a description to all its processes.
  \<^item> \<^verbatim>\<open>Serialization\<close> (include/serialization): contiguous serialisation, the choice between it and
    Boost, calling a method from serialised arguments; reading accepts exactly what writing produces.
  \<^item> \<^verbatim>\<open>Actor_Worker\<close> (src/worker/ActorWorker.cpp, SharedMemoryMasterProxy.cpp, the publishers,
    decl_actor.h): both loops of the worker thread; the head serves the calls in order, the other
    processes follow it.
  \<^item> \<^verbatim>\<open>Actor_Call\<close> (Proxy, Future, LazyFutureDataRetriever, CallActorMessage.hpp, activebsp.cpp):
    the client; a call through a proxy gives the value the method returns.
  \<^item> \<^verbatim>\<open>Future_Network\<close>: the management threads of all processes and their clients as one step
    relation, in any interleaving; futures are never mixed up, and what is published arrives.
  \<^item> \<^verbatim>\<open>Actor_Process\<close> (decl_actor.h, actor_registry.h, ActorBSPProcess, ThreadedActorWorkerProxy.cpp,
    MPIWrapper.cpp, activebsp.cpp): what the macros that declare an actor generate, the registry of
    classes, the start of the worker thread and of the library.
  \<^item> \<^verbatim>\<open>Spmd_Group\<close>: all processes of an actor as a list, supersteps, puts, and the locale
    \<^verbatim>\<open>range_reader\<close>, the contract of \<^verbatim>\<open>dv_get_part\<close>, interpreted on the library's reader.
  \<^item> \<^verbatim>\<open>Image_Database\<close> (src/src/examples/imgproc/src/ImageDatabase.cpp): an actor built on the library, a
    distributed hash table of images; it behaves like a set. \<^verbatim>\<open>Image_Files\<close>, \<^verbatim>\<open>Database_Files\<close>: files as a
    map from paths to contents, saving and loading the database.
  \<^item> \<^verbatim>\<open>Group_Result\<close>: results of an actor that are distributed vectors; every process registers its part,
    the head gathers the description, and any other process reads the result through it, also after
    later results of the same or of other actors.
  \<^item> \<^verbatim>\<open>Image_Store\<close>, \<^verbatim>\<open>Image_Store_Seq\<close> (src/src/examples/imgproc/src/ImgStore.cpp): the actor that stores
    images to files, one per process, and loads them again, distributed or to the head.
  \<^item> \<^verbatim>\<open>Double_Arith\<close>, \<^verbatim>\<open>Compress_Kernel\<close>, \<^verbatim>\<open>Image_Compressor\<close> (src/src/examples/imgproc/src/MonochromeCompressor.cpp):
    the actor that turns a colour image into a smaller gray one. The kernel is the loop over squares
    of pixels, which writes its result over its input; it computes the same as a function from the
    colour image to the gray one, within a bound of the rounding of the mean. \<^verbatim>\<open>Compressor_Part\<close> follows one process
    of a distributed image, \<^verbatim>\<open>Compressed_Image\<close> all of them: the result does not depend on the number
    of processes, as long as each of them has rows to compress. \<^verbatim>\<open>Compressor_Seq\<close>: the sequential method, with
    the same result.
  \<^item> \<^verbatim>\<open>Pipe_Actor\<close> (src/src/examples/pipeactor/src/main.cpp): three actors and their client; a vector one actor
    produces is fetched by the next one, twice, and added up. \<^verbatim>\<open>Relay_Actor\<close>
    (src/src/examples/relayvector/src/relayvector.cpp): an actor that scatters a vector over its processes and hands it back.

  \<^bold>\<open>Conventions.\<close> A class is a record, a method a function from the state to \<^typ>\<open>'a result\<close>: the
  new state, or the failed assertion, undefined behaviour, failed allocation, error of MPI or
  deadlock the code runs into. \<^verbatim>\<open>int\<close> is \<^typ>\<open>c_int\<close> (32 bits, signed overflow is a failure where
  the code adds), \<^verbatim>\<open>size_t\<close> is \<^typ>\<open>size_t\<close> (64 bits, wraps). A \<^verbatim>\<open>double\<close> is a rational number, every operation
  rounded to 53 binary digits, ties to even; the exponents that occur are far from the limits. Memory is a list of bytes and every
  access is checked. Assertions are enabled. The platform is little endian with 4-byte \<^verbatim>\<open>int\<close>,
  8-byte \<^verbatim>\<open>size_t\<close> and the usual alignment. Messages handed to MPI are recorded in order. A loop
  that waits for messages is a recursion on the messages that will arrive, so there is no fuel:
  the lists are as long as one likes, and waiting for one more message than arrives is
  \<^const>\<open>Deadlock\<close> or an explicit flag.

  \<^bold>\<open>Parameters.\<close> What \<^verbatim>\<open>new\<close> returns (\<^typ>\<open>block\<close>), the results of collective MPI operations and of
  Boost (\<^typ>\<open>server_env\<close>, \<^typ>\<open>boost_archive\<close>), the messages that arrive (\<^typ>\<open>network\<close>) and
  the methods of the user's classes. \<^const>\<open>boost_ok\<close> states what is used of Boost: a value that was
  saved is loaded again.

  \<^bold>\<open>Size limits\<close> in the theorems are those of the code: a message is shorter than \<open>2 ^ 31\<close> bytes
  because its size is an \<^verbatim>\<open>int\<close>, a description has at most 89478484 parts for the same reason, and
  \<^verbatim>\<open>div_range\<close> computes in \<^verbatim>\<open>int\<close>.

  \<^bold>\<open>Errors the model shows\<close> have theorems of their own: the overflow and the narrowing in \<^verbatim>\<open>div_range\<close>, the truncated
  offsets of gathered descriptions, the mutex that stays locked after a request out of bounds,
  answers that overtake each other, fetched pieces sent from the wrong place, the byte read beyond
  a vector in \<^verbatim>\<open>sendKeyedFutureValue\<close>, methods that were never registered, a prefetch before the
  worker thread has started, an actor of an unknown class, the inverted check of the thread
  level of MPI, images loaded with gaps, from missing files, or to a buffer that is too small or was
  never registered, a block of the database read beyond its end, the buffer of the sequential
  compressor that an image with a header overflows, a compressor with more processes than rows
  of squares, the sum of the pipeline that exceeds an \<^verbatim>\<open>int\<close>, and the buffer of the relay that is too small
  unless the number of processes divides the size of the vector.

  \<^bold>\<open>Not modelled.\<close> BSPlib and BSPonMPI, MPI and Boost are not part of the repository; the classes that
  pass every call on to them (ActiveBSPlib.cpp, most of MPIWrapper.cpp) have no state. The
  singletons and factories that only hand objects to each other (SyntaxHelper, ActorSharedMemory and
  the factories) are replaced by arguments. Logging and time measurement only print. The tests and
  the examples that only drive actors for benchmarks are left out.
\<close>

end
